(* ===== verification/Prelude.thy ===== *)
theory Prelude
  imports Main "HOL-Library.AList" "HOL-Library.Product_Lexorder"
begin

text \<open>
  What the component theories share: the names of the model's basic types, the JavaScript
  \<open>Map\<close> (an association list in insertion order), the selection of the first best element
  of a list (the meaning of \<open>ORDER BY ... LIMIT 1\<close>, of a stable \<open>sort\<close> followed by
  \<open>[0]\<close> and of a scan that keeps the first strictly better candidate), conditional
  updates of table rows with their change count, and the collections of simplification facts
  that the component proofs draw on.

  Time is an \<open>int\<close> counting epoch milliseconds. Where the source stores ISO-8601 UTC strings
  written by \<open>toISOString()\<close> and compares them as text, the model compares the instants:
  these strings have a fixed width for the years 0 to 9999, so both orders agree.
\<close>

type_synonym ms = int
type_synonym ident = string

named_theorems js_map "facts about insertion-ordered maps"
named_theorems table_simps "facts about conditional row updates"

text \<open>The operator \<open>??\<close>, with the default first.\<close>

definition or_else :: "'a \<Rightarrow> 'a option \<Rightarrow> 'a" where
  "or_else d x = (case x of None \<Rightarrow> d | Some v \<Rightarrow> v)"

lemma or_else_simps [simp]: "or_else d None = d" "or_else d (Some v) = v"
  by (simp_all add: or_else_def)

subsection \<open>The insertion-ordered map\<close>

text \<open>
  \<open>Map.prototype.set\<close> overwrites in place when the key is present and appends otherwise,
  which is \<open>AList.update\<close>; \<open>delete\<close> removes the key.
\<close>

type_synonym ('k, 'v) jsmap = "('k \<times> 'v) list"

abbreviation jm_get :: "('k, 'v) jsmap \<Rightarrow> 'k \<Rightarrow> 'v option" where
  "jm_get m k \<equiv> map_of m k"

abbreviation jm_set :: "('k, 'v) jsmap \<Rightarrow> 'k \<Rightarrow> 'v \<Rightarrow> ('k, 'v) jsmap" where
  "jm_set m k v \<equiv> AList.update k v m"

abbreviation jm_del :: "('k, 'v) jsmap \<Rightarrow> 'k \<Rightarrow> ('k, 'v) jsmap" where
  "jm_del m k \<equiv> AList.delete k m"

abbreviation jm_wf :: "('k, 'v) jsmap \<Rightarrow> bool" where
  "jm_wf m \<equiv> distinct (map fst m)"

lemma jm_get_set [js_map]: "jm_get (jm_set m k v) k' = (if k' = k then Some v else jm_get m k')"
  by (simp add: update_conv')

lemma jm_get_del [js_map]: "jm_get (jm_del m k) k' = (if k' = k then None else jm_get m k')"
  by (simp add: delete_conv')

lemma jm_wf_set [js_map, intro]: "jm_wf m \<Longrightarrow> jm_wf (jm_set m k v)"
  by (rule distinct_update)

lemma jm_wf_del [js_map, intro]: "jm_wf m \<Longrightarrow> jm_wf (jm_del m k)"
  by (rule distinct_delete)

lemma jm_set_keys [js_map]: "set (map fst (jm_set m k v)) = insert k (set (map fst m))"
  by (induction m) auto

lemma jm_set_image: "fst ` set (jm_set m k v) = insert k (fst ` set m)"
  by (induction m) auto

lemma jm_del_image: "fst ` set (jm_del m k) = fst ` set m - {k}"
  by (induction m) auto

lemma jm_set_mem: "(j, w) \<in> set (jm_set m k v) \<Longrightarrow> (j, w) \<in> set m \<or> j = k \<and> w = v"
  by (induction m) (auto split: if_splits)

lemma jm_del_mem: "(j, w) \<in> set (jm_del m k) \<Longrightarrow> (j, w) \<in> set m"
  by (induction m) (auto split: if_splits)

lemma jm_set_not_Nil [simp]: "jm_set m k v \<noteq> []"
  by (cases m) auto

lemma jm_get_keys: "jm_get m k = Some v \<Longrightarrow> k \<in> set (map fst m)"
  by (induction m) (auto split: if_splits)

lemma jm_mem_get: "jm_wf m \<Longrightarrow> (k, v) \<in> set m \<longleftrightarrow> jm_get m k = Some v"
  by (simp add: map_of_eq_Some_iff)

text \<open>Adding one value per entry: how a total changes when one entry is set or removed.\<close>

definition jm_sum :: "('v \<Rightarrow> int) \<Rightarrow> ('k, 'v) jsmap \<Rightarrow> int" where
  "jm_sum f m = sum_list (map (f \<circ> snd) m)"

lemma jm_sum_set: "jm_wf m \<Longrightarrow>
  jm_sum f (jm_set m k v) = jm_sum f m + f v - (case jm_get m k of None \<Rightarrow> 0 | Some w \<Rightarrow> f w)"
  by (induction m) (auto simp: jm_sum_def)

lemma jm_del_other: "k \<notin> set (map fst m) \<Longrightarrow> jm_del m k = m"
  by (induction m) auto

lemma jm_sum_del: "jm_wf m \<Longrightarrow>
  jm_sum f (jm_del m k) = jm_sum f m - (case jm_get m k of None \<Rightarrow> 0 | Some w \<Rightarrow> f w)"
proof (induction m)
  case Nil
  then show ?case by (simp add: jm_sum_def)
next
  case (Cons p m)
  then show ?case by (cases p) (auto simp: jm_sum_def jm_del_other)
qed

lemma jm_sum_nonneg: "(\<And>k v. (k, v) \<in> set m \<Longrightarrow> 0 \<le> f v) \<Longrightarrow> 0 \<le> jm_sum f m"
  unfolding jm_sum_def by (rule sum_list_nonneg) auto

subsection \<open>The first best element\<close>

text \<open>
  \<open>best_by key xs\<close> is the element with the least key, the first one among equals, and
  \<open>None\<close> for the empty list.
\<close>

definition best_by :: "('a \<Rightarrow> 'k::linorder) \<Rightarrow> 'a list \<Rightarrow> 'a option" where
  "best_by key xs = (if xs = [] then None else Some (arg_min_list key xs))"

lemma best_by_None [simp]: "best_by key xs = None \<longleftrightarrow> xs = []"
  by (simp add: best_by_def)

lemma best_by_in: "best_by key xs = Some x \<Longrightarrow> x \<in> set xs"
  by (auto simp: best_by_def intro: arg_min_list_in split: if_splits)

lemma best_by_least: "best_by key xs = Some x \<Longrightarrow> y \<in> set xs \<Longrightarrow> key x \<le> key y"
  by (auto simp: best_by_def f_arg_min_list_f split: if_splits)

lemma best_by_Some: "xs \<noteq> [] \<Longrightarrow> \<exists>x. best_by key xs = Some x"
  by (simp add: best_by_def)

subsection \<open>Conditional row updates\<close>

text \<open>
  \<open>UPDATE t SET upd WHERE p\<close> on a table held as the list of its rows, with the number of
  rows changed (\<open>info.changes\<close>), and \<open>DELETE FROM t WHERE p\<close>.
\<close>

definition sql_update :: "('r \<Rightarrow> bool) \<Rightarrow> ('r \<Rightarrow> 'r) \<Rightarrow> 'r list \<Rightarrow> 'r list \<times> nat" where
  "sql_update p upd rows = (map (\<lambda>r. if p r then upd r else r) rows, length (filter p rows))"

definition sql_delete :: "('r \<Rightarrow> bool) \<Rightarrow> 'r list \<Rightarrow> 'r list \<times> nat" where
  "sql_delete p rows = (filter (\<lambda>r. \<not> p r) rows, length (filter p rows))"

lemma sql_update_rows [table_simps]:
  "fst (sql_update p upd rows) = map (\<lambda>r. if p r then upd r else r) rows"
  by (simp add: sql_update_def)

lemma sql_update_changes [table_simps]: "0 < snd (sql_update p upd rows) \<longleftrightarrow> (\<exists>r\<in>set rows. p r)"
  by (induction rows) (auto simp: sql_update_def)

lemma sql_delete_rows [table_simps]: "fst (sql_delete p rows) = filter (\<lambda>r. \<not> p r) rows"
  by (simp add: sql_delete_def)

lemma sql_delete_changes [table_simps]: "0 < snd (sql_delete p rows) \<longleftrightarrow> (\<exists>r\<in>set rows. p r)"
  by (induction rows) (auto simp: sql_delete_def)

lemma sql_update_keys [table_simps]:
  "(\<And>r. key (upd r) = key r) \<Longrightarrow> map key (fst (sql_update p upd rows)) = map key rows"
  by (induction rows) (auto simp: sql_update_def)

lemma distinct_filter_key: "distinct (map key rows) \<Longrightarrow> distinct (map key (filter p rows))"
  by (induction rows) auto

lemma distinct_key_eq: "distinct (map key rows) \<Longrightarrow> a \<in> set rows \<Longrightarrow> b \<in> set rows
  \<Longrightarrow> key a = key b \<Longrightarrow> a = b"
  by (auto simp: distinct_map dest: inj_onD)

text \<open>The row with a given primary key.\<close>

definition row_by :: "('r \<Rightarrow> 'k) \<Rightarrow> 'k \<Rightarrow> 'r list \<Rightarrow> 'r option" where
  "row_by key k rows = find (\<lambda>r. key r = k) rows"

lemma row_by_Some: "row_by key k rows = Some r \<Longrightarrow> r \<in> set rows \<and> key r = k"
  by (induction rows) (auto simp: row_by_def split: if_splits)

lemma row_by_None: "row_by key k rows = None \<longleftrightarrow> k \<notin> key ` set rows"
  by (induction rows) (auto simp: row_by_def)

lemma row_by_mem: "distinct (map key rows) \<Longrightarrow> r \<in> set rows \<Longrightarrow> row_by key (key r) rows = Some r"
  by (induction rows) (force simp: row_by_def)+

lemma row_by_append:
  "row_by key k (xs @ ys) = (case row_by key k xs of None \<Rightarrow> row_by key k ys | Some r \<Rightarrow> Some r)"
  by (induction xs) (auto simp: row_by_def)

lemma row_by_filter: "distinct (map key rows) \<Longrightarrow> row_by key k (filter q rows)
  = (case row_by key k rows of None \<Rightarrow> None | Some r \<Rightarrow> if q r then Some r else None)"
proof (induction rows)
  case (Cons r rows)
  then show ?case
    using row_by_None [of key "key r" rows] by (auto simp: row_by_def split: option.splits)
qed (simp add: row_by_def)

lemma row_by_update: "(\<And>r. key (upd r) = key r) \<Longrightarrow>
  row_by key k (map (\<lambda>r. if p r then upd r else r) rows)
    = map_option (\<lambda>r. if p r then upd r else r) (row_by key k rows)"
  by (induction rows) (auto simp: row_by_def)

lemma filter_length_mono: "(\<And>x. x \<in> set xs \<Longrightarrow> p x \<Longrightarrow> q x) \<Longrightarrow> length (filter p xs) \<le> length (filter q xs)"
  by (induction xs) auto

lemma find_Some_filter: "find p xs = Some x \<Longrightarrow> x \<in> set xs \<and> p x"
  by (induction xs) (auto split: if_splits)

lemma find_key: "distinct (map key rows) \<Longrightarrow> r \<in> set rows \<Longrightarrow> p r \<Longrightarrow>
  find (\<lambda>x. key x = key r \<and> p x) rows = Some r"
  by (induction rows) force+

subsection \<open>Tables with guarded updates\<close>

text \<open>
  The contract of a keyed table that its clients rely on: a guarded update rewrites exactly
  the rows its guard selects, keeps the keys, and reports whether it changed anything.
\<close>

locale guarded_table =
  fixes look :: "'s \<Rightarrow> 'k \<Rightarrow> 'r option"
    and upd :: "('r \<Rightarrow> bool) \<Rightarrow> ('r \<Rightarrow> 'r) \<Rightarrow> 's \<Rightarrow> 's \<times> nat"
    and wf :: "'s \<Rightarrow> bool"
    and key :: "'r \<Rightarrow> 'k"
  assumes look_upd: "wf s \<Longrightarrow> (\<And>r. key (f r) = key r) \<Longrightarrow>
      look (fst (upd p f s)) k = map_option (\<lambda>r. if p r then f r else r) (look s k)"
    and upd_wf: "wf s \<Longrightarrow> (\<And>r. key (f r) = key r) \<Longrightarrow> wf (fst (upd p f s))"
    and upd_changes: "wf s \<Longrightarrow> 0 < snd (upd p f s) \<longleftrightarrow> (\<exists>k r. look s k = Some r \<and> p r)"
    and look_key: "wf s \<Longrightarrow> look s k = Some r \<Longrightarrow> key r = k"
begin

lemma upd_none: "wf s \<Longrightarrow> (\<And>r. key (f r) = key r) \<Longrightarrow> snd (upd p f s) = 0
  \<Longrightarrow> look (fst (upd p f s)) k = look s k"
  using upd_changes [of s p f] by (cases "look s k") (auto simp: look_upd)

lemma upd_one: "wf s \<Longrightarrow> 0 < snd (upd (\<lambda>r. key r = k \<and> p r) f s)
  \<longleftrightarrow> (\<exists>r. look s k = Some r \<and> p r)"
  by (auto simp: upd_changes dest: look_key)

text \<open>An update whose result fails its own guard happens once.\<close>

lemma upd_once:
  assumes "wf s" "\<And>r. key (f r) = key r" "\<And>r. p r \<Longrightarrow> \<not> p (f r)"
  shows "snd (upd p f (fst (upd p f s))) = 0"
proof (rule ccontr)
  assume "snd (upd p f (fst (upd p f s))) \<noteq> 0"
  then obtain k r where "look (fst (upd p f s)) k = Some r" "p r"
    using upd_changes [of "fst (upd p f s)" p f] upd_wf [of s f p] assms(1,2) by auto
  then obtain r0 where "r = (if p r0 then f r0 else r0)" "p r"
    by (auto simp: look_upd [OF assms(1,2)])
  with assms(3) [of r0] show False by (auto split: if_splits)
qed

end

subsection \<open>Numbers as text\<close>

text \<open>An integer in a template literal.\<close>

fun nat_text :: "nat \<Rightarrow> string" where
  "nat_text n = (if n < 10 then [char_of (48 + n)] else nat_text (n div 10) @ [char_of (48 + n mod 10)])"

declare nat_text.simps [simp del]

definition int_text :: "int \<Rightarrow> string" where
  "int_text i = (if i < 0 then ''-'' @ nat_text (nat (- i)) else nat_text (nat i))"

end
