(* ===== verification/JsNumber.thy ===== *)
theory JsNumber
  imports Complex_Main "HOL-Library.Log_Nat"
begin

text \<open>
  JavaScript numbers. Counters, timestamps and token counts are whole numbers below
  \<open>2 ^ 53\<close>, on which IEEE double arithmetic is exact, and the model keeps them as \<open>int\<close>.
  Where the source multiplies or divides by a fraction (token estimates, prices), the result
  depends on the rounding of each operation, so the model rounds it too: a double is a
  \<open>rat\<close>, and every operation is the exact one followed by \<open>fl\<close>, the rounding to a
  53-bit significand, to nearest with ties to even. Overflow, subnormal results and the two
  zeros are left out: no value of the modelled code comes near them.

  The locale \<open>rounding\<close> states what the clients rely on; \<open>fl\<close> interprets it.
\<close>

definition rhe :: "rat \<Rightarrow> int" where
  "rhe x = (let f = \<lfloor>x\<rfloor>; d = x - of_int f in
     if d < 1/2 then f else if 1/2 < d then f + 1 else if even f then f else f + 1)"

definition ilog2 :: "rat \<Rightarrow> int" where
  "ilog2 x = (let (p, q) = quotient_of x; e = bitlen p - bitlen q
     in if 2 powi e \<le> x then e else e - 1)"

definition fl_pos :: "rat \<Rightarrow> rat" where
  "fl_pos x = (let u = 2 powi (ilog2 x - 52) in of_int (rhe (x / u)) * u)"

definition fl :: "rat \<Rightarrow> rat" where
  "fl x = (if x = 0 then 0 else if x < 0 then - fl_pos (- x) else fl_pos x)"

text \<open>
  A value of type \<open>number\<close> that may not be finite, for the guards of the source that test
  it with \<open>Number.isFinite\<close>.
\<close>

datatype js_num = Num rat | NaN | PosInf | NegInf

text \<open>\<open>Math.round\<close>: half-way values go up.\<close>

definition js_round :: "rat \<Rightarrow> int" where
  "js_round x = \<lfloor>x + 1/2\<rfloor>"

subsection \<open>Rounding to an integer\<close>

lemma rhe_of_int [simp]: "rhe (of_int n) = n"
  by (simp add: rhe_def)

lemma rhe_cases: "rhe x = \<lfloor>x\<rfloor> \<or> rhe x = \<lfloor>x\<rfloor> + 1"
  by (simp add: rhe_def Let_def)

lemma rhe_err: "\<bar>of_int (rhe x) - x\<bar> \<le> 1/2"
  unfolding rhe_def Let_def using of_int_floor_le [of x] floor_correct [of x]
  by (auto simp: abs_le_iff)

lemma rhe_mono:
  assumes "x \<le> y"
  shows "rhe x \<le> rhe y"
proof (cases "\<lfloor>x\<rfloor> = \<lfloor>y\<rfloor>")
  case True
  with assms show ?thesis by (auto simp: rhe_def Let_def)
next
  case False
  with floor_mono [OF assms] have "\<lfloor>x\<rfloor> + 1 \<le> \<lfloor>y\<rfloor>" by linarith
  with rhe_cases [of x] rhe_cases [of y] show ?thesis by linarith
qed

lemma rhe_ge: "of_int n \<le> x \<Longrightarrow> n \<le> rhe x"
  using rhe_mono [of "of_int n" x] by simp

lemma rhe_le: "x \<le> of_int n \<Longrightarrow> rhe x \<le> n"
  using rhe_mono [of x "of_int n"] by simp

subsection \<open>The binary exponent\<close>

lemma two_powi_nat: "0 \<le> n \<Longrightarrow> (2::rat) powi n = 2 ^ nat n"
  by (simp add: power_int_def)

lemma bitlen_powi:
  assumes "0 < p"
  shows "2 powi (bitlen p - 1) \<le> (of_int p :: rat)" "(of_int p :: rat) < 2 powi bitlen p"
proof -
  from bitlen_bounds [OF assms] have b: "2 ^ nat (bitlen p - 1) \<le> p" "p < 2 ^ nat (bitlen p)"
    by auto
  from assms have pos: "0 \<le> bitlen p - 1" "0 \<le> bitlen p"
    using bitlen_nonneg [of p] bitlen_eq_zero_iff [of p] by linarith+
  from b(1) have "(of_int (2 ^ nat (bitlen p - 1)) :: rat) \<le> of_int p"
    by (rule of_int_le_iff [THEN iffD2])
  with pos show "2 powi (bitlen p - 1) \<le> (of_int p :: rat)" by (simp add: two_powi_nat)
  from b(2) have "(of_int p :: rat) < of_int (2 ^ nat (bitlen p))"
    by (rule of_int_less_iff [THEN iffD2])
  with pos show "(of_int p :: rat) < 2 powi bitlen p" by (simp add: two_powi_nat)
qed

lemma ilog2_bounds:
  assumes "0 < x"
  shows "2 powi ilog2 x \<le> x" "x < 2 powi (ilog2 x + 1)"
proof -
  obtain p q where pq: "quotient_of x = (p, q)" by (cases "quotient_of x")
  then have x: "x = of_int p / of_int q" and q: "0 < q"
    by (auto dest: quotient_of_div quotient_of_denom_pos)
  with assms have p: "0 < p" by (simp add: zero_less_divide_iff)
  let ?e = "bitlen p - bitlen q"
  note bp = bitlen_powi [OF p] and bq = bitlen_powi [OF q]
  have up: "x < 2 powi (?e + 1)"
  proof -
    have "x * 2 powi (bitlen q - 1) \<le> of_int p"
      using bq(1) q p unfolding x by (simp add: field_simps)
    with bp(2) have "x * 2 powi (bitlen q - 1) < 2 powi bitlen p" by simp
    also have "2 powi bitlen p = (2::rat) powi (?e + 1) * 2 powi (bitlen q - 1)"
      by (simp flip: power_int_add)
    finally show ?thesis by simp
  qed
  have low: "2 powi (?e - 1) \<le> x"
  proof -
    have "2 powi (?e - 1) * 2 powi bitlen q = (2::rat) powi (bitlen p - 1)"
      by (simp flip: power_int_add)
    with bp(1) have "2 powi (?e - 1) * 2 powi bitlen q \<le> x * of_int q" using q x by simp
    also have "\<dots> \<le> x * 2 powi bitlen q" using assms bq(2) by simp
    finally show ?thesis by simp
  qed
  show "2 powi ilog2 x \<le> x" "x < 2 powi (ilog2 x + 1)"
    using up low by (auto simp: ilog2_def pq Let_def)
qed

lemma powi_less_exp: "(2::rat) powi a < 2 powi b \<Longrightarrow> a < b"
  by (metis not_le power_int_increasing one_le_numeral)

lemma ilog2_unique:
  assumes "2 powi e \<le> x" "x < 2 powi (e + 1)"
  shows "ilog2 x = e"
proof -
  from assms(1) have pos: "0 < x" using zero_less_power_int [of 2 e] by (meson less_le_trans zero_less_numeral)
  note b = ilog2_bounds [OF pos]
  have "ilog2 x < e + 1" by (rule powi_less_exp) (rule le_less_trans [OF b(1) assms(2)])
  moreover have "e < ilog2 x + 1" by (rule powi_less_exp) (rule le_less_trans [OF assms(1) b(2)])
  ultimately show ?thesis by simp
qed

lemma ilog2_mono:
  assumes "0 < x" "x \<le> y"
  shows "ilog2 x \<le> ilog2 y"
proof -
  have "2 powi ilog2 x < (2::rat) powi (ilog2 y + 1)"
    using ilog2_bounds [of x] ilog2_bounds [of y] assms by auto
  then show ?thesis using powi_less_exp by fastforce
qed


subsection \<open>Rounding to a double\<close>

lemma powi_52: "(2::rat) powi e = 2 ^ 52 * 2 powi (e - 52)"
  using power_int_add [of "2::rat" 52 "e - 52"] by (simp add: two_powi_nat)

lemma powi_53: "(2::rat) powi (e + 1) = 2 ^ 53 * 2 powi (e - 52)"
proof -
  have "53 + (e - 52) = e + 1" by simp
  with power_int_add [of "2::rat" 53 "e - 52"]
  have "(2::rat) powi (e + 1) = 2 powi 53 * 2 powi (e - 52)" by simp
  then show ?thesis by (simp only: two_powi_nat) simp
qed

lemma scaled_bounds:
  assumes "0 < x"
  shows "2 ^ 52 \<le> x / 2 powi (ilog2 x - 52)" "x / 2 powi (ilog2 x - 52) < 2 ^ 53"
proof -
  from ilog2_bounds [OF assms] powi_52 [of "ilog2 x"] powi_53 [of "ilog2 x"]
  show "2 ^ 52 \<le> x / 2 powi (ilog2 x - 52)" "x / 2 powi (ilog2 x - 52) < 2 ^ 53"
    by (simp_all add: le_divide_eq divide_less_eq)
qed

lemma fl_pos_bounds:
  assumes "0 < x"
  shows "2 powi ilog2 x \<le> fl_pos x" "fl_pos x \<le> 2 powi (ilog2 x + 1)"
proof -
  let ?u = "(2::rat) powi (ilog2 x - 52)" and ?m = "rhe (x / 2 powi (ilog2 x - 52))"
  have m: "2 ^ 52 \<le> ?m" "?m \<le> 2 ^ 53"
    using scaled_bounds [OF assms] by (auto intro!: rhe_ge rhe_le)
  have e: "(2::rat) powi ilog2 x = of_int (2 ^ 52) * ?u"
    using powi_52 [of "ilog2 x"] by simp
  have e1: "(2::rat) powi (ilog2 x + 1) = of_int (2 ^ 53) * ?u"
    using powi_53 [of "ilog2 x"] by simp
  have f: "fl_pos x = of_int ?m * ?u" by (simp add: fl_pos_def Let_def)
  show "2 powi ilog2 x \<le> fl_pos x"
    unfolding e f using m(1) by (intro mult_right_mono) (auto simp flip: of_int_le_iff)
  show "fl_pos x \<le> 2 powi (ilog2 x + 1)"
    unfolding e1 f using m(2) by (intro mult_right_mono) (auto simp flip: of_int_le_iff)
qed

lemma fl_pos_gt_0: "0 < x \<Longrightarrow> 0 < fl_pos x"
  using fl_pos_bounds(1) [of x] zero_less_power_int [of "2::rat" "ilog2 x"]
  by (meson less_le_trans zero_less_numeral)

lemma fl_pos_mono:
  assumes "0 < x" "x \<le> y"
  shows "fl_pos x \<le> fl_pos y"
proof (cases "ilog2 x = ilog2 y")
  case True
  then have "rhe (x / 2 powi (ilog2 x - 52)) \<le> rhe (y / 2 powi (ilog2 y - 52))"
    using assms by (intro rhe_mono) (simp add: divide_right_mono)
  with True show ?thesis by (simp add: fl_pos_def Let_def mult_right_mono)
next
  case False
  with ilog2_mono [OF assms] have "ilog2 x + 1 \<le> ilog2 y" by simp
  then have "(2::rat) powi (ilog2 x + 1) \<le> 2 powi ilog2 y"
    by (intro power_int_increasing) auto
  with fl_pos_bounds(2) [of x] fl_pos_bounds(1) [of y] assms show ?thesis by auto
qed

lemma fl_pos_err:
  assumes "0 < x"
  shows "\<bar>fl_pos x - x\<bar> \<le> x / 2 ^ 53"
proof -
  let ?u = "(2::rat) powi (ilog2 x - 52)"
  have u: "0 < ?u" by simp
  have "fl_pos x - x = (of_int (rhe (x / ?u)) - x / ?u) * ?u"
    using u by (simp add: fl_pos_def Let_def algebra_simps)
  then have "\<bar>fl_pos x - x\<bar> = \<bar>of_int (rhe (x / ?u)) - x / ?u\<bar> * ?u"
    using u by (simp add: abs_mult)
  also have "\<dots> \<le> 1/2 * ?u" using rhe_err [of "x / ?u"] u by (intro mult_right_mono) auto
  also have "1/2 * ?u \<le> x / 2 ^ 53"
    using scaled_bounds(1) [OF assms] u by (simp add: le_divide_eq)
  finally show ?thesis .
qed

text \<open>A whole multiple of a power of two with at most 53 significant bits is a double.\<close>

lemma ilog2_int_le:
  assumes "0 < m" "m \<le> 2 ^ 53"
  shows "ilog2 (of_int m * 2 powi k) - 52 - k \<le> 1 \<and>
    (ilog2 (of_int m * 2 powi k) - 52 - k = 1 \<longrightarrow> m = 2 ^ 53)"
proof -
  let ?x = "of_int m * 2 powi k :: rat" and ?d = "ilog2 (of_int m * 2 powi k) - 52 - k"
  have pos: "0 < ?x" using assms by simp
  have "(2::rat) powi (52 + ?d) * 2 powi k = 2 powi ilog2 ?x"
    by (simp flip: power_int_add)
  also have "\<dots> \<le> ?x" by (rule ilog2_bounds(1) [OF pos])
  finally have le: "(2::rat) powi (52 + ?d) \<le> of_int m" by simp
  have m: "(of_int m :: rat) \<le> of_int (2 ^ 53)" using assms(2) by (rule of_int_le_iff [THEN iffD2])
  then have m': "(of_int m :: rat) \<le> 2 powi 53" by (simp add: two_powi_nat)
  have "?d \<le> 1"
  proof (rule ccontr)
    assume "\<not> ?d \<le> 1"
    then have "(2::rat) powi 53 < 2 powi (52 + ?d)"
      by (intro power_int_strict_increasing) auto
    with le m' show False by simp
  qed
  moreover have "m = 2 ^ 53" if "?d = 1"
  proof -
    from le that have "(of_int (2 ^ 53) :: rat) \<le> of_int m" by (simp add: two_powi_nat)
    then have "2 ^ 53 \<le> m" by (simp only: of_int_le_iff)
    with assms show ?thesis by simp
  qed
  ultimately show ?thesis by blast
qed

lemma fl_pos_dyadic:
  assumes "0 < m" "m \<le> 2 ^ 53"
  shows "fl_pos (of_int m * 2 powi k) = of_int m * 2 powi k"
proof -
  let ?x = "of_int m * 2 powi k :: rat" and ?d = "ilog2 (of_int m * 2 powi k) - 52 - k"
  let ?u = "(2::rat) powi (ilog2 ?x - 52)"
  have u: "?u = 2 powi ?d * 2 powi k" by (simp flip: power_int_add)
  have "\<exists>n. ?x / ?u = of_int n"
  proof (cases "?d = 1")
    case True
    with ilog2_int_le [OF assms] have "m = 2 ^ 53" by blast
    with u True have "?x / ?u = of_int (2 ^ 53) * 2 powi k / (2 powi 1 * 2 powi k)" by metis
    then have "?x / ?u = of_int (2 ^ 52)" by simp
    then show ?thesis by blast
  next
    case False
    with ilog2_int_le [OF assms, of k] have d: "?d \<le> 0" by linarith
    have "?x / ?u = of_int m / 2 powi ?d" unfolding u by simp
    also have "\<dots> = of_int m * 2 powi (- ?d)" by (simp only: power_int_minus divide_inverse)
    also have "\<dots> = of_int (m * 2 ^ nat (- ?d))" using d by (simp add: two_powi_nat)
    finally show ?thesis by blast
  qed
  then obtain n where n: "?x / ?u = of_int n" by blast
  then have "?x = of_int n * ?u" by (simp add: field_simps)
  with n show ?thesis by (simp add: fl_pos_def Let_def)
qed

subsection \<open>The laws of a correctly rounded arithmetic\<close>

locale rounding =
  fixes rnd :: "rat \<Rightarrow> rat"
  assumes mono: "x \<le> y \<Longrightarrow> rnd x \<le> rnd y"
    and err: "\<bar>rnd x - x\<bar> \<le> \<bar>x\<bar> / 2 ^ 53"
    and quarter: "0 \<le> n \<Longrightarrow> n \<le> 2 ^ 53 \<Longrightarrow> rnd (of_int n / 4) = of_int n / 4"
    and scale4: "rnd (rnd x * 4) = rnd x * 4"
    and whole: "0 \<le> n \<Longrightarrow> n \<le> 2 ^ 53 \<Longrightarrow> rnd (of_int n) = of_int n"
begin

lemma zero [simp]: "rnd 0 = 0"
  using whole [of 0] by simp

lemma nonneg: "0 \<le> x \<Longrightarrow> 0 \<le> rnd x"
  using mono [of 0 x] by simp

lemma upper: "0 \<le> x \<Longrightarrow> rnd x \<le> x + x / 2 ^ 53"
  using err [of x] by linarith

lemma below_int: "x \<le> of_int n \<Longrightarrow> 0 \<le> n \<Longrightarrow> n \<le> 2 ^ 53 \<Longrightarrow> rnd x \<le> of_int n"
  using mono [of x "of_int n"] whole [of n] by simp

lemma above_int: "of_int n \<le> x \<Longrightarrow> 0 \<le> n \<Longrightarrow> n \<le> 2 ^ 53 \<Longrightarrow> of_int n \<le> rnd x"
  using mono [of "of_int n" x] whole [of n] by simp

text \<open>
  Dividing by \<open>c\<close> and multiplying the result, or anything below it, by \<open>c\<close> again
  overshoots by less than one, whatever the two roundings do.
\<close>

lemma div_mult_overshoot:
  assumes c: "1 \<le> c" and m: "0 \<le> m" "m \<le> 2 ^ 50" and q: "q \<le> rnd (m / c)"
  shows "rnd (q * c) < m + 1"
proof -
  have "0 \<le> m / c" using c m by simp
  then have "rnd (m / c) \<le> m / c + m / c / 2 ^ 53" by (rule upper)
  with q c have "q * c \<le> (m / c + m / c / 2 ^ 53) * c" by (intro mult_right_mono) auto
  also have "\<dots> = m + m / 2 ^ 53" using c by (simp add: field_simps)
  finally have "rnd (q * c) \<le> rnd (m + m / 2 ^ 53)" by (rule mono)
  also have "\<dots> \<le> (m + m / 2 ^ 53) + (m + m / 2 ^ 53) / 2 ^ 53"
    using m by (intro upper) auto
  also have "\<dots> < m + 1" using m by simp
  finally show ?thesis .
qed

end

lemma fl_minus: "fl (- x) = - fl x"
  by (simp add: fl_def)

lemma fl_nonneg': "0 \<le> x \<Longrightarrow> 0 \<le> fl x"
  using fl_pos_gt_0 [of x] by (auto simp: fl_def)

lemma fl_mono':
  assumes "x \<le> y"
  shows "fl x \<le> fl y"
proof -
  consider "0 < x" | "y < 0" | "x \<le> 0" "0 \<le> y" by linarith
  then show ?thesis
  proof cases
    case 1
    with assms show ?thesis by (simp add: fl_def fl_pos_mono)
  next
    case 2
    with assms show ?thesis using fl_pos_mono [of "- y" "- x"] by (simp add: fl_def)
  next
    case 3
    then have "fl x \<le> 0" "0 \<le> fl y"
      using fl_nonneg' [of "- x"] fl_nonneg' [of y] by (auto simp: fl_minus)
    then show ?thesis by simp
  qed
qed

lemma fl_err': "\<bar>fl x - x\<bar> \<le> \<bar>x\<bar> / 2 ^ 53"
proof (cases "x < 0")
  case True
  then have "\<bar>fl x - x\<bar> = \<bar>fl_pos (- x) - (- x)\<bar>" by (simp add: fl_def abs_minus_commute)
  with True fl_pos_err [of "- x"] show ?thesis by simp
next
  case False
  with fl_pos_err [of x] show ?thesis by (auto simp: fl_def)
qed

lemma fl_dyadic: "0 \<le> m \<Longrightarrow> m \<le> 2 ^ 53 \<Longrightarrow> fl (of_int m * 2 powi k) = of_int m * 2 powi k"
proof -
  assume m: "0 \<le> m" "m \<le> 2 ^ 53"
  then have "\<not> of_int m * 2 powi k < (0::rat)" by (simp add: not_less)
  with m fl_pos_dyadic [of m k] show ?thesis by (cases "m = 0") (simp_all add: fl_def)
qed

lemma fl_pos_scale:
  assumes "0 < x"
  shows "fl_pos (fl_pos x * 4) = fl_pos x * 4"
proof -
  let ?m = "rhe (x / 2 powi (ilog2 x - 52))"
  have m: "0 < ?m" "?m \<le> 2 ^ 53"
    using scaled_bounds [OF assms] by (auto intro!: rhe_le less_le_trans [OF _ rhe_ge [of "2 ^ 52"]])
  have "(2::rat) powi (ilog2 x - 52 + 2) = 2 powi (ilog2 x - 52) * 4"
    by (subst power_int_add) (auto simp: power_int_def)
  then have "fl_pos x * 4 = of_int ?m * 2 powi (ilog2 x - 52 + 2)"
    by (simp add: fl_pos_def Let_def)
  then show ?thesis using fl_pos_dyadic [OF m] by simp
qed

interpretation js: rounding fl
proof
  fix x y :: rat
  show "x \<le> y \<Longrightarrow> fl x \<le> fl y" by (rule fl_mono')
  show "\<bar>fl x - x\<bar> \<le> \<bar>x\<bar> / 2 ^ 53" by (rule fl_err')
  show "fl (fl x * 4) = fl x * 4"
    using fl_pos_scale [of x] fl_pos_scale [of "- x"] fl_pos_gt_0 [of x] fl_pos_gt_0 [of "- x"]
    by (auto simp: fl_def)
next
  fix n :: int
  assume n: "0 \<le> n" "n \<le> 2 ^ 53"
  show "fl (of_int n / 4) = of_int n / 4"
    using fl_dyadic [OF n, of "-2"] by (simp add: power_int_def power2_eq_square)
  show "fl (of_int n) = of_int n"
    using fl_dyadic [OF n, of 0] by simp
qed

text \<open>Evaluating a rounding at a concrete value.\<close>

lemma rhe_near: "\<bar>y - of_int n\<bar> < 1/2 \<Longrightarrow> rhe y = n"
proof -
  assume a: "\<bar>y - of_int n\<bar> < 1/2"
  have "\<bar>of_int (rhe y) - of_int n :: rat\<bar> < 1" using a rhe_err [of y] by linarith
  then have "\<bar>of_int (rhe y - n) :: rat\<bar> < 1" by simp
  then have "\<bar>rhe y - n\<bar> < 1" by linarith
  then show ?thesis by simp
qed

lemma fl_near:
  assumes "2 ^ 52 \<le> x * 2 ^ k" "x * 2 ^ k < 2 ^ 53" "\<bar>x * 2 ^ k - of_int n\<bar> < 1/2"
  shows "fl x = of_int n / 2 ^ k"
proof -
  have pos: "0 < x" using assms(1) by (smt (verit) zero_less_mult_pos2 zero_less_power zero_less_numeral less_le_trans)
  have p: "(2::rat) powi (52 - int k) = 2 ^ 52 / 2 ^ k" "(2::rat) powi (52 - int k + 1) = 2 ^ 53 / 2 ^ k"
    "(2::rat) powi (- int k) = 1 / 2 ^ k"
    using power_int_diff [of "2::rat" 52 "int k"] power_int_diff [of "2::rat" 53 "int k"]
    by (simp_all add: two_powi_nat power_int_minus field_simps)
  have "ilog2 x = 52 - int k"
    using assms(1,2) by (intro ilog2_unique) (simp_all only: p, simp_all add: field_simps)
  moreover have "rhe (x * 2 ^ k) = n" by (rule rhe_near [OF assms(3)])
  ultimately show ?thesis using pos by (simp add: fl_def fl_pos_def p Let_def)
qed

end
