(* ===== verification/CircuitBreaker.thy ===== *)
theory CircuitBreaker
  imports Prelude
begin

text \<open>
  The generic circuit breaker, \<open>backend/src/services/circuitBreaker.ts\<close>: the class with its
  lazy \<open>OPEN\<close> to \<open>HALF_OPEN\<close> move, and the interface that health checks read
  breakers through. Each operation takes the clock reading \<open>now\<close> of the call and returns the
  new object with the transition events it emitted. The registry and the summary over several
  breakers are in \<open>BreakerHealth\<close>.
\<close>

subsection \<open>State\<close>

datatype circuit_state = CLOSED | OPEN | HALF_OPEN

record breaker_options =
  opt_name :: ident
  opt_failureThreshold :: "int option"
  opt_recoveryTimeoutMs :: "int option"

record breaker_event =
  ev_name :: ident
  ev_from :: circuit_state
  ev_to :: circuit_state
  ev_timestamp :: ms

datatype circuit_error = CircuitOpenError circuit_state

record breaker =
  cb_name :: ident
  cb_state :: circuit_state
  cb_failures :: int
  cb_openedAt :: ms
  cb_lastSuccessAt :: "ms option"
  cb_lastFailureAt :: "ms option"
  cb_failureThreshold :: int
  cb_recoveryTimeoutMs :: int

record breaker_status =
  st_name :: ident
  st_state :: circuit_state
  st_failures :: int
  st_failureThreshold :: int
  st_recoveryTimeoutMs :: int
  st_openedAt :: "ms option"
  st_lastSuccessAt :: "ms option"
  st_lastFailureAt :: "ms option"

subsection \<open>Operations\<close>

definition new_breaker :: "breaker_options \<Rightarrow> breaker" where
  "new_breaker opts = \<lparr> cb_name = opt_name opts, cb_state = CLOSED, cb_failures = 0,
     cb_openedAt = 0, cb_lastSuccessAt = None, cb_lastFailureAt = None,
     cb_failureThreshold = (case opt_failureThreshold opts of None \<Rightarrow> 3 | Some n \<Rightarrow> n),
     cb_recoveryTimeoutMs = (case opt_recoveryTimeoutMs opts of None \<Rightarrow> 60000 | Some n \<Rightarrow> n) \<rparr>"

definition cb_emit :: "breaker \<Rightarrow> circuit_state \<Rightarrow> circuit_state \<Rightarrow> ms \<Rightarrow> breaker_event" where
  "cb_emit b from to now = \<lparr> ev_name = cb_name b, ev_from = from, ev_to = to, ev_timestamp = now \<rparr>"

definition cb_transition ::
  "circuit_state \<Rightarrow> circuit_state \<Rightarrow> ms \<Rightarrow> breaker \<Rightarrow> breaker \<times> breaker_event list" where
  "cb_transition from to now b = (b\<lparr>cb_state := to\<rparr>, [cb_emit b from to now])"

definition evaluateTimeout :: "ms \<Rightarrow> breaker \<Rightarrow> breaker \<times> breaker_event list" where
  "evaluateTimeout now b =
     (if cb_state b = OPEN then
        (let elapsed = now - cb_openedAt b
         in if cb_recoveryTimeoutMs b \<le> elapsed then cb_transition OPEN HALF_OPEN now b else (b, []))
      else (b, []))"

definition cb_getState :: "ms \<Rightarrow> breaker \<Rightarrow> breaker \<times> breaker_event list \<times> circuit_state" where
  "cb_getState now b = (let (b', es) = evaluateTimeout now b in (b', es, cb_state b'))"

definition cb_assertClosed ::
  "ms \<Rightarrow> breaker \<Rightarrow> breaker \<times> breaker_event list \<times> (circuit_error + unit)" where
  "cb_assertClosed now b =
     (let (b', es) = evaluateTimeout now b
      in (b', es, if cb_state b' = OPEN then Inl (CircuitOpenError OPEN) else Inr ()))"

definition cb_recordSuccess :: "ms \<Rightarrow> breaker \<Rightarrow> breaker \<times> breaker_event list" where
  "cb_recordSuccess now b =
     (let prev = cb_state b;
          b' = b\<lparr>cb_failures := 0, cb_lastSuccessAt := Some now, cb_state := CLOSED\<rparr>
      in (b', if prev \<noteq> CLOSED then [cb_emit b' prev CLOSED now] else []))"

definition cb_recordFailure :: "ms \<Rightarrow> breaker \<Rightarrow> breaker \<times> breaker_event list" where
  "cb_recordFailure now b =
     (let b1 = b\<lparr>cb_failures := cb_failures b + 1, cb_lastFailureAt := Some now\<rparr>
      in if cb_failureThreshold b1 \<le> cb_failures b1
         then (let prev = cb_state b1; b2 = b1\<lparr>cb_state := OPEN, cb_openedAt := now\<rparr>
               in (b2, if prev \<noteq> OPEN then [cb_emit b2 prev OPEN now] else []))
         else (b1, []))"

text \<open>
  \<open>execute\<close>: the gate at the time of the call; then, when \<open>fn\<close> settles at a later
  time, success or failure is recorded and its outcome passed on.
\<close>

definition cb_execute ::
  "ms \<Rightarrow> ms \<Rightarrow> ('e + 'a) \<Rightarrow> breaker
     \<Rightarrow> breaker \<times> breaker_event list \<times> ((circuit_error + 'e) + 'a)" where
  "cb_execute now settled outcome b =
     (case cb_assertClosed now b of
        (b1, es, Inl err) \<Rightarrow> (b1, es, Inl (Inl err))
      | (b1, es, Inr _) \<Rightarrow>
          (case outcome of
             Inr v \<Rightarrow> (let (b2, es2) = cb_recordSuccess settled b1 in (b2, es @ es2, Inr v))
           | Inl e \<Rightarrow> (let (b2, es2) = cb_recordFailure settled b1 in (b2, es @ es2, Inl (Inr e)))))"

definition cb_getStatus :: "ms \<Rightarrow> breaker \<Rightarrow> breaker \<times> breaker_event list \<times> breaker_status" where
  "cb_getStatus now b =
     (let (b', es) = evaluateTimeout now b
      in (b', es, \<lparr> st_name = cb_name b', st_state = cb_state b', st_failures = cb_failures b',
            st_failureThreshold = cb_failureThreshold b',
            st_recoveryTimeoutMs = cb_recoveryTimeoutMs b',
            st_openedAt = (if cb_state b' \<noteq> CLOSED then Some (cb_openedAt b') else None),
            st_lastSuccessAt = cb_lastSuccessAt b', st_lastFailureAt = cb_lastFailureAt b' \<rparr>))"

lemmas cb_ops = cb_transition_def evaluateTimeout_def cb_getState_def cb_assertClosed_def
  cb_recordSuccess_def cb_recordFailure_def cb_getStatus_def cb_emit_def Let_def

subsection \<open>Runs\<close>

text \<open>
  Calls overlap: several may have passed the gate before the first one settles. A run is any
  sequence of gate checks, outcomes and queries, each at its own time.
\<close>

datatype cb_op = CbGate | CbSuccess | CbFailure | CbQuery

fun cb_apply :: "cb_op \<Rightarrow> ms \<Rightarrow> breaker \<Rightarrow> breaker \<times> breaker_event list" where
  "cb_apply CbGate now b = (case cb_assertClosed now b of (b', es, _) \<Rightarrow> (b', es))"
| "cb_apply CbSuccess now b = cb_recordSuccess now b"
| "cb_apply CbFailure now b = cb_recordFailure now b"
| "cb_apply CbQuery now b = (case cb_getStatus now b of (b', es, _) \<Rightarrow> (b', es))"

inductive cb_reachable :: "breaker_options \<Rightarrow> breaker \<Rightarrow> bool" for opts where
  cb_new: "cb_reachable opts (new_breaker opts)"
| cb_step: "cb_reachable opts b \<Longrightarrow> cb_reachable opts (fst (cb_apply x now b))"

inductive_cases cb_reachableE: "cb_reachable opts b"

definition cb_inv :: "breaker \<Rightarrow> bool" where
  "cb_inv b \<longleftrightarrow> 0 \<le> cb_failures b \<and>
     (if cb_state b = CLOSED then cb_failures b < cb_failureThreshold b
      else cb_failureThreshold b \<le> cb_failures b)"

lemma cb_apply_frame [simp]:
  "cb_failureThreshold (fst (cb_apply x now b)) = cb_failureThreshold b"
  "cb_recoveryTimeoutMs (fst (cb_apply x now b)) = cb_recoveryTimeoutMs b"
  "cb_name (fst (cb_apply x now b)) = cb_name b"
  by (cases x; simp add: cb_ops)+

lemma cb_apply_inv: "1 \<le> cb_failureThreshold b \<Longrightarrow> cb_inv b \<Longrightarrow> cb_inv (fst (cb_apply x now b))"
  by (cases x; cases "cb_state b") (auto simp: cb_ops cb_inv_def)

lemma cb_reachable_inv:
  assumes "1 \<le> cb_failureThreshold (new_breaker opts)" and "cb_reachable opts b"
  shows "cb_inv b \<and> cb_failureThreshold b = cb_failureThreshold (new_breaker opts)"
  using assms(2)
proof induction
  case cb_new
  with assms(1) show ?case by (simp add: cb_inv_def new_breaker_def)
next
  case (cb_step b x now)
  with assms(1) show ?case by (simp add: cb_apply_inv)
qed

text \<open>
  C37. In every state a breaker with a positive threshold can reach, it is closed exactly while
  fewer than \<open>failureThreshold\<close> consecutive failures have been counted; so the next failure
  in \<open>HALF_OPEN\<close> always re-opens it.
\<close>

theorem breaker_closed_iff_below_threshold:
  assumes "1 \<le> cb_failureThreshold (new_breaker opts)" and "cb_reachable opts b"
  shows "(cb_state b = CLOSED \<longleftrightarrow> cb_failures b < cb_failureThreshold b)
    \<and> (cb_state b = HALF_OPEN \<longrightarrow> cb_state (fst (cb_recordFailure now b)) = OPEN
         \<and> cb_openedAt (fst (cb_recordFailure now b)) = now)"
  using cb_reachable_inv [OF assms]
  by (auto simp: cb_inv_def cb_recordFailure_def Let_def split: if_splits)

definition demo_opts :: breaker_options where
  "demo_opts = \<lparr> opt_name = ''svc'', opt_failureThreshold = Some 2, opt_recoveryTimeoutMs = Some 10 \<rparr>"

definition demo_half_open :: breaker where
  "demo_half_open = fst (cb_apply CbGate 13 (fst (cb_apply CbFailure 2
     (fst (cb_apply CbFailure 1 (new_breaker demo_opts))))))"

lemma demo_half_open_reachable: "cb_reachable demo_opts demo_half_open"
  unfolding demo_half_open_def by (intro cb_step cb_new)

theorem breaker_closed_iff_below_threshold_witness:
  "cb_state demo_half_open = HALF_OPEN
    \<and> cb_state (fst (cb_recordFailure 20 demo_half_open)) = OPEN"
proof -
  have h: "cb_state demo_half_open = HALF_OPEN"
    by (simp add: demo_half_open_def new_breaker_def demo_opts_def cb_ops)
  have "1 \<le> cb_failureThreshold (new_breaker demo_opts)"
    by (simp add: new_breaker_def demo_opts_def)
  from breaker_closed_iff_below_threshold [OF this demo_half_open_reachable, of 20] h
  show ?thesis by simp
qed

subsection \<open>The recovery timeout\<close>

fun cb_run :: "(cb_op \<times> ms) list \<Rightarrow> breaker \<Rightarrow> breaker" where
  "cb_run [] b = b"
| "cb_run ((x, now) # xs) b = cb_run xs (fst (cb_apply x now b))"

lemma cb_quiet_step:
  "cb_state b = OPEN \<Longrightarrow> now - cb_openedAt b < cb_recoveryTimeoutMs b \<Longrightarrow> x \<in> {CbGate, CbQuery}
   \<Longrightarrow> fst (cb_apply x now b) = b"
  by (cases x) (auto simp: cb_ops)

lemma cb_run_quiet:
  "cb_state b = OPEN
   \<Longrightarrow> \<forall>(x, now) \<in> set xs. x \<in> {CbGate, CbQuery} \<and> now - cb_openedAt b < cb_recoveryTimeoutMs b
   \<Longrightarrow> cb_run xs b = b"
proof (induction xs)
  case Nil
  show ?case by simp
next
  case (Cons p xs)
  then show ?case by (cases p) (auto simp: cb_quiet_step)
qed

text \<open>
  An open breaker blocks every call until the recovery timeout has elapsed, however many
  gate checks and status queries come in, and lets the first call after it through, in
  \<open>HALF_OPEN\<close>.
\<close>

theorem breaker_blocks_until_recovery:
  assumes "cb_state b = OPEN"
    and "\<forall>(x, t) \<in> set xs. x \<in> {CbGate, CbQuery} \<and> t - cb_openedAt b < cb_recoveryTimeoutMs b"
  shows "snd (snd (cb_assertClosed now (cb_run xs b)))
      = (if now - cb_openedAt b < cb_recoveryTimeoutMs b then Inl (CircuitOpenError OPEN) else Inr ())
    \<and> cb_state (fst (cb_assertClosed now (cb_run xs b)))
      = (if now - cb_openedAt b < cb_recoveryTimeoutMs b then OPEN else HALF_OPEN)"
  using assms by (auto simp: cb_run_quiet cb_ops)

definition demo_open :: breaker where
  "demo_open = fst (cb_apply CbFailure 2 (fst (cb_apply CbFailure 1 (new_breaker demo_opts))))"

theorem breaker_blocks_until_recovery_witness:
  "snd (snd (cb_assertClosed 11 (cb_run [(CbGate, 5), (CbQuery, 9)] demo_open)))
     = Inl (CircuitOpenError OPEN)
   \<and> snd (snd (cb_assertClosed 12 (cb_run [(CbGate, 5), (CbQuery, 9)] demo_open))) = Inr ()"
proof -
  have o: "cb_state demo_open = OPEN" "cb_openedAt demo_open = 2" "cb_recoveryTimeoutMs demo_open = 10"
    by (simp_all add: demo_open_def new_breaker_def demo_opts_def cb_ops)
  then have "\<forall>(x, t) \<in> set [(CbGate, 5), (CbQuery, 9)].
      x \<in> {CbGate, CbQuery} \<and> t - cb_openedAt demo_open < cb_recoveryTimeoutMs demo_open"
    by simp
  from breaker_blocks_until_recovery [OF o(1) this, of 11]
    breaker_blocks_until_recovery [OF o(1) this, of 12] o
  show ?thesis by simp
qed

end
