(* ===== verification/VeniceBreaker.thy ===== *)
theory VeniceBreaker
  imports CircuitBreaker JsNumber
begin

text \<open>
  The reservation-model breaker of the Venice client,
  \<open>backend/src/services/venice/circuitBreaker.ts\<close>: in \<open>HALF_OPEN\<close> each admitted call
  takes one of \<open>probeCount\<close> slots and gives it back when it settles. Listeners are
  identified by numbers; an operation returns the deliveries it makes, in the order the code
  makes them. A listener that throws is caught by the code, so deliveries never change the
  outcome; listeners that call back into the breaker are not modelled.
\<close>

subsection \<open>State\<close>

datatype event_name = Opened | Closed | HalfOpened

datatype transition_reason = FailureThresholdReached | FailureWhileOpen | ProbeFailed
  | ProbeSucceeded | CooldownElapsed | ManualReset

record circuit_transition =
  tr_event :: event_name
  tr_from :: circuit_state
  tr_to :: circuit_state
  tr_at :: ms
  tr_failures :: int
  tr_successes :: int
  tr_reason :: transition_reason

datatype listener_key = On event_name | OnAny

datatype delivery = ToOption circuit_transition | ToHandler nat circuit_transition

record venice_options =
  vo_name :: "ident option"
  vo_failureThreshold :: "js_num option"
  vo_cooldownMs :: "js_num option"
  vo_probeCount :: "js_num option"
  vo_onTransition :: bool

record vbreaker =
  vb_name :: ident
  vb_state :: circuit_state
  vb_failures :: int
  vb_successes :: int
  vb_lastFailureAt :: "ms option"
  vb_lastSuccessAt :: "ms option"
  vb_openedAt :: ms
  vb_probesInFlight :: int
  vb_failureThreshold :: int
  vb_cooldownMs :: int
  vb_probeCount :: int
  vb_onTransition :: bool
  vb_listeners :: "(listener_key, nat list) jsmap"

record circuit_metrics =
  mt_state :: circuit_state
  mt_failures :: int
  mt_successes :: int
  mt_lastFailureAt :: "ms option"
  mt_lastSuccessAt :: "ms option"

definition DEFAULT_FAILURE_THRESHOLD :: int where "DEFAULT_FAILURE_THRESHOLD = 3"

definition DEFAULT_COOLDOWN_MS :: int where "DEFAULT_COOLDOWN_MS = 60000"

definition DEFAULT_PROBE_COUNT :: int where "DEFAULT_PROBE_COUNT = 1"

fun EVENT_FOR_STATE :: "circuit_state \<Rightarrow> event_name" where
  "EVENT_FOR_STATE CLOSED = Closed"
| "EVENT_FOR_STATE OPEN = Opened"
| "EVENT_FOR_STATE HALF_OPEN = HalfOpened"

fun vb_positiveInt :: "js_num option \<Rightarrow> int \<Rightarrow> int" where
  "vb_positiveInt (Some (Num v)) fallback = (if v < 1 then fallback else \<lfloor>v\<rfloor>)"
| "vb_positiveInt _ fallback = fallback"

subsection \<open>Operations\<close>

definition new_vbreaker :: "venice_options \<Rightarrow> vbreaker" where
  "new_vbreaker opts = \<lparr> vb_name = (case vo_name opts of None \<Rightarrow> ''venice'' | Some n \<Rightarrow> n),
     vb_state = CLOSED, vb_failures = 0, vb_successes = 0, vb_lastFailureAt = None,
     vb_lastSuccessAt = None, vb_openedAt = 0, vb_probesInFlight = 0,
     vb_failureThreshold = vb_positiveInt (vo_failureThreshold opts) DEFAULT_FAILURE_THRESHOLD,
     vb_cooldownMs = vb_positiveInt (vo_cooldownMs opts) DEFAULT_COOLDOWN_MS,
     vb_probeCount = vb_positiveInt (vo_probeCount opts) DEFAULT_PROBE_COUNT,
     vb_onTransition = vo_onTransition opts, vb_listeners = [] \<rparr>"

definition vb_handlers :: "vbreaker \<Rightarrow> listener_key \<Rightarrow> nat list" where
  "vb_handlers b k = (case jm_get (vb_listeners b) k of None \<Rightarrow> [] | Some hs \<Rightarrow> hs)"

definition vb_deliver :: "vbreaker \<Rightarrow> circuit_transition \<Rightarrow> delivery list" where
  "vb_deliver b t = (if vb_onTransition b then [ToOption t] else [])
     @ map (\<lambda>h. ToHandler h t) (vb_handlers b (On (tr_event t)))
     @ map (\<lambda>h. ToHandler h t) (vb_handlers b OnAny)"

definition vb_transition ::
  "circuit_state \<Rightarrow> transition_reason \<Rightarrow> ms \<Rightarrow> vbreaker \<Rightarrow> vbreaker \<times> delivery list" where
  "vb_transition to reason now b =
     (let from = vb_state b in
      if from = to then (b, [])
      else let b1 = (if to = OPEN
                     then b\<lparr>vb_state := to, vb_openedAt := now, vb_probesInFlight := 0\<rparr>
                     else if to = CLOSED
                     then b\<lparr>vb_state := to, vb_probesInFlight := 0, vb_failures := 0\<rparr>
                     else b\<lparr>vb_state := to, vb_probesInFlight := 0\<rparr>);
               t = \<lparr> tr_event = EVENT_FOR_STATE to, tr_from = from, tr_to = to, tr_at = now,
                     tr_failures = vb_failures b1, tr_successes = vb_successes b1,
                     tr_reason = reason \<rparr>
           in (b1, vb_deliver b1 t))"

definition vb_evaluateCooldown :: "ms \<Rightarrow> vbreaker \<Rightarrow> vbreaker \<times> delivery list" where
  "vb_evaluateCooldown now b =
     (if vb_state b \<noteq> OPEN then (b, [])
      else if vb_cooldownMs b \<le> now - vb_openedAt b
      then vb_transition HALF_OPEN CooldownElapsed now b else (b, []))"

definition vb_getState :: "ms \<Rightarrow> vbreaker \<Rightarrow> vbreaker \<times> delivery list \<times> circuit_state" where
  "vb_getState now b = (let (b', ds) = vb_evaluateCooldown now b in (b', ds, vb_state b'))"

definition vb_getConfig :: "vbreaker \<Rightarrow> int \<times> int \<times> int" where
  "vb_getConfig b = (vb_failureThreshold b, vb_cooldownMs b, vb_probeCount b)"

definition vb_getMetrics :: "ms \<Rightarrow> vbreaker \<Rightarrow> vbreaker \<times> delivery list \<times> circuit_metrics" where
  "vb_getMetrics now b =
     (let (b', ds, s) = vb_getState now b
      in (b', ds, \<lparr> mt_state = s, mt_failures = vb_failures b', mt_successes = vb_successes b',
            mt_lastFailureAt = vb_lastFailureAt b', mt_lastSuccessAt = vb_lastSuccessAt b' \<rparr>))"

definition vb_getStatus :: "ms \<Rightarrow> vbreaker \<Rightarrow> vbreaker \<times> delivery list \<times> breaker_status" where
  "vb_getStatus now b =
     (let (b', ds) = vb_evaluateCooldown now b
      in (b', ds, \<lparr> st_name = vb_name b', st_state = vb_state b', st_failures = vb_failures b',
            st_failureThreshold = vb_failureThreshold b', st_recoveryTimeoutMs = vb_cooldownMs b',
            st_openedAt = (if vb_state b' \<noteq> CLOSED then Some (vb_openedAt b') else None),
            st_lastSuccessAt = vb_lastSuccessAt b', st_lastFailureAt = vb_lastFailureAt b' \<rparr>))"

definition vb_acquire :: "ms \<Rightarrow> vbreaker \<Rightarrow> vbreaker \<times> delivery list \<times> (circuit_error + unit)" where
  "vb_acquire now b =
     (let (b', ds) = vb_evaluateCooldown now b
      in if vb_state b' = OPEN then (b', ds, Inl (CircuitOpenError OPEN))
         else if vb_state b' = HALF_OPEN
         then (if vb_probeCount b' \<le> vb_probesInFlight b'
               then (b', ds, Inl (CircuitOpenError HALF_OPEN))
               else (b'\<lparr>vb_probesInFlight := vb_probesInFlight b' + 1\<rparr>, ds, Inr ()))
         else (b', ds, Inr ()))"

definition vb_recordSuccess :: "ms \<Rightarrow> vbreaker \<Rightarrow> vbreaker \<times> delivery list" where
  "vb_recordSuccess now b =
     (let b1 = b\<lparr>vb_lastSuccessAt := Some now, vb_successes := vb_successes b + 1,
                 vb_probesInFlight := max 0 (vb_probesInFlight b - 1)\<rparr>;
          (b2, ds) = (if vb_state b1 \<noteq> CLOSED then vb_transition CLOSED ProbeSucceeded now b1
                      else (b1, []))
      in (b2\<lparr>vb_failures := 0\<rparr>, ds))"

definition vb_recordFailure :: "ms \<Rightarrow> vbreaker \<Rightarrow> vbreaker \<times> delivery list" where
  "vb_recordFailure now b =
     (let b1 = b\<lparr>vb_lastFailureAt := Some now, vb_failures := vb_failures b + 1,
                 vb_probesInFlight := max 0 (vb_probesInFlight b - 1)\<rparr>
      in if vb_state b1 = HALF_OPEN then vb_transition OPEN ProbeFailed now b1
         else if vb_failureThreshold b1 \<le> vb_failures b1
         then vb_transition OPEN
                (if vb_state b1 = OPEN then FailureWhileOpen else FailureThresholdReached) now b1
         else (b1, []))"

definition vb_release :: "vbreaker \<Rightarrow> vbreaker" where
  "vb_release b = b\<lparr>vb_probesInFlight := max 0 (vb_probesInFlight b - 1)\<rparr>"

definition vb_reset :: "ms \<Rightarrow> vbreaker \<Rightarrow> vbreaker \<times> delivery list" where
  "vb_reset now b = vb_transition CLOSED ManualReset now
     (b\<lparr>vb_failures := 0, vb_successes := 0, vb_probesInFlight := 0, vb_openedAt := 0,
        vb_lastFailureAt := None, vb_lastSuccessAt := None\<rparr>)"

text \<open>
  \<open>on\<close>: a handler set per key, created on first use; the returned closure removes the
  handler (\<open>vb_off\<close>).
\<close>

definition vb_on :: "listener_key \<Rightarrow> nat \<Rightarrow> vbreaker \<Rightarrow> vbreaker" where
  "vb_on k h b = b\<lparr>vb_listeners := jm_set (vb_listeners b) k
     (if h \<in> set (vb_handlers b k) then vb_handlers b k else vb_handlers b k @ [h])\<rparr>"

definition vb_off :: "listener_key \<Rightarrow> nat \<Rightarrow> vbreaker \<Rightarrow> vbreaker" where
  "vb_off k h b = (case jm_get (vb_listeners b) k of None \<Rightarrow> b
     | Some hs \<Rightarrow> b\<lparr>vb_listeners := jm_set (vb_listeners b) k (removeAll h hs)\<rparr>)"

lemmas vb_ops = vb_transition_def vb_evaluateCooldown_def vb_getState_def vb_getMetrics_def
  vb_getStatus_def vb_acquire_def vb_recordSuccess_def vb_recordFailure_def vb_release_def
  vb_reset_def Let_def

subsection \<open>Runs and the invariant\<close>

datatype vb_op = VAcquire | VSuccess | VFailure | VRelease | VReset | VQuery
  | VOn listener_key nat | VOff listener_key nat

fun vb_apply :: "vb_op \<Rightarrow> ms \<Rightarrow> vbreaker \<Rightarrow> vbreaker \<times> delivery list" where
  "vb_apply VAcquire now b = (case vb_acquire now b of (b', ds, _) \<Rightarrow> (b', ds))"
| "vb_apply VSuccess now b = vb_recordSuccess now b"
| "vb_apply VFailure now b = vb_recordFailure now b"
| "vb_apply VRelease now b = (vb_release b, [])"
| "vb_apply VReset now b = vb_reset now b"
| "vb_apply VQuery now b = (case vb_getStatus now b of (b', ds, _) \<Rightarrow> (b', ds))"
| "vb_apply (VOn k h) now b = (vb_on k h b, [])"
| "vb_apply (VOff k h) now b = (vb_off k h b, [])"

inductive vb_reachable :: "venice_options \<Rightarrow> vbreaker \<Rightarrow> bool" for opts where
  vb_new: "vb_reachable opts (new_vbreaker opts)"
| vb_step: "vb_reachable opts b \<Longrightarrow> vb_reachable opts (fst (vb_apply x now b))"

inductive_cases vb_reachableE: "vb_reachable opts b"

definition vb_inv :: "vbreaker \<Rightarrow> bool" where
  "vb_inv b \<longleftrightarrow> 1 \<le> vb_failureThreshold b \<and> 1 \<le> vb_probeCount b \<and> 0 \<le> vb_failures b
     \<and> 0 \<le> vb_probesInFlight b \<and> vb_probesInFlight b \<le> vb_probeCount b
     \<and> (vb_state b \<noteq> HALF_OPEN \<longrightarrow> vb_probesInFlight b = 0)
     \<and> (if vb_state b = CLOSED then vb_failures b < vb_failureThreshold b
        else vb_failureThreshold b \<le> vb_failures b)"

lemma vb_positiveInt_ge_1: "1 \<le> fallback \<Longrightarrow> 1 \<le> vb_positiveInt v fallback"
  by (induction v fallback rule: vb_positiveInt.induct) (auto simp: le_floor_iff)

lemma vb_inv_new: "vb_inv (new_vbreaker opts)"
  using vb_positiveInt_ge_1 [of DEFAULT_FAILURE_THRESHOLD "vo_failureThreshold opts"]
    vb_positiveInt_ge_1 [of DEFAULT_PROBE_COUNT "vo_probeCount opts"]
  by (simp add: vb_inv_def new_vbreaker_def DEFAULT_FAILURE_THRESHOLD_def DEFAULT_PROBE_COUNT_def)

text \<open>\<open>reset\<close> from a shed state leaves the failure count below the threshold again, so
  every operation keeps the invariant.\<close>

lemma vb_off_fields [simp]:
  "vb_state (vb_off k h b) = vb_state b" "vb_failures (vb_off k h b) = vb_failures b"
  "vb_probesInFlight (vb_off k h b) = vb_probesInFlight b"
  "vb_probeCount (vb_off k h b) = vb_probeCount b"
  "vb_failureThreshold (vb_off k h b) = vb_failureThreshold b"
  by (auto simp: vb_off_def split: option.splits)

lemma vb_on_fields [simp]:
  "vb_state (vb_on k h b) = vb_state b" "vb_failures (vb_on k h b) = vb_failures b"
  "vb_probesInFlight (vb_on k h b) = vb_probesInFlight b"
  "vb_probeCount (vb_on k h b) = vb_probeCount b"
  "vb_failureThreshold (vb_on k h b) = vb_failureThreshold b"
  by (auto simp: vb_on_def)

lemma vb_apply_inv: "vb_inv b \<Longrightarrow> vb_inv (fst (vb_apply x now b))"
  by (cases x; cases "vb_state b") (simp_all add: vb_ops vb_inv_def)

lemma vb_reachable_inv: "vb_reachable opts b \<Longrightarrow> vb_inv b"
  by (induction rule: vb_reachable.induct) (simp_all add: vb_inv_new vb_apply_inv)

text \<open>
  In every reachable state the reserved probe slots stay between 0 and \<open>probeCount\<close>,
  none is held outside \<open>HALF_OPEN\<close>, and the breaker is closed exactly while fewer than
  \<open>failureThreshold\<close> consecutive failures are counted, whatever the options passed.
\<close>

theorem venice_breaker_invariant:
  assumes "vb_reachable opts b"
  shows "0 \<le> vb_probesInFlight b \<and> vb_probesInFlight b \<le> vb_probeCount b
    \<and> (vb_state b = HALF_OPEN \<or> vb_probesInFlight b = 0)
    \<and> (vb_state b = CLOSED \<longleftrightarrow> vb_failures b < vb_failureThreshold b)"
  using vb_reachable_inv [OF assms] by (auto simp: vb_inv_def split: if_splits)

definition demo_vopts :: venice_options where
  "demo_vopts = \<lparr> vo_name = None, vo_failureThreshold = Some (Num 2), vo_cooldownMs = Some (Num 10),
     vo_probeCount = Some NaN, vo_onTransition = True \<rparr>"

fun vb_run :: "(vb_op \<times> ms) list \<Rightarrow> vbreaker \<Rightarrow> vbreaker" where
  "vb_run [] b = b"
| "vb_run ((x, now) # xs) b = vb_run xs (fst (vb_apply x now b))"

lemma vb_run_reachable: "vb_reachable opts b \<Longrightarrow> vb_reachable opts (vb_run xs b)"
proof (induction xs arbitrary: b)
  case Nil
  then show ?case by simp
next
  case (Cons p xs)
  then show ?case by (cases p) (simp add: vb_step)
qed

definition demo_probing :: vbreaker where
  "demo_probing = vb_run [(VFailure, 1), (VFailure, 2), (VAcquire, 12)] (new_vbreaker demo_vopts)"

lemma demo_probing_eval:
  "vb_state demo_probing = HALF_OPEN" "vb_probesInFlight demo_probing = 1"
  "vb_probeCount demo_probing = 1"
  by (simp_all add: demo_probing_def new_vbreaker_def demo_vopts_def DEFAULT_PROBE_COUNT_def vb_ops
      vb_deliver_def vb_handlers_def)

theorem venice_breaker_invariant_witness:
  "vb_probesInFlight demo_probing = 1 \<and> vb_probesInFlight demo_probing \<le> vb_probeCount demo_probing"
proof -
  have "vb_reachable demo_vopts demo_probing"
    unfolding demo_probing_def by (intro vb_run_reachable vb_new)
  from venice_breaker_invariant [OF this] show ?thesis by (simp add: demo_probing_eval)
qed

subsection \<open>Admission while half open\<close>

fun acquire_many :: "ms list \<Rightarrow> vbreaker \<Rightarrow> vbreaker \<times> nat" where
  "acquire_many [] b = (b, 0)"
| "acquire_many (now # ts) b =
     (case vb_acquire now b of (b1, _, r) \<Rightarrow>
        (case acquire_many ts b1 of (b2, n) \<Rightarrow> (b2, (case r of Inr _ \<Rightarrow> Suc n | Inl _ \<Rightarrow> n))))"

lemma acquire_many_half_open:
  "vb_state b = HALF_OPEN \<Longrightarrow> vb_probesInFlight b \<le> vb_probeCount b \<Longrightarrow>
   acquire_many ts b =
     (let n = min (length ts) (nat (vb_probeCount b - vb_probesInFlight b))
      in (b\<lparr>vb_probesInFlight := vb_probesInFlight b + int n\<rparr>, n))"
proof (induction ts arbitrary: b)
  case Nil
  then show ?case by (simp add: Let_def)
next
  case (Cons t ts)
  show ?case
  proof (cases "vb_probeCount b \<le> vb_probesInFlight b")
    case True
    with Cons show ?thesis by (simp add: vb_acquire_def vb_evaluateCooldown_def Let_def)
  next
    case False
    let ?b = "b\<lparr>vb_probesInFlight := vb_probesInFlight b + 1\<rparr>"
    from Cons.IH [of ?b] Cons.prems False
    have "acquire_many ts ?b =
      (let n = min (length ts) (nat (vb_probeCount b - vb_probesInFlight b - 1))
       in (b\<lparr>vb_probesInFlight := vb_probesInFlight b + 1 + int n\<rparr>, n))"
      by (simp add: Let_def diff_diff_eq)
    moreover have "nat (vb_probeCount b - vb_probesInFlight b)
        = Suc (nat (vb_probeCount b - vb_probesInFlight b - 1))"
      using False by simp
    ultimately show ?thesis using Cons.prems False
      by (simp add: vb_acquire_def vb_evaluateCooldown_def Let_def)
  qed
qed

text \<open>
  Once the cooldown has elapsed, a burst of calls that arrives before any of them settles
  admits exactly the first \<open>probeCount\<close> of them; the rest are rejected.
\<close>

theorem venice_burst_admits_probe_count:
  assumes "vb_state b = OPEN" and "vb_cooldownMs b \<le> t - vb_openedAt b" and "1 \<le> vb_probeCount b"
  shows "snd (acquire_many (t # ts) b) = min (Suc (length ts)) (nat (vb_probeCount b))
    \<and> vb_state (fst (acquire_many (t # ts) b)) = HALF_OPEN"
proof -
  let ?h = "b\<lparr>vb_state := HALF_OPEN, vb_probesInFlight := 0\<rparr>"
  have eq: "acquire_many (t # ts) b = acquire_many (t # ts) ?h"
    using assms by (simp add: vb_acquire_def vb_evaluateCooldown_def vb_transition_def Let_def)
  have "acquire_many (t # ts) ?h
     = (let n = min (length (t # ts)) (nat (vb_probeCount ?h - vb_probesInFlight ?h))
        in (?h\<lparr>vb_probesInFlight := vb_probesInFlight ?h + int n\<rparr>, n))"
    by (rule acquire_many_half_open) (use assms(3) in simp_all)
  with eq show ?thesis by (simp add: Let_def)
qed

theorem venice_burst_admits_probe_count_witness:
  "snd (acquire_many [12, 12, 13]
     (vb_run [(VFailure, 1), (VFailure, 2)] (new_vbreaker demo_vopts))) = 1"
proof -
  let ?b = "vb_run [(VFailure, 1), (VFailure, 2)] (new_vbreaker demo_vopts)"
  have f: "vb_state ?b = OPEN" "vb_openedAt ?b = 2" "vb_cooldownMs ?b = 10" "vb_probeCount ?b = 1"
    by (simp_all add: new_vbreaker_def demo_vopts_def DEFAULT_PROBE_COUNT_def vb_ops
        vb_deliver_def vb_handlers_def)
  then have "vb_cooldownMs ?b \<le> 12 - vb_openedAt ?b" "1 \<le> vb_probeCount ?b" by simp_all
  from venice_burst_admits_probe_count [OF f(1) this, of "[12, 13]"] f(4) show ?thesis
    by simp
qed

subsection \<open>The cooldown\<close>

lemma vb_open_step:
  assumes "vb_state b = OPEN" "now - vb_openedAt b < vb_cooldownMs b"
    and "x \<in> {VAcquire, VFailure, VRelease, VQuery}"
  shows "vb_state (fst (vb_apply x now b)) = OPEN
    \<and> vb_openedAt (fst (vb_apply x now b)) = vb_openedAt b
    \<and> vb_cooldownMs (fst (vb_apply x now b)) = vb_cooldownMs b"
  using assms by (cases x) (auto simp: vb_ops)

lemma vb_run_open:
  "vb_state b = OPEN \<Longrightarrow>
   \<forall>(x, t) \<in> set xs. x \<in> {VAcquire, VFailure, VRelease, VQuery} \<and> t - vb_openedAt b < vb_cooldownMs b
   \<Longrightarrow> vb_state (vb_run xs b) = OPEN \<and> vb_openedAt (vb_run xs b) = vb_openedAt b
     \<and> vb_cooldownMs (vb_run xs b) = vb_cooldownMs b"
proof (induction xs arbitrary: b)
  case Nil
  then show ?case by simp
next
  case (Cons p xs)
  obtain x t where p: "p = (x, t)" by (cases p)
  let ?b = "fst (vb_apply x t b)"
  have s: "vb_state ?b = OPEN" "vb_openedAt ?b = vb_openedAt b" "vb_cooldownMs ?b = vb_cooldownMs b"
    using Cons.prems vb_open_step [of b t x] by (auto simp: p)
  with Cons.prems have "vb_state (vb_run xs ?b) = OPEN \<and> vb_openedAt (vb_run xs ?b) = vb_openedAt ?b
     \<and> vb_cooldownMs (vb_run xs ?b) = vb_cooldownMs ?b"
    by (intro Cons.IH) auto
  with s show ?case by (simp add: p)
qed

text \<open>
  Failures of late calls, releases, rejected calls and status queries never extend the
  cooldown: the instant at which the circuit opened is kept, every call before its end is
  rejected, and the first call at or after its end is admitted as a probe.
\<close>

theorem venice_cooldown_not_extended:
  assumes "vb_state b = OPEN" and "vb_inv (vb_run xs b)"
    and "\<forall>(x, t) \<in> set xs. x \<in> {VAcquire, VFailure, VRelease, VQuery}
           \<and> t - vb_openedAt b < vb_cooldownMs b"
  shows "vb_openedAt (vb_run xs b) = vb_openedAt b
    \<and> snd (snd (vb_acquire now (vb_run xs b)))
      = (if now - vb_openedAt b < vb_cooldownMs b then Inl (CircuitOpenError OPEN) else Inr ())"
  using vb_run_open [OF assms(1,3)] assms(2) by (auto simp: vb_acquire_def vb_evaluateCooldown_def
      vb_transition_def Let_def vb_inv_def)

theorem venice_cooldown_not_extended_witness:
  "snd (snd (vb_acquire 12 (vb_run [(VAcquire, 3), (VFailure, 11)]
     (vb_run [(VFailure, 1), (VFailure, 2)] (new_vbreaker demo_vopts))))) = Inr ()"
proof -
  let ?b = "vb_run [(VFailure, 1), (VFailure, 2)] (new_vbreaker demo_vopts)"
  have f: "vb_state ?b = OPEN" "vb_openedAt ?b = 2" "vb_cooldownMs ?b = 10"
    by (simp_all add: new_vbreaker_def demo_vopts_def DEFAULT_PROBE_COUNT_def vb_ops
        vb_deliver_def vb_handlers_def)
  have i: "vb_inv (vb_run [(VAcquire, 3), (VFailure, 11)] ?b)"
    by (rule vb_reachable_inv [of demo_vopts]) (intro vb_run_reachable vb_new)
  have "\<forall>(x, t) \<in> set [(VAcquire, 3), (VFailure, 11)]. x \<in> {VAcquire, VFailure, VRelease, VQuery}
      \<and> t - vb_openedAt ?b < vb_cooldownMs ?b"
    using f by simp
  from venice_cooldown_not_extended [OF f(1) i this, of 12] f show ?thesis by simp
qed

subsection \<open>Emitted transitions\<close>

fun delivered :: "delivery \<Rightarrow> circuit_transition" where
  "delivered (ToOption t) = t"
| "delivered (ToHandler _ t) = t"

lemma vb_deliver_delivered: "d \<in> set (vb_deliver b t) \<Longrightarrow> delivered d = t"
  by (auto simp: vb_deliver_def)

lemma vb_transition_delivered:
  "vb_transition to reason now b = (b', ds) \<Longrightarrow> d \<in> set ds \<Longrightarrow>
   tr_from (delivered d) = vb_state b \<and> tr_to (delivered d) = to \<and> to \<noteq> vb_state b
   \<and> tr_reason (delivered d) = reason \<and> vb_state b' = to"
  by (auto simp: vb_transition_def Let_def dest!: vb_deliver_delivered split: if_splits)

lemma vb_cooldown_transition:
  "vb_evaluateCooldown now b = (b', ds) \<Longrightarrow> d \<in> set ds \<Longrightarrow>
   vb_transition HALF_OPEN CooldownElapsed now b = (b', ds)"
  by (auto simp: vb_evaluateCooldown_def split: if_splits)

text \<open>Every operation that delivers anything does so through one call of \<open>transition\<close>.\<close>

lemma vb_apply_transition:
  assumes "vb_apply x now b = (b', ds)" "d \<in> set ds"
  obtains to reason b0 b1 where "vb_transition to reason now b0 = (b1, ds)"
    "vb_state b0 = vb_state b" "vb_state b' = vb_state b1" "reason \<noteq> FailureWhileOpen"
proof (cases x)
  case VAcquire
  with assms have "\<exists>b1. vb_evaluateCooldown now b = (b1, ds) \<and> vb_state b' = vb_state b1"
    by (auto simp: vb_acquire_def Let_def split: prod.splits if_splits)
  with assms(2) vb_cooldown_transition that show ?thesis by blast
next
  case VQuery
  with assms have "vb_evaluateCooldown now b = (b', ds)"
    by (auto simp: vb_getStatus_def Let_def split: prod.splits)
  with assms(2) vb_cooldown_transition that show ?thesis by blast
next
  case VSuccess
  let ?b = "b\<lparr>vb_lastSuccessAt := Some now, vb_successes := vb_successes b + 1,
                 vb_probesInFlight := max 0 (vb_probesInFlight b - 1)\<rparr>"
  from VSuccess assms obtain b1 where "vb_transition CLOSED ProbeSucceeded now ?b = (b1, ds)"
      "vb_state b' = vb_state b1"
    by (auto simp: vb_recordSuccess_def Let_def split: prod.splits if_splits)
  then show ?thesis by (intro that [of CLOSED ProbeSucceeded ?b b1]) simp_all
next
  case VFailure
  let ?b = "b\<lparr>vb_lastFailureAt := Some now, vb_failures := vb_failures b + 1,
                 vb_probesInFlight := max 0 (vb_probesInFlight b - 1)\<rparr>"
  from VFailure assms obtain reason where "vb_transition OPEN reason now ?b = (b', ds)"
      "reason \<noteq> FailureWhileOpen"
    by (auto simp: vb_recordFailure_def vb_transition_def Let_def split: if_splits)
  then show ?thesis by (intro that [of OPEN reason ?b b']) simp_all
next
  case VReset
  with assms that show ?thesis by (fastforce simp: vb_reset_def)
qed (use assms in auto)

text \<open>
  Listeners are told of real changes only: a delivered transition leaves the state the
  breaker was in, enters the different state it is now in, and its reason is never
  \<open>failure_while_open\<close>, which the code names but cannot emit.
\<close>

theorem venice_transition_events_faithful:
  assumes "d \<in> set (snd (vb_apply x now b))"
  shows "tr_from (delivered d) = vb_state b \<and> tr_to (delivered d) = vb_state (fst (vb_apply x now b))
    \<and> tr_from (delivered d) \<noteq> tr_to (delivered d) \<and> tr_reason (delivered d) \<noteq> FailureWhileOpen"
proof -
  obtain b' ds where r: "vb_apply x now b = (b', ds)" by (cases "vb_apply x now b")
  with assms have d: "d \<in> set ds" by simp
  from r d obtain to reason b0 b1 where "vb_transition to reason now b0 = (b1, ds)"
      "vb_state b0 = vb_state b" "vb_state b' = vb_state b1" "reason \<noteq> FailureWhileOpen"
    by (rule vb_apply_transition)
  with r d vb_transition_delivered [of to reason now b0 b1 ds d] show ?thesis by auto
qed

theorem venice_transition_events_faithful_witness:
  "\<exists>d \<in> set (snd (vb_apply VFailure 2 (vb_run [(VFailure, 1)] (new_vbreaker demo_vopts)))).
     tr_to (delivered d) = OPEN"
proof -
  let ?b = "vb_run [(VFailure, 1)] (new_vbreaker demo_vopts)"
  obtain d where d: "d \<in> set (snd (vb_apply VFailure 2 ?b))"
    by (simp add: new_vbreaker_def demo_vopts_def vb_ops vb_deliver_def vb_handlers_def)
  have "vb_state (fst (vb_apply VFailure 2 ?b)) = OPEN"
    by (simp add: new_vbreaker_def demo_vopts_def vb_ops)
  with venice_transition_events_faithful [OF d] d show ?thesis by auto
qed

end
