(* ===== verification/BreakerHealth.thy ===== *)
theory BreakerHealth
  imports CircuitBreaker VeniceBreaker
begin

text \<open>
  The registry of named breakers, the set of tracked breakers and their summary for health
  checks (the second half of \<open>backend/src/services/circuitBreaker.ts\<close>). Both hold references:
  the same breaker may be registered and tracked, and reading its status may move it to
  \<open>HALF_OPEN\<close>. So breakers live in an explicit store, addressed by numbers, and the
  registry and the tracked set hold addresses.

  The locale \<open>status_source\<close> is the interface \<open>TrackableCircuitBreaker\<close>; both breakers
  interpret it.
\<close>

locale status_source =
  fixes poll :: "ms \<Rightarrow> 'b \<Rightarrow> 'b \<times> breaker_status"
    and src_name :: "'b \<Rightarrow> ident"
  assumes poll_settles: "poll now b = (b', s) \<Longrightarrow> poll now b' = (b', s)"
    and poll_name: "poll now b = (b', s) \<Longrightarrow> st_name s = src_name b \<and> src_name b' = src_name b"
    and poll_openedAt: "poll now b = (b', s) \<Longrightarrow> st_openedAt s = None \<longleftrightarrow> st_state s = CLOSED"
begin

lemma poll_twice: "poll now (fst (poll now b)) = poll now b"
  using poll_settles [of now b "fst (poll now b)" "snd (poll now b)"] by simp

lemma poll_keeps_name: "src_name (fst (poll now b)) = src_name b"
  using poll_name [of now b "fst (poll now b)" "snd (poll now b)"] by simp

end

subsection \<open>Trackable breakers\<close>

datatype trackable = Plain breaker | Venice vbreaker

fun tb_name :: "trackable \<Rightarrow> ident" where
  "tb_name (Plain b) = cb_name b"
| "tb_name (Venice b) = vb_name b"

fun tb_getStatus :: "ms \<Rightarrow> trackable \<Rightarrow> trackable \<times> breaker_status" where
  "tb_getStatus now (Plain b) = (case cb_getStatus now b of (b', _, s) \<Rightarrow> (Plain b', s))"
| "tb_getStatus now (Venice b) = (case vb_getStatus now b of (b', _, s) \<Rightarrow> (Venice b', s))"

interpretation tb: status_source tb_getStatus tb_name
proof
  fix now b b' s
  assume p: "tb_getStatus now b = (b', s)"
  show "tb_getStatus now b' = (b', s)"
    using p by (cases b) (auto simp: cb_ops vb_ops split: if_splits)
  show "st_name s = tb_name b \<and> tb_name b' = tb_name b"
    using p by (cases b) (auto simp: cb_ops vb_ops split: if_splits)
  show "st_openedAt s = None \<longleftrightarrow> st_state s = CLOSED"
    using p by (cases b) (auto simp: cb_ops vb_ops split: if_splits)
qed

subsection \<open>The store, the registry and the tracked set\<close>

record health =
  hs_objs :: "nat \<Rightarrow> trackable option"
  hs_registry :: "(ident, nat) jsmap"
  hs_tracked :: "nat list"
  hs_next :: nat

definition empty_health :: health where
  "empty_health = \<lparr> hs_objs = Map.empty, hs_registry = [], hs_tracked = [], hs_next = 0 \<rparr>"

definition hs_alloc :: "trackable \<Rightarrow> health \<Rightarrow> health \<times> nat" where
  "hs_alloc t h = (h\<lparr>hs_objs := (hs_objs h)(hs_next h \<mapsto> t), hs_next := Suc (hs_next h)\<rparr>, hs_next h)"

definition getCircuitBreaker :: "breaker_options \<Rightarrow> health \<Rightarrow> health \<times> nat" where
  "getCircuitBreaker opts h =
     (case jm_get (hs_registry h) (opt_name opts) of
        Some a \<Rightarrow> (h, a)
      | None \<Rightarrow> (let (h', a) = hs_alloc (Plain (new_breaker opts)) h
                in (h'\<lparr>hs_registry := jm_set (hs_registry h') (opt_name opts) a\<rparr>, a)))"

definition trackCircuitBreaker :: "nat \<Rightarrow> health \<Rightarrow> health" where
  "trackCircuitBreaker a h =
     h\<lparr>hs_tracked := (if a \<in> set (hs_tracked h) then hs_tracked h else hs_tracked h @ [a])\<rparr>"

definition untrackCircuitBreaker :: "nat \<Rightarrow> health \<Rightarrow> health" where
  "untrackCircuitBreaker a h = h\<lparr>hs_tracked := removeAll a (hs_tracked h)\<rparr>"

definition resetCircuitBreakerRegistry :: "health \<Rightarrow> health" where
  "resetCircuitBreakerRegistry h = h\<lparr>hs_registry := [], hs_tracked := []\<rparr>"

fun hs_poll_all :: "ms \<Rightarrow> nat list \<Rightarrow> health \<Rightarrow> health \<times> breaker_status list" where
  "hs_poll_all now [] h = (h, [])"
| "hs_poll_all now (a # as) h =
     (case hs_objs h a of
        None \<Rightarrow> hs_poll_all now as h
      | Some t \<Rightarrow> (let (t', s) = tb_getStatus now t;
                     (h', ss) = hs_poll_all now as (h\<lparr>hs_objs := (hs_objs h)(a \<mapsto> t')\<rparr>)
                 in (h', s # ss)))"

definition getAllCircuitBreakerStatuses :: "ms \<Rightarrow> health \<Rightarrow> health \<times> breaker_status list" where
  "getAllCircuitBreakerStatuses now h = hs_poll_all now (map snd (hs_registry h)) h"

subsection \<open>The summary\<close>

record breaker_summary =
  sm_name :: ident
  sm_state :: circuit_state
  sm_instances :: nat
  sm_openInstances :: nat
  sm_failures :: int
  sm_lastSuccessAt :: "ms option"
  sm_lastFailureAt :: "ms option"

fun STATE_SEVERITY :: "circuit_state \<Rightarrow> nat" where
  "STATE_SEVERITY CLOSED = 0"
| "STATE_SEVERITY HALF_OPEN = 1"
| "STATE_SEVERITY OPEN = 2"

fun maxNullable :: "int option \<Rightarrow> int option \<Rightarrow> int option" where
  "maxNullable None b = b"
| "maxNullable a None = a"
| "maxNullable (Some x) (Some y) = Some (max x y)"

definition instance_addrs :: "ident \<Rightarrow> health \<Rightarrow> nat list" where
  "instance_addrs name h =
     (let reg = (case jm_get (hs_registry h) name of None \<Rightarrow> [] | Some a \<Rightarrow> [a]);
          named = filter (\<lambda>a. map_option tb_name (hs_objs h a) = Some name) (hs_tracked h)
      in reg @ filter (\<lambda>a. a \<notin> set reg) named)"

definition summary_add :: "breaker_summary \<Rightarrow> breaker_status \<Rightarrow> breaker_summary" where
  "summary_add sm st = sm\<lparr>
     sm_state := (if STATE_SEVERITY (sm_state sm) < STATE_SEVERITY (st_state st)
                  then st_state st else sm_state sm),
     sm_openInstances := (if st_state st = OPEN then Suc (sm_openInstances sm) else sm_openInstances sm),
     sm_failures := max (sm_failures sm) (st_failures st),
     sm_lastSuccessAt := maxNullable (sm_lastSuccessAt sm) (st_lastSuccessAt st),
     sm_lastFailureAt := maxNullable (sm_lastFailureAt sm) (st_lastFailureAt st)\<rparr>"

definition summarizeCircuitBreakers :: "ident \<Rightarrow> ms \<Rightarrow> health \<Rightarrow> health \<times> breaker_summary option" where
  "summarizeCircuitBreakers name now h =
     (let as = instance_addrs name h
      in if as = [] then (h, None)
         else let (h', sts) = hs_poll_all now as h
              in (h', Some (foldl summary_add \<lparr> sm_name = name, sm_state = CLOSED,
                    sm_instances = length as, sm_openInstances = 0, sm_failures = 0,
                    sm_lastSuccessAt = None, sm_lastFailureAt = None \<rparr> sts)))"

subsection \<open>Well-formed stores\<close>

definition health_wf :: "health \<Rightarrow> bool" where
  "health_wf h \<longleftrightarrow> jm_wf (hs_registry h) \<and> distinct (map snd (hs_registry h)) \<and> distinct (hs_tracked h)
     \<and> (\<forall>n a. jm_get (hs_registry h) n = Some a \<longrightarrow> map_option tb_name (hs_objs h a) = Some n)
     \<and> (\<forall>a \<in> set (hs_tracked h). hs_objs h a \<noteq> None)
     \<and> (\<forall>a. hs_objs h a \<noteq> None \<longrightarrow> a < hs_next h)"

lemma distinct_instance_addrs: "health_wf h \<Longrightarrow> distinct (instance_addrs name h)"
  by (auto simp: instance_addrs_def Let_def health_wf_def split: option.splits)

lemma instance_addrs_named:
  "health_wf h \<Longrightarrow> a \<in> set (instance_addrs name h) \<longleftrightarrow>
     map_option tb_name (hs_objs h a) = Some name
     \<and> (a \<in> set (hs_tracked h) \<or> jm_get (hs_registry h) name = Some a)"
  by (auto simp: instance_addrs_def Let_def health_wf_def split: option.splits)

lemma hs_poll_all_frame:
  "hs_poll_all now as h = (h', ss) \<Longrightarrow> hs_registry h' = hs_registry h \<and> hs_tracked h' = hs_tracked h
    \<and> hs_next h' = hs_next h
    \<and> (\<forall>a. map_option tb_name (hs_objs h' a) = map_option tb_name (hs_objs h a))"
proof (induction as arbitrary: h ss)
  case Nil
  then show ?case by simp
next
  case (Cons a as)
  show ?case
  proof (cases "hs_objs h a")
    case None
    with Cons show ?thesis by simp
  next
    case (Some t)
    obtain t' s where ts: "tb_getStatus now t = (t', s)" by (cases "tb_getStatus now t")
    let ?h = "h\<lparr>hs_objs := (hs_objs h)(a \<mapsto> t')\<rparr>"
    obtain ss' where r: "hs_poll_all now as ?h = (h', ss')"
      using Cons.prems Some ts by (auto simp: Let_def split: prod.splits)
    from Cons.IH [OF r] tb.poll_keeps_name [of now t] Some ts show ?thesis by auto
  qed
qed

text \<open>Polling one address leaves the other objects alone, and a poll at the same instant
  changes nothing more.\<close>

lemma hs_poll_all_other:
  "hs_poll_all now as h = (h', ss) \<Longrightarrow> a \<notin> set as \<Longrightarrow> hs_objs h' a = hs_objs h a"
proof (induction as arbitrary: h ss)
  case Nil
  then show ?case by simp
next
  case (Cons x as)
  then show ?case by (fastforce simp: Let_def split: option.splits prod.splits)
qed

lemma map_filter_agree: "\<forall>a \<in> set as. f a = g a \<Longrightarrow> List.map_filter f as = List.map_filter g as"
proof (induction as)
  case (Cons a as)
  then have "List.map_filter f as = List.map_filter g as" "f a = g a" by simp_all
  then show ?case by (simp only: map_filter_simps)
qed simp

lemma hs_poll_all_value:
  "distinct as \<Longrightarrow> hs_poll_all now as h = (h', ss) \<Longrightarrow>
     (\<forall>a \<in> set as. hs_objs h' a = map_option (\<lambda>t. fst (tb_getStatus now t)) (hs_objs h a))
     \<and> ss = map (\<lambda>t. snd (tb_getStatus now t)) (List.map_filter (hs_objs h) as)"
proof (induction as arbitrary: h ss)
  case Nil
  then show ?case by (simp add: map_filter_simps)
next
  case (Cons x as)
  show ?case
  proof (cases "hs_objs h x")
    case None
    with Cons hs_poll_all_other [of now as h h' ss x] show ?thesis
      by (simp add: map_filter_simps)
  next
    case (Some t)
    let ?h = "h\<lparr>hs_objs := (hs_objs h)(x \<mapsto> fst (tb_getStatus now t))\<rparr>"
    obtain ss' where r: "hs_poll_all now as ?h = (h', ss')" and ss: "ss = snd (tb_getStatus now t) # ss'"
      using Cons.prems Some by (auto simp: Let_def split: prod.splits)
    have x: "x \<notin> set as" using Cons.prems by simp
    then have m: "List.map_filter (hs_objs ?h) as = List.map_filter (hs_objs h) as"
      by (intro map_filter_agree) auto
    have d: "distinct as" using Cons.prems by simp
    have a: "\<forall>a \<in> set as. hs_objs h' a = map_option (\<lambda>t. fst (tb_getStatus now t)) (hs_objs h a)"
    proof
      fix a assume "a \<in> set as"
      with conjunct1 [OF Cons.IH [OF d r]] x
      show "hs_objs h' a = map_option (\<lambda>t. fst (tb_getStatus now t)) (hs_objs h a)"
        by (cases "a = x") auto
    qed
    have v: "ss' = map (\<lambda>t. snd (tb_getStatus now t)) (List.map_filter (hs_objs h) as)"
      using conjunct2 [OF Cons.IH [OF d r]] unfolding m .
    from a v ss Some hs_poll_all_other [OF r x] show ?thesis by (simp add: map_filter_simps)
  qed
qed

lemma map_filter_polled:
  "\<forall>a \<in> set as. g a = map_option f (o1 a) \<Longrightarrow> List.map_filter g as = map f (List.map_filter o1 as)"
proof (induction as)
  case (Cons a as)
  then have "List.map_filter g as = map f (List.map_filter o1 as)" "g a = map_option f (o1 a)"
    by simp_all
  then show ?case by (cases "o1 a") (simp_all only: map_filter_simps option.simps list.simps)
qed (simp add: map_filter_simps)

lemma hs_poll_all_length:
  "\<forall>a \<in> set as. hs_objs h a \<noteq> None \<Longrightarrow> length (List.map_filter (hs_objs h) as) = length as"
  by (induction as) (auto simp: map_filter_simps)

subsection \<open>What the summary says\<close>

lemma summary_add_simps [simp]:
  "sm_instances (foldl summary_add sm sts) = sm_instances sm"
  "sm_name (foldl summary_add sm sts) = sm_name sm"
  by (induction sts arbitrary: sm) (auto simp: summary_add_def)

lemma summary_open_count:
  "sm_openInstances (foldl summary_add sm sts)
     = sm_openInstances sm + length (filter (\<lambda>s. st_state s = OPEN) sts)"
  by (induction sts arbitrary: sm) (auto simp: summary_add_def)

lemma Max_insert_max:
  fixes x y :: nat
  shows "finite (f ` set sts) \<Longrightarrow>
    Max (insert (max x (f s)) (f ` set sts)) = Max (insert x (f ` set (s # sts)))"
  by (cases "sts = []") (simp_all add: max.assoc)

lemma summary_state:
  "STATE_SEVERITY (sm_state (foldl summary_add sm sts))
     = Max (insert (STATE_SEVERITY (sm_state sm)) ((STATE_SEVERITY \<circ> st_state) ` set sts))"
proof (induction sts arbitrary: sm)
  case Nil
  then show ?case by simp
next
  case (Cons s sts)
  have "STATE_SEVERITY (sm_state (foldl summary_add sm (s # sts)))
     = Max (insert (max (STATE_SEVERITY (sm_state sm)) ((STATE_SEVERITY \<circ> st_state) s))
         ((STATE_SEVERITY \<circ> st_state) ` set sts))"
  proof -
    have "STATE_SEVERITY (sm_state (summary_add sm s))
       = max (STATE_SEVERITY (sm_state sm)) ((STATE_SEVERITY \<circ> st_state) s)"
      by (simp add: summary_add_def)
    with Cons [of "summary_add sm s"] show ?thesis by simp
  qed
  also have "\<dots> = Max (insert (STATE_SEVERITY (sm_state sm)) ((STATE_SEVERITY \<circ> st_state) ` set (s # sts)))"
    by (rule Max_insert_max) simp
  finally show ?case .
qed

lemma severity_inj: "STATE_SEVERITY s = STATE_SEVERITY t \<longleftrightarrow> s = t"
  by (cases s; cases t) auto

lemma summarize_unfold:
  assumes "health_wf h" "summarizeCircuitBreakers name now h = (h', Some sm)"
  obtains sts where "hs_poll_all now (instance_addrs name h) h = (h', sts)"
    "sts = map (\<lambda>t. snd (tb_getStatus now t)) (List.map_filter (hs_objs h) (instance_addrs name h))"
    "length sts = length (instance_addrs name h)" "instance_addrs name h \<noteq> []"
    "sm = foldl summary_add \<lparr> sm_name = name, sm_state = CLOSED,
        sm_instances = length (instance_addrs name h), sm_openInstances = 0, sm_failures = 0,
        sm_lastSuccessAt = None, sm_lastFailureAt = None \<rparr> sts"
proof -
  from assms(2) obtain sts where r: "hs_poll_all now (instance_addrs name h) h = (h', sts)"
    "instance_addrs name h \<noteq> []"
    "sm = foldl summary_add \<lparr> sm_name = name, sm_state = CLOSED,
        sm_instances = length (instance_addrs name h), sm_openInstances = 0, sm_failures = 0,
        sm_lastSuccessAt = None, sm_lastFailureAt = None \<rparr> sts"
    by (auto simp: summarizeCircuitBreakers_def Let_def split: prod.splits if_splits)
  have "\<forall>a \<in> set (instance_addrs name h). hs_objs h a \<noteq> None"
    using instance_addrs_named [OF assms(1), of _ name] by auto
  with hs_poll_all_value [OF distinct_instance_addrs [OF assms(1)] r(1)]
  have "sts = map (\<lambda>t. snd (tb_getStatus now t)) (List.map_filter (hs_objs h) (instance_addrs name h))"
    "length sts = length (instance_addrs name h)"
    by (auto simp: hs_poll_all_length)
  with r that show ?thesis by blast
qed

text \<open>Polling the same addresses again at the same instant changes nothing.\<close>

lemma hs_poll_all_twice:
  assumes d: "distinct as" and r: "hs_poll_all now as h = (h', ss)"
  shows "hs_poll_all now as h' = (h', ss)"
proof -
  obtain h'' ss' where r': "hs_poll_all now as h' = (h'', ss')" by fastforce
  note v = hs_poll_all_value [OF d r] and v' = hs_poll_all_value [OF d r']
  have objs: "hs_objs h'' a = hs_objs h' a" for a
  proof (cases "a \<in> set as")
    case True
    with v v' show ?thesis by (cases "hs_objs h a") (simp_all add: tb.poll_twice)
  qed (use hs_poll_all_other [OF r'] in simp)
  have "List.map_filter (hs_objs h') as
      = map (\<lambda>t. fst (tb_getStatus now t)) (List.map_filter (hs_objs h) as)"
    using conjunct1 [OF v] by (rule map_filter_polled)
  with v v' have "ss' = ss" by (simp add: tb.poll_twice comp_def)
  moreover have "h'' = h'"
    using objs hs_poll_all_frame [OF r'] by (cases h'; cases h'') auto
  ultimately show ?thesis using r' by simp
qed

lemma summarize_twice:
  assumes wf: "health_wf h" and s: "summarizeCircuitBreakers name now h = (h', Some sm)"
  shows "summarizeCircuitBreakers name now h' = (h', Some sm)"
proof -
  obtain sts where r: "hs_poll_all now (instance_addrs name h) h = (h', sts)"
    by (rule summarize_unfold [OF wf s])
  have "instance_addrs name h' = instance_addrs name h"
    using hs_poll_all_frame [OF r] by (simp add: instance_addrs_def)
  with hs_poll_all_twice [OF distinct_instance_addrs [OF wf] r] r s show ?thesis
    by (simp add: summarizeCircuitBreakers_def Let_def split: if_splits)
qed

text \<open>
  The summary of a name counts each breaker once, even one that is both registered and
  tracked; it is open exactly when some instance is open, closed exactly when every instance
  is closed, and asking again at the same instant gives the same summary and changes nothing.
\<close>

theorem summary_reports_worst_instance:
  assumes wf: "health_wf h" and s: "summarizeCircuitBreakers name now h = (h', Some sm)"
  shows "sm_instances sm = card (set (instance_addrs name h))
    \<and> (sm_state sm = OPEN \<longleftrightarrow> (\<exists>a \<in> set (instance_addrs name h). \<exists>t. hs_objs h a = Some t
          \<and> st_state (snd (tb_getStatus now t)) = OPEN))
    \<and> (0 < sm_openInstances sm \<longleftrightarrow> sm_state sm = OPEN)
    \<and> (sm_state sm = CLOSED \<longleftrightarrow> (\<forall>a \<in> set (instance_addrs name h). \<forall>t. hs_objs h a = Some t
          \<longrightarrow> st_state (snd (tb_getStatus now t)) = CLOSED))
    \<and> summarizeCircuitBreakers name now h' = (h', Some sm)"
proof -
  obtain sts where sts: "sts = map (\<lambda>t. snd (tb_getStatus now t))
        (List.map_filter (hs_objs h) (instance_addrs name h))"
    and sm: "sm = foldl summary_add \<lparr> sm_name = name, sm_state = CLOSED,
        sm_instances = length (instance_addrs name h), sm_openInstances = 0, sm_failures = 0,
        sm_lastSuccessAt = None, sm_lastFailureAt = None \<rparr> sts"
    by (rule summarize_unfold [OF wf s])
  have mem: "st \<in> set sts \<longleftrightarrow> (\<exists>a \<in> set (instance_addrs name h). \<exists>t. hs_objs h a = Some t
      \<and> st = snd (tb_getStatus now t))" for st
    by (force simp: sts List.map_filter_def)
  let ?S = "insert 0 ((STATE_SEVERITY \<circ> st_state) ` set sts)"
  have sev: "STATE_SEVERITY (sm_state sm) = Max ?S"
    using summary_state [of _ sts] by (simp add: sm)
  have open_iff: "sm_state sm = OPEN \<longleftrightarrow> (\<exists>st \<in> set sts. st_state st = OPEN)"
  proof
    assume "sm_state sm = OPEN"
    with sev have "Max ?S = 2" by simp
    with Max_in [of ?S] have "2 \<in> ?S" by simp
    then obtain st where "st \<in> set sts" "STATE_SEVERITY (st_state st) = STATE_SEVERITY OPEN" by auto
    then show "\<exists>st \<in> set sts. st_state st = OPEN" by (auto simp only: severity_inj)
  next
    assume "\<exists>st \<in> set sts. st_state st = OPEN"
    then have "2 \<in> ?S" by force
    then have "2 \<le> Max ?S" by (intro Max_ge) auto
    with sev show "sm_state sm = OPEN" by (cases "sm_state sm") auto
  qed
  have closed_iff: "sm_state sm = CLOSED \<longleftrightarrow> (\<forall>st \<in> set sts. st_state st = CLOSED)"
  proof -
    have "sm_state sm = CLOSED \<longleftrightarrow> Max ?S = 0"
      using sev severity_inj [of "sm_state sm" CLOSED] by simp
    also have "\<dots> \<longleftrightarrow> (\<forall>st \<in> set sts. STATE_SEVERITY (st_state st) = STATE_SEVERITY CLOSED)"
      by (subst Max_eq_iff) auto
    finally show ?thesis by (simp only: severity_inj)
  qed
  have cnt: "0 < sm_openInstances sm \<longleftrightarrow> (\<exists>st \<in> set sts. st_state st = OPEN)"
    by (simp add: sm summary_open_count filter_empty_conv)
  have "sm_instances sm = card (set (instance_addrs name h))"
    using distinct_instance_addrs [OF wf, of name] by (simp add: sm distinct_card)
  moreover have "(\<exists>st \<in> set sts. P st) \<longleftrightarrow> (\<exists>a \<in> set (instance_addrs name h). \<exists>t.
      hs_objs h a = Some t \<and> P (snd (tb_getStatus now t)))" for P
    using mem by metis
  moreover have "(\<forall>st \<in> set sts. P st) \<longleftrightarrow> (\<forall>a \<in> set (instance_addrs name h). \<forall>t.
      hs_objs h a = Some t \<longrightarrow> P (snd (tb_getStatus now t)))" for P
    using mem by metis
  ultimately show ?thesis
    using open_iff closed_iff cnt summarize_twice [OF wf s] by simp
qed

definition demo_health :: health where
  "demo_health = (let (h1, a) = getCircuitBreaker demo_opts empty_health;
     (h2, b) = hs_alloc (Venice (demo_probing\<lparr>vb_name := ''svc''\<rparr>)) (trackCircuitBreaker a h1)
   in trackCircuitBreaker b h2)"

theorem summary_reports_worst_instance_witness:
  "\<exists>h' sm. summarizeCircuitBreakers ''svc'' 20 demo_health = (h', Some sm)
     \<and> sm_instances sm = 2 \<and> sm_state sm \<noteq> CLOSED"
proof -
  have h: "hs_registry demo_health = [(''svc'', 0)]" "hs_tracked demo_health = [0, 1]"
    "hs_objs demo_health = [0 \<mapsto> Plain (new_breaker demo_opts), 1 \<mapsto> Venice (demo_probing\<lparr>vb_name := ''svc''\<rparr>)]"
    "hs_next demo_health = 2"
    by (simp_all add: demo_health_def getCircuitBreaker_def hs_alloc_def trackCircuitBreaker_def
        empty_health_def demo_opts_def)
  have wf: "health_wf demo_health"
    by (auto simp: health_wf_def h demo_opts_def new_breaker_def split: if_splits)
  have as: "instance_addrs ''svc'' demo_health = [0, 1]"
    by (simp add: instance_addrs_def h demo_opts_def new_breaker_def)
  obtain h' sts where "hs_poll_all 20 [0, 1] demo_health = (h', sts)" by fastforce
  then obtain sm where s: "summarizeCircuitBreakers ''svc'' 20 demo_health = (h', Some sm)"
    by (simp add: summarizeCircuitBreakers_def as Let_def)
  from summary_reports_worst_instance [OF wf s] have "sm_instances sm = 2"
    "sm_state sm = CLOSED \<longrightarrow> st_state (snd (tb_getStatus 20 (Venice (demo_probing\<lparr>vb_name := ''svc''\<rparr>)))) = CLOSED"
    by (auto simp: as h)
  moreover have "st_state (snd (tb_getStatus 20 (Venice (demo_probing\<lparr>vb_name := ''svc''\<rparr>)))) = HALF_OPEN"
    by (simp add: vb_ops demo_probing_eval)
  ultimately show ?thesis using s by auto
qed

end
