(* ===== verification/Backoff.thy ===== *)
theory Backoff
  imports Prelude JsNumber
begin

text \<open>
  \<open>backend/src/queue/backoff.ts\<close>: the full-jitter exponential backoff of failed jobs and the
  retry counters. \<open>baseMs\<close>, \<open>capMs\<close> and the attempt are whole numbers, on which
  multiplication by a power of two is exact; the product with the random number is rounded.
\<close>

definition DEFAULT_JOB_BACKOFF_MAX_MS :: ms where
  "DEFAULT_JOB_BACKOFF_MAX_MS = 300000"

definition backoffCeilingMs :: "int \<Rightarrow> ms \<Rightarrow> ms \<Rightarrow> ms" where
  "backoffCeilingMs attempt baseMs capMs =
     (let expo = max 0 (attempt - 1) in min capMs (baseMs * 2 ^ nat expo))"

definition computeBackoffDelayMs :: "int \<Rightarrow> ms \<Rightarrow> ms \<Rightarrow> rat \<Rightarrow> ms" where
  "computeBackoffDelayMs attempt baseMs capMs rnd =
     \<lfloor>fl (rnd * of_int (backoffCeilingMs attempt baseMs capMs))\<rfloor>"

record retry_metrics =
  rm_retriesTotal :: nat
  rm_deadLetterTotal :: nat
  rm_retryLagMsSum :: int
  rm_retryLagCount :: nat

definition no_retry_metrics :: retry_metrics where
  "no_retry_metrics = \<lparr> rm_retriesTotal = 0, rm_deadLetterTotal = 0, rm_retryLagMsSum = 0, rm_retryLagCount = 0 \<rparr>"

definition recordJobRetry :: "retry_metrics \<Rightarrow> retry_metrics" where
  "recordJobRetry m = m\<lparr>rm_retriesTotal := rm_retriesTotal m + 1\<rparr>"

definition recordJobDeadLetter :: "retry_metrics \<Rightarrow> retry_metrics" where
  "recordJobDeadLetter m = m\<lparr>rm_deadLetterTotal := rm_deadLetterTotal m + 1\<rparr>"

definition recordRetryLag :: "ms \<Rightarrow> retry_metrics \<Rightarrow> retry_metrics" where
  "recordRetryLag lag m = m\<lparr>rm_retryLagMsSum := rm_retryLagMsSum m + max 0 lag,
     rm_retryLagCount := rm_retryLagCount m + 1\<rparr>"

subsection \<open>The delay window\<close>

lemma backoffCeiling_mono:
  "0 \<le> baseMs \<Longrightarrow> a \<le> b \<Longrightarrow> backoffCeilingMs a baseMs cap \<le> backoffCeilingMs b baseMs cap"
  unfolding backoffCeilingMs_def Let_def
  by (intro min.mono order_refl mult_left_mono power_increasing) auto

lemma backoffCeiling_range:
  "0 \<le> baseMs \<Longrightarrow> 0 \<le> cap \<Longrightarrow> 0 \<le> backoffCeilingMs a baseMs cap \<and> backoffCeilingMs a baseMs cap \<le> cap"
  by (simp add: backoffCeilingMs_def Let_def)

lemma backoffDelay_range:
  assumes "0 \<le> baseMs" "0 \<le> cap" "cap \<le> 2 ^ 53" "0 \<le> rnd" "rnd \<le> 1"
  shows "0 \<le> computeBackoffDelayMs a baseMs cap rnd
    \<and> computeBackoffDelayMs a baseMs cap rnd \<le> backoffCeilingMs a baseMs cap"
proof -
  let ?c = "backoffCeilingMs a baseMs cap"
  from backoffCeiling_range [OF assms(1,2), of a] assms(3) have c: "0 \<le> ?c" "?c \<le> 2 ^ 53" by auto
  have p: "0 \<le> rnd * of_int ?c" "rnd * of_int ?c \<le> of_int ?c"
    using c assms(4,5) by (simp_all add: mult_left_le_one_le)
  from js.nonneg [OF p(1)] js.below_int [OF p(2) c] show ?thesis
    by (simp add: computeBackoffDelayMs_def) linarith
qed

text \<open>
  Whatever the random number in the unit interval, the delay before the next attempt is
  between zero and the ceiling of its attempt, the ceiling never exceeds the cap, doubles with
  each attempt until it reaches the cap, and never decreases.
\<close>

theorem backoff_window:
  assumes "0 \<le> baseMs" "0 \<le> cap" "cap \<le> 2 ^ 53" "0 \<le> rnd" "rnd < 1" "1 \<le> a"
  shows "0 \<le> computeBackoffDelayMs a baseMs cap rnd
    \<and> computeBackoffDelayMs a baseMs cap rnd \<le> backoffCeilingMs a baseMs cap
    \<and> backoffCeilingMs a baseMs cap \<le> backoffCeilingMs (a + 1) baseMs cap
    \<and> backoffCeilingMs (a + 1) baseMs cap = min cap (2 * backoffCeilingMs a baseMs cap)"
proof -
  have e: "nat a = Suc (nat (a - 1))" using assms(6) by simp
  have "backoffCeilingMs (a + 1) baseMs cap = min cap (2 * backoffCeilingMs a baseMs cap)"
    using assms(2,6) by (simp add: backoffCeilingMs_def Let_def e)
  with backoffDelay_range [of baseMs cap rnd a] backoffCeiling_mono [of baseMs a "a + 1" cap] assms
  show ?thesis by simp
qed

theorem backoff_window_witness:
  "computeBackoffDelayMs 3 1000 300000 (1/3) \<le> backoffCeilingMs 3 1000 300000
    \<and> backoffCeilingMs 3 1000 300000 = 4000"
  using backoff_window [of 1000 300000 "1/3" 3] by (simp add: backoffCeilingMs_def)

end
