(* ===== verification/JobStore.thy ===== *)
theory JobStore
  imports Prelude JsNumber "HOL-Library.Multiset"
begin

text \<open>
  \<open>backend/src/queue/jobStore.ts\<close>: the durable job table and the statements over it. The
  table is the list of its rows in \<open>rowid\<close> order; where an \<open>ORDER BY\<close> leaves ties
  the model takes the first row, one of the answers SQL allows, and no property depends on
  it. \<open>priorityNum\<close> is a function of \<open>priority\<close>, from which \<open>insert\<close> computes it
  once. The payload is its JSON text. Each operation is one SQLite statement or transaction,
  so it is one atomic step over the shared table.

  The table is an instance of the locale \<open>guarded_table\<close>, on which its clients rely.
\<close>

datatype job_status = JPending | JActive | JCompleted | JFailed | JDeadLetter
datatype job_priority = PLow | PNormal | PHigh | PCritical

fun PRIORITY_WEIGHTS :: "job_priority \<Rightarrow> int" where
  "PRIORITY_WEIGHTS PCritical = 4"
| "PRIORITY_WEIGHTS PHigh = 3"
| "PRIORITY_WEIGHTS PNormal = 2"
| "PRIORITY_WEIGHTS PLow = 1"

record job =
  j_id :: ident
  j_taskId :: ident
  j_type :: string
  j_payload :: string
  j_status :: job_status
  j_priority :: job_priority
  j_progress :: int
  j_attempts :: int
  j_maxAttempts :: int
  j_lastError :: "string option"
  j_nextRunAt :: ms
  j_createdAt :: ms
  j_updatedAt :: ms
  j_completedAt :: "ms option"
  j_failedAt :: "ms option"
  j_leaseOwner :: "ident option"
  j_leaseExpiresAt :: "ms option"

record job_lease =
  le_owner :: ident
  le_expiresAt :: ms

record job_store =
  js_jobs :: "job list"
  js_history :: "(ident \<times> job_status \<times> ms) list"

datatype job_error = PrimaryKeyError ident | DatabaseError | DuplicateJobError ident

definition initJobSchema :: job_store where
  "initJobSchema = \<lparr> js_jobs = [], js_history = [] \<rparr>"

subsection \<open>Insertion and lookup\<close>

definition insert_job :: "job \<Rightarrow> job_store \<Rightarrow> job_error + job_store" where
  "insert_job j st = (if j_id j \<in> j_id ` set (js_jobs st) then Inl (PrimaryKeyError (j_id j))
     else Inr (st\<lparr>js_jobs := js_jobs st @ [j]\<rparr>))"

definition findById :: "ident \<Rightarrow> job_store \<Rightarrow> job option" where
  "findById i st = row_by j_id i (js_jobs st)"

definition findByTaskId :: "ident \<Rightarrow> job_store \<Rightarrow> job option" where
  "findByTaskId t st = best_by (\<lambda>j. - j_createdAt j) (filter (\<lambda>j. j_taskId j = t) (js_jobs st))"

definition hasPendingJobForTask :: "ident \<Rightarrow> job_store \<Rightarrow> bool" where
  "hasPendingJobForTask t st \<longleftrightarrow>
     (\<exists>j \<in> set (js_jobs st). j_taskId j = t \<and> j_status j \<in> {JPending, JActive, JFailed})"

subsection \<open>The claim\<close>

definition claimable :: "job \<Rightarrow> bool" where
  "claimable j \<longleftrightarrow> j_status j = JPending \<or> (j_status j = JFailed \<and> j_attempts j < j_maxAttempts j)"

definition runnable :: "ms \<Rightarrow> job \<Rightarrow> bool" where
  "runnable now j \<longleftrightarrow> claimable j \<and> j_nextRunAt j \<le> now"

definition claim_key :: "job \<Rightarrow> int \<times> int" where
  "claim_key j = (- PRIORITY_WEIGHTS (j_priority j), j_createdAt j)"

definition getNextPendingJob :: "ms \<Rightarrow> job_store \<Rightarrow> job option" where
  "getNextPendingJob now st = best_by claim_key (filter (runnable now) (js_jobs st))"

definition mark_claimed :: "ms \<Rightarrow> job_lease option \<Rightarrow> job \<Rightarrow> job" where
  "mark_claimed now lease j = j\<lparr>j_status := JActive, j_updatedAt := now,
     j_leaseOwner := map_option le_owner lease,
     j_leaseExpiresAt := map_option le_expiresAt lease\<rparr>"

definition claimNextStmt :: "ms \<Rightarrow> job_lease option \<Rightarrow> job_store \<Rightarrow> job_store \<times> job option" where
  "claimNextStmt now lease st =
     (case getNextPendingJob now st of
        None \<Rightarrow> (st, None)
      | Some c \<Rightarrow>
          (let p = (\<lambda>j. j_id j = j_id c \<and> claimable j)
           in (st\<lparr>js_jobs := fst (sql_update p (mark_claimed now lease) (js_jobs st))\<rparr>,
               map_option (mark_claimed now lease) (find p (js_jobs st)))))"

text \<open>
  What the database says to an attempt: it runs the transaction, reports \<open>SQLITE_BUSY\<close>,
  or fails otherwise. The loop tries three times and hands a busy database back as
  \<open>None\<close>.
\<close>

datatype db_outcome = DbRuns | DbBusy | DbFails

definition CLAIM_BUSY_ATTEMPTS :: nat where
  "CLAIM_BUSY_ATTEMPTS = 3"

fun claim_attempts :: "nat \<Rightarrow> db_outcome list \<Rightarrow> ms \<Rightarrow> job_lease option \<Rightarrow> job_store
    \<Rightarrow> job_error + job_store \<times> job option" where
  "claim_attempts 0 env now lease st = Inr (st, None)"
| "claim_attempts (Suc n) env now lease st =
     (case env of
        [] \<Rightarrow> Inr (claimNextStmt now lease st)
      | DbRuns # _ \<Rightarrow> Inr (claimNextStmt now lease st)
      | DbFails # _ \<Rightarrow> Inl DatabaseError
      | DbBusy # env' \<Rightarrow> claim_attempts n env' now lease st)"

definition claimNextPendingJob :: "db_outcome list \<Rightarrow> ms \<Rightarrow> job_lease option \<Rightarrow> job_store
    \<Rightarrow> job_error + job_store \<times> job option" where
  "claimNextPendingJob env now lease st = claim_attempts CLAIM_BUSY_ATTEMPTS env now lease st"

subsection \<open>Leases\<close>

definition owned_by :: "ident \<Rightarrow> ident \<Rightarrow> job \<Rightarrow> bool" where
  "owned_by i owner j \<longleftrightarrow> j_id j = i \<and> j_status j = JActive \<and> j_leaseOwner j = Some owner"

definition js_update :: "(job \<Rightarrow> bool) \<Rightarrow> (job \<Rightarrow> job) \<Rightarrow> job_store \<Rightarrow> job_store \<times> nat" where
  "js_update p upd st = (case sql_update p upd (js_jobs st) of (rows, n) \<Rightarrow> (st\<lparr>js_jobs := rows\<rparr>, n))"

definition extendLease :: "ms \<Rightarrow> ident \<Rightarrow> ident \<Rightarrow> ms \<Rightarrow> job_store \<Rightarrow> job_store \<times> bool" where
  "extendLease now i owner expiresAt st =
     (case js_update (owned_by i owner) (\<lambda>j. j\<lparr>j_leaseExpiresAt := Some expiresAt, j_updatedAt := now\<rparr>) st
      of (st', n) \<Rightarrow> (st', 0 < n))"

definition releaseLease :: "ms \<Rightarrow> ident \<Rightarrow> ident \<Rightarrow> job_store \<Rightarrow> job_store \<times> bool" where
  "releaseLease now i owner st =
     (case js_update (owned_by i owner)
        (\<lambda>j. j\<lparr>j_leaseOwner := None, j_leaseExpiresAt := None, j_updatedAt := now\<rparr>) st
      of (st', n) \<Rightarrow> (st', 0 < n))"

definition lease_expired :: "ms \<Rightarrow> job \<Rightarrow> bool" where
  "lease_expired now j \<longleftrightarrow> (case j_leaseExpiresAt j of None \<Rightarrow> True | Some e \<Rightarrow> e < now)"

definition recoverIncompleteJobs :: "ms \<Rightarrow> job_store \<Rightarrow> job_store \<times> nat" where
  "recoverIncompleteJobs now st =
     js_update (\<lambda>j. j_status j = JActive \<and> lease_expired now j)
       (\<lambda>j. j\<lparr>j_status := JPending, j_nextRunAt := now, j_updatedAt := now,
            j_leaseOwner := None, j_leaseExpiresAt := None\<rparr>) st"

subsection \<open>Status changes\<close>

text \<open>\<open>None\<close> is \<open>undefined\<close>; in a nullable column \<open>Some None\<close> is \<open>null\<close>.\<close>

record status_updates =
  su_lastError :: "string option option"
  su_attempts :: "int option"
  su_nextRunAt :: "ms option"
  su_progress :: "int option"
  su_completedAt :: "ms option option"
  su_failedAt :: "ms option option"
  su_expectedStatus :: "job_status list option"

definition no_updates :: status_updates where
  "no_updates = \<lparr> su_lastError = None, su_attempts = None, su_nextRunAt = None, su_progress = None,
     su_completedAt = None, su_failedAt = None, su_expectedStatus = None \<rparr>"

definition set_status :: "job_status \<Rightarrow> ms \<Rightarrow> status_updates \<Rightarrow> job \<Rightarrow> job" where
  "set_status s now u j = j\<lparr>j_status := s, j_updatedAt := now,
     j_attempts := (case su_attempts u of None \<Rightarrow> j_attempts j | Some a \<Rightarrow> a),
     j_progress := (case su_progress u of None \<Rightarrow> j_progress j | Some p \<Rightarrow> p),
     j_lastError := (case su_lastError u of None \<Rightarrow> j_lastError j | Some e \<Rightarrow> e),
     j_nextRunAt := (case su_nextRunAt u of None \<Rightarrow> j_nextRunAt j | Some t \<Rightarrow> t),
     j_completedAt := (case su_completedAt u of None \<Rightarrow> j_completedAt j | Some t \<Rightarrow> t),
     j_failedAt := (case su_failedAt u of None \<Rightarrow> j_failedAt j | Some t \<Rightarrow> t)\<rparr>"

definition status_expected :: "status_updates \<Rightarrow> job \<Rightarrow> bool" where
  "status_expected u j \<longleftrightarrow> (case su_expectedStatus u of None \<Rightarrow> True
     | Some es \<Rightarrow> es = [] \<or> j_status j \<in> set es)"

definition updateStatus :: "ms \<Rightarrow> ident \<Rightarrow> job_status \<Rightarrow> status_updates \<Rightarrow> job_store \<Rightarrow> job_store \<times> bool" where
  "updateStatus now i s u st =
     (let (st', n) = js_update (\<lambda>j. j_id j = i \<and> status_expected u j) (set_status s now u) st
      in if 0 < n then (st'\<lparr>js_history := js_history st' @ [(i, s, now)]\<rparr>, True) else (st', False))"

definition clamp_progress :: "rat \<Rightarrow> int" where
  "clamp_progress p = max 0 (min 100 (js_round p))"

definition updateProgress :: "ms \<Rightarrow> ident \<Rightarrow> rat \<Rightarrow> job_store \<Rightarrow> job_store" where
  "updateProgress now i p st = fst (js_update (\<lambda>j. j_id j = i)
     (\<lambda>j. j\<lparr>j_progress := clamp_progress p, j_updatedAt := now\<rparr>) st)"

subsection \<open>Listing and statistics\<close>

record job_filter =
  jf_status :: "job_status option"
  jf_taskId :: "ident option"
  jf_page :: "int option"
  jf_pageSize :: "int option"

definition page_number :: "int option \<Rightarrow> int" where
  "page_number p = max 1 (let n = (case p of None \<Rightarrow> 1 | Some n \<Rightarrow> n) in if n = 0 then 1 else n)"

definition page_size :: "int option \<Rightarrow> int" where
  "page_size p = min 100 (max 1 (let n = (case p of None \<Rightarrow> 50 | Some n \<Rightarrow> n) in if n = 0 then 1 else n))"

definition filter_matches :: "job_filter \<Rightarrow> job \<Rightarrow> bool" where
  "filter_matches f j \<longleftrightarrow>
     (case jf_status f of None \<Rightarrow> True | Some s \<Rightarrow> j_status j = s)
   \<and> (case jf_taskId f of None \<Rightarrow> True | Some t \<Rightarrow> t = '''' \<or> j_taskId j = t)"

definition list_key :: "job \<Rightarrow> int \<times> int" where
  "list_key j = (- PRIORITY_WEIGHTS (j_priority j), - j_createdAt j)"

definition list_jobs :: "job_filter \<Rightarrow> job_store \<Rightarrow> job list \<times> nat" where
  "list_jobs f st =
     (let page = page_number (jf_page f); pageSize = page_size (jf_pageSize f);
          offset = (page - 1) * pageSize;
          rows = filter (filter_matches f) (js_jobs st)
      in (take (nat pageSize) (drop (nat offset) (sort_key list_key rows)), length rows))"

definition getDeadLetterJobs :: "int option \<Rightarrow> int option \<Rightarrow> job_store \<Rightarrow> job list \<times> nat" where
  "getDeadLetterJobs page pageSize st =
     list_jobs \<lparr> jf_status = Some JDeadLetter, jf_taskId = None, jf_page = page, jf_pageSize = pageSize \<rparr> st"

record job_stats =
  jt_pending :: nat
  jt_active :: nat
  jt_completed :: nat
  jt_failed :: nat
  jt_deadLetter :: nat
  jt_total :: nat

definition count_status :: "job_status \<Rightarrow> job_store \<Rightarrow> nat" where
  "count_status s st = length (filter (\<lambda>j. j_status j = s) (js_jobs st))"

definition getStats :: "job_store \<Rightarrow> job_stats" where
  "getStats st = \<lparr> jt_pending = count_status JPending st, jt_active = count_status JActive st,
     jt_completed = count_status JCompleted st, jt_failed = count_status JFailed st,
     jt_deadLetter = count_status JDeadLetter st,
     jt_total = sum_list (map (\<lambda>s. count_status s st)
        [JPending, JActive, JCompleted, JFailed, JDeadLetter]) \<rparr>"

subsection \<open>Dead letters and deletion\<close>

definition retryDeadLetterJob :: "ms \<Rightarrow> ident \<Rightarrow> job_store \<Rightarrow> job_store \<times> bool" where
  "retryDeadLetterJob now i st =
     (case js_update (\<lambda>j. j_id j = i \<and> j_status j = JDeadLetter)
        (\<lambda>j. j\<lparr>j_status := JPending, j_attempts := 0, j_lastError := None, j_nextRunAt := now,
             j_failedAt := None, j_leaseOwner := None, j_leaseExpiresAt := None, j_updatedAt := now\<rparr>) st
      of (st', n) \<Rightarrow> (st', 0 < n))"

definition js_delete :: "(job \<Rightarrow> bool) \<Rightarrow> job_store \<Rightarrow> job_store \<times> nat" where
  "js_delete p st = (case sql_delete p (js_jobs st) of (rows, n) \<Rightarrow> (st\<lparr>js_jobs := rows\<rparr>, n))"

definition purgeDeadLetters :: "ms \<Rightarrow> job_store \<Rightarrow> job_store \<times> nat" where
  "purgeDeadLetters before st = js_delete (\<lambda>j. j_status j = JDeadLetter
     \<and> (case j_failedAt j of Some t \<Rightarrow> t \<le> before | None \<Rightarrow> j_updatedAt j \<le> before)) st"

definition delete_job :: "ident \<Rightarrow> job_store \<Rightarrow> job_store \<times> bool" where
  "delete_job i st = (case js_delete (\<lambda>j. j_id j = i) st of (st', n) \<Rightarrow> (st', 0 < n))"

definition clear_jobs :: "job_store \<Rightarrow> job_store" where
  "clear_jobs st = fst (js_delete (\<lambda>_. True) st)"

subsection \<open>Well-formed tables\<close>

definition js_wf :: "job_store \<Rightarrow> bool" where
  "js_wf st \<longleftrightarrow> distinct (map j_id (js_jobs st))"

lemma js_update_jobs: "js_jobs (fst (js_update p f st)) = map (\<lambda>j. if p j then f j else j) (js_jobs st)"
  by (simp add: js_update_def sql_update_def)

lemma js_update_changes: "0 < snd (js_update p f st) \<longleftrightarrow> (\<exists>j \<in> set (js_jobs st). p j)"
  by (simp add: js_update_def case_prod_beta sql_update_changes)

lemma findById_iff: "js_wf st \<Longrightarrow> findById i st = Some j \<longleftrightarrow> j \<in> set (js_jobs st) \<and> j_id j = i"
  unfolding findById_def js_wf_def using row_by_Some row_by_mem by fastforce

interpretation jt: guarded_table "\<lambda>st i. findById i st" js_update js_wf j_id
proof
  fix st :: job_store and p f i
  assume wf: "js_wf st"
  show "0 < snd (js_update p f st) \<longleftrightarrow> (\<exists>k r. findById k st = Some r \<and> p r)"
    by (auto simp: js_update_changes findById_iff [OF wf])
  show "findById i st = Some j \<Longrightarrow> j_id j = i" for j
    by (simp add: findById_iff [OF wf])
  assume "\<And>j. j_id (f j) = j_id j"
  then show "findById i (fst (js_update p f st)) = map_option (\<lambda>j. if p j then f j else j) (findById i st)"
    and "js_wf (fst (js_update p f st))"
    using wf by (simp_all add: findById_def js_update_jobs row_by_update js_wf_def
        comp_def if_distrib [of j_id] cong: if_cong)
qed

named_theorems job_ops "the operations over the table, unfolded"

lemmas [job_ops] = extendLease_def releaseLease_def recoverIncompleteJobs_def updateProgress_def
  retryDeadLetterJob_def

lemma findById_update [job_ops]: "js_wf st \<Longrightarrow> (\<And>j. j_id (f j) = j_id j) \<Longrightarrow>
  findById i (fst (js_update p f st)) = map_option (\<lambda>j. if p j then f j else j) (findById i st)"
  by (rule jt.look_upd)

lemma set_status_simps [simp]:
  "j_id (set_status s now u j) = j_id j" "j_status (set_status s now u j) = s"
  "j_taskId (set_status s now u j) = j_taskId j" "j_leaseOwner (set_status s now u j) = j_leaseOwner j"
  "j_leaseExpiresAt (set_status s now u j) = j_leaseExpiresAt j"
  by (simp_all add: set_status_def)

lemma mark_claimed_simps [simp]:
  "j_id (mark_claimed now l j) = j_id j" "j_status (mark_claimed now l j) = JActive"
  "j_taskId (mark_claimed now l j) = j_taskId j" "j_attempts (mark_claimed now l j) = j_attempts j"
  "j_maxAttempts (mark_claimed now l j) = j_maxAttempts j"
  "j_leaseOwner (mark_claimed now l j) = map_option le_owner l"
  "j_leaseExpiresAt (mark_claimed now l j) = map_option le_expiresAt l"
  by (simp_all add: mark_claimed_def)

lemma updateStatus_view: "js_wf st \<Longrightarrow>
  findById k (fst (updateStatus now i s u st))
    = map_option (\<lambda>j. if j_id j = i \<and> status_expected u j then set_status s now u j else j) (findById k st)"
  using findById_update [of st "set_status s now u" k "\<lambda>j. j_id j = i \<and> status_expected u j"]
  by (simp add: updateStatus_def case_prod_beta Let_def findById_def)

lemma updateStatus_moved: "js_wf st \<Longrightarrow>
  snd (updateStatus now i s u st) \<longleftrightarrow> (\<exists>j. findById i st = Some j \<and> status_expected u j)"
  using jt.upd_one [of st i "status_expected u" "set_status s now u"]
  by (simp add: updateStatus_def case_prod_beta Let_def)

subsection \<open>What a claim does\<close>

lemma getNext_None: "getNextPendingJob now st = None \<longleftrightarrow> (\<forall>j \<in> set (js_jobs st). \<not> runnable now j)"
  by (simp add: getNextPendingJob_def filter_empty_conv)

lemma getNext_Some: "getNextPendingJob now st = Some c \<Longrightarrow>
  c \<in> set (js_jobs st) \<and> runnable now c
  \<and> (\<forall>d \<in> set (js_jobs st). runnable now d \<longrightarrow> claim_key c \<le> claim_key d)"
  unfolding getNextPendingJob_def using best_by_in best_by_least by fastforce

lemma claim_unfold:
  assumes "js_wf st"
  shows "claimNextStmt now lease st = (case getNextPendingJob now st of None \<Rightarrow> (st, None)
    | Some c \<Rightarrow> (st\<lparr>js_jobs := map (\<lambda>j. if j_id j = j_id c then mark_claimed now lease j else j) (js_jobs st)\<rparr>,
        Some (mark_claimed now lease c)))"
proof (cases "getNextPendingJob now st")
  case None
  then show ?thesis by (simp add: claimNextStmt_def)
next
  case (Some c)
  with getNext_Some have c: "c \<in> set (js_jobs st)" "claimable c" by (auto simp: runnable_def)
  have d: "distinct (map j_id (js_jobs st))" using assms by (simp add: js_wf_def)
  have "find (\<lambda>j. j_id j = j_id c \<and> claimable j) (js_jobs st) = Some c"
    using find_key [OF d c(1), of claimable] c(2) by simp
  moreover have "j_id j = j_id c \<and> claimable j \<longleftrightarrow> j_id j = j_id c" if "j \<in> set (js_jobs st)" for j
    using distinct_key_eq [OF d that c(1)] c(2) by auto
  ultimately show ?thesis
    using Some by (simp add: claimNextStmt_def sql_update_rows cong: map_cong)
qed

lemma claim_view:
  assumes "js_wf st" "claimNextStmt now lease st = (st', Some j)"
  obtains c where "getNextPendingJob now st = Some c" "j = mark_claimed now lease c"
    "findById (j_id j) st = Some c"
    "\<And>i. findById i st' = (if i = j_id j then Some j else findById i st)" "js_wf st'"
    "js_history st' = js_history st"
proof -
  obtain c where c: "getNextPendingJob now st = Some c" "j = mark_claimed now lease c"
    and st': "st' = st\<lparr>js_jobs := map (\<lambda>j. if j_id j = j_id c then mark_claimed now lease j else j) (js_jobs st)\<rparr>"
    using assms(2) unfolding claim_unfold [OF assms(1)] by (auto split: option.splits)
  have f: "findById (j_id j) st = Some c"
    using getNext_Some [OF c(1)] c(2) by (simp add: findById_iff [OF assms(1)])
  have st'': "st' = fst (js_update (\<lambda>j. j_id j = j_id c) (mark_claimed now lease) st)"
    by (simp add: st' js_update_def sql_update_def)
  have jc: "j_id j = j_id c" using c(2) by simp
  have v: "findById i st' = (if i = j_id j then Some j else findById i st)" for i
  proof (cases "i = j_id c")
    case True
    then have "findById i st = Some c" using f jc by simp
    then show ?thesis using True c(2) by (simp add: st'' findById_update [OF assms(1)])
  next
    case False
    then show ?thesis using jt.look_key [OF assms(1), of i] jc
      by (cases "findById i st") (simp_all add: st'' findById_update [OF assms(1)])
  qed
  have w: "js_wf st'" unfolding st'' by (rule jt.upd_wf [OF assms(1)]) simp
  have "js_history st' = js_history st" by (simp add: st')
  from that [OF c f v w this] show ?thesis .
qed

lemma claim_attempts_cases:
  "claim_attempts n env now lease st = Inr (claimNextStmt now lease st)
    \<or> claim_attempts n env now lease st = Inl DatabaseError \<and> DbFails \<in> set (take n env)
    \<or> claim_attempts n env now lease st = Inr (st, None) \<and> take n env = replicate n DbBusy"
proof (induction n arbitrary: env)
  case (Suc n)
  show ?case
  proof (cases env)
    case (Cons x env')
    with Suc [of env'] show ?thesis by (cases x) auto
  qed simp
qed simp

lemma claim_key_le: "claim_key c \<le> claim_key d \<longleftrightarrow> PRIORITY_WEIGHTS (j_priority d) < PRIORITY_WEIGHTS (j_priority c)
    \<or> PRIORITY_WEIGHTS (j_priority d) = PRIORITY_WEIGHTS (j_priority c) \<and> j_createdAt c \<le> j_createdAt d"
  by (auto simp: claim_key_def less_eq_prod_simp)

text \<open>
  C31. A claim hands out a runnable job of the highest priority present and, among those, the
  oldest; the same statement makes it active under the caller's lease and touches no other
  row. It returns nothing, changing nothing, only when no job is runnable or the database
  stayed busy for all three attempts, and it throws only when the database failed.
\<close>

theorem claim_takes_best_runnable:
  assumes "js_wf st"
  shows "case claimNextPendingJob env now lease st of
      Inl e \<Rightarrow> DbFails \<in> set (take 3 env)
    | Inr (st', None) \<Rightarrow> st' = st \<and> ((\<forall>j \<in> set (js_jobs st). \<not> runnable now j)
        \<or> take 3 env = [DbBusy, DbBusy, DbBusy])
    | Inr (st', Some j) \<Rightarrow> \<exists>c \<in> set (js_jobs st). runnable now c
        \<and> (\<forall>d \<in> set (js_jobs st). runnable now d \<longrightarrow> PRIORITY_WEIGHTS (j_priority d) < PRIORITY_WEIGHTS (j_priority c)
            \<or> PRIORITY_WEIGHTS (j_priority d) = PRIORITY_WEIGHTS (j_priority c) \<and> j_createdAt c \<le> j_createdAt d)
        \<and> j = mark_claimed now lease c
        \<and> (\<forall>i. findById i st' = (if i = j_id c then Some j else findById i st))"
proof -
  have stmt: "case claimNextStmt now lease st of
      (st', None) \<Rightarrow> st' = st \<and> (\<forall>j \<in> set (js_jobs st). \<not> runnable now j)
    | (st', Some j) \<Rightarrow> \<exists>c \<in> set (js_jobs st). runnable now c
        \<and> (\<forall>d \<in> set (js_jobs st). runnable now d \<longrightarrow> claim_key c \<le> claim_key d)
        \<and> j = mark_claimed now lease c
        \<and> (\<forall>i. findById i st' = (if i = j_id c then Some j else findById i st))"
  proof -
    obtain st' r where r: "claimNextStmt now lease st = (st', r)" by fastforce
    show ?thesis
    proof (cases r)
      case None
      with r have "getNextPendingJob now st = None \<and> st' = st"
        by (auto simp: claim_unfold [OF assms] split: option.splits)
      with r None show ?thesis by (simp add: getNext_None [symmetric])
    next
      case (Some j)
      obtain c where c: "getNextPendingJob now st = Some c" "j = mark_claimed now lease c"
        "\<And>i. findById i st' = (if i = j_id j then Some j else findById i st)"
        using claim_view [OF assms r [unfolded Some]] by metis
      from c(2) have "j_id j = j_id c" by simp
      with c getNext_Some [OF c(1)] have "\<exists>c \<in> set (js_jobs st). runnable now c
        \<and> (\<forall>d \<in> set (js_jobs st). runnable now d \<longrightarrow> claim_key c \<le> claim_key d)
        \<and> j = mark_claimed now lease c
        \<and> (\<forall>i. findById i st' = (if i = j_id c then Some j else findById i st))"
        by metis
      then show ?thesis unfolding r Some by simp
    qed
  qed
  have three: "claimNextPendingJob env now lease st = Inr (claimNextStmt now lease st)
    \<or> claimNextPendingJob env now lease st = Inl DatabaseError \<and> DbFails \<in> set (take 3 env)
    \<or> claimNextPendingJob env now lease st = Inr (st, None) \<and> take 3 env = [DbBusy, DbBusy, DbBusy]"
    using claim_attempts_cases [of 3 env now lease st]
    by (simp add: claimNextPendingJob_def CLAIM_BUSY_ATTEMPTS_def eval_nat_numeral)
  from three show ?thesis
  proof (elim disjE conjE)
    assume "claimNextPendingJob env now lease st = Inr (claimNextStmt now lease st)"
    with stmt show ?thesis
      by (cases "claimNextStmt now lease st"; cases "snd (claimNextStmt now lease st)") (simp_all add: claim_key_le)
  qed simp_all
qed

definition demo_job :: "ident \<Rightarrow> job_priority \<Rightarrow> ms \<Rightarrow> job" where
  "demo_job i p t = \<lparr> j_id = i, j_taskId = ''t'' @ i, j_type = ''execute_task'', j_payload = ''{}'',
     j_status = JPending, j_priority = p, j_progress = 0, j_attempts = 0, j_maxAttempts = 3,
     j_lastError = None, j_nextRunAt = t, j_createdAt = t, j_updatedAt = t, j_completedAt = None,
     j_failedAt = None, j_leaseOwner = None, j_leaseExpiresAt = None \<rparr>"

definition demo_jobs :: job_store where
  "demo_jobs = \<lparr> js_jobs = [demo_job ''a'' PLow 0, demo_job ''b'' PHigh 5, demo_job ''c'' PHigh 3,
      demo_job ''d'' PCritical 99], js_history = [] \<rparr>"

lemma demo_jobs_wf: "js_wf demo_jobs"
  by (simp add: js_wf_def demo_jobs_def demo_job_def)

theorem claim_takes_best_runnable_witness:
  "\<exists>st' j. claimNextPendingJob [DbBusy] 10 None demo_jobs = Inr (st', Some j) \<and> j_id j = ''c''
    \<and> findById ''b'' st' = findById ''b'' demo_jobs"
proof -
  have "getNextPendingJob 10 demo_jobs = Some (demo_job ''c'' PHigh 3)"
    by (simp add: getNextPendingJob_def demo_jobs_def demo_job_def runnable_def claimable_def
        best_by_def claim_key_def less_eq_prod_simp)
  then obtain st' where r: "claimNextPendingJob [DbBusy] 10 None demo_jobs
      = Inr (st', Some (mark_claimed 10 None (demo_job ''c'' PHigh 3)))"
    by (simp add: claimNextPendingJob_def CLAIM_BUSY_ATTEMPTS_def eval_nat_numeral
        claim_unfold [OF demo_jobs_wf])
  from claim_takes_best_runnable [OF demo_jobs_wf, of "[DbBusy]" 10 None]
  obtain c where c: "mark_claimed 10 None (demo_job ''c'' PHigh 3) = mark_claimed 10 None c"
    "\<forall>i. i \<noteq> j_id c \<longrightarrow> findById i st' = findById i demo_jobs"
    unfolding r by auto
  from arg_cong [OF c(1), of j_id] have "j_id c = ''c''" by (simp add: demo_job_def)
  with c(2) have "findById ''b'' st' = findById ''b'' demo_jobs" by simp
  with r show ?thesis by (auto simp: demo_job_def)
qed

subsection \<open>Runs of operations\<close>

datatype js_op =
    OpInsert job
  | OpClaim ms "job_lease option"
  | OpExtend ms ident ident ms
  | OpRelease ms ident ident
  | OpRecover ms
  | OpStatus ms ident job_status status_updates
  | OpProgress ms ident rat
  | OpReplay ms ident
  | OpPurge ms
  | OpDelete ident

fun js_apply :: "js_op \<Rightarrow> job_store \<Rightarrow> job_store" where
  "js_apply (OpInsert j) st = (case insert_job j st of Inl _ \<Rightarrow> st | Inr st' \<Rightarrow> st')"
| "js_apply (OpClaim now l) st = fst (claimNextStmt now l st)"
| "js_apply (OpExtend now i ow e) st = fst (extendLease now i ow e st)"
| "js_apply (OpRelease now i ow) st = fst (releaseLease now i ow st)"
| "js_apply (OpRecover now) st = fst (recoverIncompleteJobs now st)"
| "js_apply (OpStatus now i s u) st = fst (updateStatus now i s u st)"
| "js_apply (OpProgress now i p) st = updateProgress now i p st"
| "js_apply (OpReplay now i) st = fst (retryDeadLetterJob now i st)"
| "js_apply (OpPurge t) st = fst (purgeDeadLetters t st)"
| "js_apply (OpDelete i) st = fst (delete_job i st)"

fun js_run :: "js_op list \<Rightarrow> job_store \<Rightarrow> job_store" where
  "js_run [] st = st"
| "js_run (x # xs) st = js_run xs (js_apply x st)"

lemma js_delete_view: "js_wf st \<Longrightarrow> js_wf (fst (js_delete p st))
  \<and> findById i (fst (js_delete p st)) = (case findById i st of None \<Rightarrow> None
      | Some j \<Rightarrow> if p j then None else Some j)"
proof -
  assume wf: "js_wf st"
  have jobs: "js_jobs (fst (js_delete p st)) = filter (\<lambda>j. \<not> p j) (js_jobs st)"
    by (simp add: js_delete_def sql_delete_def)
  with wf have wf': "js_wf (fst (js_delete p st))" by (simp add: js_wf_def distinct_filter_key)
  moreover have "findById i (fst (js_delete p st)) = (case findById i st of None \<Rightarrow> None
      | Some j \<Rightarrow> if p j then None else Some j)"
    using wf by (simp add: findById_def jobs row_by_filter js_wf_def split: option.split)
  ultimately show ?thesis by simp
qed

lemma updateStatus_wf: "js_wf st \<Longrightarrow> js_wf (fst (updateStatus now i s u st))"
  using jt.upd_wf [of st "set_status s now u" "\<lambda>j. j_id j = i \<and> status_expected u j"]
  by (simp add: updateStatus_def case_prod_beta Let_def js_wf_def)

lemma claimNextStmt_wf: "js_wf st \<Longrightarrow> js_wf (fst (claimNextStmt now l st))"
  by (cases "getNextPendingJob now st")
    (auto simp: claim_unfold js_wf_def comp_def if_distrib [of j_id] cong: if_cong)

lemma js_apply_wf: "js_wf st \<Longrightarrow> js_wf (js_apply x st)"
proof (cases x)
  case (OpInsert j)
  then show "js_wf st \<Longrightarrow> js_wf (js_apply x st)"
    by (auto simp: insert_job_def js_wf_def)
qed (simp_all add: job_ops case_prod_beta jt.upd_wf js_delete_view claimNextStmt_wf updateStatus_wf
    purgeDeadLetters_def delete_job_def)

text \<open>
  The status changes the worker and the dead-letter queue make expect a status that is not
  terminal.
\<close>

definition terminal :: "job_status \<Rightarrow> bool" where
  "terminal s \<longleftrightarrow> s = JCompleted \<or> s = JDeadLetter"

fun spares :: "ident \<Rightarrow> js_op \<Rightarrow> bool" where
  "spares i (OpStatus _ k _ u) = (k \<noteq> i \<or> (\<exists>es. su_expectedStatus u = Some es \<and> es \<noteq> []
      \<and> (\<forall>s \<in> set es. \<not> terminal s)))"
| "spares i (OpReplay _ k) = (k \<noteq> i)"
| "spares i (OpPurge _) = False"
| "spares i (OpDelete k) = (k \<noteq> i)"
| "spares i _ = True"

definition same_but_progress :: "job \<Rightarrow> job \<Rightarrow> bool" where
  "same_but_progress j k \<longleftrightarrow> k\<lparr>j_progress := j_progress j, j_updatedAt := j_updatedAt j\<rparr> = j"

lemma not_claimable_terminal: "terminal (j_status j) \<Longrightarrow> \<not> claimable j"
  by (auto simp: terminal_def claimable_def)

lemma same_but_progress_simps: "same_but_progress j k \<Longrightarrow>
  j_status k = j_status j \<and> j_id k = j_id j \<and> j_leaseOwner k = j_leaseOwner j
  \<and> j_attempts k = j_attempts j"
  by (cases j; cases k) (simp add: same_but_progress_def)

lemma js_update_spares:
  assumes "js_wf st" "findById i st = Some k" "\<And>j. j_id (f j) = j_id j" "p k \<Longrightarrow> same_but_progress k (f k)"
  shows "\<exists>k'. findById i (fst (js_update p f st)) = Some k' \<and> same_but_progress k k'"
  using assms by (simp add: findById_update same_but_progress_def)

lemma js_apply_terminal:
  assumes wf: "js_wf st" and k: "findById i st = Some k" "terminal (j_status k)" and s: "spares i x"
  shows "\<exists>k'. findById i (js_apply x st) = Some k' \<and> same_but_progress k k'"
proof (cases x)
  case (OpInsert j)
  with k wf show ?thesis
    by (auto simp: insert_job_def findById_def row_by_def row_by_append [unfolded row_by_def] same_but_progress_def)
next
  case (OpClaim now l)
  show ?thesis
  proof (cases "snd (claimNextStmt now l st)")
    case None
    then have "fst (claimNextStmt now l st) = st"
      by (auto simp: claim_unfold [OF wf] split: option.splits)
    with k OpClaim show ?thesis by (simp add: same_but_progress_def)
  next
    case (Some j)
    then have r: "claimNextStmt now l st = (fst (claimNextStmt now l st), Some j)"
      by (metis prod.collapse)
    obtain c where n: "getNextPendingJob now st = Some c" and c: "findById (j_id j) st = Some c"
      and v: "findById i (fst (claimNextStmt now l st)) = (if i = j_id j then Some j else findById i st)"
      using claim_view [OF wf r] by metis
    have "claimable c" using getNext_Some [OF n] by (simp add: runnable_def)
    with c k not_claimable_terminal have "i \<noteq> j_id j" by auto
    with v k OpClaim show ?thesis by (simp add: same_but_progress_def)
  qed
next
  case (OpStatus now i' st' u)
  with k s wf show ?thesis
    by (auto simp: updateStatus_view status_expected_def same_but_progress_def
        dest: jt.look_key [OF wf])
next
  case (OpDelete i')
  with k s wf show ?thesis
    using js_delete_view [OF wf, of "\<lambda>j. j_id j = i'" i] jt.look_key [OF wf k(1)]
    by (simp add: delete_job_def case_prod_beta same_but_progress_def)
next
  case (OpExtend now i' ow e)
  with k(2) show ?thesis
    by (simp add: job_ops case_prod_beta) (rule js_update_spares [OF wf k(1)], auto simp: owned_by_def terminal_def)
next
  case (OpRelease now i' ow)
  with k(2) show ?thesis
    by (simp add: job_ops case_prod_beta) (rule js_update_spares [OF wf k(1)], auto simp: owned_by_def terminal_def)
next
  case (OpRecover now)
  with k(2) show ?thesis
    by (simp add: job_ops) (rule js_update_spares [OF wf k(1)], auto simp: terminal_def)
next
  case (OpProgress now i' p)
  then show ?thesis
    by (simp add: job_ops) (rule js_update_spares [OF wf k(1)], auto simp: same_but_progress_def)
next
  case (OpReplay now i')
  with s jt.look_key [OF wf k(1)] show ?thesis
    by (simp add: job_ops case_prod_beta) (rule js_update_spares [OF wf k(1)], auto)
next
  case (OpPurge t)
  with s show ?thesis by simp
qed

lemma same_but_progress_trans:
  "same_but_progress a b \<Longrightarrow> same_but_progress b c \<Longrightarrow> same_but_progress a c"
  by (cases a; cases b; cases c) (simp add: same_but_progress_def)

lemma js_run_terminal:
  "js_wf st \<Longrightarrow> findById i st = Some k \<Longrightarrow> terminal (j_status k) \<Longrightarrow> list_all (spares i) xs
   \<Longrightarrow> js_wf (js_run xs st) \<and> (\<exists>k'. findById i (js_run xs st) = Some k' \<and> same_but_progress k k')"
proof (induction xs arbitrary: st k)
  case Nil
  then show ?case by (simp add: same_but_progress_def)
next
  case (Cons x xs)
  then obtain k' where k': "findById i (js_apply x st) = Some k'" "same_but_progress k k'"
    using js_apply_terminal [of st i k x] by auto
  with Cons.prems have "terminal (j_status k')" by (simp add: same_but_progress_simps)
  from Cons.IH [OF js_apply_wf k'(1) this] Cons.prems show ?case
    by (auto intro: same_but_progress_trans [OF k'(2)])
qed



text \<open>
  Recovery returns to the queue exactly the active jobs without a lease or whose lease
  has lapsed, without an owner and due at once; it leaves every other job as it is, a job
  whose lease runs to this very instant included, and repeating it recovers nothing.
\<close>

theorem recovery_reclaims_lapsed_leases:
  assumes "js_wf st"
  shows "findById i (fst (recoverIncompleteJobs now st)) = (case findById i st of None \<Rightarrow> None
      | Some j \<Rightarrow> Some (if j_status j = JActive
            \<and> (j_leaseExpiresAt j = None \<or> (\<exists>e. j_leaseExpiresAt j = Some e \<and> e < now))
          then j\<lparr>j_status := JPending, j_nextRunAt := now, j_updatedAt := now,
                 j_leaseOwner := None, j_leaseExpiresAt := None\<rparr>
          else j))
    \<and> snd (recoverIncompleteJobs now (fst (recoverIncompleteJobs now st))) = 0"
proof -
  have "snd (recoverIncompleteJobs now (fst (recoverIncompleteJobs now st))) = 0"
    unfolding recoverIncompleteJobs_def by (rule jt.upd_once [OF assms]) simp_all
  then show ?thesis
    by (auto simp: job_ops(3) findById_update [OF assms] lease_expired_def split: option.splits)
qed

theorem recovery_reclaims_lapsed_leases_witness:
  "findById ''a'' (fst (recoverIncompleteJobs 100 (demo_jobs\<lparr>js_jobs := [(demo_job ''a'' PHigh 0)\<lparr>
      j_status := JActive, j_leaseOwner := Some ''w'', j_leaseExpiresAt := Some 100\<rparr>]\<rparr>)))
   = Some ((demo_job ''a'' PHigh 0)\<lparr>j_status := JActive, j_leaseOwner := Some ''w'', j_leaseExpiresAt := Some 100\<rparr>)"
  using recovery_reclaims_lapsed_leases [of "demo_jobs\<lparr>js_jobs := [(demo_job ''a'' PHigh 0)\<lparr>
      j_status := JActive, j_leaseOwner := Some ''w'', j_leaseExpiresAt := Some 100\<rparr>]\<rparr>" "''a''" 100]
  by (simp add: js_wf_def findById_def row_by_def demo_job_def)

subsection \<open>Pages\<close>

lemma list_jobs_page:
  assumes "jf_page f = Some (int p)" "1 \<le> p" "jf_pageSize f = Some (int n)" "1 \<le> n" "n \<le> 100"
  shows "list_jobs f st = (take n (drop ((p - 1) * n) (sort_key list_key (filter (filter_matches f) (js_jobs st)))),
    length (filter (filter_matches f) (js_jobs st)))"
proof -
  have "nat ((int p - 1) * int n) = (p - 1) * n"
  proof -
    have "(int p - 1) * int n = int ((p - 1) * n)" using assms(2) by (simp add: of_nat_diff)
    then show ?thesis by (simp only: nat_int)
  qed
  then show ?thesis
    using assms by (simp add: list_jobs_def Let_def page_number_def page_size_def)
qed

text \<open>
  The pages of a listing partition it: whatever the filter, and for every page size
  up to the limit of 100, the first \<open>k\<close> pages put together are the first rows of one
  sorted list, so no row is shown twice or skipped, and enough pages show every matching row
  once, as many as the reported total.
\<close>

theorem list_pages_partition:
  assumes "1 \<le> n" "n \<le> 100"
  shows "concat (map (\<lambda>p. fst (list_jobs (f\<lparr>jf_page := Some (int p), jf_pageSize := Some (int n)\<rparr>) st)) [1..<Suc k])
      = take (k * n) (sort_key list_key (filter (filter_matches f) (js_jobs st)))
    \<and> (snd (list_jobs f st) \<le> k * n \<longrightarrow>
        mset (concat (map (\<lambda>p. fst (list_jobs (f\<lparr>jf_page := Some (int p), jf_pageSize := Some (int n)\<rparr>) st)) [1..<Suc k]))
          = filter_mset (filter_matches f) (mset (js_jobs st)))"
proof -
  let ?rows = "sort_key list_key (filter (filter_matches f) (js_jobs st))"
  have m: "filter_matches (f\<lparr>jf_page := a, jf_pageSize := b\<rparr>) = filter_matches f" for a b
    by (rule ext) (simp add: filter_matches_def)
  have "concat (map (\<lambda>p. fst (list_jobs (f\<lparr>jf_page := Some (int p), jf_pageSize := Some (int n)\<rparr>) st)) [1..<Suc k])
      = take (k * n) ?rows" for k
  proof (induction k)
    case (Suc k)
    have "fst (list_jobs (f\<lparr>jf_page := Some (int (Suc k)), jf_pageSize := Some (int n)\<rparr>) st)
        = take n (drop (k * n) ?rows)"
      using list_jobs_page [of "f\<lparr>jf_page := Some (int (Suc k)), jf_pageSize := Some (int n)\<rparr>" "Suc k" n st] assms
      by (simp add: m)
    with Suc show ?case by (simp add: take_add [of "k * n" n, symmetric] add.commute)
  qed simp
  moreover have "snd (list_jobs f st) = length ?rows" by (simp add: list_jobs_def Let_def)
  ultimately show ?thesis by simp
qed

theorem list_pages_partition_witness:
  "mset (concat (map (\<lambda>p. fst (list_jobs (\<lparr> jf_status = Some JPending, jf_taskId = None,
        jf_page = Some (int p), jf_pageSize = Some (int 2) \<rparr>) demo_jobs)) [1..<Suc 2]))
    = mset (js_jobs demo_jobs)"
  using list_pages_partition [of 2 "\<lparr> jf_status = Some JPending, jf_taskId = None, jf_page = None, jf_pageSize = None \<rparr>" demo_jobs 2]
  by (simp add: list_jobs_def Let_def filter_matches_def demo_jobs_def demo_job_def)

end
