(* ===== verification/JobQueue.thy ===== *)
theory JobQueue
  imports JobStore
begin

text \<open>
  \<open>backend/src/queue/dlq.ts\<close> and \<open>backend/src/queue/index.ts\<close>: the dead-letter queue over
  the job table, and the queue that callers enqueue into. An operation that calls the optional
  worker's \<open>trigger\<close> returns whether it did.
\<close>

subsection \<open>Dead letters\<close>

record dead_letter =
  dl_jobId :: ident
  dl_taskId :: ident
  dl_failureReason :: string
  dl_failedAt :: ms
  dl_retryCount :: int
  dl_originalPayload :: string

definition toDeadLetter :: "job \<Rightarrow> dead_letter" where
  "toDeadLetter j = \<lparr> dl_jobId = j_id j, dl_taskId = j_taskId j,
     dl_failureReason = (case j_lastError j of None \<Rightarrow> '''' | Some e \<Rightarrow> e),
     dl_failedAt = (case j_failedAt j of None \<Rightarrow> j_updatedAt j | Some t \<Rightarrow> t),
     dl_retryCount = j_attempts j, dl_originalPayload = j_payload j \<rparr>"

text \<open>The \<open>job.dead_lettered\<close> event as handed to the event bus.\<close>

record dead_letter_event =
  de_taskId :: ident
  de_timestamp :: ms
  de_jobId :: ident
  de_failureReason :: string
  de_retryCount :: int
  de_failedAt :: ms

definition emitDeadLetterEvent :: "ms \<Rightarrow> dead_letter \<Rightarrow> dead_letter_event" where
  "emitDeadLetterEvent now d = \<lparr> de_taskId = dl_taskId d, de_timestamp = now, de_jobId = dl_jobId d,
     de_failureReason = dl_failureReason d, de_retryCount = dl_retryCount d, de_failedAt = dl_failedAt d \<rparr>"

text \<open>What a handler throws: a string, or an \<open>Error\<close> with its name and message.\<close>

datatype thrown = ThrownString string | ThrownError string string

fun failure_reason :: "thrown \<Rightarrow> string" where
  "failure_reason (ThrownString s) = s"
| "failure_reason (ThrownError name msg) = (if msg = '''' then name else msg)"

definition exceeded_text :: "int \<Rightarrow> int \<Rightarrow> string \<Rightarrow> string" where
  "exceeded_text attempts maxAttempts reason =
     ''max attempts exceeded ('' @ int_text attempts @ ''/'' @ int_text maxAttempts @ ''): '' @ reason"

record push_options =
  po_attempts :: "int option"
  po_maxAttempts :: "int option"

definition dlq_push :: "bool \<Rightarrow> ms \<Rightarrow> job \<Rightarrow> thrown \<Rightarrow> push_options \<Rightarrow> job_store
    \<Rightarrow> job_store \<times> bool \<times> dead_letter_event list" where
  "dlq_push emitEvents now j err opts st =
     (let attempts = (case po_attempts opts of None \<Rightarrow> j_attempts j | Some a \<Rightarrow> a);
          maxAttempts = (case po_maxAttempts opts of None \<Rightarrow> j_maxAttempts j | Some m \<Rightarrow> m);
          (st', moved) = updateStatus now (j_id j) JDeadLetter
            (no_updates\<lparr>su_attempts := Some attempts,
               su_lastError := Some (Some (exceeded_text attempts maxAttempts (failure_reason err))),
               su_failedAt := Some (Some now),
               su_expectedStatus := Some [JActive, JFailed, JPending]\<rparr>) st
      in (st', moved,
          if moved \<and> emitEvents
          then [emitDeadLetterEvent now (toDeadLetter
                  (case findById (j_id j) st' of Some parked \<Rightarrow> parked | None \<Rightarrow> j))]
          else []))"

record dead_letter_page =
  dp_deadLetters :: "dead_letter list"
  dp_total :: nat
  dp_page :: int
  dp_pageSize :: int

definition dlq_list :: "int option \<Rightarrow> int option \<Rightarrow> job_store \<Rightarrow> dead_letter_page" where
  "dlq_list p n st =
     (let page = page_number p; pageSize = page_size n;
          (jobs, total) = getDeadLetterJobs (Some page) (Some pageSize) st
      in \<lparr> dp_deadLetters = map toDeadLetter jobs, dp_total = total, dp_page = page, dp_pageSize = pageSize \<rparr>)"

definition dlq_count :: "job_store \<Rightarrow> nat" where
  "dlq_count st = jt_deadLetter (getStats st)"

definition dlq_replay :: "ms \<Rightarrow> ident \<Rightarrow> job_store \<Rightarrow> job_store \<times> bool" where
  "dlq_replay now i st = retryDeadLetterJob now i st"

text \<open>
  \<open>purge\<close>: a negative or non-finite age counts as zero. \<open>new Date(x)\<close> truncates and,
  beyond 8.64e15 milliseconds, is an invalid date, on which \<open>toISOString\<close> throws.
\<close>

definition js_trunc :: "rat \<Rightarrow> int" where
  "js_trunc x = (if x < 0 then \<lceil>x\<rceil> else \<lfloor>x\<rfloor>)"

fun purge_days :: "js_num \<Rightarrow> rat" where
  "purge_days (Num d) = max 0 d"
| "purge_days _ = 0"

definition purge_cutoff :: "ms \<Rightarrow> js_num \<Rightarrow> ms option" where
  "purge_cutoff now d =
     (let age = fl (fl (fl (fl (purge_days d * 24) * 60) * 60) * 1000);
          moment = fl (of_int now - age)
      in if \<bar>moment\<bar> \<le> 8640000000000000 then Some (js_trunc moment) else None)"

definition dlq_purge :: "ms \<Rightarrow> js_num \<Rightarrow> job_store \<Rightarrow> (unit + job_store \<times> nat)" where
  "dlq_purge now d st = (case purge_cutoff now d of None \<Rightarrow> Inl ()
     | Some cutoff \<Rightarrow> Inr (purgeDeadLetters cutoff st))"

subsection \<open>The queue\<close>

record enqueue_options =
  eo_taskId :: ident
  eo_type :: "string option"
  eo_payload :: "string option"
  eo_priority :: "job_priority option"
  eo_maxAttempts :: "int option"

record job_queue =
  jq_store :: job_store
  jq_hasWorker :: bool
  jq_defaultMaxAttempts :: int

definition new_job_queue :: "job_store \<Rightarrow> bool \<Rightarrow> job_queue" where
  "new_job_queue st w = \<lparr> jq_store = st, jq_hasWorker = w, jq_defaultMaxAttempts = 3 \<rparr>"

text \<open>\<open>fresh\<close> is the identifier \<open>nanoid\<close> drew, with its prefix.\<close>

definition new_job :: "ident \<Rightarrow> ms \<Rightarrow> int \<Rightarrow> enqueue_options \<Rightarrow> job" where
  "new_job fresh now defaultMax eo = \<lparr> j_id = fresh, j_taskId = eo_taskId eo,
     j_type = (case eo_type eo of None \<Rightarrow> ''execute_task'' | Some t \<Rightarrow> t),
     j_payload = (case eo_payload eo of None \<Rightarrow> ''{}'' | Some p \<Rightarrow> p),
     j_status = JPending,
     j_priority = (case eo_priority eo of None \<Rightarrow> PNormal | Some p \<Rightarrow> p),
     j_progress = 0, j_attempts = 0,
     j_maxAttempts = (case eo_maxAttempts eo of None \<Rightarrow> defaultMax | Some m \<Rightarrow> m),
     j_lastError = None, j_nextRunAt = now, j_createdAt = now, j_updatedAt = now,
     j_completedAt = None, j_failedAt = None, j_leaseOwner = None, j_leaseExpiresAt = None \<rparr>"

definition enqueue_job :: "ident \<Rightarrow> ms \<Rightarrow> enqueue_options \<Rightarrow> job_queue
    \<Rightarrow> job_error + job_queue \<times> job \<times> bool" where
  "enqueue_job fresh now eo q =
     (let j = new_job fresh now (jq_defaultMaxAttempts q) eo
      in case insert_job j (jq_store q) of
           Inl e \<Rightarrow> Inl e
         | Inr st \<Rightarrow> Inr (q\<lparr>jq_store := st\<rparr>, j, jq_hasWorker q))"

definition enqueueUnique :: "ident \<Rightarrow> ms \<Rightarrow> enqueue_options \<Rightarrow> job_queue
    \<Rightarrow> job_error + job_queue \<times> job \<times> bool" where
  "enqueueUnique fresh now eo q =
     (if hasPendingJobForTask (eo_taskId eo) (jq_store q) then Inl (DuplicateJobError (eo_taskId eo))
      else enqueue_job fresh now eo q)"

definition jq_getJob :: "ident \<Rightarrow> job_queue \<Rightarrow> job option" where
  "jq_getJob i q = findById i (jq_store q)"

definition jq_getJobByTaskId :: "ident \<Rightarrow> job_queue \<Rightarrow> job option" where
  "jq_getJobByTaskId t q = findByTaskId t (jq_store q)"

definition retryDeadLetter :: "ms \<Rightarrow> ident \<Rightarrow> job_queue \<Rightarrow> job_queue \<times> bool \<times> bool" where
  "retryDeadLetter now i q = (case retryDeadLetterJob now i (jq_store q) of
     (st, success) \<Rightarrow> (q\<lparr>jq_store := st\<rparr>, success, success \<and> jq_hasWorker q))"

definition jq_purgeDeadLetters :: "ms \<Rightarrow> js_num \<Rightarrow> job_queue \<Rightarrow> (unit + job_queue \<times> nat \<times> bool)" where
  "jq_purgeDeadLetters now d q = (case dlq_purge now d (jq_store q) of Inl _ \<Rightarrow> Inl ()
     | Inr (st, n) \<Rightarrow> Inr (q\<lparr>jq_store := st\<rparr>, n, 0 < n \<and> jq_hasWorker q))"

definition setDefaultMaxAttempts :: "int \<Rightarrow> job_queue \<Rightarrow> job_queue" where
  "setDefaultMaxAttempts m q = q\<lparr>jq_defaultMaxAttempts := m\<rparr>"

subsection \<open>Parking and replaying\<close>

definition parkable :: "job_status \<Rightarrow> bool" where
  "parkable s \<longleftrightarrow> \<not> terminal s"

lemma push_updates: "status_expected (no_updates\<lparr>su_attempts := a, su_lastError := e, su_failedAt := f,
    su_expectedStatus := Some [JActive, JFailed, JPending]\<rparr>) j \<longleftrightarrow> parkable (j_status j)"
  by (cases "j_status j") (auto simp: status_expected_def parkable_def terminal_def)

lemma dead_letter_row: "set_status JDeadLetter now (no_updates\<lparr>su_attempts := Some a,
    su_lastError := Some (Some e), su_failedAt := Some (Some now), su_expectedStatus := es\<rparr>) r
  = r\<lparr>j_status := JDeadLetter, j_updatedAt := now, j_attempts := a, j_lastError := Some e,
      j_failedAt := Some now\<rparr>"
  by (simp add: set_status_def no_updates_def)

lemma dlq_push_store: "fst (dlq_push b now j err opts st) = fst (updateStatus now (j_id j) JDeadLetter
    (no_updates\<lparr>su_attempts := Some (case po_attempts opts of None \<Rightarrow> j_attempts j | Some a \<Rightarrow> a),
       su_lastError := Some (Some (exceeded_text (case po_attempts opts of None \<Rightarrow> j_attempts j | Some a \<Rightarrow> a)
          (case po_maxAttempts opts of None \<Rightarrow> j_maxAttempts j | Some m \<Rightarrow> m) (failure_reason err))),
       su_failedAt := Some (Some now), su_expectedStatus := Some [JActive, JFailed, JPending]\<rparr>) st)"
  by (simp add: dlq_push_def Let_def case_prod_beta)

lemma dlq_push_moved: "js_wf st \<Longrightarrow> fst (snd (dlq_push b now j err opts st))
    \<longleftrightarrow> (\<exists>r. findById (j_id j) st = Some r \<and> parkable (j_status r))"
  by (simp add: dlq_push_def Let_def case_prod_beta updateStatus_moved push_updates)

lemma dlq_push_wf: "js_wf st \<Longrightarrow> js_wf (fst (dlq_push b now j err opts st))"
  by (simp add: dlq_push_store updateStatus_wf)

lemma dlq_push_view:
  assumes "js_wf st"
  shows "findById k (fst (dlq_push b now j err opts st)) = map_option (\<lambda>r.
    if j_id r = j_id j \<and> parkable (j_status r)
    then r\<lparr>j_status := JDeadLetter, j_updatedAt := now,
        j_attempts := (case po_attempts opts of None \<Rightarrow> j_attempts j | Some a \<Rightarrow> a),
        j_lastError := Some (exceeded_text (case po_attempts opts of None \<Rightarrow> j_attempts j | Some a \<Rightarrow> a)
          (case po_maxAttempts opts of None \<Rightarrow> j_maxAttempts j | Some m \<Rightarrow> m) (failure_reason err)),
        j_failedAt := Some now\<rparr>
    else r) (findById k st)"
  unfolding dlq_push_store updateStatus_view [OF assms] push_updates
  unfolding dead_letter_row ..

lemma dlq_push_events: "snd (snd (dlq_push b now j err opts st)) =
  (if fst (snd (dlq_push b now j err opts st)) \<and> b
   then [emitDeadLetterEvent now (toDeadLetter (case findById (j_id j) (fst (dlq_push b now j err opts st))
      of Some parked \<Rightarrow> parked | None \<Rightarrow> j))] else [])"
  by (simp add: dlq_push_def Let_def case_prod_beta)

text \<open>
  Parking a job that is pending, active or scheduled for retry makes its row a dead
  letter with the attempts, the error and the instant given, and emits exactly one event,
  which describes that row; parking it again, with whatever error, is refused, emits nothing
  and leaves every row as it is.
\<close>

theorem dead_letter_parked_once:
  assumes "js_wf st" "findById (j_id j) st = Some r" "parkable (j_status r)"
    "dlq_push True now j err opts st = (st', moved, events)"
  shows "\<exists>parked. moved \<and> findById (j_id j) st' = Some parked \<and> j_status parked = JDeadLetter
    \<and> j_failedAt parked = Some now \<and> events = [emitDeadLetterEvent now (toDeadLetter parked)]
    \<and> de_failureReason (hd events) = exceeded_text (case po_attempts opts of None \<Rightarrow> j_attempts j | Some a \<Rightarrow> a)
          (case po_maxAttempts opts of None \<Rightarrow> j_maxAttempts j | Some m \<Rightarrow> m) (failure_reason err)
    \<and> snd (dlq_push True later j err2 opts2 st') = (False, [])
    \<and> findById k (fst (dlq_push True later j err2 opts2 st')) = findById k st'"
proof -
  have id: "j_id r = j_id j" using jt.look_key [OF assms(1,2)] .
  have st': "st' = fst (dlq_push True now j err opts st)"
    and moved: "moved = fst (snd (dlq_push True now j err opts st))"
    and ev: "events = snd (snd (dlq_push True now j err opts st))" using assms(4) by simp_all
  have wf': "js_wf st'" unfolding st' by (rule dlq_push_wf [OF assms(1)])
  obtain parked where parked: "findById (j_id j) st' = Some parked" "j_status parked = JDeadLetter"
    "j_failedAt parked = Some now"
    "j_lastError parked = Some (exceeded_text (case po_attempts opts of None \<Rightarrow> j_attempts j | Some a \<Rightarrow> a)
          (case po_maxAttempts opts of None \<Rightarrow> j_maxAttempts j | Some m \<Rightarrow> m) (failure_reason err))"
    using assms(3) by (simp add: st' dlq_push_view [OF assms(1)] assms(2) id)
  have mv: moved using assms(2,3) by (simp add: moved dlq_push_moved [OF assms(1)])
  with parked have events: "events = [emitDeadLetterEvent now (toDeadLetter parked)]"
    by (simp add: ev dlq_push_events moved [symmetric] st' [symmetric])
  have np: "\<not> parkable (j_status parked)" using parked by (simp add: parkable_def terminal_def)
  then have again: "\<not> fst (snd (dlq_push True later j err2 opts2 st'))"
    using parked by (simp add: dlq_push_moved [OF wf'])
  have same: "findById k (fst (dlq_push True later j err2 opts2 st')) = findById k st'"
  proof (cases "findById k st'")
    case (Some q)
    then have "j_id q = j_id j \<Longrightarrow> q = parked" using jt.look_key [OF wf' Some] parked(1) by auto
    with np Some show ?thesis by (auto simp: dlq_push_view [OF wf'])
  qed (simp add: dlq_push_view [OF wf'])
  from again have "snd (dlq_push True later j err2 opts2 st') = (False, [])"
    by (simp add: prod_eq_iff dlq_push_events)
  with mv parked events same show ?thesis
    by (simp add: emitDeadLetterEvent_def toDeadLetter_def)
qed

definition demo_active :: job_store where
  "demo_active = demo_jobs\<lparr>js_jobs := [(demo_job ''a'' PHigh 0)\<lparr>j_status := JActive, j_attempts := 2\<rparr>]\<rparr>"

lemma demo_active_find: "js_wf demo_active"
  "findById ''a'' demo_active = Some ((demo_job ''a'' PHigh 0)\<lparr>j_status := JActive, j_attempts := 2\<rparr>)"
  by (simp_all add: demo_active_def js_wf_def findById_def row_by_def demo_job_def)

theorem dead_letter_parked_once_witness:
  "\<exists>st'. dlq_push True 9 (demo_job ''a'' PHigh 0) (ThrownString ''boom'')
       \<lparr> po_attempts = Some 3, po_maxAttempts = Some 3 \<rparr> demo_active
     = (st', True, [\<lparr> de_taskId = ''ta'', de_timestamp = 9, de_jobId = ''a'',
         de_failureReason = ''max attempts exceeded (3/3): boom'', de_retryCount = 3, de_failedAt = 9 \<rparr>])
     \<and> fst (snd (dlq_push True 11 (demo_job ''a'' PHigh 0) (ThrownString ''late'')
       \<lparr> po_attempts = None, po_maxAttempts = None \<rparr> st')) = False"
proof -
  obtain st' m ev where r: "dlq_push True 9 (demo_job ''a'' PHigh 0) (ThrownString ''boom'')
       \<lparr> po_attempts = Some 3, po_maxAttempts = Some 3 \<rparr> demo_active = (st', m, ev)" by (metis prod.exhaust)
  have f: "findById (j_id (demo_job ''a'' PHigh 0)) demo_active
      = Some ((demo_job ''a'' PHigh 0)\<lparr>j_status := JActive, j_attempts := 2\<rparr>)"
    "parkable (j_status ((demo_job ''a'' PHigh 0)\<lparr>j_status := JActive, j_attempts := 2\<rparr>))"
    using demo_active_find by (simp_all add: demo_job_def parkable_def terminal_def)
  from dead_letter_parked_once [OF demo_active_find(1) f r, of 11 "ThrownString ''late''"
      "\<lparr> po_attempts = None, po_maxAttempts = None \<rparr>"]
  obtain parked where p: "m" "findById (j_id (demo_job ''a'' PHigh 0)) st' = Some parked"
    "ev = [emitDeadLetterEvent 9 (toDeadLetter parked)]"
    "snd (dlq_push True 11 (demo_job ''a'' PHigh 0) (ThrownString ''late'')
       \<lparr> po_attempts = None, po_maxAttempts = None \<rparr> st') = (False, [])" by auto
  have "st' = fst (dlq_push True 9 (demo_job ''a'' PHigh 0) (ThrownString ''boom'')
       \<lparr> po_attempts = Some 3, po_maxAttempts = Some 3 \<rparr> demo_active)" using r by simp
  with p(2) f have "parked = (demo_job ''a'' PHigh 0)\<lparr>j_status := JDeadLetter, j_updatedAt := 9, j_attempts := 3,
      j_lastError := Some (exceeded_text 3 3 ''boom''), j_failedAt := Some 9\<rparr>"
    by (simp add: dlq_push_view [OF demo_active_find(1)])
  moreover have "char_of (51::nat) = CHR ''3''" by code_simp
  ultimately show ?thesis using p r
    by (simp add: emitDeadLetterEvent_def toDeadLetter_def demo_job_def exceeded_text_def int_text_def
        nat_text.simps)
qed

text \<open>
  Replaying a dead letter happens once: the row is pending again, due at once, with no
  attempts, error, failure time or lease, so the next claim may take it; a second replay, of
  this or any job that is not a dead letter, is refused and changes nothing.
\<close>

theorem replay_once:
  assumes "js_wf st" "findById i st = Some j" "dlq_replay now i st = (st', requeued)"
  shows "requeued = (j_status j = JDeadLetter)
    \<and> findById i st' = Some (if j_status j = JDeadLetter
        then j\<lparr>j_status := JPending, j_attempts := 0, j_lastError := None, j_nextRunAt := now,
             j_failedAt := None, j_leaseOwner := None, j_leaseExpiresAt := None, j_updatedAt := now\<rparr>
        else j)
    \<and> (requeued \<longrightarrow> (\<exists>r. findById i st' = Some r \<and> runnable now r))
    \<and> dlq_replay later i st' = (st', False)"
proof -
  let ?p = "\<lambda>j. j_id j = i \<and> j_status j = JDeadLetter"
  let ?f = "\<lambda>j. j\<lparr>j_status := JPending, j_attempts := 0, j_lastError := None, j_nextRunAt := now,
             j_failedAt := None, j_leaseOwner := None, j_leaseExpiresAt := None, j_updatedAt := now\<rparr>"
  have st': "st' = fst (js_update ?p ?f st)" and r: "requeued = (0 < snd (js_update ?p ?f st))"
    using assms(3) by (simp_all add: dlq_replay_def retryDeadLetterJob_def split: prod.splits)
  have wf': "js_wf st'" unfolding st' by (rule jt.upd_wf [OF assms(1)]) simp
  have id: "j_id j = i" using jt.look_key [OF assms(1,2)] .
  have f: "findById i st' = Some (if j_status j = JDeadLetter then ?f j else j)"
    unfolding st' by (subst findById_update [OF assms(1)]) (simp_all add: assms(2) id)
  have req: "requeued = (j_status j = JDeadLetter)"
    using jt.upd_one [OF assms(1), of i "\<lambda>j. j_status j = JDeadLetter" ?f] assms(2) by (simp add: r)
  have none: "\<forall>k \<in> set (js_jobs st'). \<not> ?p k"
  proof (intro ballI notI)
    fix k assume "k \<in> set (js_jobs st')" "?p k"
    then have "findById i st' = Some k" using findById_iff [OF wf'] by simp
    with f \<open>?p k\<close> show False by (simp split: if_splits)
  qed
  have "map (\<lambda>r. if ?p r then g r else r) (js_jobs st') = js_jobs st'" for g
    using none by (intro map_idI) auto
  with none have "js_update ?p g st' = (st', 0)" for g
    by (simp add: js_update_def sql_update_def filter_empty_conv)
  then have "dlq_replay later i st' = (st', False)"
    by (simp add: dlq_replay_def retryDeadLetterJob_def)
  with f req show ?thesis by (auto simp: runnable_def claimable_def)
qed

theorem replay_once_witness:
  "\<exists>st'. dlq_replay 50 ''a'' (demo_jobs\<lparr>js_jobs := [(demo_job ''a'' PLow 0)\<lparr>j_status := JDeadLetter\<rparr>]\<rparr>)
      = (st', True) \<and> dlq_replay 60 ''a'' st' = (st', False)"
proof -
  let ?s = "demo_jobs\<lparr>js_jobs := [(demo_job ''a'' PLow 0)\<lparr>j_status := JDeadLetter\<rparr>]\<rparr>"
  obtain st' q where r: "dlq_replay 50 ''a'' ?s = (st', q)" by fastforce
  have "js_wf ?s" "findById ''a'' ?s = Some ((demo_job ''a'' PLow 0)\<lparr>j_status := JDeadLetter\<rparr>)"
    by (simp_all add: js_wf_def findById_def row_by_def demo_job_def)
  from replay_once [OF this r, of 60] r show ?thesis by simp
qed

subsection \<open>Purging\<close>

lemma js_trunc_int [simp]: "js_trunc (of_int n) = n"
  by (simp add: js_trunc_def)

lemma purge_cutoff_zero:
  assumes "0 \<le> now" "now \<le> 8640000000000000" "purge_days d = 0"
  shows "purge_cutoff now d = Some now"
  using assms js.whole [of now] by (simp add: purge_cutoff_def Let_def)

text \<open>
  Purging with an age of zero, or a negative or non-finite one, deletes every dead letter
  parked up to this instant and nothing else, and afterwards the dead-letter queue counts
  exactly the ones parked later, of which there are none on a clock that does not go back.
\<close>

theorem purge_now_empties:
  assumes "0 \<le> now" "now \<le> 8640000000000000" "purge_days d = 0"
    "\<forall>j \<in> set (js_jobs st). j_status j = JDeadLetter \<longrightarrow> (\<exists>t. j_failedAt j = Some t \<and> t \<le> now)"
  shows "\<exists>st' n. dlq_purge now d st = Inr (st', n) \<and> n = dlq_count st \<and> dlq_count st' = 0
    \<and> js_jobs st' = filter (\<lambda>j. j_status j \<noteq> JDeadLetter) (js_jobs st)"
proof -
  have eq: "j_status j = JDeadLetter \<and> (case j_failedAt j of Some t \<Rightarrow> t \<le> now | None \<Rightarrow> j_updatedAt j \<le> now)
      \<longleftrightarrow> j_status j = JDeadLetter" if "j \<in> set (js_jobs st)" for j
    using that assms(4) by auto
  show ?thesis
    by (simp add: dlq_purge_def purge_cutoff_zero [OF assms(1-3)] purgeDeadLetters_def js_delete_def
        sql_delete_def dlq_count_def getStats_def count_status_def eq cong: filter_cong)
qed

theorem purge_now_empties_witness:
  "\<exists>st'. dlq_purge 5 NaN (demo_jobs\<lparr>js_jobs := [(demo_job ''a'' PLow 0)\<lparr>j_status := JDeadLetter, j_failedAt := Some 5\<rparr>]\<rparr>)
      = Inr (st', 1) \<and> js_jobs st' = []"
  using purge_now_empties [of 5 NaN "demo_jobs\<lparr>js_jobs := [(demo_job ''a'' PLow 0)\<lparr>j_status := JDeadLetter, j_failedAt := Some 5\<rparr>]\<rparr>"]
  by (auto simp: dlq_count_def getStats_def count_status_def)

subsection \<open>One job in flight per task\<close>

definition inflight :: "job \<Rightarrow> bool" where
  "inflight j \<longleftrightarrow> j_status j \<in> {JPending, JActive, JFailed}"

definition unique_inflight :: "job_store \<Rightarrow> bool" where
  "unique_inflight st \<longleftrightarrow> (\<forall>a \<in> set (js_jobs st). \<forall>b \<in> set (js_jobs st).
     inflight a \<longrightarrow> inflight b \<longrightarrow> j_taskId a = j_taskId b \<longrightarrow> j_id a = j_id b)"

lemma unique_inflight_update:
  assumes "unique_inflight st" "\<And>j. j_id (f j) = j_id j" "\<And>j. j_taskId (f j) = j_taskId j"
    "\<And>j. p j \<Longrightarrow> inflight (f j) \<Longrightarrow> inflight j"
  shows "unique_inflight (fst (js_update p f st))"
proof -
  have 1: "j_id (if p j then f j else j) = j_id j" "j_taskId (if p j then f j else j) = j_taskId j"
    "inflight (if p j then f j else j) \<Longrightarrow> inflight j" for j
    using assms(2-4) by (auto split: if_splits)
  show ?thesis
    unfolding unique_inflight_def js_update_jobs
  proof (intro ballI impI)
    fix a b assume "a \<in> set (map (\<lambda>j. if p j then f j else j) (js_jobs st))"
      "b \<in> set (map (\<lambda>j. if p j then f j else j) (js_jobs st))" "inflight a" "inflight b"
      "j_taskId a = j_taskId b"
    then show "j_id a = j_id b"
      using assms(1) 1 unfolding unique_inflight_def set_map image_iff by metis
  qed
qed

text \<open>
  Steps of the system after which the guarantee still holds: every status change expects a
  status in flight, and rows are added only by \<open>enqueueUnique\<close>.
\<close>

datatype queue_op = QEnqueueUnique ident ms enqueue_options | QStore js_op

fun keeps_inflight :: "js_op \<Rightarrow> bool" where
  "keeps_inflight (OpInsert _) = False"
| "keeps_inflight (OpReplay _ _) = False"
| "keeps_inflight (OpStatus _ _ s u) = (\<exists>es. su_expectedStatus u = Some es \<and> es \<noteq> []
     \<and> (\<forall>s \<in> set es. \<not> terminal s))"
| "keeps_inflight _ = True"

fun queue_apply :: "queue_op \<Rightarrow> job_queue \<Rightarrow> job_queue" where
  "queue_apply (QEnqueueUnique i now eo) q =
     (case enqueueUnique i now eo q of Inl _ \<Rightarrow> q | Inr (q', _, _) \<Rightarrow> q')"
| "queue_apply (QStore x) q = q\<lparr>jq_store := js_apply x (jq_store q)\<rparr>"

fun queue_op_ok :: "queue_op \<Rightarrow> bool" where
  "queue_op_ok (QEnqueueUnique _ _ _) = True"
| "queue_op_ok (QStore x) = keeps_inflight x"

definition queue_run :: "queue_op list \<Rightarrow> job_queue \<Rightarrow> job_queue" where
  "queue_run xs q = foldl (\<lambda>q x. queue_apply x q) q xs"

lemma inflight_iff: "inflight j \<longleftrightarrow> \<not> terminal (j_status j)"
  by (cases "j_status j") (auto simp: inflight_def terminal_def)

lemma unique_inflight_history: "unique_inflight (st\<lparr>js_history := h\<rparr>) = unique_inflight st"
  unfolding unique_inflight_def by simp

lemma unique_inflight_delete: "unique_inflight st \<Longrightarrow> unique_inflight (fst (js_delete p st))"
  by (auto simp: unique_inflight_def js_delete_def sql_delete_def)

lemma claim_unique_inflight:
  assumes "js_wf st" "unique_inflight st"
  shows "unique_inflight (fst (claimNextStmt now l st))"
proof (cases "getNextPendingJob now st")
  case (Some c)
  with getNext_Some have c: "c \<in> set (js_jobs st)" "inflight c"
    by (auto simp: runnable_def claimable_def inflight_def)
  have same: "a = c" if "a \<in> set (js_jobs st)" "j_id a = j_id c" for a
    using distinct_key_eq [of j_id] assms(1) that c by (auto simp: js_wf_def)
  have "fst (claimNextStmt now l st) = fst (js_update (\<lambda>j. j_id j = j_id c \<and> inflight j) (mark_claimed now l) st)"
  proof -
    have "map (\<lambda>j. if j_id j = j_id c then mark_claimed now l j else j) (js_jobs st)
        = map (\<lambda>j. if j_id j = j_id c \<and> inflight j then mark_claimed now l j else j) (js_jobs st)"
      using same c(2) by (intro map_cong refl) auto
    then show ?thesis by (simp add: claim_unfold [OF assms(1)] Some js_update_def sql_update_def)
  qed
  then show ?thesis
    by (simp only:) (rule unique_inflight_update [OF assms(2)], auto)
qed (simp add: claim_unfold [OF assms(1)] assms)

lemma js_apply_unique_inflight:
  assumes "js_wf st" "unique_inflight st" "keeps_inflight x"
  shows "unique_inflight (js_apply x st)"
proof (cases x)
  case (OpStatus now i s u)
  have "unique_inflight (fst (js_update (\<lambda>j. j_id j = i \<and> status_expected u j) (set_status s now u) st))"
    using assms(3) OpStatus
    by (intro unique_inflight_update [OF assms(2)]) (auto simp: status_expected_def inflight_iff)
  then show ?thesis
    by (simp add: OpStatus updateStatus_def case_prod_beta Let_def unique_inflight_history)
next
  case (OpClaim now l)
  with assms show ?thesis by (simp add: claim_unique_inflight)
next
  case (OpExtend now i ow e)
  then show ?thesis
    by (simp add: job_ops(1) case_prod_beta) (rule unique_inflight_update [OF assms(2)], auto simp: inflight_def)
next
  case (OpRelease now i ow)
  then show ?thesis
    by (simp add: job_ops(2) case_prod_beta) (rule unique_inflight_update [OF assms(2)], auto simp: inflight_def)
next
  case (OpRecover now)
  then show ?thesis
    by (simp add: job_ops(3)) (rule unique_inflight_update [OF assms(2)], auto simp: inflight_def)
next
  case (OpProgress now i p)
  then show ?thesis
    by (simp add: job_ops(4)) (rule unique_inflight_update [OF assms(2)], auto simp: inflight_def)
qed (use assms in \<open>simp_all add: purgeDeadLetters_def delete_job_def case_prod_beta unique_inflight_delete\<close>)

lemma enqueueUnique_unique_inflight:
  assumes "unique_inflight (jq_store q)" "enqueueUnique i now eo q = Inr (q', j, t)"
  shows "unique_inflight (jq_store q')"
proof -
  from assms(2) have new: "\<not> hasPendingJobForTask (eo_taskId eo) (jq_store q)"
    "js_jobs (jq_store q') = js_jobs (jq_store q) @ [j]" "j_taskId j = eo_taskId eo"
    by (auto simp: enqueueUnique_def enqueue_job_def insert_job_def Let_def new_job_def
        split: if_splits)
  then have none: "\<forall>a \<in> set (js_jobs (jq_store q)). inflight a \<longrightarrow> j_taskId a \<noteq> j_taskId j"
    unfolding hasPendingJobForTask_def inflight_def by auto
  show ?thesis
    unfolding unique_inflight_def new(2)
  proof (intro ballI impI)
    fix a b assume ab: "a \<in> set (js_jobs (jq_store q) @ [j])" "b \<in> set (js_jobs (jq_store q) @ [j])"
      "inflight a" "inflight b" "j_taskId a = j_taskId b"
    have old: "c \<in> set (js_jobs (jq_store q))" if "c \<in> set (js_jobs (jq_store q) @ [j])" "c \<noteq> j" for c
      using that by simp
    consider "a = j" "b = j" | "a = j" "b \<noteq> j" | "a \<noteq> j" "b = j" | "a \<noteq> j" "b \<noteq> j" by blast
    then show "j_id a = j_id b"
    proof cases
      case 2
      with old [OF ab(2)] none ab(4,5) show ?thesis by force
    next
      case 3
      with old [OF ab(1)] none ab(3,5) show ?thesis by force
    next
      case 4
      with old [OF ab(1)] old [OF ab(2)] ab(3-5) assms(1) show ?thesis
        unfolding unique_inflight_def by blast
    qed simp
  qed
qed

lemma enqueueUnique_wf:
  assumes "js_wf (jq_store q)" "enqueueUnique i now eo q = Inr (q', j, t)"
  shows "js_wf (jq_store q')"
  using assms by (auto simp: enqueueUnique_def enqueue_job_def insert_job_def Let_def js_wf_def
      split: if_splits)

lemma queue_apply_inv:
  assumes "js_wf (jq_store q)" "unique_inflight (jq_store q)" "queue_op_ok x"
  shows "js_wf (jq_store (queue_apply x q)) \<and> unique_inflight (jq_store (queue_apply x q))"
proof (cases x)
  case (QEnqueueUnique i now eo)
  show ?thesis
  proof (cases "enqueueUnique i now eo q")
    case (Inr r)
    obtain q' j t where "r = (q', j, t)" by (cases r)
    with Inr enqueueUnique_wf [OF assms(1)] enqueueUnique_unique_inflight [OF assms(2)]
    show ?thesis by (simp add: QEnqueueUnique)
  qed (use assms in \<open>simp add: QEnqueueUnique\<close>)
qed (use assms in \<open>simp add: js_apply_wf js_apply_unique_inflight\<close>)

lemma queue_run_inv:
  "js_wf (jq_store q) \<Longrightarrow> unique_inflight (jq_store q) \<Longrightarrow> list_all queue_op_ok xs
   \<Longrightarrow> js_wf (jq_store (queue_run xs q)) \<and> unique_inflight (jq_store (queue_run xs q))"
proof (induction xs arbitrary: q)
  case (Cons x xs)
  with queue_apply_inv [of q x] show ?case by (simp add: queue_run_def)
qed (simp add: queue_run_def)

text \<open>
  While rows are added only by \<open>enqueueUnique\<close>, run as one step, and no dead letter is
  replayed, a task never has two jobs in flight, whatever claims, heartbeats, recoveries,
  guarded status changes, purges and deletions come between.
\<close>

theorem enqueue_unique_one_inflight:
  assumes "js_wf (jq_store q)" "unique_inflight (jq_store q)" "list_all queue_op_ok xs"
    "a \<in> set (js_jobs (jq_store (queue_run xs q)))" "b \<in> set (js_jobs (jq_store (queue_run xs q)))"
    "inflight a" "inflight b" "j_taskId a = j_taskId b"
  shows "a = b"
proof -
  from queue_run_inv [OF assms(1-3)] assms(4-) have "j_id a = j_id b" "js_wf (jq_store (queue_run xs q))"
    unfolding unique_inflight_def by blast+
  with assms(4,5) show ?thesis by (simp add: js_wf_def distinct_key_eq)
qed

definition demo_eo :: enqueue_options where
  "demo_eo = \<lparr> eo_taskId = ''T'', eo_type = None, eo_payload = None, eo_priority = None, eo_maxAttempts = None \<rparr>"

theorem enqueue_unique_one_inflight_witness:
  "\<exists>j. js_jobs (jq_store (queue_run [QEnqueueUnique ''x'' 1 demo_eo, QEnqueueUnique ''y'' 2 demo_eo]
      (new_job_queue initJobSchema False))) = [j] \<and> j_id j = ''x'' \<and> inflight j"
proof -
  let ?q = "new_job_queue initJobSchema False"
  let ?r = "queue_run [QEnqueueUnique ''x'' 1 demo_eo, QEnqueueUnique ''y'' 2 demo_eo] ?q"
  have r: "js_jobs (jq_store ?r) = [new_job ''x'' 1 3 demo_eo]"
    by (simp add: queue_run_def enqueueUnique_def enqueue_job_def insert_job_def hasPendingJobForTask_def
        initJobSchema_def new_job_queue_def new_job_def demo_eo_def Let_def)
  have "new_job ''x'' 1 3 demo_eo = new_job ''x'' 1 3 demo_eo"
    by (rule enqueue_unique_one_inflight [of ?q "[QEnqueueUnique ''x'' 1 demo_eo, QEnqueueUnique ''y'' 2 demo_eo]"])
      (simp_all only: r, simp_all add: js_wf_def unique_inflight_def initJobSchema_def new_job_queue_def
        inflight_def new_job_def)
  with r show ?thesis by (auto simp: new_job_def inflight_def)
qed

text \<open>
  The check and the insertion of \<open>enqueueUnique\<close> are two statements: when two
  instances both check before either inserts, both succeed, and the task has two jobs in
  flight.
\<close>

theorem enqueue_unique_race:
  assumes "i \<noteq> k" "findById i (jq_store q) = None" "findById k (jq_store q) = None"
    "\<not> hasPendingJobForTask (eo_taskId eo) (jq_store q)"
  shows "\<exists>q1 j1 t1 q2 j2 t2. enqueueUnique i now eo q = Inr (q1, j1, t1)
    \<and> enqueue_job k later eo q1 = Inr (q2, j2, t2)
    \<and> {j1, j2} \<subseteq> set (js_jobs (jq_store q2)) \<and> j1 \<noteq> j2
    \<and> inflight j1 \<and> inflight j2 \<and> j_taskId j1 = j_taskId j2
    \<and> enqueueUnique k later eo q1 = Inl (DuplicateJobError (eo_taskId eo))"
proof -
  have ids: "i \<notin> j_id ` set (js_jobs (jq_store q))" "k \<notin> j_id ` set (js_jobs (jq_store q))"
    using assms(2,3) by (simp_all add: findById_def row_by_None)
  have 1: "enqueueUnique i now eo q = Inr (q\<lparr>jq_store := (jq_store q)\<lparr>js_jobs :=
        js_jobs (jq_store q) @ [new_job i now (jq_defaultMaxAttempts q) eo]\<rparr>\<rparr>,
      new_job i now (jq_defaultMaxAttempts q) eo, jq_hasWorker q)" (is "_ = Inr (?q1, _, _)")
    using assms(4) ids by (simp add: enqueueUnique_def enqueue_job_def insert_job_def Let_def new_job_def)
  have 2: "enqueue_job k later eo ?q1 = Inr (?q1\<lparr>jq_store := (jq_store ?q1)\<lparr>js_jobs :=
        js_jobs (jq_store ?q1) @ [new_job k later (jq_defaultMaxAttempts q) eo]\<rparr>\<rparr>,
      new_job k later (jq_defaultMaxAttempts q) eo, jq_hasWorker q)"
    using assms(1) ids by (simp add: enqueue_job_def insert_job_def Let_def new_job_def)
  have "enqueueUnique k later eo ?q1 = Inl (DuplicateJobError (eo_taskId eo))"
    by (simp add: enqueueUnique_def hasPendingJobForTask_def new_job_def)
  show ?thesis
    by (intro exI conjI, rule 1, rule 2)
      (use assms(1) \<open>enqueueUnique k later eo ?q1 = _\<close> in \<open>simp_all add: new_job_def inflight_def\<close>)
qed

theorem enqueue_unique_race_witness:
  "\<exists>q1 j1 t1 q2 j2 t2. enqueueUnique ''x'' 1 demo_eo (new_job_queue initJobSchema True) = Inr (q1, j1, t1)
    \<and> enqueue_job ''y'' 1 demo_eo q1 = Inr (q2, j2, t2) \<and> j1 \<noteq> j2 \<and> j_taskId j1 = j_taskId j2"
proof -
  have "(''x''::ident) \<noteq> ''y''"
    "findById ''x'' (jq_store (new_job_queue initJobSchema True)) = None"
    "findById ''y'' (jq_store (new_job_queue initJobSchema True)) = None"
    "\<not> hasPendingJobForTask (eo_taskId demo_eo) (jq_store (new_job_queue initJobSchema True))"
    by (simp_all add: initJobSchema_def new_job_queue_def findById_def row_by_def
        hasPendingJobForTask_def)
  from enqueue_unique_race [OF this, of 1 1] show ?thesis
    by (elim exE conjE) (intro exI conjI; assumption)
qed

end
