(* ===== verification/JobWorker.thy ===== *)
theory JobWorker
  imports Backoff JobQueue
begin

text \<open>
  \<open>backend/src/queue/worker.ts\<close>: the worker that claims jobs, runs the handler, renews its
  leases and settles each run. A handler call is asynchronous: between the claim and the
  settlement anything else may happen, so a run is split into the steps that JavaScript
  executes without interruption: \<open>w_processJobs\<close> claims and starts, \<open>w_heartbeat\<close> is one
  tick of a lease timer, \<open>w_settle\<close> is what follows the handler's promise. Every worker is a
  process of its own over the shared table; the retry counters are per process.
\<close>

definition DEFAULT_JOB_LEASE_TTL_MS :: ms where
  "DEFAULT_JOB_LEASE_TTL_MS = 30000"

record worker_options =
  wo_concurrency :: "nat option"
  wo_pollIntervalMs :: "ms option"
  wo_baseBackoffMs :: "ms option"
  wo_maxBackoffMs :: "ms option"
  wo_maxAttempts :: "int option"
  wo_workerId :: ident
  wo_leaseTtlMs :: "ms option"
  wo_leaseHeartbeatMs :: "ms option"

text \<open>
  \<open>w_running\<close> holds the snapshots of the jobs whose handler has not settled; its length is
  \<open>activeJobsCount\<close>. \<open>w_heartbeats\<close> holds the keys of \<open>leaseHeartbeatTimers\<close>.
\<close>

record worker =
  w_id :: ident
  w_concurrency :: nat
  w_pollIntervalMs :: ms
  w_baseBackoffMs :: ms
  w_maxBackoffMs :: ms
  w_maxAttempts :: int
  w_leaseTtlMs :: ms
  w_leaseHeartbeatMs :: ms
  w_isRunning :: bool
  w_running :: "job list"
  w_heartbeats :: "ident list"
  w_retry :: retry_metrics

definition new_worker :: "worker_options \<Rightarrow> worker" where
  "new_worker o1 = (let ttl = or_else DEFAULT_JOB_LEASE_TTL_MS (wo_leaseTtlMs o1)
     in \<lparr> w_id = wo_workerId o1, w_concurrency = or_else 3 (wo_concurrency o1),
          w_pollIntervalMs = or_else 100 (wo_pollIntervalMs o1),
          w_baseBackoffMs = or_else 1000 (wo_baseBackoffMs o1),
          w_maxBackoffMs = or_else DEFAULT_JOB_BACKOFF_MAX_MS (wo_maxBackoffMs o1),
          w_maxAttempts = or_else 3 (wo_maxAttempts o1), w_leaseTtlMs = ttl,
          w_leaseHeartbeatMs = or_else (max 1 (ttl div 3)) (wo_leaseHeartbeatMs o1),
          w_isRunning = False, w_running = [], w_heartbeats = [], w_retry = no_retry_metrics \<rparr>)"

datatype worker_event =
    JobStarted job
  | JobProgress job int
  | JobCompleted job
  | JobFailed job thrown bool "ms option"
  | JobDeadLetter job thrown
  | DeadLettered dead_letter_event

definition newLease :: "ms \<Rightarrow> worker \<Rightarrow> job_lease" where
  "newLease now w = \<lparr> le_owner = w_id w, le_expiresAt = now + w_leaseTtlMs w \<rparr>"

definition clearLeaseHeartbeat :: "ident \<Rightarrow> worker \<Rightarrow> worker" where
  "clearLeaseHeartbeat i w = w\<lparr>w_heartbeats := removeAll i (w_heartbeats w)\<rparr>"

definition startLeaseHeartbeat :: "ident \<Rightarrow> worker \<Rightarrow> worker" where
  "startLeaseHeartbeat i w = (let w' = clearLeaseHeartbeat i w
     in w'\<lparr>w_heartbeats := w_heartbeats w' @ [i]\<rparr>)"

definition w_start :: "ms \<Rightarrow> worker \<Rightarrow> job_store \<Rightarrow> worker \<times> job_store" where
  "w_start now w st = (if w_isRunning w then (w, st)
     else (w\<lparr>w_isRunning := True\<rparr>, fst (recoverIncompleteJobs now st)))"

text \<open>One tick of the lease timer of job \<open>i\<close>; a timer that was cleared does not tick.\<close>

definition w_heartbeat :: "ms \<Rightarrow> ident \<Rightarrow> worker \<Rightarrow> job_store \<Rightarrow> worker \<times> job_store" where
  "w_heartbeat now i w st =
     (if i \<in> set (w_heartbeats w)
      then (case extendLease now i (w_id w) (le_expiresAt (newLease now w)) st of
              (st', renewed) \<Rightarrow> (if renewed then w else clearLeaseHeartbeat i w, st'))
      else (w, st))"

text \<open>The synchronous start of \<open>executeJob\<close>, up to the handler call.\<close>

definition w_begin :: "ms \<Rightarrow> job \<Rightarrow> worker \<Rightarrow> worker" where
  "w_begin now j w =
     (let w1 = w\<lparr>w_running := w_running w @ [j]\<rparr>;
          w2 = (if 0 < j_attempts j
                then w1\<lparr>w_retry := recordRetryLag (now - j_nextRunAt j) (w_retry w1)\<rparr> else w1)
      in startLeaseHeartbeat (j_id j) w2)"

text \<open>
  The claim loop of \<open>processJobs\<close>, for the free slots: \<open>env\<close> says how the database answers
  the attempts of each claim. A failed claim ends the loop, as an empty queue does.
\<close>

fun claim_loop :: "nat \<Rightarrow> db_outcome list list \<Rightarrow> ms \<Rightarrow> worker \<Rightarrow> job_store
    \<Rightarrow> worker \<times> job_store \<times> worker_event list" where
  "claim_loop 0 env now w st = (w, st, [])"
| "claim_loop (Suc n) env now w st =
     (case claimNextPendingJob (case env of [] \<Rightarrow> [] | e # _ \<Rightarrow> e) now (Some (newLease now w)) st of
        Inl _ \<Rightarrow> (w, st, [])
      | Inr (st', None) \<Rightarrow> (w, st', [])
      | Inr (st', Some j) \<Rightarrow>
          (case claim_loop n (tl env) now (w_begin now j w) st' of
             (w', st'', es) \<Rightarrow> (w', st'', JobStarted j # es)))"

definition w_processJobs :: "db_outcome list list \<Rightarrow> ms \<Rightarrow> worker \<Rightarrow> job_store
    \<Rightarrow> worker \<times> job_store \<times> worker_event list" where
  "w_processJobs env now w st =
     (if w_isRunning w then claim_loop (w_concurrency w - length (w_running w)) env now w st
      else (w, st, []))"

definition w_progress :: "ms \<Rightarrow> job \<Rightarrow> rat \<Rightarrow> job_store \<Rightarrow> job_store \<times> worker_event list" where
  "w_progress now j p st = (let clamped = clamp_progress p
     in (updateProgress now (j_id j) (of_int clamped) st, [JobProgress j clamped]))"

fun error_message :: "thrown \<Rightarrow> string" where
  "error_message (ThrownString s) = s"
| "error_message (ThrownError name msg) = msg"

text \<open>What follows the handler: \<open>None\<close> when it returned, \<open>Some e\<close> when it threw \<open>e\<close>.\<close>

definition w_complete :: "ms \<Rightarrow> job \<Rightarrow> job_store \<Rightarrow> job_store" where
  "w_complete now j st = fst (updateStatus now (j_id j) JCompleted
     (no_updates\<lparr>su_progress := Some 100, su_completedAt := Some (Some now),
        su_expectedStatus := Some [JActive]\<rparr>) st)"

definition max_allowed :: "worker \<Rightarrow> job \<Rightarrow> int" where
  "max_allowed w j = (if j_maxAttempts j \<noteq> 0 then j_maxAttempts j else w_maxAttempts w)"

definition w_fail :: "ms \<Rightarrow> rat \<Rightarrow> job \<Rightarrow> thrown \<Rightarrow> worker \<Rightarrow> job_store
    \<Rightarrow> worker \<times> job_store \<times> worker_event list" where
  "w_fail now rnd j err w st =
     (let attempts = j_attempts j + 1; maxAllowed = max_allowed w j
      in if attempts < maxAllowed
         then (let nextRunAt = now + computeBackoffDelayMs attempts (w_baseBackoffMs w) (w_maxBackoffMs w) rnd;
                   st' = fst (updateStatus now (j_id j) JFailed
                     (no_updates\<lparr>su_attempts := Some attempts, su_lastError := Some (Some (error_message err)),
                        su_nextRunAt := Some nextRunAt, su_expectedStatus := Some [JActive]\<rparr>) st)
               in (w\<lparr>w_retry := recordJobRetry (w_retry w)\<rparr>, st', [JobFailed j err True (Some nextRunAt)]))
         else (case dlq_push True now j err \<lparr> po_attempts = Some attempts, po_maxAttempts = Some maxAllowed \<rparr> st of
                 (st', _, evs) \<Rightarrow>
                   (w\<lparr>w_retry := recordJobDeadLetter (w_retry w)\<rparr>, st',
                    map DeadLettered evs @ [JobFailed j err False None, JobDeadLetter j err])))"

definition w_settle :: "ms \<Rightarrow> rat \<Rightarrow> job \<Rightarrow> thrown option \<Rightarrow> worker \<Rightarrow> job_store
    \<Rightarrow> worker \<times> job_store \<times> worker_event list" where
  "w_settle now rnd j outcome w st =
     (let (w1, st1, es) = (case outcome of
            None \<Rightarrow> (w, w_complete now j st, [JobCompleted j])
          | Some err \<Rightarrow> w_fail now rnd j err w st);
          w2 = clearLeaseHeartbeat (j_id j) w1
      in (w2\<lparr>w_running := remove1 j (w_running w2)\<rparr>, st1, es))"

text \<open>
  \<open>stop\<close> first stops claiming; when the running handlers have settled, or the drain timed
  out, the leases still held are released.
\<close>

definition w_stop :: "worker \<Rightarrow> worker" where
  "w_stop w = w\<lparr>w_isRunning := False\<rparr>"

definition w_releaseLeases :: "ms \<Rightarrow> worker \<Rightarrow> job_store \<Rightarrow> worker \<times> job_store" where
  "w_releaseLeases now w st =
     (w\<lparr>w_heartbeats := []\<rparr>, foldl (\<lambda>st i. fst (releaseLease now i (w_id w) st)) st (w_heartbeats w))"

record worker_status =
  ws_running :: bool
  ws_activeWorkers :: nat
  ws_concurrency :: nat
  ws_pollIntervalMs :: ms
  ws_activeLeases :: nat

definition w_getStatus :: "worker \<Rightarrow> worker_status" where
  "w_getStatus w = \<lparr> ws_running = w_isRunning w, ws_activeWorkers = length (w_running w),
     ws_concurrency = w_concurrency w, ws_pollIntervalMs = w_pollIntervalMs w,
     ws_activeLeases = length (w_heartbeats w) \<rparr>"

subsection \<open>A cluster of workers over one table\<close>

record cluster =
  c_workers :: "nat \<Rightarrow> worker"
  c_store :: job_store

datatype cluster_event =
    EvStart nat ms
  | EvPoll nat ms "db_outcome list list"
  | EvBeat nat ms ident
  | EvProgress nat ms job rat
  | EvSettle nat ms rat job "thrown option"
  | EvStop nat
  | EvRelease nat ms
  | EvStore js_op

definition put_worker :: "nat \<Rightarrow> worker \<Rightarrow> job_store \<Rightarrow> cluster \<Rightarrow> cluster" where
  "put_worker n w st s = s\<lparr>c_workers := (c_workers s)(n := w), c_store := st\<rparr>"

fun cluster_apply :: "cluster_event \<Rightarrow> cluster \<Rightarrow> cluster" where
  "cluster_apply (EvStart n now) s =
     (case w_start now (c_workers s n) (c_store s) of (w, st) \<Rightarrow> put_worker n w st s)"
| "cluster_apply (EvPoll n now env) s =
     (case w_processJobs env now (c_workers s n) (c_store s) of (w, st, _) \<Rightarrow> put_worker n w st s)"
| "cluster_apply (EvBeat n now i) s =
     (case w_heartbeat now i (c_workers s n) (c_store s) of (w, st) \<Rightarrow> put_worker n w st s)"
| "cluster_apply (EvProgress n now j p) s = s\<lparr>c_store := fst (w_progress now j p (c_store s))\<rparr>"
| "cluster_apply (EvSettle n now rnd j out) s =
     (case w_settle now rnd j out (c_workers s n) (c_store s) of (w, st, _) \<Rightarrow> put_worker n w st s)"
| "cluster_apply (EvStop n) s = put_worker n (w_stop (c_workers s n)) (c_store s) s"
| "cluster_apply (EvRelease n now) s =
     (case w_releaseLeases now (c_workers s n) (c_store s) of (w, st) \<Rightarrow> put_worker n w st s)"
| "cluster_apply (EvStore x) s = s\<lparr>c_store := js_apply x (c_store s)\<rparr>"

subsection \<open>Runs in which leases are renewed in time\<close>

text \<open>
  \<open>leases_live t s\<close>: at time \<open>t\<close> no lease on a running job has lapsed. This is what the
  heartbeats are for, and what recovery at \<open>t\<close> relies on.
\<close>

definition leases_live :: "ms \<Rightarrow> cluster \<Rightarrow> bool" where
  "leases_live t s \<longleftrightarrow> (\<forall>n. \<forall>j \<in> set (w_running (c_workers s n)).
     \<forall>r. findById (j_id j) (c_store s) = Some r \<longrightarrow> \<not> lease_expired t r)"

fun timely :: "cluster_event \<Rightarrow> cluster \<Rightarrow> bool" where
  "timely (EvStart n now) s = (w_isRunning (c_workers s n) \<or> leases_live now s)"
| "timely (EvProgress n now j p) s = (j \<in> set (w_running (c_workers s n)))"
| "timely (EvSettle n now rnd j out) s = (j \<in> set (w_running (c_workers s n)))"
| "timely (EvRelease n now) s = (w_running (c_workers s n) = [])"
| "timely (EvStore (OpInsert j)) s = (j_status j = JPending)"
| "timely (EvStore (OpReplay now i)) s = True"
| "timely (EvStore (OpPurge t)) s = True"
| "timely (EvStore x) s = False"
| "timely _ s = True"

inductive timely_run :: "cluster \<Rightarrow> cluster \<Rightarrow> bool" for s0 where
  run_init: "timely_run s0 s0"
| run_step: "timely_run s0 s \<Longrightarrow> timely ev s \<Longrightarrow> timely_run s0 (cluster_apply ev s)"

inductive_cases timely_runE: "timely_run s0 s"

definition held :: "ident \<Rightarrow> ident \<Rightarrow> job_store \<Rightarrow> bool" where
  "held i owner st \<longleftrightarrow> (\<exists>r. findById i st = Some r \<and> j_status r = JActive \<and> j_leaseOwner r = Some owner)"

definition cluster_inv :: "cluster \<Rightarrow> bool" where
  "cluster_inv s \<longleftrightarrow> js_wf (c_store s) \<and> inj (\<lambda>n. w_id (c_workers s n))
     \<and> (\<forall>n. distinct (map j_id (w_running (c_workers s n))))
     \<and> (\<forall>n. \<forall>j \<in> set (w_running (c_workers s n)). held (j_id j) (w_id (c_workers s n)) (c_store s))"

lemma held_update:
  assumes "js_wf st" "held i ow st" "\<And>r. j_id (f r) = j_id r"
    "\<And>r. j_id r = i \<Longrightarrow> j_status r = JActive \<Longrightarrow> j_leaseOwner r = Some ow \<Longrightarrow> p r
       \<Longrightarrow> j_status (f r) = JActive \<and> j_leaseOwner (f r) = Some ow"
  shows "held i ow (fst (js_update p f st))"
proof -
  from assms(2) obtain r where r: "findById i st = Some r" "j_status r = JActive" "j_leaseOwner r = Some ow"
    unfolding held_def by blast
  with assms(4) [OF jt.look_key [OF assms(1) r(1)]] show ?thesis
    by (auto simp: held_def findById_update [OF assms(1,3)])
qed

lemma held_status: "js_wf st \<Longrightarrow> held k ow st \<Longrightarrow> k \<noteq> i \<Longrightarrow> held k ow (fst (updateStatus now i s u st))"
  using jt.look_key [of st k] by (auto simp: held_def updateStatus_view)

lemma claim_busy_view:
  assumes "js_wf st" "claimNextPendingJob e now (Some l) st = Inr (st', Some j)"
  shows "js_wf st' \<and> j_status j = JActive \<and> j_leaseOwner j = Some (le_owner l)
    \<and> findById (j_id j) st' = Some j \<and> (\<forall>i. i \<noteq> j_id j \<longrightarrow> findById i st' = findById i st)
    \<and> \<not> held (j_id j) ow st"
proof -
  have c: "claimNextStmt now (Some l) st = (st', Some j)"
    using claim_attempts_cases [of 3 e now "Some l" st] assms(2)
    by (auto simp: claimNextPendingJob_def CLAIM_BUSY_ATTEMPTS_def)
  obtain c where c: "getNextPendingJob now st = Some c" "j = mark_claimed now (Some l) c"
    "findById (j_id j) st = Some c" "\<And>i. findById i st' = (if i = j_id j then Some j else findById i st)" "js_wf st'"
    using claim_view [OF assms(1) c] by metis
  from getNext_Some [OF c(1)] have "claimable c" by (simp add: runnable_def)
  with c show ?thesis by (auto simp: held_def claimable_def)
qed

lemma claim_none:
  assumes "js_wf st" "claimNextPendingJob e now l st = Inr (st', None)"
  shows "st' = st"
  using claim_attempts_cases [of 3 e now l st] assms
  by (auto simp: claimNextPendingJob_def CLAIM_BUSY_ATTEMPTS_def claim_unfold split: option.splits)

lemma w_begin_simps [simp]:
  "w_running (w_begin now j w) = w_running w @ [j]" "w_id (w_begin now j w) = w_id w"
  by (simp_all add: w_begin_def startLeaseHeartbeat_def clearLeaseHeartbeat_def Let_def)

lemma claim_loop_inv:
  "js_wf st \<Longrightarrow> distinct (map j_id (w_running w)) \<Longrightarrow> \<forall>j \<in> set (w_running w). held (j_id j) (w_id w) st
   \<Longrightarrow> claim_loop n env now w st = (w', st', es)
   \<Longrightarrow> js_wf st' \<and> w_id w' = w_id w \<and> distinct (map j_id (w_running w'))
     \<and> (\<forall>j \<in> set (w_running w'). held (j_id j) (w_id w) st')
     \<and> (\<forall>i ow. held i ow st \<longrightarrow> held i ow st')"
proof (induction n arbitrary: env w st es)
  case (Suc n)
  let ?c = "claimNextPendingJob (case env of [] \<Rightarrow> [] | e # _ \<Rightarrow> e) now (Some (newLease now w)) st"
  show ?case
  proof (cases ?c)
    case (Inl e)
    with Suc.prems show ?thesis by simp
  next
    case (Inr r)
    obtain s1 jo where r: "r = (s1, jo)" by (cases r)
    show ?thesis
    proof (cases jo)
      case None
      with Inr r claim_none [OF Suc.prems(1)] have "s1 = st" by simp
      with Inr r None Suc.prems show ?thesis by simp
    next
      case (Some j)
      with Inr r have c: "?c = Inr (s1, Some j)" by simp
      note v = claim_busy_view [OF Suc.prems(1) c]
      have keep: "held i ow s1" if "held i ow st" for i ow
        using v [of ow] that by (cases "i = j_id j") (auto simp: held_def)
      have fresh: "j_id j \<notin> j_id ` set (w_running w)"
        using v [of "w_id w"] Suc.prems(3) by auto
      have new: "held (j_id j) (w_id w) s1" using v by (auto simp: held_def newLease_def)
      obtain es' where l: "claim_loop n (tl env) now (w_begin now j w) s1 = (w', st', es')"
        using Suc.prems(4) c by (auto split: prod.splits)
      have p: "js_wf s1" "distinct (map j_id (w_running (w_begin now j w)))"
        "\<forall>k \<in> set (w_running (w_begin now j w)). held (j_id k) (w_id (w_begin now j w)) s1"
        using v fresh new Suc.prems(2,3) keep by auto
      note Suc.IH [OF p l]
      with keep show ?thesis by simp
    qed
  qed
qed simp

lemma poll_inv:
  assumes "js_wf st" "distinct (map j_id (w_running w))" "\<forall>j \<in> set (w_running w). held (j_id j) (w_id w) st"
    "w_processJobs env now w st = (w', st', es)"
  shows "js_wf st' \<and> w_id w' = w_id w \<and> distinct (map j_id (w_running w'))
     \<and> (\<forall>j \<in> set (w_running w'). held (j_id j) (w_id w) st')
     \<and> (\<forall>i ow. held i ow st \<longrightarrow> held i ow st')"
proof (cases "w_isRunning w")
  case True
  with assms(4) have "claim_loop (w_concurrency w - length (w_running w)) env now w st = (w', st', es)"
    by (simp add: w_processJobs_def)
  from claim_loop_inv [OF assms(1-3) this] show ?thesis .
next
  case False
  with assms show ?thesis by (simp add: w_processJobs_def)
qed

text \<open>A step of one worker that keeps what the others hold keeps the invariant.\<close>

lemma cluster_inv_step:
  assumes "cluster_inv s" "js_wf st'" "w_id w' = w_id (c_workers s n)"
    "distinct (map j_id (w_running w'))"
    "\<And>j. j \<in> set (w_running w') \<Longrightarrow> held (j_id j) (w_id w') st'"
    "\<And>m j. m \<noteq> n \<Longrightarrow> j \<in> set (w_running (c_workers s m)) \<Longrightarrow>
       held (j_id j) (w_id (c_workers s m)) (c_store s) \<Longrightarrow> held (j_id j) (w_id (c_workers s m)) st'"
  shows "cluster_inv (put_worker n w' st' s)"
proof -
  have "(\<lambda>m. w_id (((c_workers s)(n := w')) m)) = (\<lambda>m. w_id (c_workers s m))"
    using assms(3) by auto
  with assms show ?thesis by (simp add: cluster_inv_def put_worker_def)
qed

lemma recover_keeps_held:
  assumes "js_wf st" "held i ow st" "\<And>r. findById i st = Some r \<Longrightarrow> \<not> lease_expired t r"
  shows "held i ow (fst (recoverIncompleteJobs t st))"
  using assms by (auto simp: held_def job_ops(3) findById_update)

lemma settle_store:
  assumes "js_wf st" "w_settle now rnd j out w st = (w', st', es)"
  shows "js_wf st' \<and> w_id w' = w_id w \<and> w_running w' = remove1 j (w_running w)
    \<and> (\<forall>k ow. k \<noteq> j_id j \<longrightarrow> held k ow st \<longrightarrow> held k ow st')"
proof (cases out)
  case None
  with assms show ?thesis
    by (auto simp: w_settle_def w_complete_def Let_def updateStatus_wf held_status clearLeaseHeartbeat_def)
next
  case (Some err)
  with assms show ?thesis
    by (auto simp: w_settle_def w_fail_def Let_def updateStatus_wf held_status clearLeaseHeartbeat_def
        case_prod_beta dlq_push_store split: if_splits)
qed

lemma cluster_inv_parts:
  assumes "cluster_inv s"
  shows "js_wf (c_store s)" "distinct (map j_id (w_running (c_workers s n)))"
    "\<forall>j \<in> set (w_running (c_workers s n)). held (j_id j) (w_id (c_workers s n)) (c_store s)"
    "w_id (c_workers s n) = w_id (c_workers s m) \<Longrightarrow> n = m"
  using assms by (auto simp: cluster_inv_def dest: injD)

lemma held_owner: "held i a st \<Longrightarrow> held i b st \<Longrightarrow> a = b"
  by (auto simp: held_def)

lemma running_ids_apart:
  assumes "cluster_inv s" "j \<in> set (w_running (c_workers s n))" "k \<in> set (w_running (c_workers s m))"
    "j_id j = j_id k"
  shows "n = m \<and> j = k"
proof -
  have "held (j_id k) (w_id (c_workers s n)) (c_store s)" "held (j_id k) (w_id (c_workers s m)) (c_store s)"
    using bspec [OF cluster_inv_parts(3) [OF assms(1)] assms(2)]
      bspec [OF cluster_inv_parts(3) [OF assms(1)] assms(3)] assms(4) by simp_all
  then have "n = m" using held_owner cluster_inv_parts(4) [OF assms(1)] by blast
  with assms cluster_inv_parts(2) [OF assms(1), of m] show ?thesis by (auto dest: distinct_key_eq)
qed

lemma store_op_held:
  assumes "js_wf st" "held i ow st"
  shows "j_status j = JPending \<Longrightarrow> held i ow (js_apply (OpInsert j) st)"
    "held i ow (js_apply (OpReplay now k) st)" "held i ow (js_apply (OpPurge t) st)"
proof -
  show "held i ow (js_apply (OpInsert j) st)"
    using assms(2) by (auto simp: held_def insert_job_def findById_def row_by_append)
  have "held i ow (fst (js_update p f st))" if "\<And>r. j_id (f r) = j_id r" "\<And>r. p r \<Longrightarrow> j_status r \<noteq> JActive" for p f
    using that by (intro held_update [OF assms]) auto
  from this [of _ "\<lambda>j. j_id j = k \<and> j_status j = JDeadLetter"]
  show "held i ow (js_apply (OpReplay now k) st)"
    by (simp add: retryDeadLetterJob_def case_prod_beta)
  show "held i ow (js_apply (OpPurge t) st)"
    using assms(2) js_delete_view [OF assms(1), of _ i] by (auto simp: held_def purgeDeadLetters_def)
qed

lemma cluster_inv_store:
  assumes "cluster_inv s" "js_wf st'"
    "\<And>i ow. held i ow (c_store s) \<Longrightarrow> held i ow st'"
  shows "cluster_inv (s\<lparr>c_store := st'\<rparr>)"
  using assms by (simp add: cluster_inv_def)

lemma extend_keeps_held: "js_wf st \<Longrightarrow> held k ow st \<Longrightarrow> held k ow (fst (extendLease now i o1 e st))"
  by (simp add: extendLease_def case_prod_beta) (rule held_update, auto)

lemma progress_keeps_held: "js_wf st \<Longrightarrow> held k ow st \<Longrightarrow> held k ow (updateProgress now i p st)"
  by (simp add: updateProgress_def) (rule held_update, auto)

lemma release_keeps_held: "js_wf st \<Longrightarrow> held k ow st \<Longrightarrow> ow \<noteq> o1
    \<Longrightarrow> js_wf (fst (releaseLease now i o1 st)) \<and> held k ow (fst (releaseLease now i o1 st))"
  by (simp add: releaseLease_def case_prod_beta jt.upd_wf) (rule held_update, auto simp: owned_by_def)

lemma release_all_keeps_held: "js_wf st \<Longrightarrow> held k ow st \<Longrightarrow> ow \<noteq> o1
    \<Longrightarrow> js_wf (foldl (\<lambda>st i. fst (releaseLease now i o1 st)) st is)
      \<and> held k ow (foldl (\<lambda>st i. fst (releaseLease now i o1 st)) st is)"
  by (induction "is" arbitrary: st) (simp_all add: release_keeps_held)

lemma release_all_wf: "js_wf st \<Longrightarrow> js_wf (foldl (\<lambda>st i. fst (releaseLease now i o1 st)) st is)"
  by (induction "is" arbitrary: st) (simp_all add: releaseLease_def case_prod_beta jt.upd_wf)

lemma clear_heartbeat_simps [simp]:
  "w_running (clearLeaseHeartbeat i w) = w_running w" "w_id (clearLeaseHeartbeat i w) = w_id w"
  by (simp_all add: clearLeaseHeartbeat_def)

lemma cluster_apply_inv:
  assumes inv: "cluster_inv s" and ok: "timely ev s"
  shows "cluster_inv (cluster_apply ev s)"
proof (cases ev)
  case (EvStart n now)
  note c = cluster_inv_parts [OF inv]
  show ?thesis
  proof (cases "w_isRunning (c_workers s n)")
    case True
    with inv show ?thesis by (simp add: EvStart w_start_def put_worker_def)
  next
    case False
    with ok have live: "leases_live now s" by (simp add: EvStart)
    have keep: "held (j_id j) (w_id (c_workers s m)) (fst (recoverIncompleteJobs now (c_store s)))"
      if "j \<in> set (w_running (c_workers s m))" for m j
      using that c(3) live by (intro recover_keeps_held [OF c(1)]) (auto simp: leases_live_def)
    have wf: "js_wf (fst (recoverIncompleteJobs now (c_store s)))"
      by (simp add: job_ops(3) jt.upd_wf c(1))
    from False show ?thesis
      by (simp add: EvStart w_start_def) (rule cluster_inv_step [OF inv wf], auto simp: c(2) keep)
  qed
next
  case (EvPoll n now env)
  note c = cluster_inv_parts [OF inv]
  obtain w' st' es where p: "w_processJobs env now (c_workers s n) (c_store s) = (w', st', es)"
    by (metis prod.exhaust)
  note q = poll_inv [OF c(1,2,3) p]
  have "cluster_inv (put_worker n w' st' s)"
    by (rule cluster_inv_step [OF inv]) (use q in auto)
  then show ?thesis by (simp add: EvPoll p)
next
  case (EvBeat n now i)
  note c = cluster_inv_parts [OF inv]
  let ?st = "fst (extendLease now i (w_id (c_workers s n)) (le_expiresAt (newLease now (c_workers s n))) (c_store s))"
  have "js_wf ?st" by (simp add: extendLease_def case_prod_beta jt.upd_wf c(1))
  then have "cluster_inv (put_worker n w' ?st s)" if "w_id w' = w_id (c_workers s n)"
      "w_running w' = w_running (c_workers s n)" for w'
    using that c by (intro cluster_inv_step [OF inv]) (auto intro: extend_keeps_held)
  with inv show ?thesis
    by (auto simp: EvBeat w_heartbeat_def case_prod_beta put_worker_def)
next
  case (EvProgress n now j p)
  note c = cluster_inv_parts [OF inv]
  show ?thesis
    by (simp add: EvProgress w_progress_def Let_def)
      (rule cluster_inv_store [OF inv], simp_all add: updateProgress_def jt.upd_wf c(1)
        progress_keeps_held [OF c(1), unfolded updateProgress_def])
next
  case (EvSettle n now rnd j out)
  note c = cluster_inv_parts [OF inv]
  obtain w' st' es where p: "w_settle now rnd j out (c_workers s n) (c_store s) = (w', st', es)"
    by (metis prod.exhaust)
  note q = settle_store [OF c(1) p]
  have j: "j \<in> set (w_running (c_workers s n))" using ok by (simp add: EvSettle)
  have other: "j_id k \<noteq> j_id j" if "k \<in> set (w_running (c_workers s m))" "m \<noteq> n" for k m
    using running_ids_apart [OF inv that(1) j] that(2) by auto
  have own: "j_id k \<noteq> j_id j" if "k \<in> set (remove1 j (w_running (c_workers s n)))" for k
    using that c(2) [of n] running_ids_apart [OF inv _ j, of k n]
    by (auto simp: distinct_map)
  have "cluster_inv (put_worker n w' st' s)"
    using q c other own
    by (intro cluster_inv_step [OF inv]) (auto simp: distinct_map intro: inj_on_subset set_remove1_subset dest: notin_set_remove1)
  then show ?thesis by (simp add: EvSettle p)
next
  case (EvStop n)
  note c = cluster_inv_parts [OF inv]
  show ?thesis
    by (simp add: EvStop) (rule cluster_inv_step [OF inv c(1)], use c in \<open>auto simp: w_stop_def\<close>)
next
  case (EvRelease n now)
  note c = cluster_inv_parts [OF inv]
  have none: "w_running (c_workers s n) = []" using ok by (simp add: EvRelease)
  show ?thesis
    by (simp add: EvRelease w_releaseLeases_def)
      (rule cluster_inv_step [OF inv], auto simp: none release_all_wf c(1) dest: c(4)
        intro!: release_all_keeps_held [OF c(1), THEN conjunct2])
next
  case (EvStore x)
  note c = cluster_inv_parts [OF inv]
  from ok have "held i ow (js_apply x (c_store s))" if "held i ow (c_store s)" for i ow
    using that store_op_held [OF c(1) that] by (cases x) (simp_all add: EvStore)
  with js_apply_wf [OF c(1)] show ?thesis
    by (simp only: EvStore cluster_apply.simps) (rule cluster_inv_store [OF inv], auto)
qed

lemma timely_run_inv: "timely_run s0 s \<Longrightarrow> cluster_inv s0 \<Longrightarrow> cluster_inv s"
  by (induction rule: timely_run.induct) (auto intro: cluster_apply_inv)

text \<open>
  C1. Whatever the interleaving of workers that start, claim, renew, report progress, settle
  and stop after draining, and of callers that enqueue, replay and purge: as long as no lease
  of a running job has lapsed when a worker runs its startup recovery, no job runs twice at
  the same time, in one worker or in two, and each running job's row is active and owned by
  the worker that runs it.
\<close>

theorem no_double_execution:
  assumes "js_wf (c_store s0)" "inj (\<lambda>n. w_id (c_workers s0 n))" "\<And>n. w_running (c_workers s0 n) = []"
    and "timely_run s0 s"
    and "j \<in> set (w_running (c_workers s n))" "k \<in> set (w_running (c_workers s m))" "j_id j = j_id k"
  shows "n = m \<and> j = k \<and> (\<exists>r. findById (j_id j) (c_store s) = Some r \<and> j_status r = JActive
    \<and> j_leaseOwner r = Some (w_id (c_workers s n)))"
proof -
  have "cluster_inv s" using timely_run_inv [OF assms(4)] assms(1-3) by (simp add: cluster_inv_def)
  with running_ids_apart [OF this assms(5,6,7)] assms(5) show ?thesis
    by (auto simp: cluster_inv_def held_def)
qed

definition demo_worker :: "nat \<Rightarrow> worker" where
  "demo_worker n = new_worker \<lparr> wo_concurrency = Some 1, wo_pollIntervalMs = None, wo_baseBackoffMs = None,
     wo_maxBackoffMs = None, wo_maxAttempts = None, wo_workerId = replicate n CHR ''w'',
     wo_leaseTtlMs = None, wo_leaseHeartbeatMs = None \<rparr>"

definition demo_cluster :: cluster where
  "demo_cluster = \<lparr> c_workers = demo_worker, c_store = demo_jobs \<rparr>"

lemma demo_cluster_init:
  "js_wf (c_store demo_cluster)" "inj (\<lambda>n. w_id (c_workers demo_cluster n))"
  "w_running (c_workers demo_cluster n) = []"
  by (auto simp: demo_cluster_def demo_jobs_wf demo_worker_def new_worker_def Let_def inj_def
      dest: arg_cong [of _ _ length])

theorem no_double_execution_witness:
  "\<exists>j k. w_running (c_workers (cluster_apply (EvPoll 1 11 []) (cluster_apply (EvPoll 0 10 [])
        (cluster_apply (EvStart 1 6) (cluster_apply (EvStart 0 5) demo_cluster)))) 0) = [j]
    \<and> w_running (c_workers (cluster_apply (EvPoll 1 11 []) (cluster_apply (EvPoll 0 10 [])
        (cluster_apply (EvStart 1 6) (cluster_apply (EvStart 0 5) demo_cluster)))) 1) = [k]
    \<and> j_id j \<noteq> j_id k"
proof -
  let ?s = "cluster_apply (EvPoll 1 11 []) (cluster_apply (EvPoll 0 10 [])
        (cluster_apply (EvStart 1 6) (cluster_apply (EvStart 0 5) demo_cluster)))"
  have r: "timely_run demo_cluster ?s"
    by (intro run_step run_init) (simp_all add: leases_live_def demo_cluster_init put_worker_def w_start_def)
  have "map j_id (w_running (c_workers ?s 0)) = [''c''] \<and> map j_id (w_running (c_workers ?s 1)) = [''b'']"
    by (simp add: put_worker_def w_start_def w_processJobs_def recoverIncompleteJobs_def js_update_def sql_update_def
        demo_cluster_def demo_worker_def new_worker_def demo_jobs_def demo_job_def claimNextPendingJob_def
        CLAIM_BUSY_ATTEMPTS_def claimNextStmt_def getNextPendingJob_def runnable_def claimable_def best_by_def
        claim_key_def less_eq_prod_simp mark_claimed_def w_begin_def startLeaseHeartbeat_def
        clearLeaseHeartbeat_def newLease_def eval_nat_numeral Let_def)
  then obtain j k where jk: "w_running (c_workers ?s 0) = [j]" "w_running (c_workers ?s 1) = [k]"
    by (auto simp: map_eq_Cons_conv)
  have "j_id j \<noteq> j_id k"
    using no_double_execution [OF demo_cluster_init r, of j 0 k 1] jk by auto
  with jk show ?thesis by blast
qed

subsection \<open>Leases and heartbeats\<close>

lemma default_heartbeat:
  assumes "3 \<le> or_else DEFAULT_JOB_LEASE_TTL_MS (wo_leaseTtlMs opts)" "wo_leaseHeartbeatMs opts = None"
  shows "3 * w_leaseHeartbeatMs (new_worker opts) \<le> w_leaseTtlMs (new_worker opts)"
proof -
  define ttl where "ttl = or_else DEFAULT_JOB_LEASE_TTL_MS (wo_leaseTtlMs opts)"
  have "3 \<le> ttl" using assms(1) by (simp add: ttl_def)
  then have "3 * max 1 (ttl div 3) \<le> ttl" by (simp add: max_def) presburger
  then show ?thesis using assms(2) by (simp add: new_worker_def Let_def ttl_def or_else_def)
qed

text \<open>
  A heartbeat of the job's owner moves the expiry one TTL ahead, so that a recovery up
  to and including that instant, in whatever process, leaves the job alone; with the default
  interval three more ticks fall into that window. A heartbeat of anyone else changes nothing
  and stops its timer.
\<close>

theorem heartbeat_protects_lease:
  assumes "js_wf st" "i \<in> set (w_heartbeats w)" "findById i st = Some r"
    "w_heartbeat now i w st = (w', st')" "t \<le> now + w_leaseTtlMs w"
  shows "(if j_status r = JActive \<and> j_leaseOwner r = Some (w_id w)
      then w' = w
        \<and> findById i (fst (recoverIncompleteJobs t st')) = findById i st'
        \<and> findById i st' = Some (r\<lparr>j_leaseExpiresAt := Some (now + w_leaseTtlMs w), j_updatedAt := now\<rparr>)
      else i \<notin> set (w_heartbeats w') \<and> findById k st' = findById k st)
    \<and> (3 \<le> or_else DEFAULT_JOB_LEASE_TTL_MS (wo_leaseTtlMs opts) \<and> wo_leaseHeartbeatMs opts = None
       \<longrightarrow> 3 * w_leaseHeartbeatMs (new_worker opts) \<le> w_leaseTtlMs (new_worker opts))"
proof -
  have id: "j_id r = i" using jt.look_key [OF assms(1,3)] .
  define f :: "job \<Rightarrow> job" where "f = (\<lambda>j. j\<lparr>j_leaseExpiresAt := Some (now + w_leaseTtlMs w), j_updatedAt := now\<rparr>)"
  have st': "st' = fst (js_update (owned_by i (w_id w)) f st)"
    and w': "w' = (if 0 < snd (js_update (owned_by i (w_id w)) f st) then w else clearLeaseHeartbeat i w)"
    using assms(2,4) by (auto simp: w_heartbeat_def extendLease_def newLease_def f_def split: prod.splits if_splits)
  have keep: "j_id (f j) = j_id j" for j by (simp add: f_def)
  have wf': "js_wf st'" unfolding st' by (rule jt.upd_wf [OF assms(1) keep])
  have ch: "0 < snd (js_update (owned_by i (w_id w)) f st) \<longleftrightarrow> j_status r = JActive \<and> j_leaseOwner r = Some (w_id w)"
    using jt.upd_one [OF assms(1), of i "\<lambda>j. j_status j = JActive \<and> j_leaseOwner j = Some (w_id w)" f] assms(3)
    by (simp add: owned_by_def [abs_def])
  have v: "findById k st' = map_option (\<lambda>j. if owned_by i (w_id w) j then f j else j) (findById k st)" for k
    unfolding st' by (rule findById_update [OF assms(1) keep])
  show ?thesis
  proof (cases "j_status r = JActive \<and> j_leaseOwner r = Some (w_id w)")
    case True
    then have "findById i st' = Some (f r)" using assms(3) id by (simp add: v owned_by_def)
    moreover have "findById i (fst (recoverIncompleteJobs t st')) = findById i st'"
      using assms(5) by (simp add: job_ops(3) findById_update [OF wf'] calculation)
        (simp add: f_def lease_expired_def)
    ultimately show ?thesis using True ch default_heartbeat [of opts]
      by (simp add: w' f_def)
  next
    case False
    then have "\<not> 0 < snd (js_update (owned_by i (w_id w)) f st)" using ch by simp
    with jt.upd_none [OF assms(1) keep, of "owned_by i (w_id w)" k] False default_heartbeat [of opts] show ?thesis
      by (auto simp: w' st' clearLeaseHeartbeat_def)
  qed
qed

theorem heartbeat_protects_lease_witness:
  "\<exists>w' st'. w_heartbeat 20 ''c'' ((demo_worker 0)\<lparr>w_heartbeats := [''c'']\<rparr>)
        (fst (claimNextStmt 10 (Some (newLease 10 (demo_worker 0))) demo_jobs)) = (w', st')
     \<and> findById ''c'' (fst (recoverIncompleteJobs 30020 st')) = findById ''c'' st'
     \<and> 3 * w_leaseHeartbeatMs (demo_worker 0) \<le> w_leaseTtlMs (demo_worker 0)"
proof -
  let ?w = "(demo_worker 0)\<lparr>w_heartbeats := [''c'']\<rparr>"
  let ?st = "fst (claimNextStmt 10 (Some (newLease 10 (demo_worker 0))) demo_jobs)"
  have f: "\<exists>r. findById ''c'' ?st = Some r \<and> j_status r = JActive \<and> j_leaseOwner r = Some (w_id ?w)"
    "w_leaseTtlMs ?w = 30000"
    by (simp_all add: claimNextStmt_def getNextPendingJob_def demo_jobs_def demo_job_def runnable_def
        claimable_def best_by_def claim_key_def less_eq_prod_simp sql_update_def findById_def row_by_def
        newLease_def demo_worker_def new_worker_def or_else_def DEFAULT_JOB_LEASE_TTL_MS_def Let_def
        mark_claimed_def)
  then obtain r where r: "findById ''c'' ?st = Some r" "j_status r = JActive" "j_leaseOwner r = Some (w_id ?w)"
    by blast
  obtain w' st' where h: "w_heartbeat 20 ''c'' ?w ?st = (w', st')" by fastforce
  have "js_wf ?st" by (rule claimNextStmt_wf [OF demo_jobs_wf])
  from heartbeat_protects_lease [OF this _ r(1) h, of 30020 _ "\<lparr> wo_concurrency = Some 1, wo_pollIntervalMs = None,
      wo_baseBackoffMs = None, wo_maxBackoffMs = None, wo_maxAttempts = None, wo_workerId = '''',
      wo_leaseTtlMs = None, wo_leaseHeartbeatMs = None \<rparr>"] r f(2)
  have "findById ''c'' (fst (recoverIncompleteJobs 30020 st')) = findById ''c'' st'"
    "3 * w_leaseHeartbeatMs (demo_worker 0) \<le> w_leaseTtlMs (demo_worker 0)"
    by (simp_all add: or_else_def DEFAULT_JOB_LEASE_TTL_MS_def demo_worker_def)
  with h show ?thesis by blast
qed

subsection \<open>The retry budget\<close>

lemma updateStatus_single: "findById (j_id j) st = Some r \<Longrightarrow> js_jobs st = [r] \<Longrightarrow> status_expected u r
  \<Longrightarrow> js_jobs (fst (updateStatus now (j_id j) s u st)) = [set_status s now u r]"
  by (auto simp: updateStatus_def js_update_def sql_update_def findById_def row_by_def split: if_splits)

text \<open>One run whose handler throws: the claim, then the settlement, at one instant.\<close>

definition failing_run :: "rat \<Rightarrow> thrown \<Rightarrow> worker \<Rightarrow> ms \<Rightarrow> job_store \<Rightarrow> job_store" where
  "failing_run rnd err w now st = (case claimNextStmt now (Some (newLease now w)) st of
      (st', None) \<Rightarrow> st'
    | (st', Some j) \<Rightarrow> (case w_settle now rnd j (Some err) (w_begin now j w) st' of (_, st'', _) \<Rightarrow> st''))"

fun failing_runs :: "rat \<Rightarrow> thrown \<Rightarrow> worker \<Rightarrow> ms \<Rightarrow> ms \<Rightarrow> nat \<Rightarrow> job_store \<Rightarrow> job_store" where
  "failing_runs rnd err w start gap 0 st = st"
| "failing_runs rnd err w start gap (Suc n) st
     = failing_run rnd err w (start + int n * gap) (failing_runs rnd err w start gap n st)"

lemma failing_run_row:
  assumes "js_jobs st = [r]" "claimable r" "j_nextRunAt r \<le> now" "0 < j_maxAttempts r"
    "0 \<le> w_baseBackoffMs w" "0 \<le> w_maxBackoffMs w" "w_maxBackoffMs w \<le> 2 ^ 53" "0 \<le> rnd" "rnd < 1"
  shows "\<exists>r'. js_jobs (failing_run rnd err w now st) = [r'] \<and> j_id r' = j_id r
    \<and> j_attempts r' = j_attempts r + 1 \<and> j_maxAttempts r' = j_maxAttempts r
    \<and> (if j_attempts r + 1 < j_maxAttempts r
       then j_status r' = JFailed \<and> j_nextRunAt r' \<le> now + w_maxBackoffMs w
       else j_status r' = JDeadLetter)"
proof -
  have wf: "js_wf st" using assms(1) by (simp add: js_wf_def)
  define j where "j = mark_claimed now (Some (newLease now w)) r"
  have "getNextPendingJob now st = Some r"
    using assms(1-3) by (simp add: getNextPendingJob_def runnable_def best_by_def)
  then have c: "claimNextStmt now (Some (newLease now w)) st = (st\<lparr>js_jobs := [j]\<rparr>, Some j)"
    using assms(1) by (simp add: claim_unfold [OF wf] j_def)
  have f: "findById (j_id j) (st\<lparr>js_jobs := [j]\<rparr>) = Some j" "js_jobs (st\<lparr>js_jobs := [j]\<rparr>) = [j]"
    by (simp_all add: findById_def row_by_def)
  have js: "j_status j = JActive" "j_attempts j = j_attempts r" by (simp_all add: j_def)
  have m: "max_allowed w' j = j_maxAttempts r" for w' using assms(4) by (simp add: max_allowed_def j_def)
  have d: "computeBackoffDelayMs a (w_baseBackoffMs w) (w_maxBackoffMs w) rnd \<le> w_maxBackoffMs w" for a
    using backoffDelay_range [OF assms(5-8), of a] assms(9) backoffCeiling_range [OF assms(5,6), of a] by simp
  have cfg: "w_baseBackoffMs (w_begin now j w) = w_baseBackoffMs w" "w_maxBackoffMs (w_begin now j w) = w_maxBackoffMs w"
    by (simp_all add: w_begin_def startLeaseHeartbeat_def clearLeaseHeartbeat_def Let_def)
  show ?thesis
  proof (cases "j_attempts r + 1 < j_maxAttempts r")
    case True
    then show ?thesis
      using d by (simp add: failing_run_def c w_settle_def w_fail_def m cfg js Let_def updateStatus_single [OF f]
          status_expected_def) (simp add: j_def set_status_def no_updates_def)
  next
    case False
    then show ?thesis
      by (simp add: failing_run_def c w_settle_def w_fail_def m cfg js parkable_def terminal_def Let_def case_prod_beta dlq_push_store
          updateStatus_single [OF f] push_updates) (simp add: j_def set_status_def no_updates_def)
  qed
qed



subsection \<open>Settlements that come late\<close>

text \<open>
  A settlement checks that the row is active but not who owns it: when the lease of a run
  has lapsed and another worker has claimed the job, the first run's settlement is applied to
  the second run's row. It completes a job whose handler is still running elsewhere, and the
  row keeps the lease columns of the second worker.
\<close>

theorem late_settlement_hits_new_owner:
  assumes "js_wf st" "findById (j_id j) st = Some r" "j_status r = JActive" "j_leaseOwner r = Some other"
    "other \<noteq> w_id w" "w_settle now rnd j None w st = (w', st', es)"
  shows "\<exists>r'. findById (j_id j) st' = Some r' \<and> j_status r' = JCompleted
    \<and> j_leaseOwner r' = Some other \<and> j_leaseExpiresAt r' = j_leaseExpiresAt r
    \<and> snd (extendLease now (j_id j) other t st') = False"
proof -
  have st': "st' = w_complete now j st" using assms(6) by (simp add: w_settle_def Let_def split: prod.splits)
  have id: "j_id r = j_id j" using jt.look_key [OF assms(1,2)] .
  have wf': "js_wf st'" by (simp add: st' w_complete_def updateStatus_wf assms(1))
  have f: "findById (j_id j) st' = Some (set_status JCompleted now (no_updates\<lparr>su_progress := Some 100,
      su_completedAt := Some (Some now), su_expectedStatus := Some [JActive]\<rparr>) r)"
    using assms(2,3) id by (simp add: st' w_complete_def updateStatus_view [OF assms(1)] status_expected_def)
  have "snd (extendLease now (j_id j) other t st') = False"
    using jt.upd_one [OF wf', of "j_id j" "\<lambda>x. j_status x = JActive \<and> j_leaseOwner x = Some other"] f
    by (simp add: extendLease_def case_prod_beta owned_by_def [abs_def])
  with f assms(4) show ?thesis by simp
qed

theorem late_settlement_hits_new_owner_witness:
  "\<exists>r'. findById ''a'' (w_complete 50 (demo_job ''a'' PHigh 0)
      (demo_jobs\<lparr>js_jobs := [(demo_job ''a'' PHigh 0)\<lparr>j_status := JActive, j_leaseOwner := Some ''two'',
          j_leaseExpiresAt := Some 90\<rparr>]\<rparr>)) = Some r'
    \<and> j_status r' = JCompleted \<and> j_leaseOwner r' = Some ''two''"
proof -
  let ?st = "demo_jobs\<lparr>js_jobs := [(demo_job ''a'' PHigh 0)\<lparr>j_status := JActive, j_leaseOwner := Some ''two'',
          j_leaseExpiresAt := Some 90\<rparr>]\<rparr>"
  obtain w' es where s: "w_settle 50 0 (demo_job ''a'' PHigh 0) None (demo_worker 0) ?st
      = (w', w_complete 50 (demo_job ''a'' PHigh 0) ?st, es)"
    by (simp add: w_settle_def Let_def)
  have "js_wf ?st" "findById (j_id (demo_job ''a'' PHigh 0)) ?st
      = Some ((demo_job ''a'' PHigh 0)\<lparr>j_status := JActive, j_leaseOwner := Some ''two'', j_leaseExpiresAt := Some 90\<rparr>)"
    by (simp_all add: js_wf_def findById_def row_by_def demo_job_def)
  from late_settlement_hits_new_owner [OF this _ _ _ s] show ?thesis
    by (auto simp: demo_job_def demo_worker_def new_worker_def Let_def)
qed

text \<open>
  A job enqueued with \<open>maxAttempts = 0\<close> is stranded by its first failure: the worker
  reads zero as its own default and schedules a retry, the claim reads it literally and never
  takes the row again, and the row keeps blocking \<open>enqueueUnique\<close> for its task.
\<close>

theorem zero_max_attempts_strands_job:
  assumes "js_wf st" "findById (j_id j) st = Some r" "j_status r = JActive" "j_maxAttempts r = 0"
    "j_maxAttempts j = 0" "0 \<le> j_attempts j" "j_attempts j + 1 < w_maxAttempts w"
    "w_settle now rnd j (Some err) w st = (w', st', es)"
  shows "\<exists>r'. findById (j_id j) st' = Some r' \<and> j_status r' = JFailed \<and> \<not> runnable later r'
    \<and> hasPendingJobForTask (j_taskId r) st' \<and> (\<exists>t. JobFailed j err True t \<in> set es)"
proof -
  define u where "u = no_updates\<lparr>su_attempts := Some (j_attempts j + 1), su_lastError := Some (Some (error_message err)),
      su_nextRunAt := Some (now + computeBackoffDelayMs (j_attempts j + 1) (w_baseBackoffMs w) (w_maxBackoffMs w) rnd),
      su_expectedStatus := Some [JActive]\<rparr>"
  have st': "st' = fst (updateStatus now (j_id j) JFailed u st)" and es: "\<exists>t. JobFailed j err True t \<in> set es"
    using assms(5,7,8) by (auto simp: w_settle_def w_fail_def max_allowed_def Let_def u_def)
  have id: "j_id r = j_id j" using jt.look_key [OF assms(1,2)] .
  have e: "status_expected u r" using assms(3) by (simp add: u_def status_expected_def)
  then have f: "findById (j_id j) st' = Some (set_status JFailed now u r)"
    using assms(2) id by (simp add: st' updateStatus_view [OF assms(1)])
  have wf': "js_wf st'" by (simp add: st' updateStatus_wf assms(1))
  have "\<not> runnable later (set_status JFailed now u r)"
    using assms(4,6) by (simp add: runnable_def claimable_def set_status_def u_def no_updates_def)
  moreover have "hasPendingJobForTask (j_taskId r) st'"
    using f findById_iff [OF wf'] by (force simp: hasPendingJobForTask_def)
  ultimately show ?thesis using f es by simp
qed

theorem zero_max_attempts_strands_job_witness:
  "\<exists>w' st' es r'. w_settle 50 0 ((demo_job ''a'' PHigh 0)\<lparr>j_maxAttempts := 0\<rparr>) (Some (ThrownString ''x'')) (demo_worker 0)
      (demo_jobs\<lparr>js_jobs := [(demo_job ''a'' PHigh 0)\<lparr>j_status := JActive, j_maxAttempts := 0\<rparr>]\<rparr>) = (w', st', es)
    \<and> findById ''a'' st' = Some r' \<and> \<not> runnable 1000000000 r'"
proof -
  let ?st = "demo_jobs\<lparr>js_jobs := [(demo_job ''a'' PHigh 0)\<lparr>j_status := JActive, j_maxAttempts := 0\<rparr>]\<rparr>"
  let ?j = "(demo_job ''a'' PHigh 0)\<lparr>j_maxAttempts := 0\<rparr>"
  obtain w' st' es where s: "w_settle 50 0 ?j (Some (ThrownString ''x'')) (demo_worker 0) ?st = (w', st', es)"
    by (metis prod.exhaust)
  have "js_wf ?st" "findById (j_id ?j) ?st = Some ((demo_job ''a'' PHigh 0)\<lparr>j_status := JActive, j_maxAttempts := 0\<rparr>)"
    by (simp_all add: js_wf_def findById_def row_by_def demo_job_def)
  from zero_max_attempts_strands_job [OF this _ _ _ _ _ s, of 1000000000] s show ?thesis
    by (auto simp: demo_job_def demo_worker_def new_worker_def Let_def or_else_def)
qed

end
