(* ===== verification/TokenEstimate.thy ===== *)
theory TokenEstimate
  imports Prelude JsNumber
begin

text \<open>
  \<open>backend/src/services/budget/tokens.ts\<close>: token estimates and prompt trimming. A string is
  the list of its UTF-16 code units, so that \<open>length\<close> and \<open>slice\<close> are those of
  JavaScript. The factors 1.1, 0.6 and 0.3 are the doubles nearest to them and every product
  is rounded.
\<close>

definition CHARS_PER_TOKEN :: rat where
  "CHARS_PER_TOKEN = 4"

definition ESTIMATE_SAFETY_FACTOR :: rat where
  "ESTIMATE_SAFETY_FACTOR = fl (11 / 10)"

definition newline2 :: string where
  "newline2 = [CHR 0x0A, CHR 0x0A]"

definition TRUNCATION_MARKER :: string where
  "TRUNCATION_MARKER = newline2 @ ''[... context truncated to fit the task token budget ...]'' @ newline2"

definition tokens_of_length :: "nat \<Rightarrow> int" where
  "tokens_of_length n = (if n = 0 then 0
     else \<lceil>fl (fl (of_nat n / CHARS_PER_TOKEN) * ESTIMATE_SAFETY_FACTOR)\<rceil>)"

definition estimateTokens :: "string \<Rightarrow> int" where
  "estimateTokens t = tokens_of_length (length t)"

record message =
  m_role :: string
  m_content :: string

definition estimateMessagesTokens :: "message list \<Rightarrow> int" where
  "estimateMessagesTokens ms = foldl (\<lambda>total m. total + estimateTokens (m_content m) + 4) 0 ms"

definition maxCharsForTokens :: "int \<Rightarrow> int" where
  "maxCharsForTokens maxTokens = (if maxTokens \<le> 0 then 0
     else \<lfloor>fl (fl (of_int maxTokens / ESTIMATE_SAFETY_FACTOR) * CHARS_PER_TOKEN)\<rfloor>)"

definition head_chars :: "int \<Rightarrow> int" where
  "head_chars budgetChars = \<lceil>fl (of_int budgetChars * fl (6 / 10))\<rceil>"

definition trimToTokenBudget :: "string \<Rightarrow> int \<Rightarrow> string" where
  "trimToTokenBudget t maxTokens =
     (let maxChars = maxCharsForTokens maxTokens
      in if maxChars \<le> 0 then ''''
         else if int (length t) \<le> maxChars then t
         else let markerLen = int (length TRUNCATION_MARKER)
              in if maxChars \<le> markerLen then TRUNCATION_MARKER
                 else let budgetChars = maxChars - markerLen;
                          headChars = head_chars budgetChars;
                          tailChars = budgetChars - headChars
                      in take (nat headChars) t @ TRUNCATION_MARKER
                         @ (if 0 < tailChars then drop (length t - nat tailChars) t else ''''))"

text \<open>
  Trimming a message list. Pass 1 walks the indices downwards; \<open>trim_pass\<close> takes the
  number of messages still to visit.
\<close>

definition trim_allowance :: "int \<Rightarrow> int" where
  "trim_allowance maxTokens = max 1 \<lfloor>fl (of_int maxTokens * fl (3 / 10))\<rfloor>"

definition trim_message :: "int \<Rightarrow> message \<Rightarrow> message" where
  "trim_message n m = m\<lparr>m_content := trimToTokenBudget (m_content m) n\<rparr>"

fun trim_pass :: "int \<Rightarrow> nat \<Rightarrow> message list \<Rightarrow> message list \<times> bool" where
  "trim_pass maxTokens 0 ms = (ms, False)"
| "trim_pass maxTokens (Suc i) ms =
     (if m_role (ms ! i) = ''system'' then trim_pass maxTokens i ms
      else let ms' = ms[i := trim_message (trim_allowance maxTokens) (ms ! i)]
           in if estimateMessagesTokens ms' \<le> maxTokens then (ms', True)
              else trim_pass maxTokens i ms')"

fun find_index :: "('a \<Rightarrow> bool) \<Rightarrow> 'a list \<Rightarrow> nat option" where
  "find_index p [] = None"
| "find_index p (x # xs) = (if p x then Some 0 else map_option Suc (find_index p xs))"

definition trim_system :: "int \<Rightarrow> message list \<Rightarrow> message list" where
  "trim_system maxTokens ms =
     (case find_index (\<lambda>m. m_role m = ''system'') ms of
        None \<Rightarrow> ms
      | Some i \<Rightarrow> (let others = take i ms @ drop (Suc i) ms;
                       remaining = max 0 (maxTokens - estimateMessagesTokens others)
                   in ms[i := trim_message remaining (ms ! i)]))"

definition trimMessagesToTokenBudget :: "message list \<Rightarrow> int \<Rightarrow> message list" where
  "trimMessagesToTokenBudget ms maxTokens =
     (if maxTokens \<le> 0 then []
      else if estimateMessagesTokens ms \<le> maxTokens then ms
      else case trim_pass maxTokens (length ms) ms of
             (ms', True) \<Rightarrow> ms'
           | (ms', False) \<Rightarrow> trim_system maxTokens ms')"

subsection \<open>Estimates\<close>

lemma factor_bounds: "1 \<le> ESTIMATE_SAFETY_FACTOR" "0 < ESTIMATE_SAFETY_FACTOR" "ESTIMATE_SAFETY_FACTOR \<le> 2"
  using js.above_int [of 1 "11/10"] js.below_int [of "11/10" 2] by (simp_all add: ESTIMATE_SAFETY_FACTOR_def)

lemma marker_length: "length TRUNCATION_MARKER = 60"
  by (simp add: TRUNCATION_MARKER_def newline2_def)

lemma tokens_of_length_mono:
  assumes "m \<le> n"
  shows "tokens_of_length m \<le> tokens_of_length n"
proof -
  have "of_nat m / 4 \<le> (of_nat n :: rat) / 4" using assms by simp
  then have "fl (of_nat m / 4) * ESTIMATE_SAFETY_FACTOR \<le> fl (of_nat n / 4) * ESTIMATE_SAFETY_FACTOR"
    using factor_bounds by (intro mult_right_mono js.mono) auto
  then have 1: "\<lceil>fl (fl (of_nat m / 4) * ESTIMATE_SAFETY_FACTOR)\<rceil> \<le> \<lceil>fl (fl (of_nat n / 4) * ESTIMATE_SAFETY_FACTOR)\<rceil>"
    by (intro ceiling_mono js.mono)
  have "0 \<le> fl (fl (of_nat n / 4) * ESTIMATE_SAFETY_FACTOR)"
    using factor_bounds by (intro js.nonneg mult_nonneg_nonneg) auto
  then have "0 \<le> \<lceil>fl (fl (of_nat n / 4) * ESTIMATE_SAFETY_FACTOR)\<rceil>" by linarith
  with 1 assms show ?thesis by (simp add: tokens_of_length_def CHARS_PER_TOKEN_def)
qed

lemma estimate_nonneg: "0 \<le> estimateTokens t"
  using tokens_of_length_mono [of 0 "length t"] by (simp add: estimateTokens_def tokens_of_length_def)

lemma maxChars_nonneg: "0 \<le> maxCharsForTokens m"
proof -
  have "0 \<le> fl (fl (of_int m / ESTIMATE_SAFETY_FACTOR) * CHARS_PER_TOKEN)" if "0 < m"
    using that factor_bounds by (intro js.nonneg mult_nonneg_nonneg) (auto simp: CHARS_PER_TOKEN_def)
  then show ?thesis by (auto simp: maxCharsForTokens_def)
qed

text \<open>The inversion overshoots by at most one token.\<close>

lemma tokens_of_maxChars:
  assumes "0 \<le> m" "m \<le> 2 ^ 50"
  shows "tokens_of_length (nat (maxCharsForTokens m)) \<le> m + 1"
proof (cases "m = 0")
  case True
  then show ?thesis by (simp add: maxCharsForTokens_def tokens_of_length_def)
next
  case False
  define c where "c = ESTIMATE_SAFETY_FACTOR"
  define n where "n = maxCharsForTokens m"
  have c: "1 \<le> c" using factor_bounds by (simp add: c_def)
  have "of_int n \<le> fl (fl (of_int m / c) * 4)"
    using False assms(1) by (simp add: n_def maxCharsForTokens_def c_def CHARS_PER_TOKEN_def)
  then have q: "of_int n / 4 \<le> fl (of_int m / c)" using js.scale4 [of "of_int m / c"] by simp
  have "fl (of_int m / c) \<le> of_int m"
    using c assms by (intro js.below_int) (auto simp: divide_le_eq mult_le_cancel_left1)
  then have "of_int n / 4 \<le> (of_int m :: rat)" using q by linarith
  then have "rat_of_int n \<le> rat_of_int (4 * m)" by simp
  then have "n \<le> 4 * m" by (simp only: of_int_le_iff)
  then have n53: "n \<le> 2 ^ 53" using assms(2) by simp
  have n0: "0 \<le> n" using maxChars_nonneg by (simp add: n_def)
  have "fl (of_int n / 4 * c) < of_int m + 1"
    using assms by (intro js.div_mult_overshoot [OF c _ _ q]) auto
  moreover have "fl (of_nat (nat n) / 4) = of_int n / 4"
    using js.quarter [OF n0 n53] by (simp only: of_nat_nat [OF n0])
  ultimately have "fl (fl (of_nat (nat n) / 4) * c) \<le> of_int (m + 1)"
    by (simp only: of_int_add of_int_1)
  then have "\<lceil>fl (fl (of_nat (nat n) / 4) * c)\<rceil> \<le> m + 1" by (simp only: ceiling_le_iff)
  then show ?thesis
    using assms(1) unfolding tokens_of_length_def CHARS_PER_TOKEN_def n_def [symmetric] c_def [symmetric]
    by (simp del: of_nat_nat)
qed

subsection \<open>Trimming\<close>

lemma head_chars_range:
  assumes "0 \<le> b" "b \<le> 2 ^ 53"
  shows "0 \<le> head_chars b \<and> head_chars b \<le> b"
proof -
  have s: "0 \<le> fl (6 / 10)" "fl (6 / 10) \<le> 1"
    using js.nonneg [of "6/10"] js.below_int [of "6/10" 1] by simp_all
  then have "fl (of_int b * fl (6 / 10)) \<le> of_int b"
    using assms by (intro js.below_int) (auto simp: mult_left_le)
  moreover have "0 \<le> fl (of_int b * fl (6 / 10))" using assms s by (intro js.nonneg) simp
  ultimately show ?thesis by (simp add: head_chars_def ceiling_le_iff)
qed

lemma maxChars_bound:
  assumes "0 \<le> m" "m \<le> 2 ^ 50"
  shows "maxCharsForTokens m \<le> 2 ^ 53"
proof -
  have c: "1 \<le> ESTIMATE_SAFETY_FACTOR" by (rule factor_bounds)
  have "fl (of_int m / ESTIMATE_SAFETY_FACTOR) \<le> of_int m"
    using c assms by (intro js.below_int) (auto simp: divide_le_eq mult_le_cancel_left1)
  then have "fl (fl (of_int m / ESTIMATE_SAFETY_FACTOR) * 4) \<le> of_int (4 * m)"
    using assms by (intro js.below_int) auto
  then have "\<lfloor>fl (fl (of_int m / ESTIMATE_SAFETY_FACTOR) * 4)\<rfloor> \<le> 4 * m" by linarith
  then have "maxCharsForTokens m \<le> 4 * m"
    using assms unfolding maxCharsForTokens_def CHARS_PER_TOKEN_def by (cases "m \<le> 0") simp_all
  with assms(2) show ?thesis by simp
qed

text \<open>
  Trimming returns the text itself when it fits the character allowance; otherwise, when
  the allowance has room beyond the marker, it returns exactly that many characters: a prefix
  of the text, the marker and a suffix of the text. The estimate of what it returns then is
  at most one token above the budget.
\<close>

theorem trim_keeps_ends:
  assumes "0 \<le> n" "n \<le> 2 ^ 50" "int (length TRUNCATION_MARKER) < maxCharsForTokens n"
  shows "(int (length t) \<le> maxCharsForTokens n \<longrightarrow> trimToTokenBudget t n = t)
    \<and> (maxCharsForTokens n < int (length t) \<longrightarrow>
        (\<exists>hd tl. trimToTokenBudget t n = take hd t @ TRUNCATION_MARKER @ drop (length t - tl) t
          \<and> hd + tl < length t \<and> int (length (trimToTokenBudget t n)) = maxCharsForTokens n))
    \<and> estimateTokens (trimToTokenBudget t n) \<le> n + 1"
proof -
  let ?m = "maxCharsForTokens n" and ?b = "maxCharsForTokens n - int (length TRUNCATION_MARKER)"
  have pos: "0 < ?m" using assms(3) by linarith
  have b: "0 \<le> ?b" "?b \<le> 2 ^ 53" using assms(3) maxChars_bound [OF assms(1,2)] by auto
  note h = head_chars_range [OF b]
  have short: "trimToTokenBudget t n = t" if "int (length t) \<le> ?m"
    using that pos by (simp add: trimToTokenBudget_def Let_def)
  have long: "trimToTokenBudget t n = take (nat (head_chars ?b)) t @ TRUNCATION_MARKER
      @ drop (length t - nat (?b - head_chars ?b)) t" if "?m < int (length t)"
    using that pos assms(3) h by (auto simp: trimToTokenBudget_def Let_def)
  have len: "int (length (trimToTokenBudget t n)) = ?m" if "?m < int (length t)"
    using that h assms(3) by (simp add: long) linarith
  have "length (trimToTokenBudget t n) \<le> nat ?m"
    using short len pos by (cases "int (length t) \<le> ?m") auto
  then have "estimateTokens (trimToTokenBudget t n) \<le> tokens_of_length (nat ?m)"
    by (simp add: estimateTokens_def tokens_of_length_mono)
  also have "\<dots> \<le> n + 1" by (rule tokens_of_maxChars [OF assms(1,2)])
  finally have est: "estimateTokens (trimToTokenBudget t n) \<le> n + 1" .
  have "nat (head_chars ?b) + nat (?b - head_chars ?b) < length t" if "?m < int (length t)"
    using that h marker_length by linarith
  with short long len est show ?thesis by blast
qed
text \<open>The bound is reached: a budget of 187 tokens is overshot by one.\<close>

lemma factor_value: "ESTIMATE_SAFETY_FACTOR = 4953959590107546 / 2 ^ 52"
  unfolding ESTIMATE_SAFETY_FACTOR_def using fl_near [of "11/10" 52 4953959590107546] by simp

lemma tokens_eval:
  assumes "0 < l" "l \<le> 2 ^ 53" "2 ^ 52 \<le> of_nat l / 4 * ESTIMATE_SAFETY_FACTOR * 2 ^ k"
    "of_nat l / 4 * ESTIMATE_SAFETY_FACTOR * 2 ^ k < 2 ^ 53"
    "\<bar>of_nat l / 4 * ESTIMATE_SAFETY_FACTOR * 2 ^ k - of_int n\<bar> < 1/2" "of_int n / 2 ^ k \<le> (of_int r :: rat)" "of_int r < of_int n / 2 ^ k + (1 :: rat)"
  shows "tokens_of_length l = r"
proof -
  have "fl (of_int (int l) / 4) = of_int (int l) / 4" using assms(2) by (intro js.quarter) simp_all
  then have q: "fl (of_nat l / 4) = of_nat l / 4" by (simp only: of_int_of_nat_eq)
  have "\<lceil>of_int n / 2 ^ k :: rat\<rceil> = r" using assms(6,7) by (intro ceiling_unique) simp_all
  then show ?thesis
    unfolding tokens_of_length_def CHARS_PER_TOKEN_def q fl_near [OF assms(3-5)] using assms(1) by simp
qed

lemma maxChars_eval:
  assumes "0 < m" "2 ^ 52 \<le> of_int m / ESTIMATE_SAFETY_FACTOR * 2 ^ k"
    "of_int m / ESTIMATE_SAFETY_FACTOR * 2 ^ k < 2 ^ 53"
    "\<bar>of_int m / ESTIMATE_SAFETY_FACTOR * 2 ^ k - of_int n\<bar> < 1/2" "of_int r \<le> of_int n / 2 ^ k * (4 :: rat)" "of_int n / 2 ^ k * (4 :: rat) < of_int r + 1"
  shows "maxCharsForTokens m = r"
proof -
  note f = fl_near [OF assms(2-4)]
  have g: "fl (of_int n / 2 ^ k * 4) = of_int n / 2 ^ k * 4"
    using js.scale4 [of "of_int m / ESTIMATE_SAFETY_FACTOR"] unfolding f .
  have "\<lfloor>of_int n / 2 ^ k * 4 :: rat\<rfloor> = r" using assms(5,6) by (intro floor_unique)
  then show ?thesis unfolding maxCharsForTokens_def CHARS_PER_TOKEN_def f g using assms(1) by simp
qed

lemma token_numbers:
  "tokens_of_length 680 = 188"
  "tokens_of_length 60 = 17"
  "tokens_of_length 55 = 16"
  "tokens_of_length 30 = 9"
  "tokens_of_length 400 = 111"
  "tokens_of_length 800 = 221"
  "tokens_of_length 218 = 60"
  "maxCharsForTokens 187 = 680"
  "maxCharsForTokens 5 = 18"
  "maxCharsForTokens 60 = 218"
  subgoal by (rule tokens_eval [of _ 45 6579477580611585]) (simp_all add: factor_value)
  subgoal by (rule tokens_eval [of _ 48 4644337115725824]) (simp_all add: factor_value)
  subgoal by (rule tokens_eval [of _ 49 8514618045497345]) (simp_all add: factor_value)
  subgoal by (rule tokens_eval [of _ 49 4644337115725824]) (simp_all add: factor_value)
  subgoal by (rule tokens_eval [of _ 46 7740561859543041]) (simp_all add: factor_value)
  subgoal by (rule tokens_eval [of _ 45 7740561859543041]) (simp_all add: factor_value)
  subgoal by (rule tokens_eval [of _ 47 8437212426901914]) (simp_all add: factor_value)
  subgoal by (rule maxChars_eval [of _ 45 5981343255101440]) (simp_all add: factor_value)
  subgoal by (rule maxChars_eval [of _ 50 5117726849284654]) (simp_all add: factor_value)
  subgoal by (rule maxChars_eval [of _ 47 7676590273926981]) (simp_all add: factor_value)
  done

lemma allowance_200: "trim_allowance 200 = 60"
proof -
  have a: "fl (3 / 10) = 5404319552844595 / 2 ^ 54" using fl_near [of "3 / 10" 54 5404319552844595] by simp
  have b: "fl (of_int 200 * (5404319552844595 / 2 ^ 54)) = 8444249301319680 / 2 ^ 47"
    using fl_near [of "of_int 200 * (5404319552844595 / 2 ^ 54)" 47 8444249301319680] by simp
  show ?thesis unfolding trim_allowance_def a b by simp
qed

lemma head_158: "head_chars 158 = 95"
proof -
  have a: "fl (6 / 10) = 5404319552844595 / 2 ^ 53" using fl_near [of "6 / 10" 53 5404319552844595] by simp
  have b: "fl (of_int 158 * (5404319552844595 / 2 ^ 53)) = 6670956948042547 / 2 ^ 46"
    using fl_near [of "of_int 158 * (5404319552844595 / 2 ^ 53)" 46 6670956948042547] by simp
  show ?thesis unfolding head_chars_def a b by (rule ceiling_unique) simp_all
qed

theorem trim_keeps_ends_witness:
  "length (trimToTokenBudget (replicate 700 CHR ''x'') 187) = 680
    \<and> estimateTokens (trimToTokenBudget (replicate 700 CHR ''x'') 187) = 188"
proof -
  have "int (length TRUNCATION_MARKER) < maxCharsForTokens 187" by (simp add: marker_length token_numbers)
  from trim_keeps_ends [OF _ _ this, of "replicate 700 CHR ''x''"]
  have "length (trimToTokenBudget (replicate 700 CHR ''x'') 187) = 680"
    by (auto simp: token_numbers)
  then show ?thesis by (simp add: estimateTokens_def token_numbers)
qed

text \<open>
  With an allowance smaller than the marker, a longer text is replaced by the marker
  alone, whose estimate of 17 tokens may be above the budget and above that of the text: the
  prompt sent is then larger than the one trimmed.
\<close>

theorem trim_marker_alone:
  assumes "0 < maxCharsForTokens n" "maxCharsForTokens n < int (length t)" "maxCharsForTokens n \<le> 60"
  shows "trimToTokenBudget t n = TRUNCATION_MARKER \<and> estimateTokens (trimToTokenBudget t n) = 17
    \<and> (length t < 56 \<longrightarrow> estimateTokens t < estimateTokens (trimToTokenBudget t n))"
proof -
  have r: "trimToTokenBudget t n = TRUNCATION_MARKER"
    using assms by (simp add: trimToTokenBudget_def Let_def marker_length)
  have "tokens_of_length 60 = 17" "tokens_of_length 55 = 16" by (simp_all add: token_numbers)
  moreover have "estimateTokens t \<le> tokens_of_length 55" if "length t < 56"
    using that by (simp add: estimateTokens_def tokens_of_length_mono)
  ultimately show ?thesis by (auto simp: r estimateTokens_def marker_length)
qed

theorem trim_marker_alone_witness:
  "estimateTokens (replicate 30 CHR ''x'') = 9
    \<and> estimateTokens (trimToTokenBudget (replicate 30 CHR ''x'') 5) = 17"
proof -
  have a: "maxCharsForTokens 5 = 18" "tokens_of_length 30 = 9" by (simp_all add: token_numbers)
  have "0 < maxCharsForTokens 5" "maxCharsForTokens 5 < int (length (replicate 30 CHR ''x''))"
    "maxCharsForTokens 5 \<le> 60" by (simp_all add: a)
  from trim_marker_alone [OF this] have "estimateTokens (trimToTokenBudget (replicate 30 CHR ''x'') 5) = 17"
    by blast
  with a show ?thesis by (simp add: estimateTokens_def)
qed

subsection \<open>Message lists\<close>

lemma estimateMessages_sum:
  "estimateMessagesTokens ms = sum_list (map (\<lambda>m. estimateTokens (m_content m) + 4) ms)"
proof -
  have "foldl (\<lambda>total m. total + estimateTokens (m_content m) + 4) a ms
      = a + sum_list (map (\<lambda>m. estimateTokens (m_content m) + 4) ms)" for a
    by (induction ms arbitrary: a) (simp_all add: algebra_simps)
  then show ?thesis by (simp add: estimateMessagesTokens_def)
qed

definition same_frame :: "message list \<Rightarrow> message list \<Rightarrow> bool" where
  "same_frame ms ms' \<longleftrightarrow> map m_role ms' = map m_role ms
     \<and> (\<forall>i < length ms. m_role (ms ! i) = ''system'' \<longrightarrow> ms' ! i = ms ! i)"

lemma trim_message_role [simp]: "m_role (trim_message n m) = m_role m"
  by (simp add: trim_message_def)

lemma trim_pass_frame:
  "i \<le> length ms \<Longrightarrow> trim_pass n i ms = (ms', ok) \<Longrightarrow> same_frame ms ms'
    \<and> (ok \<longrightarrow> estimateMessagesTokens ms' \<le> n) \<and> (\<forall>k. i \<le> k \<longrightarrow> k < length ms \<longrightarrow> ms' ! k = ms ! k)"
proof (induction i arbitrary: ms)
  case 0
  then show ?case by (simp add: same_frame_def)
next
  case (Suc i)
  show ?case
  proof (cases "m_role (ms ! i) = ''system''")
    case True
    with Suc show ?thesis by (simp, metis Suc_leD order_refl le_SucE Suc_le_eq)
  next
    case False
    let ?ms = "ms[i := trim_message (trim_allowance n) (ms ! i)]"
    have f: "same_frame ms ?ms"
      using False Suc.prems(1) by (auto simp: same_frame_def nth_list_update map_update list_update_same_conv)
    show ?thesis
    proof (cases "estimateMessagesTokens ?ms \<le> n")
      case True
      with False Suc.prems f show ?thesis by (auto simp: Let_def)
    next
      case notfit: False
      with False Suc.prems have "trim_pass n i ?ms = (ms', ok)" by (simp add: Let_def)
      from Suc.IH [OF _ this] Suc.prems f show ?thesis
        by (auto simp: same_frame_def nth_list_update)
    qed
  qed
qed

lemma find_index_Some: "find_index p xs = Some i \<Longrightarrow> i < length xs \<and> p (xs ! i)"
  by (induction xs arbitrary: i) (auto split: if_splits)

lemma trim_system_roles: "map m_role (trim_system n ms) = map m_role ms"
  by (auto simp: trim_system_def Let_def map_update list_update_same_conv split: option.split
      dest: find_index_Some)

text \<open>
  Trimming a message list keeps the messages, their order and their roles, and leaves a
  list that fits as it is. It starts with the newest message: when cutting that one to 30% of
  the budget is enough, every other message is kept whole, so that the newest turn is the one
  that loses content.
\<close>

theorem trim_messages_frame:
  assumes "0 < n"
  shows "map m_role (trimMessagesToTokenBudget ms n) = map m_role ms
    \<and> (estimateMessagesTokens ms \<le> n \<longrightarrow> trimMessagesToTokenBudget ms n = ms)
    \<and> (n < estimateMessagesTokens (ms @ [m]) \<and> m_role m \<noteq> ''system''
        \<and> estimateMessagesTokens (ms @ [trim_message (trim_allowance n) m]) \<le> n
       \<longrightarrow> trimMessagesToTokenBudget (ms @ [m]) n = ms @ [trim_message (trim_allowance n) m])"
proof -
  obtain ms' ok where p: "trim_pass n (length ms) ms = (ms', ok)" by fastforce
  have "map m_role ms' = map m_role ms" using trim_pass_frame [OF order_refl p] by (simp add: same_frame_def)
  then have "map m_role (trimMessagesToTokenBudget ms n) = map m_role ms"
    using assms by (cases ok) (simp_all add: trimMessagesToTokenBudget_def p trim_system_roles)
  moreover have "trimMessagesToTokenBudget ms n = ms" if "estimateMessagesTokens ms \<le> n"
    using that assms by (simp add: trimMessagesToTokenBudget_def)
  moreover have "trimMessagesToTokenBudget (ms @ [m]) n = ms @ [trim_message (trim_allowance n) m]"
    if "n < estimateMessagesTokens (ms @ [m])" "m_role m \<noteq> ''system''"
      "estimateMessagesTokens (ms @ [trim_message (trim_allowance n) m]) \<le> n"
    using that assms by (simp add: trimMessagesToTokenBudget_def Let_def nth_append list_update_append)
  ultimately show ?thesis by blast
qed

definition demo_turns :: "message list" where
  "demo_turns = [\<lparr> m_role = ''user'', m_content = replicate 400 CHR ''o'' \<rparr>,
     \<lparr> m_role = ''user'', m_content = replicate 800 CHR ''n'' \<rparr>]"

theorem trim_messages_frame_witness:
  "m_content (trimMessagesToTokenBudget demo_turns 200 ! 0) = replicate 400 CHR ''o''
    \<and> length (m_content (trimMessagesToTokenBudget demo_turns 200 ! 1)) = 218"
proof -
  let ?ms = "[\<lparr> m_role = ''user'', m_content = replicate 400 CHR ''o'' \<rparr>]"
  let ?m = "\<lparr> m_role = ''user'', m_content = replicate 800 CHR ''n'' \<rparr>"
  have len: "length (trimToTokenBudget (replicate 800 CHR ''n'') 60) = 218"
    by (simp add: trimToTokenBudget_def token_numbers head_158 allowance_200 marker_length Let_def)
  have "trimMessagesToTokenBudget (?ms @ [?m]) 200 = ?ms @ [trim_message (trim_allowance 200) ?m]"
    using trim_messages_frame [of 200 ?ms ?m]
    by (simp add: estimateMessages_sum estimateTokens_def token_numbers allowance_200 trim_message_def len)
  then show ?thesis by (simp add: demo_turns_def token_numbers allowance_200 trim_message_def len)
qed

end
