(* ===== verification/JsValue.thy ===== *)
theory JsValue
  imports Prelude JsNumber "HOL-Library.Sublist"
begin

text \<open>
  The JSON values that agents, events and stored rows carry, and the string operations
  \<open>includes\<close> and \<open>join\<close>. The properties of an object keep their order; \<open>undefined\<close> is the
  absence of a value, \<open>None\<close>.
\<close>

datatype js_val = JNull | JBool bool | JNum rat | JStr string | JArr "js_val list" | JObj "(string \<times> js_val) list"

definition includes_text :: "string \<Rightarrow> string \<Rightarrow> bool" where
  "includes_text needle hay = list_ex (prefix needle) (suffixes hay)"

fun join_text :: "string \<Rightarrow> string list \<Rightarrow> string" where
  "join_text sep [] = ''''"
| "join_text sep [x] = x"
| "join_text sep (x # xs) = x @ sep @ join_text sep xs"

text \<open>
  \<open>toLowerCase\<close> on texts over the characters 0 to 255: it adds 32 to the code of a capital
  letter; the sign at 215 is none.
\<close>

definition lower_char :: "char \<Rightarrow> char" where
  "lower_char c = (let k = of_char c :: nat
     in if 65 \<le> k \<and> k \<le> 90 \<or> 192 \<le> k \<and> k \<le> 222 \<and> k \<noteq> 215 then char_of (k + 32) else c)"

text \<open>\<open>trim\<close> on the same characters.\<close>

definition js_space :: "char \<Rightarrow> bool" where
  "js_space c = (let n = of_char c :: nat in 9 \<le> n \<and> n \<le> 13 \<or> n = 32 \<or> n = 160)"

definition js_trim :: "string \<Rightarrow> string" where
  "js_trim s = rev (dropWhile js_space (rev (dropWhile js_space s)))"

text \<open>\<open>v.k\<close> for a key that is no built-in property; \<open>None\<close> is the \<open>TypeError\<close> on null and undefined.\<close>

definition js_field :: "js_val option \<Rightarrow> string \<Rightarrow> js_val option option" where
  "js_field v k = (case v of None \<Rightarrow> None | Some JNull \<Rightarrow> None | Some (JObj fs) \<Rightarrow> Some (map_of fs k) | Some _ \<Rightarrow> Some None)"

lemma js_field_Some: "js_field v k = Some x \<Longrightarrow> \<exists>y. js_field v k' = Some y"
  by (auto simp: js_field_def split: option.splits js_val.splits)

end
