(* ===== verification/BudgetLedger.thy ===== *)
theory BudgetLedger
  imports TokenEstimate JsValue "HOL-Library.Multiset"
begin

text \<open>
  \<open>backend/src/services/budget/ledger.ts\<close> and \<open>pricing.ts\<close>: the token budget of a task,
  its reservations, the usage per node and the registry of running tasks' ledgers. Token
  counts are whole numbers; costs are doubles, rounded to six decimals after each step. The
  parsing of the price overrides from the environment is left out: the overrides are a map.
\<close>

subsection \<open>Prices\<close>

record model_pricing =
  mp_input :: rat
  mp_output :: rat

definition usd_rates :: "rat \<Rightarrow> rat \<Rightarrow> model_pricing" where
  "usd_rates i o1 = \<lparr> mp_input = fl i, mp_output = fl o1 \<rparr>"

definition DEFAULT_PRICING :: "(string, model_pricing) jsmap" where
  "DEFAULT_PRICING = [(''llama-3.3-70b'', usd_rates (2/10) (4/10)), (''venice-xl'', usd_rates (15/100) (3/10)),
     (''venice-code'', usd_rates (15/100) (3/10)), (''venice-pro'', usd_rates (4/10) (8/10))]"

definition FALLBACK_PRICING :: model_pricing where
  "FALLBACK_PRICING = usd_rates (2/10) (4/10)"

definition is_space :: "char \<Rightarrow> bool" where
  "is_space c \<longleftrightarrow> of_char c \<in> {9, 10, 11, 12, 13, 32 :: nat}"

definition trim_text :: "string \<Rightarrow> string" where
  "trim_text s = rev (dropWhile is_space (rev (dropWhile is_space s)))"

definition is_key_char :: "char \<Rightarrow> bool" where
  "is_key_char c \<longleftrightarrow> (let n = (of_char c :: nat) in (97 \<le> n \<and> n \<le> 122) \<or> (48 \<le> n \<and> n \<le> 57))"

fun collapse_runs :: "bool \<Rightarrow> string \<Rightarrow> string" where
  "collapse_runs in_run [] = []"
| "collapse_runs in_run (c # cs) =
     (if is_key_char c then c # collapse_runs False cs
      else if in_run then collapse_runs True cs else CHR ''_'' # collapse_runs True cs)"

definition normalizeModelKey :: "string \<Rightarrow> string" where
  "normalizeModelKey model = collapse_runs False (map lower_char (trim_text model))"

definition NORMALIZED_DEFAULT_PRICING :: "(string, model_pricing) jsmap" where
  "NORMALIZED_DEFAULT_PRICING = map (\<lambda>(k, v). (normalizeModelKey k, v)) DEFAULT_PRICING"

definition pricingForModel :: "(string, model_pricing) jsmap \<Rightarrow> string option \<Rightarrow> model_pricing" where
  "pricingForModel overrides model =
     (let key = normalizeModelKey (case model of None \<Rightarrow> '''' | Some m \<Rightarrow> m)
      in case jm_get overrides key of
           Some p \<Rightarrow> p
         | None \<Rightarrow> (case jm_get NORMALIZED_DEFAULT_PRICING key of Some p \<Rightarrow> p | None \<Rightarrow> FALLBACK_PRICING))"

definition round6 :: "rat \<Rightarrow> rat" where
  "round6 v = fl (of_int (js_round (fl (v * 1000000))) / 1000000)"

definition computeCostUsd :: "(string, model_pricing) jsmap \<Rightarrow> string option \<Rightarrow> int \<Rightarrow> int \<Rightarrow> rat" where
  "computeCostUsd overrides model promptTokens completionTokens =
     (let p = pricingForModel overrides model;
          inputCost = fl (fl (of_int (max 0 promptTokens) / 1000000) * mp_input p);
          outputCost = fl (fl (of_int (max 0 completionTokens) / 1000000) * mp_output p);
          total = fl (inputCost + outputCost)
      in round6 total)"

subsection \<open>The ledger\<close>

record llm_usage =
  lu_promptTokens :: int
  lu_completionTokens :: int
  lu_totalTokens :: int

record usage_record =
  ur_promptTokens :: int
  ur_completionTokens :: int
  ur_totalTokens :: int
  ur_model :: string
  ur_costUsd :: rat
  ur_trimmed :: bool
  ur_tokensSaved :: int

record usage_entry =
  ue_nodeId :: ident
  ue_agentId :: ident
  ue_agentType :: string
  ue_model :: string
  ue_calls :: nat
  ue_promptTokens :: int
  ue_completionTokens :: int
  ue_totalTokens :: int
  ue_costUsd :: rat
  ue_trimmed :: bool
  ue_budgetExhausted :: bool

record budget_limits =
  bl_maxTokensPerTask :: int
  bl_maxTokensPerCall :: int
  bl_maxPromptTokens :: int

definition DEFAULT_BUDGET_LIMITS :: budget_limits where
  "DEFAULT_BUDGET_LIMITS = \<lparr> bl_maxTokensPerTask = 200000, bl_maxTokensPerCall = 8192, bl_maxPromptTokens = 16000 \<rparr>"

record ledger =
  ld_taskId :: ident
  ld_walletPublicKey :: string
  ld_limits :: budget_limits
  ld_usedTokens :: int
  ld_costUsd :: rat
  ld_calls :: nat
  ld_createdAt :: ms
  ld_entries :: "(ident, usage_entry) jsmap"
  ld_reservedTokens :: int
  ld_reservations :: "(ident, int) jsmap"
  ld_lastTrimmed :: int

record ledger_options =
  lo_walletPublicKey :: "string option"
  lo_maxTokensPerTask :: "int option"
  lo_maxTokensPerCall :: "int option"
  lo_maxPromptTokens :: "int option"

definition new_ledger :: "ident \<Rightarrow> ledger_options \<Rightarrow> ms \<Rightarrow> ledger" where
  "new_ledger taskId lo now = \<lparr> ld_taskId = taskId, ld_walletPublicKey = or_else '''' (lo_walletPublicKey lo),
     ld_limits = \<lparr> bl_maxTokensPerTask = or_else (bl_maxTokensPerTask DEFAULT_BUDGET_LIMITS) (lo_maxTokensPerTask lo),
       bl_maxTokensPerCall = or_else (bl_maxTokensPerCall DEFAULT_BUDGET_LIMITS) (lo_maxTokensPerCall lo),
       bl_maxPromptTokens = or_else (bl_maxPromptTokens DEFAULT_BUDGET_LIMITS) (lo_maxPromptTokens lo) \<rparr>,
     ld_usedTokens = 0, ld_costUsd = 0, ld_calls = 0, ld_createdAt = now, ld_entries = [],
     ld_reservedTokens = 0, ld_reservations = [], ld_lastTrimmed = 0 \<rparr>"

definition remainingTokens :: "ledger \<Rightarrow> int" where
  "remainingTokens l = max 0 (bl_maxTokensPerTask (ld_limits l) - ld_usedTokens l)"

definition availableTokens :: "ledger \<Rightarrow> int" where
  "availableTokens l = max 0 (remainingTokens l - ld_reservedTokens l)"

definition exhausted :: "ledger \<Rightarrow> bool" where
  "exhausted l \<longleftrightarrow> availableTokens l \<le> 0"

definition allowanceFor :: "ledger \<Rightarrow> int" where
  "allowanceFor l = min (availableTokens l) (bl_maxTokensPerCall (ld_limits l))"

definition ld_reserve :: "ident \<Rightarrow> rat \<Rightarrow> ledger \<Rightarrow> ledger \<times> int" where
  "ld_reserve nodeId requested l =
     (let want = max 0 \<lfloor>requested\<rfloor>;
          granted = min (min want (availableTokens l))
                        (min (bl_maxTokensPerCall (ld_limits l)) (bl_maxTokensPerTask (ld_limits l)))
      in if 0 < granted
         then (l\<lparr>ld_reservedTokens := ld_reservedTokens l + granted,
                 ld_reservations := jm_set (ld_reservations l) nodeId
                   (max (or_else 0 (jm_get (ld_reservations l) nodeId)) granted)\<rparr>, granted)
         else (l, granted))"

definition ld_release :: "ident \<Rightarrow> ledger \<Rightarrow> ledger" where
  "ld_release nodeId l =
     (case jm_get (ld_reservations l) nodeId of
        None \<Rightarrow> l
      | Some held \<Rightarrow> l\<lparr>ld_reservations := jm_del (ld_reservations l) nodeId,
                       ld_reservedTokens := max 0 (ld_reservedTokens l - held)\<rparr>)"

definition usageCallsFor :: "ident \<Rightarrow> ledger \<Rightarrow> nat" where
  "usageCallsFor nodeId l = (case jm_get (ld_entries l) nodeId of None \<Rightarrow> 0 | Some e \<Rightarrow> ue_calls e)"

definition entryFor :: "ident \<Rightarrow> ident \<Rightarrow> string \<Rightarrow> string option \<Rightarrow> ledger \<Rightarrow> usage_entry" where
  "entryFor nodeId agentId agentType model l =
     (case jm_get (ld_entries l) nodeId of
        None \<Rightarrow> \<lparr> ue_nodeId = nodeId, ue_agentId = agentId, ue_agentType = agentType,
          ue_model = or_else '''' model, ue_calls = 0, ue_promptTokens = 0, ue_completionTokens = 0,
          ue_totalTokens = 0, ue_costUsd = 0, ue_trimmed = False, ue_budgetExhausted = False \<rparr>
      | Some e \<Rightarrow> e\<lparr>ue_agentId := (if agentId \<noteq> '''' then agentId else ue_agentId e),
          ue_agentType := (if agentType \<noteq> '''' then agentType else ue_agentType e),
          ue_model := (if or_else '''' model \<noteq> '''' then or_else '''' model else ue_model e)\<rparr>)"

text \<open>The entry is created or updated in the map, then mutated in place.\<close>

definition put_entry :: "ident \<Rightarrow> usage_entry \<Rightarrow> ledger \<Rightarrow> ledger" where
  "put_entry nodeId e l = l\<lparr>ld_entries := jm_set (ld_entries l) nodeId e\<rparr>"

definition promptCeiling :: "ledger \<Rightarrow> int" where
  "promptCeiling l = min (bl_maxPromptTokens (ld_limits l))
     (max 1 (allowanceFor l - \<lfloor>fl (of_int (allowanceFor l) * (1/4))\<rfloor>))"

definition preparePrompt :: "ident \<Rightarrow> ident \<Rightarrow> string \<Rightarrow> string \<Rightarrow> ledger
    \<Rightarrow> ledger \<times> (string \<times> bool \<times> int)" where
  "preparePrompt nodeId agentId agentType prompt l =
     (let entry = entryFor nodeId agentId agentType None l;
          ceil = promptCeiling l;
          originalTokens = estimateTokens prompt;
          trimmedPrompt = (if originalTokens \<le> ceil then prompt else trimToTokenBudget prompt ceil);
          tokensSaved = originalTokens - estimateTokens trimmedPrompt;
          entry' = (if 0 < tokensSaved then entry\<lparr>ue_trimmed := True\<rparr> else entry)
      in ((put_entry nodeId entry' l)\<lparr>ld_lastTrimmed := tokensSaved\<rparr>,
          (trimmedPrompt, 0 < tokensSaved, tokensSaved)))"

datatype budget_error = BudgetExhaustedError ident int int

definition assertCanSpend :: "ledger \<Rightarrow> budget_error + unit" where
  "assertCanSpend l = (if exhausted l
     then Inl (BudgetExhaustedError (ld_taskId l) (ld_usedTokens l) (bl_maxTokensPerTask (ld_limits l)))
     else Inr ())"

record record_params =
  rp_agentId :: ident
  rp_agentType :: string
  rp_model :: string
  rp_usage :: "llm_usage option"
  rp_prompt :: "string option"
  rp_completion :: "string option"

definition rp_promptTokens :: "record_params \<Rightarrow> int" where
  "rp_promptTokens p = (case rp_usage p of Some u \<Rightarrow> lu_promptTokens u
     | None \<Rightarrow> estimateTokens (or_else '''' (rp_prompt p)))"

definition rp_completionTokens :: "record_params \<Rightarrow> int" where
  "rp_completionTokens p = (case rp_usage p of Some u \<Rightarrow> lu_completionTokens u
     | None \<Rightarrow> estimateTokens (or_else '''' (rp_completion p)))"

definition rp_totalTokens :: "record_params \<Rightarrow> int" where
  "rp_totalTokens p = (case rp_usage p of Some u \<Rightarrow> lu_totalTokens u
     | None \<Rightarrow> rp_promptTokens p + rp_completionTokens p)"

definition ld_record :: "(string, model_pricing) jsmap \<Rightarrow> ident \<Rightarrow> record_params \<Rightarrow> ledger
    \<Rightarrow> ledger \<times> usage_record" where
  "ld_record overrides nodeId p l =
     (let l1 = ld_release nodeId l;
          pt = rp_promptTokens p; ct = rp_completionTokens p; tt = rp_totalTokens p;
          cost = computeCostUsd overrides (Some (rp_model p)) pt ct;
          l2 = l1\<lparr>ld_usedTokens := ld_usedTokens l1 + tt,
                  ld_costUsd := round6 (fl (ld_costUsd l1 + cost)), ld_calls := ld_calls l1 + 1\<rparr>;
          e = entryFor nodeId (rp_agentId p) (rp_agentType p) (Some (rp_model p)) l2;
          e' = e\<lparr>ue_calls := ue_calls e + 1, ue_promptTokens := ue_promptTokens e + pt,
                 ue_completionTokens := ue_completionTokens e + ct, ue_totalTokens := ue_totalTokens e + tt,
                 ue_costUsd := round6 (fl (ue_costUsd e + cost)),
                 ue_trimmed := (ue_trimmed e \<or> 0 < ld_lastTrimmed l2)\<rparr>
      in (put_entry nodeId e' l2,
          \<lparr> ur_promptTokens = pt, ur_completionTokens = ct, ur_totalTokens = tt, ur_model = rp_model p,
            ur_costUsd = cost, ur_trimmed = ue_trimmed e', ur_tokensSaved = ld_lastTrimmed l2 \<rparr>))"

definition markExhausted :: "ident \<Rightarrow> ident \<Rightarrow> string \<Rightarrow> ledger \<Rightarrow> ledger" where
  "markExhausted nodeId agentId agentType l =
     put_entry nodeId ((entryFor nodeId agentId agentType None l)\<lparr>ue_budgetExhausted := True\<rparr>) l"

definition agents_usage :: "ledger \<Rightarrow> usage_entry list" where
  "agents_usage l = sort_key (\<lambda>e. - ue_costUsd e) (map snd (ld_entries l))"

record cost_snapshot =
  cs_taskId :: ident
  cs_walletPublicKey :: string
  cs_budgetTokens :: int
  cs_usedTokens :: int
  cs_remainingTokens :: int
  cs_costUsd :: rat
  cs_exceeded :: bool
  cs_calls :: nat
  cs_agents :: "usage_entry list"
  cs_createdAt :: ms

definition ld_snapshot :: "ledger \<Rightarrow> cost_snapshot" where
  "ld_snapshot l = \<lparr> cs_taskId = ld_taskId l, cs_walletPublicKey = ld_walletPublicKey l,
     cs_budgetTokens = bl_maxTokensPerTask (ld_limits l), cs_usedTokens = ld_usedTokens l,
     cs_remainingTokens = remainingTokens l, cs_costUsd = ld_costUsd l,
     cs_exceeded = (bl_maxTokensPerTask (ld_limits l) < ld_usedTokens l), cs_calls = ld_calls l,
     cs_agents = agents_usage l, cs_createdAt = ld_createdAt l \<rparr>"

subsection \<open>The registry of ledgers\<close>

type_synonym ledgers = "(ident, ledger) jsmap"

definition MAX_TRACKED_TASKS :: nat where
  "MAX_TRACKED_TASKS = 1000"

definition getLedger :: "ident \<Rightarrow> ledger_options \<Rightarrow> ms \<Rightarrow> ledgers \<Rightarrow> ledgers \<times> ledger" where
  "getLedger taskId lo now ls =
     (case jm_get ls taskId of
        Some l \<Rightarrow> (ls, l)
      | None \<Rightarrow> (let l = new_ledger taskId lo now;
                     ls' = (if MAX_TRACKED_TASKS \<le> length ls
                            then (case ls of [] \<Rightarrow> ls | (oldest, _) # _ \<Rightarrow> jm_del ls oldest) else ls)
                 in (jm_set ls' taskId l, l)))"

definition peekLedger :: "ident \<Rightarrow> ledgers \<Rightarrow> ledger option" where
  "peekLedger taskId ls = jm_get ls taskId"

definition takeLedgerSnapshot :: "ident \<Rightarrow> ledgers \<Rightarrow> ledgers \<times> cost_snapshot option" where
  "takeLedgerSnapshot taskId ls = (case jm_get ls taskId of None \<Rightarrow> (ls, None)
     | Some l \<Rightarrow> (jm_del ls taskId, Some (ld_snapshot l)))"

definition dropLedger :: "ident \<Rightarrow> ledgers \<Rightarrow> ledgers" where
  "dropLedger taskId ls = jm_del ls taskId"

definition activeSnapshots :: "ledgers \<Rightarrow> cost_snapshot list" where
  "activeSnapshots ls = map (ld_snapshot \<circ> snd) ls"

subsection \<open>Runs of ledger operations\<close>

datatype ledger_op =
    LReserve ident rat
  | LRelease ident
  | LRecord ident record_params
  | LPrepare ident ident string string
  | LMark ident ident string

fun ld_apply :: "(string, model_pricing) jsmap \<Rightarrow> ledger_op \<Rightarrow> ledger \<Rightarrow> ledger" where
  "ld_apply ov (LReserve n r) l = fst (ld_reserve n r l)"
| "ld_apply ov (LRelease n) l = ld_release n l"
| "ld_apply ov (LRecord n p) l = fst (ld_record ov n p l)"
| "ld_apply ov (LPrepare n a t p) l = fst (preparePrompt n a t p l)"
| "ld_apply ov (LMark n a t) l = markExhausted n a t l"

definition ld_run :: "(string, model_pricing) jsmap \<Rightarrow> ledger_op list \<Rightarrow> ledger \<Rightarrow> ledger" where
  "ld_run ov xs l = foldl (\<lambda>l x. ld_apply ov x l) l xs"

definition held_tokens :: "ident \<Rightarrow> ledger \<Rightarrow> int" where
  "held_tokens n l = or_else 0 (jm_get (ld_reservations l) n)"

text \<open>
  The contract of the callers: a node reserves again only after its reservation was settled
  or released, and the provider does not bill more than the call reserved.
\<close>

fun disciplined :: "ledger_op \<Rightarrow> ledger \<Rightarrow> bool" where
  "disciplined (LReserve n r) l = (jm_get (ld_reservations l) n = None)"
| "disciplined (LRecord n p) l = (0 \<le> rp_totalTokens p \<and> rp_totalTokens p \<le> held_tokens n l)"
| "disciplined _ l = True"

fun disciplined_run :: "(string, model_pricing) jsmap \<Rightarrow> ledger_op list \<Rightarrow> ledger \<Rightarrow> bool" where
  "disciplined_run ov [] l = True"
| "disciplined_run ov (x # xs) l = (disciplined x l \<and> disciplined_run ov xs (ld_apply ov x l))"

definition budget_inv :: "ledger \<Rightarrow> bool" where
  "budget_inv l \<longleftrightarrow> jm_wf (ld_reservations l) \<and> ld_reservedTokens l = jm_sum id (ld_reservations l)
     \<and> (\<forall>(k, v) \<in> set (ld_reservations l). 0 < v)
     \<and> ld_usedTokens l + ld_reservedTokens l \<le> bl_maxTokensPerTask (ld_limits l)"

lemma update_values: "(k, v) \<in> set (jm_set m k0 v0) \<Longrightarrow> (k, v) \<in> set m \<or> (k, v) = (k0, v0)"
  by (induction m) (auto split: if_splits)

lemma delete_values: "(k, v) \<in> set (jm_del m k0) \<Longrightarrow> (k, v) \<in> set m"
  by (induction m) (auto split: if_splits)

lemma jm_sum_ge_entry:
  assumes "jm_wf m" "\<forall>(k, v) \<in> set m. 0 < (v :: int)" "jm_get m k = Some w"
  shows "w \<le> jm_sum id m"
proof -
  have "0 \<le> jm_sum id (jm_del m k)"
  proof (rule jm_sum_nonneg)
    fix k' v assume "(k', v) \<in> set (jm_del m k)"
    with assms(2) show "0 \<le> id v" by (fastforce dest: delete_values)
  qed
  with jm_sum_del [OF assms(1), of id k] assms(3) show ?thesis by simp
qed

lemma budget_reserved_nonneg: "budget_inv l \<Longrightarrow> 0 \<le> ld_reservedTokens l"
  by (auto simp: budget_inv_def intro!: jm_sum_nonneg dest: bspec)

lemma reserve_unfold:
  obtains g where "ld_reserve n r l = (if 0 < g
      then (l\<lparr>ld_reservedTokens := ld_reservedTokens l + g, ld_reservations := jm_set (ld_reservations l) n
              (max (or_else 0 (jm_get (ld_reservations l) n)) g)\<rparr>, g) else (l, g))"
    and "g \<le> availableTokens l"
proof
  show "min (min (max 0 \<lfloor>r\<rfloor>) (availableTokens l))
      (min (bl_maxTokensPerCall (ld_limits l)) (bl_maxTokensPerTask (ld_limits l))) \<le> availableTokens l"
    by (rule min.coboundedI1) (rule min.cobounded2)
qed (unfold ld_reserve_def Let_def, rule refl)

lemma budget_reserve:
  assumes "budget_inv l" "jm_get (ld_reservations l) n = None"
  shows "budget_inv (fst (ld_reserve n r l))"
proof -
  obtain g where r: "ld_reserve n r l = (if 0 < g
      then (l\<lparr>ld_reservedTokens := ld_reservedTokens l + g, ld_reservations := jm_set (ld_reservations l) n
              (max (or_else 0 (jm_get (ld_reservations l) n)) g)\<rparr>, g) else (l, g))"
    and g: "g \<le> availableTokens l" by (rule reserve_unfold)
  show ?thesis
  proof (cases "0 < g")
    case True
    have "ld_usedTokens l + ld_reservedTokens l + g \<le> bl_maxTokensPerTask (ld_limits l)"
      using True g budget_reserved_nonneg [OF assms(1)]
      by (simp add: availableTokens_def remainingTokens_def max_def split: if_splits)
    moreover have "\<forall>(k, v) \<in> set (jm_set (ld_reservations l) n g). 0 < v"
      using assms(1) True by (auto simp: budget_inv_def dest!: update_values)
    ultimately show ?thesis using assms True
      by (simp add: r budget_inv_def jm_wf_set jm_sum_set)
  qed (use assms r in simp)
qed

lemma budget_release:
  assumes "budget_inv l"
  shows "budget_inv (ld_release n l) \<and> ld_reservedTokens (ld_release n l) = ld_reservedTokens l - held_tokens n l"
proof (cases "jm_get (ld_reservations l) n")
  case None
  with assms show ?thesis by (simp add: ld_release_def held_tokens_def)
next
  case (Some h)
  have h: "h \<le> ld_reservedTokens l" "0 < h"
    using assms Some jm_sum_ge_entry [of "ld_reservations l" n h]
    by (auto simp: budget_inv_def dest: map_of_SomeD)
  with assms Some show ?thesis
    by (auto simp: ld_release_def held_tokens_def budget_inv_def jm_wf_del jm_sum_del dest: delete_values)
qed

lemma put_entry_frame [simp]:
  "ld_reservations (put_entry n e l) = ld_reservations l" "ld_reservedTokens (put_entry n e l) = ld_reservedTokens l"
  "ld_usedTokens (put_entry n e l) = ld_usedTokens l" "ld_limits (put_entry n e l) = ld_limits l"
  "ld_calls (put_entry n e l) = ld_calls l" "ld_entries (put_entry n e l) = jm_set (ld_entries l) n e"
  by (simp_all add: put_entry_def)

lemma release_frame [simp]:
  "ld_usedTokens (ld_release n l) = ld_usedTokens l" "ld_limits (ld_release n l) = ld_limits l"
  "ld_entries (ld_release n l) = ld_entries l" "ld_calls (ld_release n l) = ld_calls l"
  by (simp_all add: ld_release_def split: option.splits)

lemma record_frame:
  "ld_reservations (fst (ld_record ov n p l)) = ld_reservations (ld_release n l)"
  "ld_reservedTokens (fst (ld_record ov n p l)) = ld_reservedTokens (ld_release n l)"
  "ld_usedTokens (fst (ld_record ov n p l)) = ld_usedTokens l + rp_totalTokens p"
  "ld_limits (fst (ld_record ov n p l)) = ld_limits l"
  "ld_calls (fst (ld_record ov n p l)) = ld_calls l + 1"
  by (simp_all add: ld_record_def Let_def)

lemma budget_apply:
  assumes "budget_inv l" "disciplined x l"
  shows "budget_inv (ld_apply ov x l)"
proof (cases x)
  case (LReserve n r)
  with assms budget_reserve show ?thesis by simp
next
  case (LRelease n)
  with budget_release [OF assms(1)] show ?thesis by simp
next
  case (LRecord n p)
  have "ld_usedTokens l + ld_reservedTokens l \<le> bl_maxTokensPerTask (ld_limits l)"
    using assms(1) by (simp add: budget_inv_def)
  with budget_release [OF assms(1), of n] assms(2) LRecord
  have "budget_inv (ld_release n l)" "ld_usedTokens l + rp_totalTokens p + ld_reservedTokens (ld_release n l)
      \<le> bl_maxTokensPerTask (ld_limits l)" by simp_all
  with LRecord show ?thesis by (simp add: budget_inv_def record_frame)
next
  case (LPrepare n a t p)
  with assms(1) show ?thesis by (simp add: preparePrompt_def Let_def budget_inv_def)
next
  case (LMark n a t)
  with assms(1) show ?thesis by (simp add: markExhausted_def budget_inv_def)
qed

lemma budget_run: "budget_inv l \<Longrightarrow> disciplined_run ov xs l \<Longrightarrow> budget_inv (ld_run ov xs l)"
proof (induction xs arbitrary: l)
  case (Cons x xs)
  with budget_apply [of l x ov] show ?case by (simp add: ld_run_def)
qed (simp add: ld_run_def)

text \<open>
  C10. When every node settles or releases its reservation before reserving again and no call
  is billed beyond its reservation, a task never spends or authorises more than its budget,
  however the calls of its nodes overlap: tokens used plus tokens reserved stay within
  \<open>maxTokensPerTask\<close>, the reserved total is the sum of the reservations held, and the
  snapshot never reports \<open>exceeded\<close>.
\<close>

theorem budget_never_overauthorised:
  assumes "0 \<le> bl_maxTokensPerTask (ld_limits (new_ledger t lo now))"
    and "disciplined_run ov xs (new_ledger t lo now)"
  shows "ld_usedTokens (ld_run ov xs (new_ledger t lo now)) + ld_reservedTokens (ld_run ov xs (new_ledger t lo now))
      \<le> bl_maxTokensPerTask (ld_limits (ld_run ov xs (new_ledger t lo now)))
    \<and> ld_reservedTokens (ld_run ov xs (new_ledger t lo now))
      = sum_list (map snd (ld_reservations (ld_run ov xs (new_ledger t lo now))))
    \<and> \<not> cs_exceeded (ld_snapshot (ld_run ov xs (new_ledger t lo now)))"
proof -
  let ?l = "ld_run ov xs (new_ledger t lo now)"
  have "budget_inv (new_ledger t lo now)" using assms(1) by (simp add: budget_inv_def new_ledger_def jm_sum_def)
  then have inv: "budget_inv ?l" by (rule budget_run [OF _ assms(2)])
  then have "0 \<le> ld_reservedTokens ?l" by (rule budget_reserved_nonneg)
  with inv show ?thesis by (simp add: budget_inv_def ld_snapshot_def jm_sum_def comp_def)
qed

definition demo_lo :: ledger_options where
  "demo_lo = \<lparr> lo_walletPublicKey = None, lo_maxTokensPerTask = Some 100, lo_maxTokensPerCall = Some 60, lo_maxPromptTokens = None \<rparr>"

definition demo_call :: "int \<Rightarrow> record_params" where
  "demo_call n = \<lparr> rp_agentId = ''ag'', rp_agentType = ''coder'', rp_model = ''venice-xl'',
     rp_usage = Some \<lparr> lu_promptTokens = n, lu_completionTokens = 0, lu_totalTokens = n \<rparr>, rp_prompt = None, rp_completion = None \<rparr>"

theorem budget_never_overauthorised_witness:
  "ld_reservedTokens (ld_run [] [LReserve ''a'' 60, LReserve ''b'' 60, LRecord ''a'' (demo_call 50)] (new_ledger ''T'' demo_lo 0)) = 40
   \<and> \<not> cs_exceeded (ld_snapshot (ld_run [] [LReserve ''a'' 60, LReserve ''b'' 60, LRecord ''a'' (demo_call 50)] (new_ledger ''T'' demo_lo 0)))"
proof -
  have d: "disciplined_run [] [LReserve ''a'' 60, LReserve ''b'' 60, LRecord ''a'' (demo_call 50)] (new_ledger ''T'' demo_lo 0)"
    by (simp add: new_ledger_def demo_lo_def ld_reserve_def availableTokens_def remainingTokens_def demo_call_def
        held_tokens_def rp_totalTokens_def Let_def)
  have "ld_reservations (ld_run [] [LReserve ''a'' 60, LReserve ''b'' 60, LRecord ''a'' (demo_call 50)] (new_ledger ''T'' demo_lo 0)) = [(''b'', 40)]"
    by (simp add: ld_run_def record_frame new_ledger_def demo_lo_def ld_reserve_def ld_release_def
        availableTokens_def remainingTokens_def Let_def)
  with budget_never_overauthorised [OF _ d] show ?thesis by (simp add: new_ledger_def demo_lo_def)
qed

text \<open>
  A node that reserves twice loses budget for good: both grants are added to the reserved
  total, but only the larger is remembered, so releasing the node leaves the smaller one
  reserved by nobody.
\<close>

theorem double_reserve_leaks:
  assumes "jm_get (ld_reservations l) n = None" "0 \<le> ld_reservedTokens l"
    "ld_reserve n r1 l = (l1, g1)" "ld_reserve n r2 l1 = (l2, g2)" "0 < g1" "0 < g2"
  shows "ld_reservedTokens (ld_release n l2) = ld_reservedTokens l + min g1 g2
    \<and> jm_get (ld_reservations (ld_release n l2)) n = None
    \<and> (\<forall>k. k \<noteq> n \<longrightarrow> jm_get (ld_reservations (ld_release n l2)) k = jm_get (ld_reservations l) k)"
proof -
  have r: "ld_reserve m r q = (q', g) \<Longrightarrow> 0 < g \<Longrightarrow> q' = q\<lparr>ld_reservedTokens := ld_reservedTokens q + g,
      ld_reservations := jm_set (ld_reservations q) m (max (or_else 0 (jm_get (ld_reservations q) m)) g)\<rparr>" for m r q q' g
  proof -
    fix m r q q' g assume a: "ld_reserve m r q = (q', g)" "0 < g"
    show "q' = q\<lparr>ld_reservedTokens := ld_reservedTokens q + g,
      ld_reservations := jm_set (ld_reservations q) m (max (or_else 0 (jm_get (ld_reservations q) m)) g)\<rparr>"
      by (rule reserve_unfold [of m r q]) (use a in \<open>simp split: if_splits\<close>)
  qed
  have l1: "l1 = l\<lparr>ld_reservedTokens := ld_reservedTokens l + g1, ld_reservations := jm_set (ld_reservations l) n g1\<rparr>"
    using r [OF assms(3,5)] assms(1,5) by simp
  have l2: "l2 = l1\<lparr>ld_reservedTokens := ld_reservedTokens l1 + g2,
      ld_reservations := jm_set (ld_reservations l1) n (max g1 g2)\<rparr>"
    using r [OF assms(4,6)] by (simp add: l1 js_map)
  show ?thesis
    using assms(2,5,6) by (simp add: l2 l1 ld_release_def js_map)
qed

theorem double_reserve_leaks_witness:
  "ld_reservedTokens (ld_release ''a'' (fst (ld_reserve ''a'' 30 (fst (ld_reserve ''a'' 20 (new_ledger ''T'' demo_lo 0)))))) = 20"
proof -
  have "ld_reserve ''a'' 20 (new_ledger ''T'' demo_lo 0) = (fst (ld_reserve ''a'' 20 (new_ledger ''T'' demo_lo 0)), 20)"
    "ld_reserve ''a'' 30 (fst (ld_reserve ''a'' 20 (new_ledger ''T'' demo_lo 0)))
      = (fst (ld_reserve ''a'' 30 (fst (ld_reserve ''a'' 20 (new_ledger ''T'' demo_lo 0)))), 30)"
    by (simp_all add: prod_eq_iff new_ledger_def demo_lo_def ld_reserve_def availableTokens_def remainingTokens_def Let_def)
  from double_reserve_leaks [OF _ _ this] show ?thesis by (simp add: new_ledger_def)
qed

subsection \<open>The totals\<close>

lemma entryFor_sums:
  "ue_totalTokens (entryFor n a t m l) = (case jm_get (ld_entries l) n of None \<Rightarrow> 0 | Some e \<Rightarrow> ue_totalTokens e)"
  "ue_calls (entryFor n a t m l) = usageCallsFor n l"
  by (simp_all add: entryFor_def usageCallsFor_def split: option.split)

lemma int_sum_list: "int (sum_list xs) = sum_list (map int xs)"
  by (induction xs) simp_all

definition totals_inv :: "ledger \<Rightarrow> bool" where
  "totals_inv l \<longleftrightarrow> jm_wf (ld_entries l) \<and> ld_usedTokens l = jm_sum ue_totalTokens (ld_entries l)
     \<and> int (ld_calls l) = jm_sum (int \<circ> ue_calls) (ld_entries l)"

lemma totals_put:
  assumes "totals_inv l" "ue_totalTokens e = ue_totalTokens (entryFor n a t m l)" "ue_calls e = usageCallsFor n l"
  shows "totals_inv (put_entry n e l)"
  using assms by (auto simp: totals_inv_def jm_wf_set jm_sum_set entryFor_sums usageCallsFor_def split: option.splits)

lemma totals_same: "totals_inv l \<Longrightarrow> ld_entries l' = ld_entries l \<Longrightarrow> ld_usedTokens l' = ld_usedTokens l
    \<Longrightarrow> ld_calls l' = ld_calls l \<Longrightarrow> totals_inv l'"
  by (simp add: totals_inv_def)

lemma totals_apply:
  assumes "totals_inv l"
  shows "totals_inv (ld_apply ov x l)"
proof (cases x)
  case (LReserve n r)
  show ?thesis
    by (rule reserve_unfold [of n r l]) (use LReserve in \<open>auto intro!: totals_same [OF assms]\<close>)
next
  case (LRelease n)
  then show ?thesis by (auto intro!: totals_same [OF assms])
next
  case (LRecord n p)
  define l2 where "l2 = (ld_release n l)\<lparr>ld_usedTokens := ld_usedTokens l + rp_totalTokens p,
      ld_costUsd := round6 (fl (ld_costUsd (ld_release n l) + computeCostUsd ov (Some (rp_model p)) (rp_promptTokens p) (rp_completionTokens p))),
      ld_calls := ld_calls l + 1\<rparr>"
  obtain e where r: "fst (ld_record ov n p l) = put_entry n e l2"
    and e: "ue_totalTokens e = ue_totalTokens (entryFor n (rp_agentId p) (rp_agentType p) (Some (rp_model p)) l2) + rp_totalTokens p"
      "ue_calls e = ue_calls (entryFor n (rp_agentId p) (rp_agentType p) (Some (rp_model p)) l2) + 1"
    by (simp add: ld_record_def Let_def l2_def)
  have en: "ld_entries l2 = ld_entries l" by (simp add: l2_def)
  then have e': "ue_totalTokens e = (case jm_get (ld_entries l) n of None \<Rightarrow> 0 | Some e \<Rightarrow> ue_totalTokens e) + rp_totalTokens p"
    "ue_calls e = usageCallsFor n l + 1"
    by (simp_all add: e entryFor_sums usageCallsFor_def)
  have l2: "ld_usedTokens l2 = ld_usedTokens l + rp_totalTokens p" "ld_calls l2 = ld_calls l + 1" by (simp_all add: l2_def)
  show ?thesis
    using assms by (cases "jm_get (ld_entries l) n")
      (simp_all add: LRecord r totals_inv_def en l2 e' jm_wf_set jm_sum_set usageCallsFor_def)
next
  case (LPrepare n a t p)
  then obtain e s where r: "ld_apply ov x l = (put_entry n e l)\<lparr>ld_lastTrimmed := s\<rparr>"
    "ue_totalTokens e = ue_totalTokens (entryFor n a t None l)" "ue_calls e = ue_calls (entryFor n a t None l)"
    by (simp add: preparePrompt_def Let_def)
  from totals_put [OF assms r(2)] r(3) have "totals_inv (put_entry n e l)" by (simp add: entryFor_sums)
  then show ?thesis unfolding r(1) by (rule totals_same) simp_all
next
  case (LMark n a t)
  have "totals_inv (put_entry n ((entryFor n a t None l)\<lparr>ue_budgetExhausted := True\<rparr>) l)"
    by (rule totals_put [OF assms, where a = a and t = t and m = None]) (simp_all add: entryFor_sums)
  with LMark show ?thesis by (simp add: markExhausted_def)
qed

lemma totals_run: "totals_inv l \<Longrightarrow> totals_inv (ld_run ov xs l)"
  by (induction xs arbitrary: l) (simp_all add: ld_run_def totals_apply)

text \<open>
  After any sequence of operations, disciplined or not, the breakdown adds up: the tokens
  used and the calls counted by the task are the sums over the entries of its nodes, each node
  has one entry, and the snapshot lists exactly those entries, the most expensive first.
\<close>

theorem ledger_breakdown_adds_up:
  "ld_usedTokens (ld_run ov xs (new_ledger t lo now))
      = sum_list (map ue_totalTokens (cs_agents (ld_snapshot (ld_run ov xs (new_ledger t lo now)))))
    \<and> ld_calls (ld_run ov xs (new_ledger t lo now))
      = sum_list (map ue_calls (cs_agents (ld_snapshot (ld_run ov xs (new_ledger t lo now)))))
    \<and> sorted_wrt (\<lambda>a b. ue_costUsd b \<le> ue_costUsd a) (cs_agents (ld_snapshot (ld_run ov xs (new_ledger t lo now))))
    \<and> distinct (map fst (ld_entries (ld_run ov xs (new_ledger t lo now))))"
proof -
  let ?l = "ld_run ov xs (new_ledger t lo now)"
  have inv: "totals_inv ?l" by (intro totals_run) (simp add: totals_inv_def new_ledger_def jm_sum_def)
  have perm: "sum_list (map f (agents_usage ?l)) = sum_list (map f (map snd (ld_entries ?l)))" for f :: "usage_entry \<Rightarrow> 'b::comm_monoid_add"
    by (simp only: sum_mset_sum_list [symmetric] mset_map agents_usage_def mset_sort)
  have "sorted (map (\<lambda>e. - ue_costUsd e) (agents_usage ?l))" by (simp add: agents_usage_def)
  then have "sorted_wrt (\<lambda>a b. ue_costUsd b \<le> ue_costUsd a) (agents_usage ?l)" by (simp add: sorted_map)
  moreover have "int (ld_calls ?l) = int (sum_list (map ue_calls (map snd (ld_entries ?l))))"
    using inv by (simp add: totals_inv_def jm_sum_def int_sum_list comp_def)
  ultimately show ?thesis using inv
    by (simp add: perm ld_snapshot_def totals_inv_def jm_sum_def comp_def)
qed

end
