(* ===== verification/DagScheduler.thy ===== *)
theory DagScheduler
  imports Prelude JsNumber
begin

text \<open>
  \<open>backend/src/coordinator/coordinator.ts\<close>: the scheduler of a task's DAG, the concurrency
  limiter it runs nodes through and the life of one node. A run is a sequence of turns of the
  event loop: the start, the return of a node's dispatch, the return of its payment release,
  and an abort. What happens between a promise and the callbacks chained to it is one turn.
  Dispatch itself (\<open>AgentDispatch\<close>), quality scores, tracing and persistence are left out; a
  dispatch's outcome is given with the step. Results are JSON texts.

  The abstract specification is \<open>can_complete\<close>, the least set of nodes closed under
  successful execution; the theorems show that every schedule computes it.
\<close>

datatype node_status = NPending | NRunning | NCompleted | NFailed | NCancelled
datatype task_status = TQueued | TRunning | TCompleted | TCancelled | TFailed | TPaymentFailed

record dag_node =
  dn_id :: ident
  dn_deps :: "ident list"
  dn_status :: node_status
  dn_error :: "string option"
  dn_result :: "string option"

datatype dag_event =
    NodeStarted ident
  | NodeCompleted ident string
  | NodeFailed ident string
  | PaymentReleased ident
  | TaskCompleted
  | TaskFailed
  | TaskCancelled

record sched =
  sc_dag :: "dag_node list"
  sc_completed :: "ident set"
  sc_failed :: "ident set"
  sc_scheduled :: "ident set"
  sc_inFlight :: nat
  sc_limit :: nat
  sc_active :: "ident set"
  sc_queue :: "ident list"
  sc_releasing :: "ident set"
  sc_aborted :: bool
  sc_paymentFailed :: bool
  sc_settled :: bool
  sc_taskStatus :: task_status
  sc_events :: "dag_event list"
  sc_progress :: "int list"

definition node_of :: "ident \<Rightarrow> sched \<Rightarrow> dag_node option" where
  "node_of i s = row_by dn_id i (sc_dag s)"

definition upd_node :: "ident \<Rightarrow> (dag_node \<Rightarrow> dag_node) \<Rightarrow> sched \<Rightarrow> sched" where
  "upd_node i f s = s\<lparr>sc_dag := map (\<lambda>n. if dn_id n = i then f n else n) (sc_dag s)\<rparr>"

definition bus_emit :: "dag_event \<Rightarrow> sched \<Rightarrow> sched" where
  "bus_emit e s = s\<lparr>sc_events := sc_events s @ [e]\<rparr>"

definition progress_pct :: "nat \<Rightarrow> nat \<Rightarrow> int" where
  "progress_pct completed nodes = (if nodes = 0 then 100
     else js_round (fl (fl (of_nat completed / of_nat nodes) * 100)))"

definition reportProgress :: "sched \<Rightarrow> sched" where
  "reportProgress s = s\<lparr>sc_progress := sc_progress s @ [progress_pct (card (sc_completed s)) (length (sc_dag s))]\<rparr>"

subsection \<open>Settling\<close>

definition finishIfSettled :: "sched \<Rightarrow> sched" where
  "finishIfSettled s =
     (if sc_settled s then s
      else if sc_aborted s \<and> sc_inFlight s = 0
      then bus_emit TaskCancelled (s\<lparr>sc_settled := True, sc_taskStatus := TCancelled\<rparr>)
      else if card (sc_completed s) + card (sc_failed s) \<noteq> length (sc_dag s) then s
      else let status = (if 0 < card (sc_failed s) then TFailed
                         else if sc_paymentFailed s then TPaymentFailed else TCompleted);
               s1 = s\<lparr>sc_settled := True, sc_taskStatus := status, sc_paymentFailed := False\<rparr>;
               s2 = (if status = TCompleted then s1\<lparr>sc_progress := sc_progress s1 @ [100]\<rparr> else s1)
           in bus_emit (if status = TCompleted then TaskCompleted else TaskFailed) s2)"

fun cancel_loop :: "ident list \<Rightarrow> sched \<Rightarrow> sched" where
  "cancel_loop [] s = s"
| "cancel_loop (i # is) s =
     (if map_option dn_status (node_of i s) = Some NPending
      then cancel_loop is (bus_emit (NodeFailed i ''task_cancelled'')
             ((upd_node i (\<lambda>n. n\<lparr>dn_status := NCancelled, dn_error := Some ''task_cancelled''\<rparr>) s)
                \<lparr>sc_failed := insert i (sc_failed s)\<rparr>))
      else cancel_loop is s)"

definition node_ids :: "sched \<Rightarrow> ident list" where
  "node_ids s = map dn_id (sc_dag s)"

definition cancelPendingNodes :: "sched \<Rightarrow> sched" where
  "cancelPendingNodes s = cancel_loop (node_ids s) s"

definition blocked :: "bool \<Rightarrow> dag_node \<Rightarrow> sched \<Rightarrow> bool" where
  "blocked includeDeadlocked n s \<longleftrightarrow>
     (\<exists>d \<in> set (dn_deps n). d \<in> sc_failed s)
   \<or> (\<exists>d \<in> set (dn_deps n). d \<notin> set (node_ids s))
   \<or> (includeDeadlocked \<and> sc_inFlight s = 0 \<and> \<not> (\<forall>d \<in> set (dn_deps n). d \<in> sc_completed s))"

definition blocked_error :: "dag_node \<Rightarrow> sched \<Rightarrow> string" where
  "blocked_error n s = (if \<exists>d \<in> set (dn_deps n). d \<notin> set (node_ids s)
     then ''dependency_not_found'' else ''upstream_failed'')"

fun fail_loop :: "bool \<Rightarrow> ident list \<Rightarrow> sched \<Rightarrow> sched" where
  "fail_loop deadlocked [] s = s"
| "fail_loop deadlocked (i # is) s =
     (case node_of i s of
        None \<Rightarrow> fail_loop deadlocked is s
      | Some n \<Rightarrow>
          if dn_status n \<noteq> NPending \<or> \<not> blocked deadlocked n s then fail_loop deadlocked is s
          else let e = blocked_error n s
               in fail_loop deadlocked is (bus_emit (NodeFailed i e)
                    ((upd_node i (\<lambda>n. n\<lparr>dn_status := NFailed, dn_error := Some e\<rparr>) s)
                       \<lparr>sc_failed := insert i (sc_failed s)\<rparr>)))"

definition failBlockedNodes :: "bool \<Rightarrow> sched \<Rightarrow> sched" where
  "failBlockedNodes deadlocked s = fail_loop deadlocked (node_ids s) s"

subsection \<open>Scheduling\<close>

text \<open>The start of \<open>runNode\<close>, up to the dispatch.\<close>

definition run_start :: "ident \<Rightarrow> sched \<Rightarrow> sched" where
  "run_start i s = bus_emit (NodeStarted i)
     ((upd_node i (\<lambda>n. n\<lparr>dn_status := NRunning\<rparr>) s)\<lparr>sc_active := insert i (sc_active s)\<rparr>)"

definition limiter_run :: "ident \<Rightarrow> sched \<Rightarrow> sched" where
  "limiter_run i s = (if card (sc_active s) < sc_limit s then run_start i s
     else s\<lparr>sc_queue := sc_queue s @ [i]\<rparr>)"

definition limiter_done :: "ident \<Rightarrow> sched \<Rightarrow> sched" where
  "limiter_done i s =
     (let s1 = s\<lparr>sc_active := sc_active s - {i}\<rparr>
      in case sc_queue s1 of [] \<Rightarrow> s1 | j # js \<Rightarrow> run_start j (s1\<lparr>sc_queue := js\<rparr>))"

definition node_ready :: "dag_node \<Rightarrow> sched \<Rightarrow> bool" where
  "node_ready n s \<longleftrightarrow> dn_status n = NPending \<and> dn_id n \<notin> sc_scheduled s
     \<and> (\<forall>d \<in> set (dn_deps n). d \<in> sc_completed s)"

fun schedule_loop :: "ident list \<Rightarrow> sched \<Rightarrow> sched \<times> bool" where
  "schedule_loop [] s = (s, False)"
| "schedule_loop (i # is) s =
     (if (case node_of i s of None \<Rightarrow> False | Some n \<Rightarrow> node_ready n s)
      then (fst (schedule_loop is (limiter_run i
              (s\<lparr>sc_scheduled := insert i (sc_scheduled s), sc_inFlight := sc_inFlight s + 1\<rparr>))), True)
      else schedule_loop is s)"

definition scheduleReadyNodes :: "sched \<Rightarrow> sched" where
  "scheduleReadyNodes s =
     (if sc_aborted s then finishIfSettled (cancelPendingNodes s)
      else let (s1, scheduledAny) = schedule_loop (node_ids s) s
           in if \<not> scheduledAny \<and> sc_inFlight s1 = 0
              then finishIfSettled (failBlockedNodes True s1) else s1)"

text \<open>
  The callbacks on a node's promise, in the order the microtask queue runs them: the outcome
  is noted, the limiter starts the next waiting node, then the scheduler looks again.
\<close>

definition node_returned :: "ident \<Rightarrow> bool \<Rightarrow> sched \<Rightarrow> sched" where
  "node_returned i completed s =
     (let s1 = (if completed then reportProgress (s\<lparr>sc_completed := insert i (sc_completed s)\<rparr>)
                else s\<lparr>sc_failed := insert i (sc_failed s)\<rparr>);
          s2 = limiter_done i s1;
          s3 = scheduleReadyNodes (s2\<lparr>sc_inFlight := sc_inFlight s2 - 1\<rparr>)
      in finishIfSettled (failBlockedNodes False s3))"

datatype run_outcome = DispatchOk string | DispatchFailed string

text \<open>The dispatch of a running node returns; a budget refusal is a failed dispatch.\<close>

definition node_dispatched :: "ident \<Rightarrow> run_outcome \<Rightarrow> sched \<Rightarrow> sched" where
  "node_dispatched i outcome s =
     (case outcome of
        DispatchOk r \<Rightarrow> bus_emit (NodeCompleted i r)
          ((upd_node i (\<lambda>n. n\<lparr>dn_status := NCompleted, dn_result := Some r\<rparr>) s)
             \<lparr>sc_releasing := insert i (sc_releasing s)\<rparr>)
      | DispatchFailed e \<Rightarrow> node_returned i False (bus_emit (NodeFailed i e)
          (upd_node i (\<lambda>n. n\<lparr>dn_status := NFailed, dn_error := Some e\<rparr>) s)))"

text \<open>The payment release of a node that completed its work returns.\<close>

definition node_released :: "ident \<Rightarrow> bool \<Rightarrow> sched \<Rightarrow> sched" where
  "node_released i paid s =
     (let s1 = s\<lparr>sc_releasing := sc_releasing s - {i}\<rparr>
      in node_returned i True (if paid then bus_emit (PaymentReleased i) s1 else s1\<lparr>sc_paymentFailed := True\<rparr>))"

definition dag_abort :: "sched \<Rightarrow> sched" where
  "dag_abort s = (if sc_aborted s then s
     else finishIfSettled (cancelPendingNodes (s\<lparr>sc_aborted := True\<rparr>)))"

definition init_sched :: "nat \<Rightarrow> dag_node list \<Rightarrow> sched" where
  "init_sched limit dag = (let done = set (map dn_id (filter (\<lambda>n. dn_status n = NCompleted) dag))
     in \<lparr> sc_dag = dag, sc_completed = done, sc_failed = {}, sc_scheduled = done, sc_inFlight = 0,
          sc_limit = limit, sc_active = {}, sc_queue = [], sc_releasing = {}, sc_aborted = False,
          sc_paymentFailed = False, sc_settled = False, sc_taskStatus = TRunning, sc_events = [], sc_progress = [] \<rparr>)"

definition executeDAG :: "nat \<Rightarrow> dag_node list \<Rightarrow> sched" where
  "executeDAG limit dag = scheduleReadyNodes (reportProgress (init_sched limit dag))"

text \<open>
  The job handler resets the nodes that failed in an earlier attempt, then executes the DAG.
\<close>

definition reset_failed :: "dag_node list \<Rightarrow> dag_node list" where
  "reset_failed = map (\<lambda>n. if dn_status n = NFailed then n\<lparr>dn_status := NPending, dn_error := None\<rparr> else n)"

definition task_job_handler :: "nat \<Rightarrow> task_status \<Rightarrow> dag_node list \<Rightarrow> sched option" where
  "task_job_handler limit status dag = (if status = TCancelled then None
     else Some (executeDAG limit (reset_failed dag)))"

subsection \<open>Runs\<close>

text \<open>
  \<open>oc\<close> fixes how each node's dispatch ends; the order in which dispatches and payment
  releases return, and whether payments succeed, is arbitrary. The number counts the steps.
\<close>

inductive dag_run :: "(ident \<Rightarrow> run_outcome) \<Rightarrow> nat \<Rightarrow> dag_node list \<Rightarrow> nat \<Rightarrow> sched \<Rightarrow> bool" for oc limit dag where
  dag_start: "dag_run oc limit dag 0 (executeDAG limit dag)"
| dag_dispatched: "dag_run oc limit dag k s \<Longrightarrow> i \<in> sc_active s \<Longrightarrow> i \<notin> sc_releasing s
    \<Longrightarrow> dag_run oc limit dag (Suc k) (node_dispatched i (oc i) s)"
| dag_released: "dag_run oc limit dag k s \<Longrightarrow> i \<in> sc_releasing s
    \<Longrightarrow> dag_run oc limit dag (Suc k) (node_released i paid s)"

inductive can_complete :: "(ident \<Rightarrow> run_outcome) \<Rightarrow> dag_node list \<Rightarrow> ident \<Rightarrow> bool" for oc dag where
  done_before: "n \<in> set dag \<Longrightarrow> dn_status n = NCompleted \<Longrightarrow> can_complete oc dag (dn_id n)"
| runs_ok: "n \<in> set dag \<Longrightarrow> oc (dn_id n) = DispatchOk r \<Longrightarrow> \<forall>d \<in> set (dn_deps n). can_complete oc dag d
    \<Longrightarrow> can_complete oc dag (dn_id n)"

subsection \<open>The invariant of a run\<close>

definition expected_status :: "sched \<Rightarrow> ident \<Rightarrow> node_status" where
  "expected_status s i = (if i \<in> sc_failed s then NFailed
     else if i \<in> sc_completed s \<or> i \<in> sc_releasing s then NCompleted
     else if i \<in> sc_active s then NRunning else NPending)"

definition shape :: "dag_node list \<Rightarrow> (ident \<times> ident list) list" where
  "shape = map (\<lambda>n. (dn_id n, dn_deps n))"

definition dag_ok :: "dag_node list \<Rightarrow> bool" where
  "dag_ok dag \<longleftrightarrow> distinct (map dn_id dag) \<and> (\<forall>n \<in> set dag. dn_status n \<in> {NPending, NCompleted})"

definition started :: "sched \<Rightarrow> ident list" where
  "started s = concat (map (\<lambda>e. case e of NodeStarted i \<Rightarrow> [i] | _ \<Rightarrow> []) (sc_events s))"

definition sets_inv :: "sched \<Rightarrow> bool" where
  "sets_inv s \<longleftrightarrow> sc_completed s \<union> sc_failed s \<union> sc_active s \<union> set (sc_queue s) \<subseteq> set (node_ids s)
     \<and> sc_releasing s \<subseteq> sc_active s \<and> sc_completed s \<inter> sc_failed s = {}
     \<and> sc_active s \<inter> (sc_completed s \<union> sc_failed s) = {}
     \<and> set (sc_queue s) \<inter> (sc_completed s \<union> sc_failed s \<union> sc_active s) = {}
     \<and> distinct (sc_queue s) \<and> sc_active s \<union> set (sc_queue s) \<subseteq> sc_scheduled s
     \<and> sc_scheduled s \<subseteq> sc_completed s \<union> sc_failed s \<union> sc_active s \<union> set (sc_queue s)
     \<and> sc_inFlight s = card (sc_active s) + length (sc_queue s)
     \<and> distinct (started s) \<and> set (started s) \<inter> set (sc_queue s) = {} \<and> set (started s) \<subseteq> sc_scheduled s"

definition sched_inv :: "(ident \<Rightarrow> run_outcome) \<Rightarrow> dag_node list \<Rightarrow> sched \<Rightarrow> bool" where
  "sched_inv oc dag s \<longleftrightarrow> sets_inv s \<and> shape (sc_dag s) = shape dag \<and> \<not> sc_aborted s
     \<and> (\<forall>n \<in> set (sc_dag s). dn_status n = expected_status s (dn_id n))
     \<and> (\<forall>n \<in> set (sc_dag s). dn_id n \<in> sc_active s \<union> set (sc_queue s) \<longrightarrow> set (dn_deps n) \<subseteq> sc_completed s)
     \<and> (\<forall>n \<in> set dag. dn_status n = NCompleted \<longrightarrow> dn_id n \<in> sc_completed s)
     \<and> (\<forall>i \<in> sc_completed s \<union> sc_releasing s. can_complete oc dag i)
     \<and> (\<forall>i \<in> sc_failed s. \<not> can_complete oc dag i)"

text \<open>The limiter is never idle while a node waits.\<close>

definition limiter_ok :: "sched \<Rightarrow> bool" where
  "limiter_ok s \<longleftrightarrow> card (sc_active s) \<le> sc_limit s \<and> (sc_queue s \<noteq> [] \<longrightarrow> card (sc_active s) = sc_limit s)"

lemma inv_sets: "sched_inv oc dag s \<Longrightarrow> sets_inv s"
  and inv_shape: "sched_inv oc dag s \<Longrightarrow> shape (sc_dag s) = shape dag"
  and inv_live: "sched_inv oc dag s \<Longrightarrow> \<not> sc_aborted s"
  and inv_status: "sched_inv oc dag s \<Longrightarrow> n \<in> set (sc_dag s) \<Longrightarrow> dn_status n = expected_status s (dn_id n)"
  and inv_deps: "sched_inv oc dag s \<Longrightarrow> n \<in> set (sc_dag s) \<Longrightarrow> dn_id n \<in> sc_active s \<union> set (sc_queue s)
    \<Longrightarrow> set (dn_deps n) \<subseteq> sc_completed s"
  and inv_before: "sched_inv oc dag s \<Longrightarrow> n \<in> set dag \<Longrightarrow> dn_status n = NCompleted \<Longrightarrow> dn_id n \<in> sc_completed s"
  and inv_can: "sched_inv oc dag s \<Longrightarrow> i \<in> sc_completed s \<union> sc_releasing s \<Longrightarrow> can_complete oc dag i"
  and inv_cannot: "sched_inv oc dag s \<Longrightarrow> i \<in> sc_failed s \<Longrightarrow> \<not> can_complete oc dag i"
  unfolding sched_inv_def by (fact conjunct1 | blast)+

lemma sched_invI:
  assumes "sets_inv s" "shape (sc_dag s) = shape dag" "\<not> sc_aborted s"
    "\<And>n. n \<in> set (sc_dag s) \<Longrightarrow> dn_status n = expected_status s (dn_id n)"
    "\<And>n. n \<in> set (sc_dag s) \<Longrightarrow> dn_id n \<in> sc_active s \<union> set (sc_queue s) \<Longrightarrow> set (dn_deps n) \<subseteq> sc_completed s"
    "\<And>n. n \<in> set dag \<Longrightarrow> dn_status n = NCompleted \<Longrightarrow> dn_id n \<in> sc_completed s"
    "\<And>i. i \<in> sc_completed s \<union> sc_releasing s \<Longrightarrow> can_complete oc dag i"
    "\<And>i. i \<in> sc_failed s \<Longrightarrow> \<not> can_complete oc dag i"
  shows "sched_inv oc dag s"
  unfolding sched_inv_def using assms by (intro conjI ballI impI) assumption+

lemma shape_ids: "shape (sc_dag s) = shape dag \<Longrightarrow> node_ids s = map dn_id dag"
proof -
  assume a: "shape (sc_dag s) = shape dag"
  have "map fst (shape xs) = map dn_id xs" for xs by (simp add: shape_def)
  from this [of "sc_dag s"] this [of dag] a show ?thesis by (simp add: node_ids_def)
qed

lemma shape_upd: "(\<And>n. dn_id (f n) = dn_id n) \<Longrightarrow> (\<And>n. dn_deps (f n) = dn_deps n)
    \<Longrightarrow> shape (sc_dag (upd_node i f s)) = shape (sc_dag s)"
  by (auto simp: shape_def upd_node_def)

lemma node_ids_upd: "(\<And>n. dn_id (f n) = dn_id n) \<Longrightarrow> node_ids (upd_node i f s) = node_ids s"
  by (simp add: node_ids_def upd_node_def)

lemma upd_node_frame [simp]:
  "sc_completed (upd_node i f s) = sc_completed s" "sc_failed (upd_node i f s) = sc_failed s"
  "sc_scheduled (upd_node i f s) = sc_scheduled s" "sc_inFlight (upd_node i f s) = sc_inFlight s"
  "sc_limit (upd_node i f s) = sc_limit s" "sc_active (upd_node i f s) = sc_active s"
  "sc_queue (upd_node i f s) = sc_queue s" "sc_releasing (upd_node i f s) = sc_releasing s"
  "sc_aborted (upd_node i f s) = sc_aborted s" "sc_settled (upd_node i f s) = sc_settled s"
  "sc_paymentFailed (upd_node i f s) = sc_paymentFailed s" "sc_taskStatus (upd_node i f s) = sc_taskStatus s"
  by (simp_all add: upd_node_def)

lemma bus_emit_frame [simp]:
  "sc_dag (bus_emit e s) = sc_dag s" "sc_completed (bus_emit e s) = sc_completed s"
  "sc_failed (bus_emit e s) = sc_failed s" "sc_scheduled (bus_emit e s) = sc_scheduled s"
  "sc_inFlight (bus_emit e s) = sc_inFlight s" "sc_limit (bus_emit e s) = sc_limit s"
  "sc_active (bus_emit e s) = sc_active s" "sc_queue (bus_emit e s) = sc_queue s"
  "sc_releasing (bus_emit e s) = sc_releasing s" "sc_aborted (bus_emit e s) = sc_aborted s"
  "sc_settled (bus_emit e s) = sc_settled s" "sc_paymentFailed (bus_emit e s) = sc_paymentFailed s"
  "sc_taskStatus (bus_emit e s) = sc_taskStatus s" "node_ids (bus_emit e s) = node_ids s"
  "node_of i (bus_emit e s) = node_of i s"
  by (simp_all add: bus_emit_def node_ids_def node_of_def)

lemma dag_frame [simp]:
  "node_ids (s\<lparr>sc_scheduled := a\<rparr>) = node_ids s" "node_of k (s\<lparr>sc_scheduled := a\<rparr>) = node_of k s"
  "node_ids (s\<lparr>sc_inFlight := m\<rparr>) = node_ids s" "node_of k (s\<lparr>sc_inFlight := m\<rparr>) = node_of k s"
  "node_ids (s\<lparr>sc_active := a\<rparr>) = node_ids s" "node_of k (s\<lparr>sc_active := a\<rparr>) = node_of k s"
  "node_ids (s\<lparr>sc_queue := q\<rparr>) = node_ids s" "node_of k (s\<lparr>sc_queue := q\<rparr>) = node_of k s"
  "node_ids (s\<lparr>sc_failed := a\<rparr>) = node_ids s" "node_of k (s\<lparr>sc_failed := a\<rparr>) = node_of k s"
  "node_ids (s\<lparr>sc_completed := a\<rparr>) = node_ids s" "node_of k (s\<lparr>sc_completed := a\<rparr>) = node_of k s"
  "node_ids (s\<lparr>sc_releasing := a\<rparr>) = node_ids s" "node_of k (s\<lparr>sc_releasing := a\<rparr>) = node_of k s"
  by (simp_all add: node_ids_def node_of_def)

lemma node_of_Some: "node_of i s = Some n \<Longrightarrow> n \<in> set (sc_dag s) \<and> dn_id n = i"
  unfolding node_of_def by (rule row_by_Some)

lemma node_of_id: "i \<in> set (node_ids s) \<Longrightarrow> \<exists>n. node_of i s = Some n"
  using row_by_None [of dn_id i "sc_dag s"] by (auto simp: node_of_def node_ids_def)

lemma inv_same_node:
  assumes "distinct (map dn_id dag)" "sched_inv oc dag s" "n \<in> set (sc_dag s)"
  obtains n0 where "n0 \<in> set dag" "dn_id n0 = dn_id n" "dn_deps n0 = dn_deps n"
proof -
  have "(dn_id n, dn_deps n) \<in> set (shape (sc_dag s))" using assms(3) by (auto simp: shape_def)
  then have "(dn_id n, dn_deps n) \<in> set (shape dag)" using inv_shape [OF assms(2)] by simp
  with that show ?thesis by (auto simp: shape_def)
qed

lemma inv_node_eq:
  assumes "distinct (map dn_id dag)" "sched_inv oc dag s" "n \<in> set (sc_dag s)" "m \<in> set (sc_dag s)" "dn_id n = dn_id m"
  shows "n = m"
proof -
  have "distinct (map dn_id (sc_dag s))"
    using assms(1) shape_ids [OF inv_shape [OF assms(2)]] by (simp add: node_ids_def)
  with assms(3-5) show ?thesis by (simp add: distinct_key_eq)
qed

lemma can_complete_id: "can_complete oc dag i \<Longrightarrow> i \<in> set (map dn_id dag)"
  by (induction rule: can_complete.induct) auto


lemma started_frame [simp]:
  "started (s\<lparr>sc_scheduled := a\<rparr>) = started s" "started (s\<lparr>sc_inFlight := m\<rparr>) = started s"
  "started (s\<lparr>sc_active := a\<rparr>) = started s" "started (s\<lparr>sc_queue := q\<rparr>) = started s"
  "started (s\<lparr>sc_completed := a\<rparr>) = started s" "started (s\<lparr>sc_failed := a\<rparr>) = started s"
  "started (s\<lparr>sc_releasing := a\<rparr>) = started s" "started (s\<lparr>sc_paymentFailed := p\<rparr>) = started s"
  "started (s\<lparr>sc_progress := ps\<rparr>) = started s" "started (upd_node i f s) = started s"
  "started (bus_emit e s) = started s @ (case e of NodeStarted i \<Rightarrow> [i] | _ \<Rightarrow> [])"
  by (simp_all add: started_def upd_node_def bus_emit_def)

text \<open>One node changes its status, and the sets change with it.\<close>

lemma inv_update:
  assumes inv: "sched_inv oc dag s"
    and dag: "sc_dag s' = sc_dag (upd_node i f s)" "\<And>n. dn_id (f n) = dn_id n" "\<And>n. dn_deps (f n) = dn_deps n"
    and st: "\<And>n. n \<in> set (sc_dag s) \<Longrightarrow> dn_id n = i \<Longrightarrow> dn_status (f n) = expected_status s' i"
      "\<And>k. k \<noteq> i \<Longrightarrow> expected_status s' k = expected_status s k"
    and sets: "sets_inv s'" "\<not> sc_aborted s'" "sc_completed s \<subseteq> sc_completed s'"
      "sc_active s' \<union> set (sc_queue s') \<subseteq> sc_active s \<union> set (sc_queue s)"
    and can: "\<And>k. k \<in> sc_completed s' \<union> sc_releasing s' \<Longrightarrow> can_complete oc dag k"
      "\<And>k. k \<in> sc_failed s' \<Longrightarrow> \<not> can_complete oc dag k"
  shows "sched_inv oc dag s'"
proof (rule sched_invI [OF sets(1) _ sets(2) _ _ _ can])
  show "shape (sc_dag s') = shape dag"
    unfolding dag(1) using inv_shape [OF inv] dag(2,3) by (simp add: shape_upd)
next
  fix n assume "n \<in> set (sc_dag s')"
  then obtain m where m: "m \<in> set (sc_dag s)" "n = (if dn_id m = i then f m else m)"
    unfolding dag(1) by (auto simp: upd_node_def)
  show "dn_status n = expected_status s' (dn_id n)"
    using m st inv_status [OF inv m(1)] dag(2) by (cases "dn_id m = i") auto
  assume "dn_id n \<in> sc_active s' \<union> set (sc_queue s')"
  then have "dn_id m \<in> sc_active s \<union> set (sc_queue s)" using sets(4) m(2) dag(2) by (auto split: if_splits)
  from inv_deps [OF inv m(1) this] sets(3) m(2) dag(3) show "set (dn_deps n) \<subseteq> sc_completed s'" by auto
qed (use inv_before [OF inv] sets(3) in auto)

lemma upd_node_same: "sc_dag (upd_node i (\<lambda>n. n) s) = sc_dag s"
  by (simp add: upd_node_def)

lemma run_start_dag: "sc_dag (run_start i s) = sc_dag (upd_node i (\<lambda>n. n\<lparr>dn_status := NRunning\<rparr>) s)"
  by (simp add: run_start_def)

lemma run_start_frame [simp]:
  "sc_completed (run_start i s) = sc_completed s" "sc_failed (run_start i s) = sc_failed s"
  "sc_active (run_start i s) = insert i (sc_active s)" "sc_queue (run_start i s) = sc_queue s"
  "sc_releasing (run_start i s) = sc_releasing s" "sc_scheduled (run_start i s) = sc_scheduled s"
  "sc_inFlight (run_start i s) = sc_inFlight s" "sc_limit (run_start i s) = sc_limit s"
  "sc_aborted (run_start i s) = sc_aborted s" "sc_settled (run_start i s) = sc_settled s"
  "sc_paymentFailed (run_start i s) = sc_paymentFailed s" "sc_taskStatus (run_start i s) = sc_taskStatus s"
  "node_ids (run_start i s) = node_ids s" "started (run_start i s) = started s @ [i]"
  by (simp_all add: run_start_def) (simp add: upd_node_def node_ids_def)

lemma finite_sets: "sets_inv s \<Longrightarrow> finite (sc_active s) \<and> finite (sc_completed s) \<and> finite (sc_failed s)"
  unfolding sets_inv_def by (meson List.finite_set finite_subset le_sup_iff)

lemma start_head_inv:
  assumes inv: "sched_inv oc dag s" and q: "sc_queue s = j # js"
  shows "sched_inv oc dag (run_start j (s\<lparr>sc_queue := js\<rparr>))"
proof (rule inv_update [OF inv, where f = "\<lambda>n. n\<lparr>dn_status := NRunning\<rparr>" and i = j])
  let ?t = "run_start j (s\<lparr>sc_queue := js\<rparr>)"
  note sets = inv_sets [OF inv]
  have j: "j \<notin> sc_completed s" "j \<notin> sc_failed s" "j \<notin> sc_active s" "j \<notin> set js" "j \<notin> set (started s)"
    using sets q by (auto simp: sets_inv_def)
  then have rel: "j \<notin> sc_releasing s" using sets by (auto simp: sets_inv_def)
  show "sc_dag ?t = sc_dag (upd_node j (\<lambda>n. n\<lparr>dn_status := NRunning\<rparr>) s)"
    by (simp add: run_start_dag upd_node_def)
  show "sets_inv ?t"
    using sets j q finite_sets [OF sets] unfolding sets_inv_def
    by (elim conjE, intro conjI) (simp_all add: subset_insertI2 Int_commute)
  show "dn_status (n\<lparr>dn_status := NRunning\<rparr>) = expected_status ?t j" for n :: dag_node
    using j rel by (simp add: expected_status_def)
  show "expected_status ?t k = expected_status s k" if "k \<noteq> j" for k
    using that by (simp add: expected_status_def)
qed (use inv_live [OF inv] inv_can [OF inv] inv_cannot [OF inv] q in auto)

definition enqueue_node :: "ident \<Rightarrow> sched \<Rightarrow> sched" where
  "enqueue_node i s = s\<lparr>sc_scheduled := insert i (sc_scheduled s), sc_inFlight := sc_inFlight s + 1,
     sc_queue := sc_queue s @ [i]\<rparr>"

lemma ready_fresh:
  assumes inv: "sched_inv oc dag s" and n: "node_of i s = Some n" "node_ready n s"
  shows "i \<notin> sc_failed s" "i \<notin> sc_completed s" "i \<notin> sc_releasing s" "i \<notin> sc_active s"
    "i \<notin> set (sc_queue s)" "i \<in> set (node_ids s)" "i \<notin> sc_scheduled s" "i \<notin> set (started s)"
    "set (dn_deps n) \<subseteq> sc_completed s"
proof -
  have i: "n \<in> set (sc_dag s)" "dn_id n = i" using node_of_Some [OF n(1)] by auto
  have "expected_status s i = NPending" using inv_status [OF inv i(1)] i(2) n(2) by (simp add: node_ready_def)
  then show "i \<notin> sc_failed s" "i \<notin> sc_completed s" "i \<notin> sc_releasing s" "i \<notin> sc_active s"
    by (auto simp: expected_status_def split: if_splits)
  show s: "i \<notin> sc_scheduled s" using n(2) i by (simp add: node_ready_def)
  show "set (dn_deps n) \<subseteq> sc_completed s" using n(2) by (auto simp: node_ready_def)
  show "i \<in> set (node_ids s)" using i by (auto simp: node_ids_def)
  show "i \<notin> set (sc_queue s)" "i \<notin> set (started s)" using inv_sets [OF inv] s unfolding sets_inv_def by blast+
qed

lemma enqueue_inv:
  assumes d: "distinct (map dn_id dag)" and inv: "sched_inv oc dag s"
    and n: "node_of i s = Some n" "node_ready n s"
  shows "sched_inv oc dag (enqueue_node i s)"
proof (rule sched_invI)
  note sets = inv_sets [OF inv] and fresh = ready_fresh [OF inv n]
  show "sets_inv (enqueue_node i s)"
    using sets fresh unfolding sets_inv_def enqueue_node_def
    by (elim conjE, intro conjI) (simp_all add: subset_insertI2 Int_commute)
  fix m assume m: "m \<in> set (sc_dag (enqueue_node i s))"
  then have m': "m \<in> set (sc_dag s)" by (simp add: enqueue_node_def)
  show "dn_status m = expected_status (enqueue_node i s) (dn_id m)"
    using inv_status [OF inv m'] by (simp add: enqueue_node_def expected_status_def)
  assume a: "dn_id m \<in> sc_active (enqueue_node i s) \<union> set (sc_queue (enqueue_node i s))"
  show "set (dn_deps m) \<subseteq> sc_completed (enqueue_node i s)"
  proof (cases "dn_id m = i")
    case True
    with node_of_Some [OF n(1)] have "m = n" using inv_node_eq [OF d inv m'] by metis
    with fresh show ?thesis by (simp add: enqueue_node_def)
  next
    case False
    with a inv_deps [OF inv m'] show ?thesis by (simp add: enqueue_node_def)
  qed
qed (use inv_shape [OF inv] inv_live [OF inv] inv_before [OF inv] inv_can [OF inv] inv_cannot [OF inv]
      in \<open>simp_all add: enqueue_node_def\<close>)

text \<open>The node at the end of its run, and the slot it leaves in the limiter.\<close>

definition leave_node :: "ident \<Rightarrow> bool \<Rightarrow> sched \<Rightarrow> sched" where
  "leave_node i c s = s\<lparr>sc_active := sc_active s - {i}, sc_releasing := sc_releasing s - {i},
     sc_inFlight := sc_inFlight s - 1,
     sc_completed := (if c then insert i (sc_completed s) else sc_completed s),
     sc_failed := (if c then sc_failed s else insert i (sc_failed s))\<rparr>"

lemma sets_invD:
  assumes "sets_inv s"
  shows "sc_completed s \<subseteq> set (node_ids s)" "sc_failed s \<subseteq> set (node_ids s)" "sc_active s \<subseteq> set (node_ids s)"
    "set (sc_queue s) \<subseteq> set (node_ids s)" "sc_releasing s \<subseteq> sc_active s" "distinct (sc_queue s)"
    "sc_active s \<subseteq> sc_scheduled s" "set (sc_queue s) \<subseteq> sc_scheduled s"
    "sc_scheduled s \<subseteq> sc_completed s \<union> sc_failed s \<union> sc_active s \<union> set (sc_queue s)"
    "sc_inFlight s = card (sc_active s) + length (sc_queue s)"
    "distinct (started s)" "set (started s) \<inter> set (sc_queue s) = {}" "set (started s) \<subseteq> sc_scheduled s"
    "sc_completed s \<inter> sc_failed s = {}" "sc_active s \<inter> sc_completed s = {}" "sc_active s \<inter> sc_failed s = {}"
    "set (sc_queue s) \<inter> sc_completed s = {}" "set (sc_queue s) \<inter> sc_failed s = {}" "set (sc_queue s) \<inter> sc_active s = {}"
  using assms unfolding sets_inv_def by (elim conjE; simp add: Int_Un_distrib; fail)+

lemma leave_sets:
  assumes sets: "sets_inv s" and i: "i \<in> sc_active s"
  shows "sets_inv (leave_node i c s)"
proof -
  note h = sets_invD [OF sets]
  have id: "i \<in> set (node_ids s)" "i \<notin> sc_completed s" "i \<notin> sc_failed s" "i \<notin> set (sc_queue s)"
    using h(3,15,16,19) i by auto
  have card: "0 < card (sc_active s)"
    using finite_sets [OF sets] i by (auto simp: card_gt_0_iff)
  have less: "sc_active s - {i} \<subseteq> set (node_ids s)" "sc_active s - {i} \<subseteq> sc_scheduled s"
    "(sc_active s - {i}) \<inter> sc_completed s = {}" "(sc_active s - {i}) \<inter> sc_failed s = {}"
    "set (sc_queue s) \<inter> (sc_active s - {i}) = {}" "sc_releasing s - {i} \<subseteq> sc_active s - {i}"
    "sc_scheduled s \<subseteq> insert i (sc_completed s \<union> sc_failed s \<union> (sc_active s - {i}) \<union> set (sc_queue s))"
    subgoal using h(3) by auto
    subgoal using h(7) by auto
    subgoal using h(15) by auto
    subgoal using h(16) by auto
    subgoal using h(19) by auto
    subgoal using h(5) by auto
    subgoal using h(9) by auto
    done
  have "node_ids (leave_node i c s) = node_ids s" "started (leave_node i c s) = started s"
    by (simp_all add: leave_node_def node_ids_def started_def)
  then show ?thesis unfolding sets_inv_def
    using h(1,2,4,6,8,10-14,17,18) less id i card
    by (cases c) (simp_all add: leave_node_def Int_Un_distrib)
qed

lemma leave_completed_inv:
  assumes inv: "sched_inv oc dag s" and i: "i \<in> sc_releasing s"
  shows "sched_inv oc dag (leave_node i True s)"
proof (rule inv_update [OF inv, where f = "\<lambda>n. n" and i = i])
  have a: "i \<in> sc_active s" "i \<notin> sc_failed s" "i \<notin> sc_completed s"
    using inv_sets [OF inv] i by (auto simp: sets_inv_def)
  show "sets_inv (leave_node i True s)" using leave_sets [OF inv_sets [OF inv] a(1)] .
  show "dn_status n = expected_status (leave_node i True s) i" if "n \<in> set (sc_dag s)" "dn_id n = i" for n
    using inv_status [OF inv that(1)] that(2) i a by (simp add: expected_status_def leave_node_def)
  show "\<not> can_complete oc dag k" if "k \<in> sc_failed (leave_node i True s)" for k
    using inv_cannot [OF inv] that by (simp add: leave_node_def)
  show "can_complete oc dag k" if "k \<in> sc_completed (leave_node i True s) \<union> sc_releasing (leave_node i True s)" for k
    using inv_can [OF inv] that i by (auto simp: leave_node_def)
qed (use inv_live [OF inv] in \<open>auto simp: leave_node_def expected_status_def upd_node_same\<close>)

lemma can_complete_node:
  assumes "can_complete oc dag (dn_id n)" "n \<in> set dag" "distinct (map dn_id dag)" "dn_status n \<noteq> NCompleted"
  shows "(\<exists>r. oc (dn_id n) = DispatchOk r) \<and> (\<forall>d \<in> set (dn_deps n). can_complete oc dag d)"
  using assms(1)
proof cases
  case (done_before m)
  with assms(2-4) show ?thesis by (metis distinct_key_eq)
next
  case (runs_ok m r)
  with assms(2,3) have "m = n" by (metis distinct_key_eq)
  with runs_ok show ?thesis by auto
qed

text \<open>What the invariant reads; events that start no node, progress and settlement do not touch it.\<close>

definition core where
  "core s = (sc_dag s, sc_completed s, sc_failed s, sc_scheduled s, sc_inFlight s, sc_limit s, sc_active s,
     sc_queue s, sc_releasing s, sc_aborted s, started s)"

lemma core_eq: "core t = core s \<Longrightarrow> sc_dag t = sc_dag s \<and> sc_completed t = sc_completed s
    \<and> sc_failed t = sc_failed s \<and> sc_scheduled t = sc_scheduled s \<and> sc_inFlight t = sc_inFlight s
    \<and> sc_limit t = sc_limit s \<and> sc_active t = sc_active s \<and> sc_queue t = sc_queue s
    \<and> sc_releasing t = sc_releasing s \<and> sc_aborted t = sc_aborted s \<and> started t = started s
    \<and> node_ids t = node_ids s \<and> expected_status t i = expected_status s i"
  by (simp add: core_def node_ids_def expected_status_def)

lemma inv_core: "core t = core s \<Longrightarrow> sched_inv oc dag t = sched_inv oc dag s"
proof -
  assume "core t = core s"
  note c = core_eq [OF this]
  have "expected_status t = expected_status s" using c by blast
  moreover have "sets_inv t = sets_inv s" using c by (simp only: sets_inv_def)
  ultimately show ?thesis using c by (simp only: sched_inv_def)
qed

lemma limiter_core: "core t = core s \<Longrightarrow> limiter_ok t = limiter_ok s"
  by (simp add: core_def limiter_ok_def)

lemma core_frame [simp]:
  "core (s\<lparr>sc_paymentFailed := p\<rparr>) = core s" "core (s\<lparr>sc_settled := b\<rparr>) = core s"
  "core (s\<lparr>sc_taskStatus := ts\<rparr>) = core s" "core (s\<lparr>sc_progress := ps\<rparr>) = core s"
  "core (reportProgress s) = core s"
  "(\<And>i. e \<noteq> NodeStarted i) \<Longrightarrow> core (bus_emit e s) = core s"
  by (simp_all add: core_def started_def reportProgress_def bus_emit_def split: dag_event.splits)

lemma finish_core [simp]: "core (finishIfSettled s) = core s \<or> sc_aborted s"
  by (simp add: finishIfSettled_def Let_def)

lemma fail_node_inv:
  assumes inv: "sched_inv oc dag s" and n: "node_of i s = Some n" "dn_status n = NPending"
    and s: "i \<notin> sc_active s \<union> set (sc_queue s)" and no: "\<not> can_complete oc dag i"
  shows "sched_inv oc dag ((upd_node i (\<lambda>n. n\<lparr>dn_status := NFailed, dn_error := Some e\<rparr>) s)\<lparr>sc_failed := insert i (sc_failed s)\<rparr>)"
    (is "sched_inv oc dag ?t")
proof (rule inv_update [OF inv, where f = "\<lambda>n. n\<lparr>dn_status := NFailed, dn_error := Some e\<rparr>" and i = i])
  have i: "n \<in> set (sc_dag s)" "dn_id n = i" using node_of_Some [OF n(1)] by auto
  note h = sets_invD [OF inv_sets [OF inv]]
  have c: "i \<notin> sc_completed s" using inv_can [OF inv] no by blast
  have id: "i \<in> set (node_ids s)" using i by (auto simp: node_ids_def)
  have more: "sc_scheduled s \<subseteq> sc_completed s \<union> insert i (sc_failed s) \<union> sc_active s \<union> set (sc_queue s)"
    using h(9) by auto
  have "node_ids ?t = node_ids s" "started ?t = started s" by (simp_all add: node_ids_upd)
  then show "sets_inv ?t" unfolding sets_inv_def
    using h more c id s by (simp add: Int_Un_distrib)
  show "dn_status (m\<lparr>dn_status := NFailed, dn_error := Some e\<rparr>) = expected_status ?t i" for m :: dag_node
    by (simp add: expected_status_def)
  show "expected_status ?t k = expected_status s k" if "k \<noteq> i" for k
    using that by (simp add: expected_status_def)
qed (use inv_live [OF inv] inv_can [OF inv] inv_cannot [OF inv] no in auto)

lemma fail_active_inv:
  assumes inv: "sched_inv oc dag s" and i: "i \<in> sc_active s" "i \<notin> sc_releasing s" and no: "\<not> can_complete oc dag i"
  shows "sched_inv oc dag (leave_node i False (upd_node i (\<lambda>n. n\<lparr>dn_status := NFailed, dn_error := Some e\<rparr>) s))"
    (is "sched_inv oc dag ?t")
proof (rule inv_update [OF inv, where f = "\<lambda>n. n\<lparr>dn_status := NFailed, dn_error := Some e\<rparr>" and i = i])
  have same: "sets_inv (upd_node i (\<lambda>n. n\<lparr>dn_status := NFailed, dn_error := Some e\<rparr>) s) = sets_inv s"
    by (simp add: sets_inv_def node_ids_upd)
  show "sets_inv ?t" by (rule leave_sets) (use same inv_sets [OF inv] i in simp_all)
  show "dn_status (m\<lparr>dn_status := NFailed, dn_error := Some e\<rparr>) = expected_status ?t i" for m :: dag_node
    by (simp add: expected_status_def leave_node_def)
  show "expected_status ?t k = expected_status s k" if "k \<noteq> i" for k
    using that by (simp add: expected_status_def leave_node_def)
qed (use inv_live [OF inv] inv_can [OF inv] inv_cannot [OF inv] no in \<open>auto simp: leave_node_def\<close>)

lemma dispatch_ok_inv:
  assumes inv: "sched_inv oc dag s" and i: "i \<in> sc_active s" "i \<notin> sc_releasing s" and can: "can_complete oc dag i"
  shows "sched_inv oc dag ((upd_node i (\<lambda>n. n\<lparr>dn_status := NCompleted, dn_result := Some r\<rparr>) s)\<lparr>sc_releasing := insert i (sc_releasing s)\<rparr>)"
    (is "sched_inv oc dag ?t")
proof (rule inv_update [OF inv, where f = "\<lambda>n. n\<lparr>dn_status := NCompleted, dn_result := Some r\<rparr>" and i = i])
  note h = sets_invD [OF inv_sets [OF inv]]
  have "node_ids ?t = node_ids s" "started ?t = started s" by (simp_all add: node_ids_upd)
  then show "sets_inv ?t" unfolding sets_inv_def using h i by (simp add: Int_Un_distrib)
  show "dn_status (m\<lparr>dn_status := NCompleted, dn_result := Some r\<rparr>) = expected_status ?t i" for m :: dag_node
    using h(16) i by (auto simp add: expected_status_def)
  show "expected_status ?t k = expected_status s k" if "k \<noteq> i" for k
    using that by (simp add: expected_status_def)
qed (use inv_live [OF inv] inv_can [OF inv] inv_cannot [OF inv] can in auto)

subsection \<open>The loops of the scheduler\<close>

definition schedule_one :: "ident \<Rightarrow> sched \<Rightarrow> sched" where
  "schedule_one i s = limiter_run i (s\<lparr>sc_scheduled := insert i (sc_scheduled s), sc_inFlight := sc_inFlight s + 1\<rparr>)"

lemma schedule_one_cases:
  "schedule_one i s = (if card (sc_active s) < sc_limit s
     then run_start i ((enqueue_node i s)\<lparr>sc_queue := sc_queue s\<rparr>) else enqueue_node i s)"
  by (simp add: schedule_one_def limiter_run_def enqueue_node_def)

lemma schedule_one_inv:
  assumes d: "distinct (map dn_id dag)" and inv: "sched_inv oc dag s" and lim: "limiter_ok s"
    and n: "node_of i s = Some n" "node_ready n s"
  shows "sched_inv oc dag (schedule_one i s) \<and> limiter_ok (schedule_one i s)"
proof -
  note enq = enqueue_inv [OF d inv n] and fresh = ready_fresh [OF inv n]
  have fin: "finite (sc_active s)" using finite_sets [OF inv_sets [OF inv]] by simp
  show ?thesis
  proof (cases "card (sc_active s) < sc_limit s")
    case True
    with lim have q: "sc_queue s = []" by (auto simp: limiter_ok_def)
    from start_head_inv [OF enq, of i "[]"] q True fresh(4) fin show ?thesis
      by (simp add: schedule_one_cases enqueue_node_def limiter_ok_def)
  next
    case False
    with enq lim show ?thesis by (simp add: schedule_one_cases limiter_ok_def enqueue_node_def)
  qed
qed

definition ready_at :: "ident \<Rightarrow> sched \<Rightarrow> bool" where
  "ready_at i s \<longleftrightarrow> (case node_of i s of None \<Rightarrow> False | Some n \<Rightarrow> node_ready n s)"

lemma ready_atD: "ready_at i s \<Longrightarrow> \<exists>n. node_of i s = Some n \<and> node_ready n s"
  by (simp add: ready_at_def split: option.splits)

text \<open>What a pass of either loop leaves alone.\<close>

definition same_run :: "sched \<Rightarrow> sched \<Rightarrow> bool" where
  "same_run s t \<longleftrightarrow> sc_completed t = sc_completed s \<and> sc_settled t = sc_settled s \<and> node_ids t = node_ids s
     \<and> sc_releasing t = sc_releasing s \<and> sc_limit t = sc_limit s \<and> sc_taskStatus t = sc_taskStatus s
     \<and> sc_paymentFailed t = sc_paymentFailed s"

lemma same_run_refl [simp]: "same_run s s" by (simp add: same_run_def)

lemma same_run_trans: "same_run s t \<Longrightarrow> same_run t u \<Longrightarrow> same_run s u" by (simp add: same_run_def)

lemma schedule_one_frame [simp]:
  "sc_failed (schedule_one i s) = sc_failed s" "sc_inFlight (schedule_one i s) = Suc (sc_inFlight s)"
  "same_run s (schedule_one i s)" "sc_scheduled (schedule_one i s) = insert i (sc_scheduled s)"
  by (simp_all add: schedule_one_cases enqueue_node_def same_run_def)

lemma node_of_schedule_one:
  "node_of k (schedule_one i s) = Some n' \<Longrightarrow> \<exists>n. node_of k s = Some n \<and> dn_id n = dn_id n' \<and> dn_deps n = dn_deps n'
     \<and> (dn_status n' = NPending \<longrightarrow> dn_status n = NPending)"
  by (auto simp: schedule_one_cases enqueue_node_def node_of_def run_start_def upd_node_def row_by_update
      split: if_splits)

lemma ready_antitone: "ready_at k (schedule_one i s) \<Longrightarrow> ready_at k s \<and> k \<noteq> i"
proof -
  assume "ready_at k (schedule_one i s)"
  then obtain n' where n': "node_of k (schedule_one i s) = Some n'" "node_ready n' (schedule_one i s)"
    using ready_atD by blast
  obtain n where n: "node_of k s = Some n" "dn_id n = dn_id n'" "dn_deps n = dn_deps n'"
    "dn_status n' = NPending \<longrightarrow> dn_status n = NPending"
    using node_of_schedule_one [OF n'(1)] by blast
  have k: "dn_id n = k" using node_of_Some [OF n(1)] by simp
  have "sc_completed (schedule_one i s) = sc_completed s"
    using schedule_one_frame(3) [of s i] by (simp add: same_run_def)
  with n' n k show ?thesis by (simp add: ready_at_def node_ready_def)
qed

lemma schedule_loop_step: "schedule_loop (i # is) s
    = (if ready_at i s then (fst (schedule_loop is (schedule_one i s)), True) else schedule_loop is s)"
  by (simp add: ready_at_def schedule_one_def)

declare schedule_loop.simps(2) [simp del]

lemma schedule_loop_inv:
  assumes "distinct (map dn_id dag)"
  shows "sched_inv oc dag s \<Longrightarrow> limiter_ok s \<Longrightarrow> schedule_loop is s = (s', any) \<Longrightarrow>
    sched_inv oc dag s' \<and> limiter_ok s' \<and> same_run s s' \<and> sc_failed s' = sc_failed s
    \<and> sc_inFlight s \<le> sc_inFlight s' \<and> (any \<longrightarrow> 0 < sc_inFlight s') \<and> (\<not> any \<longrightarrow> s' = s)
    \<and> (\<forall>k. ready_at k s' \<longrightarrow> ready_at k s \<and> k \<notin> set is)"
proof (induction "is" arbitrary: s any)
  case (Cons i "is")
  show ?case
  proof (cases "ready_at i s")
    case True
    then obtain n where n: "node_of i s = Some n" "node_ready n s" using ready_atD by blast
    obtain b where l: "schedule_loop is (schedule_one i s) = (s', b)" "any"
      using Cons.prems(3) True by (cases "schedule_loop is (schedule_one i s)") (auto simp: schedule_loop_step)
    note one = schedule_one_inv [OF assms Cons.prems(1,2) n]
    note IH = Cons.IH [OF conjunct1 [OF one] conjunct2 [OF one] l(1)]
    have "\<forall>k. ready_at k s' \<longrightarrow> ready_at k s \<and> k \<notin> set (i # is)"
      using IH ready_antitone by (metis set_ConsD)
    with IH l(2) same_run_trans [OF schedule_one_frame(3) [of s i], of s'] show ?thesis by simp
  next
    case False
    then have "schedule_loop is s = (s', any)" using Cons.prems(3) by (simp add: schedule_loop_step)
    from Cons.IH [OF Cons.prems(1,2) this] False show ?thesis by auto
  qed
qed simp

lemma dag_node_of:
  assumes d: "distinct (map dn_id dag)" and inv: "sched_inv oc dag s" and n0: "n0 \<in> set dag"
  obtains n where "node_of (dn_id n0) s = Some n" "dn_id n = dn_id n0" "dn_deps n = dn_deps n0"
proof -
  have "dn_id n0 \<in> set (node_ids s)" using shape_ids [OF inv_shape [OF inv]] n0 by simp
  then obtain n where n: "node_of (dn_id n0) s = Some n" using node_of_id by blast
  from node_of_Some [OF n] have "n \<in> set (sc_dag s)" "dn_id n = dn_id n0" by auto
  from inv_same_node [OF d inv this(1)] this(2) obtain m where "m \<in> set dag" "dn_id m = dn_id n0" "dn_deps m = dn_deps n"
    by metis
  with d n0 have "m = n0" by (metis distinct_key_eq)
  with that [OF n] \<open>dn_id n = dn_id n0\<close> \<open>dn_deps m = dn_deps n\<close> show ?thesis by simp
qed

lemma pending_not_scheduled:
  assumes inv: "sched_inv oc dag s" and n: "node_of i s = Some n" "dn_status n = NPending"
  shows "i \<notin> sc_completed s" "i \<notin> sc_failed s" "i \<notin> sc_active s" "i \<notin> sc_releasing s"
    "i \<in> sc_scheduled s \<longleftrightarrow> i \<in> set (sc_queue s)"
proof -
  have i: "n \<in> set (sc_dag s)" "dn_id n = i" using node_of_Some [OF n(1)] by auto
  have "expected_status s i = NPending" using inv_status [OF inv i(1)] i(2) n(2) by simp
  then show h: "i \<notin> sc_completed s" "i \<notin> sc_failed s" "i \<notin> sc_active s" "i \<notin> sc_releasing s"
    by (auto simp: expected_status_def split: if_splits)
  show "i \<in> sc_scheduled s \<longleftrightarrow> i \<in> set (sc_queue s)"
    using sets_invD(8,9) [OF inv_sets [OF inv]] h by auto
qed

definition stuck :: "sched \<Rightarrow> bool" where
  "stuck s \<longleftrightarrow> sc_inFlight s = 0 \<and> (\<forall>k. \<not> ready_at k s)"

lemma idle_sets: "sched_inv oc dag s \<Longrightarrow> sc_inFlight s = 0 \<Longrightarrow> sc_active s = {} \<and> sc_queue s = [] \<and> sc_releasing s = {}"
  using sets_invD(5,10) [OF inv_sets] finite_sets [OF inv_sets] by fastforce

lemma stuck_done:
  assumes d: "distinct (map dn_id dag)" and inv: "sched_inv oc dag s" and st: "stuck s"
  shows "can_complete oc dag i \<Longrightarrow> i \<in> sc_completed s"
proof (induction rule: can_complete.induct)
  case (done_before n)
  then show ?case using inv_before [OF inv] by blast
next
  case (runs_ok n0 r)
  then have can: "can_complete oc dag (dn_id n0)" by (meson can_complete.runs_ok)
  obtain n where n: "node_of (dn_id n0) s = Some n" "dn_id n = dn_id n0" "dn_deps n = dn_deps n0"
    using dag_node_of [OF d inv runs_ok(1)] by metis
  have idle: "sc_active s = {}" "sc_queue s = []" "sc_releasing s = {}"
    using idle_sets [OF inv] st by (simp_all add: stuck_def)
  show ?case
  proof (rule ccontr)
    assume no: "dn_id n0 \<notin> sc_completed s"
    have "expected_status s (dn_id n0) = NPending"
      using no inv_cannot [OF inv] can idle by (auto simp: expected_status_def)
    with inv_status [OF inv] node_of_Some [OF n(1)] have "dn_status n = NPending" by metis
    with pending_not_scheduled [OF inv n(1)] n runs_ok(3) idle have "node_ready n s"
      by (simp add: node_ready_def)
    with n(1) have "ready_at (dn_id n0) s" by (simp add: ready_at_def)
    with st show False by (simp add: stuck_def)
  qed
qed

lemma blocked_cannot:
  assumes d: "distinct (map dn_id dag)" and inv: "sched_inv oc dag s"
    and n: "node_of i s = Some n" "dn_status n = NPending" "blocked dl n s" and dl: "dl \<longrightarrow> stuck s"
  shows "\<not> can_complete oc dag i"
proof
  assume can: "can_complete oc dag i"
  have i: "n \<in> set (sc_dag s)" "dn_id n = i" using node_of_Some [OF n(1)] by auto
  obtain n0 where n0: "n0 \<in> set dag" "dn_id n0 = i" "dn_deps n0 = dn_deps n"
    using inv_same_node [OF d inv i(1)] i(2) by metis
  have "dn_status n0 \<noteq> NCompleted"
    using inv_before [OF inv n0(1)] pending_not_scheduled(1) [OF inv n(1,2)] n0(2) by auto
  then have deps: "\<forall>d \<in> set (dn_deps n). can_complete oc dag d"
    using can_complete_node [of oc dag n0] can n0 d by simp
  from n(3) obtain d where d': "d \<in> set (dn_deps n)"
    "d \<in> sc_failed s \<or> d \<notin> set (node_ids s) \<or> dl \<and> d \<notin> sc_completed s"
    by (auto simp: blocked_def)
  with deps have can_d: "can_complete oc dag d" by blast
  have "d \<in> set (node_ids s)" using can_complete_id [OF can_d] shape_ids [OF inv_shape [OF inv]] by simp
  with d'(2) can_d inv_cannot [OF inv, of d] stuck_done [OF d inv _ can_d] dl show False by blast
qed

definition fail_one :: "bool \<Rightarrow> ident \<Rightarrow> sched \<Rightarrow> sched" where
  "fail_one dl i s = (case node_of i s of None \<Rightarrow> s | Some n \<Rightarrow>
     if dn_status n \<noteq> NPending \<or> \<not> blocked dl n s then s
     else let e = blocked_error n s in bus_emit (NodeFailed i e)
       ((upd_node i (\<lambda>n. n\<lparr>dn_status := NFailed, dn_error := Some e\<rparr>) s)\<lparr>sc_failed := insert i (sc_failed s)\<rparr>))"

lemma fail_loop_step: "fail_loop dl (i # is) s = fail_loop dl is (fail_one dl i s)"
  by (simp add: fail_one_def Let_def split: option.split)

declare fail_loop.simps(2) [simp del]

definition pending_at :: "ident \<Rightarrow> sched \<Rightarrow> bool" where
  "pending_at i s \<longleftrightarrow> (\<exists>n. node_of i s = Some n \<and> dn_status n = NPending)"

definition idle_same :: "sched \<Rightarrow> sched \<Rightarrow> bool" where
  "idle_same s t \<longleftrightarrow> same_run s t \<and> sc_inFlight t = sc_inFlight s \<and> sc_active t = sc_active s
     \<and> sc_queue t = sc_queue s \<and> sc_scheduled t = sc_scheduled s \<and> sc_failed s \<subseteq> sc_failed t
     \<and> (\<forall>k. pending_at k t \<longrightarrow> pending_at k s) \<and> (\<forall>k. ready_at k t \<longrightarrow> ready_at k s)"

lemma idle_same_refl [simp]: "idle_same s s" by (simp add: idle_same_def)

lemma idle_same_trans: "idle_same s t \<Longrightarrow> idle_same t u \<Longrightarrow> idle_same s u"
  unfolding idle_same_def by (auto intro: same_run_trans)

lemma idle_same_fail:
  "idle_same s (bus_emit (NodeFailed i e)
     ((upd_node i (\<lambda>n. n\<lparr>dn_status := NFailed, dn_error := Some e\<rparr>) s)\<lparr>sc_failed := insert i (sc_failed s)\<rparr>))"
  (is "idle_same s ?t")
proof -
  have no: "node_of k ?t = map_option (\<lambda>n. if dn_id n = i then n\<lparr>dn_status := NFailed, dn_error := Some e\<rparr> else n) (node_of k s)" for k
    by (simp add: node_of_def upd_node_def row_by_update)
  have "pending_at k ?t \<longrightarrow> pending_at k s" for k
    unfolding pending_at_def no by (auto split: if_splits)
  moreover have "ready_at k ?t \<longrightarrow> ready_at k s" for k
    unfolding ready_at_def no by (auto simp: node_ready_def split: option.splits if_splits)
  ultimately show ?thesis by (auto simp: idle_same_def same_run_def node_ids_upd)
qed

lemma idle_same_fail_one: "idle_same s (fail_one dl i s)"
  unfolding fail_one_def by (simp add: idle_same_fail Let_def split: option.split)

lemma stuck_same: "stuck s \<Longrightarrow> idle_same s t \<Longrightarrow> stuck t"
  by (auto simp: stuck_def idle_same_def)

lemma limiter_same: "limiter_ok s \<Longrightarrow> idle_same s t \<Longrightarrow> limiter_ok t"
  by (auto simp: limiter_ok_def idle_same_def same_run_def)

lemma stuck_blocked:
  assumes inv: "sched_inv oc dag s" and st: "stuck s" and n: "node_of i s = Some n" "dn_status n = NPending"
  shows "blocked True n s"
proof -
  have "i \<notin> sc_scheduled s" using pending_not_scheduled(5) [OF inv n] idle_sets [OF inv] st by (auto simp: stuck_def)
  moreover have "dn_id n = i" using node_of_Some [OF n(1)] by simp
  moreover have "\<not> node_ready n s"
  proof
    assume "node_ready n s"
    with n(1) have "ready_at i s" by (simp add: ready_at_def)
    with st show False by (simp add: stuck_def)
  qed
  ultimately have "\<not> (\<forall>d \<in> set (dn_deps n). d \<in> sc_completed s)" using n(2) by (simp add: node_ready_def)
  with st show ?thesis by (simp add: blocked_def stuck_def)
qed

lemma fail_one_inv:
  assumes d: "distinct (map dn_id dag)" and inv: "sched_inv oc dag s" and dl: "dl \<longrightarrow> stuck s"
  shows "sched_inv oc dag (fail_one dl i s) \<and> (dl \<longrightarrow> \<not> pending_at i (fail_one dl i s))"
proof (cases "node_of i s")
  case None
  then show ?thesis using inv by (simp add: fail_one_def pending_at_def)
next
  case (Some n)
  show ?thesis
  proof (cases "dn_status n = NPending \<and> blocked dl n s")
    case True
    note no = blocked_cannot [OF d inv Some conjunct1 [OF True] conjunct2 [OF True] dl]
    have "sched_inv oc dag (fail_one dl i s) \<longleftrightarrow> sched_inv oc dag
        ((upd_node i (\<lambda>m. m\<lparr>dn_status := NFailed, dn_error := Some (blocked_error n s)\<rparr>) s)\<lparr>sc_failed := insert i (sc_failed s)\<rparr>)"
      by (rule inv_core) (use Some True in \<open>simp add: fail_one_def Let_def\<close>)
    moreover have "i \<notin> sc_active s \<union> set (sc_queue s)"
    proof
      assume "i \<in> sc_active s \<union> set (sc_queue s)"
      then have "set (dn_deps n) \<subseteq> sc_completed s" using inv_deps [OF inv] node_of_Some [OF Some] by metis
      moreover have "sc_inFlight s \<noteq> 0" using \<open>i \<in> sc_active s \<union> set (sc_queue s)\<close> idle_sets [OF inv] by fastforce
      ultimately show False
        using True inv_sets [OF inv] by (auto simp: blocked_def sets_inv_def)
    qed
    moreover have "\<not> pending_at i (fail_one dl i s)"
      using Some True node_of_Some [OF Some]
      by (auto simp: pending_at_def fail_one_def Let_def node_of_def upd_node_def row_by_update)
    ultimately show ?thesis using fail_node_inv [OF inv Some _ _ no] True by blast
  next
    case False
    then have "fail_one dl i s = s" using Some by (auto simp: fail_one_def)
    with False inv stuck_blocked [OF inv _ Some] dl Some show ?thesis by (auto simp: pending_at_def)
  qed
qed

lemma fail_loop_inv:
  assumes d: "distinct (map dn_id dag)"
  shows "sched_inv oc dag s \<Longrightarrow> (dl \<longrightarrow> stuck s) \<Longrightarrow> s' = fail_loop dl is s
    \<Longrightarrow> sched_inv oc dag s' \<and> idle_same s s' \<and> (dl \<longrightarrow> (\<forall>i \<in> set is. \<not> pending_at i s'))"
proof (induction "is" arbitrary: s)
  case (Cons i "is")
  note one = fail_one_inv [OF d Cons.prems(1,2), of i] and same = idle_same_fail_one [of s dl i]
  have "dl \<longrightarrow> stuck (fail_one dl i s)" using Cons.prems(2) stuck_same [OF _ same] by blast
  from Cons.IH [OF conjunct1 [OF one] this] Cons.prems(3)
  have IH: "sched_inv oc dag s'" "idle_same (fail_one dl i s) s'" "dl \<longrightarrow> (\<forall>i \<in> set is. \<not> pending_at i s')"
    by (simp_all add: fail_loop_step)
  moreover have "dl \<longrightarrow> \<not> pending_at i s'" using one IH(2) by (auto simp: idle_same_def)
  ultimately show ?case using idle_same_trans [OF same] by auto
qed simp

subsection \<open>Settlement\<close>

definition run_inv :: "(ident \<Rightarrow> run_outcome) \<Rightarrow> nat \<Rightarrow> dag_node list \<Rightarrow> sched \<Rightarrow> bool" where
  "run_inv oc limit dag s \<longleftrightarrow> sched_inv oc dag s \<and> limiter_ok s \<and> sc_limit s = limit
     \<and> (if sc_settled s
        then sc_inFlight s = 0 \<and> sc_completed s \<union> sc_failed s = set (node_ids s)
          \<and> sc_taskStatus s \<in> {TCompleted, TFailed, TPaymentFailed} \<and> (sc_taskStatus s = TFailed \<longleftrightarrow> sc_failed s \<noteq> {})
        else 0 < sc_inFlight s)"

lemma settled_count:
  assumes d: "distinct (map dn_id dag)" and inv: "sched_inv oc dag s"
  shows "card (sc_completed s) + card (sc_failed s) = length (sc_dag s)
    \<longleftrightarrow> sc_completed s \<union> sc_failed s = set (node_ids s)"
proof -
  have ids: "distinct (node_ids s)" using d shape_ids [OF inv_shape [OF inv]] by simp
  have "card (set (node_ids s)) = length (sc_dag s)" using distinct_card [OF ids] by (simp add: node_ids_def)
  moreover have "card (sc_completed s) + card (sc_failed s) = card (sc_completed s \<union> sc_failed s)"
    using finite_sets [OF inv_sets [OF inv]] sets_invD(14) [OF inv_sets [OF inv]] by (simp add: card_Un_disjoint)
  moreover have "sc_completed s \<union> sc_failed s \<subseteq> set (node_ids s)"
    using sets_invD(1,2) [OF inv_sets [OF inv]] by simp
  ultimately show ?thesis by (metis List.finite_set card_subset_eq)
qed

lemma finish_busy:
  assumes d: "distinct (map dn_id dag)" and inv: "sched_inv oc dag s" and f: "0 < sc_inFlight s"
  shows "finishIfSettled s = s"
proof -
  note h = sets_invD [OF inv_sets [OF inv]]
  have "sc_active s \<union> set (sc_queue s) \<noteq> {}" using f h(10) by auto
  then obtain i where "i \<in> sc_active s \<union> set (sc_queue s)" by (metis ex_in_conv)
  then have "i \<in> set (node_ids s)" "i \<notin> sc_completed s \<union> sc_failed s" using h by auto
  with settled_count [OF d inv] have "card (sc_completed s) + card (sc_failed s) \<noteq> length (sc_dag s)" by blast
  with inv_live [OF inv] show ?thesis by (simp add: finishIfSettled_def)
qed

lemma all_settled:
  assumes inv: "sched_inv oc dag s" and idle: "sc_inFlight s = 0" and none: "\<forall>i \<in> set (node_ids s). \<not> pending_at i s"
  shows "sc_completed s \<union> sc_failed s = set (node_ids s)"
proof
  show "sc_completed s \<union> sc_failed s \<subseteq> set (node_ids s)" using sets_invD(1,2) [OF inv_sets [OF inv]] by simp
  show "set (node_ids s) \<subseteq> sc_completed s \<union> sc_failed s"
  proof
    fix i assume i: "i \<in> set (node_ids s)"
    then obtain n where n: "node_of i s = Some n" using node_of_id by blast
    with none i have "dn_status n \<noteq> NPending" by (auto simp: pending_at_def)
    moreover have "dn_status n = expected_status s i" using inv_status [OF inv] node_of_Some [OF n] by metis
    ultimately show "i \<in> sc_completed s \<union> sc_failed s"
      using idle_sets [OF inv idle] by (auto simp: expected_status_def split: if_splits)
  qed
qed

lemma finish_run:
  assumes d: "distinct (map dn_id dag)" and inv: "sched_inv oc dag s" "limiter_ok s"
    and idle: "sc_inFlight s = 0" "\<not> sc_settled s" and all: "sc_completed s \<union> sc_failed s = set (node_ids s)"
  shows "run_inv oc (sc_limit s) dag (finishIfSettled s)"
proof -
  have card: "card (sc_completed s) + card (sc_failed s) = length (sc_dag s)" using settled_count [OF d inv(1)] all by simp
  have core: "core (finishIfSettled s) = core s" using finish_core inv_live [OF inv(1)] by blast
  have "sc_settled (finishIfSettled s) \<and> sc_taskStatus (finishIfSettled s) \<in> {TCompleted, TFailed, TPaymentFailed}
      \<and> (sc_taskStatus (finishIfSettled s) = TFailed \<longleftrightarrow> 0 < card (sc_failed s))"
    using card idle(2) inv_live [OF inv(1)] by (simp add: finishIfSettled_def Let_def)
  moreover have "0 < card (sc_failed s) \<longleftrightarrow> sc_failed s \<noteq> {}"
    using finite_sets [OF inv_sets [OF inv(1)]] by (simp add: card_gt_0_iff)
  ultimately show ?thesis
    using core_eq [OF core] inv_core [OF core, of oc dag] limiter_core [OF core] inv idle all
    by (auto simp: run_inv_def)
qed

lemma ready_at_id: "ready_at k s \<Longrightarrow> k \<in> set (node_ids s)"
  using ready_atD node_of_Some by (force simp: node_ids_def)

lemma schedule_run:
  assumes d: "distinct (map dn_id dag)" and inv: "sched_inv oc dag s" "limiter_ok s" "\<not> sc_settled s"
  shows "run_inv oc (sc_limit s) dag (scheduleReadyNodes s)"
proof -
  obtain t any where l: "schedule_loop (node_ids s) s = (t, any)" by fastforce
  note loop = schedule_loop_inv [OF d inv(1,2) l]
  show ?thesis
  proof (cases "\<not> any \<and> sc_inFlight t = 0")
    case True
    then have t: "t = s" "sc_inFlight s = 0" using loop by auto
    have "stuck s" unfolding stuck_def using loop t ready_at_id by blast
    let ?u = "fail_loop True (node_ids s) s"
    from fail_loop_inv [OF d inv(1), of True ?u "node_ids s"] \<open>stuck s\<close>
    have u: "sched_inv oc dag ?u" "idle_same s ?u" "\<forall>i \<in> set (node_ids s). \<not> pending_at i ?u" by simp_all
    have same: "node_ids ?u = node_ids s" "sc_inFlight ?u = 0" "sc_settled ?u = sc_settled s" "sc_limit ?u = sc_limit s"
      using u(2) t by (simp_all add: idle_same_def same_run_def)
    have "run_inv oc (sc_limit s) dag (finishIfSettled ?u)"
      using finish_run [OF d u(1) limiter_same [OF inv(2) u(2)]] all_settled [OF u(1)] u(3) same inv(3) by simp
    with True t l inv_live [OF inv(1)] show ?thesis
      by (simp add: scheduleReadyNodes_def failBlockedNodes_def)
  next
    case False
    then have "0 < sc_inFlight t" using loop by auto
    with False l inv_live [OF inv(1)] loop inv(3) show ?thesis
      by (simp add: scheduleReadyNodes_def run_inv_def same_run_def)
  qed
qed

text \<open>The second pass after a node returned adds failures only, and settles nothing by itself.\<close>

lemma sweep_run:
  assumes d: "distinct (map dn_id dag)" and run: "run_inv oc limit dag s"
  shows "run_inv oc limit dag (finishIfSettled (failBlockedNodes False s))"
proof -
  let ?u = "fail_loop False (node_ids s) s"
  have inv: "sched_inv oc dag s" using run by (simp add: run_inv_def)
  from fail_loop_inv [OF d inv, of False ?u "node_ids s"]
  have u: "sched_inv oc dag ?u" "idle_same s ?u" by simp_all
  have same: "node_ids ?u = node_ids s" "sc_inFlight ?u = sc_inFlight s" "sc_settled ?u = sc_settled s"
    "sc_limit ?u = sc_limit s" "sc_completed ?u = sc_completed s" "sc_taskStatus ?u = sc_taskStatus s"
    "sc_failed s \<subseteq> sc_failed ?u"
    using u(2) by (simp_all add: idle_same_def same_run_def)
  have lim: "limiter_ok ?u" using limiter_same [OF _ u(2)] run by (simp add: run_inv_def)
  show ?thesis
  proof (cases "sc_settled s")
    case True
    with run have all: "sc_completed s \<union> sc_failed s = set (node_ids s)" by (simp add: run_inv_def)
    have "sc_failed ?u \<subseteq> set (node_ids s)" "sc_completed s \<inter> sc_failed ?u = {}"
      using sets_invD(2,14) [OF inv_sets [OF u(1)]] unfolding same(1,5) by simp_all
    with all have "sc_failed ?u \<subseteq> sc_failed s" by blast
    from this same(7) have "sc_failed ?u = sc_failed s" by (rule subset_antisym)
    moreover have "finishIfSettled ?u = ?u" using True same by (simp add: finishIfSettled_def)
    ultimately show ?thesis using run True same u(1) lim by (auto simp: run_inv_def failBlockedNodes_def)
  next
    case False
    with run same have "0 < sc_inFlight ?u" by (simp add: run_inv_def)
    with finish_busy [OF d u(1)] False run same u(1) lim show ?thesis
      by (simp add: run_inv_def failBlockedNodes_def)
  qed
qed

subsection \<open>Steps and runs\<close>

definition depart :: "ident \<Rightarrow> bool \<Rightarrow> sched \<Rightarrow> sched" where
  "depart i c s = (let t = leave_node i c s in
     case sc_queue t of [] \<Rightarrow> t | j # js \<Rightarrow> run_start j (t\<lparr>sc_queue := js\<rparr>))"

lemma depart_inv:
  assumes inv: "sched_inv oc dag (leave_node i c s)" and lim: "limiter_ok s" and sets: "sets_inv s" and i: "i \<in> sc_active s"
  shows "sched_inv oc dag (depart i c s) \<and> limiter_ok (depart i c s) \<and> sc_limit (depart i c s) = sc_limit s
    \<and> sc_settled (depart i c s) = sc_settled s"
proof -
  have fin: "finite (sc_active s)" using finite_sets [OF sets] by simp
  have card: "card (sc_active s) = Suc (card (sc_active s - {i}))" using fin i by (metis card_Suc_Diff1)
  show ?thesis
  proof (cases "sc_queue s")
    case Nil
    with inv lim card show ?thesis by (simp add: depart_def leave_node_def limiter_ok_def)
  next
    case (Cons j js)
    have "j \<notin> sc_active s" using sets Cons by (auto simp: sets_inv_def)
    then have "card (insert j (sc_active s - {i})) = Suc (card (sc_active s - {i}))" using fin by simp
    moreover have "sc_queue (leave_node i c s) = j # js" using Cons by (simp add: leave_node_def)
    ultimately show ?thesis
      using start_head_inv [OF inv] lim card Cons by (simp add: depart_def leave_node_def limiter_ok_def)
  qed
qed

text \<open>The state in which the scheduler looks again after a node returned.\<close>

definition resumed :: "ident \<Rightarrow> bool \<Rightarrow> sched \<Rightarrow> sched" where
  "resumed i completed s =
     (let s1 = (if completed then reportProgress (s\<lparr>sc_completed := insert i (sc_completed s)\<rparr>)
                else s\<lparr>sc_failed := insert i (sc_failed s)\<rparr>);
          s2 = limiter_done i s1
      in s2\<lparr>sc_inFlight := sc_inFlight s2 - 1\<rparr>)"

lemma node_returned_resumed:
  "node_returned i c s = finishIfSettled (failBlockedNodes False (scheduleReadyNodes (resumed i c s)))"
  by (simp add: node_returned_def resumed_def Let_def)

lemma resumed_core:
  assumes "i \<notin> sc_releasing s"
  shows "core (resumed i c s) = core (depart i c s)" "sc_settled (resumed i c s) = sc_settled s"
  using assms
  by (auto simp: resumed_def depart_def leave_node_def limiter_done_def reportProgress_def Let_def core_def
      run_start_def upd_node_def bus_emit_def started_def split: list.splits)

lemma returned_run:
  assumes d: "distinct (map dn_id dag)" and inv: "sched_inv oc dag (leave_node i c s)" "limiter_ok s" "sets_inv s"
    and i: "i \<in> sc_active s" "i \<notin> sc_releasing s" "\<not> sc_settled s"
  shows "run_inv oc (sc_limit s) dag (node_returned i c s)"
proof -
  note dep = depart_inv [OF inv i(1)] and core = resumed_core [OF i(2), of c]
  have "sched_inv oc dag (resumed i c s)" "limiter_ok (resumed i c s)" "sc_limit (resumed i c s) = sc_limit s"
    using dep inv_core [OF core(1)] limiter_core [OF core(1)] core_eq [OF core(1)] by simp_all
  with schedule_run [OF d, of oc "resumed i c s"] core(2) i(3) sweep_run [OF d]
  show ?thesis unfolding node_returned_resumed by simp
qed

definition failed_node :: "ident \<Rightarrow> string \<Rightarrow> sched \<Rightarrow> sched" where
  "failed_node i e s = bus_emit (NodeFailed i e) (upd_node i (\<lambda>n. n\<lparr>dn_status := NFailed, dn_error := Some e\<rparr>) s)"

lemma dispatched_unfold: "node_dispatched i (DispatchFailed e) s = node_returned i False (failed_node i e s)"
  by (simp add: node_dispatched_def failed_node_def)

lemma failed_node_frame [simp]:
  "sc_completed (failed_node i e s) = sc_completed s" "sc_failed (failed_node i e s) = sc_failed s"
  "sc_active (failed_node i e s) = sc_active s" "sc_releasing (failed_node i e s) = sc_releasing s"
  "sc_settled (failed_node i e s) = sc_settled s" "sc_limit (failed_node i e s) = sc_limit s"
  by (simp_all add: failed_node_def)

definition released_node :: "ident \<Rightarrow> bool \<Rightarrow> sched \<Rightarrow> sched" where
  "released_node i paid s = (let s1 = s\<lparr>sc_releasing := sc_releasing s - {i}\<rparr>
     in if paid then bus_emit (PaymentReleased i) s1 else s1\<lparr>sc_paymentFailed := True\<rparr>)"

lemma released_unfold: "node_released i paid s = node_returned i True (released_node i paid s)"
  by (simp add: node_released_def released_node_def Let_def)

lemma released_node_frame [simp]:
  "sc_completed (released_node i p s) = sc_completed s" "sc_failed (released_node i p s) = sc_failed s"
  "sc_active (released_node i p s) = sc_active s" "sc_releasing (released_node i p s) = sc_releasing s - {i}"
  "sc_settled (released_node i p s) = sc_settled s" "sc_limit (released_node i p s) = sc_limit s"
  by (simp_all add: released_node_def Let_def)

lemma run_invD:
  assumes "run_inv oc limit dag s"
  shows "sched_inv oc dag s" "limiter_ok s" "sc_limit s = limit" "sets_inv s"
    "i \<in> sc_active s \<Longrightarrow> \<not> sc_settled s"
proof -
  show h: "sched_inv oc dag s" "limiter_ok s" "sc_limit s = limit" using assms by (simp_all add: run_inv_def)
  then show sets: "sets_inv s" by (simp add: inv_sets)
  show "i \<in> sc_active s \<Longrightarrow> \<not> sc_settled s"
    using assms sets_invD(10) [OF sets] finite_sets [OF sets] by (auto simp: run_inv_def card_eq_0_iff)
qed

lemma active_node:
  assumes d: "distinct (map dn_id dag)" and inv: "sched_inv oc dag s" and i: "i \<in> sc_active s"
  obtains n where "n \<in> set dag" "dn_id n = i" "dn_status n \<noteq> NCompleted" "\<forall>d \<in> set (dn_deps n). can_complete oc dag d"
proof -
  note sets = inv_sets [OF inv]
  have "i \<in> set (node_ids s)" using sets_invD(3) [OF sets] i by auto
  then obtain n where n: "node_of i s = Some n" using node_of_id by blast
  have n': "n \<in> set (sc_dag s)" "dn_id n = i" using node_of_Some [OF n] by auto
  obtain n0 where n0: "n0 \<in> set dag" "dn_id n0 = i" "dn_deps n0 = dn_deps n"
    using inv_same_node [OF d inv n'(1)] n'(2) by metis
  have "dn_status n0 \<noteq> NCompleted" using inv_before [OF inv n0(1)] n0(2) i sets_invD(15) [OF sets] by blast
  moreover have "\<forall>d \<in> set (dn_deps n0). can_complete oc dag d"
    using inv_deps [OF inv n'(1)] n'(2) n0(3) i inv_can [OF inv] by auto
  ultimately show ?thesis using that n0 by blast
qed

lemma dispatched_ok:
  assumes d: "distinct (map dn_id dag)" and inv: "sched_inv oc dag s" and i: "i \<in> sc_active s" "oc i = DispatchOk r"
  shows "can_complete oc dag i"
proof -
  obtain n where "n \<in> set dag" "dn_id n = i" "dn_status n \<noteq> NCompleted" "\<forall>d \<in> set (dn_deps n). can_complete oc dag d"
    using active_node [OF d inv i(1)] .
  with i(2) show ?thesis using can_complete.runs_ok by metis
qed

lemma dispatched_failed:
  assumes d: "distinct (map dn_id dag)" and run: "run_inv oc limit dag s"
    and i: "i \<in> sc_active s" "i \<notin> sc_releasing s" "oc i = DispatchFailed e"
  shows "sched_inv oc dag (leave_node i False (failed_node i e s))" "limiter_ok (failed_node i e s)"
    "sets_inv (failed_node i e s)"
proof -
  note inv = run_invD(1) [OF run]
  obtain n where n: "n \<in> set dag" "dn_id n = i" "dn_status n \<noteq> NCompleted"
    using active_node [OF d inv i(1)] by metis
  then have no: "\<not> can_complete oc dag i" using can_complete_node [of oc dag n] d i(3) by auto
  have core: "core (leave_node i False (failed_node i e s))
      = core (leave_node i False (upd_node i (\<lambda>n. n\<lparr>dn_status := NFailed, dn_error := Some e\<rparr>) s))"
    by (simp add: core_def leave_node_def started_def bus_emit_def failed_node_def)
  show "sched_inv oc dag (leave_node i False (failed_node i e s))"
    using inv_core [OF core] fail_active_inv [OF inv i(1,2) no] by blast
  show "limiter_ok (failed_node i e s)" "sets_inv (failed_node i e s)"
    using run_invD(2,4) [OF run] by (simp_all add: limiter_ok_def sets_inv_def node_ids_upd failed_node_def)
qed

lemma released_ok:
  assumes run: "run_inv oc limit dag s" and i: "i \<in> sc_releasing s"
  shows "sched_inv oc dag (leave_node i True (released_node i paid s))" "limiter_ok (released_node i paid s)"
    "sets_inv (released_node i paid s)" "i \<in> sc_active s"
proof -
  note inv = run_invD(1) [OF run]
  have core: "core (leave_node i True (released_node i paid s)) = core (leave_node i True s)"
    by (simp add: core_def leave_node_def started_def bus_emit_def released_node_def Let_def)
  show "sched_inv oc dag (leave_node i True (released_node i paid s))"
    using inv_core [OF core] leave_completed_inv [OF inv i] by blast
  show "limiter_ok (released_node i paid s)" using run_invD(2) [OF run]
    by (simp add: limiter_ok_def released_node_def Let_def)
  show "sets_inv (released_node i paid s)"
    using run_invD(4) [OF run] by (auto simp: sets_inv_def started_def bus_emit_def node_ids_def released_node_def Let_def)
  show "i \<in> sc_active s" using sets_invD(5) [OF run_invD(4) [OF run]] i by auto
qed

lemma step_dispatched:
  assumes d: "distinct (map dn_id dag)" and run: "run_inv oc limit dag s" and i: "i \<in> sc_active s" "i \<notin> sc_releasing s"
  shows "run_inv oc limit dag (node_dispatched i (oc i) s)"
proof (cases "oc i")
  case (DispatchOk r)
  note ok = dispatch_ok_inv [OF run_invD(1) [OF run] i dispatched_ok [OF d run_invD(1) [OF run] i(1) DispatchOk], of r]
  let ?t = "(upd_node i (\<lambda>n. n\<lparr>dn_status := NCompleted, dn_result := Some r\<rparr>) s)\<lparr>sc_releasing := insert i (sc_releasing s)\<rparr>"
  have "core (bus_emit (NodeCompleted i r) ?t) = core ?t" by simp
  from inv_core [OF this] limiter_core [OF this] ok run_invD(5) [OF run i(1)] run show ?thesis
    by (simp add: node_dispatched_def DispatchOk run_inv_def limiter_ok_def)
next
  case (DispatchFailed e)
  have "run_inv oc (sc_limit (failed_node i e s)) dag (node_returned i False (failed_node i e s))"
    by (rule returned_run [OF d dispatched_failed [OF d run i DispatchFailed]])
      (use i run_invD(5) [OF run i(1)] in simp_all)
  then show ?thesis using run_invD(3) [OF run] by (simp add: dispatched_unfold DispatchFailed)
qed

lemma step_released:
  assumes d: "distinct (map dn_id dag)" and run: "run_inv oc limit dag s" and i: "i \<in> sc_releasing s"
  shows "run_inv oc limit dag (node_released i paid s)"
proof -
  note act = released_ok(4) [OF run i]
  have "run_inv oc (sc_limit (released_node i paid s)) dag (node_returned i True (released_node i paid s))"
    by (rule returned_run [OF d released_ok(1-3) [OF run i]]) (use act run_invD(5) [OF run act] in simp_all)
  then show ?thesis using run_invD(3) [OF run] by (simp add: released_unfold)
qed

lemma init_inv: "dag_ok dag \<Longrightarrow> sched_inv oc dag (reportProgress (init_sched limit dag)) \<and> limiter_ok (init_sched limit dag)"
proof
  assume ok: "dag_ok dag"
  let ?s = "init_sched limit dag" and ?done = "dn_id ` {n \<in> set dag. dn_status n = NCompleted}"
  have sel: "sc_dag ?s = dag" "sc_completed ?s = ?done" "sc_failed ?s = {}" "sc_scheduled ?s = ?done" "sc_inFlight ?s = 0"
    "sc_limit ?s = limit" "sc_active ?s = {}" "sc_queue ?s = []" "sc_releasing ?s = {}" "\<not> sc_aborted ?s" "started ?s = []"
    by (simp_all add: init_sched_def Let_def started_def)
  show "limiter_ok ?s" using sel by (simp add: limiter_ok_def)
  have "sched_inv oc dag ?s"
  proof (rule sched_invI)
    show "sets_inv ?s" unfolding sets_inv_def using sel by (auto simp: node_ids_def)
    fix n assume n: "n \<in> set (sc_dag ?s)"
    then have n': "n \<in> set dag" using sel by simp
    have "dn_status n \<in> {NPending, NCompleted}" using ok n' by (auto simp: dag_ok_def)
    moreover have "dn_id n \<in> ?done \<longleftrightarrow> dn_status n = NCompleted"
    proof
      assume "dn_id n \<in> ?done"
      then obtain m where "m \<in> set dag" "dn_id m = dn_id n" "dn_status m = NCompleted" by auto
      with ok n' show "dn_status n = NCompleted" by (metis dag_ok_def distinct_key_eq)
    qed (use n' in auto)
    ultimately show "dn_status n = expected_status ?s (dn_id n)" using sel by (auto simp: expected_status_def)
  next
    fix i assume "i \<in> sc_completed ?s \<union> sc_releasing ?s"
    then show "can_complete oc dag i" using sel by (auto intro: can_complete.done_before)
  qed (use sel in auto)
  then show "sched_inv oc dag (reportProgress ?s)" using inv_core [of "reportProgress ?s" ?s] by simp
qed

lemma run_reachable:
  assumes ok: "dag_ok dag"
  shows "dag_run oc limit dag k s \<Longrightarrow> run_inv oc limit dag s"
proof (induction rule: dag_run.induct)
  case dag_start
  have d: "distinct (map dn_id dag)" using ok by (simp add: dag_ok_def)
  have sel: "sc_limit (reportProgress (init_sched limit dag)) = limit" "\<not> sc_settled (reportProgress (init_sched limit dag))"
    by (simp_all add: reportProgress_def init_sched_def Let_def)
  have "limiter_ok (reportProgress (init_sched limit dag))" using init_inv [OF ok] limiter_core [of "reportProgress (init_sched limit dag)"] by simp
  with schedule_run [OF d conjunct1 [OF init_inv [OF ok]]] sel show ?case by (metis executeDAG_def)
qed (use ok step_dispatched step_released in \<open>auto simp: dag_ok_def\<close>)

lemma settled_completed:
  assumes "dag_ok dag" and "dag_run oc limit dag k s" and "sc_settled s"
  shows "sc_completed s = {i. can_complete oc dag i}"
proof -
  have run: "run_inv oc limit dag s" using run_reachable assms(1,2) by blast
  then have inv: "sched_inv oc dag s" by (simp add: run_inv_def)
  have "sc_completed s \<union> sc_failed s = set (map dn_id dag)"
    using run assms(3) shape_ids [OF inv_shape [OF inv]] by (simp add: run_inv_def)
  then show ?thesis using inv_can [OF inv] inv_cannot [OF inv] can_complete_id [of oc dag] by auto
qed

text \<open>
  C2. Every schedule computes the same result. Whatever the order in which dispatches and
  payment releases return, whatever the concurrency limit and whichever payments fail, once the
  task has settled the completed nodes are exactly those that can complete: the least set that
  contains the nodes completed before and every node whose dispatch succeeds and whose
  dependencies can complete. All others have failed, and the task has failed exactly when there
  is one.
\<close>

theorem schedules_agree:
  assumes "dag_ok dag" and "dag_run oc limit dag k s" and "sc_settled s"
  shows "sc_completed s = {i. can_complete oc dag i}
    \<and> sc_failed s = {i \<in> set (map dn_id dag). \<not> can_complete oc dag i}
    \<and> (\<forall>n \<in> set (sc_dag s). dn_status n = (if can_complete oc dag (dn_id n) then NCompleted else NFailed))
    \<and> (sc_taskStatus s = TFailed \<longleftrightarrow> (\<exists>n \<in> set dag. \<not> can_complete oc dag (dn_id n)))"
proof -
  have run: "run_inv oc limit dag s" using run_reachable assms(1,2) by blast
  then have inv: "sched_inv oc dag s" by (simp add: run_inv_def)
  have ids: "node_ids s = map dn_id dag" using shape_ids [OF inv_shape [OF inv]] .
  have all: "sc_completed s \<union> sc_failed s = set (map dn_id dag)" "sc_inFlight s = 0"
    "sc_taskStatus s = TFailed \<longleftrightarrow> sc_failed s \<noteq> {}" using run assms(3) ids by (simp_all add: run_inv_def)
  have c: "sc_completed s = {i. can_complete oc dag i}" using settled_completed [OF assms] .
  moreover have f: "sc_failed s = {i \<in> set (map dn_id dag). \<not> can_complete oc dag i}"
    using inv_cannot [OF inv] all(1) c by blast
  moreover have "dn_status n = (if can_complete oc dag (dn_id n) then NCompleted else NFailed)" if "n \<in> set (sc_dag s)" for n
  proof -
    have "dn_id n \<in> set (node_ids s)" using that by (simp add: node_ids_def)
    then have "dn_id n \<in> sc_completed s \<union> sc_failed s" unfolding ids all(1) .
    then show ?thesis using inv_status [OF inv that] inv_cannot [OF inv] c by (auto simp: expected_status_def)
  qed
  ultimately show ?thesis using all(3) by auto
qed

text \<open>
  C28. In every reachable state at most \<open>concurrency\<close> nodes run, each node has been started at
  most once, and a node that is running has all its dependencies completed.
\<close>

theorem dag_run_safe:
  assumes "dag_ok dag" and "dag_run oc limit dag k s"
  shows "card (sc_active s) \<le> limit \<and> distinct (started s)
    \<and> (\<forall>n \<in> set (sc_dag s). dn_status n = NRunning \<longrightarrow> dn_id n \<in> sc_active s \<and> set (dn_deps n) \<subseteq> sc_completed s)"
proof -
  have run: "run_inv oc limit dag s" using run_reachable assms by blast
  then have inv: "sched_inv oc dag s" by (simp add: run_inv_def)
  have "dn_id n \<in> sc_active s \<and> set (dn_deps n) \<subseteq> sc_completed s" if "n \<in> set (sc_dag s)" "dn_status n = NRunning" for n
  proof -
    have "dn_id n \<in> sc_active s"
      using inv_status [OF inv that(1)] that(2) by (auto simp: expected_status_def split: if_splits)
    with inv_deps [OF inv that(1)] show ?thesis by simp
  qed
  then show ?thesis using run sets_invD(11) [OF inv_sets [OF inv]] by (auto simp: run_inv_def limiter_ok_def)
qed

subsection \<open>Runs end\<close>

definition grows :: "sched \<Rightarrow> sched \<Rightarrow> bool" where
  "grows s t \<longleftrightarrow> sc_completed t = sc_completed s \<and> sc_releasing t = sc_releasing s \<and> sc_failed s \<subseteq> sc_failed t"

lemma grows_core: "core t = core s \<Longrightarrow> grows s t" by (simp add: core_def grows_def)

lemma schedule_grows:
  assumes d: "distinct (map dn_id dag)" and inv: "sched_inv oc dag s" "limiter_ok s"
  shows "grows s (scheduleReadyNodes s)"
proof -
  obtain t any where l: "schedule_loop (node_ids s) s = (t, any)" by fastforce
  note loop = schedule_loop_inv [OF d inv l]
  have t: "grows s t" using loop by (simp add: grows_def same_run_def)
  show ?thesis
  proof (cases "\<not> any \<and> sc_inFlight t = 0")
    case True
    let ?u = "fail_loop True (node_ids t) t"
    have t': "t = s" using loop True by blast
    have "stuck s" unfolding stuck_def using loop True ready_at_id [of _ s] unfolding t' by blast
    then have "stuck t" unfolding t' .
    then have u: "sched_inv oc dag ?u" "idle_same t ?u"
      using fail_loop_inv [OF d conjunct1 [OF loop], of True ?u "node_ids t"] by simp_all
    have "core (finishIfSettled ?u) = core ?u" using finish_core inv_live [OF u(1)] by blast
    from core_eq [OF this] u(2) t have "grows s (finishIfSettled ?u)"
      by (simp add: grows_def idle_same_def same_run_def) blast
    with True l inv_live [OF inv(1)] show ?thesis
      by (simp add: scheduleReadyNodes_def failBlockedNodes_def)
  next
    case False
    with l inv_live [OF inv(1)] t show ?thesis by (auto simp: scheduleReadyNodes_def)
  qed
qed

lemma sweep_grows:
  assumes d: "distinct (map dn_id dag)" and inv: "sched_inv oc dag s"
  shows "grows s (finishIfSettled (failBlockedNodes False s))"
proof -
  let ?u = "fail_loop False (node_ids s) s"
  from fail_loop_inv [OF d inv, of False ?u "node_ids s"]
  have u: "sched_inv oc dag ?u" "idle_same s ?u" by simp_all
  have "core (finishIfSettled ?u) = core ?u" using finish_core inv_live [OF u(1)] by blast
  with core_eq [OF this] u(2) show ?thesis
    by (simp add: failBlockedNodes_def grows_def same_run_def idle_same_def)
qed

lemma returned_grows:
  assumes d: "distinct (map dn_id dag)" and inv: "sched_inv oc dag (leave_node i c s)" "limiter_ok s" "sets_inv s"
    and i: "i \<in> sc_active s" "i \<notin> sc_releasing s" "\<not> sc_settled s"
  shows "grows (leave_node i c s) (node_returned i c s)"
proof -
  note dep = depart_inv [OF inv i(1)] and core = resumed_core [OF i(2), of c]
  have r: "sched_inv oc dag (resumed i c s)" "limiter_ok (resumed i c s)" "\<not> sc_settled (resumed i c s)"
    using dep inv_core [OF core(1)] limiter_core [OF core(1)] core(2) i(3) by simp_all
  have s: "run_inv oc (sc_limit (resumed i c s)) dag (scheduleReadyNodes (resumed i c s))"
    by (rule schedule_run [OF d r])
  have "grows (leave_node i c s) (depart i c s)"
    by (simp add: depart_def Let_def grows_def split: list.split)
  with core_eq [OF core(1)] schedule_grows [OF d r(1,2)]
    sweep_grows [OF d, of oc "scheduleReadyNodes (resumed i c s)"] s
  show ?thesis unfolding node_returned_resumed grows_def run_inv_def by auto
qed

definition work_done :: "sched \<Rightarrow> nat" where
  "work_done s = 2 * card (sc_completed s) + 2 * card (sc_failed s) + card (sc_releasing s)"

lemma work_bound: "sched_inv oc dag s \<Longrightarrow> work_done s \<le> 2 * length dag"
proof -
  assume inv: "sched_inv oc dag s"
  note h = sets_invD [OF inv_sets [OF inv]]
  have fin: "finite (sc_active s)" "finite (sc_completed s)" "finite (sc_failed s)"
    using finite_sets [OF inv_sets [OF inv]] by auto
  have "card (sc_releasing s) \<le> card (sc_active s)" using h(5) fin by (simp add: card_mono)
  moreover have "card (sc_completed s) + card (sc_failed s) + card (sc_active s)
      = card (sc_completed s \<union> sc_failed s \<union> sc_active s)"
    using fin h(14,15,16) by (subst card_Un_disjoint; auto simp: card_Un_disjoint)
  moreover have "card (sc_completed s \<union> sc_failed s \<union> sc_active s) \<le> card (set (node_ids s))"
    using h(1,2,3) by (intro card_mono) auto
  moreover have "card (set (node_ids s)) \<le> length dag"
    using shape_ids [OF inv_shape [OF inv]] card_length [of "node_ids s"] by simp
  ultimately show ?thesis by (simp add: work_done_def)
qed

lemma work_grows:
  assumes "grows s t" "finite (sc_failed t)"
  shows "work_done s \<le> work_done t"
  using assms card_mono [OF assms(2), of "sc_failed s"] by (simp add: grows_def work_done_def)

lemma dispatched_work:
  assumes d: "distinct (map dn_id dag)" and run: "run_inv oc limit dag s" and i: "i \<in> sc_active s" "i \<notin> sc_releasing s"
  shows "work_done s < work_done (node_dispatched i (oc i) s)"
proof (cases "oc i")
  case (DispatchOk r)
  have "finite (sc_releasing s)"
    using finite_sets sets_invD(5) run_invD(4) [OF run] by (metis finite_subset)
  then show ?thesis using i(2) by (simp add: DispatchOk node_dispatched_def work_done_def)
next
  case (DispatchFailed e)
  note sets = run_invD(4) [OF run]
  have "i \<notin> sc_failed s" using sets_invD(16) [OF sets] i by auto
  then have less: "work_done s < work_done (leave_node i False (failed_node i e s))"
    using finite_sets [OF sets] i(2) by (simp add: work_done_def leave_node_def)
  have "grows (leave_node i False (failed_node i e s)) (node_returned i False (failed_node i e s))"
    by (rule returned_grows [OF d dispatched_failed [OF d run i DispatchFailed]])
      (use i run_invD(5) [OF run i(1)] in simp_all)
  moreover have "finite (sc_failed (node_returned i False (failed_node i e s)))"
    using finite_sets [OF run_invD(4) [OF step_dispatched [OF d run i]]] by (simp add: DispatchFailed dispatched_unfold)
  ultimately show ?thesis using less work_grows by (fastforce simp: DispatchFailed dispatched_unfold)
qed

lemma released_work:
  assumes d: "distinct (map dn_id dag)" and run: "run_inv oc limit dag s" and i: "i \<in> sc_releasing s"
  shows "work_done s < work_done (node_released i paid s)"
proof -
  note sets = run_invD(4) [OF run] and act = released_ok(4) [OF run i]
  have fin: "finite (sc_releasing s)" using finite_sets [OF sets] sets_invD(5) [OF sets] by (metis finite_subset)
  have "i \<notin> sc_completed s" using sets_invD(15) [OF sets] act by auto
  moreover have "0 < card (sc_releasing s)" using i fin by (auto simp: card_gt_0_iff)
  ultimately have less: "work_done s < work_done (leave_node i True (released_node i paid s))"
    using finite_sets [OF sets] fin i by (simp add: work_done_def leave_node_def)
  have "grows (leave_node i True (released_node i paid s)) (node_returned i True (released_node i paid s))"
    by (rule returned_grows [OF d released_ok(1-3) [OF run i]]) (use act run_invD(5) [OF run act] in simp_all)
  moreover have "finite (sc_failed (node_returned i True (released_node i paid s)))"
    using finite_sets [OF run_invD(4) [OF step_released [OF d run i, of paid]]] by (simp add: released_unfold)
  ultimately show ?thesis using less work_grows by (fastforce simp: released_unfold)
qed

lemma run_work:
  assumes ok: "dag_ok dag"
  shows "dag_run oc limit dag k s \<Longrightarrow> k \<le> work_done s"
proof (induction rule: dag_run.induct)
  case (dag_dispatched k s i)
  from dispatched_work [OF _ run_reachable [OF ok dag_dispatched(1)] dag_dispatched(2,3)] ok dag_dispatched(4)
  show ?case by (simp add: dag_ok_def)
next
  case (dag_released k s i paid)
  from released_work [OF _ run_reachable [OF ok dag_released(1)] dag_released(2), of paid] ok dag_released(3)
  show ?case by (simp add: dag_ok_def)
qed simp


definition demo_node :: "ident \<Rightarrow> ident list \<Rightarrow> dag_node" where
  "demo_node i ds = \<lparr> dn_id = i, dn_deps = ds, dn_status = NPending, dn_error = None, dn_result = None \<rparr>"

definition demo_dag :: "dag_node list" where
  "demo_dag = [demo_node ''a'' [], demo_node ''b'' [''a'']]"

definition demo_oc :: "ident \<Rightarrow> run_outcome" where
  "demo_oc i = (if i = ''a'' then DispatchOk ''1'' else DispatchFailed ''boom'')"

lemmas dag_eval = executeDAG_def scheduleReadyNodes_def schedule_loop_step schedule_one_def ready_at_def
  node_of_def row_by_def init_sched_def node_ready_def limiter_run_def run_start_def upd_node_def
  bus_emit_def reportProgress_def failBlockedNodes_def fail_loop_step fail_one_def finishIfSettled_def
  node_dispatched_def node_returned_def node_released_def limiter_done_def blocked_def blocked_error_def
  node_ids_def Let_def

definition demo1 :: sched where "demo1 = executeDAG 1 demo_dag"
definition demo2 :: sched where "demo2 = node_dispatched ''a'' (demo_oc ''a'') demo1"
definition demo3 :: sched where "demo3 = node_released ''a'' False demo2"
definition demo4 :: sched where "demo4 = node_dispatched ''b'' (demo_oc ''b'') demo3"

lemma demo1_eval: "sc_active demo1 = {''a''}" "sc_releasing demo1 = {}" "sc_settled demo1 = False"
  by (simp_all add: demo1_def dag_eval demo_dag_def demo_node_def)

lemma demo2_eval: "sc_releasing demo2 = {''a''}"
  by (simp add: demo2_def demo1_def demo_oc_def dag_eval demo_dag_def demo_node_def)

lemma demo3_eval: "sc_active demo3 = {''b''}" "sc_releasing demo3 = {}"
  by (simp_all add: demo3_def demo2_def demo1_def demo_oc_def dag_eval demo_dag_def demo_node_def)

lemma demo4_eval: "sc_settled demo4" "sc_taskStatus demo4 = TFailed" "sc_completed demo4 = {''a''}"
  by (simp_all add: demo4_def demo3_def demo2_def demo1_def demo_oc_def dag_eval demo_dag_def demo_node_def)

lemma demo_ok: "dag_ok demo_dag"
  by (simp add: dag_ok_def demo_dag_def demo_node_def)

lemma demo_run: "dag_run demo_oc 1 demo_dag 2 demo3" "dag_run demo_oc 1 demo_dag 3 demo4"
proof -
  have "dag_run demo_oc 1 demo_dag 0 demo1" unfolding demo1_def by (rule dag_start)
  then have "dag_run demo_oc 1 demo_dag 1 demo2"
    unfolding demo2_def One_nat_def by (rule dag_dispatched) (simp_all add: demo1_eval)
  then show r: "dag_run demo_oc 1 demo_dag 2 demo3"
    unfolding demo3_def numeral_2_eq_2 One_nat_def by (rule dag_released) (simp add: demo2_eval)
  then show "dag_run demo_oc 1 demo_dag 3 demo4"
    unfolding demo4_def numeral_3_eq_3 numeral_2_eq_2 by (rule dag_dispatched) (simp_all add: demo3_eval)
qed

theorem schedules_agree_witness:
  "can_complete demo_oc demo_dag ''a'' \<and> \<not> can_complete demo_oc demo_dag ''b''
    \<and> sc_failed demo4 = {''b''}"
proof -
  have h: "{''a''} = {i. can_complete demo_oc demo_dag i}"
    "sc_failed demo4 = {i \<in> set (map dn_id demo_dag). \<not> can_complete demo_oc demo_dag i}"
    using schedules_agree [OF demo_ok demo_run(2) demo4_eval(1)] unfolding demo4_eval(3) by blast+
  have c: "can_complete demo_oc demo_dag i \<longleftrightarrow> i = ''a''" for i using h(1) by blast
  have "map dn_id demo_dag = [''a'', ''b'']" by (simp add: demo_dag_def demo_node_def)
  with h(2) c have "sc_failed demo4 = {''b''}" by auto
  with c show ?thesis by simp
qed

theorem dag_run_safe_witness: "card (sc_active demo3) \<le> 1 \<and> distinct (started demo3)"
  using dag_run_safe [OF demo_ok demo_run(1)] by blast


subsection \<open>Cancellation and leftovers\<close>

lemma cancel_node: "node_of k (cancel_loop is s) = map_option (\<lambda>n. if k \<in> set is \<and> dn_status n = NPending
    then n\<lparr>dn_status := NCancelled, dn_error := Some ''task_cancelled''\<rparr> else n) (node_of k s)"
proof (induction "is" arbitrary: s)
  case Nil
  show ?case by (simp add: option.map_ident)
next
  case (Cons i "is")
  have no: "node_of k (upd_node i f s) = map_option (\<lambda>n. if k = i then f n else n) (node_of k s)"
    if "\<And>n. dn_id (f n) = dn_id n" for f
    using that node_of_Some [of k s] by (cases "node_of k s") (auto simp: node_of_def upd_node_def row_by_update)
  show ?case using Cons.IH by (cases "node_of i s"; cases "node_of k s") (auto simp: no)
qed
lemma cancel_frame [simp]:
  "sc_queue (cancel_loop is s) = sc_queue s" "sc_active (cancel_loop is s) = sc_active s"
  "sc_aborted (cancel_loop is s) = sc_aborted s" "sc_limit (cancel_loop is s) = sc_limit s"
  "sc_inFlight (cancel_loop is s) = sc_inFlight s" "node_ids (cancel_loop is s) = node_ids s"
  by (induction "is" arbitrary: s) (auto simp: node_ids_upd)

lemma finish_frame [simp]:
  "sc_queue (finishIfSettled s) = sc_queue s" "sc_active (finishIfSettled s) = sc_active s"
  "sc_aborted (finishIfSettled s) = sc_aborted s" "node_of k (finishIfSettled s) = node_of k s"
  by (simp_all add: finishIfSettled_def Let_def node_of_def bus_emit_def)

lemma fail_keeps_running:
  "map_option dn_status (node_of k s) = Some NRunning
    \<Longrightarrow> map_option dn_status (node_of k (fail_loop dl is s)) = Some NRunning"
proof (induction "is" arbitrary: s)
  case (Cons i "is")
  have "map_option dn_status (node_of k (fail_one dl i s)) = Some NRunning"
  proof (cases "node_of i s")
    case (Some n)
    then have "dn_status n = NPending \<Longrightarrow> k \<noteq> i" using Cons.prems by auto
    with Some Cons.prems show ?thesis
      using node_of_Some [of k s] by (auto simp: fail_one_def Let_def node_of_def upd_node_def row_by_update)
  qed (use Cons.prems in \<open>simp add: fail_one_def\<close>)
  then show ?case using Cons.IH by (simp add: fail_loop_step)
qed simp

text \<open>
  Cancelling a task does not stop the nodes that wait for a slot of the limiter. They are
  marked cancelled and counted as failed, but stay in the limiter's queue; when the next running
  node returns, the first of them is started all the same: it runs, and its payment is released,
  after its cancellation was announced.
\<close>

theorem cancelled_queue_still_runs:
  assumes "\<not> sc_aborted s" "sc_queue s = j # js" "node_of j s = Some n" "dn_status n = NPending"
  shows "map_option dn_status (node_of j (dag_abort s)) = Some NCancelled
    \<and> map_option dn_status (node_of j (node_returned i c (dag_abort s))) = Some NRunning"
proof -
  let ?a = "dag_abort s"
  have a: "?a = finishIfSettled (cancel_loop (node_ids s) (s\<lparr>sc_aborted := True\<rparr>))"
    using assms(1) by (simp add: dag_abort_def cancelPendingNodes_def) (simp add: node_ids_def)
  have j: "j \<in> set (node_ids s)" using node_of_Some [OF assms(3)] by (auto simp: node_ids_def)
  have "node_of j (s\<lparr>sc_aborted := True\<rparr>) = Some n" using assms(3) by (simp add: node_of_def)
  then have ja: "node_of j ?a = Some (n\<lparr>dn_status := NCancelled, dn_error := Some ''task_cancelled''\<rparr>)"
    using assms(4) j by (simp add: a cancel_node)
  have q: "sc_queue ?a = j # js" "sc_aborted ?a" using assms(2) by (simp_all add: a)
  have run: "map_option dn_status (node_of j (resumed i c ?a)) = Some NRunning" "sc_aborted (resumed i c ?a)"
    using ja q by (auto simp: resumed_def Let_def limiter_done_def run_start_def node_of_def upd_node_def
        reportProgress_def bus_emit_def row_by_update dest: row_by_Some)
  obtain m where m: "node_of j (resumed i c ?a) = Some m" "dn_status m = NRunning" using run(1) by auto
  then have "map_option dn_status (node_of j (scheduleReadyNodes (resumed i c ?a))) = Some NRunning"
    using run(2) by (simp add: scheduleReadyNodes_def cancelPendingNodes_def cancel_node)
  then have "map_option dn_status (node_of j (node_returned i c ?a)) = Some NRunning"
    using fail_keeps_running by (simp add: node_returned_resumed failBlockedNodes_def)
  with ja show ?thesis by simp
qed

definition demo_wide :: sched where
  "demo_wide = executeDAG 1 [demo_node ''a'' [], demo_node ''b'' []]"

lemma demo_wide_eval: "\<not> sc_aborted demo_wide" "sc_queue demo_wide = [''b'']"
  "node_of ''b'' demo_wide = Some (demo_node ''b'' [])"
  by (simp_all add: demo_wide_def dag_eval demo_node_def)

theorem cancelled_queue_still_runs_witness:
  "map_option dn_status (node_of ''b'' (node_returned ''a'' False (dag_abort demo_wide))) = Some NRunning"
proof -
  have "dn_status (demo_node ''b'' []) = NPending" by (simp add: demo_node_def)
  from cancelled_queue_still_runs [OF demo_wide_eval this] show ?thesis by blast
qed

text \<open>
  A run that finds a node neither pending nor completed at its start waits for it for ever:
  when every other node is completed, nothing is started, nothing is in flight, and the task does
  not settle. The job handler resets failed nodes only, so a node left running by a crash, or
  cancelled in an earlier attempt, has this effect.
\<close>

theorem leftover_node_hangs:
  assumes "distinct (map dn_id dag)" "n \<in> set dag" "dn_status n \<in> {NRunning, NCancelled}"
    and "\<forall>m \<in> set dag. m \<noteq> n \<longrightarrow> dn_status m = NCompleted"
    and "task_job_handler limit TFailed dag = Some s"
  shows "\<not> sc_settled s \<and> sc_active s = {} \<and> sc_queue s = [] \<and> sc_inFlight s = 0"
proof -
  have reset: "reset_failed dag = dag"
  proof -
    have "dn_status m \<noteq> NFailed" if "m \<in> set dag" for m using that assms(3,4) by (cases "m = n") auto
    then show ?thesis unfolding reset_failed_def by (intro map_idI) simp
  qed
  let ?i = "reportProgress (init_sched limit dag)"
  have none: "node_of k ?i = None \<or> (\<exists>m \<in> set dag. node_of k ?i = Some m \<and> dn_status m \<noteq> NPending)" for k
  proof (cases "node_of k ?i")
    case (Some m)
    then have "m \<in> set dag" using node_of_Some [OF Some] by (simp add: reportProgress_def init_sched_def Let_def)
    with Some assms(3,4) show ?thesis by (cases "m = n") auto
  qed simp
  have "\<not> ready_at k ?i" for k using none [of k] by (auto simp: ready_at_def node_ready_def)
  then have sl: "schedule_loop ks ?i = (?i, False)" for ks by (induction ks) (simp_all add: schedule_loop_step)
  have "fail_one True k ?i = ?i" for k using none [of k] by (auto simp: fail_one_def)
  then have fl: "fail_loop True ks ?i = ?i" for ks by (induction ks) (simp_all add: fail_loop_step)
  have sel: "sc_dag ?i = dag" "sc_completed ?i = set (map dn_id (filter (\<lambda>n. dn_status n = NCompleted) dag))"
    "sc_failed ?i = {}" "sc_inFlight ?i = 0" "\<not> sc_aborted ?i" "\<not> sc_settled ?i" "sc_active ?i = {}" "sc_queue ?i = []"
    by (simp_all add: reportProgress_def init_sched_def Let_def)
  have "card (sc_completed ?i) < length dag"
  proof -
    have "sc_completed ?i \<subseteq> set (map dn_id dag) - {dn_id n}"
    proof
      fix i assume "i \<in> sc_completed ?i"
      then obtain m where m: "m \<in> set dag" "dn_id m = i" "dn_status m = NCompleted" unfolding sel by auto
      have "i \<noteq> dn_id n"
      proof
        assume "i = dn_id n"
        with m assms(1,2) have "m = n" by (metis distinct_key_eq)
        with m assms(3) show False by simp
      qed
      with m show "i \<in> set (map dn_id dag) - {dn_id n}" by auto
    qed
    then have "card (sc_completed ?i) \<le> card (set (map dn_id dag) - {dn_id n})" by (simp add: card_mono)
    also have "\<dots> < card (set (map dn_id dag))" using assms(2) by (intro psubset_card_mono) auto
    also have "\<dots> \<le> length dag" using card_length [of "map dn_id dag"] by simp
    finally show ?thesis .
  qed
  then have "finishIfSettled ?i = ?i" using sel by (simp add: finishIfSettled_def)
  then have "executeDAG limit dag = ?i"
    using sl fl sel by (simp add: executeDAG_def scheduleReadyNodes_def failBlockedNodes_def)
  with assms(5) reset sel show ?thesis by (auto simp: task_job_handler_def)
qed

theorem leftover_node_hangs_witness:
  "\<exists>s. task_job_handler 3 TFailed [(demo_node ''a'' [])\<lparr>dn_status := NRunning\<rparr>] = Some s \<and> \<not> sc_settled s"
proof -
  obtain s where s: "task_job_handler 3 TFailed [(demo_node ''a'' [])\<lparr>dn_status := NRunning\<rparr>] = Some s"
    by (simp add: task_job_handler_def)
  with leftover_node_hangs [OF _ _ _ _ s, of "(demo_node ''a'' [])\<lparr>dn_status := NRunning\<rparr>"]
  show ?thesis by simp
qed

end
