(* ===== verification/AgentDispatch.thy ===== *)
theory AgentDispatch
  imports BudgetLedger DagScheduler JsValue
begin

text \<open>
  How a node reaches an agent: the choice of agents, the attempts of
  \<open>Coordinator.dispatchWithRetry\<close>, the budget protocol of \<open>Coordinator.runNode\<close> around them
  (\<open>backend/src/coordinator/coordinator.ts\<close>) and the stand-alone dispatcher of
  \<open>backend/src/coordinator/dispatch.ts\<close>. What each call of \<open>fetch\<close> yields is an argument,
  \<open>env k\<close> for the call number \<open>k\<close>; a response carries its body as \<open>JSON.parse\<close> reads it.
  \<open>JSON.stringify\<close> and the reading of a reported token count (\<open>Number\<close>, finite) are arguments
  too. Tracing, quality scores and the database are left out.
\<close>

subsection \<open>Values and agents\<close>

record agent =
  ag_id :: ident
  ag_type :: string
  ag_endpoint :: string
  ag_cost :: rat
  ag_online :: bool
  ag_reputation :: "rat option"

datatype agent_error = RetryableAgentError string | NonRetryableAgentError string | PlainError string

fun isRetryable :: "agent_error \<Rightarrow> bool" where
  "isRetryable (RetryableAgentError _) = True"
| "isRetryable _ = False"

fun asErrorMessage :: "agent_error \<Rightarrow> string" where
  "asErrorMessage (RetryableAgentError m) = m"
| "asErrorMessage (NonRetryableAgentError m) = m"
| "asErrorMessage (PlainError m) = m"

definition sortByCost :: "agent list \<Rightarrow> agent list" where
  "sortByCost = sort_key ag_cost"

definition agentsFor :: "(string \<Rightarrow> agent list) option \<Rightarrow> string \<Rightarrow> agent_error + agent list" where
  "agentsFor registry agentType =
     (case registry of
        None \<Rightarrow> Inl (PlainError (''No agent registry configured for type: '' @ agentType))
      | Some getAgents \<Rightarrow>
          (let agents = filter ag_online (sortByCost (getAgents agentType))
           in if agents = [] then Inl (PlainError (''No agent registered for type: '' @ agentType))
              else Inr agents))"

definition fallback_key :: "agent \<Rightarrow> rat \<times> rat" where
  "fallback_key a = (- or_else 0 (ag_reputation a), ag_cost a)"

definition selectFallbackAgent :: "agent list \<Rightarrow> ident \<Rightarrow> agent option" where
  "selectFallbackAgent agents failedAgentId =
     best_by fallback_key (filter (\<lambda>a. ag_online a \<and> ag_id a \<noteq> failedAgentId) agents)"

subsection \<open>What an agent answers\<close>

definition unwrapAgentResult :: "js_val \<Rightarrow> js_val" where
  "unwrapAgentResult payload = (case payload of
     JObj fs \<Rightarrow> (case map_of fs ''result'' of Some r \<Rightarrow> r | None \<Rightarrow> payload) | _ \<Rightarrow> payload)"

definition readAgentModel :: "js_val \<Rightarrow> string option" where
  "readAgentModel payload = (case payload of
     JObj fs \<Rightarrow> (case map_of fs ''model'' of Some (JStr m) \<Rightarrow> if m = '''' then None else Some m | _ \<Rightarrow> None)
   | _ \<Rightarrow> None)"

text \<open>The operator \<open>??\<close> on two properties of an object.\<close>

definition field_or :: "(string \<times> js_val) list \<Rightarrow> string \<Rightarrow> string \<Rightarrow> js_val option" where
  "field_or fs a b = (case map_of fs a of None \<Rightarrow> map_of fs b | Some JNull \<Rightarrow> map_of fs b | Some v \<Rightarrow> Some v)"

definition readAgentUsage :: "(js_val \<Rightarrow> int option) \<Rightarrow> js_val \<Rightarrow> llm_usage option" where
  "readAgentUsage number payload = (case payload of
     JObj fs \<Rightarrow> (case map_of fs ''usage'' of
         Some (JObj us) \<Rightarrow>
           (let n = (\<lambda>v. case v of None \<Rightarrow> None | Some x \<Rightarrow> number x);
                pt = n (field_or us ''promptTokens'' ''prompt_tokens'');
                ct = n (field_or us ''completionTokens'' ''completion_tokens'')
            in case (pt, ct) of
                 (Some p, Some c) \<Rightarrow> Some \<lparr> lu_promptTokens = p, lu_completionTokens = c,
                   lu_totalTokens = or_else (p + c) (n (field_or us ''totalTokens'' ''total_tokens'')) \<rparr>
               | _ \<Rightarrow> None)
       | _ \<Rightarrow> None)
   | _ \<Rightarrow> None)"

definition BUDGET_EXHAUSTED_MARKER :: string where
  "BUDGET_EXHAUSTED_MARKER = ''BUDGET_EXHAUSTED''"

definition isBudgetHalt :: "js_val \<Rightarrow> bool" where
  "isBudgetHalt result = (case result of
     JStr s \<Rightarrow> s = BUDGET_EXHAUSTED_MARKER
   | JObj fs \<Rightarrow> map_of fs ''error'' = Some (JStr BUDGET_EXHAUSTED_MARKER)
   | _ \<Rightarrow> False)"

subsection \<open>One dispatch\<close>

datatype body = EmptyBody | JsonBody js_val | BadBody string
datatype fetch_outcome = FetchResponse int string body | FetchAborted | FetchFailed string | FetchRejected string

record dispatch_env =
  de_overrides :: "(string, model_pricing) jsmap"
  de_stringify :: "js_val \<Rightarrow> string"
  de_number :: "js_val \<Rightarrow> int option"
  de_timeoutMs :: ms

record work_node =
  wn_id :: ident
  wn_type :: string
  wn_prompt :: "string option"

text \<open>A request carries the agent it goes to and the allowance the agent is told.\<close>

record dispatch_request =
  rq_agent :: ident
  rq_maxTokens :: int

definition recordNodeUsage :: "dispatch_env \<Rightarrow> work_node \<Rightarrow> ident \<Rightarrow> js_val \<Rightarrow> js_val \<Rightarrow> ledger \<Rightarrow> ledger" where
  "recordNodeUsage e node agentId payload result l =
     fst (ld_record (de_overrides e) (wn_id node)
       \<lparr> rp_agentId = agentId, rp_agentType = wn_type node,
         rp_model = or_else (wn_type node) (readAgentModel payload),
         rp_usage = readAgentUsage (de_number e) payload,
         rp_prompt = Some (or_else '''' (wn_prompt node)),
         rp_completion = Some (case result of JStr s \<Rightarrow> s | JNull \<Rightarrow> de_stringify e (JStr '''') | v \<Rightarrow> de_stringify e v) \<rparr> l)"

definition response_ok :: "int \<Rightarrow> bool" where
  "response_ok status \<longleftrightarrow> 200 \<le> status \<and> status < 300"

definition agent_returned :: "ident \<Rightarrow> int \<Rightarrow> string" where
  "agent_returned i status = ''Agent '' @ i @ '' returned '' @ int_text status"

definition timed_out :: "ident \<Rightarrow> ms \<Rightarrow> string" where
  "timed_out i t = ''Agent '' @ i @ '' timed out after '' @ int_text t @ ''ms''"

definition attempt_result :: "dispatch_env \<Rightarrow> agent \<Rightarrow> fetch_outcome \<Rightarrow> agent_error + js_val" where
  "attempt_result e target f = (case f of
     FetchResponse status txt b \<Rightarrow>
       if 500 \<le> status then Inl (RetryableAgentError (agent_returned (ag_id target) status))
       else if \<not> response_ok status then Inl (NonRetryableAgentError (agent_returned (ag_id target) status))
       else (case b of EmptyBody \<Rightarrow> Inr (JObj []) | JsonBody v \<Rightarrow> Inr v | BadBody m \<Rightarrow> Inl (RetryableAgentError m))
   | FetchAborted \<Rightarrow> Inl (RetryableAgentError (timed_out (ag_id target) (de_timeoutMs e)))
   | FetchFailed m \<Rightarrow> Inl (RetryableAgentError m)
   | FetchRejected m \<Rightarrow> Inl (RetryableAgentError ''unknown''))"

definition dispatchNode :: "dispatch_env \<Rightarrow> work_node \<Rightarrow> agent \<Rightarrow> fetch_outcome \<Rightarrow> ledger
    \<Rightarrow> ledger \<times> dispatch_request \<times> (agent_error + js_val)" where
  "dispatchNode e node target f l =
     (let rq = \<lparr> rq_agent = ag_id target, rq_maxTokens = allowanceFor l \<rparr>
      in case attempt_result e target f of
           Inl err \<Rightarrow> (l, rq, Inl err)
         | Inr parsed \<Rightarrow> (let result = unwrapAgentResult parsed
                          in (recordNodeUsage e node (ag_id target) parsed result l, rq, Inr result)))"

subsection \<open>Attempts and fallback\<close>

definition PRIMARY_ATTEMPTS :: nat where
  "PRIMARY_ATTEMPTS = 3"

text \<open>
  The loop over the attempts at the primary agent: the calls left, the number of the next call.
  It ends with a result, with an error that is not retryable, or with the last retryable one.
\<close>

datatype attempts = AttemptOk js_val | AttemptFatal agent_error | AttemptsSpent agent_error

fun primary_attempts :: "dispatch_env \<Rightarrow> work_node \<Rightarrow> agent \<Rightarrow> (nat \<Rightarrow> fetch_outcome) \<Rightarrow> nat \<Rightarrow> nat \<Rightarrow> agent_error
    \<Rightarrow> ledger \<Rightarrow> ledger \<times> dispatch_request list \<times> attempts" where
  "primary_attempts e node primary env k 0 lastError l = (l, [], AttemptsSpent lastError)"
| "primary_attempts e node primary env k (Suc left) lastError l =
     (case dispatchNode e node primary (env k) l of
        (l', rq, Inr v) \<Rightarrow> (l', [rq], AttemptOk v)
      | (l', rq, Inl err) \<Rightarrow>
          if \<not> isRetryable err then (l', [rq], AttemptFatal err)
          else (case primary_attempts e node primary env (Suc k) left err l' of
                  (l'', rqs, r) \<Rightarrow> (l'', rq # rqs, r)))"

definition dispatchWithRetry :: "dispatch_env \<Rightarrow> work_node \<Rightarrow> (agent_error + js_val) option
    \<Rightarrow> (string \<Rightarrow> agent list) option \<Rightarrow> (nat \<Rightarrow> fetch_outcome) \<Rightarrow> ledger
    \<Rightarrow> ledger \<times> dispatch_request list \<times> (agent_error + ident option \<times> js_val)" where
  "dispatchWithRetry e node dispatchOverride registry env l =
     (case dispatchOverride of
        Some (Inl err) \<Rightarrow> (l, [], Inl err)
      | Some (Inr v) \<Rightarrow> (l, [], Inr (None, v))
      | None \<Rightarrow>
        (case agentsFor registry (wn_type node) of
           Inl err \<Rightarrow> (l, [], Inl err)
         | Inr agents \<Rightarrow>
           (let primary = hd agents;
                none = PlainError (''No agent registered for type: '' @ wn_type node)
            in case primary_attempts e node primary env 0 PRIMARY_ATTEMPTS none l of
                 (l1, rqs, AttemptOk v) \<Rightarrow> (l1, rqs, Inr (Some (ag_id primary), v))
               | (l1, rqs, AttemptFatal err) \<Rightarrow> (l1, rqs, Inl err)
               | (l1, rqs, AttemptsSpent lastError) \<Rightarrow>
                   (case (case selectFallbackAgent agents (ag_id primary) of
                            Some a \<Rightarrow> Some a | None \<Rightarrow> find (\<lambda>a. ag_id a \<noteq> ag_id primary) agents) of
                      None \<Rightarrow> (l1, rqs, Inl lastError)
                    | Some fallback \<Rightarrow>
                        (case dispatchNode e node fallback (env PRIMARY_ATTEMPTS) l1 of
                           (l2, rq, Inl err) \<Rightarrow> (l2, rqs @ [rq], Inl err)
                         | (l2, rq, Inr v) \<Rightarrow> (l2, rqs @ [rq], Inr (Some (ag_id fallback), v)))))))"

text \<open>The outputs of a node's dependencies, as the context of its prompt.\<close>

definition contextFor :: "dag_node \<Rightarrow> sched \<Rightarrow> string" where
  "contextFor n s = join_text [CHR 0x0A] (concat (map (\<lambda>d.
     case node_of d s of None \<Rightarrow> [] | Some m \<Rightarrow> (case dn_result m of None \<Rightarrow> [] | Some r \<Rightarrow> [r])) (dn_deps n)))"

subsection \<open>A node and the task's budget\<close>

definition failNodeForBudget :: "work_node \<Rightarrow> ledger \<Rightarrow> ledger" where
  "failNodeForBudget node l = markExhausted (wn_id node) ''unassigned'' (wn_type node) l"

definition release_unused :: "work_node \<Rightarrow> ledger \<Rightarrow> ledger" where
  "release_unused node l = (if usageCallsFor (wn_id node) l = 0 then ld_release (wn_id node) l else l)"

definition reserve_node :: "work_node \<Rightarrow> ledger \<Rightarrow> ledger" where
  "reserve_node node l = fst (ld_reserve (wn_id node) (of_int (allowanceFor l)) l)"

text \<open>\<open>runNode\<close> up to the release of the payment; \<open>dailyExceeded\<close> is the daily cost gate.\<close>

definition runNode :: "dispatch_env \<Rightarrow> bool \<Rightarrow> work_node \<Rightarrow> (agent_error + js_val) option
    \<Rightarrow> (string \<Rightarrow> agent list) option \<Rightarrow> (nat \<Rightarrow> fetch_outcome) \<Rightarrow> ledger
    \<Rightarrow> ledger \<times> dispatch_request list \<times> run_outcome" where
  "runNode e dailyExceeded node dispatchOverride registry env l =
     (if exhausted l \<or> dailyExceeded
      then (failNodeForBudget node l, [], DispatchFailed ''budget_exhausted'')
      else (case dispatchWithRetry e node dispatchOverride registry env (reserve_node node l) of
              (l2, rqs, Inl err) \<Rightarrow> (release_unused node l2, rqs, DispatchFailed (asErrorMessage err))
            | (l2, rqs, Inr (agentId, result)) \<Rightarrow>
                (let l3 = release_unused node l2
                 in if isBudgetHalt result
                    then (failNodeForBudget node l3, rqs, DispatchFailed ''budget_exhausted'')
                    else (l3, rqs, DispatchOk (de_stringify e result)))))"

subsection \<open>The stand-alone dispatcher\<close>

record http_options =
  ho_timeoutMs :: ms
  ho_maxRetries :: int
  ho_retryDelayMs :: ms

definition DEFAULT_DISPATCH_OPTIONS :: http_options where
  "DEFAULT_DISPATCH_OPTIONS = \<lparr> ho_timeoutMs = 60000, ho_maxRetries = 3, ho_retryDelayMs = 1000 \<rparr>"

definition isRetryableStatus :: "int \<Rightarrow> bool" where
  "isRetryableStatus status \<longleftrightarrow> 500 \<le> status \<or> status = 429"

datatype http_step = HttpDone js_val | HttpThrow string | HttpRetry string

definition http_caught :: "string \<Rightarrow> http_step" where
  "http_caught m = (if \<not> prefix ''Agent '' m then HttpRetry m
     else if includes_text ''non-retryable'' m then HttpThrow m else HttpRetry m)"

definition http_attempt :: "http_options \<Rightarrow> agent \<Rightarrow> ident \<Rightarrow> fetch_outcome \<Rightarrow> http_step" where
  "http_attempt ho ag nodeId f = (case f of
     FetchResponse status txt b \<Rightarrow>
       if isRetryableStatus status then HttpRetry (agent_returned (ag_id ag) status @ '': '' @ txt)
       else if \<not> response_ok status
       then http_caught (''Agent '' @ ag_id ag @ '' returned non-retryable '' @ int_text status @ '': '' @ txt)
       else (case b of EmptyBody \<Rightarrow> HttpDone (JObj []) | JsonBody v \<Rightarrow> HttpDone v | BadBody m \<Rightarrow> http_caught m)
   | FetchAborted \<Rightarrow> HttpRetry (timed_out (ag_id ag) (ho_timeoutMs ho) @ '' (node: '' @ nodeId @ '')'')
   | FetchFailed m \<Rightarrow> http_caught m
   | FetchRejected m \<Rightarrow> HttpRetry m)"

text \<open>The attempts left, the next attempt; the waits between them and the number of calls.\<close>

fun http_loop :: "http_options \<Rightarrow> agent \<Rightarrow> ident \<Rightarrow> (nat \<Rightarrow> fetch_outcome) \<Rightarrow> nat \<Rightarrow> nat \<Rightarrow> string
    \<Rightarrow> ms list \<times> nat \<times> (string + js_val)" where
  "http_loop ho ag nodeId env 0 attempt lastError = ([], 0, Inl lastError)"
| "http_loop ho ag nodeId env (Suc left) attempt lastError =
     (case http_attempt ho ag nodeId (env attempt) of
        HttpDone v \<Rightarrow> ([], 1, Inr v)
      | HttpThrow m \<Rightarrow> ([], 1, Inl m)
      | HttpRetry m \<Rightarrow>
          (case http_loop ho ag nodeId env left (Suc attempt) m of
             (waits, calls, r) \<Rightarrow>
               ((if int attempt < ho_maxRetries ho then [ho_retryDelayMs ho * 2 ^ attempt] else []) @ waits,
                Suc calls, r)))"

definition httpDispatch :: "http_options \<Rightarrow> agent \<Rightarrow> ident \<Rightarrow> (nat \<Rightarrow> fetch_outcome) \<Rightarrow> ms list \<times> nat \<times> (string + js_val)" where
  "httpDispatch ho ag nodeId env = http_loop ho ag nodeId env (nat (ho_maxRetries ho + 1)) 0
     (''Dispatch to agent '' @ ag_id ag @ '' failed before first attempt'')"

text \<open>The number of calls among the next ones that must be retried before one settles.\<close>

fun leading :: "(nat \<Rightarrow> bool) \<Rightarrow> nat \<Rightarrow> nat \<Rightarrow> nat" where
  "leading p k 0 = 0"
| "leading p k (Suc n) = (if p k then Suc (leading p (Suc k) n) else 0)"

lemma leading_le: "leading p k n \<le> n"
  by (induction n arbitrary: k) auto

lemma leading_before: "i < leading p k n \<Longrightarrow> p (k + i)"
proof (induction n arbitrary: k i)
  case (Suc n)
  then show ?case by (cases i) (force split: if_splits)+
qed simp

lemma leading_stop: "leading p k n < n \<Longrightarrow> \<not> p (k + leading p k n)"
  by (induction n arbitrary: k) (force split: if_splits)+

subsection \<open>The attempts at an agent\<close>

definition retry_at :: "dispatch_env \<Rightarrow> agent \<Rightarrow> fetch_outcome \<Rightarrow> bool" where
  "retry_at e target f \<longleftrightarrow> (case attempt_result e target f of Inl err \<Rightarrow> isRetryable err | Inr _ \<Rightarrow> False)"

definition attempt_error :: "dispatch_env \<Rightarrow> agent \<Rightarrow> fetch_outcome \<Rightarrow> agent_error" where
  "attempt_error e target f = (case attempt_result e target f of Inl err \<Rightarrow> err | Inr _ \<Rightarrow> PlainError '''')"

lemma dispatchNode_unfold: "dispatchNode e node target f l =
  (case attempt_result e target f of
     Inl err \<Rightarrow> (l, \<lparr> rq_agent = ag_id target, rq_maxTokens = allowanceFor l \<rparr>, Inl err)
   | Inr v \<Rightarrow> (recordNodeUsage e node (ag_id target) v (unwrapAgentResult v) l,
       \<lparr> rq_agent = ag_id target, rq_maxTokens = allowanceFor l \<rparr>, Inr (unwrapAgentResult v)))"
  by (simp add: dispatchNode_def Let_def split: sum.split)

lemma primary_attempts_spec:
  fixes e node primary env k n
  defines "j \<equiv> leading (\<lambda>i. retry_at e primary (env i)) k n"
  shows "primary_attempts e node primary env k n lastError l =
    (if j = n then (l, replicate n \<lparr> rq_agent = ag_id primary, rq_maxTokens = allowanceFor l \<rparr>,
        AttemptsSpent (if n = 0 then lastError else attempt_error e primary (env (k + n - 1))))
     else (fst (dispatchNode e node primary (env (k + j)) l),
        replicate (Suc j) \<lparr> rq_agent = ag_id primary, rq_maxTokens = allowanceFor l \<rparr>,
        (case snd (snd (dispatchNode e node primary (env (k + j)) l)) of
           Inl err \<Rightarrow> AttemptFatal err | Inr v \<Rightarrow> AttemptOk v)))"
  unfolding j_def
proof (induction n arbitrary: k lastError)
  case (Suc n)
  show ?case
  proof (cases "attempt_result e primary (env k)")
    case (Inl err)
    show ?thesis
    proof (cases "isRetryable err")
      case True
      then have r: "retry_at e primary (env k)" "attempt_error e primary (env k) = err"
        using Inl by (simp_all add: retry_at_def attempt_error_def)
      then show ?thesis
        using Suc.IH [of "Suc k" err] True Inl by (simp add: dispatchNode_unfold)
    next
      case False
      then show ?thesis using Inl by (simp add: retry_at_def dispatchNode_unfold)
    qed
  next
    case (Inr v)
    then show ?thesis by (simp add: retry_at_def dispatchNode_unfold)
  qed
qed simp

lemma agentsFor_online: "agentsFor registry t = Inr agents \<Longrightarrow> agents \<noteq> [] \<and> (\<forall>a \<in> set agents. ag_online a)"
  by (auto simp: agentsFor_def Let_def split: option.splits if_splits)

lemma fallback_find:
  assumes "agentsFor registry t = Inr agents"
  shows "(case selectFallbackAgent agents i of Some a \<Rightarrow> Some a | None \<Rightarrow> find (\<lambda>a. ag_id a \<noteq> i) agents)
    = selectFallbackAgent agents i"
proof (cases "selectFallbackAgent agents i")
  case None
  then have "\<forall>a \<in> set agents. ag_id a = i"
    using agentsFor_online [OF assms] by (auto simp: selectFallbackAgent_def filter_empty_conv)
  with None show ?thesis by (auto simp: find_None_iff)
qed simp

lemma fallback_best:
  assumes "selectFallbackAgent agents i = Some f"
  shows "f \<in> set agents \<and> ag_id f \<noteq> i \<and> ag_online f
    \<and> (\<forall>a \<in> set agents. ag_online a \<and> ag_id a \<noteq> i \<longrightarrow> or_else 0 (ag_reputation a) < or_else 0 (ag_reputation f)
        \<or> or_else 0 (ag_reputation a) = or_else 0 (ag_reputation f) \<and> ag_cost f \<le> ag_cost a)"
proof (intro conjI ballI impI)
  note in_agents = best_by_in [OF assms [unfolded selectFallbackAgent_def]]
  from in_agents show "f \<in> set agents" "ag_id f \<noteq> i" "ag_online f" by auto
  fix a assume "a \<in> set agents" and "ag_online a \<and> ag_id a \<noteq> i"
  then have "fallback_key f \<le> fallback_key a"
    using best_by_least [OF assms [unfolded selectFallbackAgent_def], of a] by simp
  then show "or_else 0 (ag_reputation a) < or_else 0 (ag_reputation f)
      \<or> or_else 0 (ag_reputation a) = or_else 0 (ag_reputation f) \<and> ag_cost f \<le> ag_cost a"
    by (simp add: fallback_key_def less_eq_prod_simp) linarith
qed

text \<open>
  A node is sent to the cheapest online agent, again while the failure may be transient,
  at most three times: the first response that is not retryable settles it, whether a result or
  an error. When all three attempts failed, the online agent of highest reputation among the
  others, the cheaper of equals, gets exactly one call, and its outcome is the node's; without
  one, the error of the last attempt is.
\<close>

theorem dispatch_attempts:
  assumes "agentsFor registry (wn_type node) = Inr agents"
    and "dispatchWithRetry e node None registry env l = (l', rqs, r)"
    and "j = leading (\<lambda>i. retry_at e (hd agents) (env i)) 0 3"
  shows "(\<forall>a \<in> set agents. ag_cost (hd agents) \<le> ag_cost a) \<and> ag_online (hd agents)
    \<and> (if j < 3
       then map rq_agent rqs = replicate (Suc j) (ag_id (hd agents))
         \<and> r = (case attempt_result e (hd agents) (env j) of Inl err \<Rightarrow> Inl err
                | Inr v \<Rightarrow> Inr (Some (ag_id (hd agents)), unwrapAgentResult v))
       else case selectFallbackAgent agents (ag_id (hd agents)) of
           None \<Rightarrow> map rq_agent rqs = replicate 3 (ag_id (hd agents)) \<and> r = Inl (attempt_error e (hd agents) (env 2))
         | Some f \<Rightarrow> map rq_agent rqs = replicate 3 (ag_id (hd agents)) @ [ag_id f]
             \<and> r = (case attempt_result e f (env 3) of Inl err \<Rightarrow> Inl err
                    | Inr v \<Rightarrow> Inr (Some (ag_id f), unwrapAgentResult v))
             \<and> ag_online f \<and> ag_id f \<noteq> ag_id (hd agents)
             \<and> (\<forall>a \<in> set agents. ag_id a \<noteq> ag_id (hd agents) \<longrightarrow>
                  or_else 0 (ag_reputation a) < or_else 0 (ag_reputation f)
                  \<or> or_else 0 (ag_reputation a) = or_else 0 (ag_reputation f) \<and> ag_cost f \<le> ag_cost a))"
proof -
  let ?p = "hd agents"
  have ne: "agents \<noteq> []" "\<forall>a \<in> set agents. ag_online a" using agentsFor_online [OF assms(1)] by auto
  obtain as where "agents = filter ag_online (sortByCost as)"
    using assms(1) by (auto simp: agentsFor_def Let_def split: option.splits if_splits)
  then have "sorted (map ag_cost agents)" by (simp add: sortByCost_def sorted_filter)
  then have cheap: "\<forall>a \<in> set agents. ag_cost ?p \<le> ag_cost a" using ne(1) by (cases agents) auto
  have le: "j \<le> 3" using leading_le assms(3) by metis
  note spec = primary_attempts_spec [where primary = ?p and k = 0 and n = 3 and e = e and env = env, folded assms(3)]
  show ?thesis
  proof (cases "j < 3")
    case True
    then show ?thesis
      using assms(1,2) spec cheap ne
      by (cases "attempt_result e ?p (env j)")
        (auto simp: dispatchWithRetry_def PRIMARY_ATTEMPTS_def Let_def dispatchNode_unfold)
  next
    case False
    with le have j: "j = 3" by simp
    show ?thesis
    proof (cases "selectFallbackAgent agents (ag_id ?p)")
      case None
      then show ?thesis using assms(1,2) spec cheap ne j fallback_find [OF assms(1), of "ag_id ?p"]
        by (auto simp: dispatchWithRetry_def PRIMARY_ATTEMPTS_def Let_def)
    next
      case (Some f)
      then show ?thesis using assms(1,2) spec cheap ne j fallback_best [OF Some]
        by (cases "attempt_result e f (env 3)")
          (auto simp: dispatchWithRetry_def PRIMARY_ATTEMPTS_def Let_def dispatchNode_unfold)
    qed
  qed
qed

subsection \<open>The reservation of a node\<close>

definition recorded :: "dispatch_env \<Rightarrow> work_node \<Rightarrow> ledger \<Rightarrow> ledger \<Rightarrow> bool" where
  "recorded e node l l' \<longleftrightarrow> (\<exists>a p v. l' = recordNodeUsage e node a p v l)"

lemma recordedI [simp]: "recorded e node l (recordNodeUsage e node a p v l)"
  by (auto simp: recorded_def)

lemma primary_ledger:
  assumes "primary_attempts e node primary env k n lastError l = (l', rqs, s)"
  shows "(case s of AttemptOk _ \<Rightarrow> recorded e node l l' | _ \<Rightarrow> l' = l)
    \<and> (\<forall>rq \<in> set rqs. rq_maxTokens rq = allowanceFor l)"
proof -
  let ?j = "leading (\<lambda>i. retry_at e primary (env i)) k n"
  show ?thesis
    using assms unfolding primary_attempts_spec
    by (cases "attempt_result e primary (env (k + ?j))") (auto simp: dispatchNode_unfold split: if_splits)
qed

lemma dispatch_ledger:
  assumes d: "dispatchWithRetry e node ov registry env l = (l', rqs, r)"
  shows "(case r of Inl _ \<Rightarrow> l' = l | Inr _ \<Rightarrow> l' = l \<or> recorded e node l l')
    \<and> (\<forall>rq \<in> set rqs. rq_maxTokens rq = allowanceFor l)"
proof (cases ov)
  case None
  show ?thesis
  proof (cases "agentsFor registry (wn_type node)")
    case (Inl err)
    with None d show ?thesis by (auto simp: dispatchWithRetry_def)
  next
    case (Inr agents)
    let ?n = "PlainError (''No agent registered for type: '' @ wn_type node)"
    obtain l1 rq1 s where p: "primary_attempts e node (hd agents) env 0 PRIMARY_ATTEMPTS ?n l = (l1, rq1, s)"
      by (metis prod_cases3)
    note h = primary_ledger [OF p]
    show ?thesis
    proof (cases s)
      case (AttemptsSpent err)
      show ?thesis
      proof (cases "selectFallbackAgent agents (ag_id (hd agents))")
        case None
        with AttemptsSpent \<open>ov = None\<close> d Inr p h fallback_find [OF Inr] show ?thesis
          by (auto simp: dispatchWithRetry_def Let_def)
      next
        case (Some f)
        with AttemptsSpent \<open>ov = None\<close> d Inr p h show ?thesis
          by (cases "attempt_result e f (env PRIMARY_ATTEMPTS)")
            (auto simp: dispatchWithRetry_def Let_def dispatchNode_unfold)
      qed
    qed (use None d Inr p h in \<open>auto simp: dispatchWithRetry_def Let_def\<close>)
  qed
next
  case (Some x)
  with d show ?thesis by (cases x) (auto simp: dispatchWithRetry_def)
qed

lemma record_node_frame:
  "ld_reservations (recordNodeUsage e node a p v l) = ld_reservations (ld_release (wn_id node) l)"
  "ld_reservedTokens (recordNodeUsage e node a p v l) = ld_reservedTokens (ld_release (wn_id node) l)"
  "usageCallsFor (wn_id node) (recordNodeUsage e node a p v l) \<noteq> 0"
proof -
  show "ld_reservations (recordNodeUsage e node a p v l) = ld_reservations (ld_release (wn_id node) l)"
    "ld_reservedTokens (recordNodeUsage e node a p v l) = ld_reservedTokens (ld_release (wn_id node) l)"
    by (simp_all add: recordNodeUsage_def record_frame)
  show "usageCallsFor (wn_id node) (recordNodeUsage e node a p v l) \<noteq> 0"
    by (simp add: recordNodeUsage_def ld_record_def Let_def usageCallsFor_def js_map)
qed

lemma jm_del_set_fresh: "k \<notin> set (map fst m) \<Longrightarrow> jm_del (jm_set m k v) k = m"
  by (induction m) (auto simp: jm_del_other)

lemma reserve_release:
  assumes "jm_get (ld_reservations l) n = None" "0 \<le> ld_reservedTokens l"
  shows "ld_reservations (ld_release n (fst (ld_reserve n q l))) = ld_reservations l
    \<and> ld_reservedTokens (ld_release n (fst (ld_reserve n q l))) = ld_reservedTokens l"
proof -
  obtain g where r: "ld_reserve n q l = (if 0 < g
      then (l\<lparr>ld_reservedTokens := ld_reservedTokens l + g, ld_reservations := jm_set (ld_reservations l) n
              (max (or_else 0 (jm_get (ld_reservations l) n)) g)\<rparr>, g) else (l, g))"
    by (rule reserve_unfold)
  have "n \<notin> set (map fst (ld_reservations l))" using assms(1) by (simp add: map_of_eq_None_iff)
  then have "jm_del (jm_set (ld_reservations l) n (max 0 g)) n = ld_reservations l" by (rule jm_del_set_fresh)
  with r assms show ?thesis by (auto simp: ld_release_def js_map)
qed

lemma reserve_entries: "ld_entries (fst (ld_reserve n q l)) = ld_entries l"
  by (rule reserve_unfold [of n q l]) simp

text \<open>
  C19. However a node's run goes, whether its task is out of budget, the dispatch succeeds at any
  attempt or fails, or the agent halts itself, and whether the agent reported usage or the
  dispatch bypassed the agents, the run gives back exactly what it reserved: afterwards every
  reservation and the reserved total are what they were before.
\<close>

theorem node_run_settles_reservation:
  assumes "jm_get (ld_reservations l) (wn_id node) = None" "usageCallsFor (wn_id node) l = 0"
    and "0 \<le> ld_reservedTokens l" and "runNode e daily node ov registry env l = (l', rqs, out)"
  shows "ld_reservations l' = ld_reservations l \<and> ld_reservedTokens l' = ld_reservedTokens l"
proof (cases "exhausted l \<or> daily")
  case True
  with assms(4) show ?thesis by (auto simp: runNode_def failNodeForBudget_def markExhausted_def)
next
  case False
  let ?l = "reserve_node node l"
  obtain l2 rq r where d: "dispatchWithRetry e node ov registry env ?l = (l2, rq, r)" by (metis prod_cases3)
  have restored: "ld_reservations (ld_release (wn_id node) ?l) = ld_reservations l"
    "ld_reservedTokens (ld_release (wn_id node) ?l) = ld_reservedTokens l"
    using reserve_release [OF assms(1,3)] by (simp_all add: reserve_node_def)
  have none: "usageCallsFor (wn_id node) ?l = 0"
    using assms(2) by (simp add: usageCallsFor_def reserve_node_def reserve_entries)
  have "ld_reservations (release_unused node l2) = ld_reservations l
      \<and> ld_reservedTokens (release_unused node l2) = ld_reservedTokens l"
    using dispatch_ledger [OF d] restored none
    by (auto simp: release_unused_def recorded_def record_node_frame split: sum.splits)
  with False d assms(4) show ?thesis
    by (auto simp: runNode_def failNodeForBudget_def markExhausted_def Let_def split: sum.splits if_splits prod.splits)
qed

text \<open>
  The allowance an agent is told is read after its node's own reservation was taken out of
  the pool, so it is what is left for others, not what the node holds. A node that reserves the
  whole remainder, because that is at most the per-call ceiling, sends every request with an
  allowance of zero, although its reservation covers the remainder.
\<close>

theorem told_allowance_excludes_own_reservation:
  assumes "\<not> exhausted l" "0 \<le> ld_usedTokens l" "0 \<le> ld_reservedTokens l"
    and "availableTokens l \<le> bl_maxTokensPerCall (ld_limits l)"
    and "runNode e False node ov registry env l = (l', rqs, out)" and "rq \<in> set rqs"
  shows "rq_maxTokens rq = 0 \<and> snd (ld_reserve (wn_id node) (of_int (allowanceFor l)) l) = availableTokens l
    \<and> 0 < availableTokens l"
proof -
  let ?a = "availableTokens l"
  have a: "0 < ?a" using assms(1) by (simp add: exhausted_def)
  then have rem: "?a = remainingTokens l - ld_reservedTokens l" by (simp add: availableTokens_def max_def split: if_splits)
  have "remainingTokens l \<le> bl_maxTokensPerTask (ld_limits l) \<or> remainingTokens l = 0"
    using assms(2) by (auto simp: remainingTokens_def)
  with a rem assms(3) have task: "?a \<le> bl_maxTokensPerTask (ld_limits l)" by linarith
  have allow: "allowanceFor l = ?a" using assms(4) by (simp add: allowanceFor_def)
  have grant: "snd (ld_reserve (wn_id node) (of_int (allowanceFor l)) l) = ?a"
    and reserved: "ld_reservedTokens (reserve_node node l) = ld_reservedTokens l + ?a"
    and same: "ld_usedTokens (reserve_node node l) = ld_usedTokens l" "ld_limits (reserve_node node l) = ld_limits l"
    using a task assms(4) by (simp_all add: reserve_node_def ld_reserve_def allow Let_def min_def)
  have "availableTokens (reserve_node node l) = 0"
    using rem by (simp add: availableTokens_def remainingTokens_def reserved same)
  then have zero: "allowanceFor (reserve_node node l) = 0" using a assms(4) by (simp add: allowanceFor_def same)
  obtain l2 rq2 r where d: "dispatchWithRetry e node ov registry env (reserve_node node l) = (l2, rq2, r)"
    by (metis prod_cases3)
  have "rqs = rq2" using assms(1,5) d by (auto simp: runNode_def Let_def split: sum.splits if_splits prod.splits)
  with dispatch_ledger [OF d] zero assms(6) have "rq_maxTokens rq = 0" by auto
  with grant a show ?thesis by simp
qed

subsection \<open>The stand-alone dispatcher's schedule\<close>

fun http_text :: "http_step \<Rightarrow> string" where
  "http_text (HttpRetry m) = m" | "http_text (HttpThrow m) = m" | "http_text (HttpDone v) = ''''"

definition http_retries :: "http_options \<Rightarrow> agent \<Rightarrow> ident \<Rightarrow> fetch_outcome \<Rightarrow> bool" where
  "http_retries ho ag nodeId f \<longleftrightarrow> (case http_attempt ho ag nodeId f of HttpRetry _ \<Rightarrow> True | _ \<Rightarrow> False)"

lemma http_loop_spec:
  fixes ho ag nodeId env k n
  defines "j \<equiv> leading (\<lambda>i. http_retries ho ag nodeId (env i)) k n"
  assumes "int k + int n = ho_maxRetries ho + 1"
  shows "http_loop ho ag nodeId env n k err =
    (map (\<lambda>i. ho_retryDelayMs ho * 2 ^ i) [k..<k + (if j = n then n - 1 else j)],
     if j = n then n else Suc j,
     if j = n then Inl (if n = 0 then err else http_text (http_attempt ho ag nodeId (env (k + n - 1))))
     else case http_attempt ho ag nodeId (env (k + j)) of HttpDone v \<Rightarrow> Inr v | s \<Rightarrow> Inl (http_text s))"
  using assms(2) unfolding j_def
proof (induction n arbitrary: k err)
  case (Suc n)
  show ?case
  proof (cases "http_attempt ho ag nodeId (env k)")
    case (HttpRetry m)
    have r: "http_retries ho ag nodeId (env k)" by (simp add: http_retries_def HttpRetry)
    have n: "int (Suc k) + int n = ho_maxRetries ho + 1" using Suc.prems by simp
    note IH = Suc.IH [OF n, of m]
    have w: "int k < ho_maxRetries ho \<longleftrightarrow> 0 < n" using Suc.prems by auto
    have split: "0 < x \<Longrightarrow> [k..<k + x] = k # [Suc k..<Suc k + (x - 1)]" for x
      by (simp add: upt_conv_Cons)
    have lead: "leading (\<lambda>i. http_retries ho ag nodeId (env i)) (Suc k) n \<le> n" by (rule leading_le)
    show ?thesis using r IH w lead HttpRetry
      by (cases n) (auto simp: split)
  qed (simp_all add: http_retries_def)
qed simp

text \<open>
  With at least one attempt: the calls stop at the first outcome that is not to be retried, at
  most \<open>maxRetries + 1\<close> of them, and the waits between them double.
\<close>

lemma http_dispatch_spec:
  assumes "0 \<le> ho_maxRetries ho" and "j = leading (\<lambda>i. http_retries ho ag nodeId (env i)) 0 (nat (ho_maxRetries ho + 1))"
  shows "httpDispatch ho ag nodeId env =
    (let n = nat (ho_maxRetries ho + 1) in
     if j = n then (map (\<lambda>i. ho_retryDelayMs ho * 2 ^ i) [0..<nat (ho_maxRetries ho)], n,
        Inl (http_text (http_attempt ho ag nodeId (env (nat (ho_maxRetries ho))))))
     else (map (\<lambda>i. ho_retryDelayMs ho * 2 ^ i) [0..<j], Suc j,
        case http_attempt ho ag nodeId (env j) of HttpDone v \<Rightarrow> Inr v | s \<Rightarrow> Inl (http_text s)))"
proof -
  have "int 0 + int (nat (ho_maxRetries ho + 1)) = ho_maxRetries ho + 1" using assms(1) by simp
  note spec = http_loop_spec [OF this, of ag nodeId env, folded assms(2)]
  have "nat (ho_maxRetries ho + 1) - 1 = nat (ho_maxRetries ho)" "0 < nat (ho_maxRetries ho + 1)" using assms(1) by auto
  then show ?thesis by (simp add: httpDispatch_def spec Let_def)
qed

subsection \<open>Concrete runs\<close>

definition demo_agent :: "ident \<Rightarrow> rat \<Rightarrow> rat option \<Rightarrow> agent" where
  "demo_agent i c rep = \<lparr> ag_id = i, ag_type = ''report'', ag_endpoint = ''http://a'', ag_cost = c,
     ag_online = True, ag_reputation = rep \<rparr>"

definition demo_registry :: "(string \<Rightarrow> agent list) option" where
  "demo_registry = Some (\<lambda>t. [demo_agent ''b'' 2 (Some 5), demo_agent ''a'' 1 None, demo_agent ''c'' 3 (Some 9)])"

definition demo_env :: dispatch_env where
  "demo_env = \<lparr> de_overrides = [], de_stringify = (\<lambda>v. ''{}''), de_number = (\<lambda>v. None), de_timeoutMs = 30000 \<rparr>"

definition demo_work :: work_node where
  "demo_work = \<lparr> wn_id = ''n'', wn_type = ''report'', wn_prompt = None \<rparr>"

definition demo_fetches :: "nat \<Rightarrow> fetch_outcome" where
  "demo_fetches k = (if k = 0 then FetchResponse 503 ''busy'' EmptyBody else if k < 3 then FetchAborted
     else FetchResponse 200 ''ok'' (JsonBody (JObj [(''result'', JStr ''done'')])))"

lemma demo_agents: "agentsFor demo_registry (wn_type demo_work)
    = Inr [demo_agent ''a'' 1 None, demo_agent ''b'' 2 (Some 5), demo_agent ''c'' 3 (Some 9)]"
  by (simp add: agentsFor_def demo_registry_def sortByCost_def demo_agent_def Let_def)

theorem dispatch_attempts_witness:
  "\<exists>l' rqs. dispatchWithRetry demo_env demo_work None demo_registry demo_fetches (new_ledger ''t'' demo_lo 0)
      = (l', rqs, Inr (Some ''c'', JStr ''done'')) \<and> map rq_agent rqs = [''a'', ''a'', ''a'', ''c'']"
proof -
  obtain l' rqs r where d: "dispatchWithRetry demo_env demo_work None demo_registry demo_fetches
      (new_ledger ''t'' demo_lo 0) = (l', rqs, r)" by (metis prod_cases3)
  have j: "3 = leading (\<lambda>i. retry_at demo_env (hd [demo_agent ''a'' 1 None, demo_agent ''b'' 2 (Some 5), demo_agent ''c'' 3 (Some 9)])
      (demo_fetches i)) 0 3"
    by (simp add: eval_nat_numeral retry_at_def attempt_result_def demo_fetches_def)
  have f: "selectFallbackAgent [demo_agent ''a'' 1 None, demo_agent ''b'' 2 (Some 5), demo_agent ''c'' 3 (Some 9)] ''a''
      = Some (demo_agent ''c'' 3 (Some 9))"
    by (simp add: selectFallbackAgent_def best_by_def demo_agent_def fallback_key_def less_eq_prod_simp)
  have r: "attempt_result demo_env (demo_agent ''c'' 3 (Some 9)) (demo_fetches 3) = Inr (JObj [(''result'', JStr ''done'')])"
    by (simp add: attempt_result_def demo_fetches_def response_ok_def)
  have id: "ag_id (demo_agent i c q) = i" for i c q by (simp add: demo_agent_def)
  from dispatch_attempts [OF demo_agents d j]
  have "map rq_agent rqs = replicate 3 ''a'' @ [''c''] \<and> r = Inr (Some ''c'', unwrapAgentResult (JObj [(''result'', JStr ''done'')]))"
    by (simp add: id f r)
  with d show ?thesis by (simp add: unwrapAgentResult_def eval_nat_numeral)
qed

theorem node_run_settles_reservation_witness:
  "\<exists>l' rqs out. runNode demo_env False demo_work None demo_registry demo_fetches (new_ledger ''t'' demo_lo 0)
      = (l', rqs, out) \<and> ld_reservedTokens l' = 0"
proof -
  obtain l' rqs r where d: "runNode demo_env False demo_work None demo_registry demo_fetches
      (new_ledger ''t'' demo_lo 0) = (l', rqs, r)" by (metis prod_cases3)
  from node_run_settles_reservation [OF _ _ _ d] d show ?thesis
    by (simp add: new_ledger_def usageCallsFor_def)
qed

theorem told_allowance_excludes_own_reservation_witness:
  "\<exists>l' rqs out. runNode demo_env False demo_work None demo_registry demo_fetches
      ((new_ledger ''t'' demo_lo 0)\<lparr>ld_limits := \<lparr> bl_maxTokensPerTask = 500, bl_maxTokensPerCall = 800,
         bl_maxPromptTokens = 100 \<rparr>\<rparr>) = (l', rqs, out) \<and> (\<forall>rq \<in> set rqs. rq_maxTokens rq = 0)"
proof -
  let ?l = "(new_ledger ''t'' demo_lo 0)\<lparr>ld_limits := \<lparr> bl_maxTokensPerTask = 500, bl_maxTokensPerCall = 800,
         bl_maxPromptTokens = 100 \<rparr>\<rparr>"
  obtain l' rqs r where d: "runNode demo_env False demo_work None demo_registry demo_fetches ?l = (l', rqs, r)"
    by (metis prod_cases3)
  have h: "\<not> exhausted ?l" "0 \<le> ld_usedTokens ?l" "0 \<le> ld_reservedTokens ?l"
    "availableTokens ?l \<le> bl_maxTokensPerCall (ld_limits ?l)"
    by (simp_all add: exhausted_def availableTokens_def remainingTokens_def new_ledger_def)
  have "\<forall>rq \<in> set rqs. rq_maxTokens rq = 0"
    using told_allowance_excludes_own_reservation [OF h d] by blast
  with d show ?thesis by blast
qed

end
