(* ===== verification/EventLog.thy ===== *)
theory EventLog
  imports JsValue "HOL-Library.Product_Lexorder"
begin

text \<open>
  The event bus (\<open>backend/src/coordinator/eventBus.ts\<close>), the append-only event store behind
  it (\<open>backend/src/events/eventStore.ts\<close>), and the read models folded from its rows
  (\<open>events/replay.ts\<close>, \<open>events/projection.ts\<close>). The table \<open>task_events\<close> is the list of its rows in
  insertion order; \<open>UNIQUE (task_id, task_seq)\<close> and a failing disk are branches of the insertion.
  Payloads are JSON values: a stored text is the value it was written from.
\<close>

subsection \<open>Events\<close>

record app_event =
  ae_type :: string
  ae_taskId :: ident
  ae_nodeId :: "ident option"
  ae_occurredAt :: ms
  ae_version :: "nat option"
  ae_taskSeq :: "nat option"
  ae_payload :: "js_val option"

record bus_event =
  be_type :: string
  be_taskId :: ident
  be_nodeId :: "ident option"
  be_timestamp :: ms
  be_payload :: "js_val option"
  be_seq :: "nat option"

definition CURRENT_EVENT_VERSION :: nat where
  "CURRENT_EVENT_VERSION = 2"

definition TYPE_MAP :: "(string \<times> string) list" where
  "TYPE_MAP = [(''node_started'', ''NodeStarted''), (''node_completed'', ''NodeCompleted''),
     (''node_failed'', ''NodeFailed''), (''payment_locked'', ''PaymentLocked''),
     (''payment_released'', ''PaymentReleased''), (''task_completed'', ''TaskCompleted''),
     (''task_failed'', ''TaskFailed'')]"

text \<open>\<open>payload ?? {}\<close> on node events, \<open>payload ?? undefined\<close> on the others.\<close>

definition dagEventToAppEvent :: "bus_event \<Rightarrow> app_event" where
  "dagEventToAppEvent e =
     \<lparr> ae_type = or_else (be_type e) (map_of TYPE_MAP (be_type e)), ae_taskId = be_taskId e,
       ae_nodeId = (case be_nodeId e of Some i \<Rightarrow> if i = '''' then None else Some i | None \<Rightarrow> None),
       ae_occurredAt = be_timestamp e, ae_version = Some CURRENT_EVENT_VERSION, ae_taskSeq = be_seq e,
       ae_payload = (case be_payload e of
           None \<Rightarrow> if be_nodeId e \<in> {None, Some ''''} then None else Some (JObj [])
         | Some JNull \<Rightarrow> if be_nodeId e \<in> {None, Some ''''} then None else Some (JObj [])
         | Some v \<Rightarrow> Some v) \<rparr>"

subsection \<open>The store\<close>

record event_row =
  er_globalSeq :: nat
  er_taskSeq :: nat
  er_version :: nat
  er_type :: string
  er_taskId :: ident
  er_nodeId :: "ident option"
  er_occurredAt :: ms
  er_payload :: "js_val option"

record event_store =
  es_rows :: "event_row list"
  es_nextGlobal :: nat

definition rowToStoredEvent :: "event_row \<Rightarrow> app_event \<times> nat" where
  "rowToStoredEvent r = (\<lparr> ae_type = er_type r, ae_taskId = er_taskId r, ae_nodeId = er_nodeId r,
     ae_occurredAt = er_occurredAt r, ae_version = Some (er_version r), ae_taskSeq = Some (er_taskSeq r),
     ae_payload = er_payload r \<rparr>, er_globalSeq r)"

definition empty_store :: event_store where
  "empty_store = \<lparr> es_rows = [], es_nextGlobal = 1 \<rparr>"

text \<open>\<open>None\<close> is a violated constraint or a failed write.\<close>

definition es_append :: "bool \<Rightarrow> app_event \<Rightarrow> event_store \<Rightarrow> (event_store \<times> nat) option" where
  "es_append diskOk e st =
     (let taskSeq = or_else 0 (ae_taskSeq e);
          row = \<lparr> er_globalSeq = es_nextGlobal st, er_taskSeq = taskSeq, er_version = or_else 1 (ae_version e),
                  er_type = ae_type e, er_taskId = ae_taskId e, er_nodeId = ae_nodeId e,
                  er_occurredAt = ae_occurredAt e, er_payload = ae_payload e \<rparr>
      in if \<not> diskOk \<or> (\<exists>r \<in> set (es_rows st). er_taskId r = ae_taskId e \<and> er_taskSeq r = taskSeq) then None
         else Some (st\<lparr>es_rows := es_rows st @ [row], es_nextGlobal := es_nextGlobal st + 1\<rparr>, es_nextGlobal st))"

definition task_rows :: "ident \<Rightarrow> event_store \<Rightarrow> event_row list" where
  "task_rows taskId st = sort_key er_taskSeq (filter (\<lambda>r. er_taskId r = taskId) (es_rows st))"

definition listByTask :: "ident \<Rightarrow> event_store \<Rightarrow> (app_event \<times> nat) list" where
  "listByTask taskId st = map rowToStoredEvent (task_rows taskId st)"

definition rows_since :: "ident \<Rightarrow> int \<Rightarrow> nat option \<Rightarrow> event_store \<Rightarrow> event_row list" where
  "rows_since taskId afterSeq limit st =
     (let rows = filter (\<lambda>r. afterSeq < int (er_taskSeq r)) (task_rows taskId st)
      in case limit of None \<Rightarrow> rows | Some n \<Rightarrow> take n rows)"

definition listByTaskSince :: "ident \<Rightarrow> int \<Rightarrow> nat option \<Rightarrow> event_store \<Rightarrow> (app_event \<times> nat) list" where
  "listByTaskSince taskId afterSeq limit st = map rowToStoredEvent (rows_since taskId afterSeq limit st)"

definition listByTimeRange :: "ms \<Rightarrow> ms \<Rightarrow> event_store \<Rightarrow> (app_event \<times> nat) list" where
  "listByTimeRange from to st = map rowToStoredEvent (sort_key er_occurredAt
     (filter (\<lambda>r. from \<le> er_occurredAt r \<and> er_occurredAt r \<le> to) (es_rows st)))"

definition listByType :: "string \<Rightarrow> (ms \<times> ms) option \<Rightarrow> event_store \<Rightarrow> (app_event \<times> nat) list" where
  "listByType type window st = map rowToStoredEvent (sort_key er_occurredAt (filter (\<lambda>r. er_type r = type
     \<and> (case window of None \<Rightarrow> True | Some (from, to) \<Rightarrow> from \<le> er_occurredAt r \<and> er_occurredAt r \<le> to)) (es_rows st)))"

fun max_seqs :: "event_row list \<Rightarrow> (ident, nat) jsmap \<Rightarrow> (ident, nat) jsmap" where
  "max_seqs [] m = m"
| "max_seqs (r # rs) m = max_seqs rs (jm_set m (er_taskId r)
     (case jm_get m (er_taskId r) of None \<Rightarrow> er_taskSeq r | Some k \<Rightarrow> max k (er_taskSeq r)))"

definition maxTaskSeqPerTask :: "event_store \<Rightarrow> (ident, nat) jsmap" where
  "maxTaskSeqPerTask st = max_seqs (es_rows st) []"

subsection \<open>The bus\<close>

record event_bus =
  eb_nextSeqByTask :: "(ident, nat) jsmap"
  eb_store :: event_store

text \<open>The constructor; also what a restart of the process leaves, as only the store survives.\<close>

definition new_bus :: "event_store \<Rightarrow> event_bus" where
  "new_bus st = \<lparr> eb_nextSeqByTask = map (\<lambda>(t, k). (t, k + 1)) (maxTaskSeqPerTask st), eb_store = st \<rparr>"

text \<open>\<open>emit\<close> returns the event as its subscribers see it; a failed write is logged only.\<close>

definition eb_emit :: "bool \<Rightarrow> ident \<Rightarrow> bus_event \<Rightarrow> event_bus \<Rightarrow> event_bus \<times> bus_event" where
  "eb_emit diskOk taskId e b =
     (let seq = or_else 0 (jm_get (eb_nextSeqByTask b) taskId);
          e' = e\<lparr>be_seq := Some seq\<rparr>
      in (b\<lparr>eb_nextSeqByTask := jm_set (eb_nextSeqByTask b) taskId (seq + 1),
            eb_store := (case es_append diskOk (dagEventToAppEvent e') (eb_store b) of
                Some (st, _) \<Rightarrow> st | None \<Rightarrow> eb_store b)\<rparr>, e'))"

datatype bus_op = Emit bus_event | Restart

fun bus_run :: "bus_op list \<Rightarrow> event_bus \<Rightarrow> event_bus \<times> bus_event list" where
  "bus_run [] b = (b, [])"
| "bus_run (Emit e # xs) b = (case eb_emit True (be_taskId e) e b of (b', e') \<Rightarrow>
     (case bus_run xs b' of (b'', es) \<Rightarrow> (b'', e' # es)))"
| "bus_run (Restart # xs) b = bus_run xs (new_bus (eb_store b))"

subsection \<open>The log is gapless\<close>

definition next_seq :: "ident \<Rightarrow> event_bus \<Rightarrow> nat" where
  "next_seq t b = or_else 0 (jm_get (eb_nextSeqByTask b) t)"

definition rows_of :: "ident \<Rightarrow> event_store \<Rightarrow> event_row list" where
  "rows_of t st = filter (\<lambda>r. er_taskId r = t) (es_rows st)"

definition bus_inv :: "event_bus \<Rightarrow> bool" where
  "bus_inv b \<longleftrightarrow> (\<forall>t. map er_taskSeq (rows_of t (eb_store b)) = [0..<next_seq t b])
     \<and> sorted_wrt (\<lambda>r s. er_globalSeq r < er_globalSeq s) (es_rows (eb_store b))
     \<and> (\<forall>r \<in> set (es_rows (eb_store b)). er_globalSeq r < es_nextGlobal (eb_store b))"

definition max_step :: "nat option \<Rightarrow> nat \<Rightarrow> nat option" where
  "max_step acc k = Some (case acc of None \<Rightarrow> k | Some j \<Rightarrow> max j k)"

lemma max_seqs_get: "jm_get (max_seqs rs m) t
    = foldl max_step (jm_get m t) (map er_taskSeq (filter (\<lambda>r. er_taskId r = t) rs))"
  by (induction rs arbitrary: m) (auto simp: js_map max_step_def split: option.split)

lemma max_upt: "foldl max_step None [0..<n] = (if n = 0 then None else Some (n - 1))"
  by (induction n) (auto simp: max_step_def)

lemma jm_get_map: "jm_get (map (\<lambda>(t, k). (t, f k)) m) t = map_option f (jm_get m t)"
  by (induction m) auto

lemma new_bus_seq: "map er_taskSeq (rows_of t st) = [0..<n] \<Longrightarrow> next_seq t (new_bus st) = n"
  by (simp add: next_seq_def new_bus_def jm_get_map maxTaskSeqPerTask_def max_seqs_get rows_of_def max_upt)

lemma restart_inv: "bus_inv b \<Longrightarrow> bus_inv (new_bus (eb_store b)) \<and> next_seq t (new_bus (eb_store b)) = next_seq t b"
  by (simp add: bus_inv_def new_bus_seq) (simp add: new_bus_def)

lemma dag_app_simps [simp]:
  "ae_taskSeq (dagEventToAppEvent e) = be_seq e" "ae_taskId (dagEventToAppEvent e) = be_taskId e"
  "ae_version (dagEventToAppEvent e) = Some CURRENT_EVENT_VERSION"
  by (simp_all add: dagEventToAppEvent_def)

definition log_row :: "bus_event \<Rightarrow> nat \<Rightarrow> event_row" where
  "log_row e g = (let a = dagEventToAppEvent e in
     \<lparr> er_globalSeq = g, er_taskSeq = or_else 0 (be_seq e), er_version = CURRENT_EVENT_VERSION, er_type = ae_type a,
       er_taskId = be_taskId e, er_nodeId = ae_nodeId a, er_occurredAt = ae_occurredAt a, er_payload = ae_payload a \<rparr>)"

lemma log_row_simps [simp]: "er_taskId (log_row e g) = be_taskId e" "er_taskSeq (log_row e g) = or_else 0 (be_seq e)"
  "er_globalSeq (log_row e g) = g"
  by (simp_all add: log_row_def Let_def)

lemma log_row_roundtrip: "be_seq e \<noteq> None \<Longrightarrow> rowToStoredEvent (log_row e g) = (dagEventToAppEvent e, g)"
  by (cases "be_seq e") (simp_all add: rowToStoredEvent_def log_row_def Let_def dagEventToAppEvent_def)

lemma append_log_row:
  assumes "be_seq e = Some k" and "\<And>r. r \<in> set (es_rows st) \<Longrightarrow> er_taskId r = be_taskId e \<Longrightarrow> er_taskSeq r \<noteq> k"
  shows "es_append True (dagEventToAppEvent e) st
    = Some (st\<lparr>es_rows := es_rows st @ [log_row e (es_nextGlobal st)], es_nextGlobal := es_nextGlobal st + 1\<rparr>, es_nextGlobal st)"
  using assms by (auto simp: es_append_def log_row_def Let_def)

lemma emit_view:
  assumes "bus_inv b" and "eb_emit True (be_taskId e) e b = (b', e')"
  shows "e' = e\<lparr>be_seq := Some (next_seq (be_taskId e) b)\<rparr>
    \<and> es_rows (eb_store b') = es_rows (eb_store b) @ [log_row e' (es_nextGlobal (eb_store b))]
    \<and> next_seq t b' = (if t = be_taskId e then next_seq t b + 1 else next_seq t b) \<and> bus_inv b'"
proof -
  let ?t = "be_taskId e" and ?k = "next_seq (be_taskId e) b"
  have e': "e' = e\<lparr>be_seq := Some ?k\<rparr>" using assms(2) by (simp add: eb_emit_def next_seq_def Let_def)
  have "er_taskSeq r \<noteq> ?k" if "r \<in> set (es_rows (eb_store b))" "er_taskId r = ?t" for r
  proof -
    have "er_taskSeq r \<in> set (map er_taskSeq (rows_of ?t (eb_store b)))" using that by (auto simp: rows_of_def)
    moreover have "map er_taskSeq (rows_of ?t (eb_store b)) = [0..<?k]" using assms(1) by (simp add: bus_inv_def)
    ultimately have "er_taskSeq r \<in> set [0..<?k]" by metis
    then show ?thesis by simp
  qed
  then have store: "eb_store b' = (eb_store b)\<lparr>es_rows := es_rows (eb_store b) @ [log_row e' (es_nextGlobal (eb_store b))],
      es_nextGlobal := es_nextGlobal (eb_store b) + 1\<rparr>"
    using assms(2) append_log_row [of e' ?k "eb_store b"] e' by (auto simp: eb_emit_def next_seq_def Let_def)
  have seq: "next_seq t b' = (if t = ?t then next_seq t b + 1 else next_seq t b)" for t
    using assms(2) by (auto simp: eb_emit_def next_seq_def Let_def js_map)
  have "bus_inv b'"
    using assms(1) e' by (auto simp: bus_inv_def store seq rows_of_def sorted_wrt_append less_Suc_eq)
  with e' store seq show ?thesis by simp
qed

definition of_task :: "ident \<Rightarrow> bus_event list \<Rightarrow> bus_event list" where
  "of_task t es = filter (\<lambda>e. be_taskId e = t) es"

lemma bus_run_view:
  "bus_inv b \<Longrightarrow> bus_run xs b = (b', es) \<Longrightarrow> bus_inv b'
    \<and> map be_seq (of_task t es) = map Some [next_seq t b..<next_seq t b'] \<and> next_seq t b \<le> next_seq t b'
    \<and> map (\<lambda>r. fst (rowToStoredEvent r)) (rows_of t (eb_store b'))
      = map (\<lambda>r. fst (rowToStoredEvent r)) (rows_of t (eb_store b)) @ map dagEventToAppEvent (of_task t es)"
proof (induction xs arbitrary: b es)
  case Nil
  then show ?case by (simp add: of_task_def)
next
  case (Cons x xs)
  show ?case
  proof (cases x)
    case Restart
    then have "bus_run xs (new_bus (eb_store b)) = (b', es)" using Cons.prems(2) by simp
    from Cons.IH [OF _ this] restart_inv [OF Cons.prems(1), of t] show ?thesis
      by (simp add: new_bus_def)
  next
    case (Emit e)
    obtain c e' where e: "eb_emit True (be_taskId e) e b = (c, e')" by fastforce
    obtain fs where r: "bus_run xs c = (b', fs)" "es = e' # fs"
      using Cons.prems(2) e Emit by (cases "bus_run xs c") auto
    note v = emit_view [OF Cons.prems(1) e]
    have inv: "bus_inv c" and e': "e' = e\<lparr>be_seq := Some (next_seq (be_taskId e) b)\<rparr>" using v by auto
    note IH = Cons.IH [OF inv r(1)]
    have rows: "map (\<lambda>r. fst (rowToStoredEvent r)) (rows_of t (eb_store c)) = map (\<lambda>r. fst (rowToStoredEvent r)) (rows_of t (eb_store b))
        @ map dagEventToAppEvent (of_task t [e'])"
      using v by (auto simp: rows_of_def of_task_def log_row_roundtrip)
    show ?thesis
    proof (cases "be_taskId e = t")
      case True
      then have "next_seq t c = next_seq t b + 1" "of_task t es = e' # of_task t fs"
        using v r(2) by (simp_all add: of_task_def)
      with IH rows e' True show ?thesis by (simp add: of_task_def upt_conv_Cons)
    next
      case False
      then have "next_seq t c = next_seq t b" "of_task t es = of_task t fs"
        using v r(2) by (simp_all add: of_task_def)
      with IH rows e' False show ?thesis by (simp add: of_task_def)
    qed
  qed
qed

lemma empty_bus_inv: "bus_inv (new_bus empty_store)"
  by (simp add: bus_inv_def new_bus_def empty_store_def rows_of_def next_seq_def maxTaskSeqPerTask_def)

lemma task_rows_sorted: "bus_inv b \<Longrightarrow> task_rows t (eb_store b) = rows_of t (eb_store b)"
proof -
  assume "bus_inv b"
  then have "sorted (map er_taskSeq (rows_of t (eb_store b)))" by (simp add: bus_inv_def)
  then show ?thesis by (simp add: task_rows_def rows_of_def sort_key_id_if_sorted)
qed

lemma log_lists_emitted:
  "map fst (listByTask t (eb_store (fst (bus_run xs (new_bus empty_store)))))
    = map dagEventToAppEvent (of_task t (snd (bus_run xs (new_bus empty_store))))"
  "map be_seq (of_task t (snd (bus_run xs (new_bus empty_store))))
    = map Some [0..<next_seq t (fst (bus_run xs (new_bus empty_store)))]"
proof -
  obtain b es where r: "bus_run xs (new_bus empty_store) = (b, es)" by fastforce
  have z: "next_seq t (new_bus empty_store) = 0" "rows_of t (eb_store (new_bus empty_store)) = []"
    by (simp_all add: new_bus_def empty_store_def rows_of_def next_seq_def maxTaskSeqPerTask_def)
  note v = bus_run_view [OF empty_bus_inv r, of t]
  show "map be_seq (of_task t (snd (bus_run xs (new_bus empty_store))))
      = map Some [0..<next_seq t (fst (bus_run xs (new_bus empty_store)))]" using v z r by simp
  show "map fst (listByTask t (eb_store (fst (bus_run xs (new_bus empty_store)))))
      = map dagEventToAppEvent (of_task t (snd (bus_run xs (new_bus empty_store))))"
    using v z task_rows_sorted [of b t] by (simp add: r listByTask_def comp_def)
qed


end
