(* ===== verification/EventReplay.thy ===== *)
theory EventReplay
  imports EventLog DagScheduler
begin

text \<open>
  The read models folded from a task's event log: \<open>backend/src/events/replay.ts\<close> rebuilds the
  state of a task, \<open>backend/src/events/projection.ts\<close> its summary, the timeline of its nodes, the
  payment ledger and the throughput. Reading a field of a missing payload throws, which ends a fold:
  the flag of a result says whether it ran to its end. A missing node id is the key \<open>undefined\<close>.
  The theorems connect the folds with each other and with the scheduler whose events they read.
\<close>

datatype replayed_task_status = RQueued | RRunning | RCompleted | RFailed | RUnknown
datatype replayed_node_status = RnPending | RnRunning | RnCompleted | RnFailed

record replayed_node =
  rn_nodeId :: "ident option"
  rn_agentType :: "js_val option"
  rn_status :: replayed_node_status
  rn_result :: "js_val option"
  rn_error :: "js_val option"
  rn_startedAt :: "ms option"
  rn_settledAt :: "ms option"
  rn_paymentLockedAt :: "ms option"
  rn_balanceId :: "js_val option"
  rn_amountStroops :: "js_val option"
  rn_paymentTxHash :: "js_val option"

record replayed_state =
  rs_taskId :: ident
  rs_status :: replayed_task_status
  rs_prompt :: "js_val option"
  rs_walletPublicKey :: "js_val option"
  rs_nodes :: "(ident option, replayed_node) jsmap"
  rs_createdAt :: "ms option"
  rs_completedAt :: "ms option"
  rs_terminalError :: "js_val option"
  rs_lastTaskSeq :: int
  rs_eventCount :: nat

definition new_node :: "ident option \<Rightarrow> replayed_node" where
  "new_node i = \<lparr> rn_nodeId = i, rn_agentType = None, rn_status = RnPending, rn_result = None, rn_error = None,
     rn_startedAt = None, rn_settledAt = None, rn_paymentLockedAt = None, rn_balanceId = None,
     rn_amountStroops = None, rn_paymentTxHash = None \<rparr>"

text \<open>\<open>ensureNode\<close> returns the shared object, so what is done to it is done to the map's entry.\<close>

definition ensureNode :: "ident option \<Rightarrow> (replayed_node \<Rightarrow> replayed_node) \<Rightarrow> replayed_state \<Rightarrow> replayed_state" where
  "ensureNode i f st = st\<lparr>rs_nodes := jm_set (rs_nodes st) i (f (or_else (new_node i) (jm_get (rs_nodes st) i)))\<rparr>"

definition count_event :: "app_event \<Rightarrow> replayed_state \<Rightarrow> replayed_state" where
  "count_event e st = st\<lparr>rs_eventCount := rs_eventCount st + 1, rs_lastTaskSeq := (case ae_taskSeq e of
      Some k \<Rightarrow> if rs_lastTaskSeq st < int k then int k else rs_lastTaskSeq st | None \<Rightarrow> rs_lastTaskSeq st)\<rparr>"

definition applyEvent :: "app_event \<Rightarrow> replayed_state \<Rightarrow> replayed_state \<times> bool" where
  "applyEvent e st0 =
     (let st = count_event e st0; p = js_field (ae_payload e); node = ensureNode (ae_nodeId e); occ = Some (ae_occurredAt e)
      in if ae_type e = ''TaskCreated'' then
           (case p ''prompt'' of None \<Rightarrow> (st, False)
            | Some prompt \<Rightarrow> (st\<lparr>rs_prompt := prompt, rs_walletPublicKey := or_else None (p ''walletPublicKey''),
                rs_createdAt := occ, rs_status := RQueued\<rparr>, True))
         else if ae_type e = ''NodeStarted'' then
           (case p ''agentType'' of None \<Rightarrow> (node (\<lambda>n. n\<lparr>rn_status := RnRunning\<rparr>) st, False)
            | Some a \<Rightarrow> (let st1 = node (\<lambda>n. n\<lparr>rn_status := RnRunning, rn_agentType := a, rn_startedAt := occ\<rparr>) st
                in (if rs_status st1 = RQueued then st1\<lparr>rs_status := RRunning\<rparr> else st1, True)))
         else if ae_type e = ''NodeCompleted'' then
           (case p ''result'' of None \<Rightarrow> (node (\<lambda>n. n\<lparr>rn_status := RnCompleted\<rparr>) st, False)
            | Some r \<Rightarrow> (node (\<lambda>n. n\<lparr>rn_status := RnCompleted, rn_result := r, rn_settledAt := occ\<rparr>) st, True))
         else if ae_type e = ''NodeFailed'' then
           (case p ''error'' of None \<Rightarrow> (node (\<lambda>n. n\<lparr>rn_status := RnFailed\<rparr>) st, False)
            | Some r \<Rightarrow> (node (\<lambda>n. n\<lparr>rn_status := RnFailed, rn_error := r, rn_settledAt := occ\<rparr>) st, True))
         else if ae_type e = ''PaymentLocked'' then
           (case p ''balanceId'' of None \<Rightarrow> (node (\<lambda>n. n\<lparr>rn_paymentLockedAt := occ\<rparr>) st, False)
            | Some b \<Rightarrow> (node (\<lambda>n. n\<lparr>rn_paymentLockedAt := occ, rn_balanceId := b,
                rn_amountStroops := or_else None (p ''amountStroops'')\<rparr>) st, True))
         else if ae_type e = ''PaymentReleased'' then
           (case p ''txHash'' of None \<Rightarrow> (node (\<lambda>n. n) st, False)
            | Some h \<Rightarrow> (node (\<lambda>n. n\<lparr>rn_paymentTxHash := h\<rparr>) st, True))
         else if ae_type e = ''TaskCompleted'' then (st\<lparr>rs_status := RCompleted, rs_completedAt := occ\<rparr>, True)
         else if ae_type e = ''TaskFailed'' then
           (st\<lparr>rs_status := RFailed, rs_completedAt := occ, rs_terminalError := or_else None (p ''error'')\<rparr>, True)
         else (st, True))"

text \<open>A fold over a list whose step may throw.\<close>

fun fold_throw :: "('e \<Rightarrow> 's \<Rightarrow> 's \<times> bool) \<Rightarrow> 'e list \<Rightarrow> 's \<Rightarrow> 's \<times> bool" where
  "fold_throw step [] st = (st, True)"
| "fold_throw step (e # es) st = (case step e st of (st', ok) \<Rightarrow> if ok then fold_throw step es st' else (st', False))"

definition new_state :: "ident \<Rightarrow> replayed_state" where
  "new_state t = \<lparr> rs_taskId = t, rs_status = RUnknown, rs_prompt = None, rs_walletPublicKey = None, rs_nodes = [],
     rs_createdAt = None, rs_completedAt = None, rs_terminalError = None, rs_lastTaskSeq = -1, rs_eventCount = 0 \<rparr>"

datatype js_error = TypeError

definition returned :: "'s \<times> bool \<Rightarrow> js_error + 's" where
  "returned x = (if snd x then Inr (fst x) else Inl TypeError)"

text \<open>\<open>Inr None\<close> is \<open>undefined\<close>, for no events.\<close>

definition replayTask :: "app_event list \<Rightarrow> js_error + replayed_state option" where
  "replayTask es = (case es of [] \<Rightarrow> Inr None
     | first # _ \<Rightarrow> map_sum id Some (returned (fold_throw applyEvent es (new_state (ae_taskId first)))))"

definition replayTaskUpTo :: "app_event list \<Rightarrow> int \<Rightarrow> js_error + replayed_state option" where
  "replayTaskUpTo es targetSeq = replayTask (filter (\<lambda>e. case ae_taskSeq e of None \<Rightarrow> True | Some k \<Rightarrow> int k \<le> targetSeq) es)"

definition applyEventToState :: "replayed_state \<Rightarrow> app_event \<Rightarrow> js_error + replayed_state" where
  "applyEventToState st e = returned (applyEvent e st)"

subsection \<open>Projections\<close>

datatype summary_status = SmQueued | SmRunning | SmCompleted | SmFailed

record task_summary =
  sm_taskId :: ident
  sm_status :: summary_status
  sm_prompt :: "js_val option"
  sm_walletPublicKey :: "js_val option"
  sm_nodeCount :: nat
  sm_completedNodeCount :: nat
  sm_failedNodeCount :: nat
  sm_createdAt :: "ms option"
  sm_completedAt :: "ms option"

definition new_summary :: "ident \<Rightarrow> task_summary" where
  "new_summary t = \<lparr> sm_taskId = t, sm_status = SmQueued, sm_prompt = None, sm_walletPublicKey = None, sm_nodeCount = 0,
     sm_completedNodeCount = 0, sm_failedNodeCount = 0, sm_createdAt = None, sm_completedAt = None \<rparr>"

definition summary_event :: "app_event \<Rightarrow> task_summary \<Rightarrow> task_summary \<times> bool" where
  "summary_event e s =
     (let p = js_field (ae_payload e); occ = Some (ae_occurredAt e)
      in if ae_type e = ''TaskCreated'' then
           (case p ''prompt'' of None \<Rightarrow> (s, False)
            | Some prompt \<Rightarrow> (s\<lparr>sm_prompt := prompt, sm_walletPublicKey := or_else None (p ''walletPublicKey''),
                sm_createdAt := occ, sm_status := SmQueued\<rparr>, True))
         else if ae_type e = ''NodeStarted'' then (s\<lparr>sm_status := SmRunning, sm_nodeCount := sm_nodeCount s + 1\<rparr>, True)
         else if ae_type e = ''NodeCompleted'' then (s\<lparr>sm_completedNodeCount := sm_completedNodeCount s + 1\<rparr>, True)
         else if ae_type e = ''NodeFailed'' then (s\<lparr>sm_failedNodeCount := sm_failedNodeCount s + 1\<rparr>, True)
         else if ae_type e = ''TaskCompleted'' then (s\<lparr>sm_status := SmCompleted, sm_completedAt := occ\<rparr>, True)
         else if ae_type e = ''TaskFailed'' then (s\<lparr>sm_status := SmFailed, sm_completedAt := occ\<rparr>, True)
         else (s, True))"

definition summary_step :: "app_event \<Rightarrow> (ident, task_summary) jsmap \<Rightarrow> (ident, task_summary) jsmap \<times> bool" where
  "summary_step e m = (case summary_event e (or_else (new_summary (ae_taskId e)) (jm_get m (ae_taskId e))) of
     (s, ok) \<Rightarrow> (jm_set m (ae_taskId e) s, ok))"

definition projectTaskSummary :: "app_event list \<Rightarrow> js_error + (ident, task_summary) jsmap" where
  "projectTaskSummary es = returned (fold_throw summary_step es [])"

record timeline_entry =
  tl_nodeId :: ident
  tl_agentType :: "js_val option"
  tl_startedAt :: "ms option"
  tl_settledAt :: "ms option"
  tl_durationMs :: "ms option"
  tl_status :: replayed_node_status
  tl_error :: "js_val option"

definition new_entry :: "ident \<Rightarrow> timeline_entry" where
  "new_entry i = \<lparr> tl_nodeId = i, tl_agentType = None, tl_startedAt = None, tl_settledAt = None, tl_durationMs = None,
     tl_status = RnPending, tl_error = None \<rparr>"

definition tl_settle :: "ms \<Rightarrow> timeline_entry \<Rightarrow> timeline_entry" where
  "tl_settle occ n = n\<lparr>tl_settledAt := Some occ, tl_durationMs := (case tl_startedAt n of
     Some s \<Rightarrow> Some (occ - s) | None \<Rightarrow> tl_durationMs n)\<rparr>"

definition timeline_event :: "app_event \<Rightarrow> timeline_entry \<Rightarrow> timeline_entry \<times> bool" where
  "timeline_event e n =
     (let p = js_field (ae_payload e)
      in if ae_type e = ''NodeStarted'' then
           (case p ''agentType'' of None \<Rightarrow> (n\<lparr>tl_status := RnRunning\<rparr>, False)
            | Some a \<Rightarrow> (n\<lparr>tl_status := RnRunning, tl_agentType := a, tl_startedAt := Some (ae_occurredAt e)\<rparr>, True))
         else if ae_type e = ''NodeCompleted'' then (tl_settle (ae_occurredAt e) (n\<lparr>tl_status := RnCompleted\<rparr>), True)
         else if ae_type e = ''NodeFailed'' then
           (case p ''error'' of None \<Rightarrow> (n\<lparr>tl_status := RnFailed\<rparr>, False)
            | Some r \<Rightarrow> (tl_settle (ae_occurredAt e) (n\<lparr>tl_status := RnFailed, tl_error := r\<rparr>), True))
         else (n, True))"

definition timeline_step :: "app_event \<Rightarrow> (ident, timeline_entry) jsmap \<Rightarrow> (ident, timeline_entry) jsmap \<times> bool" where
  "timeline_step e m = (case ae_nodeId e of None \<Rightarrow> (m, True)
     | Some i \<Rightarrow> if i = '''' then (m, True)
         else (case timeline_event e (or_else (new_entry i) (jm_get m i)) of (n, ok) \<Rightarrow> (jm_set m i n, ok)))"

definition projectNodeTimeline :: "app_event list \<Rightarrow> js_error + (ident, timeline_entry) jsmap" where
  "projectNodeTimeline es = returned (fold_throw timeline_step es [])"

datatype payment_status = PayLocked | PayReleased

record payment_entry =
  py_taskId :: ident
  py_nodeId :: ident
  py_balanceId :: "js_val option"
  py_amountStroops :: "js_val option"
  py_txHash :: "js_val option"
  py_status :: payment_status
  py_lockedAt :: "ms option"
  py_releasedAt :: "ms option"

definition ledger_step :: "app_event \<Rightarrow> (string, payment_entry) jsmap \<Rightarrow> (string, payment_entry) jsmap \<times> bool" where
  "ledger_step e m =
     (case ae_nodeId e of None \<Rightarrow> (m, True)
      | Some i \<Rightarrow>
          if i = '''' then (m, True)
          else let key = ae_taskId e @ '':'' @ i; p = js_field (ae_payload e)
            in if ae_type e = ''PaymentLocked'' then
                 (case p ''balanceId'' of None \<Rightarrow> (m, False)
                  | Some b \<Rightarrow> (jm_set m key \<lparr> py_taskId = ae_taskId e, py_nodeId = i, py_balanceId = b,
                      py_amountStroops = or_else None (p ''amountStroops''), py_txHash = None, py_status = PayLocked,
                      py_lockedAt = Some (ae_occurredAt e), py_releasedAt = None \<rparr>, True))
               else if ae_type e = ''PaymentReleased'' then
                 (case jm_get m key of
                    Some x \<Rightarrow> (case p ''txHash'' of None \<Rightarrow> (jm_set m key (x\<lparr>py_status := PayReleased\<rparr>), False)
                      | Some h \<Rightarrow> (jm_set m key (x\<lparr>py_status := PayReleased, py_txHash := h,
                          py_releasedAt := Some (ae_occurredAt e)\<rparr>), True))
                  | None \<Rightarrow> (case p ''txHash'' of None \<Rightarrow> (m, False)
                      | Some h \<Rightarrow> (jm_set m key \<lparr> py_taskId = ae_taskId e, py_nodeId = i, py_balanceId = None,
                          py_amountStroops = None, py_txHash = h, py_status = PayReleased, py_lockedAt = None,
                          py_releasedAt = Some (ae_occurredAt e) \<rparr>, True)))
               else (m, True))"

definition projectPaymentLedger :: "app_event list \<Rightarrow> js_error + (string, payment_entry) jsmap" where
  "projectPaymentLedger es = returned (fold_throw ledger_step es [])"

definition buildProjection :: "'e list \<Rightarrow> 's \<Rightarrow> ('s \<Rightarrow> 'e \<Rightarrow> 's) \<Rightarrow> 's" where
  "buildProjection es init reducer = foldl reducer init es"

record throughput_stats =
  th_totalEvents :: nat
  th_tasks :: "ident set"
  th_completedTasks :: nat
  th_failedTasks :: nat
  th_countByType :: "(string, nat) jsmap"
  th_windowStart :: "ms option"
  th_windowEnd :: "ms option"

definition throughput_step :: "throughput_stats \<Rightarrow> app_event \<Rightarrow> throughput_stats" where
  "throughput_step s e =
     s\<lparr>th_totalEvents := th_totalEvents s + 1, th_tasks := insert (ae_taskId e) (th_tasks s),
       th_countByType := jm_set (th_countByType s) (ae_type e) (or_else 0 (jm_get (th_countByType s) (ae_type e)) + 1),
       th_windowStart := (case th_windowStart s of Some w \<Rightarrow> if ae_occurredAt e < w then Some (ae_occurredAt e) else Some w
         | None \<Rightarrow> Some (ae_occurredAt e)),
       th_windowEnd := (case th_windowEnd s of Some w \<Rightarrow> if w < ae_occurredAt e then Some (ae_occurredAt e) else Some w
         | None \<Rightarrow> Some (ae_occurredAt e)),
       th_completedTasks := (if ae_type e = ''TaskCompleted'' then th_completedTasks s + 1 else th_completedTasks s),
       th_failedTasks := (if ae_type e = ''TaskFailed'' then th_failedTasks s + 1 else th_failedTasks s)\<rparr>"

text \<open>The number of distinct tasks is the size of \<open>th_tasks\<close>.\<close>

definition projectThroughput :: "app_event list \<Rightarrow> throughput_stats" where
  "projectThroughput es = foldl throughput_step \<lparr> th_totalEvents = 0, th_tasks = {}, th_completedTasks = 0,
     th_failedTasks = 0, th_countByType = [], th_windowStart = None, th_windowEnd = None \<rparr> es"

subsection \<open>The timeline agrees with the replay\<close>

lemma fold_throw_append: "fold_throw step (es @ fs) st
    = (case fold_throw step es st of (st', ok) \<Rightarrow> if ok then fold_throw step fs st' else (st', False))"
  by (induction es arbitrary: st) (auto split: prod.split)

definition replay_node :: "replayed_state \<Rightarrow> ident \<Rightarrow> replayed_node" where
  "replay_node st i = or_else (new_node (Some i)) (jm_get (rs_nodes st) (Some i))"

definition same_life :: "replayed_node \<Rightarrow> timeline_entry \<Rightarrow> bool" where
  "same_life n e \<longleftrightarrow> tl_status e = rn_status n \<and> tl_agentType e = rn_agentType n \<and> tl_startedAt e = rn_startedAt n
     \<and> tl_settledAt e = rn_settledAt n \<and> tl_error e = rn_error n"

definition timeline_agrees :: "replayed_state \<Rightarrow> (ident, timeline_entry) jsmap \<Rightarrow> bool" where
  "timeline_agrees st m \<longleftrightarrow> (\<forall>i. i \<noteq> '''' \<longrightarrow> same_life (replay_node st i) (or_else (new_entry i) (jm_get m i)))"

lemma replay_node_ensure: "replay_node (ensureNode j f st) i
    = (if j = Some i then f (replay_node st i) else replay_node st i)"
  by (auto simp: replay_node_def ensureNode_def js_map)

lemma replay_node_frame [simp]:
  "replay_node (count_event e st) i = replay_node st i" "replay_node (st\<lparr>rs_status := x\<rparr>) i = replay_node st i"
  "replay_node (st\<lparr>rs_completedAt := y\<rparr>) i = replay_node st i" "replay_node (st\<lparr>rs_terminalError := z\<rparr>) i = replay_node st i"
  "replay_node (st\<lparr>rs_prompt := z\<rparr>) i = replay_node st i" "replay_node (st\<lparr>rs_walletPublicKey := z\<rparr>) i = replay_node st i"
  "replay_node (st\<lparr>rs_createdAt := y\<rparr>) i = replay_node st i"
  by (simp_all add: replay_node_def count_event_def)

text \<open>What one event does to one node of the replay.\<close>

definition node_effect :: "app_event \<Rightarrow> replayed_node \<Rightarrow> replayed_node" where
  "node_effect e n =
     (let f = (\<lambda>k. or_else None (js_field (ae_payload e) k)); occ = Some (ae_occurredAt e)
      in if ae_type e = ''NodeStarted'' then n\<lparr>rn_status := RnRunning, rn_agentType := f ''agentType'', rn_startedAt := occ\<rparr>
         else if ae_type e = ''NodeCompleted'' then n\<lparr>rn_status := RnCompleted, rn_result := f ''result'', rn_settledAt := occ\<rparr>
         else if ae_type e = ''NodeFailed'' then n\<lparr>rn_status := RnFailed, rn_error := f ''error'', rn_settledAt := occ\<rparr>
         else if ae_type e = ''PaymentLocked'' then n\<lparr>rn_paymentLockedAt := occ, rn_balanceId := f ''balanceId'',
                rn_amountStroops := f ''amountStroops''\<rparr>
         else if ae_type e = ''PaymentReleased'' then n\<lparr>rn_paymentTxHash := f ''txHash''\<rparr> else n)"

lemma applyEvent_node: "applyEvent e st = (st', True) \<Longrightarrow> replay_node st' i
    = (if ae_nodeId e = Some i then node_effect e (replay_node st i) else replay_node st i)"
  by (auto simp: applyEvent_def node_effect_def Let_def replay_node_ensure split: if_splits option.splits)

lemma timeline_event_agrees:
  assumes "applyEvent e st = (st', True)" and "same_life n m"
  shows "\<exists>m'. timeline_event e m = (m', True) \<and> same_life (node_effect e n) m'"
  using assms by (auto simp: applyEvent_def timeline_event_def node_effect_def same_life_def tl_settle_def Let_def
      split: if_splits option.splits)

lemma timeline_step_agrees:
  assumes "applyEvent e st = (st', True)" and "timeline_agrees st m"
  shows "\<exists>m'. timeline_step e m = (m', True) \<and> timeline_agrees st' m'"
proof (cases "ae_nodeId e = None \<or> ae_nodeId e = Some ''''")
  case True
  then have "timeline_step e m = (m, True)" by (auto simp: timeline_step_def)
  moreover have "timeline_agrees st' m" using True assms by (auto simp: timeline_agrees_def applyEvent_node)
  ultimately show ?thesis by blast
next
  case False
  then obtain j where j: "ae_nodeId e = Some j" "j \<noteq> ''''" by auto
  with assms(2) have "same_life (replay_node st j) (or_else (new_entry j) (jm_get m j))"
    by (simp add: timeline_agrees_def)
  from timeline_event_agrees [OF assms(1) this] obtain n where
    n: "timeline_event e (or_else (new_entry j) (jm_get m j)) = (n, True)" "same_life (node_effect e (replay_node st j)) n"
    by blast
  have "timeline_agrees st' (jm_set m j n)"
    using assms n(2) j by (auto simp: timeline_agrees_def applyEvent_node [OF assms(1)] js_map)
  with n(1) j show ?thesis by (simp add: timeline_step_def)
qed

lemma timeline_fold_agrees: "fold_throw applyEvent es st = (st', True) \<Longrightarrow> timeline_agrees st m
    \<Longrightarrow> \<exists>m'. fold_throw timeline_step es m = (m', True) \<and> timeline_agrees st' m'"
proof (induction es arbitrary: st m)
  case (Cons e es)
  then obtain s1 where s1: "applyEvent e st = (s1, True)" "fold_throw applyEvent es s1 = (st', True)"
    by (auto split: prod.splits if_splits)
  from timeline_step_agrees [OF s1(1) Cons.prems(2)] Cons.IH [OF s1(2)] show ?case by fastforce
qed simp

text \<open>
  Whenever the replay of a task's events runs to its end, so does the projection of its
  timeline, and for every node the two agree on status, agent type, error, and the times it
  started and settled.
\<close>

theorem timeline_agrees_with_replay:
  assumes "replayTask es = Inr (Some st)"
  shows "\<exists>m. projectNodeTimeline es = Inr m \<and> (\<forall>i. i \<noteq> ''''
    \<longrightarrow> same_life (or_else (new_node (Some i)) (jm_get (rs_nodes st) (Some i))) (or_else (new_entry i) (jm_get m i)))"
proof -
  obtain e fs where es: "es = e # fs" using assms by (cases es) (auto simp: replayTask_def)
  have f: "fold_throw applyEvent es (new_state (ae_taskId e)) = (st, True)"
    using assms es by (auto simp: replayTask_def returned_def split: if_splits prod.splits) (metis prod.collapse)+
  have "timeline_agrees (new_state (ae_taskId e)) []"
    by (simp add: timeline_agrees_def replay_node_def new_state_def same_life_def new_node_def new_entry_def)
  from timeline_fold_agrees [OF f this] show ?thesis
    by (auto simp: projectNodeTimeline_def returned_def timeline_agrees_def replay_node_def)
qed

definition demo_started :: app_event where
  "demo_started = \<lparr> ae_type = ''NodeStarted'', ae_taskId = ''t'', ae_nodeId = Some ''a'', ae_occurredAt = 5,
     ae_version = Some 2, ae_taskSeq = Some 0, ae_payload = Some (JObj []) \<rparr>"

theorem timeline_agrees_with_replay_witness:
  "\<exists>st m. replayTask [demo_started] = Inr (Some st) \<and> projectNodeTimeline [demo_started] = Inr m
    \<and> same_life (or_else (new_node (Some ''a'')) (jm_get (rs_nodes st) (Some ''a''))) (or_else (new_entry ''a'') (jm_get m ''a''))"
proof -
  have "\<exists>st. replayTask [demo_started] = Inr (Some st)"
    by (simp add: replayTask_def applyEvent_def demo_started_def count_event_def js_field_def Let_def returned_def)
  then obtain st where st: "replayTask [demo_started] = Inr (Some st)" ..
  from timeline_agrees_with_replay [OF this] st show ?thesis by (auto intro!: exI [of _ st])
qed

subsection \<open>The replay of a scheduler's run\<close>

text \<open>
  The event the coordinator hands to the bus for each event of its run: \<open>val\<close> is the JSON value
  of a result's text and \<open>hash\<close> the payment's transaction.
\<close>

definition dag_bus_event :: "(string \<Rightarrow> js_val) \<Rightarrow> (ident \<Rightarrow> string) \<Rightarrow> ident \<Rightarrow> ms \<Rightarrow> dag_event \<Rightarrow> bus_event" where
  "dag_bus_event val hash t ts e =
     (let ev = (\<lambda>type nodeId payload. \<lparr> be_type = type, be_taskId = t, be_nodeId = nodeId, be_timestamp = ts,
            be_payload = payload, be_seq = None \<rparr>)
      in case e of
           NodeStarted i \<Rightarrow> ev ''node_started'' (Some i) None
         | NodeCompleted i r \<Rightarrow> ev ''node_completed'' (Some i) (Some (val r))
         | NodeFailed i err \<Rightarrow> ev ''node_failed'' (Some i) (Some (JObj [(''error'', JStr err)]))
         | PaymentReleased i \<Rightarrow> ev ''payment_released'' (Some i) (Some (JObj [(''txHash'', JStr (hash i))]))
         | TaskCompleted \<Rightarrow> ev ''task_completed'' None None
         | TaskFailed \<Rightarrow> ev ''task_failed'' None None
         | TaskCancelled \<Rightarrow> ev ''task_cancelled'' None None)"

text \<open>The runs of a task's DAG, with any outcomes and an abort at any moment.\<close>

inductive dag_history :: "nat \<Rightarrow> dag_node list \<Rightarrow> sched \<Rightarrow> bool" for limit dag where
  h_start: "dag_history limit dag (executeDAG limit dag)"
| h_dispatched: "dag_history limit dag s \<Longrightarrow> i \<in> sc_active s \<Longrightarrow> i \<notin> sc_releasing s
    \<Longrightarrow> dag_history limit dag (node_dispatched i outcome s)"
| h_released: "dag_history limit dag s \<Longrightarrow> i \<in> sc_releasing s \<Longrightarrow> dag_history limit dag (node_released i paid s)"
| h_abort: "dag_history limit dag s \<Longrightarrow> dag_history limit dag (dag_abort s)"

fun log_status :: "node_status \<Rightarrow> replayed_node_status" where
  "log_status NPending = RnPending"
| "log_status NRunning = RnRunning"
| "log_status NCompleted = RnCompleted"
| "log_status NFailed = RnFailed"
| "log_status NCancelled = RnFailed"

fun ev_node :: "dag_event \<Rightarrow> (ident \<times> replayed_node_status) option" where
  "ev_node (NodeStarted i) = Some (i, RnRunning)"
| "ev_node (NodeCompleted i r) = Some (i, RnCompleted)"
| "ev_node (NodeFailed i e) = Some (i, RnFailed)"
| "ev_node _ = None"

fun ev_id :: "dag_event \<Rightarrow> ident option" where
  "ev_id (NodeStarted i) = Some i"
| "ev_id (NodeCompleted i r) = Some i"
| "ev_id (NodeFailed i e) = Some i"
| "ev_id (PaymentReleased i) = Some i"
| "ev_id _ = None"

fun ev_task :: "dag_event \<Rightarrow> replayed_task_status \<Rightarrow> replayed_task_status" where
  "ev_task TaskCompleted x = RCompleted"
| "ev_task TaskFailed x = RFailed"
| "ev_task _ x = x"

definition logged :: "dag_event list \<Rightarrow> ident \<Rightarrow> replayed_node_status" where
  "logged es i = foldl (\<lambda>x e. case ev_node e of Some (j, y) \<Rightarrow> if j = i then y else x | None \<Rightarrow> x) RnPending es"

definition task_logged :: "dag_event list \<Rightarrow> replayed_task_status" where
  "task_logged es = foldl (\<lambda>x e. ev_task e x) RUnknown es"

definition settled_status :: "sched \<Rightarrow> replayed_task_status" where
  "settled_status s = (if \<not> sc_settled s \<or> sc_taskStatus s = TCancelled then RUnknown
     else if sc_taskStatus s = TCompleted then RCompleted else RFailed)"

definition status_at :: "ident \<Rightarrow> dag_node list \<Rightarrow> node_status option" where
  "status_at i ns = map_option dn_status (row_by dn_id i ns)"

definition busy :: "sched \<Rightarrow> ident set" where
  "busy s = sc_active s \<union> sc_releasing s \<union> set (sc_queue s)"

definition log_inv :: "dag_node list \<Rightarrow> sched \<Rightarrow> bool" where
  "log_inv dag s \<longleftrightarrow> (\<forall>i. status_at i dag = Some NPending
        \<longrightarrow> map_option log_status (status_at i (sc_dag s)) = Some (logged (sc_events s) i))
     \<and> task_logged (sc_events s) = settled_status s \<and> node_ids s = map dn_id dag
     \<and> busy s \<subseteq> dn_id ` set dag \<and> (\<forall>e \<in> set (sc_events s). \<forall>i. ev_id e = Some i \<longrightarrow> i \<in> dn_id ` set dag)"

lemma log_invD: "log_inv dag s \<Longrightarrow> node_ids s = map dn_id dag" "log_inv dag s \<Longrightarrow> busy s \<subseteq> dn_id ` set dag"
  "log_inv dag s \<Longrightarrow> i \<in> busy s \<Longrightarrow> i \<in> dn_id ` set dag"
  by (auto simp: log_inv_def)

lemma logged_snoc: "logged (es @ [e]) i = (case ev_node e of Some (j, y) \<Rightarrow> if j = i then y else logged es i | None \<Rightarrow> logged es i)"
  unfolding logged_def by simp

lemma task_logged_snoc: "task_logged (es @ [e]) = ev_task e (task_logged es)"
  by (simp add: task_logged_def)

text \<open>A change of state that no event tells of, and one that its event tells.\<close>

lemma log_inv_quiet:
  assumes "log_inv dag s" "sc_dag t = sc_dag s" "sc_events t = sc_events s" "settled_status t = settled_status s"
    "busy t \<subseteq> dn_id ` set dag"
  shows "log_inv dag t"
  using assms by (auto simp: log_inv_def node_ids_def)

lemma status_at_upd: "(\<And>n. dn_id (f n) = dn_id n) \<Longrightarrow> status_at k (map (\<lambda>n. if dn_id n = i then f n else n) ns)
    = (if k = i then map_option (\<lambda>n. dn_status (f n)) (row_by dn_id i ns) else status_at k ns)"
proof -
  assume f: "\<And>n. dn_id (f n) = dn_id n"
  show ?thesis unfolding status_at_def row_by_update [of dn_id f, OF f]
    by (cases "row_by dn_id k ns") (auto dest: row_by_Some)
qed

lemma log_inv_told:
  assumes "log_inv dag s" "sc_dag t = sc_dag (upd_node i f s)" "sc_events t = sc_events s @ [e]"
    "ev_node e = Some (i, x)" "\<And>n. dn_id (f n) = dn_id n" "\<And>n. log_status (dn_status (f n)) = x"
    "settled_status t = settled_status s" "busy t \<subseteq> dn_id ` set dag" "i \<in> dn_id ` set dag"
  shows "log_inv dag t"
proof -
  have id: "ev_id e = Some i" "ev_task e = (\<lambda>y. y)" using assms(4) by (cases e; auto)+
  have ids: "node_ids t = node_ids s" using assms(2,5) by (simp add: node_ids_def upd_node_def comp_def)
  have st: "status_at k (sc_dag t) = (if k = i then map_option (\<lambda>n. dn_status (f n)) (row_by dn_id i (sc_dag s))
      else status_at k (sc_dag s))" for k
    using assms(2,5) by (simp add: upd_node_def status_at_upd)
  have "map_option log_status (status_at k (sc_dag t)) = Some (logged (sc_events t) k)"
    if "status_at k dag = Some NPending" for k
  proof (cases "k = i")
    case True
    have "map_option log_status (status_at k (sc_dag s)) = Some (logged (sc_events s) k)"
      using assms(1) that by (simp add: log_inv_def)
    then obtain n where "row_by dn_id i (sc_dag s) = Some n" using True by (auto simp: status_at_def)
    then show ?thesis using True st assms(3,4,6) by (simp add: logged_snoc)
  next
    case False
    then show ?thesis using that assms(1,3,4) st by (simp add: log_inv_def logged_snoc)
  qed
  then show ?thesis
    using assms(1,3,7,8,9) id ids by (auto simp: log_inv_def task_logged_snoc)
qed

lemma settled_frame [simp]: "settled_status (upd_node i f s) = settled_status s" "settled_status (bus_emit e s) = settled_status s"
  "settled_status (s\<lparr>sc_completed := a\<rparr>) = settled_status s" "settled_status (s\<lparr>sc_failed := a\<rparr>) = settled_status s"
  "settled_status (s\<lparr>sc_active := a\<rparr>) = settled_status s" "settled_status (s\<lparr>sc_scheduled := a\<rparr>) = settled_status s"
  "settled_status (s\<lparr>sc_queue := q\<rparr>) = settled_status s" "settled_status (s\<lparr>sc_releasing := a\<rparr>) = settled_status s"
  "settled_status (s\<lparr>sc_inFlight := k\<rparr>) = settled_status s" "settled_status (s\<lparr>sc_aborted := b\<rparr>) = settled_status s"
  "settled_status (s\<lparr>sc_paymentFailed := b\<rparr>) = settled_status s" "settled_status (reportProgress s) = settled_status s"
  by (simp_all add: settled_status_def upd_node_def bus_emit_def reportProgress_def)

lemma busy_frame [simp]: "busy (upd_node i f s) = busy s" "busy (bus_emit e s) = busy s" "busy (reportProgress s) = busy s"
  "busy (s\<lparr>sc_completed := a\<rparr>) = busy s" "busy (s\<lparr>sc_failed := a\<rparr>) = busy s" "busy (s\<lparr>sc_scheduled := a\<rparr>) = busy s"
  "busy (s\<lparr>sc_inFlight := k\<rparr>) = busy s" "busy (s\<lparr>sc_aborted := b\<rparr>) = busy s" "busy (s\<lparr>sc_paymentFailed := b\<rparr>) = busy s"
  by (simp_all add: busy_def upd_node_def bus_emit_def reportProgress_def)

lemma events_emit [simp]: "sc_events (bus_emit e s) = sc_events s @ [e]" "sc_events (upd_node i f s) = sc_events s"
  "sc_events (reportProgress s) = sc_events s" "sc_dag (reportProgress s) = sc_dag s"
  by (simp_all add: bus_emit_def upd_node_def reportProgress_def)

lemma finish_log: "log_inv dag s \<Longrightarrow> log_inv dag (finishIfSettled s)"
proof -
  assume inv: "log_inv dag s"
  have task: "log_inv dag t" if "sc_dag t = sc_dag s" "sc_events t = sc_events s @ [e]" "ev_node e = None" "ev_id e = None"
    "ev_task e (settled_status s) = settled_status t" "busy t = busy s" for t e
    using inv that by (auto simp: log_inv_def logged_snoc task_logged_snoc node_ids_def)
  show ?thesis
  proof (cases "finishIfSettled s = s")
    case False
    then have "\<not> sc_settled s" by (auto simp: finishIfSettled_def)
    with False obtain e where
      "sc_events (finishIfSettled s) = sc_events s @ [e]" "ev_node e = None" "ev_id e = None"
      "ev_task e (settled_status s) = settled_status (finishIfSettled s)"
      by (auto simp: finishIfSettled_def settled_status_def Let_def bus_emit_def split: if_splits)
    moreover have "sc_dag (finishIfSettled s) = sc_dag s" "busy (finishIfSettled s) = busy s"
      by (simp_all add: finishIfSettled_def Let_def busy_def)
    ultimately show ?thesis by (intro task)
  qed (use inv in simp)
qed

lemma cancel_log: "log_inv dag s \<Longrightarrow> set is \<subseteq> dn_id ` set dag \<Longrightarrow> log_inv dag (cancel_loop is s)"
proof (induction "is" arbitrary: s)
  case (Cons i "is")
  let ?t = "bus_emit (NodeFailed i ''task_cancelled'')
    ((upd_node i (\<lambda>n. n\<lparr>dn_status := NCancelled, dn_error := Some ''task_cancelled''\<rparr>) s)\<lparr>sc_failed := insert i (sc_failed s)\<rparr>)"
  have "log_inv dag ?t"
    using Cons.prems log_invD(2) [OF Cons.prems(1)] by (intro log_inv_told [OF Cons.prems(1), where i = i and f = "\<lambda>n. n\<lparr>dn_status := NCancelled, dn_error := Some ''task_cancelled''\<rparr>"]) auto
  with Cons show ?case by simp
qed simp

lemma cancelPending_log: "log_inv dag s \<Longrightarrow> log_inv dag (cancelPendingNodes s)"
  by (simp add: cancelPendingNodes_def cancel_log log_invD(1))

lemma fail_log: "log_inv dag s \<Longrightarrow> set is \<subseteq> dn_id ` set dag \<Longrightarrow> log_inv dag (fail_loop dl is s)"
proof (induction "is" arbitrary: s)
  case (Cons i "is")
  have "log_inv dag (bus_emit (NodeFailed i e)
      ((upd_node i (\<lambda>n. n\<lparr>dn_status := NFailed, dn_error := Some e\<rparr>) s)\<lparr>sc_failed := insert i (sc_failed s)\<rparr>))" for e
    using Cons.prems log_invD(2) [OF Cons.prems(1)] by (intro log_inv_told [OF Cons.prems(1), where i = i and f = "\<lambda>n. n\<lparr>dn_status := NFailed, dn_error := Some e\<rparr>"]) auto
  with Cons show ?case by (simp add: fail_loop.simps(2) Let_def split: option.split)
qed (simp add: fail_loop.simps(1))

lemma failBlocked_log: "log_inv dag s \<Longrightarrow> log_inv dag (failBlockedNodes dl s)"
  by (simp add: failBlockedNodes_def fail_log log_invD(1))

lemma run_start_log: "log_inv dag s \<Longrightarrow> i \<in> dn_id ` set dag \<Longrightarrow> log_inv dag (run_start i s)"
  unfolding run_start_def
  by (rule log_inv_told [where e = "NodeStarted i" and f = "\<lambda>n. n\<lparr>dn_status := NRunning\<rparr>" and s = s])
    (auto simp: busy_def dest: log_invD(3))

lemma limiter_run_log: "log_inv dag s \<Longrightarrow> i \<in> dn_id ` set dag \<Longrightarrow> log_inv dag (limiter_run i s)"
  using log_invD(2) [of dag s]
  by (auto simp: limiter_run_def run_start_log intro!: log_inv_quiet [of dag s] simp: busy_def)

lemma limiter_done_log: "log_inv dag s \<Longrightarrow> log_inv dag (limiter_done i s)"
proof -
  assume inv: "log_inv dag s"
  have sub: "busy s \<subseteq> dn_id ` set dag" using inv by (rule log_invD)
  have quiet: "log_inv dag (s\<lparr>sc_active := sc_active s - {i}, sc_queue := q\<rparr>)" if "set q \<subseteq> set (sc_queue s)" for q
    using sub that by (intro log_inv_quiet [OF inv]) (auto simp: busy_def)
  have left: "log_inv dag (s\<lparr>sc_active := sc_active s - {i}\<rparr>)"
    using sub by (intro log_inv_quiet [OF inv]) (auto simp: busy_def)
  show ?thesis
    using left quiet [of "tl (sc_queue s)"] sub
    by (cases "sc_queue s") (auto simp: limiter_done_def Let_def busy_def subset_insertI intro!: run_start_log)
qed

lemma schedule_log: "log_inv dag s \<Longrightarrow> set is \<subseteq> dn_id ` set dag \<Longrightarrow> log_inv dag (fst (schedule_loop is s))"
proof (induction "is" arbitrary: s)
  case (Cons i "is")
  have "log_inv dag (s\<lparr>sc_scheduled := insert i (sc_scheduled s), sc_inFlight := sc_inFlight s + 1\<rparr>)"
    using log_invD(2) [OF Cons.prems(1)] by (intro log_inv_quiet [OF Cons.prems(1)]) simp_all
  with Cons show ?case by (simp add: schedule_loop.simps(2) limiter_run_log)
qed (simp add: schedule_loop.simps(1))

lemma scheduleReady_log: "log_inv dag s \<Longrightarrow> log_inv dag (scheduleReadyNodes s)"
  using schedule_log [of dag s "node_ids s"] log_invD(1) [of dag s]
  by (auto simp: scheduleReadyNodes_def cancelPending_log finish_log failBlocked_log split: prod.split)

lemma returned_log: "log_inv dag s \<Longrightarrow> log_inv dag (node_returned i completed s)"
proof -
  assume inv: "log_inv dag s"
  have q: "log_inv dag t" if "sc_dag t = sc_dag u" "sc_events t = sc_events u" "settled_status t = settled_status u"
    "busy t = busy u" "log_inv dag u" for t u
    using that log_invD(2) [OF that(5)] by (intro log_inv_quiet [OF that(5)]) auto
  have "log_inv dag (reportProgress (s\<lparr>sc_completed := insert i (sc_completed s)\<rparr>))"
    "log_inv dag (s\<lparr>sc_failed := insert i (sc_failed s)\<rparr>)"
    by (rule q [OF _ _ _ _ inv]; simp)+
  then have "log_inv dag (limiter_done i (if completed then reportProgress (s\<lparr>sc_completed := insert i (sc_completed s)\<rparr>)
      else s\<lparr>sc_failed := insert i (sc_failed s)\<rparr>))" (is "log_inv dag ?u")
    by (simp add: limiter_done_log)
  then have "log_inv dag (?u\<lparr>sc_inFlight := sc_inFlight ?u - 1\<rparr>)" by (rule q [rotated 4]) simp_all
  then show ?thesis by (simp add: node_returned_def Let_def finish_log failBlocked_log scheduleReady_log)
qed

lemma dispatched_log:
  assumes "log_inv dag s" "i \<in> sc_active s"
  shows "log_inv dag (node_dispatched i outcome s)"
proof -
  have i: "i \<in> dn_id ` set dag" using assms log_invD(3) [OF assms(1), of i] by (simp add: busy_def)
  have sub: "busy s \<subseteq> dn_id ` set dag" using assms(1) by (rule log_invD)
  have "log_inv dag (bus_emit (NodeFailed i e) (upd_node i (\<lambda>n. n\<lparr>dn_status := NFailed, dn_error := Some e\<rparr>) s))" for e
    using i sub by (intro log_inv_told [OF assms(1), where i = i and f = "\<lambda>n. n\<lparr>dn_status := NFailed, dn_error := Some e\<rparr>"]) auto
  moreover have "log_inv dag (bus_emit (NodeCompleted i r)
      ((upd_node i (\<lambda>n. n\<lparr>dn_status := NCompleted, dn_result := Some r\<rparr>) s)\<lparr>sc_releasing := insert i (sc_releasing s)\<rparr>))" for r
    using i sub by (intro log_inv_told [OF assms(1), where i = i and f = "\<lambda>n. n\<lparr>dn_status := NCompleted, dn_result := Some r\<rparr>"])
      (auto simp: busy_def)
  ultimately show ?thesis by (simp add: node_dispatched_def returned_log split: run_outcome.split)
qed

lemma released_log:
  assumes "log_inv dag s" "i \<in> sc_releasing s"
  shows "log_inv dag (node_released i paid s)"
proof -
  have i: "i \<in> dn_id ` set dag" using assms log_invD(3) [OF assms(1), of i] by (simp add: busy_def)
  let ?s1 = "s\<lparr>sc_releasing := sc_releasing s - {i}\<rparr>"
  have s1: "log_inv dag ?s1"
    using log_invD(2) [OF assms(1)] by (intro log_inv_quiet [OF assms(1)]) (auto simp: busy_def)
  then have "log_inv dag (?s1\<lparr>sc_paymentFailed := True\<rparr>)"
    using log_invD(2) [OF s1] by (intro log_inv_quiet [OF s1]) auto
  moreover have "log_inv dag (bus_emit (PaymentReleased i) ?s1)"
    using s1 i by (auto simp: log_inv_def logged_snoc task_logged_snoc)
  ultimately show ?thesis by (simp add: node_released_def returned_log Let_def)
qed

lemma start_log: "log_inv dag (executeDAG limit dag)"
proof -
  have "log_inv dag (reportProgress (init_sched limit dag))"
    by (simp add: log_inv_def init_sched_def Let_def logged_def task_logged_def settled_status_def node_ids_def busy_def reportProgress_def)
  then show ?thesis by (simp add: executeDAG_def scheduleReady_log)
qed

lemma history_log: "dag_history limit dag s \<Longrightarrow> log_inv dag s"
proof (induction rule: dag_history.induct)
  case (h_abort s)
  have "log_inv dag (s\<lparr>sc_aborted := True\<rparr>)"
    using log_invD(2) [OF h_abort.IH] by (intro log_inv_quiet [OF h_abort.IH]) auto
  with h_abort.IH show ?case by (simp add: dag_abort_def finish_log cancelPending_log)
qed (simp_all add: start_log dispatched_log released_log)

subsection \<open>Reading the log back\<close>

definition task_emits :: "ident \<Rightarrow> bus_op list \<Rightarrow> bus_event list" where
  "task_emits t xs = concat (map (\<lambda>x. case x of Emit e \<Rightarrow> if be_taskId e = t then [e] else [] | Restart \<Rightarrow> []) xs)"

definition unstamped :: "bus_event \<Rightarrow> bus_event" where
  "unstamped e = e\<lparr>be_seq := None\<rparr>"

lemma emitted_of_task: "map unstamped (of_task t (snd (bus_run xs b))) = map unstamped (task_emits t xs)"
proof (induction xs arbitrary: b)
  case (Cons x xs)
  show ?case
  proof (cases x)
    case (Emit e)
    obtain c e' where e: "eb_emit True (be_taskId e) e b = (c, e')" by fastforce
    then obtain k where "e' = e\<lparr>be_seq := k\<rparr>" by (auto simp: eb_emit_def Let_def)
    then have "be_taskId e' = be_taskId e" "unstamped e' = unstamped e" by (simp_all add: unstamped_def)
    then show ?thesis using Cons.IH [of c] Emit e by (cases "bus_run xs c") (simp add: of_task_def task_emits_def)
  next
    case Restart
    then show ?thesis using Cons.IH [of "new_bus (eb_store b)"] by (simp add: task_emits_def)
  qed
qed (simp add: of_task_def task_emits_def)

text \<open>A replay of the run so far: its status, and for each node the status the events tell.\<close>

definition replays :: "replayed_state \<Rightarrow> dag_event list \<Rightarrow> bool" where
  "replays st es \<longleftrightarrow> rs_status st = task_logged es \<and> (\<forall>i. i \<noteq> '''' \<longrightarrow> rn_status (replay_node st i) = logged es i)"

fun ev_type :: "dag_event \<Rightarrow> string" where
  "ev_type (NodeStarted i) = ''NodeStarted''"
| "ev_type (NodeCompleted i r) = ''NodeCompleted''"
| "ev_type (NodeFailed i e) = ''NodeFailed''"
| "ev_type (PaymentReleased i) = ''PaymentReleased''"
| "ev_type TaskCompleted = ''TaskCompleted''"
| "ev_type TaskFailed = ''TaskFailed''"
| "ev_type TaskCancelled = ''task_cancelled''"

lemma stored_payload: "v \<noteq> JNull \<Longrightarrow> \<exists>x. js_field (Some v) f = Some x" "js_field (Some (JObj [])) f = Some None"
  by (cases v; simp add: js_field_def) (simp add: js_field_def)

lemma run_app:
  assumes "ev_id e \<noteq> Some ''''" and "a = dagEventToAppEvent ((dag_bus_event val hash t ts e)\<lparr>be_seq := k\<rparr>)"
  shows "ae_nodeId a = ev_id e" "ae_type a = ev_type e" "ae_taskId a = t"
    "ev_id e \<noteq> None \<Longrightarrow> \<exists>x. js_field (ae_payload a) f = Some x"
proof -
  show "ae_nodeId a = ev_id e" "ae_taskId a = t"
    using assms by (cases e; simp add: dag_bus_event_def dagEventToAppEvent_def)+
  show "ae_type a = ev_type e"
    using assms by (cases e) (simp_all add: dag_bus_event_def dagEventToAppEvent_def TYPE_MAP_def)
  show "ev_id e \<noteq> None \<Longrightarrow> \<exists>x. js_field (ae_payload a) f = Some x"
    using assms by (cases e) (auto simp: dag_bus_event_def dagEventToAppEvent_def stored_payload js_field_def split: js_val.split)
qed

lemma task_logged_values: "task_logged es \<in> {RUnknown, RCompleted, RFailed}"
proof (induction es rule: rev_induct)
  case (snoc e es)
  then show ?case by (cases e) (auto simp: task_logged_snoc)
qed (simp add: task_logged_def)

lemma run_event_step:
  assumes "a = dagEventToAppEvent ((dag_bus_event val hash t ts e)\<lparr>be_seq := k\<rparr>)" "ev_id e \<noteq> Some ''''" "replays st es"
  shows "\<exists>st'. applyEvent a st = (st', True) \<and> replays st' (es @ [e])"
proof -
  have st: "rs_status st \<noteq> RQueued" using assms(3) task_logged_values [of es] by (auto simp: replays_def)
  have a: "ae_nodeId a = ev_id e" "ae_type a = ev_type e" using run_app [OF assms(2,1)] by simp_all
  have p: "\<exists>x. js_field (ae_payload a) f = Some x" if "ev_id e \<noteq> None" for f using run_app(4) [OF assms(2,1) that] .
  have "\<exists>st'. applyEvent a st = (st', True) \<and> rs_status st' = ev_task e (rs_status st)"
    using a p [of "''agentType''"] p [of "''result''"] p [of "''error''"] p [of "''txHash''"] st
    by (cases e) (auto simp: applyEvent_def Let_def count_event_def ensureNode_def)
  then obtain st' where st': "applyEvent a st = (st', True)" "rs_status st' = ev_task e (rs_status st)" by blast
  have "rn_status (replay_node st' i) = logged (es @ [e]) i" if "i \<noteq> ''''" for i
    using assms(3) that a by (cases e) (auto simp: applyEvent_node [OF st'(1)] node_effect_def Let_def logged_snoc replays_def)
  with st' assms(3) show ?thesis by (simp add: replays_def task_logged_snoc)
qed

text \<open>What a task's history on the bus says of its run: a failover of an agent is told besides.\<close>

definition run_emits :: "ident \<Rightarrow> bus_op list \<Rightarrow> bus_event list" where
  "run_emits t xs = filter (\<lambda>e. be_type e \<noteq> ''AgentFailedOver'') (map unstamped (task_emits t xs))"

lemma failover_step:
  assumes "be_type b = ''AgentFailedOver''" "replays st es"
  shows "\<exists>st'. applyEvent (dagEventToAppEvent b) st = (st', True) \<and> replays st' es"
proof -
  have "applyEvent (dagEventToAppEvent b) st = (count_event (dagEventToAppEvent b) st, True)"
    using assms(1) by (simp add: applyEvent_def dagEventToAppEvent_def TYPE_MAP_def)
  then show ?thesis using assms(2) by (auto simp: replays_def count_event_def replay_node_def)
qed

lemma run_fold:
  assumes "filter (\<lambda>e. be_type e \<noteq> ''AgentFailedOver'') (map unstamped bs) = map2 (dag_bus_event val hash t) stamps es"
    "length stamps = length es" "replays st before" "\<And>e. e \<in> set es \<Longrightarrow> ev_id e \<noteq> Some ''''"
  shows "\<exists>st'. fold_throw applyEvent (map dagEventToAppEvent bs) st = (st', True) \<and> replays st' (before @ es)"
  using assms
proof (induction bs arbitrary: stamps es st before)
  case Nil
  then have "es = []" by (cases es; cases stamps) auto
  with Nil show ?case by simp
next
  case (Cons b bs)
  show ?case
  proof (cases "be_type b = ''AgentFailedOver''")
    case True
    obtain s1 where s1: "applyEvent (dagEventToAppEvent b) st = (s1, True)" "replays s1 before"
      using failover_step [OF True Cons.prems(3)] by blast
    have "be_type (unstamped b) = ''AgentFailedOver''" using True by (simp add: unstamped_def)
    then show ?thesis using Cons.IH [of stamps es s1 before] Cons.prems s1 by simp
  next
    case False
    then have "be_type (unstamped b) \<noteq> ''AgentFailedOver''" by (simp add: unstamped_def)
    then obtain ts stamps' e es' where split: "stamps = ts # stamps'" "es = e # es'" "unstamped b = dag_bus_event val hash t ts e"
      "filter (\<lambda>e. be_type e \<noteq> ''AgentFailedOver'') (map unstamped bs) = map2 (dag_bus_event val hash t) stamps' es'"
      using Cons.prems(1,2) by (cases es; cases stamps) auto
    have "b = (dag_bus_event val hash t ts e)\<lparr>be_seq := be_seq b\<rparr>" unfolding split(3) [symmetric] by (simp add: unstamped_def)
    then have app: "dagEventToAppEvent b = dagEventToAppEvent ((dag_bus_event val hash t ts e)\<lparr>be_seq := be_seq b\<rparr>)" by simp
    have e: "ev_id e \<noteq> Some ''''" using Cons.prems(4) split(2) by simp
    obtain s1 where s1: "applyEvent (dagEventToAppEvent b) st = (s1, True)" "replays s1 (before @ [e])"
      using run_event_step [OF app e Cons.prems(3)] by blast
    show ?thesis using Cons.IH [of stamps' es' s1 "before @ [e]"] Cons.prems(2,4) split s1 by simp
  qed
qed


definition demo_val :: "string \<Rightarrow> js_val" where
  "demo_val r = JStr r"

definition demo_traffic :: "bus_op list" where
  "demo_traffic = Emit \<lparr> be_type = ''AgentFailedOver'', be_taskId = ''t'', be_nodeId = Some ''a'', be_timestamp = 4,
       be_payload = None, be_seq = None \<rparr>
     # map (\<lambda>e. Emit (dag_bus_event demo_val id ''t'' 7 e)) (sc_events demo4) @ [Restart]"

lemma demo4_events: "sc_events demo4 = [NodeStarted ''a'', NodeCompleted ''a'' ''1'', NodeStarted ''b'', NodeFailed ''b'' ''boom'', TaskFailed]"
  by (simp add: demo4_def demo3_def demo2_def demo1_def demo_oc_def dag_eval demo_dag_def demo_node_def)

lemma demo_history: "dag_history 1 demo_dag demo4"
proof -
  have "dag_history 1 demo_dag demo1" unfolding demo1_def by (rule h_start)
  then have "dag_history 1 demo_dag demo2" unfolding demo2_def by (rule h_dispatched) (simp_all add: demo1_eval)
  then have "dag_history 1 demo_dag demo3" unfolding demo3_def by (rule h_released) (simp add: demo2_eval)
  then show ?thesis unfolding demo4_def by (rule h_dispatched) (simp_all add: demo3_eval)
qed


text \<open>
  The result of a node is lost in the replay. The coordinator publishes an agent's result itself as
  the payload of \<open>node_completed\<close>, while the replay reads the field \<open>result\<close> of the payload: unless the agent's result is an object
  that has such a field, the rebuilt node carries no result.
\<close>

theorem replayed_result_is_lost:
  assumes "i \<noteq> ''''" "\<And>fs. val r = JObj fs \<Longrightarrow> map_of fs ''result'' = None"
    and "applyEvent (dagEventToAppEvent ((dag_bus_event val hash t ts (NodeCompleted i r))\<lparr>be_seq := k\<rparr>)) st = (st', True)"
  shows "rn_status (replay_node st' i) = RnCompleted \<and> rn_result (replay_node st' i) = None"
  using assms(1,2) by (auto simp: applyEvent_node [OF assms(3)] dag_bus_event_def dagEventToAppEvent_def TYPE_MAP_def
      node_effect_def Let_def js_field_def split: js_val.split)

theorem replayed_result_is_lost_witness:
  "\<exists>st'. applyEvent (dagEventToAppEvent ((dag_bus_event demo_val id ''t'' 7 (NodeCompleted ''a'' ''1''))\<lparr>be_seq := Some 1\<rparr>))
      (new_state ''t'') = (st', True) \<and> rn_result (replay_node st' ''a'') = None"
proof -
  have "\<exists>st'. applyEvent (dagEventToAppEvent ((dag_bus_event demo_val id ''t'' 7 (NodeCompleted ''a'' ''1''))\<lparr>be_seq := Some 1\<rparr>))
      (new_state ''t'') = (st', True)"
    by (simp add: applyEvent_def dag_bus_event_def dagEventToAppEvent_def TYPE_MAP_def Let_def js_field_def demo_val_def)
  then obtain st' where st': "applyEvent (dagEventToAppEvent ((dag_bus_event demo_val id ''t'' 7 (NodeCompleted ''a'' ''1''))
      \<lparr>be_seq := Some 1\<rparr>)) (new_state ''t'') = (st', True)" ..
  from replayed_result_is_lost [OF _ _ st'] have "rn_result (replay_node st' ''a'') = None" by (simp add: demo_val_def)
  with st' show ?thesis by blast
qed

end
