(* ===== verification/TaskPlan.thy ===== *)
theory TaskPlan
  imports DagScheduler JsValue
begin

text \<open>
  \<open>backend/src/coordinator/index.ts\<close>: the decomposition of a prompt into the DAG the scheduler
  runs. The theorem composes the plan with the scheduler.
\<close>

record plan_node = dag_node +
  pn_type :: string
  pn_prompt :: string
  pn_description :: string

definition plan_node_of :: "ident \<Rightarrow> string \<Rightarrow> string \<Rightarrow> ident list \<Rightarrow> plan_node" where
  "plan_node_of i type text deps = \<lparr> dn_id = i, dn_deps = deps, dn_status = NPending, dn_error = None, dn_result = None,
     pn_type = type, pn_prompt = text, pn_description = text \<rparr>"

definition mentions :: "string \<Rightarrow> string list \<Rightarrow> bool" where
  "mentions prompt words = list_ex (\<lambda>w. includes_text w (map lower_char prompt)) words"

definition decompose :: "string \<Rightarrow> plan_node list" where
  "decompose prompt =
     (let research = plan_node_of ''node_research'' ''research'' (''Research background information for: '' @ prompt) [];
          nodes = [research]
            @ (if mentions prompt [''risk'', ''market'', ''financial'']
               then [plan_node_of ''node_risk'' ''risk'' ''Analyse risks and regulatory landscape'' [''node_research'']] else [])
            @ (if mentions prompt [''code'', ''software'', ''implement'']
               then [plan_node_of ''node_coding'' ''coding'' ''Implement required code components'' [''node_research'']] else [])
            @ (if mentions prompt [''design'', ''ui'', ''visual'']
               then [plan_node_of ''node_design'' ''design'' ''Create design assets'' [''node_research'']] else []);
          deps = map dn_id (filter (\<lambda>n. dn_id n \<noteq> ''node_research'') nodes)
      in nodes @ [plan_node_of ''node_report'' ''report'' ''Compile and format the final report''
           (if deps \<noteq> [] then deps else [''node_research''])])"

text \<open>What the scheduler sees of the plan.\<close>

definition plan_dag :: "string \<Rightarrow> dag_node list" where
  "plan_dag prompt = map dag_node.truncate (decompose prompt)"

text \<open>The shape of every plan: one source, nodes that need it, and a last node that needs these.\<close>

definition fan :: "ident \<Rightarrow> ident list \<Rightarrow> ident \<Rightarrow> dag_node list" where
  "fan src side sink = demo_node src [] # map (\<lambda>i. demo_node i [src]) side
     @ [demo_node sink (if side \<noteq> [] then side else [src])]"

definition plan_side :: "string \<Rightarrow> ident list" where
  "plan_side prompt = (if mentions prompt [''risk'', ''market'', ''financial''] then [''node_risk''] else [])
     @ (if mentions prompt [''code'', ''software'', ''implement''] then [''node_coding''] else [])
     @ (if mentions prompt [''design'', ''ui'', ''visual''] then [''node_design''] else [])"

lemma plan_dag_fan: "plan_dag prompt = fan ''node_research'' (plan_side prompt) ''node_report''"
  by (simp add: plan_dag_def decompose_def Let_def plan_node_of_def dag_node.truncate_def demo_node_def fan_def plan_side_def)

lemma plan_side_ids: "distinct (''node_research'' # plan_side prompt @ [''node_report''])"
  by (simp add: plan_side_def)

lemma fan_ids: "map dn_id (fan src side sink) = src # side @ [sink]"
  by (simp add: fan_def demo_node_def comp_def)

lemma fan_ok: "distinct (src # side @ [sink]) \<Longrightarrow> dag_ok (fan src side sink)"
  by (auto simp: dag_ok_def fan_ids) (auto simp: fan_def demo_node_def)

lemma can_complete_iff:
  assumes "dag_ok dag" "demo_node i ds \<in> set dag"
  shows "can_complete oc dag i \<longleftrightarrow> (\<exists>r. oc i = DispatchOk r) \<and> (\<forall>d \<in> set ds. can_complete oc dag d)"
  using can_complete_node [of oc dag "demo_node i ds"] assms can_complete.runs_ok [of "demo_node i ds" dag oc]
  by (auto simp: dag_ok_def demo_node_def)

definition dispatch_ok :: "(ident \<Rightarrow> run_outcome) \<Rightarrow> ident \<Rightarrow> bool" where
  "dispatch_ok oc i \<longleftrightarrow> (\<exists>r. oc i = DispatchOk r)"

lemma fan_completes:
  assumes "distinct (src # side @ [sink])" "i \<in> set (src # side @ [sink])"
  shows "can_complete oc (fan src side sink) i
    \<longleftrightarrow> (\<forall>j \<in> (if i = sink then set (src # side @ [sink]) else {src, i}). dispatch_ok oc j)"
proof -
  note iff = can_complete_iff [OF fan_ok [OF assms(1)], of _ _ oc, folded dispatch_ok_def]
  have r: "can_complete oc (fan src side sink) src \<longleftrightarrow> dispatch_ok oc src"
    by (subst iff [of _ "[]"]) (simp_all add: fan_def)
  have s: "can_complete oc (fan src side sink) j \<longleftrightarrow> dispatch_ok oc j \<and> dispatch_ok oc src" if "j \<in> set side" for j
    by (subst iff [of _ "[src]"]) (use that r in \<open>auto simp: fan_def\<close>)
  have t: "can_complete oc (fan src side sink) sink
      \<longleftrightarrow> dispatch_ok oc sink \<and> (\<forall>d \<in> set (if side \<noteq> [] then side else [src]). can_complete oc (fan src side sink) d)"
    by (rule iff) (simp add: fan_def)
  consider "i = src" | "i \<in> set side" | "i = sink" using assms(2) by auto
  then show ?thesis
  proof cases
    case 3
    show ?thesis using t r s unfolding 3 by (cases side) auto
  qed (use assms(1) r s in auto)
qed

text \<open>
  The plan made of a prompt is a DAG the scheduler can run to its end, and its shape decides
  the outcome: in every settled run, the report is completed exactly when the dispatch of every
  node of the plan succeeded, and any other node exactly when its own dispatch and that of the
  research did.
\<close>

theorem plan_outcome:
  assumes "dag_run oc limit (plan_dag prompt) k s" and "sc_settled s" and "i \<in> set (map dn_id (plan_dag prompt))"
  shows "dag_ok (plan_dag prompt) \<and> (i \<in> sc_completed s \<longleftrightarrow>
    (\<forall>j \<in> (if i = ''node_report'' then set (map dn_id (plan_dag prompt)) else {''node_research'', i}). dispatch_ok oc j))"
proof -
  have ok: "dag_ok (plan_dag prompt)" unfolding plan_dag_fan by (rule fan_ok [OF plan_side_ids])
  have "i \<in> sc_completed s \<longleftrightarrow> can_complete oc (plan_dag prompt) i"
    using settled_completed [OF ok assms(1,2)] by simp
  with ok show ?thesis
    using fan_completes [OF plan_side_ids, of i prompt oc] assms(3) by (simp add: plan_dag_fan fan_ids)
qed

definition plan_oc :: "ident \<Rightarrow> run_outcome" where
  "plan_oc i = (if i = ''node_research'' then DispatchFailed ''boom'' else DispatchOk ''1'')"

definition plan_demo :: sched where
  "plan_demo = node_dispatched ''node_research'' (plan_oc ''node_research'') (executeDAG 3 (plan_dag ''Market risk''))"

lemma plan_demo_dag: "plan_dag ''Market risk'' = [demo_node ''node_research'' [], demo_node ''node_risk'' [''node_research''],
    demo_node ''node_report'' [''node_risk'']]"
proof -
  have "map lower_char ''Market risk'' = ''market risk''" by code_simp
  then have "plan_side ''Market risk'' = [''node_risk'']"
    by (simp add: plan_side_def mentions_def includes_text_def)
  then show ?thesis by (simp add: plan_dag_fan fan_def)
qed

lemma plan_demo_run: "dag_run plan_oc 3 (plan_dag ''Market risk'') 1 plan_demo" and plan_demo_settled: "sc_settled plan_demo"
proof -
  have a: "''node_research'' \<in> sc_active (executeDAG 3 (plan_dag ''Market risk''))"
    "sc_releasing (executeDAG 3 (plan_dag ''Market risk'')) = {}"
    by (simp_all add: plan_demo_dag dag_eval demo_node_def)
  show "dag_run plan_oc 3 (plan_dag ''Market risk'') 1 plan_demo"
    unfolding plan_demo_def One_nat_def by (rule dag_dispatched [OF dag_start]) (simp_all add: a)
  show "sc_settled plan_demo"
    by (simp add: plan_demo_def plan_demo_dag plan_oc_def dag_eval demo_node_def)
qed

theorem plan_outcome_witness: "''node_report'' \<notin> sc_completed plan_demo"
proof -
  have "''node_report'' \<in> set (map dn_id (plan_dag ''Market risk''))" by (simp add: plan_demo_dag demo_node_def)
  from plan_outcome [OF plan_demo_run plan_demo_settled this] show ?thesis
    by (simp add: plan_demo_dag demo_node_def dispatch_ok_def plan_oc_def)
qed

end
