(* ===== verification/TaskStream.thy ===== *)
theory TaskStream
  imports EventLog "HOL-Library.Monad_Syntax"
begin

text \<open>
  \<open>backend/src/api/routes/taskStreamHub.ts\<close>: the fan-out of a task's events to its stream clients.
  The hub holds one bus subscription per task with clients; a broadcast drains the stored backlog in
  pages and delivers each event to the clients whose cursor is behind it. What a client received is
  kept with it, and so is the cursor it started from. A delivery may make the coordinator emit
  further events of the task: they are given, pass by pass, to the drain, which takes another pass
  for them; this stands for the sets \<open>draining\<close> and \<open>reentrant\<close>, which are empty between flushes. Each
  emission carries whether its write succeeds. Clients detach between flushes only.
\<close>

record subscriber =
  sb_start :: int
  sb_cursor :: int
  sb_delivered :: "(app_event \<times> nat) list"

type_synonym subscribers = "(nat, subscriber) jsmap"

record hub =
  hb_subscribersByTask :: "(ident, subscribers) jsmap"
  hb_detachByTask :: "ident set"
  hb_nextSubscriberId :: nat
  hb_pageSize :: nat

definition DEFAULT_PAGE_SIZE :: nat where
  "DEFAULT_PAGE_SIZE = 500"

definition EARLIEST_CURSOR :: int where
  "EARLIEST_CURSOR = -1"

text \<open>\<open>None\<close> is the \<open>RangeError\<close>.\<close>

definition new_hub :: "int option \<Rightarrow> hub option" where
  "new_hub pageSize = (let n = or_else (int DEFAULT_PAGE_SIZE) pageSize
     in if n < 1 then None
        else Some \<lparr> hb_subscribersByTask = [], hb_detachByTask = {}, hb_nextSubscriberId = 1, hb_pageSize = nat n \<rparr>)"

definition hub_subscribe :: "ident \<Rightarrow> int option \<Rightarrow> hub \<Rightarrow> hub \<times> nat" where
  "hub_subscribe taskId lastEventId h =
     (let subs = or_else [] (jm_get (hb_subscribersByTask h) taskId);
          i = hb_nextSubscriberId h;
          c = or_else EARLIEST_CURSOR lastEventId
      in (h\<lparr>hb_subscribersByTask := jm_set (hb_subscribersByTask h) taskId
                (jm_set subs i \<lparr> sb_start = c, sb_cursor = c, sb_delivered = [] \<rparr>),
            hb_nextSubscriberId := i + 1, hb_detachByTask := insert taskId (hb_detachByTask h)\<rparr>, i))"

definition hub_unsubscribe :: "ident \<Rightarrow> nat \<Rightarrow> hub \<Rightarrow> hub" where
  "hub_unsubscribe taskId i h =
     (case jm_get (hb_subscribersByTask h) taskId of
        None \<Rightarrow> h
      | Some subs \<Rightarrow>
          (let rest = jm_del subs i
           in if rest \<noteq> [] then h\<lparr>hb_subscribersByTask := jm_set (hb_subscribersByTask h) taskId rest\<rparr>
              else h\<lparr>hb_subscribersByTask := jm_del (hb_subscribersByTask h) taskId,
                     hb_detachByTask := hb_detachByTask h - {taskId}\<rparr>))"

subsection \<open>Draining\<close>

definition slowest :: "subscribers \<Rightarrow> int option" where
  "slowest subs = foldl (\<lambda>acc p. case acc of None \<Rightarrow> Some (sb_cursor (snd p))
     | Some c \<Rightarrow> if sb_cursor (snd p) < c then Some (sb_cursor (snd p)) else Some c) None subs"

definition deliver_one :: "subscriber \<Rightarrow> event_row \<Rightarrow> subscriber" where
  "deliver_one s r = (if sb_cursor s < int (er_taskSeq r)
     then s\<lparr>sb_delivered := sb_delivered s @ [rowToStoredEvent r], sb_cursor := int (er_taskSeq r)\<rparr> else s)"

definition deliver_row :: "subscribers \<Rightarrow> event_row \<Rightarrow> subscribers" where
  "deliver_row subs r = map (\<lambda>(i, s). (i, deliver_one s r)) subs"

definition drainOnce :: "ident \<Rightarrow> nat \<Rightarrow> event_store \<Rightarrow> subscribers \<Rightarrow> subscribers \<times> nat" where
  "drainOnce taskId pageSize st subs =
     (case slowest subs of
        None \<Rightarrow> (subs, 0)
      | Some c \<Rightarrow> (let page = rows_since taskId c (Some pageSize) st
                   in (foldl deliver_row subs page, length page)))"

definition emit_all :: "ident \<Rightarrow> (bool \<times> bus_event) list \<Rightarrow> event_bus \<Rightarrow> event_bus" where
  "emit_all taskId es b = foldl (\<lambda>b (diskOk, e). fst (eb_emit diskOk taskId (e\<lparr>be_taskId := taskId\<rparr>) b)) b es"

text \<open>\<open>arr\<close> holds, for each pass to come, the events that its deliveries emit.\<close>

partial_function (option) drain_loop :: "ident \<Rightarrow> nat \<Rightarrow> (bool \<times> bus_event) list list \<Rightarrow> event_bus \<Rightarrow> subscribers
    \<Rightarrow> nat \<Rightarrow> (event_bus \<times> subscribers \<times> nat) option" where
  "drain_loop taskId pageSize arr b subs rowsRead =
     (let (subs', pageRows) = drainOnce taskId pageSize (eb_store b) subs;
          now = (case arr of [] \<Rightarrow> [] | es # _ \<Rightarrow> es);
          b' = emit_all taskId now b
      in if now = [] \<and> pageRows < pageSize then Some (b', subs', rowsRead + pageRows)
         else drain_loop taskId pageSize (tl arr) b' subs' (rowsRead + pageRows))"

definition hub_flush :: "ident \<Rightarrow> (bool \<times> bus_event) list list \<Rightarrow> event_bus \<Rightarrow> hub \<Rightarrow> (event_bus \<times> hub \<times> nat) option" where
  "hub_flush taskId arr b h =
     (case jm_get (hb_subscribersByTask h) taskId of
        None \<Rightarrow> Some (b, h, 0)
      | Some subs \<Rightarrow>
          if subs = [] then Some (b, h, 0)
          else do { (b', subs', n) \<leftarrow> drain_loop taskId (hb_pageSize h) arr b subs 0;
                    Some (b', h\<lparr>hb_subscribersByTask := jm_set (hb_subscribersByTask h) taskId subs'\<rparr>, n) })"

text \<open>An emission reaches the hub through its bus subscription, after the row was written.\<close>

definition hub_emit :: "bool \<Rightarrow> ident \<Rightarrow> bus_event \<Rightarrow> (bool \<times> bus_event) list list \<Rightarrow> event_bus \<Rightarrow> hub
    \<Rightarrow> (event_bus \<times> hub) option" where
  "hub_emit diskOk taskId e arr b h =
     (let b' = fst (eb_emit diskOk taskId (e\<lparr>be_taskId := taskId\<rparr>) b)
      in if taskId \<in> hb_detachByTask h then map_option (\<lambda>(b'', h', _). (b'', h')) (hub_flush taskId arr b' h)
         else Some (b', h))"

definition subscriberCount :: "ident \<Rightarrow> hub \<Rightarrow> nat" where
  "subscriberCount taskId h = (case jm_get (hb_subscribersByTask h) taskId of None \<Rightarrow> 0 | Some subs \<Rightarrow> length subs)"

definition busSubscriptionCount :: "hub \<Rightarrow> nat" where
  "busSubscriptionCount h = card (hb_detachByTask h)"

definition activeTaskCount :: "hub \<Rightarrow> nat" where
  "activeTaskCount h = length (hb_subscribersByTask h)"

subsection \<open>A log read by cursor\<close>

text \<open>What the hub relies on: a log in strictly increasing order of its sequence numbers, read in pages.\<close>

locale cursor_log =
  fixes log :: "'s \<Rightarrow> 'e list" and seqno :: "'e \<Rightarrow> nat" and since :: "'s \<Rightarrow> int \<Rightarrow> nat \<Rightarrow> 'e list" and wf :: "'s \<Rightarrow> bool"
  assumes increasing: "wf s \<Longrightarrow> sorted_wrt (\<lambda>a b. seqno a < seqno b) (log s)"
    and paged: "wf s \<Longrightarrow> since s c n = take n (filter (\<lambda>e. c < int (seqno e)) (log s))"
begin

definition between :: "int \<Rightarrow> int \<Rightarrow> 's \<Rightarrow> 'e list" where
  "between a c s = filter (\<lambda>e. a < int (seqno e) \<and> int (seqno e) \<le> c) (log s)"

lemma sorted_between: "sorted_wrt (\<lambda>a b. seqno a < seqno b) xs \<Longrightarrow> a \<le> c \<Longrightarrow> c \<le> d
  \<Longrightarrow> filter (\<lambda>e. a < int (seqno e) \<and> int (seqno e) \<le> d) xs
    = filter (\<lambda>e. a < int (seqno e) \<and> int (seqno e) \<le> c) xs @ filter (\<lambda>e. c < int (seqno e) \<and> int (seqno e) \<le> d) xs"
proof (induction xs)
  case (Cons x xs)
  have "filter (\<lambda>e. a < int (seqno e) \<and> int (seqno e) \<le> c) xs = []" if "c < int (seqno x)"
    using Cons.prems(1) that by (auto simp: filter_empty_conv)
  with Cons show ?case by auto
qed simp

lemma between_split: "wf s \<Longrightarrow> a \<le> c \<Longrightarrow> c \<le> d \<Longrightarrow> between a d s = between a c s @ between c d s"
  unfolding between_def by (rule sorted_between [OF increasing])

lemma page_increasing: "wf s \<Longrightarrow> sorted_wrt (\<lambda>a b. seqno a < seqno b) (since s c n)"
  by (simp add: paged sorted_wrt_filter increasing sorted_wrt_take)

lemma page_above: "wf s \<Longrightarrow> e \<in> set (since s c n) \<Longrightarrow> c < int (seqno e)"
  by (auto simp: paged dest: in_set_takeD)

lemma page_in_log: "wf s \<Longrightarrow> e \<in> set (since s c n) \<Longrightarrow> e \<in> set (log s) \<and> c < int (seqno e)"
  by (auto simp: paged dest: in_set_takeD)

lemma last_greatest: "sorted_wrt (\<lambda>a b. seqno a < seqno b) ys \<Longrightarrow> x \<in> set ys \<Longrightarrow> seqno x \<le> seqno (last ys)"
  by (cases ys rule: rev_cases) (auto simp: sorted_wrt_append)

lemma take_upto: "sorted_wrt (\<lambda>a b. seqno a < seqno b) ys \<Longrightarrow> take n ys \<noteq> []
  \<Longrightarrow> filter (\<lambda>e. seqno e \<le> seqno (last (take n ys))) ys = take n ys"
proof -
  assume s: "sorted_wrt (\<lambda>a b. seqno a < seqno b) ys" and ne: "take n ys \<noteq> []"
  let ?l = "last (take n ys)"
  have "sorted_wrt (\<lambda>a b. seqno a < seqno b) (take n ys @ drop n ys)" using s by simp
  then have "\<forall>y \<in> set (drop n ys). seqno ?l < seqno y" and "\<forall>x \<in> set (take n ys). seqno x \<le> seqno ?l"
    using last_in_set [OF ne] last_greatest [of "take n ys"] unfolding sorted_wrt_append by blast+
  then have "filter (\<lambda>e. seqno e \<le> seqno ?l) (take n ys) = take n ys" "filter (\<lambda>e. seqno e \<le> seqno ?l) (drop n ys) = []"
    by (simp_all add: filter_empty_conv not_le)
  then have "filter (\<lambda>e. seqno e \<le> seqno ?l) (take n ys @ drop n ys) = take n ys" unfolding filter_append by simp
  then show ?thesis by simp
qed

text \<open>A page read from \<open>c\<close> holds what lies above any later cursor \<open>d\<close>, up to its last event.\<close>

lemma page_between:
  assumes "wf s" "c \<le> d" "since s c n \<noteq> []"
  shows "filter (\<lambda>e. d < int (seqno e)) (since s c n) = between d (int (seqno (last (since s c n)))) s"
proof -
  let ?ys = "filter (\<lambda>e. c < int (seqno e)) (log s)"
  have p: "since s c n = take n ?ys" using paged [OF assms(1)] .
  have "sorted_wrt (\<lambda>a b. seqno a < seqno b) ?ys" by (simp add: increasing [OF assms(1)] sorted_wrt_filter)
  from take_upto [OF this] assms(3) p
  have u: "since s c n = filter (\<lambda>e. seqno e \<le> seqno (last (since s c n))) ?ys" by simp
  have "filter (\<lambda>e. d < int (seqno e)) (filter (\<lambda>e. seqno e \<le> k) ?ys) = between d (int k) s" for k
    using assms(2) by (auto simp: between_def intro: filter_cong)
  with u show ?thesis by metis
qed

text \<open>A short page is the rest of the log.\<close>

lemma short_page: "wf s \<Longrightarrow> length (since s c n) < n \<Longrightarrow> since s c n = filter (\<lambda>e. c < int (seqno e)) (log s)"
  by (simp add: paged min_def split: if_splits)

end

subsection \<open>The event store as such a log\<close>

definition log_wf :: "event_bus \<Rightarrow> bool" where
  "log_wf b \<longleftrightarrow> (\<forall>t. sorted_wrt (\<lambda>r s. er_taskSeq r < er_taskSeq s) (rows_of t (eb_store b))
     \<and> (\<forall>r \<in> set (rows_of t (eb_store b)). er_taskSeq r < next_seq t b))"

lemma task_rows_increasing: "sorted_wrt (\<lambda>r s. er_taskSeq r < er_taskSeq s) (rows_of t st) \<Longrightarrow> task_rows t st = rows_of t st"
proof -
  assume "sorted_wrt (\<lambda>r s. er_taskSeq r < er_taskSeq s) (rows_of t st)"
  then have "sorted (map er_taskSeq (rows_of t st))" by (simp add: sorted_map) (auto elim: sorted_wrt_mono_rel [rotated])
  then show ?thesis by (simp add: task_rows_def rows_of_def sort_key_id_if_sorted)
qed

interpretation task_log: cursor_log "\<lambda>b. rows_of t (eb_store b)" er_taskSeq
  "\<lambda>b c n. rows_since t c (Some n) (eb_store b)" log_wf for t
proof
  fix s c n assume wf: "log_wf s"
  then show inc: "sorted_wrt (\<lambda>a b. er_taskSeq a < er_taskSeq b) (rows_of t (eb_store s))" by (simp add: log_wf_def)
  show "rows_since t c (Some n) (eb_store s) = take n (filter (\<lambda>e. c < int (er_taskSeq e)) (rows_of t (eb_store s)))"
    by (simp add: rows_since_def task_rows_increasing [OF inc])
qed

lemma emit_rows:
  assumes "log_wf b"
  shows "log_wf (fst (eb_emit ok t (e\<lparr>be_taskId := t\<rparr>) b))
    \<and> (\<exists>new. \<forall>u. rows_of u (eb_store (fst (eb_emit ok t (e\<lparr>be_taskId := t\<rparr>) b)))
        = rows_of u (eb_store b) @ (if u = t then new else []))"
proof -
  let ?k = "next_seq t b" and ?e = "(e\<lparr>be_taskId := t\<rparr>)\<lparr>be_seq := Some (next_seq t b)\<rparr>"
  let ?b = "fst (eb_emit ok t (e\<lparr>be_taskId := t\<rparr>) b)"
  have fresh: "er_taskSeq r \<noteq> ?k" if "r \<in> set (es_rows (eb_store b))" "er_taskId r = be_taskId ?e" for r
    using assms that by (force simp: log_wf_def rows_of_def)
  have seq: "next_seq u ?b = (if u = t then next_seq u b + 1 else next_seq u b)" for u
    by (simp add: eb_emit_def next_seq_def Let_def js_map)
  have "es_append ok (dagEventToAppEvent ?e) (eb_store b) = (if ok then Some ((eb_store b)\<lparr>es_rows := es_rows (eb_store b)
      @ [log_row ?e (es_nextGlobal (eb_store b))], es_nextGlobal := es_nextGlobal (eb_store b) + 1\<rparr>, es_nextGlobal (eb_store b)) else None)"
    using append_log_row [of ?e ?k "eb_store b"] fresh by (cases ok) (simp_all add: es_append_def)
  then have rows: "rows_of u (eb_store ?b)
      = rows_of u (eb_store b) @ (if u = t then (if ok then [log_row ?e (es_nextGlobal (eb_store b))] else []) else [])" for u
    by (cases ok) (simp_all add: eb_emit_def next_seq_def Let_def rows_of_def)
  have "log_wf ?b"
    unfolding log_wf_def rows seq using assms by (auto simp: log_wf_def sorted_wrt_append less_Suc_eq)
  with rows show ?thesis by blast
qed

lemma emit_all_rows:
  "log_wf b \<Longrightarrow> log_wf (emit_all t es b)
    \<and> (\<exists>new. \<forall>u. rows_of u (eb_store (emit_all t es b)) = rows_of u (eb_store b) @ (if u = t then new else []))"
proof (induction es arbitrary: b)
  case Nil
  then show ?case by (auto simp: emit_all_def)
next
  case (Cons x es)
  obtain ok e where x: "x = (ok, e)" by (cases x)
  define c where "c = fst (eb_emit ok t (e\<lparr>be_taskId := t\<rparr>) b)"
  have step: "emit_all t (x # es) b = emit_all t es c" by (simp add: emit_all_def x c_def)
  obtain n1 where n1: "log_wf c" "\<And>u. rows_of u (eb_store c) = rows_of u (eb_store b) @ (if u = t then n1 else [])"
    using emit_rows [OF Cons.prems, of ok t e] unfolding c_def by blast
  obtain n2 where "log_wf (emit_all t es c)"
    "\<And>u. rows_of u (eb_store (emit_all t es c)) = rows_of u (eb_store c) @ (if u = t then n2 else [])"
    using Cons.IH [OF n1(1)] by blast
  then show ?case unfolding step using n1(2) by (auto intro!: exI [of _ "n1 @ n2"])
qed

subsection \<open>Delivery\<close>

text \<open>
  A client has received what the log holds above its start, up to its cursor, in order; its
  cursor is the one it came with or that of an event it received.
\<close>

definition served :: "ident \<Rightarrow> event_bus \<Rightarrow> subscriber \<Rightarrow> bool" where
  "served t b s \<longleftrightarrow> sb_start s \<le> sb_cursor s
     \<and> (sb_cursor s = sb_start s \<or> (\<exists>r \<in> set (rows_of t (eb_store b)). int (er_taskSeq r) = sb_cursor s))
     \<and> sb_delivered s = map rowToStoredEvent (task_log.between t (sb_start s) (sb_cursor s) b)"

lemma deliver_page: "sorted_wrt (\<lambda>r q. er_taskSeq r < er_taskSeq q) page
  \<Longrightarrow> foldl deliver_one s page
    = s\<lparr>sb_delivered := sb_delivered s @ map rowToStoredEvent (filter (\<lambda>r. sb_cursor s < int (er_taskSeq r)) page),
        sb_cursor := (if page = [] then sb_cursor s else max (sb_cursor s) (int (er_taskSeq (last page))))\<rparr>"
proof (induction page rule: rev_induct)
  case (snoc r page)
  let ?s = "s\<lparr>sb_delivered := sb_delivered s @ map rowToStoredEvent (filter (\<lambda>r. sb_cursor s < int (er_taskSeq r)) page),
        sb_cursor := (if page = [] then sb_cursor s else max (sb_cursor s) (int (er_taskSeq (last page))))\<rparr>"
  have below: "er_taskSeq q < er_taskSeq r" if "q \<in> set page" for q using snoc.prems that by (simp add: sorted_wrt_append)
  have "foldl deliver_one s page = ?s" using snoc by (simp add: sorted_wrt_append)
  then have step: "foldl deliver_one s (page @ [r]) = deliver_one ?s r" by simp
  have "page \<noteq> [] \<Longrightarrow> er_taskSeq (last page) < er_taskSeq r" using below by simp
  then show ?case unfolding step by (cases "page = []") (auto simp: deliver_one_def max_def)
qed simp

lemma deliver_rows: "foldl deliver_row subs page = map (\<lambda>(i, s). (i, foldl deliver_one s page)) subs"
proof (induction page rule: rev_induct)
  case (snoc r page)
  then show ?case by (simp add: deliver_row_def comp_def case_prod_beta)
qed (simp add: case_prod_beta)

lemma slowest_spec: "case slowest subs of None \<Rightarrow> subs = []
  | Some c \<Rightarrow> (\<forall>p \<in> set subs. c \<le> sb_cursor (snd p)) \<and> (\<exists>p \<in> set subs. sb_cursor (snd p) = c)"
proof (induction subs rule: rev_induct)
  case (snoc p subs)
  have "slowest (subs @ [p]) = (case slowest subs of None \<Rightarrow> Some (sb_cursor (snd p))
     | Some c \<Rightarrow> if sb_cursor (snd p) < c then Some (sb_cursor (snd p)) else Some c)" by (simp add: slowest_def)
  with snoc show ?case by (force split: option.splits)
qed (simp add: slowest_def)

text \<open>One page: clients stay served, and none stays behind the last event of the page.\<close>

lemma drain_page:
  assumes "log_wf b" "\<forall>(i, s) \<in> set subs. served t b s" "drainOnce t n (eb_store b) subs = (subs', k)"
  shows "(\<forall>(i, s) \<in> set subs'. served t b s) \<and> map fst subs' = map fst subs
    \<and> map (sb_start \<circ> snd) subs' = map (sb_start \<circ> snd) subs
    \<and> (k < n \<longrightarrow> (\<forall>(i, s) \<in> set subs'. \<forall>r \<in> set (rows_of t (eb_store b)). int (er_taskSeq r) \<le> sb_cursor s))"
proof (cases "slowest subs")
  case None
  then have "subs = []" using slowest_spec [of subs] by simp
  with assms(3) None show ?thesis by (auto simp: drainOnce_def)
next
  case (Some c)
  let ?page = "rows_since t c (Some n) (eb_store b)"
  have k: "k = length ?page" and subs': "subs' = map (\<lambda>(i, s). (i, foldl deliver_one s ?page)) subs"
    using assms(3) Some by (auto simp: drainOnce_def Let_def deliver_rows)
  note inc = task_log.page_increasing [OF assms(1), of t c n]
  have one: "served t b (foldl deliver_one s ?page) \<and> sb_start (foldl deliver_one s ?page) = sb_start s
      \<and> (k < n \<longrightarrow> (\<forall>r \<in> set (rows_of t (eb_store b)). int (er_taskSeq r) \<le> sb_cursor (foldl deliver_one s ?page)))"
    if m: "(i, s) \<in> set subs" for i s
  proof (cases "?page = []")
    case True
    have "c \<le> sb_cursor s" using slowest_spec [of subs] Some m by force
    moreover have "filter (\<lambda>e. c < int (er_taskSeq e)) (rows_of t (eb_store b)) = []" if "k < n"
      using task_log.short_page [OF assms(1), of t c n] True that k by simp
    ultimately show ?thesis using True assms(2) m by (fastforce simp: filter_empty_conv)
  next
    case False
    let ?l = "int (er_taskSeq (last ?page))"
    have s: "served t b s" "c \<le> sb_cursor s" using slowest_spec [of subs] Some m assms(2) by force+
    have d: "foldl deliver_one s ?page = s\<lparr>sb_delivered := sb_delivered s @ map rowToStoredEvent
        (task_log.between t (sb_cursor s) ?l b), sb_cursor := max (sb_cursor s) ?l\<rparr>"
      using deliver_page [OF inc, of s] task_log.page_between [OF assms(1) s(2) False] False by simp
    have "task_log.between t (sb_cursor s) ?l b = task_log.between t (sb_cursor s) (max (sb_cursor s) ?l) b"
      by (cases "?l \<le> sb_cursor s") (auto simp: task_log.between_def max_def filter_empty_conv intro: sym)
    moreover have "task_log.between t (sb_start s) (max (sb_cursor s) ?l) b
        = task_log.between t (sb_start s) (sb_cursor s) b @ task_log.between t (sb_cursor s) (max (sb_cursor s) ?l) b"
      using s(1) by (intro task_log.between_split [OF assms(1)]) (simp_all add: served_def)
    moreover have "last ?page \<in> set (rows_of t (eb_store b))"
      using task_log.page_in_log [OF assms(1) last_in_set [OF False]] by simp
    ultimately have "served t b (foldl deliver_one s ?page)" using s(1) by (auto simp: d served_def max_def)
    moreover have "int (er_taskSeq r) \<le> max (sb_cursor s) ?l" if "k < n" "r \<in> set (rows_of t (eb_store b))" for r
    proof (cases "c < int (er_taskSeq r)")
      case True
      then have "r \<in> set ?page" using task_log.short_page [OF assms(1), of t c n] that k by simp
      from task_log.last_greatest [OF inc this] show ?thesis by simp
    next
      case False
      then show ?thesis using s(2) by simp
    qed
    ultimately show ?thesis by (simp add: d)
  qed
  have "map (sb_start \<circ> snd) subs' = map (sb_start \<circ> snd) subs"
    unfolding subs' using one by (auto simp: comp_def case_prod_beta)
  then show ?thesis using one by (auto simp: subs' comp_def case_prod_beta)
qed

lemma served_grows:
  assumes "log_wf b'" "rows_of t (eb_store b') = rows_of t (eb_store b) @ new" "served t b s"
  shows "served t b' s"
proof -
  have "int (er_taskSeq r) < int (er_taskSeq q)" if "r \<in> set (rows_of t (eb_store b))" "q \<in> set new" for r q
    using task_log.increasing [OF assms(1), of t] that by (simp add: assms(2) sorted_wrt_append)
  then have "filter (\<lambda>e. sb_start s < int (er_taskSeq e) \<and> int (er_taskSeq e) \<le> sb_cursor s) new = []"
    using assms(3) by (fastforce simp: filter_empty_conv served_def)
  then have "task_log.between t (sb_start s) (sb_cursor s) b' = task_log.between t (sb_start s) (sb_cursor s) b"
    unfolding task_log.between_def by (simp add: assms(2))
  with assms(3) show ?thesis by (auto simp: served_def assms(2))
qed

definition backlog :: "ident \<Rightarrow> event_bus \<Rightarrow> subscribers \<Rightarrow> nat" where
  "backlog t b subs = (case slowest subs of None \<Rightarrow> 0
     | Some c \<Rightarrow> length (filter (\<lambda>r. c < int (er_taskSeq r)) (rows_of t (eb_store b))))"

text \<open>A full page takes the slowest client further.\<close>

lemma full_page:
  assumes "log_wf b" "1 \<le> n" "drainOnce t n (eb_store b) subs = (subs', k)" "n \<le> k"
  shows "backlog t b subs' < backlog t b subs"
proof -
  obtain c where c: "slowest subs = Some c" using assms(2-4) by (cases "slowest subs") (auto simp: drainOnce_def)
  let ?page = "rows_since t c (Some n) (eb_store b)" and ?rows = "rows_of t (eb_store b)"
  have k: "k = length ?page" and subs': "subs' = map (\<lambda>(i, s). (i, foldl deliver_one s ?page)) subs"
    using assms(3) c by (auto simp: drainOnce_def Let_def deliver_rows)
  have ne: "?page \<noteq> []" using k assms(2,4) by auto
  let ?l = "last ?page"
  have l: "?l \<in> set ?rows" "c < int (er_taskSeq ?l)" using task_log.page_in_log [OF assms(1) last_in_set [OF ne]] by auto
  obtain d where d: "slowest subs' = Some d" using c slowest_spec [of subs] slowest_spec [of subs']
    by (cases "slowest subs'") (auto simp: subs')
  then obtain p where p: "p \<in> set subs'" "sb_cursor (snd p) = d" using slowest_spec [of subs'] by auto
  then obtain i s where "d = sb_cursor (foldl deliver_one s ?page)" by (auto simp: subs')
  then have "int (er_taskSeq ?l) \<le> d"
    using deliver_page [OF task_log.page_increasing [OF assms(1)], of s t c n] ne by simp
  with l have lt: "c < d" "\<not> d < int (er_taskSeq ?l)" by auto
  have "filter (\<lambda>r. d < int (er_taskSeq r)) ?rows = filter (\<lambda>r. d < int (er_taskSeq r)) (filter (\<lambda>r. c < int (er_taskSeq r)) ?rows)"
    using lt(1) by (auto intro: filter_cong)
  moreover have "length (filter (\<lambda>r. d < int (er_taskSeq r)) (filter (\<lambda>r. c < int (er_taskSeq r)) ?rows))
      < length (filter (\<lambda>r. c < int (er_taskSeq r)) ?rows)"
    using l lt(2) by (intro length_filter_less [of ?l]) simp_all
  ultimately show ?thesis by (simp only: backlog_def c d option.case)
qed

definition caught_up :: "ident \<Rightarrow> event_bus \<Rightarrow> subscriber \<Rightarrow> bool" where
  "caught_up t b s \<longleftrightarrow> (\<forall>r \<in> set (rows_of t (eb_store b)). int (er_taskSeq r) \<le> sb_cursor s)"

definition extends_log :: "ident \<Rightarrow> event_bus \<Rightarrow> event_bus \<Rightarrow> bool" where
  "extends_log t b b' \<longleftrightarrow> log_wf b' \<and> (\<exists>new. \<forall>u. rows_of u (eb_store b') = rows_of u (eb_store b) @ (if u = t then new else []))"

lemma extends_refl: "log_wf b \<Longrightarrow> extends_log t b b"
  by (auto simp: extends_log_def)

lemma extends_trans: "extends_log t a b \<Longrightarrow> extends_log t b c \<Longrightarrow> extends_log t a c"
  unfolding extends_log_def by (elim conjE exE) (auto intro!: exI [of _ "_ @ _"])

lemma extends_served: "extends_log t b b' \<Longrightarrow> served u b s \<Longrightarrow> served u b' s"
  unfolding extends_log_def using served_grows by blast

lemma emit_all_extends: "log_wf b \<Longrightarrow> extends_log t b (emit_all t es b)"
  using emit_all_rows [of b t es] by (simp add: extends_log_def)

text \<open>The drain ends, and leaves every client served and caught up.\<close>

lemma drain_ends:
  assumes "1 \<le> n"
  shows "log_wf b \<Longrightarrow> \<forall>(i, s) \<in> set subs. served t b s \<Longrightarrow>
    \<exists>b' subs' k'. drain_loop t n arr b subs k = Some (b', subs', k') \<and> extends_log t b b'
      \<and> (\<forall>(i, s) \<in> set subs'. served t b' s \<and> caught_up t b' s) \<and> map fst subs' = map fst subs"
proof (induction "(length arr, backlog t b subs)" arbitrary: arr b subs k rule: wf_induct [OF wf_lex_prod [OF wf_less_than wf_less_than]])
  case 1
  obtain subs1 m where d: "drainOnce t n (eb_store b) subs = (subs1, m)" by fastforce
  note page = drain_page [OF 1(2,3) d]
  define now where "now = (case arr of [] \<Rightarrow> [] | es # _ \<Rightarrow> es)"
  have ext: "extends_log t b (emit_all t now b)" by (rule emit_all_extends [OF 1(2)])
  show ?case
  proof (cases "now = [] \<and> m < n")
    case True
    then have "drain_loop t n arr b subs k = Some (b, subs1, k + m)"
      by (subst drain_loop.simps) (simp add: d now_def [symmetric] emit_all_def)
    then show ?thesis using page True 1(2) by (auto simp: caught_up_def extends_refl)
  next
    case False
    let ?b = "emit_all t now b"
    have "((length (tl arr), backlog t ?b subs1), (length arr, backlog t b subs)) \<in> less_than <*lex*> less_than"
    proof (cases arr)
      case Nil
      then have "now = []" "n \<le> m" using False by (simp_all add: now_def)
      then show ?thesis using full_page [OF 1(2) assms d] Nil by (simp add: emit_all_def)
    qed simp
    moreover have "log_wf ?b" using ext by (simp add: extends_log_def)
    moreover have "\<forall>(i, s) \<in> set subs1. served t ?b s" using page extends_served [OF ext] by blast
    ultimately obtain b' subs' k' where r: "drain_loop t n (tl arr) ?b subs1 (k + m) = Some (b', subs', k')" "extends_log t ?b b'"
      "\<forall>(i, s) \<in> set subs'. served t b' s \<and> caught_up t b' s" "map fst subs' = map fst subs1"
      using 1(1) by blast
    have "drain_loop t n arr b subs k = drain_loop t n (tl arr) ?b subs1 (k + m)"
      using False by (subst drain_loop.simps) (auto simp add: d now_def [symmetric])
    then show ?thesis using r page extends_trans [OF ext r(2)] by auto
  qed
qed

subsection \<open>Histories of a hub\<close>

datatype hub_op =
    HubSubscribe ident "int option"
  | HubUnsubscribe ident nat
  | HubEmit bool ident bus_event "(bool \<times> bus_event) list list"
  | HubFlush ident "(bool \<times> bus_event) list list"

fun hub_step :: "hub_op \<Rightarrow> event_bus \<times> hub \<Rightarrow> (event_bus \<times> hub) option" where
  "hub_step (HubSubscribe t c) (b, h) = Some (b, fst (hub_subscribe t c h))"
| "hub_step (HubUnsubscribe t i) (b, h) = Some (b, hub_unsubscribe t i h)"
| "hub_step (HubEmit ok t e arr) (b, h) = hub_emit ok t e arr b h"
| "hub_step (HubFlush t arr) (b, h) = map_option (\<lambda>(b', h', _). (b', h')) (hub_flush t arr b h)"

fun hub_run :: "hub_op list \<Rightarrow> event_bus \<times> hub \<Rightarrow> (event_bus \<times> hub) option" where
  "hub_run [] x = Some x"
| "hub_run (op # ops) x = do { y \<leftarrow> hub_step op x; hub_run ops y }"

definition hub_inv :: "event_bus \<Rightarrow> hub \<Rightarrow> bool" where
  "hub_inv b h \<longleftrightarrow> log_wf b \<and> 1 \<le> hb_pageSize h \<and> jm_wf (hb_subscribersByTask h)
     \<and> hb_detachByTask h = fst ` set (hb_subscribersByTask h)
     \<and> (\<forall>t subs. jm_get (hb_subscribersByTask h) t = Some subs \<longrightarrow> subs \<noteq> [] \<and> (\<forall>(i, s) \<in> set subs. served t b s))"

lemma hub_invD:
  assumes "hub_inv b h"
  shows "log_wf b" "1 \<le> hb_pageSize h" "jm_wf (hb_subscribersByTask h)" "hb_detachByTask h = fst ` set (hb_subscribersByTask h)"
    "jm_get (hb_subscribersByTask h) t = Some subs \<Longrightarrow> subs \<noteq> []"
    "jm_get (hb_subscribersByTask h) t = Some subs \<Longrightarrow> (i, s) \<in> set subs \<Longrightarrow> served t b s"
  using assms unfolding hub_inv_def by blast+

lemma served_start: "sb_start s = sb_cursor s \<Longrightarrow> sb_delivered s = [] \<Longrightarrow> served t b s"
  by (simp add: served_def task_log.between_def filter_empty_conv)

lemma subscribe_inv: "hub_inv b h \<Longrightarrow> hub_inv b (fst (hub_subscribe t c h))"
proof -
  assume inv: "hub_inv b h"
  let ?subs = "or_else [] (jm_get (hb_subscribersByTask h) t)"
  have old: "served t b s" if "(i, s) \<in> set ?subs" for i s
    using that hub_invD(6) [OF inv, of t] by (cases "jm_get (hb_subscribersByTask h) t") auto
  have "served t b s" if "(j, s) \<in> set (jm_set ?subs i \<lparr> sb_start = x, sb_cursor = x, sb_delivered = [] \<rparr>)" for i j s x
    using jm_set_mem [OF that] old by (auto intro: served_start)
  then show ?thesis
    using inv unfolding hub_inv_def hub_subscribe_def Let_def
    by (auto simp: js_map jm_set_image simp del: map_of_eq_Some_iff split: if_splits)
qed

lemma unsubscribe_inv: "hub_inv b h \<Longrightarrow> hub_inv b (hub_unsubscribe t i h)"
proof -
  assume inv: "hub_inv b h"
  show ?thesis
  proof (cases "jm_get (hb_subscribersByTask h) t")
    case (Some subs)
    then have t: "t \<in> fst ` set (hb_subscribersByTask h)" by (metis fst_conv image_eqI map_of_SomeD)
    have "served t b s" if "(j, s) \<in> set (jm_del subs i)" for j s
      using jm_del_mem [OF that] hub_invD(6) [OF inv Some] by blast
    then show ?thesis
      using inv t Some unfolding hub_inv_def hub_unsubscribe_def
      by (auto simp: Let_def js_map jm_set_image jm_del_image simp del: map_of_eq_Some_iff split: if_splits)
  qed (simp add: hub_unsubscribe_def inv)
qed

lemma log_grows_inv: "hub_inv b h \<Longrightarrow> extends_log t b b' \<Longrightarrow> hub_inv b' h"
proof -
  assume inv: "hub_inv b h" and ext: "extends_log t b b'"
  have "served u b' s" if "jm_get (hb_subscribersByTask h) u = Some subs" "(i, s) \<in> set subs" for u subs i s
    using extends_served [OF ext hub_invD(6) [OF inv that]] .
  moreover have "log_wf b'" using ext by (simp add: extends_log_def)
  ultimately show ?thesis using inv unfolding hub_inv_def by fast
qed

definition all_current :: "ident \<Rightarrow> event_bus \<Rightarrow> hub \<Rightarrow> bool" where
  "all_current t b h \<longleftrightarrow> (\<forall>subs. jm_get (hb_subscribersByTask h) t = Some subs \<longrightarrow> (\<forall>(i, s) \<in> set subs. caught_up t b s))"

lemma flush_inv:
  assumes "hub_inv b h"
  shows "\<exists>b' h' k. hub_flush t arr b h = Some (b', h', k) \<and> hub_inv b' h' \<and> all_current t b' h'"
proof (cases "jm_get (hb_subscribersByTask h) t")
  case None
  then show ?thesis using assms by (auto simp: hub_flush_def all_current_def)
next
  case (Some subs)
  have ne: "subs \<noteq> []" and sv: "\<forall>(i, s) \<in> set subs. served t b s"
    using hub_invD(5,6) [OF assms Some] by blast+
  obtain b' subs' k' where d: "drain_loop t (hb_pageSize h) arr b subs 0 = Some (b', subs', k')" "extends_log t b b'"
    "\<forall>(i, s) \<in> set subs'. served t b' s \<and> caught_up t b' s" "map fst subs' = map fst subs"
    using drain_ends [OF hub_invD(2) [OF assms] hub_invD(1) [OF assms] sv] by blast
  let ?h = "h\<lparr>hb_subscribersByTask := jm_set (hb_subscribersByTask h) t subs'\<rparr>"
  have "hub_inv b' h" by (rule log_grows_inv [OF assms d(2)])
  moreover have "t \<in> fst ` set (hb_subscribersByTask h)" using Some by (metis fst_conv image_eqI map_of_SomeD)
  moreover have "subs' \<noteq> []" using d(4) ne by auto
  ultimately have "hub_inv b' ?h"
    using d(3) unfolding hub_inv_def by (auto simp: js_map jm_set_image simp del: map_of_eq_Some_iff split: if_splits)
  moreover have "all_current t b' ?h" using d(3) by (auto simp: all_current_def js_map)
  moreover have "hub_flush t arr b h = Some (b', ?h, k')" using Some ne d(1) by (simp add: hub_flush_def)
  ultimately show ?thesis by blast
qed

lemma emit_inv:
  assumes "hub_inv b h"
  shows "\<exists>b' h'. hub_emit ok t e arr b h = Some (b', h') \<and> hub_inv b' h' \<and> all_current t b' h'"
proof -
  let ?b = "fst (eb_emit ok t (e\<lparr>be_taskId := t\<rparr>) b)"
  have "extends_log t b ?b" using emit_rows [OF hub_invD(1) [OF assms], of ok t e] unfolding extends_log_def by blast
  then have inv: "hub_inv ?b h" by (rule log_grows_inv [OF assms])
  show ?thesis
  proof (cases "t \<in> hb_detachByTask h")
    case True
    then show ?thesis using flush_inv [OF inv, of t arr] by (auto simp: hub_emit_def)
  next
    case False
    then have "jm_get (hb_subscribersByTask h) t = None" using hub_invD(4) [OF assms] by (simp add: map_of_eq_None_iff)
    then show ?thesis using False inv by (auto simp: hub_emit_def all_current_def)
  qed
qed

lemma step_inv: "hub_inv b h \<Longrightarrow> \<exists>b' h'. hub_step x (b, h) = Some (b', h') \<and> hub_inv b' h'"
proof (cases x)
  case (HubFlush t arr)
  assume "hub_inv b h"
  with HubFlush flush_inv [OF this, of t arr] show ?thesis by auto
next
  case (HubEmit ok t e arr)
  assume "hub_inv b h"
  with HubEmit emit_inv [OF this, of ok t e arr] show ?thesis by auto
qed (simp_all add: subscribe_inv unsubscribe_inv)

lemma hub_run_inv: "hub_inv b h \<Longrightarrow> \<exists>b' h'. hub_run ops (b, h) = Some (b', h') \<and> hub_inv b' h'"
proof (induction ops arbitrary: b h)
  case (Cons x ops)
  then obtain b1 h1 where "hub_step x (b, h) = Some (b1, h1)" "hub_inv b1 h1" using step_inv by blast
  with Cons.IH [of b1 h1] show ?case by simp
qed simp

lemma hub_run_append: "hub_run (xs @ ys) x = do { y \<leftarrow> hub_run xs x; hub_run ys y }"
  by (induction xs arbitrary: x) (auto simp: bind_assoc split: bind_split)

lemma current_delivered:
  assumes "hub_inv b h" "all_current t b h" "jm_get (hb_subscribersByTask h) t = Some subs" "(i, s) \<in> set subs"
  shows "sb_delivered s = map rowToStoredEvent (filter (\<lambda>r. sb_start s < int (er_taskSeq r)) (task_rows t (eb_store b)))"
proof -
  have "served t b s" "caught_up t b s" using assms hub_invD(6) by (auto simp: all_current_def)
  then show ?thesis
    using task_rows_increasing [OF task_log.increasing [OF hub_invD(1) [OF assms(1)]], of t]
    by (auto simp: served_def caught_up_def task_log.between_def intro!: arg_cong [where f = "map rowToStoredEvent"] filter_cong)
qed

lemma new_hub_inv: "new_hub pageSize = Some h \<Longrightarrow> hub_inv (new_bus empty_store) h"
  by (auto simp: new_hub_def Let_def hub_inv_def log_wf_def new_bus_def empty_store_def rows_of_def split: if_splits)

text \<open>
  C6. A stream loses nothing and repeats nothing. Whatever clients came and went, with whatever
  resume cursors and page size, whichever writes failed and whatever was emitted while the hub was
  delivering: each flush of a task, and each event of it, ends, and then every client attached to
  the task has received exactly the stored events after the cursor it came with, each once and in
  order. The hub holds one bus subscription per task that has a client.
\<close>

theorem stream_delivers_exactly_once:
  assumes "new_hub pageSize = Some h0"
    and "x = HubFlush t arr \<or> x = HubEmit ok t e arr"
  shows "\<exists>b h. hub_run (ops @ [x]) (new_bus empty_store, h0) = Some (b, h)
    \<and> (\<forall>subs i s. jm_get (hb_subscribersByTask h) t = Some subs \<longrightarrow> (i, s) \<in> set subs \<longrightarrow>
         sb_delivered s = map rowToStoredEvent (filter (\<lambda>r. sb_start s < int (er_taskSeq r)) (task_rows t (eb_store b))))
    \<and> busSubscriptionCount h = activeTaskCount h \<and> (\<forall>u. u \<in> hb_detachByTask h \<longleftrightarrow> 0 < subscriberCount u h)"
proof -
  obtain b1 h1 where r: "hub_run ops (new_bus empty_store, h0) = Some (b1, h1)" and inv: "hub_inv b1 h1"
    using hub_run_inv [OF new_hub_inv [OF assms(1)]] by blast
  obtain b h where s: "hub_step x (b1, h1) = Some (b, h)" "hub_inv b h" "all_current t b h"
    using assms(2) flush_inv [OF inv, of t arr] emit_inv [OF inv, of ok t e arr] by auto
  have d: "hb_detachByTask h = fst ` set (hb_subscribersByTask h)" "jm_wf (hb_subscribersByTask h)"
    using hub_invD(3,4) [OF s(2)] by blast+
  have "busSubscriptionCount h = activeTaskCount h"
    using distinct_card [OF d(2)] by (simp add: busSubscriptionCount_def activeTaskCount_def d(1))
  moreover have "u \<in> hb_detachByTask h \<longleftrightarrow> 0 < subscriberCount u h" for u
  proof (cases "jm_get (hb_subscribersByTask h) u")
    case None
    then have "u \<notin> fst ` set (hb_subscribersByTask h)" by (simp add: map_of_eq_None_iff)
    then show ?thesis using None by (simp only: d(1) subscriberCount_def option.case less_irrefl)
  next
    case (Some subs)
    then have "u \<in> fst ` set (hb_subscribersByTask h)" by (metis fst_conv image_eqI map_of_SomeD)
    then show ?thesis using hub_invD(5) [OF s(2) Some] Some by (simp add: d(1) subscriberCount_def)
  qed
  ultimately show ?thesis using r s current_delivered [OF s(2,3)] by (auto simp: hub_run_append)
qed

definition demo_event :: bus_event where
  "demo_event = \<lparr> be_type = ''node_started'', be_taskId = ''t'', be_nodeId = Some ''a'', be_timestamp = 3, be_payload = None, be_seq = None \<rparr>"

theorem stream_delivers_exactly_once_witness:
  "\<exists>h0 b h. new_hub (Some 1) = Some h0 \<and> hub_run [HubEmit True ''t'' demo_event [], HubSubscribe ''t'' None,
      HubEmit True ''t'' demo_event [[(True, demo_event)]]] (new_bus empty_store, h0) = Some (b, h) \<and> busSubscriptionCount h = activeTaskCount h"
proof -
  obtain h0 where h0: "new_hub (Some 1) = Some h0" by (simp add: new_hub_def)
  from stream_delivers_exactly_once [OF h0 disjI2 [OF refl], of "[HubEmit True ''t'' demo_event [], HubSubscribe ''t'' None]"] h0
  show ?thesis by fastforce
qed

end
