(* ===== verification/WalletQuota.thy ===== *)
theory WalletQuota
  imports Complex_Main Prelude
begin

text \<open>
  \<open>backend/src/services/quota/walletQuota.ts\<close> and \<open>dailyQuota.ts\<close>: how many tasks and provider
  tokens a wallet may use in the trailing 24 hours. The table \<open>wallet_quota_events\<close> is the list of
  its rows; of the table \<open>tasks\<close> only the wallet and the creation time of a row count. A number read
  from the options or the configuration is a rational, or \<open>None\<close> when it is not finite. Rejections
  counted by the metrics are kept as pairs of use and limit.
\<close>

datatype quota_kind = KTask | KTokens

record quota_event =
  qe_wallet :: string
  qe_kind :: quota_kind
  qe_units :: int
  qe_createdAt :: ms

record quota_state =
  qs_events :: "quota_event list"
  qs_rejections :: "(int \<times> int) list"

record quota_options =
  qo_taskLimit :: "rat option"
  qo_tokenLimit :: "rat option"

text \<open>\<open>None\<close> in \<open>wc_remaining\<close> is \<open>Infinity\<close>.\<close>

record wallet_check =
  wc_limit :: int
  wc_used :: int
  wc_remaining :: "int option"
  wc_tokenLimit :: int
  wc_tokenUsed :: int
  wc_resetAt :: ms
  wc_disabled :: bool
  wc_rejected :: bool

datatype quota_resource = RTokens | RTasks | RPromptChars

record quota_error =
  qx_message :: string
  qx_resource :: quota_resource
  qx_used :: int
  qx_limit :: int
  qx_resetAt :: "ms option"
  qx_retryAfterSeconds :: int

definition ANONYMOUS_WALLET :: string where
  "ANONYMOUS_WALLET = ''anonymous''"

definition QUOTA_WINDOW_MS :: ms where
  "QUOTA_WINDOW_MS = 24 * 60 * 60 * 1000"

definition quota_positiveInt :: "rat option \<Rightarrow> int" where
  "quota_positiveInt v = (case v of None \<Rightarrow> 0 | Some n \<Rightarrow> if 0 < n then \<lfloor>n\<rfloor> else 0)"

definition windowStart :: "ms \<Rightarrow> ms" where
  "windowStart now = now - QUOTA_WINDOW_MS"

text \<open>Epoch time has no leap seconds, so every UTC day has the length of the window.\<close>

definition nextMidnight :: "ms \<Rightarrow> ms" where
  "nextMidnight now = (now div QUOTA_WINDOW_MS + 1) * QUOTA_WINDOW_MS"

definition secondsUntil :: "ms \<Rightarrow> ms \<Rightarrow> int" where
  "secondsUntil resetAt now = max 0 \<lceil>of_int (resetAt - now) / (1000 :: rat)\<rceil>"

definition in_window :: "string \<Rightarrow> quota_kind \<Rightarrow> ms \<Rightarrow> quota_event \<Rightarrow> bool" where
  "in_window wallet kind since e \<longleftrightarrow> qe_wallet e = wallet \<and> qe_kind e = kind \<and> since < qe_createdAt e"

definition countEvents :: "quota_state \<Rightarrow> string \<Rightarrow> quota_kind \<Rightarrow> ms \<Rightarrow> int" where
  "countEvents q wallet kind since = int (length (filter (in_window wallet kind since) (qs_events q)))"

definition sumUnits :: "quota_state \<Rightarrow> string \<Rightarrow> quota_kind \<Rightarrow> ms \<Rightarrow> int" where
  "sumUnits q wallet kind since = sum_list (map qe_units (filter (in_window wallet kind since) (qs_events q)))"

definition insertEvent :: "string \<Rightarrow> quota_kind \<Rightarrow> int \<Rightarrow> ms \<Rightarrow> quota_state \<Rightarrow> quota_state" where
  "insertEvent wallet kind units createdAt q = q\<lparr>qs_events := qs_events q
     @ [\<lparr> qe_wallet = wallet, qe_kind = kind, qe_units = units, qe_createdAt = createdAt \<rparr>]\<rparr>"

definition checkWalletQuota :: "string \<Rightarrow> quota_options \<Rightarrow> ms \<Rightarrow> quota_state \<Rightarrow> wallet_check" where
  "checkWalletQuota wallet opts now q =
     (let taskLimit = quota_positiveInt (qo_taskLimit opts);
          tokenLimit = quota_positiveInt (qo_tokenLimit opts);
          resetAt = nextMidnight now
      in if wallet = ANONYMOUS_WALLET \<or> (taskLimit \<le> 0 \<and> tokenLimit \<le> 0)
         then \<lparr> wc_limit = taskLimit, wc_used = 0, wc_remaining = None, wc_tokenLimit = tokenLimit, wc_tokenUsed = 0,
                wc_resetAt = resetAt, wc_disabled = True, wc_rejected = False \<rparr>
         else let since = windowStart now;
                  used = (if 0 < taskLimit then countEvents q wallet KTask since else 0);
                  tokenUsed = (if 0 < tokenLimit then sumUnits q wallet KTokens since else 0)
              in \<lparr> wc_limit = taskLimit, wc_used = used,
                   wc_remaining = (if 0 < taskLimit then Some (max 0 (taskLimit - used)) else None),
                   wc_tokenLimit = tokenLimit, wc_tokenUsed = tokenUsed, wc_resetAt = resetAt, wc_disabled = False,
                   wc_rejected = (0 < taskLimit \<and> taskLimit \<le> used \<or> 0 < tokenLimit \<and> tokenLimit \<le> tokenUsed) \<rparr>)"

definition wallet_error :: "wallet_check \<Rightarrow> ms \<Rightarrow> quota_error" where
  "wallet_error c now =
     (let overTokens = 0 < wc_tokenLimit c \<and> wc_tokenLimit c \<le> wc_tokenUsed c;
          limit = (if overTokens then wc_tokenLimit c else wc_limit c)
      in \<lparr> qx_message = (if overTokens then ''Venice token quota reached (max '' else ''Task submission quota reached (max '')
              @ int_text limit @ '' per 24 hours)'',
           qx_resource = (if overTokens then RTokens else RTasks),
           qx_used = (if overTokens then wc_tokenUsed c else wc_used c), qx_limit = limit,
           qx_resetAt = Some (wc_resetAt c), qx_retryAfterSeconds = secondsUntil (wc_resetAt c) now \<rparr>)"

definition assertWalletQuota :: "string \<Rightarrow> quota_options \<Rightarrow> ms \<Rightarrow> quota_state \<Rightarrow> quota_state \<times> (quota_error + wallet_check)" where
  "assertWalletQuota wallet opts now q =
     (let c = checkWalletQuota wallet opts now q
      in if \<not> wc_rejected c then (q, Inr c)
         else (q\<lparr>qs_rejections := qs_rejections q @ [(wc_used c, wc_limit c)]\<rparr>, Inl (wallet_error c now)))"

definition checkAndConsumeTask :: "string \<Rightarrow> quota_options \<Rightarrow> ms \<Rightarrow> quota_state \<Rightarrow> quota_state \<times> (quota_error + wallet_check)" where
  "checkAndConsumeTask wallet opts now q =
     (case assertWalletQuota wallet opts now q of
        (q', Inl err) \<Rightarrow> (q', Inl err)
      | (q', Inr c) \<Rightarrow> (if wallet \<noteq> ANONYMOUS_WALLET then insertEvent wallet KTask 1 now q' else q', Inr c))"

definition recordWalletTokenSpend :: "string \<Rightarrow> rat option \<Rightarrow> ms \<Rightarrow> quota_state \<Rightarrow> quota_state" where
  "recordWalletTokenSpend wallet tokens now q =
     (if wallet = '''' \<or> wallet = ANONYMOUS_WALLET then q
      else (case tokens of None \<Rightarrow> q
            | Some n \<Rightarrow> if \<lceil>n\<rceil> \<le> 0 then q else insertEvent wallet KTokens \<lceil>n\<rceil> now q))"

definition getWalletQuotaStatus :: "string \<Rightarrow> quota_options \<Rightarrow> ms \<Rightarrow> quota_state \<Rightarrow> int \<times> int \<times> ms" where
  "getWalletQuotaStatus wallet opts now q =
     (let c = checkWalletQuota wallet opts now q in (wc_used c, wc_limit c, wc_resetAt c))"

definition assertPromptWithinQuota :: "string \<Rightarrow> rat option \<Rightarrow> quota_error option" where
  "assertPromptWithinQuota prompt charLimit =
     (let limit = quota_positiveInt charLimit
      in if limit \<le> 0 \<or> int (length prompt) \<le> limit then None
         else Some \<lparr> qx_message = ''Prompt exceeds the '' @ int_text limit @ ''-character limit'', qx_resource = RPromptChars,
                     qx_used = int (length prompt), qx_limit = limit, qx_resetAt = None, qx_retryAfterSeconds = 60 \<rparr>)"

subsection \<open>The limit on stored tasks\<close>

record daily_check =
  dc_limit :: int
  dc_used :: int
  dc_remaining :: "int option"
  dc_disabled :: bool
  dc_rejected :: bool

definition walletTasksInWindow :: "(string \<times> ms) list \<Rightarrow> string \<Rightarrow> ms \<Rightarrow> ms \<Rightarrow> int" where
  "walletTasksInWindow tasks wallet windowMs now = int (length (filter (\<lambda>(w, t). w = wallet \<and> now - windowMs < t) tasks))"

definition checkDailyTaskQuota :: "(string \<times> ms) list \<Rightarrow> string \<Rightarrow> int \<Rightarrow> ms \<Rightarrow> ms \<Rightarrow> daily_check" where
  "checkDailyTaskQuota tasks wallet limit windowMs now =
     (if limit \<le> 0 \<or> wallet = ANONYMOUS_WALLET
      then \<lparr> dc_limit = limit, dc_used = 0, dc_remaining = None, dc_disabled = True, dc_rejected = False \<rparr>
      else let used = walletTasksInWindow tasks wallet windowMs now
           in \<lparr> dc_limit = limit, dc_used = used, dc_remaining = Some (max 0 (limit - used)), dc_disabled = False,
                dc_rejected = (limit \<le> used) \<rparr>)"

definition assertDailyTaskQuota :: "(string \<times> ms) list \<Rightarrow> string \<Rightarrow> int \<Rightarrow> ms \<Rightarrow> ms \<Rightarrow> (int \<times> int) list
    \<Rightarrow> (int \<times> int) list \<times> (string + daily_check)" where
  "assertDailyTaskQuota tasks wallet limit windowMs now rejections =
     (let c = checkDailyTaskQuota tasks wallet limit windowMs now
      in if \<not> dc_rejected c then (rejections, Inr c)
         else (rejections @ [(dc_used c, dc_limit c)], Inl (''Daily task limit reached (max '' @ int_text (dc_limit c) @ '' per ''
           @ int_text (round (of_int windowMs / (60 * 60 * 1000 :: rat))) @ '' hours)'')))"

subsection \<open>The trailing window\<close>

text \<open>The requests that reach the quota, each with its time, wallet and the limits then in force.\<close>

datatype quota_op = Submit string quota_options | Spend string "rat option"

fun quota_step :: "quota_op \<Rightarrow> ms \<Rightarrow> quota_state \<Rightarrow> quota_state" where
  "quota_step (Submit w opts) now q = fst (checkAndConsumeTask w opts now q)"
| "quota_step (Spend w n) now q = recordWalletTokenSpend w n now q"

definition quota_run :: "(ms \<times> quota_op) list \<Rightarrow> quota_state \<Rightarrow> quota_state" where
  "quota_run ops q = foldl (\<lambda>q (now, x). quota_step x now q) q ops"

text \<open>The task submissions of a wallet admitted after \<open>since\<close>, up to \<open>till\<close>.\<close>

definition admitted :: "string \<Rightarrow> ms \<Rightarrow> ms \<Rightarrow> quota_state \<Rightarrow> nat" where
  "admitted w since till q = length (filter (\<lambda>e. in_window w KTask since e \<and> qe_createdAt e \<le> till) (qs_events q))"

definition window_ok :: "string \<Rightarrow> nat \<Rightarrow> ms \<Rightarrow> quota_state \<Rightarrow> bool" where
  "window_ok w L now q \<longleftrightarrow> (\<forall>e \<in> set (qs_events q). qe_createdAt e \<le> now)
     \<and> (\<forall>T. admitted w (T - QUOTA_WINDOW_MS) T q \<le> L)"

lemma window_okD: "window_ok w L now q \<Longrightarrow> e \<in> set (qs_events q) \<Longrightarrow> qe_createdAt e \<le> now"
  "window_ok w L now q \<Longrightarrow> admitted w (T - QUOTA_WINDOW_MS) T q \<le> L"
  by (auto simp: window_ok_def)

text \<open>Any step but an admission of the wallet leaves its admissions as they are.\<close>

lemma other_event_ok:
  assumes "window_ok w L now q" "now \<le> t" "kind \<noteq> KTask \<or> v \<noteq> w"
  shows "window_ok w L t (insertEvent v kind units t q)"
  using assms window_okD(1) [OF assms(1)] by (force simp: window_ok_def admitted_def insertEvent_def in_window_def)

lemma later_ok: "window_ok w L now q \<Longrightarrow> now \<le> t \<Longrightarrow> qs_events q' = qs_events q \<Longrightarrow> window_ok w L t q'"
  by (force simp: window_ok_def admitted_def)

lemma admit_ok:
  assumes "window_ok w L now q" "now \<le> t" "countEvents q w KTask (windowStart t) < int L"
  shows "window_ok w L t (insertEvent w KTask 1 t q)"
proof -
  have "admitted w (T - QUOTA_WINDOW_MS) T (insertEvent w KTask 1 t q) \<le> L" for T
  proof (cases "T < t")
    case True
    then show ?thesis using window_okD(2) [OF assms(1), of T] by (simp add: admitted_def insertEvent_def)
  next
    case False
    have "admitted w (T - QUOTA_WINDOW_MS) T q \<le> length (filter (in_window w KTask (windowStart t)) (qs_events q))"
      unfolding admitted_def using False
      by (auto simp: in_window_def windowStart_def intro: filter_length_mono)
    then show ?thesis using assms(3) False
      by (simp add: admitted_def insertEvent_def countEvents_def split: if_splits)
  qed
  moreover have "\<forall>e \<in> set (qs_events (insertEvent w KTask 1 t q)). qe_createdAt e \<le> t"
    using window_okD(1) [OF assms(1)] assms(2) by (fastforce simp: insertEvent_def)
  ultimately show ?thesis by (simp add: window_ok_def)
qed

definition limits_ok :: "string \<Rightarrow> nat \<Rightarrow> quota_op \<Rightarrow> bool" where
  "limits_ok w L x = (case x of Submit v opts \<Rightarrow> v = w \<longrightarrow> 0 < quota_positiveInt (qo_taskLimit opts)
     \<and> quota_positiveInt (qo_taskLimit opts) \<le> int L | Spend _ _ \<Rightarrow> True)"

lemma assert_passes: "assertWalletQuota w opts t q = (q', Inr c) \<Longrightarrow> q' = q \<and> c = checkWalletQuota w opts t q \<and> \<not> wc_rejected c"
  "assertWalletQuota w opts t q = (q', Inl err) \<Longrightarrow> qs_events q' = qs_events q"
  by (auto simp: assertWalletQuota_def Let_def split: if_splits)

lemma step_ok:
  assumes "window_ok w L now q" "now \<le> t" "w \<noteq> ANONYMOUS_WALLET" "limits_ok w L x"
  shows "window_ok w L t (quota_step x t q)"
proof (cases x)
  case (Spend v n)
  then show ?thesis using later_ok [OF assms(1,2)] other_event_ok [OF assms(1,2)]
    by (auto simp: recordWalletTokenSpend_def split: option.split)
next
  case (Submit v opts)
  show ?thesis
  proof (cases "snd (assertWalletQuota v opts t q)")
    case (Inl err)
    then obtain q' where "assertWalletQuota v opts t q = (q', Inl err)" by (metis prod.collapse)
    then show ?thesis using later_ok [OF assms(1,2)] assert_passes(2) Submit by (simp add: checkAndConsumeTask_def)
  next
    case (Inr c)
    then obtain q' where a: "assertWalletQuota v opts t q = (q', Inr c)" by (metis prod.collapse)
    note c = assert_passes(1) [OF a]
    have step: "quota_step x t q = (if v \<noteq> ANONYMOUS_WALLET then insertEvent v KTask 1 t q else q)"
      using a c Submit by (simp add: checkAndConsumeTask_def)
    show ?thesis
    proof (cases "v = w")
      case True
      then have "countEvents q w KTask (windowStart t) < int L"
        using c assms(3,4) Submit by (auto simp: checkWalletQuota_def limits_ok_def Let_def)
      then show ?thesis using admit_ok [OF assms(1,2)] step True assms(3) by simp
    next
      case False
      then show ?thesis using step later_ok [OF assms(1,2)] other_event_ok [OF assms(1,2)] by simp
    qed
  qed
qed

lemma run_ok:
  assumes "w \<noteq> ANONYMOUS_WALLET"
  shows "window_ok w L now q \<Longrightarrow> sorted (now # map fst ops) \<Longrightarrow> \<forall>x \<in> set (map snd ops). limits_ok w L x
    \<Longrightarrow> \<exists>t. window_ok w L t (quota_run ops q)"
proof (induction ops arbitrary: now q)
  case (Cons p ops)
  obtain t x where p: "p = (t, x)" by (cases p)
  have "window_ok w L t (quota_step x t q)" using step_ok [OF Cons.prems(1) _ assms] Cons.prems(2,3) p by simp
  from Cons.IH [OF this] Cons.prems(2,3) p show ?case by (simp add: quota_run_def)
qed (auto simp: quota_run_def)

text \<open>
  C35. The quota holds over every trailing day, wherever the day begins. If a wallet's limit never
  exceeds \<open>L\<close>, then for any history of submissions and token spends of any wallets, under a clock
  that does not run backwards, no 24 hours ever contain more than \<open>L\<close> admitted submissions of
  the wallet.
\<close>

theorem quota_bounds_every_day:
  assumes "w \<noteq> ANONYMOUS_WALLET" "sorted (map fst ops)" "\<forall>x \<in> set (map snd ops). limits_ok w L x"
  shows "admitted w (T - QUOTA_WINDOW_MS) T (quota_run ops \<lparr> qs_events = [], qs_rejections = [] \<rparr>) \<le> L"
proof (cases ops)
  case Nil
  then show ?thesis by (simp add: quota_run_def admitted_def)
next
  case (Cons p ps)
  have "window_ok w L (fst p) \<lparr> qs_events = [], qs_rejections = [] \<rparr>" by (simp add: window_ok_def admitted_def)
  from run_ok [OF assms(1) this _ assms(3)] obtain t where "window_ok w L t (quota_run ops \<lparr> qs_events = [], qs_rejections = [] \<rparr>)"
    using assms(2) Cons by auto
  then show ?thesis by (rule window_okD)
qed

definition demo_limits :: quota_options where
  "demo_limits = \<lparr> qo_taskLimit = Some 1, qo_tokenLimit = None \<rparr>"

theorem quota_bounds_every_day_witness:
  "admitted ''w'' (100 - QUOTA_WINDOW_MS) 100 (quota_run [(5, Submit ''w'' demo_limits), (6, Submit ''w'' demo_limits),
      (7, Spend ''w'' (Some 3))] \<lparr> qs_events = [], qs_rejections = [] \<rparr>) \<le> 1"
  by (rule quota_bounds_every_day)
    (simp_all add: ANONYMOUS_WALLET_def limits_ok_def demo_limits_def quota_positiveInt_def)

text \<open>
  The retry time is no promise. A wallet refused for its submissions is told to come back
  at the next UTC midnight, but the window is the trailing day: if what it submitted in the window
  is still less than a day old by then, as it is when all of it came after the last midnight, the
  wallet is refused again at the time it was told.
\<close>

theorem told_retry_is_refused:
  assumes "snd (assertWalletQuota w opts now q) = Inl err" "qx_resource err = RTasks"
    and "again = now + 1000 * qx_retryAfterSeconds err"
    and "\<forall>e \<in> set (qs_events q). in_window w KTask (windowStart now) e \<longrightarrow> windowStart again < qe_createdAt e"
  shows "nextMidnight now \<le> again \<and> (\<exists>err'. snd (assertWalletQuota w opts again q) = Inl err')"
proof -
  let ?c = "checkWalletQuota w opts now q" and ?l = "quota_positiveInt (qo_taskLimit opts)"
  have rej: "wc_rejected ?c" and err: "err = wallet_error ?c now"
    using assms(1) by (auto simp: assertWalletQuota_def Let_def split: if_splits)
  have over: "0 < ?l \<and> ?l \<le> countEvents q w KTask (windowStart now) \<and> w \<noteq> ANONYMOUS_WALLET"
    using rej assms(2) by (auto simp: err wallet_error_def checkWalletQuota_def Let_def split: if_splits)
  have "countEvents q w KTask (windowStart now) \<le> countEvents q w KTask (windowStart again)"
    unfolding countEvents_def using assms(4) by (auto intro!: filter_length_mono simp: in_window_def)
  then have "wc_rejected (checkWalletQuota w opts again q)"
    using over by (auto simp: checkWalletQuota_def Let_def)
  moreover have "wc_resetAt ?c = nextMidnight now" by (simp add: checkWalletQuota_def Let_def)
  then have "qx_retryAfterSeconds err = secondsUntil (nextMidnight now) now" by (simp add: err wallet_error_def Let_def)
  then have "nextMidnight now \<le> again"
  proof -
    have "(of_int (nextMidnight now - now) / 1000 :: rat) \<le> of_int (secondsUntil (nextMidnight now) now)"
      unfolding secondsUntil_def by (metis (no_types) le_of_int_ceiling max.cobounded2 of_int_le_iff order_trans)
    then have "(of_int (nextMidnight now - now) :: rat) \<le> of_int (1000 * secondsUntil (nextMidnight now) now)" by simp
    then have "nextMidnight now - now \<le> 1000 * secondsUntil (nextMidnight now) now" by (simp only: of_int_le_iff)
    then show ?thesis using assms(3) \<open>qx_retryAfterSeconds err = secondsUntil (nextMidnight now) now\<close> by simp
  qed
  ultimately show ?thesis by (auto simp: assertWalletQuota_def Let_def)
qed

theorem told_retry_is_refused_witness:
  "\<exists>q err. snd (assertWalletQuota ''w'' demo_limits 86402000 q) = Inl err \<and> qx_retryAfterSeconds err = 86398
    \<and> (\<exists>err'. snd (assertWalletQuota ''w'' demo_limits 172800000 q) = Inl err')"
proof -
  define q where "q = \<lparr> qs_events = [\<lparr> qe_wallet = ''w'', qe_kind = KTask, qe_units = 1, qe_createdAt = 86401500 \<rparr>], qs_rejections = [] \<rparr>"
  have c: "checkWalletQuota ''w'' demo_limits 86402000 q = \<lparr> wc_limit = 1, wc_used = 1, wc_remaining = Some 0, wc_tokenLimit = 0,
      wc_tokenUsed = 0, wc_resetAt = 172800000, wc_disabled = False, wc_rejected = True \<rparr>"
    by (simp add: q_def checkWalletQuota_def demo_limits_def quota_positiveInt_def ANONYMOUS_WALLET_def countEvents_def
        in_window_def windowStart_def QUOTA_WINDOW_MS_def nextMidnight_def Let_def)
  have e: "snd (assertWalletQuota ''w'' demo_limits 86402000 q) = Inl (wallet_error (checkWalletQuota ''w'' demo_limits 86402000 q) 86402000)"
    by (simp add: assertWalletQuota_def c)
  have r: "qx_resource (wallet_error (checkWalletQuota ''w'' demo_limits 86402000 q) 86402000) = RTasks"
    "qx_retryAfterSeconds (wallet_error (checkWalletQuota ''w'' demo_limits 86402000 q) 86402000) = 86398"
    by (simp_all add: c wallet_error_def secondsUntil_def)
  have "\<exists>err'. snd (assertWalletQuota ''w'' demo_limits 172800000 q) = Inl err'"
  proof (rule conjunct2 [OF told_retry_is_refused [OF e r(1)]])
    show "172800000 = 86402000 + 1000 * qx_retryAfterSeconds (wallet_error (checkWalletQuota ''w'' demo_limits 86402000 q) 86402000)"
      by (simp add: r(2))
    show "\<forall>e \<in> set (qs_events q). in_window ''w'' KTask (windowStart 86402000) e \<longrightarrow> windowStart 172800000 < qe_createdAt e"
      by (simp add: q_def windowStart_def QUOTA_WINDOW_MS_def)
  qed
  with e r show ?thesis by blast
qed

end
