(* ===== verification/AgentWatchdog.thy ===== *)
theory AgentWatchdog
  imports EventLog "HOL-Library.Multiset" "HOL-Library.Option_ord" "HOL-Library.List_Lexorder" "HOL-Library.Char_ord"
begin

text \<open>
  \<open>backend/src/services/agentWatchdog.ts\<close> over the columns it uses of the table \<open>agents\<close>
  (\<open>backend/src/db/agents.ts\<close>): an agent that misses a heartbeat is quarantined, and evicted when it
  stays silent for the grace period. Rows come in the order of the table. Messages and metadata of
  alerts and the timer that calls a pass are left out. The reconciliation called on
  an eviction is an argument: for each agent \<open>None\<close>, or the message it throws. Alerts are written
  without failure; an eviction's event goes to the event store of \<open>EventLog\<close>.
\<close>

text \<open>\<open>None\<close> in \<open>ar_lastSeenAt\<close> is a text that is no date.\<close>

record agent_row =
  ar_id :: ident
  ar_lastSeenAt :: "ms option"
  ar_online :: bool
  ar_staleSince :: "ms option"

datatype alert_type = Quarantined | Evicted | Recovered | EvictionFailed
datatype alert_severity = Warning | Critical

record agent_alert =
  al_agentId :: ident
  al_type :: alert_type
  al_severity :: alert_severity
  al_lastSeenAt :: "ms option"

record eviction_record =
  ev_agentId :: ident
  ev_evictedAt :: ms
  ev_lastSeenAt :: "ms option"

record watchdog_options =
  wo_intervalMs :: ms
  wo_gracePeriodMinutes :: ms

record watchdog =
  wd_agents :: "agent_row list"
  wd_alerts :: "agent_alert list"
  wd_evictionHistory :: "eviction_record list"
  wd_evictionsTotal :: nat
  wd_lastRunAt :: "ms option"
  wd_store :: event_store

record tick_stats =
  ts_quarantined :: nat
  ts_evicted :: nat
  ts_recovered :: nat

definition WATCHDOG_DEFAULTS :: watchdog_options where
  "WATCHDOG_DEFAULTS = \<lparr> wo_intervalMs = 60000, wo_gracePeriodMinutes = 10 \<rparr>"

definition MAX_EVICTION_HISTORY :: nat where
  "MAX_EVICTION_HISTORY = 500"

definition RECENT_EVICTIONS_SHOWN :: nat where
  "RECENT_EVICTIONS_SHOWN = 20"

definition DAY_MS :: ms where
  "DAY_MS = 24 * 60 * 60 * 1000"

subsection \<open>The table of agents\<close>

definition upd_agent :: "ident \<Rightarrow> (agent_row \<Rightarrow> agent_row) \<Rightarrow> watchdog \<Rightarrow> watchdog" where
  "upd_agent i f w = w\<lparr>wd_agents := map (\<lambda>r. if ar_id r = i then f r else r) (wd_agents w)\<rparr>"

definition markStale :: "ident \<Rightarrow> ms \<Rightarrow> watchdog \<Rightarrow> watchdog" where
  "markStale i staleSince = upd_agent i (\<lambda>r. r\<lparr>ar_staleSince := Some (or_else staleSince (ar_staleSince r)), ar_online := False\<rparr>)"

definition clearStale :: "ident \<Rightarrow> watchdog \<Rightarrow> watchdog" where
  "clearStale i = upd_agent i (\<lambda>r. r\<lparr>ar_staleSince := None, ar_online := True\<rparr>)"

definition getStaleSince :: "ident \<Rightarrow> watchdog \<Rightarrow> ms option" where
  "getStaleSince i w = (case row_by ar_id i (wd_agents w) of None \<Rightarrow> None | Some r \<Rightarrow> ar_staleSince r)"

definition listStaleAgents :: "watchdog \<Rightarrow> agent_row list" where
  "listStaleAgents w = sort_key (\<lambda>r. or_else 0 (ar_staleSince r)) (filter (\<lambda>r. ar_staleSince r \<noteq> None) (wd_agents w))"

text \<open>
  The pages of \<open>listCursor\<close>, put together: the latest seen first, equals by descending id. No row
  changes between the pages.
\<close>

definition listAllOnline :: "watchdog \<Rightarrow> agent_row list" where
  "listAllOnline w = rev (sort_key (\<lambda>r. (ar_lastSeenAt r, ar_id r)) (filter ar_online (wd_agents w)))"

definition delete_agent :: "ident \<Rightarrow> watchdog \<Rightarrow> watchdog" where
  "delete_agent i w = w\<lparr>wd_agents := filter (\<lambda>r. ar_id r \<noteq> i) (wd_agents w)\<rparr>"

definition updateLastSeen :: "ident \<Rightarrow> ms \<Rightarrow> watchdog \<Rightarrow> watchdog" where
  "updateLastSeen i now = upd_agent i (\<lambda>r. r\<lparr>ar_lastSeenAt := Some now, ar_online := True\<rparr>)"

text \<open>An upsert leaves the grace clock of a row that is there as it is.\<close>

definition upsert_agent :: "ident \<Rightarrow> ms option \<Rightarrow> bool \<Rightarrow> watchdog \<Rightarrow> watchdog" where
  "upsert_agent i lastSeenAt online w = (if row_by ar_id i (wd_agents w) = None
     then w\<lparr>wd_agents := wd_agents w @ [\<lparr> ar_id = i, ar_lastSeenAt = lastSeenAt, ar_online = online, ar_staleSince = None \<rparr>]\<rparr>
     else upd_agent i (\<lambda>r. r\<lparr>ar_lastSeenAt := lastSeenAt, ar_online := online\<rparr>) w)"

text \<open>The route that registers an agent, after its checks.\<close>

definition register_agent :: "ident \<Rightarrow> ms \<Rightarrow> watchdog \<Rightarrow> watchdog" where
  "register_agent i now = upsert_agent i (Some now) True"

lemma register_agent_eq: "register_agent i now w = (if row_by ar_id i (wd_agents w) = None
     then w\<lparr>wd_agents := wd_agents w @ [\<lparr> ar_id = i, ar_lastSeenAt = Some now, ar_online = True, ar_staleSince = None \<rparr>]\<rparr>
     else updateLastSeen i now w)"
  by (simp add: register_agent_def upsert_agent_def updateLastSeen_def)

subsection \<open>One pass\<close>

definition record_alert :: "agent_row \<Rightarrow> alert_type \<Rightarrow> alert_severity \<Rightarrow> watchdog \<Rightarrow> watchdog" where
  "record_alert r type severity w = w\<lparr>wd_alerts := wd_alerts w
     @ [\<lparr> al_agentId = ar_id r, al_type = type, al_severity = severity, al_lastSeenAt = ar_lastSeenAt r \<rparr>]\<rparr>"

definition recordEviction :: "eviction_record \<Rightarrow> watchdog \<Rightarrow> watchdog" where
  "recordEviction e w = (let h = wd_evictionHistory w @ [e]
     in w\<lparr>wd_evictionHistory := (if MAX_EVICTION_HISTORY < length h then tl h else h)\<rparr>)"

definition evicted_event :: "agent_row \<Rightarrow> ms \<Rightarrow> app_event" where
  "evicted_event r now = \<lparr> ae_type = ''agent.evicted'', ae_taskId = ''agent:'' @ ar_id r, ae_nodeId = None,
     ae_occurredAt = now, ae_version = Some CURRENT_EVENT_VERSION, ae_taskSeq = None,
     ae_payload = Some (JObj [(''agentId'', JStr (ar_id r)), (''reason'', JStr ''heartbeat_timeout''),
       (''lastSeenAt'', case ar_lastSeenAt r of None \<Rightarrow> JNull | Some t \<Rightarrow> JNum (of_int t))]) \<rparr>"

definition emitEvicted :: "agent_row \<Rightarrow> ms \<Rightarrow> watchdog \<Rightarrow> watchdog" where
  "emitEvicted r now w = (case es_append True (evicted_event r now) (wd_store w) of
     None \<Rightarrow> w | Some (st, _) \<Rightarrow> w\<lparr>wd_store := st\<rparr>)"

text \<open>How long an agent has been silent; \<open>None\<close> is for ever.\<close>

definition silent_for :: "agent_row \<Rightarrow> ms \<Rightarrow> ms option" where
  "silent_for r now = map_option (\<lambda>t. now - t) (ar_lastSeenAt r)"

definition silent_below :: "ms \<Rightarrow> ms option \<Rightarrow> bool" where
  "silent_below limit s = (case s of None \<Rightarrow> False | Some d \<Rightarrow> d < limit)"

definition silent_upto :: "ms \<Rightarrow> ms option \<Rightarrow> bool" where
  "silent_upto limit s = (case s of None \<Rightarrow> False | Some d \<Rightarrow> d \<le> limit)"

definition detect_one :: "watchdog_options \<Rightarrow> ms \<Rightarrow> agent_row \<Rightarrow> watchdog \<times> tick_stats \<Rightarrow> watchdog \<times> tick_stats" where
  "detect_one opts now r = (\<lambda>(w, s).
     if silent_below (wo_intervalMs opts) (silent_for r now) then (w, s)
     else if getStaleSince (ar_id r) w \<noteq> None then (w, s)
     else (record_alert r Quarantined Warning (markStale (ar_id r) now w), s\<lparr>ts_quarantined := ts_quarantined s + 1\<rparr>))"

definition evict_agent :: "(ident \<Rightarrow> string option) \<Rightarrow> ms \<Rightarrow> agent_row \<Rightarrow> watchdog \<Rightarrow> watchdog" where
  "evict_agent onEvict now r w =
     (let w1 = (case onEvict (ar_id r) of None \<Rightarrow> w | Some _ \<Rightarrow> record_alert r EvictionFailed Critical w);
          w2 = (delete_agent (ar_id r) w1)\<lparr>wd_evictionsTotal := wd_evictionsTotal w1 + 1\<rparr>;
          w3 = recordEviction \<lparr> ev_agentId = ar_id r, ev_evictedAt = now, ev_lastSeenAt = ar_lastSeenAt r \<rparr> w2
      in emitEvicted r now (record_alert r Evicted Critical w3))"

definition settle_one :: "watchdog_options \<Rightarrow> (ident \<Rightarrow> string option) \<Rightarrow> ms \<Rightarrow> agent_row \<Rightarrow> watchdog \<times> tick_stats \<Rightarrow> watchdog \<times> tick_stats" where
  "settle_one opts onEvict now r = (\<lambda>(w, s).
     case getStaleSince (ar_id r) w of
       None \<Rightarrow> (w, s)
     | Some firstMissed \<Rightarrow>
         let outageMs = max 0 (now - firstMissed)
         in if silent_upto (wo_intervalMs opts) (silent_for r now)
            then (record_alert r Recovered Warning (clearStale (ar_id r) w), s\<lparr>ts_recovered := ts_recovered s + 1\<rparr>)
            else if outageMs < wo_gracePeriodMinutes opts * 60000 then (w, s)
            else (evict_agent onEvict now r w, s\<lparr>ts_evicted := ts_evicted s + 1\<rparr>))"

definition wd_tick :: "watchdog_options \<Rightarrow> (ident \<Rightarrow> string option) \<Rightarrow> ms \<Rightarrow> watchdog \<Rightarrow> watchdog \<times> tick_stats" where
  "wd_tick opts onEvict now w0 =
     (let w = w0\<lparr>wd_lastRunAt := Some now\<rparr>;
          (w1, s1) = fold (detect_one opts now) (listAllOnline w) (w, \<lparr> ts_quarantined = 0, ts_evicted = 0, ts_recovered = 0 \<rparr>)
      in fold (settle_one opts onEvict now) (listStaleAgents w1) (w1, s1))"

record watchdog_status =
  wt_stalledCount :: nat
  wt_evictedLast24h :: nat
  wt_recentEvictions :: "eviction_record list"
  wt_lastRunAt :: "ms option"

definition wd_getStatus :: "ms \<Rightarrow> watchdog \<Rightarrow> watchdog_status" where
  "wd_getStatus now w =
     \<lparr> wt_stalledCount = length (listStaleAgents w),
       wt_evictedLast24h = length (filter (\<lambda>e. now - DAY_MS \<le> ev_evictedAt e) (wd_evictionHistory w)),
       wt_recentEvictions = take RECENT_EVICTIONS_SHOWN (rev (wd_evictionHistory w)),
       wt_lastRunAt = wd_lastRunAt w \<rparr>"

subsection \<open>A pass, agent by agent\<close>

text \<open>The specification of a pass: what becomes of one row, which may be nothing.\<close>

definition detect_row :: "watchdog_options \<Rightarrow> ms \<Rightarrow> agent_row \<Rightarrow> agent_row" where
  "detect_row opts now r = (if ar_online r \<and> \<not> silent_below (wo_intervalMs opts) (silent_for r now) \<and> ar_staleSince r = None
     then r\<lparr>ar_staleSince := Some now, ar_online := False\<rparr> else r)"

definition grace_over :: "watchdog_options \<Rightarrow> ms \<Rightarrow> agent_row \<Rightarrow> bool" where
  "grace_over opts now r = (case ar_staleSince r of None \<Rightarrow> False
     | Some s \<Rightarrow> \<not> silent_upto (wo_intervalMs opts) (silent_for r now) \<and> \<not> max 0 (now - s) < wo_gracePeriodMinutes opts * 60000)"

definition settle_row :: "watchdog_options \<Rightarrow> ms \<Rightarrow> agent_row \<Rightarrow> agent_row list" where
  "settle_row opts now r = (if ar_staleSince r = None then [r]
     else if silent_upto (wo_intervalMs opts) (silent_for r now) then [r\<lparr>ar_staleSince := None, ar_online := True\<rparr>]
     else if grace_over opts now r then [] else [r])"

definition wd_wf :: "watchdog \<Rightarrow> bool" where
  "wd_wf w \<longleftrightarrow> distinct (map ar_id (wd_agents w))"

lemma alert_agents [simp]: "wd_agents (record_alert r t s w) = wd_agents w" "wd_evictionHistory (record_alert r t s w) = wd_evictionHistory w"
  by (simp_all add: record_alert_def)

lemma evict_agents [simp]: "wd_agents (evict_agent onEvict now r w) = filter (\<lambda>q. ar_id q \<noteq> ar_id r) (wd_agents w)"
  by (auto simp: evict_agent_def Let_def emitEvicted_def recordEviction_def delete_agent_def split: option.split)

lemma evict_history: "set (wd_evictionHistory (evict_agent onEvict now r w)) \<subseteq> insert \<lparr> ev_agentId = ar_id r, ev_evictedAt = now,
    ev_lastSeenAt = ar_lastSeenAt r \<rparr> (set (wd_evictionHistory w))"
  by (cases "wd_evictionHistory w") (auto simp: evict_agent_def Let_def emitEvicted_def recordEviction_def delete_agent_def split: option.splits)

lemma stale_of_row: "wd_wf w \<Longrightarrow> r \<in> set (wd_agents w) \<Longrightarrow> getStaleSince (ar_id r) w = ar_staleSince r"
  by (simp add: wd_wf_def getStaleSince_def row_by_mem)

lemma row_eq: "wd_wf w \<Longrightarrow> r \<in> set (wd_agents w) \<Longrightarrow> q \<in> set (wd_agents w) \<Longrightarrow> ar_id r = ar_id q \<Longrightarrow> r = q"
  unfolding wd_wf_def by (rule distinct_key_eq)

lemma only_row:
  assumes "wd_wf w" "r \<in> set (wd_agents w)"
  shows "map (\<lambda>q. if ar_id q = ar_id r then f q else q) (wd_agents w) = map (\<lambda>q. if ar_id q = ar_id r then f r else q) (wd_agents w)"
    and "map (\<lambda>q. if ar_id q = ar_id r then r else q) (wd_agents w) = wd_agents w"
    and "concat (map (\<lambda>q. if ar_id q = ar_id r then g q else [q]) (wd_agents w))
      = concat (map (\<lambda>q. if ar_id q = ar_id r then g r else [q]) (wd_agents w))"
proof -
  have q: "q = r" if "q \<in> set (wd_agents w)" "ar_id q = ar_id r" for q using row_eq [OF assms(1) that(1) assms(2) that(2)] .
  show "map (\<lambda>q. if ar_id q = ar_id r then f q else q) (wd_agents w) = map (\<lambda>q. if ar_id q = ar_id r then f r else q) (wd_agents w)"
    using q by (intro map_cong) auto
  show "map (\<lambda>q. if ar_id q = ar_id r then r else q) (wd_agents w) = wd_agents w"
    using q by (intro map_idI) auto
  show "concat (map (\<lambda>q. if ar_id q = ar_id r then g q else [q]) (wd_agents w))
      = concat (map (\<lambda>q. if ar_id q = ar_id r then g r else [q]) (wd_agents w))"
    using q by (intro arg_cong [where f = concat] map_cong) auto
qed

lemma detect_row_id [simp]: "ar_id (detect_row opts now r) = ar_id r" "ar_lastSeenAt (detect_row opts now r) = ar_lastSeenAt r"
  by (simp_all add: detect_row_def)

lemma detect_one_rows:
  assumes "wd_wf w" "r \<in> set (wd_agents w)" "ar_online r"
  shows "wd_agents (fst (detect_one opts now r (w, s))) = map (\<lambda>q. if ar_id q = ar_id r then detect_row opts now q else q) (wd_agents w)
    \<and> wd_evictionHistory (fst (detect_one opts now r (w, s))) = wd_evictionHistory w"
  unfolding only_row(1) [OF assms(1,2), of "detect_row opts now"]
  using assms(3) only_row(2) [OF assms(1,2)] stale_of_row [OF assms(1,2)]
  by (cases "ar_staleSince r")
    (simp_all cong del: if_weak_cong add: detect_one_def markStale_def upd_agent_def detect_row_def
      only_row(1) [OF assms(1,2), of "\<lambda>r. r\<lparr>ar_staleSince := Some (or_else now (ar_staleSince r)), ar_online := False\<rparr>"])

lemma distinct_sort_ids: "distinct (map ar_id (sort_key f xs)) \<longleftrightarrow> distinct (map ar_id xs)"
  by (rule mset_eq_imp_distinct_iff) simp

lemma detect_fold:
  "wd_wf w \<Longrightarrow> set xs \<subseteq> set (filter ar_online (wd_agents w)) \<Longrightarrow> distinct (map ar_id xs) \<Longrightarrow>
    wd_agents (fst (fold (detect_one opts now) xs (w, s)))
      = map (\<lambda>q. if ar_id q \<in> ar_id ` set xs then detect_row opts now q else q) (wd_agents w)
    \<and> wd_evictionHistory (fst (fold (detect_one opts now) xs (w, s))) = wd_evictionHistory w"
proof (induction xs arbitrary: w s)
  case (Cons r xs)
  obtain w1 s1 where one: "detect_one opts now r (w, s) = (w1, s1)" by fastforce
  have r: "r \<in> set (wd_agents w)" "ar_online r" using Cons.prems(2) by auto
  have rows: "wd_agents w1 = map (\<lambda>q. if ar_id q = ar_id r then detect_row opts now q else q) (wd_agents w)"
    "wd_evictionHistory w1 = wd_evictionHistory w"
    using detect_one_rows [OF Cons.prems(1) r, of opts now s] one by simp_all
  have "map ar_id (wd_agents w1) = map ar_id (wd_agents w)" by (simp add: rows)
  then have "wd_wf w1" using Cons.prems(1) unfolding wd_wf_def by metis
  moreover have "x \<in> set (filter ar_online (wd_agents w1))" if "x \<in> set xs" for x
  proof -
    have "x \<in> set (wd_agents w)" "ar_online x" using that Cons.prems(2) by auto
    moreover have "ar_id x \<noteq> ar_id r" using that Cons.prems(3) by (metis distinct.simps(2) image_eqI list.set_map list.simps(9))
    ultimately have "x \<in> set (wd_agents w)" "ar_online x" "ar_id x \<noteq> ar_id r" .
    then show ?thesis unfolding rows by force
  qed
  moreover have "distinct (map ar_id xs)" "ar_id r \<notin> ar_id ` set xs" using Cons.prems(3) by auto
  ultimately have "wd_agents (fst (fold (detect_one opts now) xs (w1, s1)))
      = map (\<lambda>q. if ar_id q \<in> ar_id ` set xs then detect_row opts now q else q) (wd_agents w1)
    \<and> wd_evictionHistory (fst (fold (detect_one opts now) xs (w1, s1))) = wd_evictionHistory w1"
    by (intro Cons.IH) auto
  with \<open>ar_id r \<notin> ar_id ` set xs\<close> show ?case by (simp add: one rows comp_def)
qed simp

lemma settle_one_rows:
  assumes "wd_wf w" "r \<in> set (wd_agents w)" "ar_staleSince r \<noteq> None"
  shows "wd_agents (fst (settle_one opts onEvict now r (w, s)))
      = concat (map (\<lambda>q. if ar_id q = ar_id r then settle_row opts now q else [q]) (wd_agents w))
    \<and> set (wd_evictionHistory (fst (settle_one opts onEvict now r (w, s)))) \<subseteq> set (wd_evictionHistory w)
      \<union> (if grace_over opts now r then {\<lparr> ev_agentId = ar_id r, ev_evictedAt = now, ev_lastSeenAt = ar_lastSeenAt r \<rparr>} else {})"
proof -
  obtain st where st: "ar_staleSince r = Some st" using assms(3) by blast
  have keep: "concat (map (\<lambda>q. if ar_id q = ar_id r then [r'] else [q]) xs) = map (\<lambda>q. if ar_id q = ar_id r then r' else q) xs"
    "concat (map (\<lambda>q. if ar_id q = ar_id r then [] else [q]) xs) = filter (\<lambda>q. ar_id q \<noteq> ar_id r) xs" for r' and xs :: "agent_row list"
    by (induction xs) auto
  show ?thesis
    unfolding only_row(3) [OF assms(1,2), of "settle_row opts now"]
    using evict_history [of onEvict now r w] only_row(2) [OF assms(1,2)]
    by (simp cong del: if_weak_cong add: settle_one_def settle_row_def grace_over_def stale_of_row [OF assms(1,2)] st clearStale_def upd_agent_def
        keep only_row(1) [OF assms(1,2), of "\<lambda>r. r\<lparr>ar_staleSince := None, ar_online := True\<rparr>"] Let_def)
qed

lemma concat_ids: "(\<And>q. g q = [] \<or> (\<exists>r. g q = [r] \<and> ar_id r = ar_id q)) \<Longrightarrow> distinct (map ar_id ys)
    \<Longrightarrow> distinct (map ar_id (concat (map g ys)))"
proof (induction ys)
  case (Cons y ys)
  have "ar_id ` set (concat (map g ys)) \<subseteq> ar_id ` set ys"
  proof
    fix i assume "i \<in> ar_id ` set (concat (map g ys))"
    then obtain q x where "q \<in> set ys" "x \<in> set (g q)" "i = ar_id x" by auto
    with Cons.prems(1) [of q] show "i \<in> ar_id ` set ys" by auto
  qed
  then have no: "ar_id y \<notin> ar_id ` set (concat (map g ys))" using Cons.prems(2) by auto
  have IH: "distinct (map ar_id (concat (map g ys)))" using Cons by auto
  from Cons.prems(1) [of y] show ?case
  proof
    assume "\<exists>r. g y = [r] \<and> ar_id r = ar_id y"
    then obtain r where "g y = [r]" "ar_id r = ar_id y" by blast
    with no IH show ?thesis by simp
  qed (use IH in simp)
qed simp

lemma settle_fold:
  "wd_wf w \<Longrightarrow> set xs \<subseteq> set (filter (\<lambda>r. ar_staleSince r \<noteq> None) (wd_agents w)) \<Longrightarrow> distinct (map ar_id xs) \<Longrightarrow>
    wd_agents (fst (fold (settle_one opts onEvict now) xs (w, s)))
      = concat (map (\<lambda>q. if ar_id q \<in> ar_id ` set xs then settle_row opts now q else [q]) (wd_agents w))
    \<and> set (wd_evictionHistory (fst (fold (settle_one opts onEvict now) xs (w, s)))) \<subseteq> set (wd_evictionHistory w)
      \<union> {\<lparr> ev_agentId = ar_id r, ev_evictedAt = now, ev_lastSeenAt = ar_lastSeenAt r \<rparr> | r. r \<in> set xs \<and> grace_over opts now r}"
proof (induction xs arbitrary: w s)
  case Nil
  then show ?case by simp
next
  case (Cons r xs)
  obtain w1 s1 where one: "settle_one opts onEvict now r (w, s) = (w1, s1)" by fastforce
  have r: "r \<in> set (wd_agents w)" "ar_staleSince r \<noteq> None" using Cons.prems(2) by auto
  have rows: "wd_agents w1 = concat (map (\<lambda>q. if ar_id q = ar_id r then settle_row opts now q else [q]) (wd_agents w))"
    and hist: "set (wd_evictionHistory w1) \<subseteq> set (wd_evictionHistory w)
      \<union> (if grace_over opts now r then {\<lparr> ev_agentId = ar_id r, ev_evictedAt = now, ev_lastSeenAt = ar_lastSeenAt r \<rparr>} else {})"
    using settle_one_rows [OF Cons.prems(1) r, of opts onEvict now s] one by simp_all
  have "distinct (map ar_id (wd_agents w1))"
    unfolding rows using Cons.prems(1) by (intro concat_ids) (auto simp: wd_wf_def settle_row_def)
  then have "wd_wf w1" using Cons.prems(1) by (simp add: wd_wf_def)
  moreover have "x \<in> set (filter (\<lambda>r. ar_staleSince r \<noteq> None) (wd_agents w1))" if "x \<in> set xs" for x
  proof -
    have "x \<in> set (wd_agents w)" "ar_staleSince x \<noteq> None" using that Cons.prems(2) by auto
    moreover have "ar_id x \<noteq> ar_id r" using that Cons.prems(3) by (metis distinct.simps(2) image_eqI list.set_map list.simps(9))
    ultimately have "x \<in> set (wd_agents w)" "ar_staleSince x \<noteq> None" "ar_id x \<noteq> ar_id r" .
    then show ?thesis unfolding rows by force
  qed
  moreover have d: "distinct (map ar_id xs)" "ar_id r \<notin> ar_id ` set xs" using Cons.prems(3) by auto
  ultimately have IH: "wd_agents (fst (fold (settle_one opts onEvict now) xs (w1, s1)))
      = concat (map (\<lambda>q. if ar_id q \<in> ar_id ` set xs then settle_row opts now q else [q]) (wd_agents w1))"
    "set (wd_evictionHistory (fst (fold (settle_one opts onEvict now) xs (w1, s1)))) \<subseteq> set (wd_evictionHistory w1)
      \<union> {\<lparr> ev_agentId = ar_id r, ev_evictedAt = now, ev_lastSeenAt = ar_lastSeenAt r \<rparr> | r. r \<in> set xs \<and> grace_over opts now r}"
    using Cons.IH [of w1 s1] by auto
  have "concat (map (\<lambda>q. if ar_id q \<in> ar_id ` set xs then settle_row opts now q else [q])
        (concat (map (\<lambda>q. if ar_id q = ar_id r then settle_row opts now q else [q]) ys)))
      = concat (map (\<lambda>q. if ar_id q \<in> ar_id ` set (r # xs) then settle_row opts now q else [q]) ys)" for ys
    using d(2) by (induction ys) (auto simp: settle_row_def)
  then show ?case using IH hist by (auto simp: one rows split: if_splits)
qed

lemma settle_shape: "settle_row opts now r = [] \<or> (\<exists>q. settle_row opts now r = [q] \<and> ar_id q = ar_id r)"
  by (auto simp: settle_row_def)

lemma tick_history:
  assumes "wd_wf w"
  shows "wd_agents (fst (wd_tick opts onEvict now w)) = concat (map (\<lambda>r. settle_row opts now (detect_row opts now r)) (wd_agents w))"
    and "set (wd_evictionHistory (fst (wd_tick opts onEvict now w))) \<subseteq> set (wd_evictionHistory w)
      \<union> {\<lparr> ev_agentId = ar_id r, ev_evictedAt = now, ev_lastSeenAt = ar_lastSeenAt r \<rparr> | r. r \<in> detect_row opts now ` set (wd_agents w)
          \<and> grace_over opts now r}"
proof -
  define w0 where "w0 = w\<lparr>wd_lastRunAt := Some now\<rparr>"
  have w0: "wd_agents w0 = wd_agents w" "wd_evictionHistory w0 = wd_evictionHistory w" "wd_wf w0"
    using assms by (simp_all add: w0_def wd_wf_def)
  define p where "p = fold (detect_one opts now) (listAllOnline w0) (w0, \<lparr> ts_quarantined = 0, ts_evicted = 0, ts_recovered = 0 \<rparr>)"
  have d: "distinct (map ar_id (listAllOnline w0))"
    using w0(3) by (simp add: listAllOnline_def wd_wf_def rev_map [symmetric] distinct_sort_ids distinct_filter_key)
  have "wd_agents (fst p) = map (\<lambda>q. if ar_id q \<in> ar_id ` set (listAllOnline w0) then detect_row opts now q else q) (wd_agents w0)
      \<and> wd_evictionHistory (fst p) = wd_evictionHistory w0"
    unfolding p_def by (rule detect_fold [OF w0(3) _ d]) (simp add: listAllOnline_def)
  moreover have "map (\<lambda>q. if ar_id q \<in> ar_id ` set (listAllOnline w0) then detect_row opts now q else q) (wd_agents w0)
      = map (detect_row opts now) (wd_agents w0)"
    by (intro map_cong) (auto simp: listAllOnline_def detect_row_def image_iff)
  ultimately have det: "wd_agents (fst p) = map (detect_row opts now) (wd_agents w)" "wd_evictionHistory (fst p) = wd_evictionHistory w"
    using w0 by simp_all
  have "map ar_id (wd_agents (fst p)) = map ar_id (wd_agents w)" by (simp add: det)
  then have wf: "wd_wf (fst p)" using assms unfolding wd_wf_def by metis
  have st: "set (listStaleAgents (fst p)) = set (filter (\<lambda>r. ar_staleSince r \<noteq> None) (wd_agents (fst p)))"
    by (simp add: listStaleAgents_def)
  have "mset (map ar_id (listStaleAgents (fst p))) = mset (map ar_id (filter (\<lambda>r. ar_staleSince r \<noteq> None) (wd_agents (fst p))))"
    by (simp only: listStaleAgents_def mset_map mset_sort)
  then have ds: "distinct (map ar_id (listStaleAgents (fst p)))"
    using wf distinct_filter_key [of ar_id "wd_agents (fst p)"] unfolding wd_wf_def by (metis mset_eq_imp_distinct_iff)
  have run: "fst (wd_tick opts onEvict now w) = fst (fold (settle_one opts onEvict now) (listStaleAgents (fst p)) (fst p, snd p))"
    by (simp add: wd_tick_def Let_def w0_def [symmetric] p_def [symmetric] case_prod_beta)
  note s = settle_fold [OF wf eq_refl [OF st] ds, of opts onEvict now "snd p"]
  have settled: "map (\<lambda>q. if ar_id q \<in> ar_id ` set (listStaleAgents (fst p)) then settle_row opts now q else [q]) (wd_agents (fst p))
      = map (settle_row opts now) (wd_agents (fst p))"
    unfolding st by (intro map_cong) (auto simp: settle_row_def image_iff)
  have "wd_agents (fst (wd_tick opts onEvict now w)) = concat (map (settle_row opts now) (wd_agents (fst p)))"
    unfolding run conjunct1 [OF s] settled ..
  then show "wd_agents (fst (wd_tick opts onEvict now w)) = concat (map (\<lambda>r. settle_row opts now (detect_row opts now r)) (wd_agents w))"
    by (simp add: det comp_def)
  have "set (wd_evictionHistory (fst (wd_tick opts onEvict now w))) \<subseteq> set (wd_evictionHistory (fst p))
      \<union> {\<lparr> ev_agentId = ar_id r, ev_evictedAt = now, ev_lastSeenAt = ar_lastSeenAt r \<rparr> | r. r \<in> set (listStaleAgents (fst p)) \<and> grace_over opts now r}"
    unfolding run by (rule conjunct2 [OF s])
  then show "set (wd_evictionHistory (fst (wd_tick opts onEvict now w))) \<subseteq> set (wd_evictionHistory w)
      \<union> {\<lparr> ev_agentId = ar_id r, ev_evictedAt = now, ev_lastSeenAt = ar_lastSeenAt r \<rparr> | r. r \<in> detect_row opts now ` set (wd_agents w)
          \<and> grace_over opts now r}"
    unfolding st det by (simp only: set_filter set_map) blast
qed

lemma tick_wf: "wd_wf w \<Longrightarrow> wd_wf (fst (wd_tick opts onEvict now w))"
  using concat_ids [of "\<lambda>r. settle_row opts now (detect_row opts now r)" "wd_agents w"] settle_shape [of opts now]
  unfolding wd_wf_def by (subst tick_history(1)) (simp_all add: wd_wf_def, metis detect_row_id(1))

text \<open>
  A pass of the watchdog treats every agent by itself: an online agent silent for an
  interval or more is withdrawn and its grace clock started; a quarantined one returns to service
  if it was heard from within the interval, stays if its grace period is running, and is removed
  otherwise. Whatever the other agents do, and whatever their reconciliations throw, no agent's
  fate depends on them.
\<close>

theorem watchdog_pass_per_agent:
  assumes "distinct (map ar_id (wd_agents w))"
  shows "wd_agents (fst (wd_tick opts onEvict now w)) = concat (map (\<lambda>r. settle_row opts now (detect_row opts now r)) (wd_agents w))"
  using assms tick_history(1) by (simp add: wd_wf_def)

subsection \<open>Histories of a watchdog\<close>

datatype wd_op = WdTick | WdHeartbeat ident | WdRegister ident

fun wd_step :: "watchdog_options \<Rightarrow> (ms \<Rightarrow> ident \<Rightarrow> string option) \<Rightarrow> ms \<times> wd_op \<Rightarrow> watchdog \<Rightarrow> watchdog" where
  "wd_step opts onEvict (now, WdTick) w = fst (wd_tick opts (onEvict now) now w)"
| "wd_step opts onEvict (now, WdHeartbeat i) w = updateLastSeen i now w"
| "wd_step opts onEvict (now, WdRegister i) w = register_agent i now w"

definition wd_run :: "watchdog_options \<Rightarrow> (ms \<Rightarrow> ident \<Rightarrow> string option) \<Rightarrow> (ms \<times> wd_op) list \<Rightarrow> watchdog \<Rightarrow> watchdog" where
  "wd_run opts onEvict ops w = fold (wd_step opts onEvict) ops w"

definition fresh_watchdog :: "event_store \<Rightarrow> watchdog" where
  "fresh_watchdog st = \<lparr> wd_agents = [], wd_alerts = [], wd_evictionHistory = [], wd_evictionsTotal = 0, wd_lastRunAt = None, wd_store = st \<rparr>"

text \<open>Passes follow each other within an interval: \<open>t\<close> is the time of the last one.\<close>

fun passes_regular :: "ms \<Rightarrow> ms option \<Rightarrow> (ms \<times> wd_op) list \<Rightarrow> bool" where
  "passes_regular interval t [] = True"
| "passes_regular interval t ((now, WdTick) # ops) =
     ((case t of None \<Rightarrow> True | Some t0 \<Rightarrow> now - t0 \<le> interval) \<and> passes_regular interval (Some now) ops)"
| "passes_regular interval t ((now, _) # ops) = passes_regular interval t ops"

definition quarantine_ok :: "watchdog_options \<Rightarrow> ms option \<Rightarrow> agent_row \<Rightarrow> bool" where
  "quarantine_ok opts t r = (case ar_staleSince r of None \<Rightarrow> True | Some s \<Rightarrow>
     (case t of None \<Rightarrow> False | Some t0 \<Rightarrow> s \<le> t0
       \<and> (case ar_lastSeenAt r of None \<Rightarrow> True | Some l \<Rightarrow> t0 \<le> l \<or> l \<le> s - wo_intervalMs opts)))"

definition eviction_ok :: "watchdog_options \<Rightarrow> eviction_record \<Rightarrow> bool" where
  "eviction_ok opts e = (case ev_lastSeenAt e of None \<Rightarrow> True
     | Some l \<Rightarrow> l \<le> ev_evictedAt e - wo_gracePeriodMinutes opts * 60000 - wo_intervalMs opts)"

definition wd_inv :: "watchdog_options \<Rightarrow> ms option \<Rightarrow> watchdog \<Rightarrow> bool" where
  "wd_inv opts t w \<longleftrightarrow> wd_wf w \<and> (\<forall>r \<in> set (wd_agents w). quarantine_ok opts t r)
     \<and> (\<forall>e \<in> set (wd_evictionHistory w). eviction_ok opts e)"

lemma tick_row:
  assumes "quarantine_ok opts t r" "case t of None \<Rightarrow> True | Some t0 \<Rightarrow> t0 \<le> now \<and> now - t0 \<le> wo_intervalMs opts"
  shows "q \<in> set (settle_row opts now (detect_row opts now r)) \<Longrightarrow> quarantine_ok opts (Some now) q"
    and "grace_over opts now (detect_row opts now r) \<Longrightarrow> eviction_ok opts \<lparr> ev_agentId = ar_id r, ev_evictedAt = now,
      ev_lastSeenAt = ar_lastSeenAt r \<rparr>"
  using assms by (auto simp: settle_row_def detect_row_def quarantine_ok_def grace_over_def eviction_ok_def silent_for_def
      silent_below_def silent_upto_def max_def split: option.splits if_splits)

lemma beat_inv:
  assumes "wd_inv opts t w" "case t of None \<Rightarrow> True | Some t0 \<Rightarrow> t0 \<le> now"
  shows "wd_inv opts t (updateLastSeen i now w)"
proof -
  have "map ar_id (wd_agents (updateLastSeen i now w)) = map ar_id (wd_agents w)"
    by (auto simp: updateLastSeen_def upd_agent_def)
  moreover have "wd_evictionHistory (updateLastSeen i now w) = wd_evictionHistory w" by (simp add: updateLastSeen_def upd_agent_def)
  moreover have "quarantine_ok opts t r" if r: "r \<in> set (wd_agents (updateLastSeen i now w))" for r
  proof -
    obtain r0 where "r0 \<in> set (wd_agents w)" "r = r0 \<or> r = r0\<lparr>ar_lastSeenAt := Some now, ar_online := True\<rparr>"
      using r by (auto simp: updateLastSeen_def upd_agent_def split: if_splits)
    moreover from this have "quarantine_ok opts t r0" using assms(1) by (simp add: wd_inv_def)
    ultimately show ?thesis using assms(2) by (auto simp: quarantine_ok_def split: option.splits)
  qed
  ultimately show ?thesis using assms(1) by (simp add: wd_inv_def wd_wf_def)
qed

lemma wd_run_inv:
  "wd_inv opts t w \<Longrightarrow> sorted (map fst ops) \<Longrightarrow> (\<And>x. x \<in> set ops \<Longrightarrow> case t of None \<Rightarrow> True | Some t0 \<Rightarrow> t0 \<le> fst x)
    \<Longrightarrow> passes_regular (wo_intervalMs opts) t ops \<Longrightarrow> \<exists>t'. wd_inv opts t' (wd_run opts onEvict ops w)"
proof (induction ops arbitrary: t w)
  case (Cons x ops)
  obtain now op where x: "x = (now, op)" by (cases x)
  have later: "now \<le> fst y" if "y \<in> set ops" for y using Cons.prems(2) that x by auto
  have t: "case t of None \<Rightarrow> True | Some t0 \<Rightarrow> t0 \<le> now" using Cons.prems(3) [of x] x by (auto split: option.splits)
  have srt: "sorted (map fst ops)" using Cons.prems(2) by simp
  have step: "wd_run opts onEvict (x # ops) w = wd_run opts onEvict ops (wd_step opts onEvict x w)" by (simp add: wd_run_def)
  show ?case
  proof (cases op)
    case WdTick
    have gap: "case t of None \<Rightarrow> True | Some t0 \<Rightarrow> t0 \<le> now \<and> now - t0 \<le> wo_intervalMs opts"
      using t Cons.prems(4) x WdTick by (auto split: option.splits)
    have wf: "wd_wf w" and rows: "\<And>r. r \<in> set (wd_agents w) \<Longrightarrow> quarantine_ok opts t r"
      and hist: "\<And>e. e \<in> set (wd_evictionHistory w) \<Longrightarrow> eviction_ok opts e"
      using Cons.prems(1) by (auto simp: wd_inv_def)
    have "quarantine_ok opts (Some now) q" if "q \<in> set (wd_agents (fst (wd_tick opts (onEvict now) now w)))" for q
      using that tick_row(1) [OF rows gap] unfolding tick_history(1) [OF wf] by auto
    moreover have "eviction_ok opts e" if "e \<in> set (wd_evictionHistory (fst (wd_tick opts (onEvict now) now w)))" for e
      using subsetD [OF tick_history(2) [OF wf] that] hist tick_row(2) [OF rows gap] by auto
    ultimately have "wd_inv opts (Some now) (wd_step opts onEvict x w)"
      using tick_wf [OF wf] x WdTick by (simp add: wd_inv_def)
    from Cons.IH [OF this srt] later Cons.prems(4) x WdTick show ?thesis unfolding step by simp
  next
    case (WdHeartbeat i)
    have "wd_inv opts t (wd_step opts onEvict x w)" using beat_inv [OF Cons.prems(1) t] x WdHeartbeat by simp
    from Cons.IH [OF this srt] Cons.prems(3,4) x WdHeartbeat show ?thesis unfolding step by simp
  next
    case (WdRegister i)
    have "wd_inv opts t (register_agent i now w)"
      using beat_inv [OF Cons.prems(1) t, of i] Cons.prems(1) row_by_None [of ar_id i "wd_agents w"]
      by (auto simp: register_agent_eq wd_inv_def wd_wf_def quarantine_ok_def)
    then have "wd_inv opts t (wd_step opts onEvict x w)" using x WdRegister by simp
    from Cons.IH [OF this srt] Cons.prems(3,4) x WdRegister show ?thesis unfolding step by simp
  qed
qed (auto simp: wd_run_def)

text \<open>
  C36. No agent is evicted that was heard from. As long as passes follow each other within the
  interval, in any history of registrations, heartbeats and passes, every agent evicted had been
  silent for the whole grace period and an interval more.
\<close>

theorem evicted_agents_were_silent:
  assumes "sorted (map fst ops)" "passes_regular (wo_intervalMs opts) None ops"
    and "e \<in> set (wd_evictionHistory (wd_run opts onEvict ops (fresh_watchdog st)))" "ev_lastSeenAt e = Some l"
  shows "l \<le> ev_evictedAt e - wo_gracePeriodMinutes opts * 60000 - wo_intervalMs opts"
proof -
  have "wd_inv opts None (fresh_watchdog st)" by (simp add: wd_inv_def fresh_watchdog_def wd_wf_def)
  from wd_run_inv [OF this assms(1) _ assms(2)] obtain t where "wd_inv opts t (wd_run opts onEvict ops (fresh_watchdog st))" by auto
  then show ?thesis using assms(3,4) by (force simp: wd_inv_def eviction_ok_def)
qed

definition demo_ops :: "(ms \<times> wd_op) list" where
  "demo_ops = [(0, WdRegister ''a''), (50, WdTick), (100, WdTick), (150, WdTick), (170, WdTick)]"

definition watch_opts :: watchdog_options where
  "watch_opts = \<lparr> wo_intervalMs = 60, wo_gracePeriodMinutes = 0 \<rparr>"

lemmas wd_eval = wd_run_def register_agent_eq fresh_watchdog_def row_by_def wd_tick_def listAllOnline_def detect_one_def
  silent_below_def silent_upto_def silent_for_def getStaleSince_def markStale_def upd_agent_def record_alert_def
  listStaleAgents_def settle_one_def evict_agent_def delete_agent_def recordEviction_def emitEvicted_def
  MAX_EVICTION_HISTORY_def updateLastSeen_def clearStale_def Let_def

theorem evicted_agents_were_silent_witness:
  "\<exists>e l. e \<in> set (wd_evictionHistory (wd_run watch_opts (\<lambda>_ _. None) demo_ops (fresh_watchdog empty_store)))
    \<and> ev_lastSeenAt e = Some l \<and> l \<le> ev_evictedAt e - 60"
proof -
  have e: "\<lparr> ev_agentId = ''a'', ev_evictedAt = 100, ev_lastSeenAt = Some 0 \<rparr>
      \<in> set (wd_evictionHistory (wd_run watch_opts (\<lambda>_ _. None) demo_ops (fresh_watchdog empty_store)))"
    by (simp add: demo_ops_def watch_opts_def wd_eval split: option.split)
  have "sorted (map fst demo_ops)" "passes_regular (wo_intervalMs watch_opts) None demo_ops"
    by (simp_all add: demo_ops_def watch_opts_def)
  from evicted_agents_were_silent [OF this e] show ?thesis using e by (fastforce simp: watch_opts_def)
qed

text \<open>
  A second eviction is never reported. The event of an eviction carries no sequence number and
  is stored under 0 for its agent; once an eviction of an agent was stored, a later one, after the
  agent had registered again, is counted and removes the agent, but its event is refused by the
  store and lost.
\<close>

theorem second_eviction_unreported:
  assumes "ar_id r2 = ar_id r1"
    and "set (es_rows (wd_store (evict_agent f t1 r1 w1))) \<subseteq> set (es_rows (wd_store w2))"
  shows "wd_store (evict_agent g t2 r2 w2) = wd_store w2
    \<and> wd_evictionsTotal (evict_agent g t2 r2 w2) = wd_evictionsTotal w2 + 1
    \<and> (\<forall>r \<in> set (wd_agents (evict_agent g t2 r2 w2)). ar_id r \<noteq> ar_id r2)"
proof -
  have frame: "wd_store (record_alert r x y w) = wd_store w" "wd_store (recordEviction e w) = wd_store w"
    "wd_store (delete_agent i w) = wd_store w" "wd_evictionsTotal (record_alert r x y w) = wd_evictionsTotal w"
    "wd_evictionsTotal (recordEviction e w) = wd_evictionsTotal w" for r x y w e i
    by (simp_all add: record_alert_def recordEviction_def delete_agent_def Let_def)
  have st: "wd_store (evict_agent h t r w) = (case es_append True (evicted_event r t) (wd_store w) of None \<Rightarrow> wd_store w | Some (st, _) \<Rightarrow> st)"
    "wd_evictionsTotal (evict_agent h t r w) = wd_evictionsTotal w + 1" for h t r w
    by (auto simp: evict_agent_def Let_def emitEvicted_def frame split: option.split)
  have "\<exists>q \<in> set (es_rows (wd_store (evict_agent f t1 r1 w1))). er_taskId q = ''agent:'' @ ar_id r1 \<and> er_taskSeq q = 0"
    unfolding st(1) by (auto simp: es_append_def evicted_event_def Let_def split: option.splits)
  then have "es_append True (evicted_event r2 t2) (wd_store w2) = None"
    using assms by (auto simp: es_append_def evicted_event_def Let_def)
  then show ?thesis by (simp add: st)
qed

theorem second_eviction_unreported_witness:
  "\<exists>r w1 w2. wd_store w2 = wd_store (evict_agent (\<lambda>_. None) 100 r w1) \<and> es_rows (wd_store w2) \<noteq> []
    \<and> wd_store (evict_agent (\<lambda>_. None) 900 r w2) = wd_store w2"
proof -
  define r where "r = \<lparr> ar_id = ''a'', ar_lastSeenAt = Some 0, ar_online = False, ar_staleSince = Some (20 :: int) \<rparr>"
  define w where "w = register_agent ''a'' 500 (evict_agent (\<lambda>_. None) 100 r (fresh_watchdog empty_store))"
  have "wd_store w = wd_store (evict_agent (\<lambda>_. None) 100 r (fresh_watchdog empty_store))"
    by (simp add: w_def register_agent_eq updateLastSeen_def upd_agent_def)
  moreover have "es_rows (wd_store w) \<noteq> []"
    by (simp add: w_def wd_eval es_append_def empty_store_def evicted_event_def)
  moreover have "wd_store (evict_agent (\<lambda>_. None) 900 r w) = wd_store w"
    using second_eviction_unreported [of r r "\<lambda>_. None" 100 "fresh_watchdog empty_store" w] calculation(1) by simp
  ultimately show ?thesis by blast
qed

theorem watchdog_pass_per_agent_witness:
  "wd_agents (fst (wd_tick watch_opts (\<lambda>_. Some ''boom'') 100 (register_agent ''b'' 95 (register_agent ''a'' 0 (fresh_watchdog empty_store)))))
    = [\<lparr> ar_id = ''b'', ar_lastSeenAt = Some 95, ar_online = True, ar_staleSince = None \<rparr>]"
  by (subst watchdog_pass_per_agent) (simp_all add: register_agent_eq fresh_watchdog_def row_by_def watch_opts_def settle_row_def
      detect_row_def grace_over_def silent_below_def silent_upto_def silent_for_def)

end
