(* ===== verification/KeyPool.thy ===== *)
theory KeyPool
  imports JsNumber Prelude "HOL-Library.Multiset"
begin

text \<open>
  The keys of the language-model provider: the pool that serves the healthiest key
  (\<open>backend/src/services/venice/keyPool.ts\<close>) and the store that ranks the chain of providers
  (\<open>backend/src/services/venice/keyHealth.ts\<close>). Rates, scores and latencies are doubles; a key's
  hash is an argument. A latency that is not finite is \<open>None\<close>.
\<close>

subsection \<open>The pool\<close>

record key_state =
  ks_key :: string
  ks_window :: "bool list"
  ks_requestCount :: nat
  ks_cooldownUntil :: ms

record key_pool =
  kp_states :: "(string, key_state) jsmap"
  kp_cooldownMs :: ms
  kp_errorRateThreshold :: rat

record key_pool_status =
  kq_keyFragment :: string
  kq_healthy :: bool
  kq_errorRate :: rat
  kq_requestCount :: nat
  kq_coolingDownUntil :: "ms option"

definition KEY_POOL_WINDOW_SIZE :: nat where
  "KEY_POOL_WINDOW_SIZE = 100"

definition KEY_POOL_MIN_SAMPLES :: nat where
  "KEY_POOL_MIN_SAMPLES = 10"

definition keyFragmentOf :: "string \<Rightarrow> string" where
  "keyFragmentOf key = ''...'' @ drop (length key - 4) key"

definition new_key :: "string \<Rightarrow> key_state" where
  "new_key k = \<lparr> ks_key = k, ks_window = [], ks_requestCount = 0, ks_cooldownUntil = 0 \<rparr>"

definition new_pool :: "string list \<Rightarrow> ms \<Rightarrow> rat \<Rightarrow> key_pool" where
  "new_pool keys cooldownMs threshold =
     \<lparr> kp_states = fold (\<lambda>k m. if k = '''' \<or> jm_get m k \<noteq> None then m else jm_set m k (new_key k)) keys [],
       kp_cooldownMs = cooldownMs, kp_errorRateThreshold = threshold \<rparr>"

definition isAvailableState :: "ms \<Rightarrow> key_state \<Rightarrow> bool" where
  "isAvailableState now s \<longleftrightarrow> ks_cooldownUntil s \<le> now"

definition rate_of :: "bool list \<Rightarrow> rat" where
  "rate_of w = (if w = [] then 0 else fl (of_nat (length (filter Not w)) / of_nat (length w)))"

definition errorRate :: "key_state \<Rightarrow> rat" where
  "errorRate s = rate_of (ks_window s)"

fun acquire_scan :: "ms \<Rightarrow> key_state list \<Rightarrow> key_state option \<Rightarrow> key_state option" where
  "acquire_scan now [] best = best"
| "acquire_scan now (s # ss) best =
     (if \<not> isAvailableState now s then acquire_scan now ss best
      else case best of
             None \<Rightarrow> acquire_scan now ss (Some s)
           | Some b \<Rightarrow> (let rateDelta = fl (errorRate s - errorRate b)
               in acquire_scan now ss (if rateDelta < 0 \<or> rateDelta = 0 \<and> ks_requestCount s < ks_requestCount b
                    then Some s else best)))"

text \<open>The number in the error is the size of the pool.\<close>

definition kp_acquire :: "ms \<Rightarrow> key_pool \<Rightarrow> nat + string" where
  "kp_acquire now p = (case acquire_scan now (map snd (kp_states p)) None of
     None \<Rightarrow> Inl (length (kp_states p)) | Some s \<Rightarrow> Inr (ks_key s))"

definition kp_isAvailable :: "ms \<Rightarrow> string \<Rightarrow> key_pool \<Rightarrow> bool" where
  "kp_isAvailable now k p = (case jm_get (kp_states p) k of None \<Rightarrow> True | Some s \<Rightarrow> isAvailableState now s)"

definition kp_markCoolingDown :: "ms \<Rightarrow> string \<Rightarrow> ms option \<Rightarrow> key_pool \<Rightarrow> key_pool" where
  "kp_markCoolingDown now k durationMs p = (case jm_get (kp_states p) k of
     None \<Rightarrow> p
   | Some s \<Rightarrow> p\<lparr>kp_states := jm_set (kp_states p) k (s\<lparr>ks_cooldownUntil := now + or_else (kp_cooldownMs p) durationMs\<rparr>)\<rparr>)"

definition push_outcome :: "nat \<Rightarrow> bool \<Rightarrow> bool list \<Rightarrow> bool list" where
  "push_outcome cap ok w = (let w' = w @ [ok] in if cap < length w' then tl w' else w')"

definition kp_recordResult :: "ms \<Rightarrow> string \<Rightarrow> bool \<Rightarrow> key_pool \<Rightarrow> key_pool" where
  "kp_recordResult now k success p = (case jm_get (kp_states p) k of
     None \<Rightarrow> p
   | Some s \<Rightarrow>
       (let s1 = s\<lparr>ks_requestCount := ks_requestCount s + 1, ks_window := push_outcome KEY_POOL_WINDOW_SIZE success (ks_window s)\<rparr>
        in if \<not> success \<and> KEY_POOL_MIN_SAMPLES \<le> length (ks_window s1) \<and> kp_errorRateThreshold p < errorRate s1
           then p\<lparr>kp_states := jm_set (kp_states p) k (s1\<lparr>ks_cooldownUntil := now + kp_cooldownMs p, ks_window := []\<rparr>)\<rparr>
           else p\<lparr>kp_states := jm_set (kp_states p) k s1\<rparr>))"

definition kp_healthyCount :: "ms \<Rightarrow> key_pool \<Rightarrow> nat" where
  "kp_healthyCount now p = length (filter (\<lambda>(_, s). isAvailableState now s) (kp_states p))"

definition kp_getStatus :: "ms \<Rightarrow> key_pool \<Rightarrow> key_pool_status list" where
  "kp_getStatus now p = map (\<lambda>(_, s). \<lparr> kq_keyFragment = keyFragmentOf (ks_key s), kq_healthy = isAvailableState now s,
     kq_errorRate = fl (of_int (js_round (fl (errorRate s * 10000))) / 10000), kq_requestCount = ks_requestCount s,
     kq_coolingDownUntil = (if now < ks_cooldownUntil s then Some (ks_cooldownUntil s) else None) \<rparr>) (kp_states p)"

datatype pool_op = RecordResult string bool | MarkCoolingDown string "ms option"

fun pool_step :: "ms \<times> pool_op \<Rightarrow> key_pool \<Rightarrow> key_pool" where
  "pool_step (now, RecordResult k ok) p = kp_recordResult now k ok p"
| "pool_step (now, MarkCoolingDown k d) p = kp_markCoolingDown now k d p"

subsection \<open>What the pool serves\<close>

lemma fl_sign: "fl x < 0 \<longleftrightarrow> x < 0" "fl x = 0 \<longleftrightarrow> x = 0"
  using fl_pos_gt_0 [of x] fl_pos_gt_0 [of "- x"] by (auto simp: fl_def)

definition health_key :: "key_state \<Rightarrow> rat \<times> nat" where
  "health_key s = (errorRate s, ks_requestCount s)"

lemma acquire_scan_best:
  assumes "\<And>b. best = Some b \<Longrightarrow> isAvailableState now b"
  shows "case acquire_scan now ss best of
      None \<Rightarrow> best = None \<and> (\<forall>s \<in> set ss. \<not> isAvailableState now s)
    | Some s \<Rightarrow> isAvailableState now s \<and> (s \<in> set ss \<or> best = Some s)
        \<and> (\<forall>q \<in> set ss \<union> set_option best. isAvailableState now q \<longrightarrow> health_key s \<le> health_key q)"
  using assms
proof (induction ss arbitrary: best)
  case (Cons s ss)
  define best' where "best' = (if \<not> isAvailableState now s then best else case best of None \<Rightarrow> Some s
    | Some b \<Rightarrow> if health_key s < health_key b then Some s else best)"
  have step: "acquire_scan now (s # ss) best = acquire_scan now ss best'"
    by (cases best) (auto simp: best'_def fl_sign health_key_def less_prod_simp Let_def)
  have "\<And>b. best' = Some b \<Longrightarrow> isAvailableState now b"
    using Cons.prems by (auto simp: best'_def split: if_splits option.splits)
  note IH = Cons.IH [of best', OF this]
  have le: "health_key b' \<le> health_key q" if "best' = Some b'" "q \<in> insert s (set_option best)" "isAvailableState now q" for b' q
    using that by (auto simp: best'_def split: if_splits option.splits)
  have mem: "b' = s \<or> best = Some b'" if "best' = Some b'" for b'
    using that by (auto simp: best'_def split: if_splits option.splits)
  have none: "best' = None \<longleftrightarrow> best = None \<and> \<not> isAvailableState now s"
    by (auto simp: best'_def split: option.splits)
  show ?case
  proof (cases "acquire_scan now ss best'")
    case None
    then show ?thesis unfolding step using IH none by simp
  next
    case (Some r)
    have "health_key r \<le> health_key q" if q: "q \<in> insert s (set_option best)" "isAvailableState now q" for q
    proof -
      obtain b' where b': "best' = Some b'" using none q by (cases best') auto
      then have "health_key r \<le> health_key b'" using IH Some \<open>\<And>b. best' = Some b \<Longrightarrow> isAvailableState now b\<close> by auto
      then show ?thesis using le [OF b' q] by (rule order_trans)
    qed
    then show ?thesis unfolding step using IH Some mem by auto
  qed
qed (simp split: option.split)

definition key_ok :: "rat \<Rightarrow> string \<Rightarrow> key_state \<Rightarrow> bool" where
  "key_ok threshold k s \<longleftrightarrow> ks_key s = k \<and> length (ks_window s) \<le> KEY_POOL_WINDOW_SIZE
     \<and> (ks_window s \<noteq> [] \<longrightarrow> last (ks_window s) \<or> length (ks_window s) < KEY_POOL_MIN_SAMPLES \<or> errorRate s \<le> threshold)"

definition pool_ok :: "key_pool \<Rightarrow> bool" where
  "pool_ok p \<longleftrightarrow> jm_wf (kp_states p) \<and> (\<forall>x \<in> set (kp_states p). key_ok (kp_errorRateThreshold p) (fst x) (snd x))"

lemma push_outcome: "0 < cap \<Longrightarrow> length w \<le> cap \<Longrightarrow> length (push_outcome cap ok w) \<le> cap
    \<and> push_outcome cap ok w \<noteq> [] \<and> last (push_outcome cap ok w) = ok"
  by (cases w) (auto simp: push_outcome_def Let_def)

lemma push_outcome_window: "key_ok threshold k s \<Longrightarrow>
    length (push_outcome KEY_POOL_WINDOW_SIZE ok (ks_window s)) \<le> KEY_POOL_WINDOW_SIZE
    \<and> last (push_outcome KEY_POOL_WINDOW_SIZE ok (ks_window s)) = ok"
  using push_outcome [of KEY_POOL_WINDOW_SIZE "ks_window s" ok] by (simp add: key_ok_def KEY_POOL_WINDOW_SIZE_def)

lemma pool_set: "pool_ok p \<Longrightarrow> key_ok (kp_errorRateThreshold p) k s \<Longrightarrow> pool_ok (p\<lparr>kp_states := jm_set (kp_states p) k s\<rparr>)"
  by (cases p) (auto simp: pool_ok_def jm_wf_set simp del: map_of_eq_Some_iff dest!: jm_set_mem)

lemma pool_entry: "pool_ok p \<Longrightarrow> jm_get (kp_states p) k = Some s \<Longrightarrow> key_ok (kp_errorRateThreshold p) k s"
  unfolding pool_ok_def by (drule map_of_SomeD) auto

lemma recordResult_entry:
  assumes "jm_get (kp_states p) k = Some s" "key_ok (kp_errorRateThreshold p) k s"
  obtains s' where "kp_recordResult now k ok p = p\<lparr>kp_states := jm_set (kp_states p) k s'\<rparr>"
    "key_ok (kp_errorRateThreshold p) k s'"
proof -
  define s1 where "s1 = s\<lparr>ks_requestCount := ks_requestCount s + 1,
    ks_window := push_outcome KEY_POOL_WINDOW_SIZE ok (ks_window s)\<rparr>"
  let ?trip = "\<not> ok \<and> KEY_POOL_MIN_SAMPLES \<le> length (ks_window s1) \<and> kp_errorRateThreshold p < errorRate s1"
  have s1: "ks_key s1 = k" "length (ks_window s1) \<le> KEY_POOL_WINDOW_SIZE" "last (ks_window s1) = ok"
    using assms(2) push_outcome_window [OF assms(2), of ok] by (simp_all add: s1_def key_ok_def)
  have step: "kp_recordResult now k ok p = (if ?trip
      then p\<lparr>kp_states := jm_set (kp_states p) k (s1\<lparr>ks_cooldownUntil := now + kp_cooldownMs p, ks_window := []\<rparr>)\<rparr>
      else p\<lparr>kp_states := jm_set (kp_states p) k s1\<rparr>)"
    unfolding kp_recordResult_def assms(1) s1_def [symmetric] Let_def option.case by (rule refl)
  show thesis
  proof (cases ?trip)
    case True
    show thesis by (rule that, unfold step if_P [OF True], rule refl) (simp add: key_ok_def s1)
  next
    case False
    then have "ok \<or> length (ks_window s1) < KEY_POOL_MIN_SAMPLES \<or> errorRate s1 \<le> kp_errorRateThreshold p" by linarith
    then show thesis by (intro that [of s1], unfold step if_not_P [OF False]) (simp_all add: key_ok_def s1)
  qed
qed

lemma pool_step_ok: "pool_ok p \<Longrightarrow> pool_ok (pool_step x p)"
proof (cases x)
  case (Pair now op)
  assume ok: "pool_ok p"
  show ?thesis
  proof (cases op)
    case (RecordResult k success)
    show ?thesis
    proof (cases "jm_get (kp_states p) k")
      case (Some s)
      show ?thesis
        using recordResult_entry [OF Some pool_entry [OF ok Some], of now success] pool_set [OF ok]
        unfolding Pair RecordResult pool_step.simps by metis
    qed (simp add: Pair RecordResult kp_recordResult_def ok)
  next
    case (MarkCoolingDown k d)
    show ?thesis
    proof (cases "jm_get (kp_states p) k")
      case (Some s)
      then show ?thesis using pool_entry [OF ok Some]
        by (simp add: Pair MarkCoolingDown kp_markCoolingDown_def) (rule pool_set [OF ok], simp add: key_ok_def errorRate_def)
    qed (simp add: Pair MarkCoolingDown kp_markCoolingDown_def ok)
  qed
qed

lemma new_pool_ok: "pool_ok (new_pool keys c threshold)"
proof -
  let ?f = "\<lambda>k m. if k = '''' \<or> jm_get m k \<noteq> None then m else jm_set m k (new_key k)"
  have "jm_wf (fold ?f ks m) \<and> (\<forall>(k, s) \<in> set (fold ?f ks m). s = new_key k)"
    if "jm_wf m" "\<forall>(k, s) \<in> set m. s = new_key k" for ks m
    using that
  proof (induction ks arbitrary: m)
    case (Cons k ks)
    have "\<forall>(j, s) \<in> set (jm_set m k (new_key k)). s = new_key j" using Cons.prems(2) jm_set_mem by fast
    then have "jm_wf (?f k m) \<and> (\<forall>(j, s) \<in> set (?f k m). s = new_key j)" using Cons.prems jm_wf_set [of m k "new_key k"] by simp
    then show ?case using Cons.IH [of "?f k m"] by simp
  qed simp
  from this [of "[]" keys] show ?thesis
    by (auto simp: pool_ok_def key_ok_def new_pool_def new_key_def simp del: fold_simps)
qed

text \<open>
  The pool serves the healthiest key. After any history of results and cooldowns, a call gets
  a key exactly when some key is not cooling down; that key is not, no other available key has a
  lower error rate, nor an equal one with fewer requests, and if its last call failed, then it has
  fewer than ten outcomes on record or an error rate within the threshold.
\<close>

theorem pool_serves_healthiest:
  assumes "p = fold pool_step ops (new_pool keys c threshold)"
  shows "case kp_acquire now p of
      Inl n \<Rightarrow> n = length (kp_states p) \<and> kp_healthyCount now p = 0
    | Inr k \<Rightarrow> \<exists>s. jm_get (kp_states p) k = Some s \<and> isAvailableState now s
        \<and> (\<forall>k' s'. jm_get (kp_states p) k' = Some s' \<longrightarrow> isAvailableState now s' \<longrightarrow> health_key s \<le> health_key s')
        \<and> (ks_window s \<noteq> [] \<longrightarrow> last (ks_window s) \<or> length (ks_window s) < 10 \<or> errorRate s \<le> kp_errorRateThreshold p)"
proof -
  have "pool_ok (fold pool_step xs q)" if "pool_ok q" for xs q
    using that by (induction xs arbitrary: q) (simp_all add: pool_step_ok)
  then have ok: "pool_ok p" using assms new_pool_ok by simp
  note best = acquire_scan_best [of None now "map snd (kp_states p)"]
  show ?thesis
  proof (cases "acquire_scan now (map snd (kp_states p)) None")
    case None
    then show ?thesis using best by (auto simp: kp_acquire_def kp_healthyCount_def filter_empty_conv)
  next
    case (Some s)
    then obtain k where k: "(k, s) \<in> set (kp_states p)" using best by auto
    then have get: "jm_get (kp_states p) k = Some s" using ok by (simp add: pool_ok_def)
    moreover have "health_key s \<le> health_key s'" if "jm_get (kp_states p) k' = Some s'" "isAvailableState now s'" for k' s'
      using best Some that map_of_SomeD [OF that(1)] by force
    ultimately show ?thesis
      using best Some pool_entry [OF ok get] by (auto simp: kp_acquire_def key_ok_def KEY_POOL_MIN_SAMPLES_def)
  qed
qed

theorem pool_serves_healthiest_witness:
  "\<exists>p k. p = fold pool_step [(5, RecordResult ''a'' False), (6, RecordResult ''b'' True), (7, MarkCoolingDown ''c'' None)]
      (new_pool [''a'', ''b'', ''c''] 60 (1/2)) \<and> kp_acquire 10 p = Inr k \<and> kp_healthyCount 10 p = 2"
proof -
  define p where "p = fold pool_step [(5, RecordResult ''a'' False), (6, RecordResult ''b'' True), (7, MarkCoolingDown ''c'' None)]
      (new_pool [''a'', ''b'', ''c''] 60 (1/2))"
  have h: "kp_healthyCount 10 p = 2"
    by (simp add: p_def new_pool_def new_key_def kp_recordResult_def kp_markCoolingDown_def push_outcome_def
        KEY_POOL_WINDOW_SIZE_def KEY_POOL_MIN_SAMPLES_def kp_healthyCount_def isAvailableState_def Let_def)
  from pool_serves_healthiest [OF p_def, of 10] h obtain k where "kp_acquire 10 p = Inr k"
    by (cases "kp_acquire 10 p") auto
  with h p_def show ?thesis by blast
qed

subsection \<open>The ranking of providers\<close>

datatype key_failure = FQuota | FAuth | FServer | FTransport
datatype key_lifecycle = KHealthy | KDegraded | KCooldown

record key_entry =
  kh_name :: string
  kh_apiKey :: string
  kh_keyId :: string
  kh_successes :: nat
  kh_failures :: nat
  kh_quotaEvents :: nat
  kh_consecutiveQuotaEvents :: nat
  kh_recent :: "bool list"
  kh_avgLatencyMs :: "rat option"
  kh_cooldownUntil :: "ms option"
  kh_lastSuccessAt :: "ms option"
  kh_lastFailureAt :: "ms option"

record key_health_store =
  hs_entries :: "(string, key_entry) jsmap"
  hs_cooldownMs :: int
  hs_maxCooldownMs :: int

record provider =
  pv_name :: "string option"
  pv_apiKey :: string

definition ERROR_WINDOW :: nat where
  "ERROR_WINDOW = 20"

definition LATENCY_ALPHA :: rat where
  "LATENCY_ALPHA = fl (3 / 10)"

definition DEGRADED_ERROR_RATE :: rat where
  "DEGRADED_ERROR_RATE = fl (3 / 10)"

definition kh_positiveInt :: "rat option \<Rightarrow> int \<Rightarrow> int" where
  "kh_positiveInt value fallback = (case value of None \<Rightarrow> fallback | Some v \<Rightarrow> if v < 1 then fallback else \<lfloor>v\<rfloor>)"

definition new_health_store :: "rat option \<Rightarrow> rat option \<Rightarrow> key_health_store" where
  "new_health_store cooldownMs maxCooldownMs = (let c = kh_positiveInt cooldownMs 60000
     in \<lparr> hs_entries = [], hs_cooldownMs = c, hs_maxCooldownMs = max (kh_positiveInt maxCooldownMs 900000) c \<rparr>)"

definition provider_name :: "provider \<Rightarrow> string" where
  "provider_name p = or_else ''primary'' (pv_name p)"

definition new_entry_for :: "(string \<Rightarrow> string) \<Rightarrow> provider \<Rightarrow> key_entry" where
  "new_entry_for hash p = \<lparr> kh_name = provider_name p, kh_apiKey = pv_apiKey p, kh_keyId = hash (pv_apiKey p), kh_successes = 0,
     kh_failures = 0, kh_quotaEvents = 0, kh_consecutiveQuotaEvents = 0, kh_recent = [], kh_avgLatencyMs = None,
     kh_cooldownUntil = None, kh_lastSuccessAt = None, kh_lastFailureAt = None \<rparr>"

definition kh_register :: "(string \<Rightarrow> string) \<Rightarrow> provider list \<Rightarrow> key_health_store \<Rightarrow> key_health_store" where
  "kh_register hash ps hs = hs\<lparr>hs_entries := fold (\<lambda>p m. case jm_get m (provider_name p) of
       None \<Rightarrow> jm_set m (provider_name p) (new_entry_for hash p)
     | Some e \<Rightarrow> if kh_apiKey e \<noteq> pv_apiKey p then jm_set m (provider_name p) (new_entry_for hash p) else m) ps (hs_entries hs)\<rparr>"

definition kh_score :: "key_entry option \<Rightarrow> rat" where
  "kh_score e = (case e of None \<Rightarrow> 0 | Some e \<Rightarrow> fl (fl (rate_of (kh_recent e) * 10000) + or_else 0 (kh_avgLatencyMs e)))"

definition kh_cooling :: "ms \<Rightarrow> key_health_store \<Rightarrow> provider \<Rightarrow> bool" where
  "kh_cooling now hs p = (case jm_get (hs_entries hs) (provider_name p) of None \<Rightarrow> False
     | Some e \<Rightarrow> (case kh_cooldownUntil e of None \<Rightarrow> False | Some t \<Rightarrow> now < t))"

definition cooldown_of :: "key_health_store \<Rightarrow> provider \<Rightarrow> int" where
  "cooldown_of hs p = (case jm_get (hs_entries hs) (provider_name p) of None \<Rightarrow> 0 | Some e \<Rightarrow> or_else 0 (kh_cooldownUntil e))"

definition kh_compare :: "ms \<Rightarrow> key_health_store \<Rightarrow> nat \<times> provider \<Rightarrow> nat \<times> provider \<Rightarrow> rat" where
  "kh_compare now hs a b =
     (let coolingA = kh_cooling now hs (snd a); coolingB = kh_cooling now hs (snd b);
          scoreA = kh_score (jm_get (hs_entries hs) (provider_name (snd a)));
          scoreB = kh_score (jm_get (hs_entries hs) (provider_name (snd b)))
      in if coolingA \<noteq> coolingB then (if coolingA then 1 else - 1)
         else if coolingA then of_int (cooldown_of hs (snd a) - cooldown_of hs (snd b))
         else if scoreA \<noteq> scoreB then fl (scoreA - scoreB)
         else of_int (int (fst a) - int (fst b)))"

text \<open>
  \<open>sort\<close> of the array is stable; what it gives for a comparator that is an order does not depend
  on the algorithm, which here is insertion from the right.
\<close>

fun insert_cmp :: "('a \<Rightarrow> 'a \<Rightarrow> rat) \<Rightarrow> 'a \<Rightarrow> 'a list \<Rightarrow> 'a list" where
  "insert_cmp cmp x [] = [x]"
| "insert_cmp cmp x (y # ys) = (if cmp x y \<le> 0 then x # y # ys else y # insert_cmp cmp x ys)"

definition kh_order :: "ms \<Rightarrow> provider list \<Rightarrow> key_health_store \<Rightarrow> provider list" where
  "kh_order now ps hs = (if length ps \<le> 1 then ps
     else map snd (foldr (insert_cmp (kh_compare now hs)) (enumerate 0 ps) []))"

definition blendLatency :: "rat option \<Rightarrow> rat option \<Rightarrow> rat option" where
  "blendLatency previous sample = (case sample of None \<Rightarrow> previous
     | Some x \<Rightarrow> (case previous of None \<Rightarrow> Some (max 0 x)
         | Some l \<Rightarrow> Some (fl (l + fl (LATENCY_ALPHA * fl (max 0 x - l))))))"

definition kh_recordSuccess :: "ms \<Rightarrow> string \<Rightarrow> rat option \<Rightarrow> key_health_store \<Rightarrow> key_health_store" where
  "kh_recordSuccess now name latencyMs hs = (case jm_get (hs_entries hs) name of
     None \<Rightarrow> hs
   | Some e \<Rightarrow>
       (let e1 = (if kh_cooldownUntil e \<noteq> None then e\<lparr>kh_consecutiveQuotaEvents := 0, kh_cooldownUntil := None\<rparr> else e)
        in hs\<lparr>hs_entries := jm_set (hs_entries hs) name (e1\<lparr>kh_successes := kh_successes e1 + 1, kh_lastSuccessAt := Some now,
             kh_recent := push_outcome ERROR_WINDOW True (kh_recent e1),
             kh_avgLatencyMs := blendLatency (kh_avgLatencyMs e1) latencyMs\<rparr>)\<rparr>))"

definition kh_backoff :: "key_health_store \<Rightarrow> nat \<Rightarrow> int" where
  "kh_backoff hs n = min (hs_cooldownMs hs * 2 ^ (n - 1)) (hs_maxCooldownMs hs)"

definition kh_recordFailure :: "ms \<Rightarrow> string \<Rightarrow> key_failure \<Rightarrow> rat option \<Rightarrow> key_health_store \<Rightarrow> key_health_store" where
  "kh_recordFailure now name kind latencyMs hs = (case jm_get (hs_entries hs) name of
     None \<Rightarrow> hs
   | Some e \<Rightarrow>
       (let e1 = e\<lparr>kh_failures := kh_failures e + 1, kh_lastFailureAt := Some now,
             kh_avgLatencyMs := blendLatency (kh_avgLatencyMs e) latencyMs\<rparr>
        in hs\<lparr>hs_entries := jm_set (hs_entries hs) name
             (if kind \<noteq> FQuota then e1\<lparr>kh_recent := push_outcome ERROR_WINDOW False (kh_recent e1)\<rparr>
              else e1\<lparr>kh_quotaEvents := kh_quotaEvents e1 + 1, kh_consecutiveQuotaEvents := kh_consecutiveQuotaEvents e1 + 1,
                   kh_cooldownUntil := Some (now + kh_backoff hs (kh_consecutiveQuotaEvents e1 + 1))\<rparr>)\<rparr>))"

definition kh_lifecycle :: "ms \<Rightarrow> key_entry \<Rightarrow> key_lifecycle" where
  "kh_lifecycle now e = (if (case kh_cooldownUntil e of None \<Rightarrow> False | Some t \<Rightarrow> now < t) then KCooldown
     else if DEGRADED_ERROR_RATE \<le> rate_of (kh_recent e) then KDegraded else KHealthy)"

record key_snapshot =
  kn_id :: string
  kn_keyId :: string
  kn_state :: key_lifecycle
  kn_cooldownUntil :: "ms option"
  kn_successes :: nat
  kn_failures :: nat
  kn_quotaEvents :: nat
  kn_errorRate :: rat
  kn_avgLatencyMs :: "rat option"
  kn_lastSuccessAt :: "ms option"
  kn_lastFailureAt :: "ms option"

definition kh_snapshot :: "ms \<Rightarrow> key_health_store \<Rightarrow> key_snapshot list" where
  "kh_snapshot now hs = map (\<lambda>(_, e). \<lparr> kn_id = kh_name e, kn_keyId = kh_keyId e, kn_state = kh_lifecycle now e,
     kn_cooldownUntil = kh_cooldownUntil e, kn_successes = kh_successes e, kn_failures = kh_failures e,
     kn_quotaEvents = kh_quotaEvents e, kn_errorRate = rate_of (kh_recent e), kn_avgLatencyMs = kh_avgLatencyMs e,
     kn_lastSuccessAt = kh_lastSuccessAt e, kn_lastFailureAt = kh_lastFailureAt e \<rparr>) (hs_entries hs)"

definition kh_keyIdFor :: "string \<Rightarrow> key_health_store \<Rightarrow> string option" where
  "kh_keyIdFor name hs = map_option kh_keyId (jm_get (hs_entries hs) name)"

subsection \<open>The order of the providers\<close>

text \<open>The comparator compares this pair, then the index.\<close>

definition kh_rank :: "ms \<Rightarrow> key_health_store \<Rightarrow> provider \<Rightarrow> bool \<times> rat" where
  "kh_rank now hs p = (if kh_cooling now hs p then (True, of_int (cooldown_of hs p))
     else (False, kh_score (jm_get (hs_entries hs) (provider_name p))))"

definition order_key :: "ms \<Rightarrow> key_health_store \<Rightarrow> nat \<times> provider \<Rightarrow> (bool \<times> rat) \<times> nat" where
  "order_key now hs a = (kh_rank now hs (snd a), fst a)"

lemma kh_compare_key:
  assumes "a \<noteq> b" "fst a \<noteq> fst b" "kh_cooling now hs (snd a) \<Longrightarrow> kh_cooling now hs (snd b) \<Longrightarrow>
    cooldown_of hs (snd a) = cooldown_of hs (snd b) \<Longrightarrow> fst a < fst b"
  shows "kh_compare now hs a b \<le> 0 \<longleftrightarrow> order_key now hs a \<le> order_key now hs b"
proof -
  have fl: "fl x \<le> 0 \<longleftrightarrow> x \<le> 0" for x using fl_sign [of x] by linarith
  show ?thesis using assms
    by (auto simp: kh_compare_def order_key_def kh_rank_def Let_def less_eq_prod_simp less_prod_simp fl)
qed

lemma insert_cmp_insort:
  "(\<And>y. y \<in> set ys \<Longrightarrow> cmp x y \<le> 0 \<longleftrightarrow> f x \<le> f y) \<Longrightarrow> insert_cmp cmp x ys = insort_key f x ys"
  by (induction ys) auto

lemma insertion_sorts:
  "sorted_wrt (\<lambda>x y. cmp x y \<le> 0 \<longleftrightarrow> f x \<le> f y) xs \<Longrightarrow> foldr (insert_cmp cmp) xs [] = sort_key f xs"
proof (induction xs)
  case (Cons x xs)
  then have "insert_cmp cmp x (sort_key f xs) = insort_key f x (sort_key f xs)" by (intro insert_cmp_insort) simp
  then show ?case using Cons by simp
qed simp

lemma filter_enumerate: "map snd (filter (\<lambda>a. P (snd a)) (enumerate n xs)) = filter P xs"
  by (induction xs arbitrary: n) auto

lemma enumerate_indices: "sorted_wrt (\<lambda>a b. fst a < fst b) (enumerate n xs)"
proof (induction xs arbitrary: n)
  case (Cons x xs)
  have "n < fst b" if "b \<in> set (enumerate (Suc n) xs)" for b
    using that in_set_enumerate_eq [of b "Suc n" xs] by simp
  then show ?case using Cons.IH [of "Suc n"] by simp
qed simp

lemma kh_order_sort: "kh_order now ps hs = map snd (sort_key (order_key now hs) (enumerate 0 ps))"
proof -
  have "sorted_wrt (\<lambda>a b. kh_compare now hs a b \<le> 0 \<longleftrightarrow> order_key now hs a \<le> order_key now hs b) (enumerate 0 ps)"
    by (rule sorted_wrt_mono_rel [OF _ enumerate_indices]) (metis kh_compare_key less_irrefl)
  then have "foldr (insert_cmp (kh_compare now hs)) (enumerate 0 ps) [] = sort_key (order_key now hs) (enumerate 0 ps)"
    by (rule insertion_sorts)
  moreover have "ps = map snd (sort_key (order_key now hs) (enumerate 0 ps))" if "length ps \<le> 1"
    using that by (cases ps) auto
  ultimately show ?thesis by (simp add: kh_order_def)
qed

lemma same_rank_sorted: "sorted (map (order_key now hs) (filter (\<lambda>a. kh_rank now hs (snd a) = r) (enumerate n ps)))"
  unfolding sorted_map
  by (rule sorted_wrt_mono_rel [OF _ sorted_wrt_filter [OF enumerate_indices]])
    (auto simp: order_key_def less_eq_prod_simp)

text \<open>
  The order of the providers is a ranking of all of them: nothing is left out or repeated, no
  key in cooldown comes before one that is not, those not in cooldown come by score and those in
  cooldown by the end of it, and equals keep the configured order.
\<close>

theorem provider_order_ranks_all:
  "mset (kh_order now ps hs) = mset ps \<and> sorted (map (kh_rank now hs) (kh_order now ps hs))
    \<and> filter (\<lambda>p. kh_rank now hs p = r) (kh_order now ps hs) = filter (\<lambda>p. kh_rank now hs p = r) ps
    \<and> sorted (map (kh_cooling now hs) (kh_order now ps hs))"
proof -
  let ?o = "kh_order now ps hs" and ?s = "sort_key (order_key now hs) (enumerate 0 ps)"
  have "mset ?o = image_mset snd (mset (enumerate 0 ps))" by (simp add: kh_order_sort)
  then have perm: "mset ?o = mset ps" by (simp flip: mset_map)
  have "sorted (map (order_key now hs) ?s)" by simp
  then have srt: "sorted (map (kh_rank now hs) ?o)"
    unfolding kh_order_sort map_map sorted_map
    by (rule sorted_wrt_mono_rel [rotated]) (auto simp: order_key_def less_eq_prod_simp)
  have "filter (\<lambda>p. kh_rank now hs p = r) ?o = map snd (filter (\<lambda>a. kh_rank now hs (snd a) = r) ?s)"
    by (simp add: kh_order_sort filter_map comp_def)
  also have "\<dots> = filter (\<lambda>p. kh_rank now hs p = r) ps"
    by (simp add: filter_sort sort_key_id_if_sorted same_rank_sorted filter_enumerate [where P = "\<lambda>p. kh_rank now hs p = r"])
  finally have stable: "filter (\<lambda>p. kh_rank now hs p = r) ?o = filter (\<lambda>p. kh_rank now hs p = r) ps" .
  have "sorted (map (kh_cooling now hs) ?o)" using srt unfolding sorted_map
    by (rule sorted_wrt_mono_rel [rotated]) (auto simp: kh_rank_def less_eq_prod_simp split: if_splits)
  then show ?thesis using perm srt stable by blast
qed

end
