(* ===== verification/Idempotency.thy ===== *)
theory Idempotency
  imports JsValue
begin

text \<open>
  \<open>backend/src/services/idempotency.ts\<close> and \<open>backend/src/api/middleware/idempotency.ts\<close>: a request
  with an \<open>Idempotency-Key\<close> reserves the slot of its wallet and key before its handler runs, and the
  response is stored there for replay. The table is the list of its rows. Processes share it, and
  their SQL statements interleave: a request is a client that runs the loop of \<open>reserve\<close> one
  statement at a time. A body is its JSON text, \<open>None\<close> when the handler sent none.
\<close>

datatype slot_status = SlotPending | SlotCompleted

record slot =
  sl_wallet :: string
  sl_key :: string
  sl_status :: slot_status
  sl_reservationId :: string
  sl_statusCode :: "int option"
  sl_body :: "string option"
  sl_createdAt :: ms
  sl_expiresAt :: ms

record idem_entry =
  ie_wallet :: string
  ie_key :: string
  ie_status :: slot_status
  ie_statusCode :: "int option"
  ie_responseBody :: "string option"
  ie_createdAt :: ms
  ie_expiresAt :: ms

datatype reservation = Reserved string | Replay idem_entry | Conflict

record idem_options =
  io_ttlMs :: ms
  io_pendingTtlMs :: ms

definition DEFAULT_IDEM_OPTIONS :: idem_options where
  "DEFAULT_IDEM_OPTIONS = \<lparr> io_ttlMs = 24 * 60 * 60 * 1000, io_pendingTtlMs = 5 * 60 * 1000 \<rparr>"

subsection \<open>The statements\<close>

definition slot_key :: "slot \<Rightarrow> string \<times> string" where
  "slot_key s = (sl_wallet s, sl_key s)"

definition reserveStmt :: "string \<Rightarrow> string \<Rightarrow> string \<Rightarrow> ms \<Rightarrow> ms \<Rightarrow> slot list \<Rightarrow> slot list \<times> nat" where
  "reserveStmt w k rid createdAt expiresAt st =
     (if row_by slot_key (w, k) st \<noteq> None then (st, 0)
      else (st @ [\<lparr> sl_wallet = w, sl_key = k, sl_status = SlotPending, sl_reservationId = rid, sl_statusCode = None,
                    sl_body = None, sl_createdAt = createdAt, sl_expiresAt = expiresAt \<rparr>], 1))"

definition selectStmt :: "string \<Rightarrow> string \<Rightarrow> slot list \<Rightarrow> slot option" where
  "selectStmt w k st = row_by slot_key (w, k) st"

definition deleteExpiredStmt :: "string \<Rightarrow> string \<Rightarrow> ms \<Rightarrow> slot list \<Rightarrow> slot list" where
  "deleteExpiredStmt w k now st = fst (sql_delete (\<lambda>s. slot_key s = (w, k) \<and> sl_expiresAt s \<le> now) st)"

definition completeStmt :: "string \<Rightarrow> string \<Rightarrow> string \<Rightarrow> int \<Rightarrow> string option \<Rightarrow> ms \<Rightarrow> slot list \<Rightarrow> slot list \<times> nat" where
  "completeStmt w k rid statusCode body expiresAt =
     sql_update (\<lambda>s. slot_key s = (w, k) \<and> sl_status s = SlotPending \<and> sl_reservationId s = rid)
       (\<lambda>s. s\<lparr>sl_status := SlotCompleted, sl_statusCode := Some statusCode, sl_body := body, sl_expiresAt := expiresAt\<rparr>)"

definition releaseStmt :: "string \<Rightarrow> string \<Rightarrow> string \<Rightarrow> slot list \<Rightarrow> slot list" where
  "releaseStmt w k rid st = fst (sql_delete (\<lambda>s. slot_key s = (w, k) \<and> sl_status s = SlotPending \<and> sl_reservationId s = rid) st)"

definition deleteStmt :: "string \<Rightarrow> string \<Rightarrow> slot list \<Rightarrow> slot list" where
  "deleteStmt w k st = fst (sql_delete (\<lambda>s. slot_key s = (w, k)) st)"

definition cleanupStmt :: "ms \<Rightarrow> slot list \<Rightarrow> slot list \<times> nat" where
  "cleanupStmt now = sql_delete (\<lambda>s. sl_expiresAt s \<le> now)"

definition toEntry :: "slot \<Rightarrow> idem_entry" where
  "toEntry s = \<lparr> ie_wallet = sl_wallet s, ie_key = sl_key s, ie_status = sl_status s, ie_statusCode = sl_statusCode s,
     ie_responseBody = sl_body s, ie_createdAt = sl_createdAt s, ie_expiresAt = sl_expiresAt s \<rparr>"

subsection \<open>The store\<close>

text \<open>The loop of \<open>reserve\<close>, given what the clock says on each attempt.\<close>

fun reserve_loop :: "idem_options \<Rightarrow> string \<Rightarrow> string \<Rightarrow> string \<Rightarrow> ms list \<Rightarrow> slot list \<Rightarrow> slot list \<times> reservation" where
  "reserve_loop opts w k rid [] st = (st, Conflict)"
| "reserve_loop opts w k rid (now # nows) st =
     (let (st', changes) = reserveStmt w k rid now (now + io_pendingTtlMs opts) st
      in if changes = 1 then (st', Reserved rid)
         else case selectStmt w k st' of
                None \<Rightarrow> reserve_loop opts w k rid nows st'
              | Some row \<Rightarrow>
                  if sl_expiresAt row \<le> now then reserve_loop opts w k rid nows (deleteExpiredStmt w k now st')
                  else if sl_status row = SlotCompleted then (st', Replay (toEntry row))
                  else (st', Conflict))"

definition idem_reserve :: "idem_options \<Rightarrow> string \<Rightarrow> string \<Rightarrow> string \<Rightarrow> ms \<times> ms \<times> ms \<Rightarrow> slot list \<Rightarrow> slot list \<times> reservation" where
  "idem_reserve opts w k rid = (\<lambda>(t0, t1, t2). reserve_loop opts w k rid [t0, t1, t2])"

definition idem_complete :: "idem_options \<Rightarrow> string \<Rightarrow> string \<Rightarrow> string \<Rightarrow> int \<Rightarrow> string option \<Rightarrow> ms \<Rightarrow> slot list \<Rightarrow> slot list \<times> nat" where
  "idem_complete opts w k rid statusCode body now = completeStmt w k rid statusCode body (now + io_ttlMs opts)"

definition idem_get :: "string \<Rightarrow> string \<Rightarrow> slot list \<Rightarrow> idem_entry option" where
  "idem_get w k st = map_option toEntry (selectStmt w k st)"

subsection \<open>The middleware\<close>

definition IDEMPOTENCY_KEY_MAX_LENGTH :: nat where
  "IDEMPOTENCY_KEY_MAX_LENGTH = 128"

definition resolveWallet :: "js_val option \<Rightarrow> string option \<Rightarrow> string" where
  "resolveWallet fromBody fromHeader =
     (case fromBody of Some (JStr s) \<Rightarrow> if js_trim s \<noteq> '''' then js_trim s
        else (case fromHeader of Some h \<Rightarrow> if js_trim h \<noteq> '''' then js_trim h else ''anonymous'' | None \<Rightarrow> ''anonymous'')
      | _ \<Rightarrow> (case fromHeader of Some h \<Rightarrow> if js_trim h \<noteq> '''' then js_trim h else ''anonymous'' | None \<Rightarrow> ''anonymous''))"

datatype mw_action = MwPass | MwKeyTooLong nat | MwReplay int string | MwInProgress string | MwHandle string string string

text \<open>\<open>reserve\<close> is the call of the store; \<open>None\<close> when it throws.\<close>

definition idempotencyMiddleware :: "string option \<Rightarrow> string \<Rightarrow> (string \<Rightarrow> string \<Rightarrow> (slot list \<times> reservation) option) \<Rightarrow> slot list
    \<Rightarrow> slot list \<times> mw_action" where
  "idempotencyMiddleware header wallet reserve st =
     (case header of None \<Rightarrow> (st, MwPass)
      | Some rawKey \<Rightarrow>
          (let key = js_trim rawKey
           in if key = '''' then (st, MwPass)
              else if IDEMPOTENCY_KEY_MAX_LENGTH < length key then (st, MwKeyTooLong (length key))
              else case reserve wallet key of
                     None \<Rightarrow> (st, MwPass)
                   | Some (st', Replay e) \<Rightarrow> (st', MwReplay (or_else 200 (ie_statusCode e)) (or_else ''null'' (ie_responseBody e)))
                   | Some (st', Conflict) \<Rightarrow> (st', MwInProgress key)
                   | Some (st', Reserved rid) \<Rightarrow> (st', MwHandle wallet key rid)))"

text \<open>The listener of \<open>finish\<close>, with the number of rows it completed.\<close>

definition finalize :: "idem_options \<Rightarrow> string \<Rightarrow> string \<Rightarrow> string \<Rightarrow> int \<Rightarrow> string option \<Rightarrow> ms \<Rightarrow> slot list \<Rightarrow> slot list \<times> nat" where
  "finalize opts w k rid status body now st =
     (if 200 \<le> status \<and> status < 400 then idem_complete opts w k rid status body now st else (releaseStmt w k rid st, 0))"

subsection \<open>Clients and their interleaving\<close>

text \<open>Where a client stands in the loop: the attempt, and its reading of the clock.\<close>

datatype claim = Inserting nat | Reading nat ms | Reclaiming nat ms | Claimed reservation

definition next_attempt :: "nat \<Rightarrow> claim" where
  "next_attempt n = (if n + 1 < 3 then Inserting (n + 1) else Claimed Conflict)"

fun claim_step :: "idem_options \<Rightarrow> string \<Rightarrow> string \<Rightarrow> string \<Rightarrow> ms \<Rightarrow> claim \<times> slot list \<Rightarrow> claim \<times> slot list" where
  "claim_step opts w k rid now (Inserting n, st) =
     (let (st', changes) = reserveStmt w k rid now (now + io_pendingTtlMs opts) st
      in (if changes = 1 then Claimed (Reserved rid) else Reading n now, st'))"
| "claim_step opts w k rid now (Reading n t, st) =
     (case selectStmt w k st of
        None \<Rightarrow> (next_attempt n, st)
      | Some row \<Rightarrow> (if sl_expiresAt row \<le> t then Reclaiming n t
                     else if sl_status row = SlotCompleted then Claimed (Replay (toEntry row)) else Claimed Conflict, st))"
| "claim_step opts w k rid now (Reclaiming n t, st) = (next_attempt n, deleteExpiredStmt w k t st)"
| "claim_step opts w k rid now (Claimed r, st) = (Claimed r, st)"

record client =
  cl_wallet :: string
  cl_key :: string
  cl_rid :: string
  cl_claim :: claim
  cl_startedAt :: ms
  cl_finished :: bool

text \<open>The log records what is visible outside: handlers started, responses stored and replayed, refusals.\<close>

datatype idem_log =
    Started nat "string \<times> string" ms
  | Stored nat "string \<times> string" ms int "string option"
  | Replayed nat "string \<times> string" ms idem_entry
  | Refused nat "string \<times> string" ms

record idem_sys =
  is_slots :: "slot list"
  is_clients :: "nat \<Rightarrow> client option"
  is_log :: "idem_log list"

datatype idem_op = Arrive nat string string string | Statement nat | Finish nat int "string option" | Sweep

definition claim_log :: "nat \<Rightarrow> string \<times> string \<Rightarrow> ms \<Rightarrow> claim \<Rightarrow> idem_log list" where
  "claim_log i wk now c = (case c of Claimed (Reserved _) \<Rightarrow> [Started i wk now] | Claimed (Replay e) \<Rightarrow> [Replayed i wk now e]
     | Claimed Conflict \<Rightarrow> [Refused i wk now] | _ \<Rightarrow> [])"

definition cl_handling :: "client \<Rightarrow> bool" where
  "cl_handling c \<longleftrightarrow> (\<exists>r. cl_claim c = Claimed (Reserved r)) \<and> \<not> cl_finished c"

definition is_claimed :: "claim \<Rightarrow> bool" where
  "is_claimed c = (case c of Claimed _ \<Rightarrow> True | _ \<Rightarrow> False)"

fun idem_step :: "idem_options \<Rightarrow> ms \<times> idem_op \<Rightarrow> idem_sys \<Rightarrow> idem_sys" where
  "idem_step opts (now, Arrive i w k rid) s =
     (if is_clients s i \<noteq> None then s
      else s\<lparr>is_clients := (is_clients s)(i \<mapsto> \<lparr> cl_wallet = w, cl_key = k, cl_rid = rid, cl_claim = Inserting 0,
                                                   cl_startedAt = now, cl_finished = False \<rparr>)\<rparr>)"
| "idem_step opts (now, Statement i) s =
     (case is_clients s i of None \<Rightarrow> s
      | Some c \<Rightarrow>
          if is_claimed (cl_claim c) then s
          else let (c', st) = claim_step opts (cl_wallet c) (cl_key c) (cl_rid c) now (cl_claim c, is_slots s)
               in s\<lparr>is_slots := st, is_clients := (is_clients s)(i \<mapsto> c\<lparr>cl_claim := c', cl_startedAt := now\<rparr>),
                    is_log := is_log s @ claim_log i (cl_wallet c, cl_key c) now c'\<rparr>)"
| "idem_step opts (now, Finish i status body) s =
     (case is_clients s i of None \<Rightarrow> s
      | Some c \<Rightarrow>
          if \<not> cl_handling c then s
          else let (st, changes) = finalize opts (cl_wallet c) (cl_key c) (cl_rid c) status body now (is_slots s)
               in s\<lparr>is_slots := st, is_clients := (is_clients s)(i \<mapsto> c\<lparr>cl_finished := True\<rparr>),
                    is_log := is_log s @ (if 0 < changes then [Stored i (cl_wallet c, cl_key c) now status body] else [])\<rparr>)"
| "idem_step opts (now, Sweep) s = s\<lparr>is_slots := fst (cleanupStmt now (is_slots s))\<rparr>"

definition idem_run :: "idem_options \<Rightarrow> (ms \<times> idem_op) list \<Rightarrow> idem_sys \<Rightarrow> idem_sys" where
  "idem_run opts ops s = fold (idem_step opts) ops s"

definition new_idem :: "slot list \<Rightarrow> idem_sys" where
  "new_idem st = \<lparr> is_slots = st, is_clients = (\<lambda>_. None), is_log = [] \<rparr>"



subsection \<open>What the statements leave alone\<close>

definition slots_wf :: "slot list \<Rightarrow> bool" where
  "slots_wf st \<longleftrightarrow> distinct (map slot_key st)"

definition keeps :: "(slot \<Rightarrow> bool) \<Rightarrow> slot list \<Rightarrow> slot list \<Rightarrow> bool" where
  "keeps p st st' \<longleftrightarrow> (\<forall>wk r. row_by slot_key wk st = Some r \<longrightarrow> p r \<longrightarrow> row_by slot_key wk st' = Some r)"

lemma keepsD: "keeps p st st' \<Longrightarrow> row_by slot_key wk st = Some r \<Longrightarrow> p r \<Longrightarrow> row_by slot_key wk st' = Some r"
  unfolding keeps_def by blast

lemma reserve_keeps: "keeps p st (fst (reserveStmt w k rid t e st))"
  by (simp add: keeps_def reserveStmt_def row_by_append)

lemma reserve_inserts: "reserveStmt w k rid t e st = (st', 1) \<Longrightarrow> row_by slot_key (w, k) st = None
    \<and> (\<exists>r. row_by slot_key (w, k) st' = Some r \<and> sl_status r = SlotPending \<and> sl_reservationId r = rid \<and> sl_expiresAt r = e)"
proof -
  have one: "row_by slot_key (w, k) [s] = (if slot_key s = (w, k) then Some s else None)" for s by (simp add: row_by_def)
  show "reserveStmt w k rid t e st = (st', 1) \<Longrightarrow> ?thesis"
    by (auto simp: reserveStmt_def row_by_append one slot_key_def split: if_splits)
qed

lemma delete_keeps: "slots_wf st \<Longrightarrow> (\<And>r. p r \<Longrightarrow> \<not> q r) \<Longrightarrow> keeps p st (fst (sql_delete q st))"
  by (simp add: keeps_def slots_wf_def sql_delete_rows row_by_filter)

lemma reserve_wf: "slots_wf st \<Longrightarrow> slots_wf (fst (reserveStmt w k rid t e st))"
  by (auto simp: slots_wf_def reserveStmt_def row_by_None slot_key_def)

lemma delete_wf: "slots_wf st \<Longrightarrow> slots_wf (fst (sql_delete q st))"
  by (simp add: slots_wf_def sql_delete_rows distinct_filter_key)

lemma complete_look: "row_by slot_key wk (fst (completeStmt w k rid c b e st))
    = map_option (\<lambda>s. if slot_key s = (w, k) \<and> sl_status s = SlotPending \<and> sl_reservationId s = rid
        then s\<lparr>sl_status := SlotCompleted, sl_statusCode := Some c, sl_body := b, sl_expiresAt := e\<rparr> else s) (row_by slot_key wk st)"
  unfolding completeStmt_def sql_update_rows by (rule row_by_update) (simp add: slot_key_def)

lemma complete_wf: "slots_wf st \<Longrightarrow> slots_wf (fst (completeStmt w k rid c b e st))"
  unfolding slots_wf_def completeStmt_def by (subst sql_update_keys) (simp_all add: slot_key_def)

lemma complete_changes: "slots_wf st \<Longrightarrow> 0 < snd (completeStmt w k rid c b e st) \<longleftrightarrow>
    (\<exists>r. row_by slot_key (w, k) st = Some r \<and> sl_status r = SlotPending \<and> sl_reservationId r = rid)"
  unfolding completeStmt_def sql_update_changes slots_wf_def
  using row_by_Some [of slot_key "(w, k)" st] row_by_mem [of slot_key st] by metis

lemma complete_done:
  assumes "slots_wf st" "0 < snd (completeStmt w k rid c b e st)"
  shows "\<exists>r. row_by slot_key (w, k) st = Some r \<and> sl_status r = SlotPending"
    "\<exists>r. row_by slot_key (w, k) (fst (completeStmt w k rid c b e st)) = Some r \<and> sl_status r = SlotCompleted
      \<and> sl_statusCode r = Some c \<and> sl_body r = b \<and> sl_expiresAt r = e"
proof -
  obtain r where r: "row_by slot_key (w, k) st = Some r" "sl_status r = SlotPending" "sl_reservationId r = rid"
    using assms complete_changes by blast
  then show "\<exists>r. row_by slot_key (w, k) st = Some r \<and> sl_status r = SlotPending" by blast
  show "\<exists>r. row_by slot_key (w, k) (fst (completeStmt w k rid c b e st)) = Some r \<and> sl_status r = SlotCompleted
      \<and> sl_statusCode r = Some c \<and> sl_body r = b \<and> sl_expiresAt r = e"
    using r row_by_Some [OF r(1)] by (simp add: complete_look)
qed

lemma complete_keeps: "(\<And>r. p r \<Longrightarrow> sl_status r = SlotCompleted \<or> slot_key r \<noteq> (w, k)) \<Longrightarrow> keeps p st (fst (completeStmt w k rid c b e st))"
proof -
  assume p: "\<And>r. p r \<Longrightarrow> sl_status r = SlotCompleted \<or> slot_key r \<noteq> (w, k)"
  have "row_by slot_key wk (fst (completeStmt w k rid c b e st)) = Some r" if "row_by slot_key wk st = Some r" "p r" for wk r
    using p [OF that(2)] by (auto simp: complete_look that(1))
  then show ?thesis unfolding keeps_def by blast
qed

lemma finalize_keeps: "slots_wf st \<Longrightarrow> (\<And>r. p r \<Longrightarrow> sl_status r = SlotCompleted \<or> slot_key r \<noteq> (w, k))
    \<Longrightarrow> keeps p st (fst (finalize opts w k rid c b now st)) \<and> slots_wf (fst (finalize opts w k rid c b now st))"
proof -
  assume wf: "slots_wf st" and p: "\<And>r. p r \<Longrightarrow> sl_status r = SlotCompleted \<or> slot_key r \<noteq> (w, k)"
  have "keeps p st (releaseStmt w k rid st)" unfolding releaseStmt_def using p by (intro delete_keeps [OF wf]) force
  then show ?thesis using complete_keeps [of p, OF p] complete_wf [OF wf] delete_wf [OF wf]
    by (simp add: finalize_def idem_complete_def releaseStmt_def)
qed

text \<open>A step of a claim keeps every row that has not expired, and says why it ended.\<close>

definition reading_at :: "claim \<Rightarrow> ms option" where
  "reading_at c = (case c of Reading n t \<Rightarrow> Some t | Reclaiming n t \<Rightarrow> Some t | _ \<Rightarrow> None)"

lemma claim_step_slots:
  assumes "slots_wf st" "\<forall>t. reading_at c = Some t \<longrightarrow> t \<le> now"
    and "claim_step opts w k rid now (c, st) = (c', st')"
  shows "slots_wf st'" "keeps (\<lambda>r. now < sl_expiresAt r) st st'" "reading_at c' = Some t \<Longrightarrow> t \<le> now"
    and "\<not> is_claimed c \<Longrightarrow> c' = Claimed (Reserved x) \<Longrightarrow> row_by slot_key (w, k) st = None
      \<and> (\<exists>r. row_by slot_key (w, k) st' = Some r \<and> sl_status r = SlotPending \<and> sl_reservationId r = rid
            \<and> sl_expiresAt r = now + io_pendingTtlMs opts)"
    and "\<not> is_claimed c \<Longrightarrow> c' = Claimed (Replay e) \<Longrightarrow> (\<exists>r. row_by slot_key (w, k) st = Some r \<and> e = toEntry r) \<and> st' = st"
proof -
  have ins: "reserveStmt w k rid t u st = (s, n) \<Longrightarrow> slots_wf s \<and> keeps p st s" for t u s n p
    using reserve_wf [OF assms(1), of w k rid t u] reserve_keeps [of p st w k rid t u] by simp
  have del: "t \<le> now \<Longrightarrow> slots_wf (deleteExpiredStmt w k t st) \<and> keeps (\<lambda>r. now < sl_expiresAt r) st (deleteExpiredStmt w k t st)" for t
    unfolding deleteExpiredStmt_def by (intro conjI delete_keeps [OF assms(1)] delete_wf [OF assms(1)]) simp
  have same: "keeps p st st" for p by (simp add: keeps_def)
  have nxt: "next_attempt n \<noteq> Claimed (Reserved x)" "next_attempt n \<noteq> Claimed (Replay e)" "reading_at (next_attempt n) = None" for n
    by (simp_all add: next_attempt_def reading_at_def)
  have "slots_wf st' \<and> keeps (\<lambda>r. now < sl_expiresAt r) st st' \<and> (reading_at c' = Some t \<longrightarrow> t \<le> now)
    \<and> (\<not> is_claimed c \<longrightarrow> c' = Claimed (Reserved x) \<longrightarrow> row_by slot_key (w, k) st = None
      \<and> (\<exists>r. row_by slot_key (w, k) st' = Some r \<and> sl_status r = SlotPending \<and> sl_reservationId r = rid
            \<and> sl_expiresAt r = now + io_pendingTtlMs opts))
    \<and> (\<not> is_claimed c \<longrightarrow> c' = Claimed (Replay e) \<longrightarrow> (\<exists>r. row_by slot_key (w, k) st = Some r \<and> e = toEntry r) \<and> st' = st)"
  proof (cases c)
    case (Inserting n)
    obtain s m where r: "reserveStmt w k rid now (now + io_pendingTtlMs opts) st = (s, m)" by fastforce
    then have "st' = s \<and> c' = (if m = 1 then Claimed (Reserved rid) else Reading n now)"
      using assms(3) by (simp add: Inserting)
    moreover have "m = 1 \<Longrightarrow> row_by slot_key (w, k) st = None \<and> (\<exists>r. row_by slot_key (w, k) s = Some r
        \<and> sl_status r = SlotPending \<and> sl_reservationId r = rid \<and> sl_expiresAt r = now + io_pendingTtlMs opts)"
      using reserve_inserts r by blast
    ultimately show ?thesis using ins [OF r] by (auto simp: reading_at_def)
  next
    case (Reading n u)
    then show ?thesis using assms nxt same
      by (auto simp: reading_at_def selectStmt_def split: option.splits if_splits)
  next
    case (Reclaiming n u)
    then show ?thesis using assms nxt del [of u] by (auto simp: reading_at_def)
  next
    case (Claimed y)
    then show ?thesis using assms same by (auto simp: reading_at_def is_claimed_def)
  qed
  then show "slots_wf st'" "keeps (\<lambda>r. now < sl_expiresAt r) st st'" "reading_at c' = Some t \<Longrightarrow> t \<le> now"
    "\<not> is_claimed c \<Longrightarrow> c' = Claimed (Reserved x) \<Longrightarrow> row_by slot_key (w, k) st = None
      \<and> (\<exists>r. row_by slot_key (w, k) st' = Some r \<and> sl_status r = SlotPending \<and> sl_reservationId r = rid
            \<and> sl_expiresAt r = now + io_pendingTtlMs opts)"
    "\<not> is_claimed c \<Longrightarrow> c' = Claimed (Replay e) \<Longrightarrow> (\<exists>r. row_by slot_key (w, k) st = Some r \<and> e = toEntry r) \<and> st' = st"
    by blast+
qed

subsection \<open>A stored response is final\<close>

text \<open>What an entry of the log demands of a later one for the same slot.\<close>

definition log_ok :: "idem_options \<Rightarrow> idem_log \<Rightarrow> idem_log \<Rightarrow> bool" where
  "log_ok opts e f = (case e of
     Stored i wk t c b \<Rightarrow>
       (case f of
          Started j wk' t' \<Rightarrow> wk' = wk \<longrightarrow> t + io_ttlMs opts \<le> t'
        | Stored j wk' t' c' b' \<Rightarrow> wk' = wk \<longrightarrow> t + io_ttlMs opts \<le> t'
        | Replayed j wk' t' x \<Rightarrow> wk' = wk \<longrightarrow> t' < t + io_ttlMs opts \<longrightarrow> ie_statusCode x = Some c \<and> ie_responseBody x = b
        | Refused j wk' t' \<Rightarrow> True)
   | _ \<Rightarrow> True)"

definition kept :: "idem_options \<Rightarrow> ms \<Rightarrow> slot list \<Rightarrow> idem_log \<Rightarrow> bool" where
  "kept opts now st e = (case e of
     Stored i wk t c b \<Rightarrow> now < t + io_ttlMs opts \<longrightarrow> (\<exists>r. row_by slot_key wk st = Some r \<and> sl_status r = SlotCompleted
       \<and> sl_statusCode r = Some c \<and> sl_body r = b \<and> sl_expiresAt r = t + io_ttlMs opts)
   | _ \<Rightarrow> True)"

lemma kept_later: "kept opts t st e \<Longrightarrow> t \<le> now \<Longrightarrow> kept opts now st e"
  by (auto simp: kept_def split: idem_log.splits)

lemma kept_keeps:
  assumes "keeps p st st'" "\<And>r. sl_status r = SlotCompleted \<Longrightarrow> now < sl_expiresAt r \<Longrightarrow> p r" "kept opts now st e"
  shows "kept opts now st' e"
  using assms(3) keepsD [OF assms(1)] assms(2) by (fastforce simp: kept_def split: idem_log.splits)

definition idem_inv :: "idem_options \<Rightarrow> ms \<Rightarrow> idem_sys \<Rightarrow> bool" where
  "idem_inv opts now s \<longleftrightarrow> slots_wf (is_slots s) \<and> sorted_wrt (log_ok opts) (is_log s)
     \<and> (\<forall>e \<in> set (is_log s). kept opts now (is_slots s) e)
     \<and> (\<forall>i c t. is_clients s i = Some c \<longrightarrow> reading_at (cl_claim c) = Some t \<longrightarrow> t \<le> now)"

lemma idem_invD: "idem_inv opts now s \<Longrightarrow> slots_wf (is_slots s)"
  "idem_inv opts now s \<Longrightarrow> e \<in> set (is_log s) \<Longrightarrow> kept opts now (is_slots s) e"
  "idem_inv opts now s \<Longrightarrow> is_clients s i = Some c \<Longrightarrow> reading_at (cl_claim c) = Some t \<Longrightarrow> t \<le> now"
  by (auto simp: idem_inv_def)

lemma idem_inv_later: "idem_inv opts t s \<Longrightarrow> t \<le> now \<Longrightarrow> idem_inv opts now s"
  using kept_later by (fastforce simp: idem_inv_def)

text \<open>A step that keeps the completed rows and adds entries the log allows keeps the invariant.\<close>

lemma idem_inv_step:
  assumes "idem_inv opts now s" "slots_wf st'" "keeps p (is_slots s) st'"
    and "\<And>r. sl_status r = SlotCompleted \<Longrightarrow> now < sl_expiresAt r \<Longrightarrow> p r"
    and "\<And>e. e \<in> set es \<Longrightarrow> kept opts now st' e" "length es \<le> 1"
    and "\<And>e f. e \<in> set (is_log s) \<Longrightarrow> f \<in> set es \<Longrightarrow> kept opts now (is_slots s) e \<Longrightarrow> log_ok opts e f"
    and "reading_at (cl_claim c) = None \<or> (\<exists>t. reading_at (cl_claim c) = Some t \<and> t \<le> now)"
  shows "idem_inv opts now (s\<lparr>is_slots := st', is_clients := (is_clients s)(i \<mapsto> c), is_log := is_log s @ es\<rparr>)"
proof -
  have "kept opts now st' e" if "e \<in> set (is_log s)" for e
    using kept_keeps [OF assms(3,4)] idem_invD(2) [OF assms(1) that] by blast
  moreover have "sorted_wrt (log_ok opts) es" using assms(6) by (cases es; cases "tl es") auto
  then have "sorted_wrt (log_ok opts) (is_log s @ es)"
    using assms(1,7) idem_invD(2) [OF assms(1)] by (simp add: idem_inv_def sorted_wrt_append)
  ultimately show ?thesis using assms(1,2,5,8) by (auto simp: idem_inv_def)
qed

lemma claim_log_props: "e \<in> set (claim_log i wk t c) \<Longrightarrow> kept opts now st e" "length (claim_log i wk t c) \<le> 1"
proof -
  have r: "e \<in> set (claim_log i wk t (Claimed y)) \<Longrightarrow> kept opts now st e" for y by (cases y) (auto simp: claim_log_def kept_def)
  show "e \<in> set (claim_log i wk t c) \<Longrightarrow> kept opts now st e" using r by (cases c) (auto simp: claim_log_def)
  show "length (claim_log i wk t c) \<le> 1" by (simp add: claim_log_def split: claim.split reservation.split)
qed

lemma idem_step_inv:
  assumes inv: "idem_inv opts now s"
  shows "idem_inv opts now (idem_step opts (now, op) s)"
proof (cases op)
  case (Arrive i w k rid)
  then show ?thesis using inv by (auto simp: idem_inv_def reading_at_def)
next
  case Sweep
  have "keeps (\<lambda>r. now < sl_expiresAt r) (is_slots s) (fst (cleanupStmt now (is_slots s)))"
    unfolding cleanupStmt_def by (rule delete_keeps [OF idem_invD(1) [OF inv]]) simp
  note kept_keeps [OF this]
  then show ?thesis using inv delete_wf [OF idem_invD(1) [OF inv]] by (simp add: Sweep idem_inv_def cleanupStmt_def)
next
  case (Statement i)
  show ?thesis
  proof (cases "is_clients s i")
    case (Some c)
    show ?thesis
    proof (cases "is_claimed (cl_claim c)")
      case False
      let ?wk = "(cl_wallet c, cl_key c)"
      obtain c' st where step: "claim_step opts (cl_wallet c) (cl_key c) (cl_rid c) now (cl_claim c, is_slots s) = (c', st)" by fastforce
      have read: "\<forall>t. reading_at (cl_claim c) = Some t \<longrightarrow> t \<le> now" using idem_invD(3) [OF inv Some] by blast
      note cl = claim_step_slots [OF idem_invD(1) [OF inv] read step]
      have log: "log_ok opts e f" if "f \<in> set (claim_log i ?wk now c')" "kept opts now (is_slots s) e" for e f
        using that cl(4) [OF False] cl(5) [OF False]
        by (fastforce simp: claim_log_def kept_def log_ok_def toEntry_def split: idem_log.splits claim.splits reservation.splits)
      have "idem_inv opts now (s\<lparr>is_slots := st, is_clients := (is_clients s)(i \<mapsto> c\<lparr>cl_claim := c', cl_startedAt := now\<rparr>),
          is_log := is_log s @ claim_log i ?wk now c'\<rparr>)"
        using cl(3) log claim_log_props by (intro idem_inv_step [OF inv cl(1,2)]) auto
      then show ?thesis by (simp add: Statement Some False step)
    qed (simp add: Statement Some inv)
  qed (simp add: Statement inv)
next
  case (Finish i status body)
  show ?thesis
  proof (cases "is_clients s i")
    case (Some c)
    show ?thesis
    proof (cases "cl_handling c")
      case True
      let ?wk = "(cl_wallet c, cl_key c)" and ?f = "finalize opts (cl_wallet c) (cl_key c) (cl_rid c) status body now (is_slots s)"
      let ?es = "if 0 < snd ?f then [Stored i ?wk now status body] else []"
      note wf = idem_invD(1) [OF inv]
      have fin: "keeps (\<lambda>r. sl_status r = SlotCompleted) (is_slots s) (fst ?f) \<and> slots_wf (fst ?f)"
        by (rule finalize_keeps [OF wf]) simp
      have held: "\<exists>r. row_by slot_key ?wk (is_slots s) = Some r \<and> sl_status r = SlotPending"
        "\<exists>r. row_by slot_key ?wk (fst ?f) = Some r \<and> sl_status r = SlotCompleted \<and> sl_statusCode r = Some status
           \<and> sl_body r = body \<and> sl_expiresAt r = now + io_ttlMs opts" if "0 < snd ?f"
        using that complete_done [OF wf] by (simp_all add: finalize_def idem_complete_def split: if_splits)
      have log: "log_ok opts e f" if "f \<in> set ?es" "kept opts now (is_slots s) e" for e f
        using that held(1) by (fastforce simp: kept_def log_ok_def split: idem_log.splits if_splits)
      have read: "reading_at (cl_claim c) = None" using True by (auto simp: cl_handling_def reading_at_def)
      have "idem_inv opts now (s\<lparr>is_slots := fst ?f, is_clients := (is_clients s)(i \<mapsto> c\<lparr>cl_finished := True\<rparr>), is_log := is_log s @ ?es\<rparr>)"
        using fin log held(2) read
        by (intro idem_inv_step [OF inv, where p = "\<lambda>r. sl_status r = SlotCompleted"]) (auto simp: kept_def split: if_splits)
      then show ?thesis by (simp add: Finish Some True case_prod_beta)
    qed (simp add: Finish Some inv)
  qed (simp add: Finish inv)
qed

lemma idem_run_inv: "idem_inv opts t s \<Longrightarrow> sorted (t # map fst ops) \<Longrightarrow> \<exists>now. idem_inv opts now (idem_run opts ops s)"
proof (induction ops arbitrary: t s)
  case (Cons x ops)
  obtain now op where x: "x = (now, op)" by (cases x)
  have "idem_inv opts now (idem_step opts x s)"
    unfolding x using Cons.prems x by (intro idem_step_inv idem_inv_later [OF Cons.prems(1)]) simp
  from Cons.IH [OF this] Cons.prems(2) x show ?case by (simp add: idem_run_def)
qed (auto simp: idem_run_def)


definition demo_idem_ops :: "(ms \<times> idem_op) list" where
  "demo_idem_ops = [(1, Arrive 0 ''w'' ''k'' ''r0''), (1, Statement 0), (2, Arrive 1 ''w'' ''k'' ''r1''), (2, Statement 1), (3, Statement 1),
     (4, Finish 0 201 (Some ''{}'')), (5, Arrive 2 ''w'' ''k'' ''r2''), (5, Statement 2), (6, Statement 2)]"


subsection \<open>At most one handler\<close>

text \<open>A history in which every handler ends before its reservation lapses.\<close>

inductive timely_history :: "idem_options \<Rightarrow> slot list \<Rightarrow> ms \<Rightarrow> idem_sys \<Rightarrow> bool" for opts st where
  th_init: "timely_history opts st t (new_idem st)"
| th_step: "timely_history opts st t s \<Longrightarrow> t \<le> now
    \<Longrightarrow> (\<And>i c. is_clients s i = Some c \<Longrightarrow> cl_handling c \<Longrightarrow> now < cl_startedAt c + io_pendingTtlMs opts)
    \<Longrightarrow> timely_history opts st now (idem_step opts (now, op) s)"

definition holds_slot :: "idem_options \<Rightarrow> slot list \<Rightarrow> client \<Rightarrow> bool" where
  "holds_slot opts st c \<longleftrightarrow> (\<exists>r. row_by slot_key (cl_wallet c, cl_key c) st = Some r \<and> sl_status r = SlotPending
     \<and> sl_reservationId r = cl_rid c \<and> sl_expiresAt r = cl_startedAt c + io_pendingTtlMs opts)"

definition excl_inv :: "idem_options \<Rightarrow> ms \<Rightarrow> idem_sys \<Rightarrow> bool" where
  "excl_inv opts now s \<longleftrightarrow> slots_wf (is_slots s)
     \<and> (\<forall>i c t. is_clients s i = Some c \<longrightarrow> reading_at (cl_claim c) = Some t \<longrightarrow> t \<le> now)
     \<and> (\<forall>i c. is_clients s i = Some c \<longrightarrow> cl_handling c \<longrightarrow> holds_slot opts (is_slots s) c)
     \<and> (\<forall>i j c d. is_clients s i = Some c \<longrightarrow> is_clients s j = Some d \<longrightarrow> cl_handling c \<longrightarrow> cl_handling d
          \<longrightarrow> (cl_wallet c, cl_key c) = (cl_wallet d, cl_key d) \<longrightarrow> i = j)"

lemma excl_invD: "excl_inv opts now s \<Longrightarrow> slots_wf (is_slots s)"
  "excl_inv opts now s \<Longrightarrow> is_clients s i = Some c \<Longrightarrow> reading_at (cl_claim c) = Some t \<Longrightarrow> t \<le> now"
  "excl_inv opts now s \<Longrightarrow> is_clients s i = Some c \<Longrightarrow> cl_handling c \<Longrightarrow> holds_slot opts (is_slots s) c"
  "excl_inv opts now s \<Longrightarrow> is_clients s i = Some c \<Longrightarrow> is_clients s j = Some d \<Longrightarrow> cl_handling c \<Longrightarrow> cl_handling d
     \<Longrightarrow> cl_wallet c = cl_wallet d \<Longrightarrow> cl_key c = cl_key d \<Longrightarrow> i = j"
  by (auto simp: excl_inv_def)

text \<open>A step of client \<open>i\<close> that keeps the slots of the other handlers, and starts a handler only on a free slot.\<close>

lemma excl_inv_step:
  assumes "excl_inv opts now s" "is_clients s i = Some c" "slots_wf st'"
    and "\<And>j d. j \<noteq> i \<Longrightarrow> is_clients s j = Some d \<Longrightarrow> cl_handling d \<Longrightarrow> holds_slot opts st' d"
    and "cl_handling c' \<Longrightarrow> holds_slot opts st' c' \<and> row_by slot_key (cl_wallet c, cl_key c) (is_slots s) = None"
    and "\<And>t. reading_at (cl_claim c') = Some t \<Longrightarrow> t \<le> now" "cl_wallet c' = cl_wallet c" "cl_key c' = cl_key c"
  shows "excl_inv opts now (s\<lparr>is_slots := st', is_clients := (is_clients s)(i \<mapsto> c'), is_log := l\<rparr>)"
proof -
  have other: "(cl_wallet d, cl_key d) \<noteq> (cl_wallet c', cl_key c')" if "is_clients s j = Some d" "cl_handling d" "cl_handling c'" for j d
    using excl_invD(3) [OF assms(1) that(1,2)] assms(5,7,8) that(3) by (auto simp: holds_slot_def)
  define F where "F = (is_clients s)(i \<mapsto> c')"
  have held: "holds_slot opts st' d" if "F j = Some d" "cl_handling d" for j d
    using that assms(4,5) by (auto simp: F_def split: if_splits)
  have reads: "t \<le> now" if "F j = Some d" "reading_at (cl_claim d) = Some t" for j d t
    using that assms(6) excl_invD(2) [OF assms(1)] by (auto simp: F_def split: if_splits)
  have apart: "j = k" if F: "F j = Some d" "F k = Some e" and h: "cl_handling d" "cl_handling e"
    and eq: "(cl_wallet d, cl_key d) = (cl_wallet e, cl_key e)" for j k d e
  proof -
    consider "j = i" "k = i" | "j \<noteq> i" "k \<noteq> i" | "j = i" "k \<noteq> i" | "j \<noteq> i" "k = i" by blast
    then show ?thesis
    proof cases
      case 2
      then show ?thesis using F h eq excl_invD(4) [OF assms(1), of j d k e] by (simp add: F_def)
    next
      case 3
      then show ?thesis using F h eq other [of k e] by (simp add: F_def)
    next
      case 4
      then show ?thesis using F h eq other [of j d] by (simp add: F_def)
    qed simp
  qed
  have "excl_inv opts now t" if "is_slots t = st'" "is_clients t = F" for t
    unfolding excl_inv_def that using assms(3) held reads apart by blast
  then show ?thesis by (simp add: F_def)
qed

lemma held_keeps: "holds_slot opts st c \<Longrightarrow> keeps p st st'
    \<Longrightarrow> (\<And>r. slot_key r = (cl_wallet c, cl_key c) \<Longrightarrow> sl_expiresAt r = cl_startedAt c + io_pendingTtlMs opts \<Longrightarrow> p r)
    \<Longrightarrow> holds_slot opts st' c"
proof -
  assume h: "holds_slot opts st c" and k: "keeps p st st'"
    and p: "\<And>r. slot_key r = (cl_wallet c, cl_key c) \<Longrightarrow> sl_expiresAt r = cl_startedAt c + io_pendingTtlMs opts \<Longrightarrow> p r"
  obtain r where r: "row_by slot_key (cl_wallet c, cl_key c) st = Some r" "sl_status r = SlotPending" "sl_reservationId r = cl_rid c"
    "sl_expiresAt r = cl_startedAt c + io_pendingTtlMs opts" using h by (auto simp: holds_slot_def)
  have "row_by slot_key (cl_wallet c, cl_key c) st' = Some r"
    using keepsD [OF k r(1)] p [of r] row_by_Some [OF r(1)] r(4) by blast
  with r show ?thesis by (simp add: holds_slot_def)
qed

lemma excl_step_inv:
  assumes inv: "excl_inv opts now s"
    and live: "\<And>i c. is_clients s i = Some c \<Longrightarrow> cl_handling c \<Longrightarrow> now < cl_startedAt c + io_pendingTtlMs opts"
  shows "excl_inv opts now (idem_step opts (now, op) s)"
proof (cases op)
  case (Arrive i w k rid)
  have "\<not> cl_handling \<lparr> cl_wallet = w, cl_key = k, cl_rid = rid, cl_claim = Inserting 0, cl_startedAt = now, cl_finished = False \<rparr>"
    by (simp add: cl_handling_def)
  then show ?thesis using inv by (auto simp: Arrive excl_inv_def reading_at_def)
next
  case Sweep
  have "keeps (\<lambda>r. now < sl_expiresAt r) (is_slots s) (fst (cleanupStmt now (is_slots s)))"
    unfolding cleanupStmt_def by (rule delete_keeps [OF excl_invD(1) [OF inv]]) simp
  then have "holds_slot opts (fst (cleanupStmt now (is_slots s))) c" if "is_clients s i = Some c" "cl_handling c" for i c
    using held_keeps [OF excl_invD(3) [OF inv that]] live [OF that] by simp
  then show ?thesis using inv delete_wf [OF excl_invD(1) [OF inv]] by (simp add: Sweep excl_inv_def cleanupStmt_def)
next
  case (Statement i)
  show ?thesis
  proof (cases "is_clients s i")
    case (Some c)
    show ?thesis
    proof (cases "is_claimed (cl_claim c)")
      case False
      obtain c' st where step: "claim_step opts (cl_wallet c) (cl_key c) (cl_rid c) now (cl_claim c, is_slots s) = (c', st)" by fastforce
      have read: "\<forall>t. reading_at (cl_claim c) = Some t \<longrightarrow> t \<le> now" using excl_invD(2) [OF inv Some] by blast
      note cl = claim_step_slots [OF excl_invD(1) [OF inv] read step]
      have "excl_inv opts now (s\<lparr>is_slots := st, is_clients := (is_clients s)(i \<mapsto> c\<lparr>cl_claim := c', cl_startedAt := now\<rparr>),
          is_log := is_log s @ claim_log i (cl_wallet c, cl_key c) now c'\<rparr>)"
      proof (rule excl_inv_step [OF inv Some cl(1)])
        show "holds_slot opts st d" if "is_clients s j = Some d" "cl_handling d" for j d
          using held_keeps [OF excl_invD(3) [OF inv that] cl(2)] live [OF that] by simp
        show "cl_handling (c\<lparr>cl_claim := c', cl_startedAt := now\<rparr>) \<Longrightarrow> holds_slot opts st (c\<lparr>cl_claim := c', cl_startedAt := now\<rparr>)
            \<and> row_by slot_key (cl_wallet c, cl_key c) (is_slots s) = None"
          using cl(4) [OF False] by (auto simp: cl_handling_def holds_slot_def)
      qed (use cl(3) in auto)
      then show ?thesis by (simp add: Statement Some False step)
    qed (simp add: Statement Some inv)
  qed (simp add: Statement inv)
next
  case (Finish i status body)
  show ?thesis
  proof (cases "is_clients s i")
    case (Some c)
    show ?thesis
    proof (cases "cl_handling c")
      case True
      let ?f = "finalize opts (cl_wallet c) (cl_key c) (cl_rid c) status body now (is_slots s)"
      let ?es = "if 0 < snd ?f then [Stored i (cl_wallet c, cl_key c) now status body] else []"
      have fin: "keeps (\<lambda>r. slot_key r \<noteq> (cl_wallet c, cl_key c)) (is_slots s) (fst ?f) \<and> slots_wf (fst ?f)"
        by (rule finalize_keeps [OF excl_invD(1) [OF inv]]) simp
      have "excl_inv opts now (s\<lparr>is_slots := fst ?f, is_clients := (is_clients s)(i \<mapsto> c\<lparr>cl_finished := True\<rparr>), is_log := is_log s @ ?es\<rparr>)"
      proof (rule excl_inv_step [OF inv Some])
        show "holds_slot opts (fst ?f) d" if "j \<noteq> i" "is_clients s j = Some d" "cl_handling d" for j d
          using excl_invD(4) [OF inv that(2) Some that(3) True] that(1)
          by (intro held_keeps [OF excl_invD(3) [OF inv that(2,3)] conjunct1 [OF fin]]) auto
      qed (use fin True in \<open>auto simp: cl_handling_def reading_at_def\<close>)
      then show ?thesis by (simp add: Finish Some True case_prod_beta)
    qed (simp add: Finish Some inv)
  qed (simp add: Finish inv)
qed

lemma excl_inv_later: "excl_inv opts t s \<Longrightarrow> t \<le> now \<Longrightarrow> excl_inv opts now s"
  by (fastforce simp: excl_inv_def)

lemma timely_excl: "timely_history opts st t s \<Longrightarrow> slots_wf st \<Longrightarrow> excl_inv opts t s"
proof (induction rule: timely_history.induct)
  case (th_init t)
  then show ?case by (simp add: excl_inv_def new_idem_def)
next
  case (th_step t s now op)
  then show ?case by (intro excl_step_inv excl_inv_later [of opts t s now]) auto
qed

text \<open>
  C9. One handler at a time. As long as every handler ends before its reservation lapses, two
  requests with the same wallet and key never have their handlers running together, in one process
  or in two, however their statements interleave; the running handler's slot is its own, and when it
  answers with a success, the response is stored.
\<close>

theorem one_handler_per_key:
  assumes "slots_wf st" "timely_history opts st t s"
    and "is_clients s i = Some c" "cl_handling c" "is_clients s j = Some d" "cl_handling d"
    and "cl_wallet c = cl_wallet d" "cl_key c = cl_key d"
  shows "i = j \<and> (\<forall>status \<in> {200..<400}. 0 < snd (finalize opts (cl_wallet c) (cl_key c) (cl_rid c) status body now (is_slots s)))"
proof -
  note inv = timely_excl [OF assms(2,1)]
  obtain r where "row_by slot_key (cl_wallet c, cl_key c) (is_slots s) = Some r" "sl_status r = SlotPending" "sl_reservationId r = cl_rid c"
    using excl_invD(3) [OF inv assms(3,4)] by (auto simp: holds_slot_def)
  then have "0 < snd (completeStmt (cl_wallet c) (cl_key c) (cl_rid c) status body e (is_slots s))" for status e
    using complete_changes [OF excl_invD(1) [OF inv]] by blast
  then show ?thesis using excl_invD(4) [OF inv assms(3,5,4,6,7,8)] by (simp add: finalize_def idem_complete_def)
qed

theorem one_handler_per_key_witness:
  "\<exists>s c. timely_history DEFAULT_IDEM_OPTIONS [] 1 s \<and> is_clients s 0 = Some c \<and> cl_handling c
    \<and> 0 < snd (finalize DEFAULT_IDEM_OPTIONS ''w'' ''k'' ''r0'' 200 None 2 (is_slots s))"
proof -
  define s where "s = idem_step DEFAULT_IDEM_OPTIONS (1, Statement 0) (idem_step DEFAULT_IDEM_OPTIONS (1, Arrive 0 ''w'' ''k'' ''r0'') (new_idem []))"
  have th: "timely_history DEFAULT_IDEM_OPTIONS [] 1 s"
    unfolding s_def by (rule th_step [where t = 1], rule th_step [where t = 1], rule th_init)
      (auto simp: new_idem_def cl_handling_def split: if_splits)
  have c: "is_clients s 0 = Some \<lparr> cl_wallet = ''w'', cl_key = ''k'', cl_rid = ''r0'', cl_claim = Claimed (Reserved ''r0''),
      cl_startedAt = 1, cl_finished = False \<rparr>"
    by (simp add: s_def new_idem_def reserveStmt_def row_by_def is_claimed_def)
  have h: "cl_handling \<lparr> cl_wallet = ''w'', cl_key = ''k'', cl_rid = ''r0'', cl_claim = Claimed (Reserved ''r0''),
      cl_startedAt = 1, cl_finished = False \<rparr>" by (simp add: cl_handling_def)
  have "slots_wf []" by (simp add: slots_wf_def)
  from one_handler_per_key [OF this th c h c h refl refl, of None 2] th c h show ?thesis by fastforce
qed

subsection \<open>The loop as a whole\<close>

text \<open>Left alone, the statements of a claim are the function \<open>reserve\<close>, within nine of them.\<close>

lemma reserve_loop_claims:
  "n < 3 \<Longrightarrow> reserve_loop opts w k rid (replicate (3 - n) t) st = (st', r)
    \<Longrightarrow> \<exists>m \<le> 3 * (3 - n). (claim_step opts w k rid t ^^ m) (Inserting n, st) = (Claimed r, st')"
proof (induction "3 - n" arbitrary: n st)
  case (Suc q)
  let ?f = "claim_step opts w k rid t"
  have q: "3 - n = Suc q" "q = 3 - (n + 1)" using Suc.hyps(2) by simp_all
  have step: "(?f ^^ Suc m) x = (?f ^^ m) (?f x)" for m x by (simp add: funpow_swap1)
  have again: "\<exists>m \<le> 3 * q. (?f ^^ m) (next_attempt n, st1) = (Claimed r, st')"
    if "reserve_loop opts w k rid (replicate q t) st1 = (st', r)" for st1
  proof (cases "n + 1 < 3")
    case True
    then show ?thesis using Suc.hyps(1) [OF q(2) True] that q(2) by (simp add: next_attempt_def)
  next
    case False
    then have "q = 0" using q(2) by simp
    then show ?thesis using that False by (intro exI [of _ 0]) (simp add: next_attempt_def)
  qed
  obtain s1 c where ins: "reserveStmt w k rid t (t + io_pendingTtlMs opts) st = (s1, c)" by fastforce
  note loop = Suc.prems(2) [unfolded q(1) replicate_Suc reserve_loop.simps ins Let_def prod.case]
  show ?case
  proof (cases "c = 1")
    case True
    then show ?thesis using loop q(1) ins by (intro exI [of _ 1]) simp
  next
    case False
    have f1: "?f (Inserting n, st) = (Reading n t, s1)" using ins False by simp
    show ?thesis
    proof (cases "selectStmt w k s1")
      case None
      then obtain m where "m \<le> 3 * q" "(?f ^^ m) (next_attempt n, s1) = (Claimed r, st')" using again loop False by auto
      then show ?thesis using f1 None q(1) by (intro exI [of _ "Suc (Suc m)"]) (simp add: step del: funpow.simps(2))
    next
      case (Some row)
      show ?thesis
      proof (cases "sl_expiresAt row \<le> t")
        case True
        then obtain m where "m \<le> 3 * q" "(?f ^^ m) (next_attempt n, deleteExpiredStmt w k t s1) = (Claimed r, st')"
          using again loop False Some by auto
        then show ?thesis using f1 Some True q(1) by (intro exI [of _ "Suc (Suc (Suc m))"]) (simp add: step del: funpow.simps(2))
      next
        case noexp: False
        then show ?thesis using f1 Some loop False q(1) by (intro exI [of _ 2]) (auto simp: step numeral_2_eq_2 simp del: funpow.simps(2) split: if_splits)
      qed
    qed
  qed
qed simp

lemma reserve_claims: "idem_reserve opts w k rid (t, t, t) st = (st', r)
    \<Longrightarrow> \<exists>m \<le> 9. (claim_step opts w k rid t ^^ m) (Inserting 0, st) = (Claimed r, st')"
proof -
  assume "idem_reserve opts w k rid (t, t, t) st = (st', r)"
  moreover have "replicate (3 - 0) t = [t, t, t]" "3 * (3 - 0) = (9 :: nat)" by (simp_all add: numeral_3_eq_3)
  ultimately show ?thesis using reserve_loop_claims [of 0 opts w k rid t st st' r] unfolding idem_reserve_def by simp
qed

end
