(* ===== verification/Payments.thy ===== *)
theory Payments
  imports JsValue CircuitBreaker "HOL-Library.Signed_Division"
begin

text \<open>
  The escrow payments: the table of \<open>backend/src/db/index.ts\<close>, the amounts of
  \<open>backend/src/payment/utils.ts\<close> and the service of \<open>backend/src/payment/payment.ts\<close>. An amount in
  stroops is a \<open>bigint\<close>, an \<open>int\<close> here. The chain is an argument: what each attempt to load the
  account and to submit a transaction gives, and the id of the balance a transaction creates. What
  is handed to the chain is kept in the order of submission. Spans and backoff sleeps are left out.
\<close>

subsection \<open>The table\<close>

datatype escrow_status = PayLocked | PayReleased | PayRefunded | PayOrphaned

record payment =
  pm_taskId :: string
  pm_nodeId :: string
  pm_balanceId :: string
  pm_status :: escrow_status
  pm_amountStroops :: int
  pm_txHash :: "string option"
  pm_createdAt :: "ms option"
  pm_updatedAt :: "ms option"

definition pay_key :: "payment \<Rightarrow> string \<times> string" where
  "pay_key p = (pm_taskId p, pm_nodeId p)"

definition isSettledPaymentStatus :: "escrow_status \<Rightarrow> bool" where
  "isSettledPaymentStatus s \<longleftrightarrow> s \<in> {PayReleased, PayRefunded, PayOrphaned}"

text \<open>\<open>None\<close> is the violation of the primary key.\<close>

definition insert_payment :: "payment \<Rightarrow> ms \<Rightarrow> payment list \<Rightarrow> payment list option" where
  "insert_payment p now db = (if row_by pay_key (pay_key p) db \<noteq> None then None
     else Some (db @ [p\<lparr>pm_createdAt := Some (or_else now (pm_createdAt p)), pm_updatedAt := Some (or_else now (pm_updatedAt p))\<rparr>]))"

definition findByKey :: "string \<Rightarrow> string \<Rightarrow> payment list \<Rightarrow> payment option" where
  "findByKey taskId nodeId db = row_by pay_key (taskId, nodeId) db"

definition set_pay_status :: "escrow_status \<Rightarrow> string \<Rightarrow> ms \<Rightarrow> payment \<Rightarrow> payment" where
  "set_pay_status status txHash now p = p\<lparr>pm_status := status, pm_txHash := Some txHash, pm_updatedAt := Some now\<rparr>"

definition pay_updateStatus :: "string \<Rightarrow> string \<Rightarrow> escrow_status \<Rightarrow> string \<Rightarrow> ms \<Rightarrow> payment list \<Rightarrow> payment list" where
  "pay_updateStatus taskId nodeId status txHash now db =
     fst (sql_update (\<lambda>p. pay_key p = (taskId, nodeId)) (set_pay_status status txHash now) db)"

definition updateStatusIfCurrent :: "string \<Rightarrow> string \<Rightarrow> escrow_status \<Rightarrow> escrow_status \<Rightarrow> string \<Rightarrow> ms \<Rightarrow> payment list
    \<Rightarrow> payment list \<times> bool" where
  "updateStatusIfCurrent taskId nodeId expected status txHash now db =
     (let (db', changes) = sql_update (\<lambda>p. pay_key p = (taskId, nodeId) \<and> pm_status p = expected) (set_pay_status status txHash now) db
      in (db', 0 < changes))"

subsection \<open>Amounts\<close>

definition STROOPS_PER_XLM :: int where
  "STROOPS_PER_XLM = 10000000"

definition pad_start :: "nat \<Rightarrow> char \<Rightarrow> string \<Rightarrow> string" where
  "pad_start n c s = replicate (n - length s) c @ s"

definition pad_end :: "nat \<Rightarrow> char \<Rightarrow> string \<Rightarrow> string" where
  "pad_end n c s = s @ replicate (n - length s) c"

text \<open>
  \<open>toFixed(7)\<close> rounds the exact value of the double half up, on its absolute value; the part before the
  point keeps the sign and the part after it does not. From \<open>10 ^ 21\<close> on it has no point, and
  \<open>BigInt(undefined)\<close> throws: \<open>None\<close>.
\<close>

definition xlmToStroops :: "rat \<Rightarrow> int option" where
  "xlmToStroops xlm =
     (if 10 ^ 21 \<le> \<bar>xlm\<bar> then None
      else let n = \<lfloor>\<bar>xlm\<bar> * 10000000 + 1 / 2\<rfloor>;
               whole = n div STROOPS_PER_XLM; frac = n mod STROOPS_PER_XLM
           in Some ((if xlm < 0 then - whole else whole) * STROOPS_PER_XLM + frac))"

definition stroopsToXlm :: "int \<Rightarrow> string" where
  "stroopsToXlm stroops =
     (let whole = stroops sdiv STROOPS_PER_XLM; frac = stroops smod STROOPS_PER_XLM
      in int_text whole @ ''.'' @ pad_start 7 CHR ''0'' (int_text frac))"

text \<open>\<open>BigInt\<close> of a decimal text; its hexadecimal, octal and binary literals do not occur in amounts.\<close>

definition is_digit :: "char \<Rightarrow> bool" where
  "is_digit c = (let n = of_char c :: nat in 48 \<le> n \<and> n \<le> 57)"

definition digits_value :: "string \<Rightarrow> int" where
  "digits_value s = foldl (\<lambda>n c. 10 * n + (int (of_char c) - 48)) 0 s"

definition big_int :: "string \<Rightarrow> int option" where
  "big_int s = (if s = '''' then Some 0
     else if hd s = CHR ''-'' then if tl s \<noteq> '''' \<and> list_all is_digit (tl s) then Some (- digits_value (tl s)) else None
     else if list_all is_digit s then Some (digits_value s) else None)"

text \<open>The exact reading of an amount of the chain (\<open>services/reconciliation.ts\<close>); \<open>None\<close> is the \<open>SyntaxError\<close>.\<close>

definition xlmStringToStroops :: "string \<Rightarrow> int option" where
  "xlmStringToStroops amount =
     (let whole = takeWhile (\<lambda>c. c \<noteq> CHR ''.'') amount;
          frac = takeWhile (\<lambda>c. c \<noteq> CHR ''.'') (tl (dropWhile (\<lambda>c. c \<noteq> CHR ''.'') amount))
      in case big_int whole of None \<Rightarrow> None
         | Some w \<Rightarrow> (case big_int (take 7 (pad_end 7 CHR ''0'' frac)) of None \<Rightarrow> None
             | Some f \<Rightarrow> Some (w * 10000000 + f)))"

subsection \<open>Retries\<close>

definition PAY_MAX_RETRIES :: nat where
  "PAY_MAX_RETRIES = 5"

record horizon_error =
  he_message :: string
  he_transaction :: string

definition pay_isRetryable :: "horizon_error \<Rightarrow> bool" where
  "pay_isRetryable e \<longleftrightarrow> includes_text ''TIMEOUT'' (he_message e) \<or> includes_text ''TOO_MANY_REQUESTS'' (he_message e)
     \<or> includes_text ''504'' (he_message e) \<or> includes_text ''429'' (he_message e) \<or> he_transaction e = ''tx_too_late''"

datatype pay_error = HorizonUnavailable nat | HorizonFailed horizon_error | NoPaymentRecord string string
  | PaymentAlreadyReleased string string | HorizonCircuitOpen | PaymentExists | BadAmount

text \<open>\<open>fn k\<close> is what the attempt numbered \<open>k\<close> gives.\<close>

function retry_from :: "(nat \<Rightarrow> horizon_error + 'a) \<Rightarrow> nat \<Rightarrow> pay_error + 'a" where
  "retry_from fn attempt =
     (case fn attempt of
        Inr v \<Rightarrow> Inr v
      | Inl err \<Rightarrow>
          if \<not> pay_isRetryable err \<or> PAY_MAX_RETRIES \<le> attempt + 1
          then Inl (if pay_isRetryable err then HorizonUnavailable PAY_MAX_RETRIES else HorizonFailed err)
          else retry_from fn (attempt + 1))"
  by pat_completeness auto
termination by (relation "measure (\<lambda>(_, k). PAY_MAX_RETRIES - k)") auto

declare retry_from.simps [simp del]

definition withRetry :: "(nat \<Rightarrow> horizon_error + 'a) \<Rightarrow> pay_error + 'a" where
  "withRetry fn = retry_from fn 0"

subsection \<open>The service\<close>

datatype stellar_op = CreateClaimableBalance string "string list" | ClaimClaimableBalance string

record stellar_tx =
  tx_source :: string
  tx_op :: stellar_op
  tx_memo :: "string option"

record pay_state =
  ps_payments :: "payment list"
  ps_breaker :: breaker
  ps_submitted :: "stellar_tx list"

text \<open>What the chain and the clock do during one call.\<close>

record pay_env =
  pe_load :: "nat \<Rightarrow> horizon_error + unit"
  pe_submit :: "nat \<Rightarrow> horizon_error + string"
  pe_balanceId :: "stellar_tx \<Rightarrow> string"
  pe_now :: ms

definition guarded_call :: "ms \<Rightarrow> (nat \<Rightarrow> horizon_error + 'a) \<Rightarrow> pay_state \<Rightarrow> pay_state \<times> bool \<times> (pay_error + 'a)" where
  "guarded_call now fn s = (case cb_execute now now (withRetry fn) (ps_breaker s) of
     (b, es, Inr v) \<Rightarrow> (s\<lparr>ps_breaker := b\<rparr>, True, Inr v)
   | (b, es, Inl (Inl _)) \<Rightarrow> (s\<lparr>ps_breaker := b\<rparr>, False, Inl HorizonCircuitOpen)
   | (b, es, Inl (Inr err)) \<Rightarrow> (s\<lparr>ps_breaker := b\<rparr>, True, Inl err))"

text \<open>Loading the account and submitting: both behind the breaker, each with its retries.\<close>

definition submit_tx :: "pay_env \<Rightarrow> stellar_tx \<Rightarrow> pay_state \<Rightarrow> pay_state \<times> (pay_error + string)" where
  "submit_tx env tx s =
     (case guarded_call (pe_now env) (pe_load env) s of
        (s1, _, Inl err) \<Rightarrow> (s1, Inl err)
      | (s1, _, Inr _) \<Rightarrow>
          (case guarded_call (pe_now env) (pe_submit env) s1 of
             (s2, called, res) \<Rightarrow> (if called then s2\<lparr>ps_submitted := ps_submitted s2 @ [tx]\<rparr> else s2, res)))"

definition pay_lock :: "pay_env \<Rightarrow> string \<Rightarrow> string \<Rightarrow> string \<Rightarrow> string \<Rightarrow> rat \<Rightarrow> string option \<Rightarrow> pay_state
    \<Rightarrow> pay_state \<times> (pay_error + string)" where
  "pay_lock env taskId nodeId coordinator agent amountXLM memo s =
     (case xlmToStroops amountXLM of
        None \<Rightarrow> (s, Inl BadAmount)
      | Some amountStroops \<Rightarrow>
          (let tx = \<lparr> tx_source = coordinator, tx_op = CreateClaimableBalance (stroopsToXlm amountStroops) [agent, coordinator],
                      tx_memo = map_option (take 28) memo \<rparr>;
               balanceId = pe_balanceId env tx
           in case submit_tx env tx s of
                (s1, Inl err) \<Rightarrow> (s1, Inl err)
              | (s1, Inr _) \<Rightarrow>
                  (case insert_payment \<lparr> pm_taskId = taskId, pm_nodeId = nodeId, pm_balanceId = balanceId, pm_status = PayLocked,
                           pm_amountStroops = amountStroops, pm_txHash = None, pm_createdAt = Some (pe_now env),
                           pm_updatedAt = Some (pe_now env) \<rparr> (pe_now env) (ps_payments s1) of
                     None \<Rightarrow> (s1, Inl PaymentExists)
                   | Some db \<Rightarrow> (s1\<lparr>ps_payments := db\<rparr>, Inr balanceId))))"

definition claim_tx :: "string \<Rightarrow> payment \<Rightarrow> string option \<Rightarrow> stellar_tx" where
  "claim_tx coordinator p memo = \<lparr> tx_source = coordinator, tx_op = ClaimClaimableBalance (pm_balanceId p), tx_memo = memo \<rparr>"

text \<open>A text is truthy when it is there and not empty.\<close>

definition truthy :: "string option \<Rightarrow> bool" where
  "truthy t \<longleftrightarrow> t \<noteq> None \<and> t \<noteq> Some ''''"

definition pay_release :: "pay_env \<Rightarrow> string \<Rightarrow> string \<Rightarrow> string \<Rightarrow> string option \<Rightarrow> pay_state \<Rightarrow> pay_state \<times> (pay_error + string)" where
  "pay_release env taskId nodeId coordinator memo s =
     (case findByKey taskId nodeId (ps_payments s) of
        None \<Rightarrow> (s, Inl (NoPaymentRecord taskId nodeId))
      | Some p \<Rightarrow>
          if pm_status p = PayReleased \<and> truthy (pm_txHash p) then (s, Inr (the (pm_txHash p)))
          else (case submit_tx env (claim_tx coordinator p (map_option (take 28) memo)) s of
                  (s1, Inl err) \<Rightarrow> (s1, Inl err)
                | (s1, Inr txHash) \<Rightarrow>
                    (s1\<lparr>ps_payments := pay_updateStatus taskId nodeId PayReleased txHash (pe_now env) (ps_payments s1)\<rparr>, Inr txHash)))"

definition pay_refund :: "pay_env \<Rightarrow> string \<Rightarrow> string \<Rightarrow> string \<Rightarrow> pay_state \<Rightarrow> pay_state \<times> (pay_error + string)" where
  "pay_refund env taskId nodeId coordinator s =
     (case findByKey taskId nodeId (ps_payments s) of
        None \<Rightarrow> (s, Inl (NoPaymentRecord taskId nodeId))
      | Some p \<Rightarrow>
          if pm_status p = PayReleased then (s, Inl (PaymentAlreadyReleased taskId nodeId))
          else (case submit_tx env (claim_tx coordinator p None) s of
                  (s1, Inl err) \<Rightarrow> (s1, Inl err)
                | (s1, Inr txHash) \<Rightarrow>
                    (s1\<lparr>ps_payments := pay_updateStatus taskId nodeId PayRefunded txHash (pe_now env) (ps_payments s1)\<rparr>, Inr txHash)))"


subsection \<open>Amounts survive as text\<close>

lemma digit_char: "(d :: nat) < 10 \<Longrightarrow> is_digit (char_of (48 + d)) \<and> of_char (char_of (48 + d)) = 48 + d"
  by (simp add: is_digit_def Let_def)

lemma digits_value_snoc: "digits_value (s @ [c]) = 10 * digits_value s + (int (of_char c) - 48)"
  by (simp add: digits_value_def)

lemma nat_text_digits: "nat_text n \<noteq> '''' \<and> list_all is_digit (nat_text n) \<and> digits_value (nat_text n) = int n"
proof (induction n rule: nat_text.induct)
  case (1 n)
  show ?case
  proof (cases "n < 10")
    case True
    then show ?thesis using digit_char [OF True] by (subst (1 2 3) nat_text.simps) (simp add: digits_value_def)
  next
    case False
    have m: "n mod 10 < 10" by simp
    have n: "nat_text n = nat_text (n div 10) @ [char_of (48 + n mod 10)]" using False by (subst nat_text.simps) simp
    have "int n = 10 * int (n div 10) + int (n mod 10)" by presburger
    then show ?thesis using 1 [OF False] digit_char [OF m] by (simp add: n digits_value_snoc)
  qed
qed

lemma nat_text_length: "n < 10 ^ k \<Longrightarrow> 0 < k \<Longrightarrow> length (nat_text n) \<le> k"
proof (induction n arbitrary: k rule: nat_text.induct)
  case (1 n)
  show ?case
  proof (cases "n < 10")
    case True
    then show ?thesis using 1(3) by (subst nat_text.simps) simp
  next
    case False
    then obtain j where k: "k = Suc j" "0 < j" using 1(2,3) by (cases k; cases "k - 1") auto
    have "n div 10 < 10 ^ j" using 1(2) by (simp add: k(1) less_mult_imp_div_less)
    then have "length (nat_text (n div 10)) \<le> j" using 1(1) [OF False _ k(2)] by simp
    then show ?thesis using False by (subst nat_text.simps) (simp add: k(1))
  qed
qed

lemma digits_value_zeros: "digits_value (replicate n CHR ''0'' @ s) = digits_value s"
  by (induction n) (simp_all add: digits_value_def)

lemma digit_no_sign: "is_digit c \<Longrightarrow> c \<noteq> CHR ''-'' \<and> c \<noteq> CHR ''.''"
  by (auto simp: is_digit_def Let_def)

lemma big_int_digits: "s \<noteq> '''' \<Longrightarrow> list_all is_digit s \<Longrightarrow> big_int s = Some (digits_value s)"
  by (cases s) (auto simp: big_int_def dest: digit_no_sign)

lemma no_point: "list_all is_digit s \<Longrightarrow> takeWhile (\<lambda>c. c \<noteq> CHR ''.'') s = s \<and> dropWhile (\<lambda>c. c \<noteq> CHR ''.'') s = ''''"
  by (induction s) (auto dest: digit_no_sign)

lemma stroops_text: "0 \<le> n \<Longrightarrow> stroopsToXlm n
    = nat_text (nat (n div 10000000)) @ ''.'' @ replicate (7 - length (nat_text (nat (n mod 10000000)))) CHR ''0'' @ nat_text (nat (n mod 10000000))"
proof -
  assume n: "0 \<le> n"
  have "0 \<le> n div 10000000" "\<not> n mod 10000000 < 0" using n by (simp_all add: not_less)
  then show ?thesis using n
    by (simp add: stroopsToXlm_def STROOPS_PER_XLM_def int_text_def pad_start_def signed_divide_int_def signed_modulo_int_def sgn_if Let_def minus_div_mult_eq_mod)
qed

lemma stroops_roundtrip: "0 \<le> n \<Longrightarrow> xlmStringToStroops (stroopsToXlm n) = Some n"
proof -
  assume n: "0 \<le> n"
  define w f where "w = nat_text (nat (n div 10000000))" and "f = nat_text (nat (n mod 10000000))"
  define z where "z = replicate (7 - length f) CHR ''0''"
  have dw: "w \<noteq> ''''" "list_all is_digit w" "digits_value w = n div 10000000"
    using nat_text_digits [of "nat (n div 10000000)"] n by (simp_all add: w_def)
  have df: "f \<noteq> ''''" "list_all is_digit f" "digits_value f = n mod 10000000"
    using nat_text_digits [of "nat (n mod 10000000)"] n by (simp_all add: f_def)
  have "length f \<le> 7" unfolding f_def by (rule nat_text_length) simp_all
  then have len: "length (z @ f) = 7" by (simp add: z_def)
  have dz: "list_all is_digit (z @ f)" using df(2) by (auto simp: z_def list_all_iff is_digit_def Let_def)
  have shape: "stroopsToXlm n = w @ CHR ''.'' # z @ f" using stroops_text [OF n] by (simp add: w_def f_def z_def)
  have tw: "takeWhile (\<lambda>c. c \<noteq> CHR ''.'') (stroopsToXlm n) = w" "tl (dropWhile (\<lambda>c. c \<noteq> CHR ''.'') (stroopsToXlm n)) = z @ f"
    using no_point [OF dw(2)] by (simp_all add: shape takeWhile_append dropWhile_append)
  have whole: "takeWhile (\<lambda>c. c \<noteq> CHR ''.'') (z @ f) = z @ f" using no_point [OF dz] by blast
  have "take 7 (pad_end 7 CHR ''0'' (z @ f)) = z @ f" using len by (simp add: pad_end_def)
  moreover have "big_int (z @ f) = Some (n mod 10000000)"
    using big_int_digits [OF _ dz] df(1,3) digits_value_zeros [of "7 - length f" f] by (simp add: z_def)
  moreover have "n div 10000000 * 10000000 + n mod 10000000 = n" by presburger
  ultimately show ?thesis using big_int_digits [OF dw(1,2)] dw(3)
    unfolding xlmStringToStroops_def tw whole Let_def by simp
qed

lemma xlm_rounds: "0 \<le> x \<Longrightarrow> xlmToStroops x = Some n \<Longrightarrow> 0 \<le> n \<and> \<bar>of_int n - x * 10000000\<bar> \<le> 1 / 2"
proof -
  assume x: "0 \<le> x" and n: "xlmToStroops x = Some n"
  have "n = \<lfloor>x * 10000000 + 1 / 2\<rfloor>" using n x
    by (auto simp: xlmToStroops_def STROOPS_PER_XLM_def Let_def split: if_splits)
  then show ?thesis using x by (simp add: abs_if) linarith
qed

subsection \<open>Histories of the service\<close>

datatype pay_op = LockOp string string string string rat "string option" | ReleaseOp string string string "string option"
  | RefundOp string string string

fun pay_step :: "pay_env \<times> pay_op \<Rightarrow> pay_state \<Rightarrow> pay_state" where
  "pay_step (env, LockOp t n coordinator agent amount memo) s = fst (pay_lock env t n coordinator agent amount memo s)"
| "pay_step (env, ReleaseOp t n coordinator memo) s = fst (pay_release env t n coordinator memo s)"
| "pay_step (env, RefundOp t n coordinator) s = fst (pay_refund env t n coordinator s)"

definition pay_run :: "(pay_env \<times> pay_op) list \<Rightarrow> pay_state \<Rightarrow> pay_state" where
  "pay_run ops s = fold pay_step ops s"

text \<open>What the type of a payment promises: a hash exactly when it is settled, and both timestamps.\<close>

definition payment_typed :: "payment \<Rightarrow> bool" where
  "payment_typed p \<longleftrightarrow> pm_createdAt p \<noteq> None \<and> pm_updatedAt p \<noteq> None \<and> (isSettledPaymentStatus (pm_status p) \<longleftrightarrow> pm_txHash p \<noteq> None)"

definition payments_typed :: "payment list \<Rightarrow> bool" where
  "payments_typed db \<longleftrightarrow> distinct (map pay_key db) \<and> list_all payment_typed db"

text \<open>\<open>q\<close> is the payment \<open>p\<close> at a later time.\<close>

definition pay_later :: "payment \<Rightarrow> payment \<Rightarrow> bool" where
  "pay_later p q \<longleftrightarrow> pm_balanceId q = pm_balanceId p \<and> pm_amountStroops q = pm_amountStroops p \<and> pm_createdAt q = pm_createdAt p
     \<and> (pm_status q = PayLocked \<longrightarrow> q = p) \<and> (pm_status p = PayReleased \<longrightarrow> pm_status q = PayReleased)
     \<and> (pm_status p = PayReleased \<and> truthy (pm_txHash p) \<longrightarrow> q = p)"

definition table_later :: "payment list \<Rightarrow> payment list \<Rightarrow> bool" where
  "table_later db db' \<longleftrightarrow> (\<forall>k p. row_by pay_key k db = Some p \<longrightarrow> (\<exists>q. row_by pay_key k db' = Some q \<and> pay_later p q))"

lemma pay_later_refl: "pay_later p p"
  by (simp add: pay_later_def)

lemma pay_later_trans: "pay_later p q \<Longrightarrow> pay_later q r \<Longrightarrow> pay_later p r"
proof -
  assume pq: "pay_later p q" and qr: "pay_later q r"
  have "r = p" if "pm_status r = PayLocked" using that pq qr unfolding pay_later_def by metis
  moreover have "r = p" if "pm_status p = PayReleased \<and> truthy (pm_txHash p)" using that pq qr unfolding pay_later_def by metis
  moreover have "pm_status r = PayReleased" if "pm_status p = PayReleased" using that pq qr unfolding pay_later_def by metis
  moreover have "pm_balanceId r = pm_balanceId p" "pm_amountStroops r = pm_amountStroops p" "pm_createdAt r = pm_createdAt p"
    using pq qr unfolding pay_later_def by metis+
  ultimately show ?thesis unfolding pay_later_def by blast
qed

lemma table_later_refl: "table_later db db"
  using pay_later_refl by (auto simp: table_later_def)

lemma table_later_trans: "table_later a b \<Longrightarrow> table_later b c \<Longrightarrow> table_later a c"
  unfolding table_later_def using pay_later_trans by blast

lemma insert_later: "insert_payment p now db = Some db' \<Longrightarrow> table_later db db'"
  using pay_later_refl by (fastforce simp: insert_payment_def table_later_def row_by_append split: if_splits)

lemma insert_find: "insert_payment p now db = Some db' \<Longrightarrow> row_by pay_key (pay_key p) db = None
    \<and> row_by pay_key (pay_key p) db' = Some (p\<lparr>pm_createdAt := Some (or_else now (pm_createdAt p)), pm_updatedAt := Some (or_else now (pm_updatedAt p))\<rparr>)"
proof -
  have one: "row_by pay_key k [q] = (if pay_key q = k then Some q else None)" for k q by (simp add: row_by_def)
  show "insert_payment p now db = Some db' \<Longrightarrow> ?thesis"
    by (auto simp: insert_payment_def row_by_append one pay_key_def split: if_splits)
qed

lemma insert_typed: "insert_payment p now db = Some db' \<Longrightarrow> payments_typed db \<Longrightarrow> pm_status p = PayLocked \<Longrightarrow> pm_txHash p = None
    \<Longrightarrow> payments_typed db'"
  by (auto simp: insert_payment_def payments_typed_def payment_typed_def isSettledPaymentStatus_def row_by_None pay_key_def split: if_splits)

lemma set_status_key: "pay_key (set_pay_status st h now p) = pay_key p"
  by (simp add: set_pay_status_def pay_key_def)

lemma set_status_later: "st \<noteq> PayLocked \<Longrightarrow> \<not> (pm_status p = PayReleased \<and> truthy (pm_txHash p))
    \<Longrightarrow> pm_status p = PayReleased \<longrightarrow> st = PayReleased \<Longrightarrow> pay_later p (set_pay_status st h now p)"
  by (auto simp: pay_later_def set_pay_status_def)

lemma update_typed: "payments_typed db \<Longrightarrow> isSettledPaymentStatus st \<Longrightarrow> payments_typed (pay_updateStatus t n st h now db)"
proof -
  assume t: "payments_typed db" "isSettledPaymentStatus st"
  have "map pay_key (pay_updateStatus t n st h now db) = map pay_key db"
    unfolding pay_updateStatus_def by (rule sql_update_keys) (rule set_status_key)
  moreover have "list_all payment_typed (pay_updateStatus t n st h now db)"
    using t by (auto simp: payments_typed_def pay_updateStatus_def list_all_iff sql_update_rows payment_typed_def set_pay_status_def)
  ultimately show ?thesis using t by (simp add: payments_typed_def)
qed

lemma find_update: "findByKey t n (pay_updateStatus t n st h now db) = map_option (set_pay_status st h now) (findByKey t n db)"
  by (cases "row_by pay_key (t, n) db")
    (auto simp: findByKey_def pay_updateStatus_def sql_update_rows row_by_update set_status_key dest: row_by_Some)

lemma update_later:
  assumes "findByKey t n db = Some p" "\<not> (pm_status p = PayReleased \<and> truthy (pm_txHash p))" "st \<noteq> PayLocked"
    "pm_status p = PayReleased \<longrightarrow> st = PayReleased"
  shows "table_later db (pay_updateStatus t n st h now db)"
proof -
  have "pay_later q (if pay_key q = (t, n) then set_pay_status st h now q else q)" if "row_by pay_key k db = Some q" for k q
    using that assms row_by_Some [OF that] pay_later_refl by (auto simp: findByKey_def intro: set_status_later)
  then show ?thesis by (simp add: table_later_def pay_updateStatus_def sql_update_rows row_by_update set_status_key)
qed

subsection \<open>What a call changes\<close>

lemma guarded_call_frame: "guarded_call now fn s = (s1, c, r) \<Longrightarrow> (\<exists>b. s1 = s\<lparr>ps_breaker := b\<rparr>) \<and> (\<forall>v. r = Inr v \<longrightarrow> c)"
  by (auto simp: guarded_call_def split: prod.splits sum.splits)

lemma submit_frame: "submit_tx env tx s = (s1, r)
    \<Longrightarrow> ps_payments s1 = ps_payments s \<and> (ps_submitted s1 = ps_submitted s \<or> ps_submitted s1 = ps_submitted s @ [tx])"
  by (auto simp: submit_tx_def split: prod.splits sum.splits if_splits dest!: guarded_call_frame)


lemma submit_answered: "submit_tx env tx s = (s1, Inr h) \<Longrightarrow> ps_submitted s1 = ps_submitted s @ [tx]"
  by (auto simp: submit_tx_def split: prod.splits sum.splits if_splits dest!: guarded_call_frame)

lemma lock_cases:
  assumes "pay_lock env t n coordinator agent amount memo s = (s', r)"
  obtains "s' = s" "r = Inl BadAmount"
  | a e where "xlmToStroops amount = Some a" "r = Inl e" "ps_payments s' = ps_payments s"
  | a s1 h db tx where "xlmToStroops amount = Some a"
      "tx = \<lparr> tx_source = coordinator, tx_op = CreateClaimableBalance (stroopsToXlm a) [agent, coordinator], tx_memo = map_option (take 28) memo \<rparr>"
      "submit_tx env tx s = (s1, Inr h)" "r = Inr (pe_balanceId env tx)" "s' = s1\<lparr>ps_payments := db\<rparr>"
      "insert_payment \<lparr> pm_taskId = t, pm_nodeId = n, pm_balanceId = pe_balanceId env tx, pm_status = PayLocked, pm_amountStroops = a,
         pm_txHash = None, pm_createdAt = Some (pe_now env), pm_updatedAt = Some (pe_now env) \<rparr> (pe_now env) (ps_payments s) = Some db"
  using assms
  by (auto simp: pay_lock_def Let_def split: option.splits prod.splits sum.splits dest: submit_frame) (metis submit_frame)+

text \<open>The outcomes of a release and of a refund.\<close>

lemma release_cases:
  assumes "pay_release env t n coordinator memo s = (s', r)"
  obtains "s' = s" "\<not> (\<exists>h. r = Inr h)"
  | p where "findByKey t n (ps_payments s) = Some p" "pm_status p = PayReleased" "truthy (pm_txHash p)" "s' = s" "r = Inr (the (pm_txHash p))"
  | e where "r = Inl e" "ps_payments s' = ps_payments s"
  | p s1 h where "findByKey t n (ps_payments s) = Some p" "\<not> (pm_status p = PayReleased \<and> truthy (pm_txHash p))"
      "submit_tx env (claim_tx coordinator p (map_option (take 28) memo)) s = (s1, Inr h)" "r = Inr h"
      "s' = s1\<lparr>ps_payments := pay_updateStatus t n PayReleased h (pe_now env) (ps_payments s)\<rparr>"
proof (cases "findByKey t n (ps_payments s)")
  case None
  then show ?thesis using assms that(1) by (auto simp: pay_release_def)
next
  case (Some p)
  show ?thesis
  proof (cases "pm_status p = PayReleased \<and> truthy (pm_txHash p)")
    case True
    then show ?thesis using assms that(2) [OF Some] by (auto simp: pay_release_def Some)
  next
    case False
    obtain s1 q where sub: "submit_tx env (claim_tx coordinator p (map_option (take 28) memo)) s = (s1, q)" by fastforce
    show ?thesis
    proof (cases q)
      case (Inl e)
      then show ?thesis using assms that(3) submit_frame [OF sub] False by (auto simp: pay_release_def Some sub)
    next
      case (Inr h)
      have same: "ps_payments s1 = ps_payments s" using submit_frame [OF sub] by simp
      have "r = Inr h" "s' = s1\<lparr>ps_payments := pay_updateStatus t n PayReleased h (pe_now env) (ps_payments s)\<rparr>"
        using assms False by (auto simp: pay_release_def Some sub Inr same)
      then show ?thesis using that(4) [OF Some False sub [unfolded Inr]] by blast
    qed
  qed
qed

lemma refund_cases:
  assumes "pay_refund env t n coordinator s = (s', r)"
  obtains e where "r = Inl e" "ps_payments s' = ps_payments s"
  | p s1 h where "findByKey t n (ps_payments s) = Some p" "pm_status p \<noteq> PayReleased"
      "submit_tx env (claim_tx coordinator p None) s = (s1, Inr h)" "r = Inr h"
      "s' = s1\<lparr>ps_payments := pay_updateStatus t n PayRefunded h (pe_now env) (ps_payments s)\<rparr>"
proof (cases "findByKey t n (ps_payments s)")
  case None
  then show ?thesis using assms that(1) by (auto simp: pay_refund_def)
next
  case (Some p)
  show ?thesis
  proof (cases "pm_status p = PayReleased")
    case True
    then show ?thesis using assms that(1) by (auto simp: pay_refund_def Some)
  next
    case False
    obtain s1 q where sub: "submit_tx env (claim_tx coordinator p None) s = (s1, q)" by fastforce
    show ?thesis
    proof (cases q)
      case (Inl e)
      then show ?thesis using assms that(1) submit_frame [OF sub] False by (auto simp: pay_refund_def Some sub)
    next
      case (Inr h)
      have same: "ps_payments s1 = ps_payments s" using submit_frame [OF sub] by simp
      have "r = Inr h" "s' = s1\<lparr>ps_payments := pay_updateStatus t n PayRefunded h (pe_now env) (ps_payments s)\<rparr>"
        using assms False by (auto simp: pay_refund_def Some sub Inr same)
      then show ?thesis using that(2) [OF Some False sub [unfolded Inr]] by blast
    qed
  qed
qed

lemma pay_step_later: "payments_typed (ps_payments s)
    \<Longrightarrow> payments_typed (ps_payments (pay_step (env, op) s)) \<and> table_later (ps_payments s) (ps_payments (pay_step (env, op) s))"
proof (cases op)
  case (LockOp t n c a x m)
  assume typed: "payments_typed (ps_payments s)"
  obtain s' r where "pay_lock env t n c a x m s = (s', r)" by fastforce
  then show ?thesis
    by (cases rule: lock_cases) (use typed in \<open>simp_all add: LockOp \<open>pay_lock env t n c a x m s = (s', r)\<close> table_later_refl
        insert_typed insert_later\<close>)
next
  case (ReleaseOp t n c m)
  assume typed: "payments_typed (ps_payments s)"
  obtain s' r where rel: "pay_release env t n c m s = (s', r)" by fastforce
  then show ?thesis
    by (cases rule: release_cases) (use typed in \<open>simp_all add: ReleaseOp rel table_later_refl update_typed update_later
        isSettledPaymentStatus_def\<close>)
next
  case (RefundOp t n c)
  assume typed: "payments_typed (ps_payments s)"
  obtain s' r where rel: "pay_refund env t n c s = (s', r)" by fastforce
  then show ?thesis
    by (cases rule: refund_cases) (use typed in \<open>simp_all add: RefundOp rel table_later_refl update_typed update_later
        isSettledPaymentStatus_def\<close>)
qed

lemma pay_run_later: "payments_typed (ps_payments s)
    \<Longrightarrow> payments_typed (ps_payments (pay_run ops s)) \<and> table_later (ps_payments s) (ps_payments (pay_run ops s))"
proof (induction ops arbitrary: s)
  case Nil
  then show ?case by (simp add: pay_run_def table_later_refl)
next
  case (Cons x ops)
  obtain env op where x: "x = (env, op)" by fastforce
  note st = pay_step_later [OF Cons.prems, of env op]
  show ?case using Cons.IH [of "pay_step x s"] st table_later_trans unfolding x by (auto simp: pay_run_def)
qed



text \<open>
  What is recorded is what was escrowed. A lock that gives a balance id submitted exactly one
  transaction, whose amount, read back from its text, is the amount of the new row; it is within half
  a stroop of the amount asked for; and before the lock there was no row of that task and node.
\<close>

theorem lock_escrows_recorded_amount:
  assumes "0 \<le> amount" "pay_lock env t n coordinator agent amount memo s = (s', Inr b)"
  shows "\<exists>tx a p. ps_submitted s' = ps_submitted s @ [tx] \<and> tx_op tx = CreateClaimableBalance a [agent, coordinator]
    \<and> findByKey t n (ps_payments s) = None \<and> findByKey t n (ps_payments s') = Some p
    \<and> xlmStringToStroops a = Some (pm_amountStroops p) \<and> \<bar>of_int (pm_amountStroops p) - amount * 10000000\<bar> \<le> 1 / 2
    \<and> pm_balanceId p = b \<and> b = pe_balanceId env tx \<and> pm_status p = PayLocked"
  using assms(2)
proof (cases rule: lock_cases)
  case (3 a s1 h db tx)
  note ra = xlm_rounds [OF assms(1) 3(1)]
  have sub: "ps_submitted s' = ps_submitted s @ [tx]" using submit_answered [OF 3(3)] 3(5) by simp
  obtain p where p: "findByKey t n db = Some p" "findByKey t n (ps_payments s) = None" "pm_amountStroops p = a"
      "pm_balanceId p = b" "pm_status p = PayLocked"
    using insert_find [OF 3(6)] 3(4) by (auto simp: findByKey_def pay_key_def)
  have "xlmStringToStroops (stroopsToXlm a) = Some (pm_amountStroops p)" using stroops_roundtrip ra p(3) by simp
  moreover have "tx_op tx = CreateClaimableBalance (stroopsToXlm a) [agent, coordinator]" using 3(2) by simp
  moreover have "b = pe_balanceId env tx" using 3(4) by simp
  ultimately show ?thesis using sub p ra 3(5) by (intro exI [of _ tx] exI [of _ "stroopsToXlm a"] exI [of _ p]) simp
qed auto

text \<open>A chain that answers, behind a closed breaker.\<close>

lemma submit_calm:
  assumes "cb_state (ps_breaker s) = CLOSED" "pe_load env 0 = Inr ()" "pe_submit env 0 = Inr h"
  shows "\<exists>b. cb_state b = CLOSED \<and> (\<forall>tx. submit_tx env tx s = (s\<lparr>ps_breaker := b, ps_submitted := ps_submitted s @ [tx]\<rparr>, Inr h))"
proof -
  have retry: "withRetry fn = Inr v" if "fn 0 = Inr v" for fn v
    unfolding withRetry_def by (subst retry_from.simps) (simp add: that)
  have call: "\<exists>b. guarded_call now fn st = (st\<lparr>ps_breaker := b\<rparr>, True, Inr v) \<and> cb_state b = CLOSED"
    if "fn 0 = Inr v" "cb_state (ps_breaker st) = CLOSED" for fn v st now
    by (intro exI [of _ "(ps_breaker st)\<lparr>cb_failures := 0, cb_lastSuccessAt := Some now, cb_state := CLOSED\<rparr>"])
      (use that in \<open>simp add: guarded_call_def retry [of fn v] cb_execute_def cb_ops\<close>)
  obtain b1 where b1: "guarded_call (pe_now env) (pe_load env) s = (s\<lparr>ps_breaker := b1\<rparr>, True, Inr ())" "cb_state b1 = CLOSED"
    using call [of "pe_load env" "()" s "pe_now env"] assms(1,2) by blast
  obtain b2 where b2: "guarded_call (pe_now env) (pe_submit env) (s\<lparr>ps_breaker := b1\<rparr>) = (s\<lparr>ps_breaker := b1, ps_breaker := b2\<rparr>, True, Inr h)"
      "cb_state b2 = CLOSED"
    using call [of "pe_submit env" h "s\<lparr>ps_breaker := b1\<rparr>" "pe_now env"] assms(3) b1(2) by auto
  show ?thesis by (intro exI [of _ b2]) (use b1 b2 in \<open>simp add: submit_tx_def\<close>)
qed

text \<open>
  A second lock strands an escrow. When the chain answers, a lock for a task and node that has a
  row already still creates the claimable balance; only then does the primary key refuse the row, so
  that the call fails and nothing recorded carries the balance that now holds the amount.
\<close>

theorem duplicate_lock_strands_escrow:
  assumes "findByKey t n (ps_payments s) = Some p" "xlmToStroops amount = Some a"
    and "cb_state (ps_breaker s) = CLOSED" "pe_load env 0 = Inr ()" "pe_submit env 0 = Inr h"
  shows "\<exists>s' tx. pay_lock env t n coordinator agent amount memo s = (s', Inl PaymentExists)
    \<and> ps_submitted s' = ps_submitted s @ [tx] \<and> tx_op tx = CreateClaimableBalance (stroopsToXlm a) [agent, coordinator]
    \<and> ps_payments s' = ps_payments s"
proof -
  obtain b where "\<forall>tx. submit_tx env tx s = (s\<lparr>ps_breaker := b, ps_submitted := ps_submitted s @ [tx]\<rparr>, Inr h)"
    using submit_calm [OF assms(3-5)] by blast
  moreover have "pay_key \<lparr> pm_taskId = t, pm_nodeId = n, pm_balanceId = bal, pm_status = PayLocked, pm_amountStroops = a,
      pm_txHash = None, pm_createdAt = c, pm_updatedAt = c \<rparr> = (t, n)" for bal c by (simp add: pay_key_def)
  ultimately show ?thesis using assms(1,2) by (simp add: pay_lock_def Let_def insert_payment_def findByKey_def)
qed

text \<open>
  A release is a refund. For a locked payment both submit the claim of the same balance in the
  coordinator's own name: with no trace id the two transactions are equal, and either way it is the
  account of the coordinator that claims the escrow, never the agent's.
\<close>

theorem release_claims_for_coordinator:
  assumes "findByKey t n (ps_payments s) = Some p" "pm_status p = PayLocked"
    and "pay_release env t n coordinator memo s = (s1, Inr h)"
  shows "\<exists>tx. ps_submitted s1 = ps_submitted s @ [tx] \<and> tx_source tx = coordinator \<and> tx_op tx = ClaimClaimableBalance (pm_balanceId p)
    \<and> (memo = None \<longrightarrow> (\<exists>s2. pay_refund env t n coordinator s = (s2, Inr h) \<and> ps_submitted s2 = ps_submitted s @ [tx]))"
  using assms(3)
proof (cases rule: release_cases)
  case (4 p' s2 h')
  note sub = submit_answered [OF 4(3)]
  have p: "p' = p" "h' = h" using 4(1,4) assms(1) by auto
  let ?tx = "claim_tx coordinator p (map_option (take 28) memo)"
  have "pay_refund env t n coordinator s = (s2\<lparr>ps_payments := pay_updateStatus t n PayRefunded h (pe_now env) (ps_payments s2)\<rparr>, Inr h)"
    if "memo = None" using 4(3) assms(1,2) that by (simp add: pay_refund_def p)
  moreover have "ps_submitted s1 = ps_submitted s @ [?tx]" "ps_submitted s2 = ps_submitted s @ [?tx]"
    using sub 4(5) by (simp_all add: p)
  moreover have "tx_source ?tx = coordinator" "tx_op ?tx = ClaimClaimableBalance (pm_balanceId p)" by (simp_all add: claim_tx_def)
  ultimately show ?thesis by (intro exI [of _ ?tx]) simp
qed (use assms in auto)

subsection \<open>Concrete histories\<close>

definition calm_env :: "string \<Rightarrow> pay_env" where
  "calm_env h = \<lparr> pe_load = (\<lambda>_. Inr ()), pe_submit = (\<lambda>_. Inr h), pe_balanceId = (\<lambda>tx. ''B'' @ or_else '''' (tx_memo tx)), pe_now = 5 \<rparr>"

definition horizon_options :: breaker_options where
  "horizon_options = \<lparr> opt_name = ''stellar-horizon'', opt_failureThreshold = Some 3, opt_recoveryTimeoutMs = Some 60000 \<rparr>"

definition new_pay :: pay_state where
  "new_pay = \<lparr> ps_payments = [], ps_breaker = new_breaker horizon_options, ps_submitted = [] \<rparr>"

definition one_locked :: pay_state where
  "one_locked = fst (pay_lock (calm_env ''h1'') ''t'' ''n'' ''C'' ''A'' (5 / 2) None new_pay)"

definition the_payment :: payment where
  "the_payment = \<lparr> pm_taskId = ''t'', pm_nodeId = ''n'', pm_balanceId = ''B'', pm_status = PayLocked, pm_amountStroops = 25000000,
     pm_txHash = None, pm_createdAt = Some 5, pm_updatedAt = Some 5 \<rparr>"

lemma calm_retry: "withRetry (\<lambda>_. Inr v) = Inr v"
  unfolding withRetry_def by (subst retry_from.simps) simp

lemmas pay_eval = calm_env_def guarded_call_def calm_retry cb_execute_def cb_ops submit_tx_def new_pay_def horizon_options_def new_breaker_def

lemma xlm_five_halves: "xlmToStroops (5 / 2) = Some 25000000"
  by (simp add: xlmToStroops_def STROOPS_PER_XLM_def floor_eq_iff)

lemma one_locked_payments: "ps_payments one_locked = [the_payment]" "cb_state (ps_breaker one_locked) = CLOSED"
    "pay_lock (calm_env ''h1'') ''t'' ''n'' ''C'' ''A'' (5 / 2) None new_pay = (one_locked, Inr ''B'')"
  by (simp_all add: one_locked_def pay_lock_def xlm_five_halves pay_eval insert_payment_def the_payment_def row_by_def)

lemma one_locked_find: "findByKey ''t'' ''n'' (ps_payments one_locked) = Some the_payment"
  by (simp add: one_locked_payments findByKey_def row_by_def the_payment_def pay_key_def)

lemma one_locked_release: "\<exists>s1. pay_release (calm_env ''h2'') ''t'' ''n'' ''C'' None one_locked = (s1, Inr ''h2'')"
  by (simp add: pay_release_def one_locked_find) (simp add: the_payment_def submit_tx_def guarded_call_def calm_env_def calm_retry cb_execute_def cb_ops
      one_locked_payments(2))

lemma one_locked_typed: "payments_typed (ps_payments one_locked)"
  by (simp add: one_locked_payments payments_typed_def payment_typed_def the_payment_def isSettledPaymentStatus_def)



theorem lock_escrows_recorded_amount_witness:
  "\<exists>p. findByKey ''t'' ''n'' (ps_payments one_locked) = Some p \<and> \<bar>of_int (pm_amountStroops p) - (5 / 2 :: rat) * 10000000\<bar> \<le> 1 / 2"
  using lock_escrows_recorded_amount [OF _ one_locked_payments(3)] by auto

theorem duplicate_lock_strands_escrow_witness:
  "\<exists>s'. pay_lock (calm_env ''h2'') ''t'' ''n'' ''C'' ''A'' (5 / 2) None one_locked = (s', Inl PaymentExists)
    \<and> length (ps_submitted s') = Suc (length (ps_submitted one_locked))"
proof -
  have env: "pe_load (calm_env ''h2'') 0 = Inr ()" "pe_submit (calm_env ''h2'') 0 = Inr ''h2''" by (simp_all add: calm_env_def)
  show ?thesis
    using duplicate_lock_strands_escrow [OF one_locked_find xlm_five_halves one_locked_payments(2) env, of "''C''" "''A''" None] by fastforce
qed

theorem release_claims_for_coordinator_witness:
  "\<exists>s1 tx. pay_release (calm_env ''h2'') ''t'' ''n'' ''C'' None one_locked = (s1, Inr ''h2'')
    \<and> ps_submitted s1 = ps_submitted one_locked @ [tx] \<and> tx_source tx = ''C''"
proof -
  obtain s1 where s1: "pay_release (calm_env ''h2'') ''t'' ''n'' ''C'' None one_locked = (s1, Inr ''h2'')" using one_locked_release by blast
  have "pm_status the_payment = PayLocked" by (simp add: the_payment_def)
  from release_claims_for_coordinator [OF one_locked_find this s1] s1 show ?thesis by blast
qed

end
