(* ===== verification/PaymentDrift.thy ===== *)
theory PaymentDrift
  imports Payments
begin

text \<open>
  The detection of payment drift: \<open>backend/src/services/reconciliation.drift.ts\<close>, the resolver of
  release transactions of \<open>services/reconciliation.ts\<close> and the alert levels of
  \<open>services/reconciliation.alerts.ts\<close>. Amounts from the chain are texts, as in the source; \<open>BigInt\<close>
  of a text that is no number throws. The descriptions, texts for people, are left out.
\<close>

subsection \<open>Data\<close>

datatype drift_type = OrphanedLocked | MissingReleaseTx | ReleaseUnconfirmed | ExpiredEscrow | MissingLocal | AmountMismatch

definition DRIFT_TYPES :: "drift_type list" where
  "DRIFT_TYPES = [OrphanedLocked, MissingReleaseTx, ReleaseUnconfirmed, ExpiredEscrow, MissingLocal, AmountMismatch]"

datatype discrepancy_type = DMissingOnChain | DMissingLocal | DAmountMismatch | DMissingReleaseTx | DReleaseUnconfirmed

datatype discrepancy_severity = SevInfo | SevWarning | SevCritical

datatype remediation_action = MarkOrphaned | BackfillTxHash | RequeueRelease | RefundEscrow | ManualReview

datatype remediation_status = Remediated | RemSkipped | RemFailed | NeedsReview

record remediation =
  rm_action :: remediation_action
  rm_status :: remediation_status
  rm_txHash :: "string option"
  rm_at :: ms

record chain_balance =
  ob_balanceId :: string
  ob_amountStroops :: string

record claim_transaction =
  ct_hash :: string
  ct_successful :: bool

record discrepancy =
  d_type :: discrepancy_type
  d_driftType :: drift_type
  d_balanceId :: string
  d_taskId :: "string option"
  d_nodeId :: "string option"
  d_severity :: discrepancy_severity
  d_localAmountStroops :: "string option"
  d_onChainAmountStroops :: "string option"
  d_expectedAmountStroops :: "string option"
  d_recordedTxHash :: "string option"
  d_onChainTxHash :: "string option"
  d_taskStatus :: "string option"
  d_remediation :: "remediation option"

record task_state =
  ts_status :: string
  ts_updatedAt :: "ms option"

record release_verification =
  rv_recordedTxHash :: "string option"
  rv_onChainTx :: "claim_transaction option"

definition recordKey :: "payment \<Rightarrow> string" where
  "recordKey p = pm_taskId p @ '':'' @ pm_nodeId p"

subsection \<open>The detectors\<close>

definition isTerminalUnsuccessful :: "string option \<Rightarrow> bool" where
  "isTerminalUnsuccessful status \<longleftrightarrow> truthy status
     \<and> map lower_char (the status) \<in> {''failed'', ''cancelled'', ''canceled''}"

text \<open>Timestamps that do not parse are \<open>None\<close>.\<close>

definition paymentAgeMs :: "payment \<Rightarrow> task_state option \<Rightarrow> ms \<Rightarrow> ms option" where
  "paymentAgeMs record task now =
     (case pm_createdAt record of
        Some c \<Rightarrow> Some (max 0 (now - c))
      | None \<Rightarrow> (case Option.bind task ts_updatedAt of Some u \<Rightarrow> Some (max 0 (now - u)) | None \<Rightarrow> None))"

definition isEscrowExpired :: "ms option \<Rightarrow> ms \<Rightarrow> bool" where
  "isEscrowExpired ageMs expiryMs =
     (if expiryMs \<le> 0 then True else case ageMs of None \<Rightarrow> True | Some a \<Rightarrow> expiryMs \<le> a)"

definition of_record :: "payment \<Rightarrow> discrepancy_type \<Rightarrow> drift_type \<Rightarrow> discrepancy_severity \<Rightarrow> discrepancy" where
  "of_record record t dt sev =
     \<lparr> d_type = t, d_driftType = dt, d_balanceId = pm_balanceId record, d_taskId = Some (pm_taskId record),
       d_nodeId = Some (pm_nodeId record), d_severity = sev, d_localAmountStroops = Some (int_text (pm_amountStroops record)),
       d_onChainAmountStroops = None, d_expectedAmountStroops = None, d_recordedTxHash = None, d_onChainTxHash = None,
       d_taskStatus = None, d_remediation = None \<rparr>"

definition detectOrphanedLock :: "payment \<Rightarrow> discrepancy" where
  "detectOrphanedLock record = of_record record DMissingOnChain OrphanedLocked SevCritical"

definition detectMissingReleaseTx :: "payment \<Rightarrow> release_verification \<Rightarrow> chain_balance option \<Rightarrow> discrepancy option" where
  "detectMissingReleaseTx record verification onChain =
     (if onChain \<noteq> None then None
      else let realHash = map_option ct_hash (rv_onChainTx verification)
           in if truthy realHash \<and> realHash = rv_recordedTxHash verification then None
              else Some ((of_record record DMissingReleaseTx MissingReleaseTx SevCritical)
                     \<lparr>d_recordedTxHash := rv_recordedTxHash verification, d_onChainTxHash := realHash\<rparr>))"

definition detectUnconfirmedRelease :: "payment \<Rightarrow> chain_balance \<Rightarrow> discrepancy" where
  "detectUnconfirmedRelease record onChain = (of_record record DReleaseUnconfirmed ReleaseUnconfirmed SevCritical)
     \<lparr>d_onChainAmountStroops := Some (ob_amountStroops onChain), d_expectedAmountStroops := Some ''0'',
      d_recordedTxHash := pm_txHash record\<rparr>"

definition detectExpiredEscrow :: "payment \<Rightarrow> chain_balance \<Rightarrow> task_state option \<Rightarrow> discrepancy" where
  "detectExpiredEscrow record onChain task = (of_record record DMissingOnChain ExpiredEscrow SevWarning)
     \<lparr>d_onChainAmountStroops := Some (ob_amountStroops onChain),
      d_expectedAmountStroops := Some (int_text (pm_amountStroops record)), d_taskStatus := map_option ts_status task\<rparr>"

definition detectMissingLocal :: "chain_balance \<Rightarrow> discrepancy" where
  "detectMissingLocal balance =
     \<lparr> d_type = DMissingLocal, d_driftType = MissingLocal, d_balanceId = ob_balanceId balance, d_taskId = None, d_nodeId = None,
       d_severity = SevWarning, d_localAmountStroops = None, d_onChainAmountStroops = Some (ob_amountStroops balance),
       d_expectedAmountStroops = None, d_recordedTxHash = None, d_onChainTxHash = None, d_taskStatus = None,
       d_remediation = None \<rparr>"

definition detectAmountMismatch :: "payment \<Rightarrow> chain_balance \<Rightarrow> int \<Rightarrow> discrepancy" where
  "detectAmountMismatch record onChain expectedStroops =
     (of_record record DAmountMismatch AmountMismatch (if pm_status record = PayLocked then SevCritical else SevWarning))
       \<lparr>d_onChainAmountStroops := Some (ob_amountStroops onChain), d_expectedAmountStroops := Some (int_text expectedStroops)\<rparr>"

subsection \<open>Planning\<close>

record remediation_plan =
  rp_discrepancy :: discrepancy
  rp_action :: remediation_action
  rp_automatic :: bool

definition planRemediation :: "discrepancy \<Rightarrow> remediation_plan" where
  "planRemediation d =
     (case d_driftType d of
        OrphanedLocked \<Rightarrow> \<lparr> rp_discrepancy = d, rp_action = MarkOrphaned, rp_automatic = True \<rparr>
      | MissingReleaseTx \<Rightarrow> \<lparr> rp_discrepancy = d, rp_action = if truthy (d_onChainTxHash d) then BackfillTxHash else ManualReview,
                             rp_automatic = truthy (d_onChainTxHash d) \<rparr>
      | ExpiredEscrow \<Rightarrow> \<lparr> rp_discrepancy = d, rp_action = RefundEscrow, rp_automatic = True \<rparr>
      | ReleaseUnconfirmed \<Rightarrow> \<lparr> rp_discrepancy = d, rp_action = RequeueRelease, rp_automatic = True \<rparr>
      | _ \<Rightarrow> \<lparr> rp_discrepancy = d, rp_action = ManualReview, rp_automatic = False \<rparr>)"

subsection \<open>A detection pass\<close>

record drift_options =
  do_escrowExpiryMs :: ms
  do_now :: ms
  do_taskState :: "string \<Rightarrow> task_state option"

text \<open>What the loop has gathered.\<close>

record drift_scan =
  dsc_localIds :: "string set"
  dsc_matchedIds :: "string set"
  dsc_found :: "discrepancy list"
  dsc_verified :: nat
  dsc_unverified :: nat

record drift_result =
  dr_discrepancies :: "discrepancy list"
  dr_matched :: nat
  dr_releaseVerified :: nat
  dr_releaseUnverified :: nat

definition balance_map :: "chain_balance list \<Rightarrow> (string, chain_balance) jsmap" where
  "balance_map bs = foldl (\<lambda>m b. jm_set m (ob_balanceId b) b) [] bs"

text \<open>\<open>releaseVerifications?.get\<close>.\<close>

definition verification_of :: "(string, release_verification) jsmap option \<Rightarrow> payment \<Rightarrow> release_verification option" where
  "verification_of verifications r = Option.bind verifications (\<lambda>m. jm_get m (recordKey r))"

text \<open>One record; \<open>None\<close> is the \<open>SyntaxError\<close> of \<open>BigInt\<close>.\<close>

definition drift_step :: "(string, chain_balance) jsmap \<Rightarrow> drift_options \<Rightarrow> (string, release_verification) jsmap option
    \<Rightarrow> payment \<Rightarrow> drift_scan \<Rightarrow> drift_scan option" where
  "drift_step chain opts verifications record sc0 =
     (let sc = sc0\<lparr>dsc_localIds := insert (pm_balanceId record) (dsc_localIds sc0)\<rparr>;
          onChain = jm_get chain (pm_balanceId record)
      in if isSettledPaymentStatus (pm_status record) then
           (case onChain of
              Some b \<Rightarrow> Some (sc\<lparr>dsc_found := dsc_found sc @ [detectUnconfirmedRelease record b], dsc_unverified := dsc_unverified sc + 1\<rparr>)
            | None \<Rightarrow>
                if pm_status record = PayReleased then
                  (case verification_of verifications record of
                     Some v \<Rightarrow>
                       (case detectMissingReleaseTx record v None of
                          Some d \<Rightarrow> Some (sc\<lparr>dsc_found := dsc_found sc @ [d], dsc_unverified := dsc_unverified sc + 1\<rparr>)
                        | None \<Rightarrow> Some (sc\<lparr>dsc_verified := dsc_verified sc + 1\<rparr>))
                   | None \<Rightarrow> Some (sc\<lparr>dsc_verified := dsc_verified sc + 1\<rparr>))
                else Some sc)
         else
           (case onChain of
              None \<Rightarrow> Some (sc\<lparr>dsc_found := dsc_found sc @ [detectOrphanedLock record]\<rparr>)
            | Some b \<Rightarrow>
                (let sc' = sc\<lparr>dsc_matchedIds := insert (pm_balanceId record) (dsc_matchedIds sc)\<rparr>;
                     task = do_taskState opts (pm_taskId record)
                 in if isTerminalUnsuccessful (map_option ts_status task)
                       \<and> isEscrowExpired (paymentAgeMs record task (do_now opts)) (do_escrowExpiryMs opts)
                    then Some (sc'\<lparr>dsc_found := dsc_found sc' @ [detectExpiredEscrow record b task]\<rparr>)
                    else (case big_int (ob_amountStroops b) of
                            None \<Rightarrow> None
                          | Some onChainStroops \<Rightarrow>
                              if pm_amountStroops record \<noteq> onChainStroops
                              then Some (sc'\<lparr>dsc_found := dsc_found sc' @ [detectAmountMismatch record b (pm_amountStroops record)]\<rparr>)
                              else Some sc'))))"

fun drift_loop :: "(string, chain_balance) jsmap \<Rightarrow> drift_options \<Rightarrow> (string, release_verification) jsmap option
    \<Rightarrow> payment list \<Rightarrow> drift_scan \<Rightarrow> drift_scan option" where
  "drift_loop chain opts verifications [] sc = Some sc"
| "drift_loop chain opts verifications (r # rs) sc =
     (case drift_step chain opts verifications r sc of None \<Rightarrow> None | Some sc' \<Rightarrow> drift_loop chain opts verifications rs sc')"

definition detectPaymentDrift :: "payment list \<Rightarrow> chain_balance list \<Rightarrow> drift_options \<Rightarrow> (string, release_verification) jsmap option
    \<Rightarrow> drift_result option" where
  "detectPaymentDrift localRecords onChainBalances opts verifications =
     (case drift_loop (balance_map onChainBalances) opts verifications localRecords
             \<lparr> dsc_localIds = {}, dsc_matchedIds = {}, dsc_found = [], dsc_verified = 0, dsc_unverified = 0 \<rparr> of
        None \<Rightarrow> None
      | Some sc \<Rightarrow> Some \<lparr> dr_discrepancies = dsc_found sc @ map detectMissingLocal
                            (filter (\<lambda>b. ob_balanceId b \<notin> dsc_localIds sc) onChainBalances),
                        dr_matched = card (dsc_matchedIds sc), dr_releaseVerified = dsc_verified sc,
                        dr_releaseUnverified = dsc_unverified sc \<rparr>)"

subsection \<open>What the chain is asked\<close>

text \<open>A claimable balance as Horizon writes it; the amount may be missing.\<close>

record horizon_balance =
  hb_id :: string
  hb_amount :: "string option"

definition LIST_BALANCES_MAX_PAGES :: nat where
  "LIST_BALANCES_MAX_PAGES = 10"

definition mapClaimableBalanceRecord :: "horizon_balance \<Rightarrow> chain_balance option" where
  "mapClaimableBalanceRecord r = map_option (\<lambda>n. \<lparr> ob_balanceId = hb_id r, ob_amountStroops = int_text n \<rparr>)
     (xlmStringToStroops (or_else ''0'' (hb_amount r)))"

text \<open>The inner loop; \<open>False\<close> when a record throws.\<close>

fun push_balances :: "horizon_balance list \<Rightarrow> chain_balance list \<Rightarrow> chain_balance list \<times> bool" where
  "push_balances [] out = (out, True)"
| "push_balances (r # rs) out = (case mapClaimableBalanceRecord r of None \<Rightarrow> (out, False) | Some b \<Rightarrow> push_balances rs (out @ [b]))"

text \<open>
  \<open>fetch k\<close> is the page numbered \<open>k\<close>, \<open>None\<close> when the request fails; \<open>n\<close> counts the pages that may
  still be read. Every exception ends the loop with what there is.
\<close>

fun balance_pages :: "(nat \<Rightarrow> horizon_balance list option) \<Rightarrow> nat \<Rightarrow> nat \<Rightarrow> chain_balance list \<Rightarrow> chain_balance list" where
  "balance_pages fetch 0 k out = out"
| "balance_pages fetch (Suc n) k out =
     (case fetch k of
        None \<Rightarrow> out
      | Some rs \<Rightarrow> if rs = [] then out
          else (case push_balances rs out of (out', ok) \<Rightarrow> if ok then balance_pages fetch n (k + 1) out' else out'))"

definition listBalances :: "(nat \<Rightarrow> horizon_balance list option) \<Rightarrow> chain_balance list" where
  "listBalances fetch = balance_pages fetch LIST_BALANCES_MAX_PAGES 0 []"

lemma listBalances_unreachable: "fetch 0 = None \<Longrightarrow> listBalances fetch = []"
  by (simp add: listBalances_def LIST_BALANCES_MAX_PAGES_def eval_nat_numeral)

subsection \<open>Verification of the releases\<close>

text \<open>What Horizon answers to the two lookups during a pass; both swallow their errors.\<close>

record claim_provider =
  cp_findClaim :: "string \<Rightarrow> claim_transaction option"
  cp_getTransaction :: "string \<Rightarrow> claim_transaction option"

definition createReleaseTransactionResolver :: "claim_provider \<Rightarrow> payment \<Rightarrow> release_verification" where
  "createReleaseTransactionResolver provider record =
     (case cp_findClaim provider (pm_balanceId record) of
        Some claim \<Rightarrow> \<lparr> rv_recordedTxHash = pm_txHash record, rv_onChainTx = Some claim \<rparr>
      | None \<Rightarrow>
          if \<not> truthy (pm_txHash record) then \<lparr> rv_recordedTxHash = None, rv_onChainTx = None \<rparr>
          else \<lparr> rv_recordedTxHash = pm_txHash record, rv_onChainTx = cp_getTransaction provider (the (pm_txHash record)) \<rparr>)"

fun verify_loop :: "(payment \<Rightarrow> release_verification) \<Rightarrow> int \<Rightarrow> int \<Rightarrow> payment list \<Rightarrow> (string, release_verification) jsmap
    \<Rightarrow> (string, release_verification) jsmap" where
  "verify_loop resolve limit checked [] out = out"
| "verify_loop resolve limit checked (r # rs) out =
     (if pm_status r \<noteq> PayReleased \<or> \<not> truthy (pm_txHash r) then verify_loop resolve limit checked rs out
      else if limit \<le> checked then out
      else verify_loop resolve limit (checked + 1) rs (jm_set out (recordKey r) (resolve r)))"

definition verifyReleaseTransactions :: "payment list \<Rightarrow> (payment \<Rightarrow> release_verification) \<Rightarrow> int \<Rightarrow> (string, release_verification) jsmap" where
  "verifyReleaseTransactions localRecords resolve limit = verify_loop resolve limit 0 localRecords []"

definition emptyDriftCounters :: "'k list \<Rightarrow> ('k, nat) jsmap" where
  "emptyDriftCounters keys = foldl (\<lambda>m k. jm_set m k 0) [] keys"

definition drift_inc :: "drift_type \<Rightarrow> (drift_type, nat) jsmap \<Rightarrow> (drift_type, nat) jsmap" where
  "drift_inc t m = jm_set m t (or_else 0 (jm_get m t) + 1)"

definition driftCounts :: "discrepancy list \<Rightarrow> (drift_type, nat) jsmap" where
  "driftCounts ds = foldl (\<lambda>m d. drift_inc (d_driftType d) m) (emptyDriftCounters DRIFT_TYPES) ds"

subsection \<open>Alert levels\<close>

record alert_thresholds =
  th_warningPercent :: rat
  th_criticalPercent :: rat

datatype alert_level = AlertWarning | AlertCritical

record drift_alert =
  al_level :: alert_level
  al_taskId :: string
  al_balanceId :: string
  al_driftType :: drift_type
  al_expectedXLM :: rat
  al_actualXLM :: rat
  al_driftPercent :: rat
  al_detectedAt :: ms

definition parseStroops :: "string option \<Rightarrow> int option" where
  "parseStroops v = Option.bind v big_int"

text \<open>\<open>Number\<close> of a \<open>bigint\<close> and the division round to the nearest double.\<close>

definition alert_stroopsToXlm :: "string option \<Rightarrow> rat" where
  "alert_stroopsToXlm v = (case parseStroops v of None \<Rightarrow> 0 | Some n \<Rightarrow> fl (fl (of_int n) / of_int STROOPS_PER_XLM))"

definition amountDriftPercent :: "string option \<Rightarrow> string option \<Rightarrow> rat" where
  "amountDriftPercent expected actual =
     (case (parseStroops expected, parseStroops actual) of
        (Some e, Some a) \<Rightarrow>
          if e = 0 then (if a = 0 then 0 else 100)
          else (let diff = (if e < a then a - e else e - a) in fl (fl (of_int ((diff * 10000) sdiv e)) / 100))
      | _ \<Rightarrow> 100)"

definition or_text :: "string option \<Rightarrow> string option \<Rightarrow> string option" where
  "or_text x y = (if x = None then y else x)"

definition driftPercentOf :: "discrepancy \<Rightarrow> rat" where
  "driftPercentOf d =
     (case d_driftType d of
        AmountMismatch \<Rightarrow> amountDriftPercent (or_text (d_expectedAmountStroops d) (d_localAmountStroops d)) (d_onChainAmountStroops d)
      | ReleaseUnconfirmed \<Rightarrow> amountDriftPercent (or_text (d_expectedAmountStroops d) (Some ''0'')) (d_onChainAmountStroops d)
      | _ \<Rightarrow> 100)"

definition classifyDriftAlert :: "discrepancy \<Rightarrow> alert_thresholds \<Rightarrow> ms \<Rightarrow> drift_alert option" where
  "classifyDriftAlert d thresholds detectedAt =
     (let driftPercent = driftPercentOf d;
          alert = (\<lambda>level. \<lparr> al_level = level, al_taskId = or_else '''' (d_taskId d), al_balanceId = d_balanceId d,
            al_driftType = d_driftType d, al_expectedXLM = alert_stroopsToXlm (or_text (d_expectedAmountStroops d) (d_localAmountStroops d)),
            al_actualXLM = alert_stroopsToXlm (d_onChainAmountStroops d), al_driftPercent = driftPercent, al_detectedAt = detectedAt \<rparr>)
      in if driftPercent \<le> 0 then None
         else if th_criticalPercent thresholds \<le> driftPercent then Some (alert AlertCritical)
         else if th_warningPercent thresholds \<le> driftPercent then Some (alert AlertWarning)
         else None)"

subsection \<open>Each record by itself\<close>

text \<open>
  The table of the documentation as a function: what one record gives, with the on-chain balance of
  its id and the verification of its release. \<open>None\<close> is the exception.
\<close>

definition drift_of :: "drift_options \<Rightarrow> chain_balance option \<Rightarrow> release_verification option \<Rightarrow> payment \<Rightarrow> discrepancy list option" where
  "drift_of opts onChain verification r =
     (case (pm_status r, onChain) of
        (PayLocked, None) \<Rightarrow> Some [detectOrphanedLock r]
      | (PayLocked, Some b) \<Rightarrow>
          (let task = do_taskState opts (pm_taskId r)
           in if isTerminalUnsuccessful (map_option ts_status task)
                 \<and> isEscrowExpired (paymentAgeMs r task (do_now opts)) (do_escrowExpiryMs opts)
              then Some [detectExpiredEscrow r b task]
              else map_option (\<lambda>a. if a = pm_amountStroops r then [] else [detectAmountMismatch r b (pm_amountStroops r)])
                     (big_int (ob_amountStroops b)))
      | (_, Some b) \<Rightarrow> Some [detectUnconfirmedRelease r b]
      | (PayReleased, None) \<Rightarrow> Some (case Option.bind verification (\<lambda>v. detectMissingReleaseTx r v None) of None \<Rightarrow> [] | Some d \<Rightarrow> [d])
      | (_, None) \<Rightarrow> Some [])"

text \<open>The results of all records, one after the other, unless one of them throws.\<close>

fun collect :: "('a \<Rightarrow> 'b list option) \<Rightarrow> 'a list \<Rightarrow> 'b list option" where
  "collect f [] = Some []"
| "collect f (x # xs) = (case f x of None \<Rightarrow> None | Some ys \<Rightarrow> map_option ((@) ys) (collect f xs))"

definition chain_of :: "chain_balance list \<Rightarrow> string \<Rightarrow> chain_balance option" where
  "chain_of bs i = find (\<lambda>b. ob_balanceId b = i) (rev bs)"

lemma balance_map_get: "jm_get (balance_map bs) i = chain_of bs i"
proof (induction bs rule: rev_induct)
  case (snoc b bs)
  then show ?case by (simp add: balance_map_def chain_of_def jm_get_set)
qed (simp add: balance_map_def chain_of_def)

definition scan_add :: "payment \<Rightarrow> chain_balance option \<Rightarrow> discrepancy list \<Rightarrow> drift_scan \<Rightarrow> drift_scan" where
  "scan_add r onChain ds sc = sc\<lparr>dsc_localIds := insert (pm_balanceId r) (dsc_localIds sc),
     dsc_matchedIds := (if pm_status r = PayLocked \<and> onChain \<noteq> None then insert (pm_balanceId r) (dsc_matchedIds sc) else dsc_matchedIds sc),
     dsc_found := dsc_found sc @ ds,
     dsc_verified := dsc_verified sc + (if pm_status r = PayReleased \<and> ds = [] then 1 else 0),
     dsc_unverified := dsc_unverified sc + (if isSettledPaymentStatus (pm_status r) \<and> ds \<noteq> [] then 1 else 0)\<rparr>"

lemma drift_step_eq: "drift_step chain opts verifications r sc
    = map_option (\<lambda>ds. scan_add r (jm_get chain (pm_balanceId r)) ds sc)
        (drift_of opts (jm_get chain (pm_balanceId r)) (verification_of verifications r) r)"
  by (cases "pm_status r")
    (auto simp: drift_step_def drift_of_def scan_add_def isSettledPaymentStatus_def Let_def
       split: option.splits)

lemma drift_loop_eq: "drift_loop chain opts verifications rs sc
    = map_option (\<lambda>dss. fold (\<lambda>(r, ds). scan_add r (jm_get chain (pm_balanceId r)) ds) (zip rs dss) sc)
        (those (map (\<lambda>r. drift_of opts (jm_get chain (pm_balanceId r)) (verification_of verifications r) r) rs))"
  by (induction rs arbitrary: sc) (auto simp: drift_step_eq option.map_comp comp_def split: option.splits)

lemma collect_those: "collect f xs = map_option concat (those (map f xs))"
  by (induction xs) (auto simp: option.map_comp comp_def split: option.splits)

lemma scan_adds: "length rs = length dss \<Longrightarrow>
    fold (\<lambda>(r, ds). scan_add r (jm_get chain (pm_balanceId r)) ds) (zip rs dss) sc
      = sc\<lparr>dsc_localIds := dsc_localIds sc \<union> pm_balanceId ` set rs,
           dsc_matchedIds := dsc_matchedIds sc \<union> {pm_balanceId r | r. r \<in> set rs \<and> pm_status r = PayLocked \<and> jm_get chain (pm_balanceId r) \<noteq> None},
           dsc_found := dsc_found sc @ concat dss,
           dsc_verified := dsc_verified sc + length (filter (\<lambda>(r, ds). pm_status r = PayReleased \<and> ds = []) (zip rs dss)),
           dsc_unverified := dsc_unverified sc + length (filter (\<lambda>(r, ds). isSettledPaymentStatus (pm_status r) \<and> ds \<noteq> []) (zip rs dss))\<rparr>"
proof (induction rs dss arbitrary: sc rule: list_induct2)
  case (Cons r rs ds dss)
  then show ?case by (cases sc) (auto simp: scan_add_def)
qed simp

lemma those_length: "those xs = Some ys \<Longrightarrow> length xs = length ys"
  by (induction xs arbitrary: ys) (auto split: option.splits)

lemma those_map_Some: "those (map f rs) = Some dss \<Longrightarrow> dss = map (the \<circ> f) rs \<and> (\<forall>r \<in> set rs. f r \<noteq> None)"
  by (induction rs arbitrary: dss) (auto split: option.splits)

definition record_drift :: "drift_options \<Rightarrow> chain_balance list \<Rightarrow> (string, release_verification) jsmap option \<Rightarrow> payment
    \<Rightarrow> discrepancy list option" where
  "record_drift opts bs v r = drift_of opts (chain_of bs (pm_balanceId r)) (verification_of v r) r"

lemma detect_by_record:
  "detectPaymentDrift rs bs opts v = (case collect (record_drift opts bs v) rs of
     None \<Rightarrow> None
   | Some ds \<Rightarrow> Some \<lparr> dr_discrepancies = ds @ map detectMissingLocal (filter (\<lambda>b. ob_balanceId b \<notin> pm_balanceId ` set rs) bs),
       dr_matched = card {pm_balanceId r | r. r \<in> set rs \<and> pm_status r = PayLocked \<and> chain_of bs (pm_balanceId r) \<noteq> None},
       dr_releaseVerified = length (filter (\<lambda>r. pm_status r = PayReleased \<and> record_drift opts bs v r = Some []) rs),
       dr_releaseUnverified = length (filter (\<lambda>r. isSettledPaymentStatus (pm_status r) \<and> record_drift opts bs v r \<noteq> Some []) rs) \<rparr>)"
proof (cases "those (map (record_drift opts bs v) rs)")
  case None
  then show ?thesis by (simp add: detectPaymentDrift_def drift_loop_eq collect_those balance_map_get record_drift_def [abs_def])
next
  case (Some dss)
  note dss = those_map_Some [OF Some]
  have zip: "length (filter (\<lambda>(r, ds). P r ds) (zip rs dss)) = length (filter (\<lambda>r. P r (the (record_drift opts bs v r))) rs)" for P
    using conjunct1 [OF dss] by (simp add: zip_map2 zip_same_conv_map filter_map comp_def)
  have eq: "filter (\<lambda>r. Q r \<and> the (record_drift opts bs v r) = []) rs = filter (\<lambda>r. Q r \<and> record_drift opts bs v r = Some []) rs"
    "filter (\<lambda>r. Q r \<and> the (record_drift opts bs v r) \<noteq> []) rs = filter (\<lambda>r. Q r \<and> record_drift opts bs v r \<noteq> Some []) rs" for Q
    using dss by (auto intro!: filter_cong)
  have len: "length rs = length dss" using those_length [OF Some] by simp
  show ?thesis
    unfolding detectPaymentDrift_def drift_loop_eq balance_map_get record_drift_def [symmetric] collect_those Some option.map option.case
    unfolding scan_adds [OF len, of "balance_map bs", unfolded balance_map_get] zip by (simp add: eq)
qed

text \<open>
  C18. Detection record by record. The pass over the table and the chain is the table of the
  documentation applied to each record by itself, followed by the balances no record names; it fails
  only if one of the records does; and its counters count the locked balances that were found, the
  releases that raised nothing, and the settled payments that raised something.
\<close>

theorem drift_per_record:
  "detectPaymentDrift rs bs opts v = (case collect (record_drift opts bs v) rs of
     None \<Rightarrow> None
   | Some ds \<Rightarrow> Some \<lparr> dr_discrepancies = ds @ map detectMissingLocal (filter (\<lambda>b. ob_balanceId b \<notin> pm_balanceId ` set rs) bs),
       dr_matched = card {pm_balanceId r | r. r \<in> set rs \<and> pm_status r = PayLocked \<and> chain_of bs (pm_balanceId r) \<noteq> None},
       dr_releaseVerified = length (filter (\<lambda>r. pm_status r = PayReleased \<and> record_drift opts bs v r = Some []) rs),
       dr_releaseUnverified = length (filter (\<lambda>r. isSettledPaymentStatus (pm_status r) \<and> record_drift opts bs v r \<noteq> Some []) rs) \<rparr>)"
  by (rule detect_by_record)

subsection \<open>Alert levels in whole numbers\<close>

lemma fl_hundredths_less:
  assumes "0 \<le> q" "q < c" "2 * q + 1 < 2 ^ 53"
  shows "fl (of_int q / 100) < fl (of_int c / 100)"
proof -
  let ?x = "of_int q / 100 :: rat" and ?y = "of_int (q + 1) / 100 :: rat"
  have "fl ?x \<le> ?x + ?x / 2 ^ 53" using js.upper [of ?x] assms(1) by simp
  moreover have "?y - ?y / 2 ^ 53 \<le> fl ?y"
  proof -
    have "0 \<le> ?y" using assms(1) by simp
    then show ?thesis using js.err [of ?y] unfolding abs_le_iff abs_of_nonneg [OF \<open>0 \<le> ?y\<close>] by linarith
  qed
  moreover have "?x + ?x / 2 ^ 53 < ?y - ?y / 2 ^ 53"
  proof -
    have "(of_int (2 * q + 1) :: rat) < of_int (2 ^ 53)" using assms(3) by (simp only: of_int_less_iff)
    then show ?thesis by (simp add: field_simps)
  qed
  moreover have "fl ?y \<le> fl (of_int c / 100)" using js.mono [of ?y "of_int c / 100"] assms(1,2) by (simp add: divide_right_mono)
  ultimately show ?thesis by linarith
qed

lemma fl_hundredths: "0 \<le> q \<Longrightarrow> 0 \<le> c \<Longrightarrow> 2 * q + 1 < 2 ^ 53 \<Longrightarrow> fl (of_int c / 100) \<le> fl (of_int q / 100) \<longleftrightarrow> c \<le> q"
  using fl_hundredths_less [of q c] js.mono [of "of_int c / 100" "of_int q / 100"] by (cases "c \<le> q") (auto simp: not_le divide_right_mono)

text \<open>
  The level of an alert, without rounding. For a measured difference below two to the fiftieth
  of the expected amount and thresholds given in hundredths of a percent, the levels of the doubles
  are those of the exact fractions: critical from \<open>C\<close> hundredths on, else a warning from \<open>W\<close> on, and
  nothing at all below a ten-thousandth of the amount, whatever the thresholds.
\<close>

theorem alert_level_exact:
  assumes "d_driftType d = AmountMismatch" "parseStroops (d_expectedAmountStroops d) = Some e"
    and "parseStroops (d_onChainAmountStroops d) = Some a" "0 < e" "\<bar>a - e\<bar> * 10000 < 2 ^ 50 * e"
    and "th_criticalPercent th = fl (of_int C / 100)" "th_warningPercent th = fl (of_int W / 100)" "0 \<le> C" "0 \<le> W"
  shows "map_option al_level (classifyDriftAlert d th t)
    = (if \<bar>a - e\<bar> * 10000 < e then None else if C * e \<le> \<bar>a - e\<bar> * 10000 then Some AlertCritical
       else if W * e \<le> \<bar>a - e\<bar> * 10000 then Some AlertWarning else None)"
proof -
  define q where "q = (\<bar>a - e\<bar> * 10000) div e"
  have at: "c \<le> q \<longleftrightarrow> c * e \<le> \<bar>a - e\<bar> * 10000" for c
  proof
    assume "c \<le> q"
    then have "c * e \<le> q * e" using assms(4) by simp
    also have "q * e = \<bar>a - e\<bar> * 10000 - \<bar>a - e\<bar> * 10000 mod e" unfolding q_def by (rule minus_mod_eq_div_mult [symmetric])
    also have "\<dots> \<le> \<bar>a - e\<bar> * 10000" using pos_mod_sign [OF assms(4)] by simp
    finally show "c * e \<le> \<bar>a - e\<bar> * 10000" .
  next
    assume "c * e \<le> \<bar>a - e\<bar> * 10000"
    then have "c * e div e \<le> q" unfolding q_def using assms(4) by (intro zdiv_mono1)
    then show "c \<le> q" using assms(4) by simp
  qed
  have q: "0 \<le> q" "q < 2 ^ 50"
    using at [of 0] at [of "2 ^ 50"] assms(4,5) by simp_all
  have "or_text (d_expectedAmountStroops d) x = d_expectedAmountStroops d" for x
    using assms(2) by (auto simp: or_text_def parseStroops_def)
  moreover have "(if e < a then a - e else e - a) = \<bar>a - e\<bar>" by simp
  moreover have "(\<bar>a - e\<bar> * 10000) sdiv e = q" using assms(4) by (simp add: q_def signed_divide_int_def sgn_if)
  moreover have "fl (of_int q) = of_int q" using js.whole [of q] q by simp
  ultimately have percent: "driftPercentOf d = fl (of_int q / 100)"
    using assms(1-4) by (simp add: driftPercentOf_def amountDriftPercent_def Let_def)
  have le: "fl (of_int c / 100) \<le> driftPercentOf d \<longleftrightarrow> c * e \<le> \<bar>a - e\<bar> * 10000" if "0 \<le> c" for c
    unfolding percent at [symmetric] by (rule fl_hundredths) (use q that in simp_all)
  have "driftPercentOf d \<le> 0 \<longleftrightarrow> \<not> fl (of_int 1 / 100) \<le> driftPercentOf d"
  proof (cases "q = 0")
    case True
    then show ?thesis using fl_hundredths [of q 1] by (simp add: percent)
  next
    case False
    then have "1 \<le> q" using q by simp
    then have "fl (of_int 1 / 100) \<le> fl (of_int q / 100)" by (intro js.mono) (simp add: divide_right_mono)
    moreover have "0 < fl (of_int 1 / 100)" using fl_hundredths_less [of 0 1] by simp
    ultimately show ?thesis unfolding percent by linarith
  qed
  then show ?thesis using le [of 1] le [of C] le [of W] assms(6-9) by (simp add: classifyDriftAlert_def Let_def)
qed

definition short_paid :: payment where
  "short_paid = \<lparr> pm_taskId = ''t'', pm_nodeId = ''n'', pm_balanceId = ''B'', pm_status = PayLocked, pm_amountStroops = 100,
     pm_txHash = None, pm_createdAt = None, pm_updatedAt = None \<rparr>"

theorem alert_level_exact_witness:
  "map_option al_level (classifyDriftAlert (detectAmountMismatch short_paid \<lparr> ob_balanceId = ''B'', ob_amountStroops = ''94'' \<rparr> 100)
     \<lparr> th_warningPercent = fl (of_int 100 / 100), th_criticalPercent = fl (of_int 500 / 100) \<rparr> 0) = Some AlertCritical"
proof -
  let ?d = "detectAmountMismatch short_paid \<lparr> ob_balanceId = ''B'', ob_amountStroops = ''94'' \<rparr> 100"
  have d: "d_driftType ?d = AmountMismatch" "parseStroops (d_expectedAmountStroops ?d) = Some 100" "parseStroops (d_onChainAmountStroops ?d) = Some 94"
    by code_simp+
  from alert_level_exact [OF d, of "\<lparr> th_warningPercent = fl (of_int 100 / 100), th_criticalPercent = fl (of_int 500 / 100) \<rparr>" 500 100 0]
  show ?thesis by simp
qed

end
