(* ===== verification/Reconciliation.thy ===== *)
theory Reconciliation
  imports PaymentDrift
begin

text \<open>
  The reconciliation service, \<open>backend/src/services/reconciliation.ts\<close>: a pass reads the payments
  and the balances on the chain, classifies the drift, repairs what it may and parks the rest for an
  operator. During its awaits other calls go on working on the payments; what they do is an argument
  of the pass, as are the answers of the chain. The settler of the default service is the payment
  service itself. Texts for people, logs and the delivery of webhooks are left out.
\<close>

subsection \<open>Parked drift\<close>

record drift_resolution =
  dres_status :: escrow_status
  dres_txHash :: string
  dres_at :: ms
  dres_by :: string

record pending_drift =
  pd_id :: string
  pd_driftType :: drift_type
  pd_balanceId :: string
  pd_taskId :: "string option"
  pd_nodeId :: "string option"
  pd_severity :: discrepancy_severity
  pd_recommendedAction :: remediation_action
  pd_detectedAt :: ms
  pd_lastSeenAt :: ms
  pd_occurrences :: nat
  pd_acknowledged :: bool
  pd_resolution :: "drift_resolution option"

text \<open>The SQLite store: the rows of \<open>reconcile_pending_drift\<close>. A new row has no resolution.\<close>

definition rowToPending :: "pending_drift \<Rightarrow> pending_drift" where
  "rowToPending r = r\<lparr>pd_taskId := (if truthy (pd_taskId r) then pd_taskId r else None),
     pd_nodeId := (if truthy (pd_nodeId r) then pd_nodeId r else None),
     pd_resolution := (case pd_resolution r of
        Some z \<Rightarrow> if dres_txHash z \<noteq> '''' \<and> dres_by z \<noteq> '''' then Some z else None | None \<Rightarrow> None)\<rparr>"

definition sq_upsert :: "pending_drift \<Rightarrow> pending_drift list \<Rightarrow> pending_drift list" where
  "sq_upsert d rows = (if row_by pd_id (pd_id d) rows = None then rows @ [d\<lparr>pd_resolution := None\<rparr>]
     else fst (sql_update (\<lambda>r. pd_id r = pd_id d)
       (\<lambda>r. r\<lparr>pd_driftType := pd_driftType d, pd_balanceId := pd_balanceId d, pd_taskId := pd_taskId d, pd_nodeId := pd_nodeId d,
              pd_severity := pd_severity d, pd_recommendedAction := pd_recommendedAction d, pd_lastSeenAt := pd_lastSeenAt d,
              pd_occurrences := pd_occurrences r + 1\<rparr>) rows))"

definition sq_list :: "bool \<Rightarrow> pending_drift list \<Rightarrow> pending_drift list" where
  "sq_list includeAcknowledged rows = map rowToPending
     (sort_key (\<lambda>r. - pd_lastSeenAt r) (filter (\<lambda>r. includeAcknowledged \<or> \<not> pd_acknowledged r) rows))"

definition sq_resolve :: "string \<Rightarrow> drift_resolution \<Rightarrow> pending_drift list \<Rightarrow> pending_drift list \<times> pending_drift option" where
  "sq_resolve i z rows = (if row_by pd_id i rows = None then (rows, None)
     else let rows' = fst (sql_update (\<lambda>r. pd_id r = i) (\<lambda>r. r\<lparr>pd_acknowledged := True, pd_resolution := Some z\<rparr>) rows)
          in (rows', map_option rowToPending (row_by pd_id i rows')))"

definition sq_retain :: "string list \<Rightarrow> pending_drift list \<Rightarrow> pending_drift list" where
  "sq_retain ids rows = foldl (\<lambda>rs r. if pd_id r \<in> set ids then rs else fst (sql_delete (\<lambda>x. pd_id x = pd_id r) rs)) rows rows"

text \<open>The store in memory.\<close>

definition mem_upsert :: "pending_drift \<Rightarrow> (string, pending_drift) jsmap \<Rightarrow> (string, pending_drift) jsmap" where
  "mem_upsert d m = jm_set m (pd_id d)
     (case jm_get m (pd_id d) of
        Some e \<Rightarrow> d\<lparr>pd_detectedAt := pd_detectedAt e, pd_occurrences := pd_occurrences e + 1\<rparr> | None \<Rightarrow> d)"

definition mem_list :: "bool \<Rightarrow> (string, pending_drift) jsmap \<Rightarrow> pending_drift list" where
  "mem_list includeAcknowledged m =
     sort_key (\<lambda>r. - pd_lastSeenAt r) (filter (\<lambda>r. includeAcknowledged \<or> \<not> pd_acknowledged r) (map snd m))"

definition mem_resolve :: "string \<Rightarrow> drift_resolution \<Rightarrow> (string, pending_drift) jsmap
    \<Rightarrow> (string, pending_drift) jsmap \<times> pending_drift option" where
  "mem_resolve i z m = (case jm_get m i of None \<Rightarrow> (m, None)
     | Some e \<Rightarrow> (let e' = e\<lparr>pd_acknowledged := True, pd_resolution := Some z\<rparr> in (jm_set m i e', Some e')))"

definition mem_retain :: "string list \<Rightarrow> (string, pending_drift) jsmap \<Rightarrow> (string, pending_drift) jsmap" where
  "mem_retain ids m = foldl (\<lambda>m' i. if i \<in> set ids then m' else jm_del m' i) m (map fst m)"

subsection \<open>The service\<close>

datatype settlement_kind = SettleRelease | SettleRefund

record settlement_job =
  sj_kind :: settlement_kind
  sj_balanceId :: string
  sj_taskId :: string
  sj_nodeId :: string

record escrow_settler =
  es_release :: "pay_env \<Rightarrow> string \<Rightarrow> string \<Rightarrow> string \<Rightarrow> pay_state \<Rightarrow> pay_state \<times> (pay_error + string)"
  es_refund :: "pay_env \<Rightarrow> string \<Rightarrow> string \<Rightarrow> string \<Rightarrow> pay_state \<Rightarrow> pay_state \<times> (pay_error + string)"

text \<open>The settler over the payment service; \<open>memo\<close> is the trace id of the caller, if any.\<close>

definition createSettlerFromCoordinatorSecret :: "string \<Rightarrow> string option \<Rightarrow> escrow_settler" where
  "createSettlerFromCoordinatorSecret coordinator memo =
     \<lparr> es_release = (\<lambda>env balanceId t n. pay_release env t n coordinator memo),
       es_refund = (\<lambda>env balanceId t n. pay_refund env t n coordinator) \<rparr>"

record recon_options =
  ro_escrowExpiryMs :: ms
  ro_remediationEnabled :: bool
  ro_maxTxLookups :: int
  ro_taskState :: "string \<Rightarrow> task_state option"
  ro_claims :: claim_provider
  ro_hasQueue :: bool
  ro_settler :: "escrow_settler option"
  ro_thresholds :: alert_thresholds

record recon_metrics =
  mt_driftDetected :: "(drift_type, nat) jsmap"
  mt_remediated :: "(drift_type, nat) jsmap"
  mt_remediationFailed :: "(drift_type, nat) jsmap"
  mt_runs :: nat
  mt_runsWithDrift :: nat
  mt_runsWithRemediation :: nat
  mt_driftWarnings :: nat
  mt_driftCritical :: nat
  mt_lastDriftPercent :: rat

definition new_recon_metrics :: recon_metrics where
  "new_recon_metrics = \<lparr> mt_driftDetected = emptyDriftCounters DRIFT_TYPES, mt_remediated = emptyDriftCounters DRIFT_TYPES,
     mt_remediationFailed = emptyDriftCounters DRIFT_TYPES, mt_runs = 0, mt_runsWithDrift = 0, mt_runsWithRemediation = 0,
     mt_driftWarnings = 0, mt_driftCritical = 0, mt_lastDriftPercent = 0 \<rparr>"

datatype recon_trigger = TriggerManual | TriggerScheduled | TriggerRelease

record recon_summary =
  su_totalLocalRecords :: nat
  su_totalOnChainBalances :: nat
  su_matched :: nat
  su_discrepancies :: nat
  su_missingOnChain :: nat
  su_missingLocal :: nat
  su_amountMismatch :: nat
  su_driftByType :: "(drift_type, nat) jsmap"
  su_remediatedByType :: "(drift_type, nat) jsmap"
  su_remediated :: nat
  su_pendingRemediation :: nat
  su_releaseVerified :: nat
  su_releaseUnverified :: nat

record recon_report =
  rr_id :: string
  rr_runAt :: ms
  rr_triggeredBy :: recon_trigger
  rr_consistent :: bool
  rr_summary :: recon_summary
  rr_discrepancies :: "discrepancy list"
  rr_remediations :: "remediation list"

datatype recon_event_kind = DriftEvent | RemediationEvent

record recon_event =
  rev_taskId :: string
  rev_kind :: recon_event_kind
  rev_discrepancy :: discrepancy
  rev_previousStatus :: "escrow_status option"
  rev_newStatus :: "escrow_status option"

record recon =
  rs_pay :: pay_state
  rs_pending :: "pending_drift list"
  rs_reports :: "recon_report list"
  rs_running :: bool
  rs_jobs :: "settlement_job list"
  rs_metrics :: recon_metrics
  rs_events :: "recon_event list"
  rs_alerts :: "drift_alert list"

text \<open>
  What one pass meets: its id and time, the balances it is told, what the rest of the system does to
  the payments while it waits for the chain and before its remediation numbered \<open>k\<close>, and what the
  chain does to the calls of that remediation.
\<close>

record pass_env =
  pv_runId :: string
  pv_now :: ms
  pv_balances :: "chain_balance list"
  pv_fetching :: "pay_state \<Rightarrow> pay_state"
  pv_meanwhile :: "nat \<Rightarrow> pay_state \<Rightarrow> pay_state"
  pv_env :: "nat \<Rightarrow> pay_env"

datatype recon_error = AlreadyInProgress | BadBigInt

definition RECONCILED_TX_SENTINEL :: string where
  "RECONCILED_TX_SENTINEL = ''reconciled-repair''"

definition MAX_RECENT_ALERTS :: nat where
  "MAX_RECENT_ALERTS = 1000"

definition SETTLED_TASK_STATUSES :: "string set" where
  "SETTLED_TASK_STATUSES = {''completed'', ''failed'', ''cancelled'', ''canceled''}"

definition driftId :: "discrepancy \<Rightarrow> string" where
  "driftId d = (if truthy (d_taskId d) \<and> truthy (d_nodeId d) then the (d_taskId d) @ '':'' @ the (d_nodeId d) else d_balanceId d)"

definition verifyReleases :: "recon_options \<Rightarrow> payment list \<Rightarrow> (string, release_verification) jsmap option" where
  "verifyReleases opts localRecords =
     (if filter (\<lambda>r. pm_status r = PayReleased \<and> truthy (pm_txHash r)) localRecords = [] then Some []
      else Some (verifyReleaseTransactions localRecords (createReleaseTransactionResolver (ro_claims opts)) (ro_maxTxLookups opts)))"

definition pending_of :: "discrepancy \<Rightarrow> ms \<Rightarrow> pending_drift" where
  "pending_of d nowIso =
     \<lparr> pd_id = driftId d, pd_driftType = d_driftType d, pd_balanceId = d_balanceId d,
       pd_taskId = (if truthy (d_taskId d) then d_taskId d else None), pd_nodeId = (if truthy (d_nodeId d) then d_nodeId d else None),
       pd_severity = d_severity d, pd_recommendedAction = rp_action (planRemediation d), pd_detectedAt = nowIso, pd_lastSeenAt = nowIso,
       pd_occurrences = 1, pd_acknowledged = False, pd_resolution = None \<rparr>"

definition park :: "discrepancy \<Rightarrow> ms \<Rightarrow> recon \<Rightarrow> recon" where
  "park d nowIso s = s\<lparr>rs_pending := sq_upsert (pending_of d nowIso) (rs_pending s)\<rparr>"

definition outcome_at :: "ms \<Rightarrow> remediation_action \<Rightarrow> remediation_status \<Rightarrow> string option \<Rightarrow> remediation" where
  "outcome_at now action status txHash = \<lparr> rm_action = action, rm_status = status, rm_txHash = txHash, rm_at = now \<rparr>"

text \<open>One remediation; an error of the settler is caught.\<close>

definition remediate_record :: "recon_options \<Rightarrow> pay_env \<Rightarrow> discrepancy \<Rightarrow> string \<Rightarrow> string \<Rightarrow> ms \<Rightarrow> remediation_action \<Rightarrow> recon
    \<Rightarrow> recon \<times> remediation" where
  "remediate_record opts env d taskId nodeId now action s =
     (let outcome = outcome_at now action; pay = rs_pay s; db = ps_payments pay
      in case action of
        MarkOrphaned \<Rightarrow>
          (let (db', changed) = updateStatusIfCurrent taskId nodeId PayLocked PayOrphaned RECONCILED_TX_SENTINEL (pe_now env) db
           in if changed then (s\<lparr>rs_pay := pay\<lparr>ps_payments := db'\<rparr>\<rparr>, outcome Remediated (Some RECONCILED_TX_SENTINEL))
              else (s, outcome RemSkipped None))
      | BackfillTxHash \<Rightarrow>
          (if \<not> truthy (d_onChainTxHash d) then (s, outcome NeedsReview None)
           else let realHash = the (d_onChainTxHash d);
                    (db', changed) = updateStatusIfCurrent taskId nodeId PayReleased PayReleased realHash (pe_now env) db
                in if changed then (s\<lparr>rs_pay := pay\<lparr>ps_payments := db'\<rparr>\<rparr>, outcome Remediated (Some realHash))
                   else (s, outcome RemSkipped None))
      | RequeueRelease \<Rightarrow>
          (if ro_hasQueue opts then
             (s\<lparr>rs_jobs := rs_jobs s @ [\<lparr> sj_kind = SettleRelease, sj_balanceId = d_balanceId d, sj_taskId = taskId, sj_nodeId = nodeId \<rparr>]\<rparr>,
              outcome Remediated None)
           else case ro_settler opts of
                  Some settler \<Rightarrow>
                    (case es_release settler env (d_balanceId d) taskId nodeId pay of
                       (pay', Inr txHash) \<Rightarrow> (s\<lparr>rs_pay := pay'\<rparr>, outcome Remediated (Some txHash))
                     | (pay', Inl err) \<Rightarrow> (s\<lparr>rs_pay := pay'\<rparr>, outcome RemFailed None))
                | None \<Rightarrow> (s, outcome RemSkipped None))
      | RefundEscrow \<Rightarrow>
          (if map_option pm_status (findByKey taskId nodeId db) \<noteq> Some PayLocked then (s, outcome RemSkipped None)
           else if ro_hasQueue opts then
             (s\<lparr>rs_jobs := rs_jobs s @ [\<lparr> sj_kind = SettleRefund, sj_balanceId = d_balanceId d, sj_taskId = taskId, sj_nodeId = nodeId \<rparr>]\<rparr>,
              outcome Remediated None)
           else case ro_settler opts of
                  None \<Rightarrow> (s, outcome RemSkipped None)
                | Some settler \<Rightarrow>
                    (case es_refund settler env (d_balanceId d) taskId nodeId pay of
                       (pay', Inr txHash) \<Rightarrow>
                         (s\<lparr>rs_pay := pay'\<lparr>ps_payments := pay_updateStatus taskId nodeId PayRefunded txHash (pe_now env) (ps_payments pay')\<rparr>\<rparr>,
                          outcome Remediated (Some txHash))
                     | (pay', Inl err) \<Rightarrow> (s\<lparr>rs_pay := pay'\<rparr>, outcome RemFailed None)))
      | ManualReview \<Rightarrow> (s, outcome NeedsReview None))"

definition remediate :: "recon_options \<Rightarrow> pay_env \<Rightarrow> discrepancy \<Rightarrow> ms \<Rightarrow> recon \<Rightarrow> recon \<times> remediation" where
  "remediate opts env d now s =
     (let plan = planRemediation d
      in if \<not> rp_automatic plan \<or> rp_action plan = ManualReview then (s, outcome_at now (rp_action plan) NeedsReview None)
         else if \<not> truthy (d_taskId d) \<or> \<not> truthy (d_nodeId d) then (s, outcome_at now (rp_action plan) RemSkipped None)
         else remediate_record opts env d (the (d_taskId d)) (the (d_nodeId d)) now (rp_action plan) s)"

definition currentStatus :: "discrepancy \<Rightarrow> remediation_action option \<Rightarrow> recon \<Rightarrow> escrow_status option" where
  "currentStatus d action s =
     (if \<not> truthy (d_taskId d) \<or> \<not> truthy (d_nodeId d) then None
      else case action of
             Some MarkOrphaned \<Rightarrow> Some PayOrphaned
           | Some RefundEscrow \<Rightarrow> Some PayRefunded
           | _ \<Rightarrow> map_option pm_status (findByKey (the (d_taskId d)) (the (d_nodeId d)) (ps_payments (rs_pay s))))"

definition recon_emitEvent :: "discrepancy \<Rightarrow> recon_event_kind \<Rightarrow> recon \<Rightarrow> recon" where
  "recon_emitEvent d kind s =
     (let action = map_option rm_action (d_remediation d)
      in s\<lparr>rs_events := rs_events s @ [\<lparr> rev_taskId = or_else ''reconciliation'' (d_taskId d), rev_kind = kind, rev_discrepancy = d,
             rev_previousStatus = (if kind = RemediationEvent \<and> action = Some MarkOrphaned then Some PayLocked else None),
             rev_newStatus = (if kind = RemediationEvent then currentStatus d action s else None) \<rparr>]\<rparr>)"

text \<open>The first loop reports every drift.\<close>

definition report_drift :: "discrepancy \<Rightarrow> recon \<Rightarrow> recon" where
  "report_drift d s = recon_emitEvent d DriftEvent
     (s\<lparr>rs_metrics := (rs_metrics s)\<lparr>mt_driftDetected := drift_inc (d_driftType d) (mt_driftDetected (rs_metrics s))\<rparr>\<rparr>)"

text \<open>The second loop, with what it has gathered: the remediated discrepancies, their counts, the parked ids.\<close>

record pass_log =
  pl_done :: "discrepancy list"
  pl_remediatedByType :: "(drift_type, nat) jsmap"
  pl_pendingIds :: "string list"

definition pass_outcome :: "recon_options \<Rightarrow> pass_env \<Rightarrow> nat \<Rightarrow> discrepancy \<Rightarrow> recon \<Rightarrow> recon \<times> remediation" where
  "pass_outcome opts pv k d s =
     (if ro_remediationEnabled opts
      then remediate opts (pv_env pv k) d (pv_now pv) (s\<lparr>rs_pay := pv_meanwhile pv k (rs_pay s)\<rparr>)
      else (s, outcome_at (pv_now pv) (rp_action (planRemediation d)) RemSkipped None))"

definition pass_step :: "recon_options \<Rightarrow> pass_env \<Rightarrow> nat \<Rightarrow> discrepancy \<Rightarrow> recon \<times> pass_log \<Rightarrow> recon \<times> pass_log" where
  "pass_step opts pv k d sl =
     (let (s1, outcome) = pass_outcome opts pv k d (fst sl);
          d' = d\<lparr>d_remediation := Some outcome\<rparr>; t = d_driftType d; l = (snd sl)\<lparr>pl_done := pl_done (snd sl) @ [d']\<rparr>;
          m = rs_metrics s1
      in if rm_status outcome = Remediated
         then (recon_emitEvent d' RemediationEvent (s1\<lparr>rs_metrics := m\<lparr>mt_remediated := drift_inc t (mt_remediated m)\<rparr>\<rparr>),
               l\<lparr>pl_remediatedByType := drift_inc t (pl_remediatedByType l)\<rparr>)
         else (park d' (pv_now pv)
                 (if rm_status outcome = RemFailed then s1\<lparr>rs_metrics := m\<lparr>mt_remediationFailed := drift_inc t (mt_remediationFailed m)\<rparr>\<rparr>
                  else s1),
               l\<lparr>pl_pendingIds := pl_pendingIds l @ [driftId d']\<rparr>))"

fun pass_loop :: "recon_options \<Rightarrow> pass_env \<Rightarrow> nat \<Rightarrow> discrepancy list \<Rightarrow> recon \<times> pass_log \<Rightarrow> recon \<times> pass_log" where
  "pass_loop opts pv k [] sl = sl"
| "pass_loop opts pv k (d # ds) sl = pass_loop opts pv (k + 1) ds (pass_step opts pv k d sl)"

definition isUnsettledTask :: "recon_options \<Rightarrow> string option \<Rightarrow> bool" where
  "isUnsettledTask opts taskId \<longleftrightarrow> truthy taskId \<and>
     (case ro_taskState opts (the taskId) of None \<Rightarrow> False | Some t \<Rightarrow> map lower_char (ts_status t) \<notin> SETTLED_TASK_STATUSES)"

definition raise_one :: "recon_options \<Rightarrow> ms \<Rightarrow> discrepancy \<Rightarrow> recon \<Rightarrow> recon" where
  "raise_one opts detectedAt d s =
     (if isUnsettledTask opts (d_taskId d) then s
      else case classifyDriftAlert d (ro_thresholds opts) detectedAt of
             None \<Rightarrow> s
           | Some alert \<Rightarrow>
               (let m = rs_metrics s; alerts = rs_alerts s @ [alert]
                in s\<lparr>rs_metrics := (if al_level alert = AlertCritical then m\<lparr>mt_driftCritical := mt_driftCritical m + 1\<rparr>
                        else m\<lparr>mt_driftWarnings := mt_driftWarnings m + 1\<rparr>)\<lparr>mt_lastDriftPercent := al_driftPercent alert\<rparr>,
                     rs_alerts := drop (length alerts - MAX_RECENT_ALERTS) alerts\<rparr>))"

definition raiseDriftAlerts :: "recon_options \<Rightarrow> ms \<Rightarrow> recon_report \<Rightarrow> recon \<Rightarrow> recon" where
  "raiseDriftAlerts opts detectedAt report s = fold (raise_one opts detectedAt) (rr_discrepancies report) s"

definition getLatestReport :: "recon \<Rightarrow> recon_report option" where
  "getLatestReport s = best_by (\<lambda>r. - rr_runAt r) (rs_reports s)"

definition save_report :: "recon_report \<Rightarrow> recon \<Rightarrow> recon" where
  "save_report r s = s\<lparr>rs_reports := filter (\<lambda>x. rr_id x \<noteq> rr_id r) (rs_reports s) @ [r]\<rparr>"

definition count_where :: "('a \<Rightarrow> bool) \<Rightarrow> 'a list \<Rightarrow> nat" where
  "count_where p xs = length (filter p xs)"

definition pass_report :: "pass_env \<Rightarrow> recon_trigger \<Rightarrow> payment list \<Rightarrow> drift_result \<Rightarrow> pass_log \<Rightarrow> recon_report" where
  "pass_report pv trigger localRecords detection l =
     (let ds = pl_done l; rems = map (the \<circ> d_remediation) ds
      in \<lparr> rr_id = pv_runId pv, rr_runAt = pv_now pv, rr_triggeredBy = trigger, rr_consistent = (dr_discrepancies detection = []),
           rr_summary = \<lparr> su_totalLocalRecords = length localRecords, su_totalOnChainBalances = length (pv_balances pv),
             su_matched = dr_matched detection, su_discrepancies = length (dr_discrepancies detection),
             su_missingOnChain = count_where (\<lambda>d. d_type d = DMissingOnChain) ds,
             su_missingLocal = count_where (\<lambda>d. d_type d = DMissingLocal) ds,
             su_amountMismatch = count_where (\<lambda>d. d_type d = DAmountMismatch) ds, su_driftByType = driftCounts ds,
             su_remediatedByType = pl_remediatedByType l,
             su_remediated = count_where (\<lambda>r. rm_status r = Remediated) rems,
             su_pendingRemediation = count_where (\<lambda>r. rm_status r \<noteq> Remediated) rems,
             su_releaseVerified = dr_releaseVerified detection, su_releaseUnverified = dr_releaseUnverified detection \<rparr>,
           rr_discrepancies = ds, rr_remediations = rems \<rparr>)"

text \<open>\<open>run\<close>: the flag is taken down on every way out. \<open>alertAt\<close> is the time of the alerts.\<close>

definition recon_run :: "recon_options \<Rightarrow> pass_env \<Rightarrow> recon_trigger \<Rightarrow> ms \<Rightarrow> recon \<Rightarrow> recon \<times> (recon_error + recon_report)" where
  "recon_run opts pv trigger alertAt s =
     (if rs_running s then (case getLatestReport s of Some r \<Rightarrow> (s, Inr r) | None \<Rightarrow> (s, Inl AlreadyInProgress))
      else let m = rs_metrics s; localRecords = ps_payments (rs_pay s);
               s1 = s\<lparr>rs_running := True, rs_metrics := m\<lparr>mt_runs := mt_runs m + 1\<rparr>, rs_pay := pv_fetching pv (rs_pay s)\<rparr>
           in case detectPaymentDrift localRecords (pv_balances pv)
                     \<lparr> do_escrowExpiryMs = ro_escrowExpiryMs opts, do_now = pv_now pv, do_taskState = ro_taskState opts \<rparr>
                     (verifyReleases opts localRecords) of
                None \<Rightarrow> (s1\<lparr>rs_running := False\<rparr>, Inl BadBigInt)
              | Some detection \<Rightarrow>
                  (let ds = dr_discrepancies detection; s2 = fold report_drift ds s1; m2 = rs_metrics s2;
                       s3 = (if ds = [] then s2 else s2\<lparr>rs_metrics := m2\<lparr>mt_runsWithDrift := mt_runsWithDrift m2 + 1\<rparr>\<rparr>);
                       (s4, l) = pass_loop opts pv 0 ds
                         (s3, \<lparr> pl_done = [], pl_remediatedByType = emptyDriftCounters DRIFT_TYPES, pl_pendingIds = [] \<rparr>);
                       m4 = rs_metrics s4; report = pass_report pv trigger localRecords detection l;
                       s5 = (if 0 < su_remediated (rr_summary report)
                             then s4\<lparr>rs_metrics := m4\<lparr>mt_runsWithRemediation := mt_runsWithRemediation m4 + 1\<rparr>\<rparr> else s4);
                       s6 = s5\<lparr>rs_pending := sq_retain (pl_pendingIds l) (rs_pending s5)\<rparr>;
                       s7 = save_report report s6;
                       s8 = (if ds = [] then s7 else raiseDriftAlerts opts alertAt report s7)
                   in (s8\<lparr>rs_running := False\<rparr>, Inr report)))"

definition resolvePendingDrift :: "string \<Rightarrow> escrow_status \<Rightarrow> string \<Rightarrow> string \<Rightarrow> ms \<Rightarrow> recon \<Rightarrow> recon \<times> pending_drift option" where
  "resolvePendingDrift i status txHash who now s =
     (let pending = find (\<lambda>d. pd_id d = i) (sq_list True (rs_pending s));
          z = \<lparr> dres_status = status, dres_txHash = txHash, dres_at = now, dres_by = who \<rparr>;
          s' = (case pending of
                  None \<Rightarrow> s
                | Some d \<Rightarrow> if \<not> truthy (pd_taskId d) \<or> \<not> truthy (pd_nodeId d) then s
                    else s\<lparr>rs_pay := (rs_pay s)\<lparr>ps_payments :=
                           pay_updateStatus (the (pd_taskId d)) (the (pd_nodeId d)) status txHash now (ps_payments (rs_pay s))\<rparr>\<rparr>);
          (rows, r) = sq_resolve i z (rs_pending s')
      in (s'\<lparr>rs_pending := rows\<rparr>, r))"

definition getRecentAlerts :: "ms \<Rightarrow> int \<Rightarrow> recon \<Rightarrow> drift_alert list" where
  "getRecentAlerts now hours s = filter (\<lambda>a. now - hours * 60 * 60 * 1000 \<le> al_detectedAt a) (rs_alerts s)"

subsection \<open>What a pass may do to a payment\<close>

text \<open>
  \<open>q\<close> is the payment \<open>p\<close> after passes and calls of the service: besides the changes of the service,
  a locked payment may be orphaned and the hash of a release replaced.
\<close>

definition recon_later :: "payment \<Rightarrow> payment \<Rightarrow> bool" where
  "recon_later p q \<longleftrightarrow> pm_balanceId q = pm_balanceId p \<and> pm_amountStroops q = pm_amountStroops p \<and> pm_createdAt q = pm_createdAt p
     \<and> (pm_status q = PayLocked \<longrightarrow> q = p) \<and> (pm_status p = PayReleased \<longrightarrow> pm_status q = PayReleased)"

definition recon_table_later :: "payment list \<Rightarrow> payment list \<Rightarrow> bool" where
  "recon_table_later db db' \<longleftrightarrow> payments_typed db' \<and> (\<forall>k p. row_by pay_key k db = Some p \<longrightarrow> (\<exists>q. row_by pay_key k db' = Some q \<and> recon_later p q))"

lemma recon_later_refl: "recon_later p p"
  by (simp add: recon_later_def)

lemma recon_later_trans: "recon_later p q \<Longrightarrow> recon_later q r \<Longrightarrow> recon_later p r"
proof -
  assume pq: "recon_later p q" and qr: "recon_later q r"
  have "r = p" if "pm_status r = PayLocked" using that pq qr unfolding recon_later_def by metis
  moreover have "pm_status r = PayReleased" if "pm_status p = PayReleased" using that pq qr unfolding recon_later_def by metis
  moreover have "pm_balanceId r = pm_balanceId p" "pm_amountStroops r = pm_amountStroops p" "pm_createdAt r = pm_createdAt p"
    using pq qr unfolding recon_later_def by metis+
  ultimately show ?thesis unfolding recon_later_def by blast
qed

lemma recon_table_refl: "payments_typed db \<Longrightarrow> recon_table_later db db"
  using recon_later_refl unfolding recon_table_later_def by blast

lemma recon_table_trans: "recon_table_later a b \<Longrightarrow> recon_table_later b c \<Longrightarrow> recon_table_later a c"
proof -
  assume ab: "recon_table_later a b" and bc: "recon_table_later b c"
  have "\<exists>r. row_by pay_key k c = Some r \<and> recon_later p r" if row: "row_by pay_key k a = Some p" for k p
  proof -
    obtain q where q: "row_by pay_key k b = Some q" "recon_later p q" using ab row unfolding recon_table_later_def by blast
    obtain r where "row_by pay_key k c = Some r" "recon_later q r" using bc q(1) unfolding recon_table_later_def by blast
    then show ?thesis using recon_later_trans [OF q(2)] by blast
  qed
  then show ?thesis using bc unfolding recon_table_later_def by blast
qed

lemma pay_later_recon: "pay_later p q \<Longrightarrow> recon_later p q"
  unfolding pay_later_def recon_later_def by blast

lemma service_later: "payments_typed (ps_payments s) \<Longrightarrow> recon_table_later (ps_payments s) (ps_payments (pay_run ops s))"
  using pay_run_later [of s ops] pay_later_recon unfolding recon_table_later_def table_later_def by blast

text \<open>The part of the system that works beside a pass: it only calls the payment service.\<close>

definition service_calls :: "(pay_state \<Rightarrow> pay_state) \<Rightarrow> bool" where
  "service_calls f \<longleftrightarrow> (\<forall>s. \<exists>ops. f s = pay_run ops s)"

lemma service_calls_later: "service_calls f \<Longrightarrow> payments_typed (ps_payments s) \<Longrightarrow> recon_table_later (ps_payments s) (ps_payments (f s))"
  using service_later unfolding service_calls_def by metis

lemma recon_set_status: "st \<noteq> PayLocked \<Longrightarrow> pm_status p = PayReleased \<longrightarrow> st = PayReleased \<Longrightarrow> recon_later p (set_pay_status st h now p)"
  by (auto simp: recon_later_def set_pay_status_def)

text \<open>A guarded update to a settled status.\<close>

lemma guarded_update_later:
  assumes "payments_typed db" "isSettledPaymentStatus st" "expected = PayReleased \<longrightarrow> st = PayReleased"
  shows "recon_table_later db (fst (updateStatusIfCurrent t n expected st h now db))"
proof -
  let ?P = "\<lambda>p. pay_key p = (t, n) \<and> pm_status p = expected"
  have rows: "fst (updateStatusIfCurrent t n expected st h now db) = map (\<lambda>p. if ?P p then set_pay_status st h now p else p) db"
    by (simp add: updateStatusIfCurrent_def sql_update_def)
  have keys: "map pay_key (map (\<lambda>p. if ?P p then set_pay_status st h now p else p) db) = map pay_key db"
    by (simp add: set_status_key)
  have "list_all payment_typed (map (\<lambda>p. if ?P p then set_pay_status st h now p else p) db)"
    using assms(1,2) by (auto simp: payments_typed_def list_all_iff payment_typed_def set_pay_status_def)
  then have typed: "payments_typed (map (\<lambda>p. if ?P p then set_pay_status st h now p else p) db)"
    using assms(1) by (simp only: payments_typed_def keys)
  have "recon_later p (if ?P p then set_pay_status st h now p else p)" for p
    using assms(2,3) recon_later_refl recon_set_status [of st p h now] by (cases "?P p") (auto simp: isSettledPaymentStatus_def)
  then show ?thesis unfolding rows recon_table_later_def using typed by (simp add: row_by_update set_status_key)
qed

lemma refunded_update_later:
  assumes "payments_typed db" "\<forall>p. findByKey t n db = Some p \<longrightarrow> pm_status p \<noteq> PayReleased"
  shows "recon_table_later db (pay_updateStatus t n PayRefunded h now db)"
proof -
  have "recon_later p (if pay_key p = (t, n) then set_pay_status PayRefunded h now p else p)" if "row_by pay_key k db = Some p" for p k
    using that assms(2) row_by_Some [OF that] recon_later_refl recon_set_status [of PayRefunded p h now] by (auto simp: findByKey_def)
  moreover have "payments_typed (pay_updateStatus t n PayRefunded h now db)"
    by (rule update_typed [OF assms(1)]) (simp add: isSettledPaymentStatus_def)
  ultimately show ?thesis by (simp add: recon_table_later_def pay_updateStatus_def sql_update_rows row_by_update set_status_key)
qed

text \<open>The settlers considered: none, or the payment service under the coordinator's key.\<close>

definition service_settler :: "recon_options \<Rightarrow> bool" where
  "service_settler opts \<longleftrightarrow> ro_settler opts = None
     \<or> (\<exists>coordinator memo. ro_settler opts = Some (createSettlerFromCoordinatorSecret coordinator memo))"

lemma settler_release_later: "payments_typed (ps_payments s)
    \<Longrightarrow> recon_table_later (ps_payments s) (ps_payments (fst (pay_release env t n coordinator memo s)))"
  using service_later [of s "[(env, ReleaseOp t n coordinator memo)]"] by (simp add: pay_run_def)

lemma settler_refund_later: "payments_typed (ps_payments s)
    \<Longrightarrow> recon_table_later (ps_payments s) (ps_payments (fst (pay_refund env t n coordinator s)))"
  using service_later [of s "[(env, RefundOp t n coordinator)]"] by (simp add: pay_run_def)

lemma refund_status: "pay_refund env t n coordinator s = (s', Inr h)
    \<Longrightarrow> \<exists>p. findByKey t n (ps_payments s') = Some p \<and> pm_status p = PayRefunded"
  by (erule refund_cases) (auto simp: find_update set_pay_status_def)

lemma remediate_record_later:
  assumes "service_settler opts" "payments_typed (ps_payments (rs_pay s))"
  shows "recon_table_later (ps_payments (rs_pay s)) (ps_payments (rs_pay (fst (remediate_record opts env d t n now action s))))"
proof (cases action)
  case MarkOrphaned
  then show ?thesis using guarded_update_later [OF assms(2), of PayOrphaned PayLocked t n RECONCILED_TX_SENTINEL "pe_now env"]
      recon_table_refl [OF assms(2)]
    by (auto simp: remediate_record_def isSettledPaymentStatus_def Let_def split: prod.splits)
next
  case BackfillTxHash
  then show ?thesis using guarded_update_later [OF assms(2), of PayReleased PayReleased t n "the (d_onChainTxHash d)" "pe_now env"]
      recon_table_refl [OF assms(2)]
    by (auto simp: remediate_record_def isSettledPaymentStatus_def Let_def split: prod.splits)
next
  case RequeueRelease
  then show ?thesis using assms(1) recon_table_refl [OF assms(2)] settler_release_later [OF assms(2)]
    by (auto simp: remediate_record_def Let_def service_settler_def createSettlerFromCoordinatorSecret_def split: prod.splits sum.splits)
      (metis fst_conv)+
next
  case RefundEscrow
  show ?thesis
  proof (cases "map_option pm_status (findByKey t n (ps_payments (rs_pay s))) \<noteq> Some PayLocked \<or> ro_hasQueue opts \<or> ro_settler opts = None")
    case True
    then show ?thesis using RefundEscrow recon_table_refl [OF assms(2)] by (auto simp: remediate_record_def Let_def split: option.splits)
  next
    case False
    then obtain c m where st: "ro_settler opts = Some (createSettlerFromCoordinatorSecret c m)" using assms(1) by (auto simp: service_settler_def)
    obtain p' r where call: "pay_refund env t n c (rs_pay s) = (p', r)" by fastforce
    have locked: "map_option pm_status (findByKey t n (ps_payments (rs_pay s))) = Some PayLocked" "\<not> ro_hasQueue opts" using False by simp_all
    note later = settler_refund_later [OF assms(2), of env t n c, unfolded call fst_conv]
    show ?thesis
    proof (cases r)
      case (Inl e)
      then show ?thesis using locked RefundEscrow st call later
        by (simp add: remediate_record_def Let_def createSettlerFromCoordinatorSecret_def del: map_option_eq_Some)
    next
      case (Inr h)
      have typed: "payments_typed (ps_payments p')" using later unfolding recon_table_later_def by blast
      have "recon_table_later (ps_payments p') (pay_updateStatus t n PayRefunded h (pe_now env) (ps_payments p'))"
        by (rule refunded_update_later [OF typed]) (use refund_status [OF call [unfolded Inr]] in auto)
      then show ?thesis using locked RefundEscrow st call Inr recon_table_trans [OF later]
        by (simp add: remediate_record_def Let_def createSettlerFromCoordinatorSecret_def del: map_option_eq_Some)
    qed
  qed
next
  case ManualReview
  then show ?thesis using recon_table_refl [OF assms(2)] by (simp add: remediate_record_def)
qed

subsection \<open>What the bookkeeping leaves alone\<close>

lemma emit_frame [simp]: "rs_pay (recon_emitEvent d k s) = rs_pay s" "rs_jobs (recon_emitEvent d k s) = rs_jobs s"
    "rs_pending (recon_emitEvent d k s) = rs_pending s" "rs_running (recon_emitEvent d k s) = rs_running s"
    "rs_reports (recon_emitEvent d k s) = rs_reports s"
  by (simp_all add: recon_emitEvent_def)

lemma park_frame [simp]: "rs_pay (park d t s) = rs_pay s" "rs_jobs (park d t s) = rs_jobs s" "rs_running (park d t s) = rs_running s"
  by (simp_all add: park_def)

lemma report_frame [simp]: "rs_pay (fold report_drift ds s) = rs_pay s" "rs_jobs (fold report_drift ds s) = rs_jobs s"
    "rs_pending (fold report_drift ds s) = rs_pending s" "rs_running (fold report_drift ds s) = rs_running s"
  by (induction ds arbitrary: s) (simp_all add: report_drift_def)

lemma alerts_frame [simp]: "rs_pay (raiseDriftAlerts opts t r s) = rs_pay s" "rs_jobs (raiseDriftAlerts opts t r s) = rs_jobs s"
    "rs_pending (raiseDriftAlerts opts t r s) = rs_pending s" "rs_running (raiseDriftAlerts opts t r s) = rs_running s"
proof -
  have "rs_pay (fold (raise_one opts t) ds s) = rs_pay s \<and> rs_jobs (fold (raise_one opts t) ds s) = rs_jobs s
      \<and> rs_pending (fold (raise_one opts t) ds s) = rs_pending s \<and> rs_running (fold (raise_one opts t) ds s) = rs_running s" for ds
    by (induction ds arbitrary: s) (simp_all add: raise_one_def Let_def split: option.splits)
  then show "rs_pay (raiseDriftAlerts opts t r s) = rs_pay s" "rs_jobs (raiseDriftAlerts opts t r s) = rs_jobs s"
    "rs_pending (raiseDriftAlerts opts t r s) = rs_pending s" "rs_running (raiseDriftAlerts opts t r s) = rs_running s"
    by (simp_all add: raiseDriftAlerts_def)
qed

lemma save_frame [simp]: "rs_pay (save_report r s) = rs_pay s" "rs_jobs (save_report r s) = rs_jobs s"
    "rs_pending (save_report r s) = rs_pending s" "rs_running (save_report r s) = rs_running s"
  by (simp_all add: save_report_def)

lemma pass_step_pay: "rs_pay (fst (pass_step opts pv k d sl)) = rs_pay (fst (pass_outcome opts pv k d (fst sl)))"
    "rs_jobs (fst (pass_step opts pv k d sl)) = rs_jobs (fst (pass_outcome opts pv k d (fst sl)))"
  by (simp_all add: pass_step_def Let_def split: prod.splits)

text \<open>The state in which the loop of a pass ends, and what a pass hands to the store and the payments.\<close>

definition pass_start :: "pass_env \<Rightarrow> recon \<Rightarrow> recon" where
  "pass_start pv s = s\<lparr>rs_running := True, rs_metrics := (rs_metrics s)\<lparr>mt_runs := mt_runs (rs_metrics s) + 1\<rparr>,
     rs_pay := pv_fetching pv (rs_pay s)\<rparr>"

definition pass_detection :: "recon_options \<Rightarrow> pass_env \<Rightarrow> recon \<Rightarrow> drift_result option" where
  "pass_detection opts pv s = detectPaymentDrift (ps_payments (rs_pay s)) (pv_balances pv)
     \<lparr> do_escrowExpiryMs = ro_escrowExpiryMs opts, do_now = pv_now pv, do_taskState = ro_taskState opts \<rparr>
     (verifyReleases opts (ps_payments (rs_pay s)))"

definition empty_log :: pass_log where
  "empty_log = \<lparr> pl_done = [], pl_remediatedByType = emptyDriftCounters DRIFT_TYPES, pl_pendingIds = [] \<rparr>"

text \<open>Payments, jobs and parked drift depend on the loop only, from the state it starts in.\<close>

lemma run_parts:
  assumes "\<not> rs_running s" "pass_detection opts pv s = Some det"
  obtains s3 s4 l s' where "rs_pay s3 = pv_fetching pv (rs_pay s)" "rs_jobs s3 = rs_jobs s" "rs_pending s3 = rs_pending s"
    "pass_loop opts pv 0 (dr_discrepancies det) (s3, empty_log) = (s4, l)"
    "recon_run opts pv tr alertAt s = (s', Inr (pass_report pv tr (ps_payments (rs_pay s)) det l))"
    "rs_pay s' = rs_pay s4" "rs_jobs s' = rs_jobs s4" "rs_pending s' = sq_retain (pl_pendingIds l) (rs_pending s4)" "\<not> rs_running s'"
proof -
  let ?ds = "dr_discrepancies det"
  define s2 where "s2 = fold report_drift ?ds (pass_start pv s)"
  define s3 where "s3 = (if ?ds = [] then s2 else s2\<lparr>rs_metrics := (rs_metrics s2)\<lparr>mt_runsWithDrift := mt_runsWithDrift (rs_metrics s2) + 1\<rparr>\<rparr>)"
  obtain s4 l where loop: "pass_loop opts pv 0 ?ds (s3, empty_log) = (s4, l)" by fastforce
  have s3: "rs_pay s3 = pv_fetching pv (rs_pay s)" "rs_jobs s3 = rs_jobs s" "rs_pending s3 = rs_pending s"
    by (simp_all add: s3_def s2_def pass_start_def)
  have det: "detectPaymentDrift (ps_payments (rs_pay s)) (pv_balances pv)
     \<lparr> do_escrowExpiryMs = ro_escrowExpiryMs opts, do_now = pv_now pv, do_taskState = ro_taskState opts \<rparr>
     (verifyReleases opts (ps_payments (rs_pay s))) = Some det" using assms(2) by (simp add: pass_detection_def)
  note run = recon_run_def [of opts pv tr alertAt s, unfolded Let_def if_not_P [OF assms(1)] det option.case
      pass_start_def [symmetric] s2_def [symmetric] s3_def [symmetric] empty_log_def [symmetric] loop prod.case]
  show ?thesis
    by (rule that [OF s3 loop, of "fst (recon_run opts pv tr alertAt s)"]) (simp_all add: run)
qed

lemma pass_loop_later:
  assumes "service_settler opts" "\<forall>k. service_calls (pv_meanwhile pv k)" "payments_typed (ps_payments (rs_pay (fst sl)))"
  shows "recon_table_later (ps_payments (rs_pay (fst sl))) (ps_payments (rs_pay (fst (pass_loop opts pv k ds sl))))"
  using assms(3)
proof (induction ds arbitrary: k sl)
  case Nil
  then show ?case using recon_table_refl by simp
next
  case (Cons d ds)
  have "recon_table_later (ps_payments (rs_pay (fst sl))) (ps_payments (rs_pay (fst (pass_outcome opts pv k d (fst sl)))))"
  proof (cases "ro_remediationEnabled opts")
    case True
    let ?s = "(fst sl)\<lparr>rs_pay := pv_meanwhile pv k (rs_pay (fst sl))\<rparr>"
    have mid: "recon_table_later (ps_payments (rs_pay (fst sl))) (ps_payments (rs_pay ?s))"
      using service_calls_later [of "pv_meanwhile pv k"] assms(2) Cons.prems by simp
    then have typed: "payments_typed (ps_payments (rs_pay ?s))" unfolding recon_table_later_def by blast
    show ?thesis
      using recon_table_trans [OF mid remediate_record_later [OF assms(1) typed]] mid True
      by (auto simp: pass_outcome_def remediate_def Let_def)
  next
    case False
    then show ?thesis using recon_table_refl [OF Cons.prems] by (simp add: pass_outcome_def)
  qed
  then have step: "recon_table_later (ps_payments (rs_pay (fst sl))) (ps_payments (rs_pay (fst (pass_step opts pv k d sl))))"
    by (simp add: pass_step_pay)
  then have "payments_typed (ps_payments (rs_pay (fst (pass_step opts pv k d sl))))" unfolding recon_table_later_def by blast
  from recon_table_trans [OF step Cons.IH [OF this, of "k + 1"]] show ?case by simp
qed


subsection \<open>One row at a time\<close>

lemma update_one:
  assumes "distinct (map pay_key (xs @ p # ys))"
  shows "map (\<lambda>r. if pay_key r = pay_key p \<and> Q r then g r else r) (xs @ p # ys) = xs @ (if Q p then g p else p) # ys"
proof -
  have out: "pay_key r \<noteq> pay_key p" if "r \<in> set xs \<union> set ys" for r
    using assms that by (auto simp: in_set_conv_decomp)
  have "map (\<lambda>r. if pay_key r = pay_key p \<and> Q r then g r else r) zs = zs" if "set zs \<subseteq> set xs \<union> set ys" for zs
    using that out by (intro map_idI) auto
  then show ?thesis by simp
qed

lemma find_one:
  assumes "distinct (map pay_key (xs @ p # ys))"
  shows "findByKey (pm_taskId p) (pm_nodeId p) (xs @ p # ys) = Some p"
  using row_by_mem [OF assms, of p] by (simp add: findByKey_def pay_key_def)

lemma cas_one:
  assumes "distinct (map pay_key (xs @ p # ys))" "pm_status p = e"
  shows "updateStatusIfCurrent (pm_taskId p) (pm_nodeId p) e st h now (xs @ p # ys) = (xs @ set_pay_status st h now p # ys, True)"
proof -
  have k: "(pm_taskId p, pm_nodeId p) = pay_key p" by (simp add: pay_key_def)
  have "0 < snd (sql_update (\<lambda>r. pay_key r = pay_key p \<and> pm_status r = e) (set_pay_status st h now) (xs @ p # ys))"
    unfolding sql_update_changes using assms(2) by auto
  then show ?thesis unfolding updateStatusIfCurrent_def k
    using update_one [OF assms(1), of "\<lambda>r. pm_status r = e" "set_pay_status st h now"] assms(2)
    by (simp add: sql_update_def case_prod_beta)
qed

lemma status_one:
  assumes "distinct (map pay_key (xs @ p # ys))"
  shows "pay_updateStatus (pm_taskId p) (pm_nodeId p) st h now (xs @ p # ys) = xs @ set_pay_status st h now p # ys"
proof -
  have k: "(pm_taskId p, pm_nodeId p) = pay_key p" by (simp add: pay_key_def)
  show ?thesis unfolding pay_updateStatus_def k using update_one [OF assms, of "\<lambda>_. True" "set_pay_status st h now"] by (simp add: sql_update_def)
qed

lemma remediated_step:
  assumes "pass_outcome opts pv k d s = (s1, r)" "rm_status r = Remediated"
  shows "\<exists>s2 l2. pass_step opts pv k d (s, l) = (s2, l2) \<and> rs_pay s2 = rs_pay s1 \<and> rs_jobs s2 = rs_jobs s1 \<and> rs_pending s2 = rs_pending s1
    \<and> pl_pendingIds l2 = pl_pendingIds l \<and> pl_done l2 = pl_done l @ [d\<lparr>d_remediation := Some r\<rparr>]"
  using assms by (simp add: pass_step_def Let_def)

subsection \<open>An outage\<close>

text \<open>A pass on its own, with no other call at work.\<close>

definition alone :: "pass_env \<Rightarrow> bool" where
  "alone pv \<longleftrightarrow> pv_fetching pv = (\<lambda>s. s) \<and> pv_meanwhile pv = (\<lambda>_ s. s)"

definition addressable :: "payment \<Rightarrow> bool" where
  "addressable p \<longleftrightarrow> pm_taskId p \<noteq> '''' \<and> pm_nodeId p \<noteq> ''''"

lemma of_record_simps [simp]: "d_taskId (of_record p t dt sev) = Some (pm_taskId p)" "d_nodeId (of_record p t dt sev) = Some (pm_nodeId p)"
    "d_driftType (of_record p t dt sev) = dt" "d_balanceId (of_record p t dt sev) = pm_balanceId p"
  by (simp_all add: of_record_def)

lemma orphan_loop:
  assumes "ro_remediationEnabled opts" "pv_meanwhile pv = (\<lambda>_ s. s)"
  shows "distinct (map pay_key (xs @ ps)) \<Longrightarrow> list_all (\<lambda>p. pm_status p = PayLocked \<and> addressable p) ps
    \<Longrightarrow> ps_payments (rs_pay s) = xs @ ps
    \<Longrightarrow> \<exists>s' l' es. pass_loop opts pv k (map detectOrphanedLock ps) (s, l) = (s', l') \<and> rs_jobs s' = rs_jobs s \<and> pl_pendingIds l' = pl_pendingIds l
          \<and> length es = length ps \<and> rs_pay s' = (rs_pay s)\<lparr>ps_payments := xs @ map2 (set_pay_status PayOrphaned RECONCILED_TX_SENTINEL) es ps\<rparr>"
proof (induction ps arbitrary: xs s l k)
  case Nil
  then show ?case by (intro exI [of _ s] exI [of _ l] exI [of _ "[]"]) simp
next
  case (Cons p ps)
  let ?d = "detectOrphanedLock p" and ?now = "pe_now (pv_env pv k)"
  let ?q = "set_pay_status PayOrphaned RECONCILED_TX_SENTINEL ?now p"
  have p: "pm_status p = PayLocked" "pm_taskId p \<noteq> ''''" "pm_nodeId p \<noteq> ''''" using Cons.prems(2) by (simp_all add: addressable_def)
  let ?s1 = "s\<lparr>rs_pay := (rs_pay s)\<lparr>ps_payments := xs @ ?q # ps\<rparr>\<rparr>"
  have "pass_outcome opts pv k ?d s = (?s1, outcome_at (pv_now pv) MarkOrphaned Remediated (Some RECONCILED_TX_SENTINEL))"
    using assms p cas_one [OF Cons.prems(1) p(1)] Cons.prems(3)
    by (simp add: pass_outcome_def remediate_def planRemediation_def detectOrphanedLock_def truthy_def remediate_record_def Let_def)
  from remediated_step [OF this, of l] obtain s2 l2
    where step: "pass_step opts pv k ?d (s, l) = (s2, l2)" "rs_pay s2 = rs_pay ?s1" "rs_jobs s2 = rs_jobs s" "pl_pendingIds l2 = pl_pendingIds l"
    by (auto simp: outcome_at_def)
  have "distinct (map pay_key ((xs @ [?q]) @ ps))" using Cons.prems(1) by (simp add: set_status_key)
  moreover have "list_all (\<lambda>p. pm_status p = PayLocked \<and> addressable p) ps" "ps_payments (rs_pay s2) = (xs @ [?q]) @ ps"
    using Cons.prems(2) step(2) by simp_all
  ultimately obtain s' l' es where "pass_loop opts pv (k + 1) (map detectOrphanedLock ps) (s2, l2) = (s', l')" "rs_jobs s' = rs_jobs s2"
    "pl_pendingIds l' = pl_pendingIds l2" "length es = length ps"
    "rs_pay s' = (rs_pay s2)\<lparr>ps_payments := (xs @ [?q]) @ map2 (set_pay_status PayOrphaned RECONCILED_TX_SENTINEL) es ps\<rparr>"
    using Cons.IH [of "xs @ [?q]" s2 "k + 1" l2] by blast
  then show ?case using step by (intro exI [of _ s'] exI [of _ l'] exI [of _ "?now # es"]) simp
qed

lemma release_loop:
  assumes "ro_remediationEnabled opts" "pv_meanwhile pv = (\<lambda>_ s. s)" "\<not> ro_hasQueue opts"
    and "ro_settler opts = Some (createSettlerFromCoordinatorSecret c memo)"
    and "\<forall>k. pe_load (pv_env pv k) 0 = Inr () \<and> pe_submit (pv_env pv k) 0 = Inr h"
  shows "distinct (map pay_key (xs @ ps)) \<Longrightarrow> list_all (\<lambda>p. pm_status p \<noteq> PayReleased \<and> addressable p) ps
    \<Longrightarrow> ps_payments (rs_pay s) = xs @ ps \<Longrightarrow> cb_state (ps_breaker (rs_pay s)) = CLOSED
    \<Longrightarrow> \<exists>s' l' es. pass_loop opts pv k (map (\<lambda>p. detectUnconfirmedRelease p (b p)) ps) (s, l) = (s', l') \<and> length es = length ps
          \<and> pl_pendingIds l' = pl_pendingIds l \<and> ps_payments (rs_pay s') = xs @ map2 (set_pay_status PayReleased h) es ps
          \<and> ps_submitted (rs_pay s') = ps_submitted (rs_pay s) @ map (\<lambda>p. claim_tx c p (map_option (take 28) memo)) ps"
proof (induction ps arbitrary: xs s l k)
  case Nil
  then show ?case by (intro exI [of _ s] exI [of _ l] exI [of _ "[]"]) simp
next
  case (Cons p ps)
  let ?d = "detectUnconfirmedRelease p (b p)" and ?now = "pe_now (pv_env pv k)" and ?tx = "claim_tx c p (map_option (take 28) memo)"
  let ?q = "set_pay_status PayReleased h ?now p"
  have p: "pm_status p \<noteq> PayReleased" "pm_taskId p \<noteq> ''''" "pm_nodeId p \<noteq> ''''" using Cons.prems(2) by (simp_all add: addressable_def)
  obtain br where br: "cb_state br = CLOSED" "submit_tx (pv_env pv k) ?tx (rs_pay s)
      = ((rs_pay s)\<lparr>ps_breaker := br, ps_submitted := ps_submitted (rs_pay s) @ [?tx]\<rparr>, Inr h)"
    using submit_calm [OF Cons.prems(4)] assms(5) by blast
  let ?s1 = "s\<lparr>rs_pay := (rs_pay s)\<lparr>ps_breaker := br, ps_submitted := ps_submitted (rs_pay s) @ [?tx], ps_payments := xs @ ?q # ps\<rparr>\<rparr>"
  have "pay_release (pv_env pv k) (pm_taskId p) (pm_nodeId p) c memo (rs_pay s) = (rs_pay ?s1, Inr h)"
    using find_one [OF Cons.prems(1)] status_one [OF Cons.prems(1)] p(1) br(2) Cons.prems(3) by (simp add: pay_release_def)
  then have "pass_outcome opts pv k ?d s = (?s1, outcome_at (pv_now pv) RequeueRelease Remediated (Some h))"
    using assms p Cons.prems(3)
    by (simp add: pass_outcome_def remediate_def planRemediation_def detectUnconfirmedRelease_def truthy_def remediate_record_def Let_def
        createSettlerFromCoordinatorSecret_def)
  from remediated_step [OF this, of l] obtain s2 l2
    where step: "pass_step opts pv k ?d (s, l) = (s2, l2)" "rs_pay s2 = rs_pay ?s1" "pl_pendingIds l2 = pl_pendingIds l"
    by (auto simp: outcome_at_def)
  have "distinct (map pay_key ((xs @ [?q]) @ ps))" using Cons.prems(1) by (simp add: set_status_key)
  moreover have "list_all (\<lambda>p. pm_status p \<noteq> PayReleased \<and> addressable p) ps" "ps_payments (rs_pay s2) = (xs @ [?q]) @ ps"
      "cb_state (ps_breaker (rs_pay s2)) = CLOSED"
    using Cons.prems(2) step(2) br(1) by simp_all
  ultimately obtain s' l' es where "pass_loop opts pv (k + 1) (map (\<lambda>p. detectUnconfirmedRelease p (b p)) ps) (s2, l2) = (s', l')"
    "length es = length ps" "pl_pendingIds l' = pl_pendingIds l2"
    "ps_payments (rs_pay s') = (xs @ [?q]) @ map2 (set_pay_status PayReleased h) es ps"
    "ps_submitted (rs_pay s') = ps_submitted (rs_pay s2) @ map (\<lambda>p. claim_tx c p (map_option (take 28) memo)) ps"
    using Cons.IH [of "xs @ [?q]" s2 "k + 1" l2] by blast
  then show ?case using step by (intro exI [of _ s'] exI [of _ l'] exI [of _ "?now # es"]) simp
qed

lemma collect_singles: "(\<forall>x \<in> set xs. f x = Some [g x]) \<Longrightarrow> collect f xs = Some (map g xs)"
  by (induction xs) simp_all

lemma chain_of_mem: "i \<in> ob_balanceId ` set bs \<Longrightarrow> \<exists>b. chain_of bs i = Some b"
  using row_by_None [of ob_balanceId i "rev bs"] by (cases "chain_of bs i") (auto simp: chain_of_def row_by_def)

lemma chain_of_Nil: "chain_of [] i = None"
  by (simp add: chain_of_def)

lemma outage_detection:
  assumes "ps_payments (rs_pay s) = ps" "list_all (\<lambda>p. pm_status p = PayLocked) ps" "pv_balances pv = []"
  shows "\<exists>det. pass_detection opts pv s = Some det \<and> dr_discrepancies det = map detectOrphanedLock ps"
proof -
  have "collect (record_drift o1 [] v) ps = Some (map detectOrphanedLock ps)" for o1 v
    by (rule collect_singles) (use assms(2) in \<open>auto simp: record_drift_def drift_of_def chain_of_Nil list_all_iff\<close>)
  then show ?thesis by (simp add: pass_detection_def assms detect_by_record)
qed

lemma unconfirmed_detection:
  assumes "ps_payments (rs_pay s) = ps" "list_all (\<lambda>p. pm_status p = PayOrphaned) ps"
    and "ob_balanceId ` set (pv_balances pv) = pm_balanceId ` set ps"
  shows "\<exists>det. pass_detection opts pv s = Some det
    \<and> dr_discrepancies det = map (\<lambda>p. detectUnconfirmedRelease p (the (chain_of (pv_balances pv) (pm_balanceId p)))) ps"
proof -
  have "collect (record_drift o1 (pv_balances pv) v) ps
      = Some (map (\<lambda>p. detectUnconfirmedRelease p (the (chain_of (pv_balances pv) (pm_balanceId p)))) ps)" for o1 v
  proof (rule collect_singles, rule ballI)
    fix p assume p: "p \<in> set ps"
    then obtain b where "chain_of (pv_balances pv) (pm_balanceId p) = Some b" using chain_of_mem assms(3) by blast
    moreover have "pm_status p = PayOrphaned" using assms(2) p by (simp add: list_all_iff)
    ultimately show "record_drift o1 (pv_balances pv) v p = Some [detectUnconfirmedRelease p (the (chain_of (pv_balances pv) (pm_balanceId p)))]"
      by (simp add: record_drift_def drift_of_def)
  qed
  moreover have "filter (\<lambda>b. ob_balanceId b \<notin> pm_balanceId ` set ps) (pv_balances pv) = []"
    using assms(3) by (auto simp: filter_empty_conv)
  ultimately show ?thesis by (simp add: pass_detection_def assms(1) detect_by_record)
qed

lemma map2_status: "length es = length ps \<Longrightarrow> list_all (\<lambda>p. pm_status p = st) (map2 (set_pay_status st h) es ps)
    \<and> map pay_key (map2 (set_pay_status st h) es ps) = map pay_key ps \<and> map pm_balanceId (map2 (set_pay_status st h) es ps) = map pm_balanceId ps
    \<and> map pm_taskId (map2 (set_pay_status st h) es ps) = map pm_taskId ps \<and> map pm_nodeId (map2 (set_pay_status st h) es ps) = map pm_nodeId ps"
  by (induction es ps rule: list_induct2) (simp_all add: set_pay_status_def pay_key_def)

lemma addressable_map: "list_all addressable ps \<longleftrightarrow> '''' \<notin> set (map pm_taskId ps) \<and> '''' \<notin> set (map pm_nodeId ps)"
  by (induction ps) (auto simp: addressable_def)

lemma claims_map: "map (\<lambda>p. claim_tx c p m) ps = map (\<lambda>i. \<lparr> tx_source = c, tx_op = ClaimClaimableBalance i, tx_memo = m \<rparr>) (map pm_balanceId ps)"
  by (induction ps) (simp_all add: claim_tx_def)

text \<open>
  C5. An outage releases every escrow. The chain provider answers an unreachable Horizon with the
  empty list; one such pass orphans all locked payments, and reports that as a repair. The next
  pass, with Horizon back and every balance still there, takes the orphaned records for releases that
  never landed and has the settler release all of them, whatever the state of their tasks.
\<close>

theorem outage_releases_every_escrow:
  assumes "payments_typed (ps_payments (rs_pay s))" "list_all (\<lambda>p. pm_status p = PayLocked \<and> addressable p) (ps_payments (rs_pay s))"
    and "\<not> rs_running s" "cb_state (ps_breaker (rs_pay s)) = CLOSED"
    and "ro_remediationEnabled opts" "\<not> ro_hasQueue opts" "ro_settler opts = Some (createSettlerFromCoordinatorSecret c memo)"
    and "alone out" "pv_balances out = listBalances fetch" "fetch 0 = None" "alone again" "ob_balanceId ` set (pv_balances again) = pm_balanceId ` set (ps_payments (rs_pay s))"
    and "\<forall>k. pe_load (pv_env again k) 0 = Inr () \<and> pe_submit (pv_env again k) 0 = Inr h"
  shows "let s1 = fst (recon_run opts out t1 a1 s); s2 = fst (recon_run opts again t2 a2 s1)
    in list_all (\<lambda>p. pm_status p = PayOrphaned) (ps_payments (rs_pay s1)) \<and> rs_pending s1 = []
      \<and> list_all (\<lambda>p. pm_status p = PayReleased) (ps_payments (rs_pay s2))
      \<and> ps_submitted (rs_pay s2) = ps_submitted (rs_pay s) @ map (\<lambda>p. claim_tx c p (map_option (take 28) memo)) (ps_payments (rs_pay s))"
proof -
  define ps where "ps = ps_payments (rs_pay s)"
  note o_alone = assms(8) [unfolded alone_def] and b_alone = assms(11) [unfolded alone_def]
  have dist: "distinct (map pay_key ps)" using assms(1) by (simp add: ps_def payments_typed_def)
  have locked: "list_all (\<lambda>p. pm_status p = PayLocked) ps" using assms(2) by (simp add: ps_def list_all_iff)
  obtain det where det: "pass_detection opts out s = Some det" "dr_discrepancies det = map detectOrphanedLock ps"
    using outage_detection [OF ps_def [symmetric] locked] listBalances_unreachable [of fetch] assms(10) assms(9) by auto
  obtain s3 s4 l s1 where run1: "rs_pay s3 = rs_pay s" "pass_loop opts out 0 (map detectOrphanedLock ps) (s3, empty_log) = (s4, l)"
      "fst (recon_run opts out t1 a1 s) = s1" "rs_pay s1 = rs_pay s4" "rs_pending s1 = sq_retain (pl_pendingIds l) (rs_pending s4)" "\<not> rs_running s1"
    by (rule run_parts [OF assms(3) det(1), of t1 a1]) (use o_alone det(2) in simp)
  obtain es where es: "length es = length ps" "pl_pendingIds l = []"
      "rs_pay s4 = (rs_pay s)\<lparr>ps_payments := map2 (set_pay_status PayOrphaned RECONCILED_TX_SENTINEL) es ps\<rparr>"
    using orphan_loop [OF assms(5), of out "[]" ps s3 0 empty_log] o_alone dist assms(2) run1(1,2) by (auto simp: ps_def empty_log_def)
  define qs where "qs = map2 (set_pay_status PayOrphaned RECONCILED_TX_SENTINEL) es ps"
  note st = map2_status [OF es(1), of PayOrphaned RECONCILED_TX_SENTINEL, folded qs_def]
  have qs: "ps_payments (rs_pay s1) = qs" "cb_state (ps_breaker (rs_pay s1)) = CLOSED" "ps_submitted (rs_pay s1) = ps_submitted (rs_pay s)"
    using run1(4) es(3) assms(4) by (simp_all add: qs_def)
  have same: "ob_balanceId ` set (pv_balances again) = pm_balanceId ` set qs"
    using assms(12) st unfolding ps_def [symmetric] by (metis list.set_map)
  have adr: "list_all (\<lambda>p. pm_status p \<noteq> PayReleased \<and> addressable p) qs"
    using st assms(2) addressable_map [of qs] addressable_map [of ps] by (auto simp: ps_def list_all_iff)
  obtain det2 where det2: "pass_detection opts again s1 = Some det2" "dr_discrepancies det2
      = map (\<lambda>p. detectUnconfirmedRelease p (the (chain_of (pv_balances again) (pm_balanceId p)))) qs"
    using unconfirmed_detection [OF qs(1) conjunct1 [OF st] same] by blast
  obtain s3' s4' l' s2 where run2: "rs_pay s3' = rs_pay s1" "pass_loop opts again 0 (dr_discrepancies det2) (s3', empty_log) = (s4', l')"
      "fst (recon_run opts again t2 a2 s1) = s2" "rs_pay s2 = rs_pay s4'"
    by (rule run_parts [OF run1(6) det2(1), of t2 a2]) (use b_alone in simp)
  have "distinct (map pay_key ([] @ qs))" using st dist by simp
  then obtain es' where es': "length es' = length qs" "ps_payments (rs_pay s2) = map2 (set_pay_status PayReleased h) es' qs"
      "ps_submitted (rs_pay s2) = ps_submitted (rs_pay s) @ map (\<lambda>p. claim_tx c p (map_option (take 28) memo)) qs"
    using release_loop [OF assms(5) _ assms(6,7,13), of "[]" qs s3' 0
        "\<lambda>p. the (chain_of (pv_balances again) (pm_balanceId p))" empty_log] b_alone adr qs run2 by (auto simp: det2(2))
  have "map (\<lambda>p. claim_tx c p (map_option (take 28) memo)) qs = map (\<lambda>p. claim_tx c p (map_option (take 28) memo)) ps"
    using st by (simp only: claims_map)
  moreover have "rs_pending s1 = []"
  proof -
    have "sq_retain [] rows = []" for rows
    proof -
      have "foldl (\<lambda>rs r. fst (sql_delete (\<lambda>x. pd_id x = pd_id r) rs)) rs zs = filter (\<lambda>x. pd_id x \<notin> pd_id ` set zs) rs" for rs zs :: "pending_drift list"
        by (induction zs arbitrary: rs) (auto simp: sql_delete_rows intro!: filter_cong)
      then show ?thesis by (auto simp: sq_retain_def filter_empty_conv)
    qed
    then show ?thesis using run1(5) es(2) by simp
  qed
  ultimately show ?thesis using st qs(1) map2_status [OF es'(1), of PayReleased h] es'(2,3) run1(3) run2(3) by (simp add: Let_def ps_def)
qed

subsection \<open>A second pass\<close>

text \<open>What a pass without settler and queue does to a record: the new status and hash, if it repairs it.\<close>

definition repair_of :: "discrepancy list option \<Rightarrow> payment \<Rightarrow> (escrow_status \<times> string) option" where
  "repair_of drift p = (case drift of Some [d] \<Rightarrow>
       if \<not> addressable p then None
       else (case rp_action (planRemediation d) of MarkOrphaned \<Rightarrow> Some (PayOrphaned, RECONCILED_TX_SENTINEL)
               | BackfillTxHash \<Rightarrow> Some (PayReleased, the (d_onChainTxHash d)) | _ \<Rightarrow> None)
     | _ \<Rightarrow> None)"

definition repaired :: "discrepancy list option \<Rightarrow> ms \<Rightarrow> payment \<Rightarrow> payment" where
  "repaired drift t p = (case repair_of drift p of None \<Rightarrow> p | Some (st, h) \<Rightarrow> set_pay_status st h t p)"

definition parks_only :: "recon_options \<Rightarrow> pass_env \<Rightarrow> bool" where
  "parks_only opts pv \<longleftrightarrow> ro_remediationEnabled opts \<and> \<not> ro_hasQueue opts \<and> ro_settler opts = None \<and> alone pv"

lemma detected_ids:
  "d_taskId (detectOrphanedLock p) = Some (pm_taskId p)" "d_nodeId (detectOrphanedLock p) = Some (pm_nodeId p)"
  "d_taskId (detectExpiredEscrow p b tk) = Some (pm_taskId p)" "d_nodeId (detectExpiredEscrow p b tk) = Some (pm_nodeId p)"
  "d_taskId (detectUnconfirmedRelease p b) = Some (pm_taskId p)" "d_nodeId (detectUnconfirmedRelease p b) = Some (pm_nodeId p)"
  "d_taskId (detectAmountMismatch p b e) = Some (pm_taskId p)" "d_nodeId (detectAmountMismatch p b e) = Some (pm_nodeId p)"
  by (simp_all add: detectOrphanedLock_def detectExpiredEscrow_def detectUnconfirmedRelease_def detectAmountMismatch_def of_record_def)

lemma detected_plans:
  "rp_action (planRemediation (detectOrphanedLock p)) = MarkOrphaned" "rp_action (planRemediation (detectExpiredEscrow p b tk)) = RefundEscrow"
  "rp_action (planRemediation (detectUnconfirmedRelease p b)) = RequeueRelease"
  "rp_action (planRemediation (detectAmountMismatch p b e)) = ManualReview"
  by (simp_all add: planRemediation_def detectOrphanedLock_def detectExpiredEscrow_def detectUnconfirmedRelease_def
      detectAmountMismatch_def of_record_def)

lemma missing_release_shape: "detectMissingReleaseTx p v None = Some d \<Longrightarrow> d_taskId d = Some (pm_taskId p) \<and> d_nodeId d = Some (pm_nodeId p)
    \<and> d_onChainTxHash d = map_option ct_hash (rv_onChainTx v)
    \<and> rp_action (planRemediation d) = (if truthy (d_onChainTxHash d) then BackfillTxHash else ManualReview)"
  by (auto simp: detectMissingReleaseTx_def Let_def of_record_def planRemediation_def split: if_splits)

lemma drift_of_shape: "drift_of o1 oc v p = Some ds \<Longrightarrow> ds = []
    \<or> (\<exists>d. ds = [d] \<and> d_taskId d = Some (pm_taskId p) \<and> d_nodeId d = Some (pm_nodeId p)
         \<and> (rp_action (planRemediation d) = MarkOrphaned \<longrightarrow> pm_status p = PayLocked \<and> oc = None)
         \<and> (rp_action (planRemediation d) = BackfillTxHash \<longrightarrow> pm_status p = PayReleased \<and> truthy (d_onChainTxHash d)))"
  by (cases "pm_status p")
    (auto simp: drift_of_def Let_def detected_ids detected_plans bind_eq_Some_conv
      split: option.splits if_splits dest!: missing_release_shape)

lemma park_outcome:
  assumes "parks_only opts pv" "ps_payments (rs_pay s) = xs @ p # ps" "distinct (map pay_key (xs @ p # ps))"
    and "drift_of o1 oc v p = Some [d]"
  shows "rs_pay (fst (pass_outcome opts pv k d s)) = (rs_pay s)\<lparr>ps_payments := xs @ repaired (Some [d]) (pe_now (pv_env pv k)) p # ps\<rparr>"
proof -
  note shape = drift_of_shape [OF assms(4), simplified]
  have same: "(rs_pay s)\<lparr>ps_payments := xs @ p # ps\<rparr> = rs_pay s" using assms(2) by simp
  have adr: "addressable p \<longleftrightarrow> truthy (d_taskId d) \<and> truthy (d_nodeId d)" using shape by (simp add: addressable_def truthy_def)
  have ids: "the (d_taskId d) = pm_taskId p" "the (d_nodeId d) = pm_nodeId p" using shape by simp_all
  have stat: "rp_action (planRemediation d) = MarkOrphaned \<longrightarrow> pm_status p = PayLocked"
    "rp_action (planRemediation d) = BackfillTxHash \<longrightarrow> pm_status p = PayReleased \<and> truthy (d_onChainTxHash d)" using shape by simp_all
  have out: "pass_outcome opts pv k d s = remediate opts (pv_env pv k) d (pv_now pv) s"
    using assms(1) by (simp add: pass_outcome_def parks_only_def alone_def)
  show ?thesis
  proof (cases "addressable p \<and> rp_automatic (planRemediation d)")
    case False
    then have "rs_pay (fst (pass_outcome opts pv k d s)) = rs_pay s" by (auto simp: out remediate_def adr Let_def)
    moreover have "repaired (Some [d]) t p = p" for t
      using False by (auto simp: repaired_def repair_of_def planRemediation_def split: drift_type.splits)
    ultimately show ?thesis using same by simp
  next
    case True
    then have ok: "truthy (d_taskId d)" "truthy (d_nodeId d)" "rp_automatic (planRemediation d)" "addressable p" using adr by simp_all
    show ?thesis
    proof (cases "rp_action (planRemediation d)")
      case MarkOrphaned
      then show ?thesis using ok ids stat cas_one [OF assms(3), of PayLocked] assms(2)
        by (simp add: out remediate_def Let_def remediate_record_def repaired_def repair_of_def)
    next
      case BackfillTxHash
      then show ?thesis using ok ids stat cas_one [OF assms(3), of PayReleased] assms(2)
        by (simp add: out remediate_def Let_def remediate_record_def repaired_def repair_of_def)
    qed (use ok ids assms(1) same in \<open>simp_all add: out remediate_def Let_def remediate_record_def repaired_def repair_of_def
        parks_only_def\<close>)
  qed
qed

lemma repaired_key: "pay_key (repaired d t p) = pay_key p" "recordKey (repaired d t p) = recordKey p" "pm_balanceId (repaired d t p) = pm_balanceId p"
    "addressable (repaired d t p) = addressable p"
  by (simp_all add: repaired_def set_pay_status_def pay_key_def recordKey_def addressable_def split: option.splits)

lemma park_loop:
  assumes "parks_only opts pv"
  shows "distinct (map pay_key (xs @ ps)) \<Longrightarrow> ps_payments (rs_pay s) = xs @ ps
    \<Longrightarrow> \<forall>p \<in> set ps. \<exists>oc v. drift_of o1 oc v p = Some (f p) \<Longrightarrow> list_all (\<lambda>d. d_driftType d = MissingLocal) rest
    \<Longrightarrow> \<exists>es. length es = length ps \<and> ps_payments (rs_pay (fst (pass_loop opts pv k (concat (map f ps) @ rest) (s, l))))
          = xs @ map2 (\<lambda>t p. repaired (Some (f p)) t p) es ps"
proof (induction ps arbitrary: xs s l k)
  case Nil
  have "rs_pay (fst (pass_loop opts pv k rest (s, l))) = rs_pay s" using Nil.prems(4)
  proof (induction rest arbitrary: k s l)
    case (Cons d rest)
    have "rs_pay (fst (pass_step opts pv k d (s, l))) = rs_pay s"
      using Cons.prems assms by (simp add: pass_step_pay pass_outcome_def remediate_def planRemediation_def parks_only_def alone_def)
    then show ?case using Cons.IH [of "k + 1" "fst (pass_step opts pv k d (s, l))" "snd (pass_step opts pv k d (s, l))"] Cons.prems by simp
  qed simp
  then show ?case using Nil.prems(2) by simp
next
  case (Cons p ps)
  obtain oc v where dr: "drift_of o1 oc v p = Some (f p)" using Cons.prems(3) by auto
  consider "f p = []" | d where "f p = [d]" using drift_of_shape [OF dr] by blast
  then show ?case
  proof cases
    case 1
    have "distinct (map pay_key ((xs @ [p]) @ ps))" "ps_payments (rs_pay s) = (xs @ [p]) @ ps" using Cons.prems(1,2) by simp_all
    then obtain es where "length es = length ps" "ps_payments (rs_pay (fst (pass_loop opts pv k (concat (map f ps) @ rest) (s, l))))
          = (xs @ [p]) @ map2 (\<lambda>t p. repaired (Some (f p)) t p) es ps"
      using Cons.IH [of "xs @ [p]" s k l] Cons.prems(3,4) by auto
    moreover have "repaired (Some (f p)) 0 p = p" using 1 by (simp add: repaired_def repair_of_def)
    ultimately show ?thesis using 1 by (intro exI [of _ "0 # es"]) simp
  next
    case (2 d)
    let ?t = "pe_now (pv_env pv k)" and ?sl = "pass_step opts pv k d (s, l)"
    let ?q = "repaired (Some (f p)) ?t p"
    have pay: "ps_payments (rs_pay (fst ?sl)) = (xs @ [?q]) @ ps"
      using park_outcome [OF assms Cons.prems(2,1) dr [unfolded 2]] by (simp add: pass_step_pay 2)
    have "distinct (map pay_key ((xs @ [?q]) @ ps))" using Cons.prems(1) by (simp add: repaired_key)
    from Cons.IH [OF this pay] obtain es where "length es = length ps"
        "ps_payments (rs_pay (fst (pass_loop opts pv (k + 1) (concat (map f ps) @ rest) (fst ?sl, snd ?sl))))
          = (xs @ [?q]) @ map2 (\<lambda>t p. repaired (Some (f p)) t p) es ps"
      using Cons.prems(3,4) by (metis (no_types, lifting) list.set_intros(2))
    then show ?thesis using 2 by (intro exI [of _ "?t # es"]) simp
  qed
qed

definition verifiable :: "payment \<Rightarrow> bool" where
  "verifiable r \<longleftrightarrow> pm_status r = PayReleased \<and> truthy (pm_txHash r)"

definition checked_keys :: "recon_options \<Rightarrow> payment list \<Rightarrow> string set" where
  "checked_keys opts ps = set (take (nat (ro_maxTxLookups opts)) (map recordKey (filter verifiable ps)))"

lemma verify_loop_Cons: "verify_loop res cap c (r # ps) out = (if \<not> verifiable r then verify_loop res cap c ps out
    else if cap \<le> c then out else verify_loop res cap (c + 1) ps (jm_set out (recordKey r) (res r)))"
  by (simp add: verifiable_def)

lemma verify_loop_other: "k \<notin> recordKey ` set ps \<Longrightarrow> jm_get (verify_loop res cap c ps out) k = jm_get out k"
  by (induction ps arbitrary: c out) (auto simp: jm_get_set)

lemma verify_loop_get: "distinct (map recordKey ps) \<Longrightarrow> p \<in> set ps \<Longrightarrow> jm_get out (recordKey p) = None
  \<Longrightarrow> jm_get (verify_loop res cap c ps out) (recordKey p)
    = (if recordKey p \<in> set (take (nat (cap - c)) (map recordKey (filter verifiable ps))) then Some (res p) else None)"
proof (induction ps arbitrary: c out)
  case (Cons r ps)
  have next_take: "take (nat (cap - c)) (x # xs) = x # take (nat (cap - (c + 1))) xs" if "c < cap" for x and xs :: "string list"
  proof -
    have "nat (cap - c) = Suc (nat (cap - (c + 1)))" using that by simp
    then show ?thesis by simp
  qed
  have stop: "nat (cap - c) = 0" if "cap \<le> c" using that by simp
  have sub: "set (take n (map recordKey (filter verifiable ps))) \<subseteq> recordKey ` set ps" for n
    using set_take_subset [of n "map recordKey (filter verifiable ps)"] by auto
  show ?case
  proof (cases "p = r")
    case True
    then have "recordKey p \<notin> recordKey ` set ps" using Cons.prems(1) by simp
    moreover from this have "recordKey p \<notin> set (take n (map recordKey (filter verifiable ps)))" for n using sub [of n] by blast
    ultimately show ?thesis using Cons.prems(3) verify_loop_other [of "recordKey p" ps] True next_take stop
      by (auto simp: verify_loop_Cons jm_get_set not_le simp del: verify_loop.simps)
  next
    case False
    then have p: "p \<in> set ps" using Cons.prems(2) by simp
    then have "recordKey p \<in> recordKey ` set ps" by simp
    then have p: "p \<in> set ps" "recordKey p \<noteq> recordKey r" using Cons.prems(1) p by fastforce+
    show ?thesis
      using Cons.IH [OF _ p(1), of out c] Cons.IH [OF _ p(1), of "jm_set out (recordKey r) (res r)" "c + 1"] Cons.prems(1,3) p(2)
        next_take stop by (auto simp: verify_loop_Cons jm_get_set not_le simp del: verify_loop.simps)
  qed
qed simp

lemma verification_checked:
  assumes "distinct (map recordKey ps)" "p \<in> set ps"
  shows "verification_of (verifyReleases opts ps) p
    = (if recordKey p \<in> checked_keys opts ps then Some (createReleaseTransactionResolver (ro_claims opts) p) else None)"
proof (cases "filter verifiable ps = []")
  case True
  then show ?thesis by (simp add: verification_of_def verifyReleases_def checked_keys_def verifiable_def [abs_def])
next
  case False
  then show ?thesis using verify_loop_get [OF assms, of "[]" "createReleaseTransactionResolver (ro_claims opts)" "ro_maxTxLookups opts" 0]
    by (simp add: verification_of_def verifyReleases_def verifyReleaseTransactions_def checked_keys_def verifiable_def [abs_def])
qed

lemma repair_shape: "drift_of o1 oc v p = Some ds \<Longrightarrow> repair_of (Some ds) p = Some (st, h) \<Longrightarrow>
    st = PayOrphaned \<and> h = RECONCILED_TX_SENTINEL \<and> pm_status p = PayLocked \<and> oc = None
    \<or> st = PayReleased \<and> pm_status p = PayReleased \<and> oc = None
        \<and> (\<exists>rv d. v = Some rv \<and> detectMissingReleaseTx p rv None = Some d \<and> truthy (d_onChainTxHash d) \<and> h = the (d_onChainTxHash d))"
  by (cases "pm_status p")
    (auto simp: drift_of_def repair_of_def detected_plans Let_def bind_eq_Some_conv
      split: option.splits if_splits list.splits remediation_action.splits dest!: missing_release_shape)

text \<open>Repairs do not depend on the time of the pass.\<close>

lemma repair_any_time:
  assumes "drift_of o2 oc v p = Some ds2" "repair_of (Some ds2) p = Some x" "drift_of o1 oc v p = Some ds1"
  shows "repair_of (Some ds1) p = Some x"
proof -
  obtain st h where x: "x = (st, h)" by fastforce
  have "drift_of o2 oc v p = drift_of o1 oc v p"
    using repair_shape [OF assms(1) assms(2) [unfolded x]] by (auto simp: drift_of_def)
  then show ?thesis using assms by simp
qed

text \<open>A repaired record needs no repair.\<close>

lemma repaired_done:
  assumes "drift_of o1 oc v p = Some ds" "v = (if c then Some (createReleaseTransactionResolver claims p) else None)"
    and "\<forall>h tx. cp_getTransaction claims h = Some tx \<longrightarrow> ct_hash tx = h"
    and "q = repaired (Some ds) t p" "drift_of o2 oc (if c then Some (createReleaseTransactionResolver claims q) else None) q = Some ds2"
  shows "repair_of (Some ds2) q = None"
proof (cases "repair_of (Some ds) p")
  case None
  then have q: "q = p" using assms(4) by (simp add: repaired_def)
  show ?thesis
  proof (rule ccontr)
    assume "repair_of (Some ds2) q \<noteq> None"
    then obtain x where "repair_of (Some ds2) p = Some x" using q by auto
    then show False using repair_any_time [OF assms(5) [unfolded q assms(2) [symmetric]] _ assms(1)] None by simp
  qed
next
  case (Some x)
  obtain st h where x: "x = (st, h)" by fastforce
  have qd: "q = set_pay_status st h t p" using assms(4) Some x by (simp add: repaired_def)
  have qf: "pm_status q = st" "pm_txHash q = Some h" "pm_balanceId q = pm_balanceId p" by (simp_all add: qd set_pay_status_def)
  from repair_shape [OF assms(1) Some [unfolded x]] consider "st = PayOrphaned" "oc = None"
    | rv d where "st = PayReleased" "oc = None" "v = Some rv" "detectMissingReleaseTx p rv None = Some d" "truthy (d_onChainTxHash d)"
        "h = the (d_onChainTxHash d)" by blast
  then show ?thesis
  proof cases
    case 1
    then show ?thesis using assms(5) qf by (simp add: drift_of_def repair_of_def)
  next
    case (2 rv d)
    have c: "c" "rv = createReleaseTransactionResolver claims p" using 2(3) assms(2) by (auto split: if_splits)
    have real: "map_option ct_hash (rv_onChainTx rv) = Some h" "h \<noteq> ''''"
      using missing_release_shape [OF 2(4)] 2(5,6) by (auto simp: truthy_def)
    have "cp_findClaim claims (pm_balanceId p) \<noteq> None"
    proof
      assume none: "cp_findClaim claims (pm_balanceId p) = None"
      show False using real c(2) none assms(3) 2(4)
        by (auto simp: createReleaseTransactionResolver_def detectMissingReleaseTx_def truthy_def split: if_splits)
    qed
    then obtain claim where "cp_findClaim claims (pm_balanceId p) = Some claim" by auto
    then have "detectMissingReleaseTx q (createReleaseTransactionResolver claims q) None = None"
      using real c(2) qf by (simp add: createReleaseTransactionResolver_def detectMissingReleaseTx_def truthy_def)
    then show ?thesis using assms(5) qf 2(1,2) c(1) by (simp add: drift_of_def repair_of_def)
  qed
qed

definition the_drift :: "recon_options \<Rightarrow> pass_env \<Rightarrow> payment list \<Rightarrow> payment \<Rightarrow> discrepancy list option" where
  "the_drift opts pv ps p = drift_of \<lparr> do_escrowExpiryMs = ro_escrowExpiryMs opts, do_now = pv_now pv, do_taskState = ro_taskState opts \<rparr>
     (chain_of (pv_balances pv) (pm_balanceId p)) (verification_of (verifyReleases opts ps) p) p"

text \<open>The table after a pass that parks only.\<close>

lemma park_pass:
  assumes "parks_only opts pv" "\<not> rs_running s" "distinct (map pay_key (ps_payments (rs_pay s)))"
  shows "\<not> rs_running (fst (recon_run opts pv tr a s)) \<and> (case pass_detection opts pv s of
      None \<Rightarrow> ps_payments (rs_pay (fst (recon_run opts pv tr a s))) = ps_payments (rs_pay s) \<and> snd (recon_run opts pv tr a s) = Inl BadBigInt
    | Some _ \<Rightarrow> (\<forall>p \<in> set (ps_payments (rs_pay s)). \<exists>ds. the_drift opts pv (ps_payments (rs_pay s)) p = Some ds)
        \<and> (\<exists>es. length es = length (ps_payments (rs_pay s)) \<and> ps_payments (rs_pay (fst (recon_run opts pv tr a s)))
              = map2 (\<lambda>t p. repaired (the_drift opts pv (ps_payments (rs_pay s)) p) t p) es (ps_payments (rs_pay s))))"
proof (cases "pass_detection opts pv s")
  case None
  then show ?thesis using assms(1,2) by (simp add: recon_run_def pass_detection_def Let_def parks_only_def alone_def)
next
  case (Some det)
  define ps where "ps = ps_payments (rs_pay s)"
  let ?f = "\<lambda>p. the (the_drift opts pv ps p)"
  let ?rest = "map detectMissingLocal (filter (\<lambda>b. ob_balanceId b \<notin> pm_balanceId ` set ps) (pv_balances pv))"
  have rd: "record_drift \<lparr> do_escrowExpiryMs = ro_escrowExpiryMs opts, do_now = pv_now pv, do_taskState = ro_taskState opts \<rparr> (pv_balances pv)
      (verifyReleases opts ps) = the_drift opts pv ps" by (rule ext) (simp add: record_drift_def the_drift_def)
  obtain dss where dss: "those (map (the_drift opts pv ps) ps) = Some dss" "dr_discrepancies det = concat dss @ ?rest"
    using Some by (auto simp: pass_detection_def ps_def [symmetric] detect_by_record rd collect_those split: option.splits)
  note shape = those_map_Some [OF dss(1)]
  have all: "\<forall>p \<in> set ps. the_drift opts pv ps p = Some (?f p)" using shape by auto
  have ds: "dr_discrepancies det = concat (map ?f ps) @ ?rest" using shape dss(2) by (simp add: comp_def)
  obtain s3 s4 l s' where run: "rs_pay s3 = rs_pay s" "pass_loop opts pv 0 (dr_discrepancies det) (s3, empty_log) = (s4, l)"
      "fst (recon_run opts pv tr a s) = s'" "rs_pay s' = rs_pay s4" "\<not> rs_running s'"
    by (rule run_parts [OF assms(2) Some, of tr a]) (use assms(1) in \<open>simp add: parks_only_def alone_def\<close>)
  have "\<exists>es. length es = length ps \<and> ps_payments (rs_pay (fst (pass_loop opts pv 0 (concat (map ?f ps) @ ?rest) (s3, empty_log))))
      = [] @ map2 (\<lambda>t p. repaired (Some (?f p)) t p) es ps"
  proof (rule park_loop [OF assms(1), where ?o1.0 = "\<lparr> do_escrowExpiryMs = ro_escrowExpiryMs opts, do_now = pv_now pv, do_taskState = ro_taskState opts \<rparr>"])
    show "\<forall>p\<in>set ps. \<exists>oc v. drift_of \<lparr> do_escrowExpiryMs = ro_escrowExpiryMs opts, do_now = pv_now pv, do_taskState = ro_taskState opts \<rparr> oc v p = Some (?f p)"
      using all unfolding the_drift_def by blast
  qed (use assms(3) run(1) in \<open>simp_all add: ps_def list_all_iff detectMissingLocal_def\<close>)
  moreover have "map2 (\<lambda>t p. repaired (Some (?f p)) t p) es ps = map2 (\<lambda>t p. repaired (the_drift opts pv ps p) t p) es ps" for es
    using all by (auto dest: set_zip_rightD)
  ultimately show ?thesis using run all Some by (auto simp: ps_def [symmetric] ds)
qed

lemma truthy_the: "truthy x \<Longrightarrow> truthy (Some (the x))"
  by (cases x) (simp_all add: truthy_def)

lemma repaired_verifiable: "the_drift opts pv ps p = Some ds \<Longrightarrow> distinct (map recordKey ps) \<Longrightarrow> p \<in> set ps
    \<Longrightarrow> verifiable (repaired (Some ds) t p) = verifiable p"
proof (cases "repair_of (Some ds) p")
  case (Some x)
  assume dr: "the_drift opts pv ps p = Some ds" and ps: "distinct (map recordKey ps)" "p \<in> set ps"
  obtain st h where x: "x = (st, h)" by fastforce
  have q: "pm_status (repaired (Some ds) t p) = st" "pm_txHash (repaired (Some ds) t p) = Some h"
    using Some x by (simp_all add: repaired_def set_pay_status_def)
  have keys: "verifiable p" if chk: "recordKey p \<in> checked_keys opts ps"
  proof -
    obtain r where "r \<in> set ps" "verifiable r" "recordKey r = recordKey p" using chk by (auto simp: checked_keys_def dest!: in_set_takeD)
    then show ?thesis using distinct_key_eq [OF ps(1), of r p] ps(2) by simp
  qed
  from repair_shape [OF dr [unfolded the_drift_def] Some [unfolded x]] show ?thesis
    using q keys by (auto simp: verifiable_def verification_checked [OF ps] split: if_splits dest!: missing_release_shape intro: truthy_the)
qed (simp add: repaired_def)

lemma checked_repaired:
  assumes "length es = length ps" "\<forall>t. \<forall>p \<in> set ps. verifiable (g t p) = verifiable p \<and> recordKey (g t p) = recordKey p"
  shows "checked_keys opts (map2 g es ps) = checked_keys opts ps" "map recordKey (map2 g es ps) = map recordKey ps"
proof -
  have "map recordKey (filter verifiable (map2 g es ps)) = map recordKey (filter verifiable ps) \<and> map recordKey (map2 g es ps) = map recordKey ps"
    using assms by (induction es ps rule: list_induct2) auto
  then show "checked_keys opts (map2 g es ps) = checked_keys opts ps" "map recordKey (map2 g es ps) = map recordKey ps"
    by (simp_all add: checked_keys_def)
qed

lemma recordKey_distinct: "distinct (map recordKey ps) \<Longrightarrow> distinct (map pay_key ps)"
  by (induction ps) (force simp: recordKey_def pay_key_def)+

text \<open>
  The second pass finds nothing to repair. With no settler and no queue, repeating a pass over
  the same balances, at any later time, leaves every payment as the first pass left it: what was
  repaired needs no repair again and what was not is left to an operator. The chain is asked to be
  consistent: a transaction looked up by its hash has that hash.
\<close>

theorem second_pass_repairs_nothing:
  assumes "parks_only opts pv" "parks_only opts pv2" "pv_balances pv2 = pv_balances pv"
    and "\<not> rs_running s" "distinct (map recordKey (ps_payments (rs_pay s)))"
    and "\<forall>h tx. cp_getTransaction (ro_claims opts) h = Some tx \<longrightarrow> ct_hash tx = h"
    and "recon_run opts pv tr a s = (s1, Inr report)"
  shows "ps_payments (rs_pay (fst (recon_run opts pv2 tr2 a2 s1))) = ps_payments (rs_pay s1)"
proof -
  define ps where "ps = ps_payments (rs_pay s)"
  have dist: "distinct (map recordKey ps)" using assms(5) by (simp add: ps_def)
  note first = park_pass [OF assms(1,4) recordKey_distinct [OF assms(5)], of tr a, unfolded assms(7) fst_conv snd_conv, folded ps_def]
  have idle: "\<not> rs_running s1" using first by blast
  have all: "\<forall>p \<in> set ps. \<exists>ds. the_drift opts pv ps p = Some ds"
    and "\<exists>es. length es = length ps \<and> ps_payments (rs_pay s1) = map2 (\<lambda>t p. repaired (the_drift opts pv ps p) t p) es ps"
    by (cases "pass_detection opts pv s"; use first in simp)+
  then obtain es where es: "length es = length ps" "ps_payments (rs_pay s1) = map2 (\<lambda>t p. repaired (the_drift opts pv ps p) t p) es ps" by blast
  define qs where "qs = map2 (\<lambda>t p. repaired (the_drift opts pv ps p) t p) es ps"
  have pres: "\<forall>t. \<forall>p \<in> set ps. verifiable (repaired (the_drift opts pv ps p) t p) = verifiable p
      \<and> recordKey (repaired (the_drift opts pv ps p) t p) = recordKey p"
    using all dist repaired_verifiable [of opts pv ps] by (metis repaired_key(2))
  note ck = checked_repaired [OF es(1) pres, folded qs_def]
  have distq: "distinct (map recordKey qs)" using ck(2) dist by simp
  have none: "repair_of (the_drift opts pv2 qs q) q = None" if q: "q \<in> set qs" "the_drift opts pv2 qs q = Some ds2" for q ds2
  proof -
    obtain t p where p: "p \<in> set ps" "q = repaired (the_drift opts pv ps p) t p" using q(1) by (auto simp: qs_def dest: set_zip_rightD)
    obtain ds where ds: "the_drift opts pv ps p = Some ds" using all p(1) by blast
    have key: "recordKey q = recordKey p" "pm_balanceId q = pm_balanceId p" by (simp_all add: p(2) repaired_key)
    show ?thesis unfolding q(2)
      by (rule repaired_done [OF ds [unfolded the_drift_def verification_checked [OF dist p(1)]] refl assms(6) p(2) [unfolded ds]
            q(2) [unfolded the_drift_def verification_checked [OF distq q(1)] key ck assms(3)]])
  qed
  note second = park_pass [OF assms(2) idle recordKey_distinct, of tr2 a2, unfolded es(2), folded qs_def, OF distq]
  show ?thesis
  proof (cases "pass_detection opts pv2 s1")
    case None
    then show ?thesis using second es(2) by (simp add: qs_def)
  next
    case (Some det)
    then obtain es2 where e2: "length es2 = length qs" "\<forall>q \<in> set qs. \<exists>ds. the_drift opts pv2 qs q = Some ds"
        "ps_payments (rs_pay (fst (recon_run opts pv2 tr2 a2 s1))) = map2 (\<lambda>t p. repaired (the_drift opts pv2 qs p) t p) es2 qs"
      using second by auto
    have "repaired (the_drift opts pv2 qs q) t q = q" if "q \<in> set qs" for q t
      using none [OF that] e2(2) that by (auto simp: repaired_def)
    then have "map2 (\<lambda>t p. repaired (the_drift opts pv2 qs p) t p) es2 qs = map snd (zip es2 qs)"
      by (auto dest: set_zip_rightD)
    then show ?thesis using e2(1,3) es(2) by (simp add: qs_def)
  qed
qed

subsection \<open>The contract of the stores of parked drift\<close>

text \<open>What becomes of an entry when a drift of its id is parked: the first sighting stays, the count goes up.\<close>

definition parked_as :: "pending_drift \<Rightarrow> pending_drift option \<Rightarrow> pending_drift \<Rightarrow> bool" where
  "parked_as d old e \<longleftrightarrow> pd_driftType e = pd_driftType d \<and> pd_balanceId e = pd_balanceId d \<and> pd_severity e = pd_severity d
     \<and> pd_recommendedAction e = pd_recommendedAction d \<and> pd_lastSeenAt e = pd_lastSeenAt d
     \<and> pd_detectedAt e = (case old of None \<Rightarrow> pd_detectedAt d | Some o1 \<Rightarrow> pd_detectedAt o1)
     \<and> pd_occurrences e = (case old of None \<Rightarrow> pd_occurrences d | Some o1 \<Rightarrow> pd_occurrences o1 + 1)"

definition count_id :: "string \<Rightarrow> pending_drift list \<Rightarrow> nat" where
  "count_id i ds = length (filter (\<lambda>d. pd_id d = i) ds)"

locale pending_store =
  fixes look :: "'s \<Rightarrow> string \<Rightarrow> pending_drift option"
    and upsert :: "pending_drift \<Rightarrow> 's \<Rightarrow> 's"
    and retain :: "string list \<Rightarrow> 's \<Rightarrow> 's"
    and wf :: "'s \<Rightarrow> bool"
  assumes upsert_same: "wf s \<Longrightarrow> \<exists>e. look (upsert d s) (pd_id d) = Some e \<and> parked_as d (look s (pd_id d)) e"
    and upsert_other: "wf s \<Longrightarrow> i \<noteq> pd_id d \<Longrightarrow> look (upsert d s) i = look s i"
    and upsert_wf: "wf s \<Longrightarrow> wf (upsert d s)"
    and retain_look: "wf s \<Longrightarrow> look (retain ids s) i = (if i \<in> set ids then look s i else None)"
    and retain_wf: "wf s \<Longrightarrow> wf (retain ids s)"
begin

lemma upserts_wf: "wf s \<Longrightarrow> wf (fold upsert ds s)"
  by (induction ds arbitrary: s) (simp_all add: upsert_wf)

lemma upserts_look:
  assumes "list_all (\<lambda>d. pd_occurrences d = 1 \<and> pd_detectedAt d = t \<and> pd_lastSeenAt d = t) ds" "wf s"
  shows "case look (fold upsert ds s) i of
      None \<Rightarrow> look s i = None \<and> i \<notin> pd_id ` set ds
    | Some e \<Rightarrow> pd_occurrences e = (case look s i of None \<Rightarrow> 0 | Some o1 \<Rightarrow> pd_occurrences o1) + count_id i ds
        \<and> pd_detectedAt e = (case look s i of None \<Rightarrow> t | Some o1 \<Rightarrow> pd_detectedAt o1)
        \<and> (i \<in> pd_id ` set ds \<longrightarrow> pd_lastSeenAt e = t) \<and> (look s i = None \<longrightarrow> i \<in> pd_id ` set ds)"
  using assms
proof (induction ds arbitrary: s)
  case Nil
  then show ?case by (simp add: count_id_def split: option.splits)
next
  case (Cons d ds)
  have wf: "wf (upsert d s)" using Cons.prems(2) by (rule upsert_wf)
  have IH: "case look (fold upsert ds (upsert d s)) i of
      None \<Rightarrow> look (upsert d s) i = None \<and> i \<notin> pd_id ` set ds
    | Some e \<Rightarrow> pd_occurrences e = (case look (upsert d s) i of None \<Rightarrow> 0 | Some o1 \<Rightarrow> pd_occurrences o1) + count_id i ds
        \<and> pd_detectedAt e = (case look (upsert d s) i of None \<Rightarrow> t | Some o1 \<Rightarrow> pd_detectedAt o1)
        \<and> (i \<in> pd_id ` set ds \<longrightarrow> pd_lastSeenAt e = t) \<and> (look (upsert d s) i = None \<longrightarrow> i \<in> pd_id ` set ds)"
    by (rule Cons.IH [OF _ wf]) (use Cons.prems(1) in simp)
  show ?case
  proof (cases "i = pd_id d")
    case True
    obtain e where e: "look (upsert d s) i = Some e" "parked_as d (look s i) e" using upsert_same [OF Cons.prems(2)] True by blast
    have last: "pd_lastSeenAt f = t" if "look (fold upsert ds (upsert d s)) i = Some f" "i \<notin> pd_id ` set ds" for f
    proof -
      have "look (fold upsert zs u) i = look u i" if "wf u" "i \<notin> pd_id ` set zs" for zs u
        using that by (induction zs arbitrary: u) (auto simp: upsert_other upsert_wf)
      then have "f = e" using that wf e(1) by simp
      then show ?thesis using e(2) Cons.prems(1) by (simp add: parked_as_def)
    qed
    then show ?thesis using IH e Cons.prems(1) True
      by (cases "look s i") (auto simp: parked_as_def count_id_def split: option.splits)
  next
    case False
    then show ?thesis using IH upsert_other [OF Cons.prems(2) False] by (auto simp: count_id_def split: option.splits)
  qed
qed

lemma parked_exactly:
  assumes "list_all (\<lambda>d. pd_occurrences d = 1 \<and> pd_detectedAt d = t \<and> pd_lastSeenAt d = t) ds" "wf s"
  shows "look (retain (map pd_id ds) (fold upsert ds s)) i \<noteq> None \<longleftrightarrow> i \<in> pd_id ` set ds"
    and "look (retain (map pd_id ds) (fold upsert ds s)) i = Some e \<Longrightarrow>
      pd_occurrences e = (case look s i of None \<Rightarrow> 0 | Some o1 \<Rightarrow> pd_occurrences o1) + count_id i ds
        \<and> pd_detectedAt e = (case look s i of None \<Rightarrow> t | Some o1 \<Rightarrow> pd_detectedAt o1) \<and> pd_lastSeenAt e = t"
  using upserts_look [OF assms, of i] retain_look [OF upserts_wf [OF assms(2), of ds], of "map pd_id ds" i]
  by (auto split: option.splits if_splits)

end

text \<open>Both stores keep it.\<close>

lemma sq_retain_filter: "sq_retain ids rows = filter (\<lambda>r. pd_id r \<in> set ids) rows"
proof -
  have "foldl (\<lambda>rs r. if pd_id r \<in> set ids then rs else fst (sql_delete (\<lambda>x. pd_id x = pd_id r) rs)) rs zs
      = filter (\<lambda>x. pd_id x \<in> set ids \<or> pd_id x \<notin> pd_id ` set zs) rs" for rs zs :: "pending_drift list"
    by (induction zs arbitrary: rs) (auto simp: sql_delete_rows intro!: filter_cong)
  from this [of rows rows] show ?thesis unfolding sq_retain_def by (auto intro!: filter_cong)
qed

definition pending_wf :: "pending_drift list \<Rightarrow> bool" where
  "pending_wf rows \<longleftrightarrow> distinct (map pd_id rows)"

interpretation sq: pending_store "\<lambda>rows i. row_by pd_id i rows" sq_upsert sq_retain pending_wf
proof
  fix rows :: "pending_drift list" and d :: pending_drift and i ids
  assume wf: "pending_wf rows"
  have one: "row_by pd_id k [q] = (if pd_id q = k then Some q else None)" for k and q :: pending_drift by (simp add: row_by_def)
  let ?u = "\<lambda>r. r\<lparr>pd_driftType := pd_driftType d, pd_balanceId := pd_balanceId d, pd_taskId := pd_taskId d, pd_nodeId := pd_nodeId d,
      pd_severity := pd_severity d, pd_recommendedAction := pd_recommendedAction d, pd_lastSeenAt := pd_lastSeenAt d,
      pd_occurrences := pd_occurrences r + 1\<rparr>"
  have look: "row_by pd_id k (sq_upsert d rows) = (case row_by pd_id (pd_id d) rows of
      None \<Rightarrow> if k = pd_id d then Some (d\<lparr>pd_resolution := None\<rparr>) else row_by pd_id k rows
    | Some _ \<Rightarrow> map_option (\<lambda>r. if pd_id r = pd_id d then ?u r else r) (row_by pd_id k rows))" for k
    by (auto simp: sq_upsert_def sql_update_rows row_by_update row_by_append one split: option.splits)
  show "\<exists>e. row_by pd_id (pd_id d) (sq_upsert d rows) = Some e \<and> parked_as d (row_by pd_id (pd_id d) rows) e"
    unfolding look by (auto simp: parked_as_def dest: row_by_Some split: option.splits)
  show "row_by pd_id i (sq_upsert d rows) = row_by pd_id i rows" if "i \<noteq> pd_id d"
    unfolding look using that by (cases "row_by pd_id i rows") (auto dest: row_by_Some split: option.splits)
  show "pending_wf (sq_upsert d rows)"
  proof (cases "row_by pd_id (pd_id d) rows")
    case None
    then show ?thesis using wf by (simp add: pending_wf_def sq_upsert_def row_by_None)
  next
    case (Some e)
    have "map pd_id (fst (sql_update (\<lambda>r. pd_id r = pd_id d) ?u rows)) = map pd_id rows" by (rule sql_update_keys) simp
    then show ?thesis using wf Some by (simp add: pending_wf_def sq_upsert_def)
  qed
  show "row_by pd_id i (sq_retain ids rows) = (if i \<in> set ids then row_by pd_id i rows else None)"
    using wf by (auto simp: sq_retain_filter pending_wf_def row_by_filter split: option.splits dest: row_by_Some)
  show "pending_wf (sq_retain ids rows)" using wf by (simp add: sq_retain_filter pending_wf_def distinct_filter_key)
qed

lemma mem_retain_get: "jm_get (mem_retain ids m) i = (if i \<in> set ids then jm_get m i else None)"
proof -
  have "jm_get (foldl (\<lambda>m' k. if k \<in> set ids then m' else jm_del m' k) m' ks) i = (if i \<in> set ids \<or> i \<notin> set ks then jm_get m' i else None)" for m' ks
    by (induction ks arbitrary: m') (auto simp: jm_get_del)
  from this [of m "map fst m"] show ?thesis using map_of_eq_None_iff [of m i] by (simp add: mem_retain_def)
qed

interpretation mem: pending_store jm_get mem_upsert mem_retain "\<lambda>_. True"
  by unfold_locales (auto simp: mem_upsert_def jm_get_set mem_retain_get parked_as_def split: option.splits)

subsection \<open>What a pass parks\<close>

definition unrepaired :: "discrepancy \<Rightarrow> bool" where
  "unrepaired d \<longleftrightarrow> map_option rm_status (d_remediation d) \<noteq> Some Remediated"

lemma pending_of_remediation [simp]: "pending_of (d\<lparr>d_remediation := r\<rparr>) t = pending_of d t"
  by (simp add: pending_of_def driftId_def planRemediation_def split: drift_type.splits)

lemma remediate_pending: "rs_pending (fst (remediate opts env d t s)) = rs_pending s"
  by (simp add: remediate_def remediate_record_def Let_def split: remediation_action.splits option.splits prod.splits sum.splits)

lemma outcome_pending: "rs_pending (fst (pass_outcome opts pv k d s)) = rs_pending s"
  by (simp add: pass_outcome_def remediate_pending)

lemma pass_loop_parks:
  "pass_loop opts pv k ds (s, l) = (s', l') \<Longrightarrow> \<exists>new. pl_done l' = pl_done l @ new \<and> length new = length ds
     \<and> list_all (\<lambda>d. d_remediation d \<noteq> None) new
     \<and> pl_pendingIds l' = pl_pendingIds l @ map driftId (filter unrepaired new)
     \<and> rs_pending s' = fold sq_upsert (map (\<lambda>d. pending_of d (pv_now pv)) (filter unrepaired new)) (rs_pending s)"
proof (induction ds arbitrary: k s l)
  case (Cons d ds)
  obtain s1 r where out: "pass_outcome opts pv k d s = (s1, r)" by fastforce
  obtain s2 l2 where step: "pass_step opts pv k d (s, l) = (s2, l2)" by fastforce
  define d' where "d' = d\<lparr>d_remediation := Some r\<rparr>"
  have one: "pl_done l2 = pl_done l @ [d']" "pl_pendingIds l2 = pl_pendingIds l @ map driftId (filter unrepaired [d'])"
      "rs_pending s2 = fold sq_upsert (map (\<lambda>d. pending_of d (pv_now pv)) (filter unrepaired [d'])) (rs_pending s)"
    using step out outcome_pending [of opts pv k d s] by (auto simp: pass_step_def d'_def Let_def unrepaired_def park_def split: if_splits)
  obtain new where new: "pl_done l' = pl_done l2 @ new" "length new = length ds" "list_all (\<lambda>d. d_remediation d \<noteq> None) new"
     "pl_pendingIds l' = pl_pendingIds l2 @ map driftId (filter unrepaired new)"
     "rs_pending s' = fold sq_upsert (map (\<lambda>d. pending_of d (pv_now pv)) (filter unrepaired new)) (rs_pending s2)"
    using Cons.IH [of "k + 1" s2 l2] Cons.prems step by auto
  show ?case by (intro exI [of _ "d' # new"]) (use new one in \<open>auto simp: d'_def\<close>)
qed auto

text \<open>
  The queue of the operator is what a pass left. After a pass the table of parked drift holds
  exactly one row for the id of each discrepancy that was not repaired; its count has gone up by the
  discrepancies of that id, it keeps the time of its first sighting and was last seen now. The
  counters of the report add up to the discrepancies found.
\<close>

theorem parked_is_what_is_left:
  assumes "pending_wf (rs_pending s)" "\<not> rs_running s" "recon_run opts pv tr a s = (s', Inr report)"
  shows "pending_wf (rs_pending s')
    \<and> (row_by pd_id i (rs_pending s') \<noteq> None \<longleftrightarrow> (\<exists>d \<in> set (rr_discrepancies report). unrepaired d \<and> driftId d = i))
    \<and> (case row_by pd_id i (rs_pending s') of None \<Rightarrow> True | Some e \<Rightarrow>
         pd_occurrences e = (case row_by pd_id i (rs_pending s) of None \<Rightarrow> 0 | Some o1 \<Rightarrow> pd_occurrences o1)
             + length (filter (\<lambda>d. unrepaired d \<and> driftId d = i) (rr_discrepancies report))
         \<and> pd_detectedAt e = (case row_by pd_id i (rs_pending s) of None \<Rightarrow> pv_now pv | Some o1 \<Rightarrow> pd_detectedAt o1)
         \<and> pd_lastSeenAt e = pv_now pv)
    \<and> su_remediated (rr_summary report) + su_pendingRemediation (rr_summary report) = su_discrepancies (rr_summary report)
    \<and> su_pendingRemediation (rr_summary report) = length (filter unrepaired (rr_discrepancies report))"
proof -
  obtain det where det: "pass_detection opts pv s = Some det"
    using assms(2,3) by (cases "pass_detection opts pv s") (auto simp: recon_run_def pass_detection_def Let_def)
  obtain s3 s4 l where run: "rs_pending s3 = rs_pending s" "pass_loop opts pv 0 (dr_discrepancies det) (s3, empty_log) = (s4, l)"
      "report = pass_report pv tr (ps_payments (rs_pay s)) det l" "rs_pending s' = sq_retain (pl_pendingIds l) (rs_pending s4)"
    by (rule run_parts [OF assms(2) det, of tr a]) (use assms(3) in simp)
  obtain new where new: "pl_done l = new" "length new = length (dr_discrepancies det)" "list_all (\<lambda>d. d_remediation d \<noteq> None) new"
     "pl_pendingIds l = map driftId (filter unrepaired new)"
     "rs_pending s4 = fold sq_upsert (map (\<lambda>d. pending_of d (pv_now pv)) (filter unrepaired new)) (rs_pending s)"
    using pass_loop_parks [OF run(2)] run(1) by (auto simp: empty_log_def)
  define ps where "ps = map (\<lambda>d. pending_of d (pv_now pv)) (filter unrepaired new)"
  have ids: "map pd_id ps = pl_pendingIds l" by (simp add: ps_def new(4) pending_of_def)
  have fresh: "list_all (\<lambda>d. pd_occurrences d = 1 \<and> pd_detectedAt d = pv_now pv \<and> pd_lastSeenAt d = pv_now pv) ps"
    by (simp add: ps_def list_all_iff pending_of_def)
  have table: "rs_pending s' = sq_retain (map pd_id ps) (fold sq_upsert ps (rs_pending s))" unfolding ids using run(4) new(5) by (simp add: ps_def)
  have rep: "rr_discrepancies report = new" by (simp add: run(3) pass_report_def new(1) Let_def)
  have count: "count_id i ps = length (filter (\<lambda>d. unrepaired d \<and> driftId d = i) new)"
    by (simp add: count_id_def ps_def filter_map comp_def pending_of_def conj_commute)
  have "pd_id ` set ps = driftId ` set (filter unrepaired new)" by (simp add: ps_def image_image pending_of_def)
  then have mem: "i \<in> pd_id ` set ps \<longleftrightarrow> (\<exists>d \<in> set new. unrepaired d \<and> driftId d = i)" by auto
  have stat: "unrepaired d \<longleftrightarrow> rm_status (the (d_remediation d)) \<noteq> Remediated" if "d \<in> set new" for d
    using that new(3) by (auto simp: unrepaired_def list_all_iff)
  have "su_pendingRemediation (rr_summary report) = length (filter unrepaired new)"
    using stat by (simp add: run(3) pass_report_def new(1) Let_def count_where_def filter_map comp_def cong: filter_cong)
  moreover have "su_remediated (rr_summary report) = length (filter (\<lambda>d. \<not> unrepaired d) new)"
    using stat by (simp add: run(3) pass_report_def new(1) Let_def count_where_def filter_map comp_def cong: filter_cong)
  moreover have "su_discrepancies (rr_summary report) = length new" by (simp add: run(3) pass_report_def new(2) Let_def)
  ultimately have sums: "su_remediated (rr_summary report) + su_pendingRemediation (rr_summary report) = su_discrepancies (rr_summary report)"
    "su_pendingRemediation (rr_summary report) = length (filter unrepaired new)"
    using sum_length_filter_compl [of unrepaired new] by simp_all
  have "pending_wf (rs_pending s')" unfolding table by (intro sq.retain_wf sq.upserts_wf assms(1))
  then show ?thesis using sums sq.parked_exactly [OF fresh assms(1), of i, folded table] mem count rep by (auto split: option.splits)
qed

text \<open>
  A resolved drift is not listed again. Once an operator has resolved a parked drift, it stays
  out of the list of what is pending through a pass that finds it anew and cannot repair it, although
  the pass parks it and counts it; the store in memory would list it.
\<close>

theorem resolved_drift_hidden:
  assumes "pending_wf (rs_pending s)" "row_by pd_id i (rs_pending s) = Some e" "pd_acknowledged e"
    and "\<not> rs_running s" "recon_run opts pv tr a s = (s', Inr report)"
  shows "i \<notin> pd_id ` set (sq_list False (rs_pending s'))
    \<and> ((\<exists>d \<in> set (rr_discrepancies report). unrepaired d \<and> driftId d = i) \<longrightarrow> i \<in> pd_id ` set (sq_list True (rs_pending s')))"
proof -
  have ack: "\<forall>f. row_by pd_id i (sq_upsert d rows) = Some f \<longrightarrow> pd_acknowledged f"
    if "row_by pd_id i rows = Some g" "pd_acknowledged g" for d rows g
  proof -
    have up: "row_by pd_id i (sq_upsert d rows) = map_option (\<lambda>r. if pd_id r = pd_id d then r\<lparr>pd_driftType := pd_driftType d,
        pd_balanceId := pd_balanceId d, pd_taskId := pd_taskId d, pd_nodeId := pd_nodeId d, pd_severity := pd_severity d,
        pd_recommendedAction := pd_recommendedAction d, pd_lastSeenAt := pd_lastSeenAt d, pd_occurrences := Suc (pd_occurrences r)\<rparr> else r)
          (row_by pd_id i rows)" if "row_by pd_id (pd_id d) rows \<noteq> None"
      using that by (auto simp: sq_upsert_def sql_update_rows row_by_update)
    show ?thesis using that up by (cases "row_by pd_id (pd_id d) rows") (auto simp: sq_upsert_def row_by_append)
  qed
  have acks: "\<exists>f. row_by pd_id i (fold sq_upsert ds rows) = Some f \<and> pd_acknowledged f"
    if "row_by pd_id i rows = Some g" "pd_acknowledged g" "pending_wf rows" for ds rows g
    using that
  proof (induction ds arbitrary: rows g)
    case (Cons d ds)
    obtain f where "row_by pd_id i (sq_upsert d rows) = Some f"
      using sq.upsert_same [OF Cons.prems(3), of d] sq.upsert_other [OF Cons.prems(3), of i d] Cons.prems(1) by (cases "i = pd_id d") auto
    then show ?case using Cons.IH [of "sq_upsert d rows" f] ack [OF Cons.prems(1,2), of d] sq.upsert_wf [OF Cons.prems(3)] by simp
  qed auto
  obtain det where det: "pass_detection opts pv s = Some det"
    using assms(4,5) by (cases "pass_detection opts pv s") (auto simp: recon_run_def pass_detection_def Let_def)
  obtain s3 s4 l where run: "rs_pending s3 = rs_pending s" "pass_loop opts pv 0 (dr_discrepancies det) (s3, empty_log) = (s4, l)"
      "report = pass_report pv tr (ps_payments (rs_pay s)) det l" "rs_pending s' = sq_retain (pl_pendingIds l) (rs_pending s4)"
    by (rule run_parts [OF assms(4) det, of tr a]) (use assms(5) in simp)
  obtain new where new: "pl_done l = new" "pl_pendingIds l = map driftId (filter unrepaired new)"
     "rs_pending s4 = fold sq_upsert (map (\<lambda>d. pending_of d (pv_now pv)) (filter unrepaired new)) (rs_pending s)"
    using pass_loop_parks [OF run(2)] run(1) by (auto simp: empty_log_def)
  obtain f where f: "row_by pd_id i (rs_pending s4) = Some f" "pd_acknowledged f" using acks [OF assms(2,3,1)] new(3) by auto
  have wf: "pending_wf (rs_pending s4)" unfolding new(3) by (rule sq.upserts_wf [OF assms(1)])
  have ids: "pd_id ` set (sq_list b rows) = pd_id ` {r \<in> set rows. b \<or> \<not> pd_acknowledged r}" for b rows
    by (simp add: sq_list_def image_image rowToPending_def)
  have rep: "rr_discrepancies report = new" by (simp add: run(3) pass_report_def new(1) Let_def)
  have "r = f" if "r \<in> set (rs_pending s4)" "pd_id r = i" for r
    using distinct_key_eq [OF wf [unfolded pending_wf_def] that(1), of f] row_by_Some [OF f(1)] that(2) by simp
  then have "i \<notin> pd_id ` set (sq_list False (rs_pending s'))" using f(2) by (auto simp: ids run(4) sq_retain_filter)
  moreover have "i \<in> pd_id ` set (sq_list True (rs_pending s'))" if "d \<in> set (rr_discrepancies report)" "unrepaired d" "driftId d = i" for d
  proof -
    have "f \<in> set (rs_pending s')" using that row_by_Some [OF f(1)] by (auto simp: run(4) sq_retain_filter new(2) rep)
    then show ?thesis using row_by_Some [OF f(1)] by (auto simp: ids)
  qed
  ultimately show ?thesis by blast
qed

lemma memory_lists_again: "jm_get m (pd_id d) = Some e \<Longrightarrow> \<not> pd_acknowledged d \<Longrightarrow> pd_id d \<in> pd_id ` set (mem_list False (mem_upsert d m))"
proof -
  assume e: "jm_get m (pd_id d) = Some e" and d: "\<not> pd_acknowledged d"
  let ?r = "d\<lparr>pd_detectedAt := pd_detectedAt e, pd_occurrences := pd_occurrences e + 1\<rparr>"
  have "jm_get (mem_upsert d m) (pd_id d) = Some ?r" by (simp add: mem_upsert_def e jm_get_set)
  then have "?r \<in> set (mem_list False (mem_upsert d m))" using d by (force simp: mem_list_def dest: map_of_SomeD)
  from imageI [OF this, of pd_id] show ?thesis by simp
qed

text \<open>
  The resubmission that submits nothing. For a payment recorded as released under a hash while
  its balance is still on the chain, the remediation with the settler of the service gives the old
  hash back and counts as done: no transaction is submitted and nothing changes, in any pass.
\<close>

theorem resubmission_submits_nothing:
  assumes "findByKey t n (ps_payments (rs_pay s)) = Some p" "pm_status p = PayReleased" "truthy (pm_txHash p)"
    and "t \<noteq> ''''" "n \<noteq> ''''" "\<not> ro_hasQueue opts" "ro_settler opts = Some (createSettlerFromCoordinatorSecret c memo)"
  shows "remediate opts env (detectUnconfirmedRelease p b) now s = (s, outcome_at now RequeueRelease Remediated (pm_txHash p))"
proof -
  have p: "pm_taskId p = t" "pm_nodeId p = n" using row_by_Some [OF assms(1) [unfolded findByKey_def]] by (simp_all add: pay_key_def)
  have "truthy (Some t)" "truthy (Some n)" using assms(4,5) by (simp_all add: truthy_def)
  moreover have "pm_txHash p = Some (the (pm_txHash p))" using assms(3) by (auto simp: truthy_def)
  moreover have "rp_automatic (planRemediation (detectUnconfirmedRelease p b))"
    by (simp add: planRemediation_def detectUnconfirmedRelease_def)
  ultimately show ?thesis using assms p
    by (simp add: remediate_def detected_plans detected_ids remediate_record_def Let_def createSettlerFromCoordinatorSecret_def pay_release_def)
qed

subsection \<open>A queue for the settlements\<close>

text \<open>A locked payment whose task has failed and whose time has run out, as a pass sees it.\<close>

definition dead_escrow :: "recon_options \<Rightarrow> pass_env \<Rightarrow> payment \<Rightarrow> bool" where
  "dead_escrow opts pv p \<longleftrightarrow> pm_status p = PayLocked \<and> addressable p \<and> chain_of (pv_balances pv) (pm_balanceId p) \<noteq> None
     \<and> isTerminalUnsuccessful (map_option ts_status (ro_taskState opts (pm_taskId p)))
     \<and> isEscrowExpired (paymentAgeMs p (ro_taskState opts (pm_taskId p)) (pv_now pv)) (ro_escrowExpiryMs opts)"

definition refund_job :: "payment \<Rightarrow> settlement_job" where
  "refund_job p = \<lparr> sj_kind = SettleRefund, sj_balanceId = pm_balanceId p, sj_taskId = pm_taskId p, sj_nodeId = pm_nodeId p \<rparr>"

lemma expired_detection:
  assumes "ps_payments (rs_pay s) = ps" "list_all (dead_escrow opts pv) ps" "ob_balanceId ` set (pv_balances pv) = pm_balanceId ` set ps"
  shows "\<exists>det. pass_detection opts pv s = Some det \<and> dr_discrepancies det
    = map (\<lambda>p. detectExpiredEscrow p (the (chain_of (pv_balances pv) (pm_balanceId p))) (ro_taskState opts (pm_taskId p))) ps"
proof -
  have "collect (record_drift \<lparr> do_escrowExpiryMs = ro_escrowExpiryMs opts, do_now = pv_now pv, do_taskState = ro_taskState opts \<rparr> (pv_balances pv) v) ps
      = Some (map (\<lambda>p. detectExpiredEscrow p (the (chain_of (pv_balances pv) (pm_balanceId p))) (ro_taskState opts (pm_taskId p))) ps)" for v
    by (rule collect_singles) (use assms(2) in \<open>auto simp: record_drift_def drift_of_def list_all_iff dead_escrow_def Let_def\<close>)
  moreover have "filter (\<lambda>b. ob_balanceId b \<notin> pm_balanceId ` set ps) (pv_balances pv) = []" using assms(3) by (auto simp: filter_empty_conv)
  ultimately show ?thesis by (simp add: pass_detection_def assms(1) detect_by_record)
qed

lemma refund_queue_loop:
  assumes "ro_remediationEnabled opts" "pv_meanwhile pv = (\<lambda>_ s. s)" "ro_hasQueue opts"
  shows "list_all (\<lambda>p. pm_status p = PayLocked \<and> addressable p \<and> findByKey (pm_taskId p) (pm_nodeId p) (ps_payments (rs_pay s)) = Some p) ps
    \<Longrightarrow> \<exists>s' l'. pass_loop opts pv k (map (\<lambda>p. detectExpiredEscrow p (b p) (tk p)) ps) (s, l) = (s', l')
          \<and> rs_pay s' = rs_pay s \<and> rs_jobs s' = rs_jobs s @ map refund_job ps \<and> pl_pendingIds l' = pl_pendingIds l"
proof (induction ps arbitrary: s l k)
  case (Cons p ps)
  let ?d = "detectExpiredEscrow p (b p) (tk p)"
  let ?s1 = "s\<lparr>rs_jobs := rs_jobs s @ [refund_job p]\<rparr>"
  have ids: "truthy (Some (pm_taskId p))" "truthy (Some (pm_nodeId p))" using Cons.prems by (simp_all add: addressable_def truthy_def)
  have "rp_automatic (planRemediation ?d)" "d_balanceId ?d = pm_balanceId p"
    by (simp_all add: planRemediation_def detectExpiredEscrow_def)
  then have "pass_outcome opts pv k ?d s = (?s1, outcome_at (pv_now pv) RefundEscrow Remediated None)"
    using assms Cons.prems ids
    by (simp add: pass_outcome_def remediate_def detected_plans detected_ids remediate_record_def Let_def refund_job_def)
  from remediated_step [OF this, of l] obtain s2 l2
    where step: "pass_step opts pv k ?d (s, l) = (s2, l2)" "rs_pay s2 = rs_pay s" "rs_jobs s2 = rs_jobs ?s1" "pl_pendingIds l2 = pl_pendingIds l"
    by (auto simp: outcome_at_def)
  obtain s' l' where "pass_loop opts pv (k + 1) (map (\<lambda>p. detectExpiredEscrow p (b p) (tk p)) ps) (s2, l2) = (s', l')"
    "rs_pay s' = rs_pay s2" "rs_jobs s' = rs_jobs s2 @ map refund_job ps" "pl_pendingIds l' = pl_pendingIds l2"
    using Cons.IH [of s2 "k + 1" l2] Cons.prems step(2) by auto
  then show ?case using step by (intro exI [of _ s'] exI [of _ l']) simp
qed simp

lemma refund_queue_pass:
  assumes "payments_typed (ps_payments (rs_pay s))" "\<not> rs_running s" "ro_remediationEnabled opts" "ro_hasQueue opts" "alone pv"
    and "list_all (dead_escrow opts pv) (ps_payments (rs_pay s))" "ob_balanceId ` set (pv_balances pv) = pm_balanceId ` set (ps_payments (rs_pay s))"
  shows "\<exists>s' report. recon_run opts pv tr a s = (s', Inr report) \<and> rs_pay s' = rs_pay s \<and> \<not> rs_running s'
    \<and> rs_jobs s' = rs_jobs s @ map refund_job (ps_payments (rs_pay s)) \<and> rs_pending s' = []"
proof -
  let ?ps = "ps_payments (rs_pay s)"
  obtain det where det: "pass_detection opts pv s = Some det" "dr_discrepancies det
      = map (\<lambda>p. detectExpiredEscrow p (the (chain_of (pv_balances pv) (pm_balanceId p))) (ro_taskState opts (pm_taskId p))) ?ps"
    using expired_detection [OF refl assms(6,7)] by blast
  obtain s3 s4 l s' where run: "rs_pay s3 = rs_pay s" "rs_jobs s3 = rs_jobs s" "pass_loop opts pv 0 (dr_discrepancies det) (s3, empty_log) = (s4, l)"
      "recon_run opts pv tr a s = (s', Inr (pass_report pv tr ?ps det l))" "rs_pay s' = rs_pay s4" "rs_jobs s' = rs_jobs s4"
      "rs_pending s' = sq_retain (pl_pendingIds l) (rs_pending s4)" "\<not> rs_running s'"
    by (rule run_parts [OF assms(2) det(1), of tr a]) (use assms(5) in \<open>simp add: alone_def\<close>)
  have "list_all (\<lambda>p. pm_status p = PayLocked \<and> addressable p \<and> findByKey (pm_taskId p) (pm_nodeId p) (ps_payments (rs_pay s3)) = Some p) ?ps"
    using assms(1,6) run(1) row_by_mem [of pay_key ?ps]
    by (auto simp: list_all_iff dead_escrow_def findByKey_def payments_typed_def pay_key_def)
  from refund_queue_loop [OF assms(3) _ assms(4) this, of pv 0 "\<lambda>p. the (chain_of (pv_balances pv) (pm_balanceId p))"
      "\<lambda>p. ro_taskState opts (pm_taskId p)" empty_log] assms(5) run(3)
  have "rs_pay s4 = rs_pay s3" "rs_jobs s4 = rs_jobs s3 @ map refund_job ?ps" "pl_pendingIds l = []"
    by (auto simp: det(2) alone_def empty_log_def)
  then show ?thesis using run by (auto simp: sq_retain_filter)
qed

text \<open>
  A queue gets every refund again. With a settlement queue, a pass over dead escrows hands each
  refund to the queue, reports it as done and parks nothing; until the queue has worked, the next
  pass hands over the same refunds once more, and so each pass: nothing recalls what was queued.
\<close>

theorem queued_refunds_pile_up:
  assumes "payments_typed (ps_payments (rs_pay s))" "\<not> rs_running s" "ro_remediationEnabled opts" "ro_hasQueue opts"
    and "\<forall>pv \<in> set pvs. alone pv \<and> list_all (dead_escrow opts pv) (ps_payments (rs_pay s))
          \<and> ob_balanceId ` set (pv_balances pv) = pm_balanceId ` set (ps_payments (rs_pay s))"
  shows "let s' = fold (\<lambda>pv s. fst (recon_run opts pv tr a s)) pvs s
    in rs_pay s' = rs_pay s \<and> rs_jobs s' = rs_jobs s @ concat (replicate (length pvs) (map refund_job (ps_payments (rs_pay s))))"
  using assms
proof (induction pvs arbitrary: s)
  case (Cons pv pvs)
  obtain s1 where s1: "fst (recon_run opts pv tr a s) = s1" "rs_pay s1 = rs_pay s" "\<not> rs_running s1"
      "rs_jobs s1 = rs_jobs s @ map refund_job (ps_payments (rs_pay s))"
    using refund_queue_pass [OF Cons.prems(1-4), of pv tr a] Cons.prems(5) by fastforce
  show ?case using Cons.IH [of s1] Cons.prems s1 by (simp add: Let_def)
qed simp

subsection \<open>Concrete passes\<close>

definition demo_options :: "bool \<Rightarrow> escrow_settler option \<Rightarrow> recon_options" where
  "demo_options queue settler = \<lparr> ro_escrowExpiryMs = 0, ro_remediationEnabled = True, ro_maxTxLookups = 200,
     ro_taskState = (\<lambda>_. Some \<lparr> ts_status = ''failed'', ts_updatedAt = None \<rparr>),
     ro_claims = \<lparr> cp_findClaim = (\<lambda>_. None), cp_getTransaction = (\<lambda>_. None) \<rparr>, ro_hasQueue = queue, ro_settler = settler,
     ro_thresholds = \<lparr> th_warningPercent = 1, th_criticalPercent = 5 \<rparr> \<rparr>"

definition coordinator_C :: escrow_settler where
  "coordinator_C = createSettlerFromCoordinatorSecret ''C'' None"

definition demo_pass :: "chain_balance list \<Rightarrow> pass_env" where
  "demo_pass bs = \<lparr> pv_runId = ''r'', pv_now = 9, pv_balances = bs, pv_fetching = (\<lambda>s. s), pv_meanwhile = (\<lambda>_ s. s),
     pv_env = (\<lambda>_. calm_env ''h9'') \<rparr>"

definition demo_recon :: "pay_state \<Rightarrow> pending_drift list \<Rightarrow> recon" where
  "demo_recon ps parked = \<lparr> rs_pay = ps, rs_pending = parked, rs_reports = [], rs_running = False, rs_jobs = [],
     rs_metrics = new_recon_metrics, rs_events = [], rs_alerts = [] \<rparr>"

definition bal_B :: chain_balance where
  "bal_B = \<lparr> ob_balanceId = ''B'', ob_amountStroops = ''25000000'' \<rparr>"

lemma demo_simps [simp]: "rs_pay (demo_recon ps rows) = ps" "rs_pending (demo_recon ps rows) = rows" "\<not> rs_running (demo_recon ps rows)"
    "alone (demo_pass bs)" "pv_balances (demo_pass bs) = bs" "pv_env (demo_pass bs) k = calm_env ''h9''"
    "ro_remediationEnabled (demo_options q st)" "ro_hasQueue (demo_options q st) = q" "ro_settler (demo_options q st) = st"
    "ob_balanceId bal_B = ''B''" "pm_balanceId the_payment = ''B''" "pm_status the_payment = PayLocked"
  by (simp_all add: demo_recon_def demo_pass_def demo_options_def alone_def bal_B_def the_payment_def)

lemma the_payment_addressable: "addressable the_payment"
  by (simp add: the_payment_def addressable_def)

lemma outage_run: "\<exists>s1 report. recon_run (demo_options q st) (demo_pass []) TriggerManual 9 (demo_recon one_locked rows) = (s1, Inr report)"
proof -
  obtain det where "pass_detection (demo_options q st) (demo_pass []) (demo_recon one_locked rows) = Some det"
    using outage_detection [of "demo_recon one_locked rows" "[the_payment]" "demo_pass []"] by (auto simp: one_locked_payments)
  from run_parts [OF _ this, of TriggerManual 9] show ?thesis by (metis demo_simps(3))
qed


theorem outage_releases_every_escrow_witness:
  "let opts = demo_options False (Some coordinator_C); s1 = fst (recon_run opts (demo_pass []) TriggerManual 9 (demo_recon one_locked []));
     s2 = fst (recon_run opts (demo_pass [bal_B]) TriggerManual 10 s1)
   in list_all (\<lambda>p. pm_status p = PayOrphaned) (ps_payments (rs_pay s1)) \<and> list_all (\<lambda>p. pm_status p = PayReleased) (ps_payments (rs_pay s2))"
  using outage_releases_every_escrow [of "demo_recon one_locked []" "demo_options False (Some coordinator_C)" "''C''" None "demo_pass []"
      "\<lambda>_. None" "demo_pass [bal_B]" "''h9''" TriggerManual 9 TriggerManual 10] one_locked_typed
  by (simp add: one_locked_payments the_payment_addressable coordinator_C_def calm_env_def Let_def listBalances_unreachable)

theorem second_pass_repairs_nothing_witness:
  "\<exists>s1 r. recon_run (demo_options False None) (demo_pass []) TriggerManual 9 (demo_recon one_locked []) = (s1, Inr r)
    \<and> ps_payments (rs_pay (fst (recon_run (demo_options False None) (demo_pass []) TriggerScheduled 10 s1))) = ps_payments (rs_pay s1)"
proof -
  obtain s1 r where s1: "recon_run (demo_options False None) (demo_pass []) TriggerManual 9 (demo_recon one_locked []) = (s1, Inr r)"
    using outage_run by blast
  show ?thesis
    using second_pass_repairs_nothing [OF _ _ _ _ _ _ s1, of "demo_pass []" TriggerScheduled 10] s1
    by (simp add: parks_only_def one_locked_payments) (simp add: demo_options_def)
qed

theorem parked_is_what_is_left_witness:
  "\<exists>s1 r. recon_run (demo_options False None) (demo_pass []) TriggerManual 9 (demo_recon one_locked []) = (s1, Inr r) \<and> pending_wf (rs_pending s1)"
proof -
  obtain s1 r where s1: "recon_run (demo_options False None) (demo_pass []) TriggerManual 9 (demo_recon one_locked []) = (s1, Inr r)"
    using outage_run by blast
  show ?thesis using parked_is_what_is_left [OF _ _ s1] s1 by (simp add: pending_wf_def)
qed

definition old_drift :: pending_drift where
  "old_drift = \<lparr> pd_id = ''t:n'', pd_driftType = AmountMismatch, pd_balanceId = ''B'', pd_taskId = Some ''t'', pd_nodeId = Some ''n'',
     pd_severity = SevCritical, pd_recommendedAction = ManualReview, pd_detectedAt = 1, pd_lastSeenAt = 1, pd_occurrences = 1,
     pd_acknowledged = True, pd_resolution = None \<rparr>"

theorem resolved_drift_hidden_witness:
  "\<exists>s1 r. recon_run (demo_options False None) (demo_pass []) TriggerManual 9 (demo_recon one_locked [old_drift]) = (s1, Inr r)
    \<and> ''t:n'' \<notin> pd_id ` set (sq_list False (rs_pending s1))"
proof -
  obtain s1 r where s1: "recon_run (demo_options False None) (demo_pass []) TriggerManual 9 (demo_recon one_locked [old_drift]) = (s1, Inr r)"
    using outage_run by blast
  show ?thesis using resolved_drift_hidden [OF _ _ _ _ s1, of "''t:n''" old_drift] s1 by (simp add: pending_wf_def row_by_def old_drift_def)
qed

theorem resubmission_submits_nothing_witness:
  "\<exists>s p. ps_payments (rs_pay s) = [p] \<and> remediate (demo_options False (Some coordinator_C)) (calm_env ''h9'') (detectUnconfirmedRelease p bal_B) 9 s
     = (s, outcome_at 9 RequeueRelease Remediated (Some ''h1''))"
proof -
  define p where "p = set_pay_status PayReleased ''h1'' 6 the_payment"
  define s where "s = demo_recon (one_locked\<lparr>ps_payments := [p]\<rparr>) []"
  have "findByKey ''t'' ''n'' (ps_payments (rs_pay s)) = Some p" "pm_status p = PayReleased" "truthy (pm_txHash p)" "pm_txHash p = Some ''h1''"
    by (simp_all add: s_def p_def findByKey_def row_by_def pay_key_def set_pay_status_def the_payment_def truthy_def)
  then show ?thesis
    using resubmission_submits_nothing [of "''t''" "''n''" s p "demo_options False (Some coordinator_C)" "''C''" None "calm_env ''h9''" bal_B 9]
    by (intro exI [of _ s] exI [of _ p]) (simp add: coordinator_C_def s_def)
qed

theorem queued_refunds_pile_up_witness:
  "rs_jobs (fold (\<lambda>pv s. fst (recon_run (demo_options True None) pv TriggerScheduled 9 s)) [demo_pass [bal_B], demo_pass [bal_B]]
     (demo_recon one_locked [])) = [refund_job the_payment, refund_job the_payment]"
proof -
  have "dead_escrow (demo_options True None) (demo_pass [bal_B]) the_payment"
    by (simp add: dead_escrow_def the_payment_addressable chain_of_def bal_B_def isTerminalUnsuccessful_def truthy_def isEscrowExpired_def
        demo_options_def lower_char_def)
  then show ?thesis
    using queued_refunds_pile_up [of "demo_recon one_locked []" "demo_options True None" "[demo_pass [bal_B], demo_pass [bal_B]]" TriggerScheduled 9]
      one_locked_typed by (simp add: one_locked_payments Let_def) (simp add: demo_recon_def)
qed

end
