(* ===== verification/EventArchive.thy ===== *)
theory EventArchive
  imports EventLog "HOL-Library.List_Lexorder" "HOL-Library.Char_ord"
begin

text \<open>
  The retention archive of the event store (\<open>backend/src/events/eventArchive.ts\<close>,
  \<open>retentionConstants.ts\<close>) and the pass that fills it (\<open>backend/src/services/eventRetention.ts\<close>).
  The two tables are lists of rows beside \<open>task_events\<close>; a transaction that throws gives back the
  database it was started on. What the task database answers, before and inside the transaction, and
  which writes fail are arguments of a pass.
\<close>

subsection \<open>The tables\<close>

record archived_row =
  ar_globalSeq :: nat
  ar_taskSeq :: nat
  ar_version :: nat
  ar_type :: string
  ar_taskId :: ident
  ar_nodeId :: ident
  ar_occurredAt :: ms
  ar_payload :: "js_val option"
  ar_archivedAt :: ms

record stored_summary =
  su_taskId :: ident
  su_nodeId :: ident
  su_eventCount :: nat
  su_counts :: "(string \<times> nat) list"
  su_firstOccurredAt :: ms
  su_lastOccurredAt :: ms
  su_durationMs :: ms
  su_finalTaskSeq :: nat
  su_terminalStatus :: string
  su_compactedAt :: ms

record event_db =
  ed_store :: event_store
  ed_archive :: "archived_row list"
  ed_summary :: "stored_summary list"

definition TASK_LEVEL_NODE_ID :: ident where
  "TASK_LEVEL_NODE_ID = ''''"

definition SYSTEM_TASK_ID :: ident where
  "SYSTEM_TASK_ID = ''system''"

definition TERMINAL_EVENT_TYPES :: "string list" where
  "TERMINAL_EVENT_TYPES = [''TaskCompleted'', ''TaskFailed'']"

definition TERMINAL_TASK_STATUSES :: "string list" where
  "TERMINAL_TASK_STATUSES = [''completed'', ''failed'', ''cancelled'', ''payment_failed'']"

definition isTerminalTaskStatus :: "string option \<Rightarrow> bool" where
  "isTerminalTaskStatus status = (case status of None \<Rightarrow> False | Some s \<Rightarrow> s \<in> set TERMINAL_TASK_STATUSES)"

definition hasTerminalLastEvent :: "string \<Rightarrow> bool" where
  "hasTerminalLastEvent lastEventType \<longleftrightarrow> lastEventType \<in> set TERMINAL_EVENT_TYPES"

definition SUMMARY_TYPES :: "string list" where
  "SUMMARY_TYPES = [''TaskCreated'', ''NodeStarted'', ''NodeCompleted'', ''NodeFailed'', ''PaymentLocked'',
     ''PaymentReleased'', ''TaskCompleted'', ''TaskFailed'']"

subsection \<open>Archiving a task\<close>

text \<open>\<open>INSERT OR IGNORE\<close> with \<open>UNIQUE (task_id, task_seq)\<close>.\<close>

definition archive_of :: "ms \<Rightarrow> event_row \<Rightarrow> archived_row" where
  "archive_of archivedAt r = \<lparr> ar_globalSeq = er_globalSeq r, ar_taskSeq = er_taskSeq r, ar_version = er_version r,
     ar_type = er_type r, ar_taskId = er_taskId r, ar_nodeId = or_else TASK_LEVEL_NODE_ID (er_nodeId r),
     ar_occurredAt = er_occurredAt r, ar_payload = er_payload r, ar_archivedAt = archivedAt \<rparr>"

definition ar_key :: "archived_row \<Rightarrow> ident \<times> nat" where
  "ar_key a = (ar_taskId a, ar_taskSeq a)"

definition insert_ignore :: "archived_row \<Rightarrow> archived_row list \<Rightarrow> archived_row list" where
  "insert_ignore a t = (if ar_key a \<in> set (map ar_key t) then t else t @ [a])"

definition insertArchiveStmt :: "ident \<Rightarrow> ms \<Rightarrow> event_store \<Rightarrow> archived_row list \<Rightarrow> archived_row list" where
  "insertArchiveStmt taskId archivedAt st t = fold insert_ignore (map (archive_of archivedAt) (rows_of taskId st)) t"

definition countArchivedStmt :: "ident \<Rightarrow> archived_row list \<Rightarrow> nat" where
  "countArchivedStmt taskId t = length (filter (\<lambda>a. ar_taskId a = taskId) t)"

text \<open>\<open>GROUP BY node_id\<close> groups by the column, so that NULL and the empty string are two groups,
  which \<open>COALESCE\<close> gives the same name.\<close>

definition node_groups :: "event_row list \<Rightarrow> ident option list" where
  "node_groups rows = (if None \<in> set (map er_nodeId rows) then [None] else [])
     @ map Some (sort (remdups (List.map_filter er_nodeId rows)))"

definition summary_of :: "ident \<Rightarrow> string \<Rightarrow> ms \<Rightarrow> event_row list \<Rightarrow> ident option \<Rightarrow> stored_summary" where
  "summary_of taskId terminalStatus compactedAt rows n =
     (let g = filter (\<lambda>r. er_nodeId r = n) rows;
          fst_at = Min (set (map er_occurredAt g)); lst_at = Max (set (map er_occurredAt g))
      in \<lparr> su_taskId = taskId, su_nodeId = or_else TASK_LEVEL_NODE_ID n, su_eventCount = length g,
           su_counts = map (\<lambda>ty. (ty, length (filter (\<lambda>r. er_type r = ty) g))) SUMMARY_TYPES,
           su_firstOccurredAt = fst_at, su_lastOccurredAt = lst_at, su_durationMs = max 0 (lst_at - fst_at),
           su_finalTaskSeq = Max (set (map er_taskSeq g)), su_terminalStatus = terminalStatus, su_compactedAt = compactedAt \<rparr>)"

definition upsertSummaryStmt :: "stored_summary \<Rightarrow> stored_summary list \<Rightarrow> stored_summary list" where
  "upsertSummaryStmt s t =
     (if \<exists>x \<in> set t. su_taskId x = su_taskId s \<and> su_nodeId x = su_nodeId s
      then map (\<lambda>x. if su_taskId x = su_taskId s \<and> su_nodeId x = su_nodeId s then s else x) t else t @ [s])"

datatype compact_error = AssertionFailed | WriteFailed | ArchiveShort nat nat | PurgeMismatch nat nat

record compaction_outcome =
  co_compacted :: bool
  co_reason :: "string option"
  co_eventsArchived :: nat
  co_summariesWritten :: nat
  co_eventsPurged :: nat

definition compactTask ::
    "bool \<Rightarrow> bool \<Rightarrow> ident \<Rightarrow> string \<Rightarrow> ms \<Rightarrow> event_db \<Rightarrow> event_db \<times> (compact_error + compaction_outcome)" where
  "compactTask diskOk stillFinished taskId terminalStatus now db =
     (let rows = rows_of taskId (ed_store db); preCount = length rows in
      if \<not> stillFinished then (db, Inl AssertionFailed)
      else if preCount = 0 then (db, Inr \<lparr> co_compacted = False, co_reason = Some ''no-live-events'',
        co_eventsArchived = 0, co_summariesWritten = 0, co_eventsPurged = 0 \<rparr>)
      else if \<not> diskOk then (db, Inl WriteFailed)
      else let archive = insertArchiveStmt taskId now (ed_store db) (ed_archive db);
               archivedCount = countArchivedStmt taskId archive in
      if archivedCount < preCount then (db, Inl (ArchiveShort archivedCount preCount))
      else let groups = node_groups rows;
               summary = fold (\<lambda>n. upsertSummaryStmt (summary_of taskId terminalStatus now rows n)) groups (ed_summary db);
               live = filter (\<lambda>r. er_taskId r \<noteq> taskId) (es_rows (ed_store db));
               deleted = length (es_rows (ed_store db)) - length live in
      if deleted \<noteq> preCount then (db, Inl (PurgeMismatch deleted preCount))
      else (\<lparr> ed_store = (ed_store db)\<lparr>es_rows := live\<rparr>, ed_archive = archive, ed_summary = summary \<rparr>,
        Inr \<lparr> co_compacted = True, co_reason = None, co_eventsArchived = preCount,
          co_summariesWritten = length groups, co_eventsPurged = deleted \<rparr>))"

subsection \<open>Reading it\<close>

definition rowToArchivedEvent :: "archived_row \<Rightarrow> app_event \<times> nat" where
  "rowToArchivedEvent a = (\<lparr> ae_type = ar_type a, ae_taskId = ar_taskId a,
     ae_nodeId = (if ar_nodeId a \<noteq> TASK_LEVEL_NODE_ID then Some (ar_nodeId a) else None),
     ae_occurredAt = ar_occurredAt a, ae_version = Some (ar_version a), ae_taskSeq = Some (ar_taskSeq a),
     ae_payload = ar_payload a \<rparr>, ar_globalSeq a)"

definition archived_rows :: "ident \<Rightarrow> event_db \<Rightarrow> archived_row list" where
  "archived_rows taskId db = sort_key ar_taskSeq (filter (\<lambda>a. ar_taskId a = taskId) (ed_archive db))"

definition listArchivedByTask :: "ident \<Rightarrow> event_db \<Rightarrow> (app_event \<times> nat) list" where
  "listArchivedByTask taskId db = map rowToArchivedEvent (archived_rows taskId db)"

definition listSummaryByTask :: "ident \<Rightarrow> event_db \<Rightarrow> stored_summary list" where
  "listSummaryByTask taskId db = sort_key su_nodeId (filter (\<lambda>s. su_taskId s = taskId) (ed_summary db))"

definition countLiveEvents :: "event_db \<Rightarrow> nat" where
  "countLiveEvents db = length (es_rows (ed_store db))"

definition countArchivedEvents :: "event_db \<Rightarrow> nat" where
  "countArchivedEvents db = length (ed_archive db)"

record compaction_candidate =
  cc_taskId :: ident
  cc_lastOccurredAt :: ms
  cc_lastEventType :: string
  cc_eventCount :: nat

text \<open>The groups come in the order of the index on \<open>task_id\<close>; the sort by time keeps it for ties.\<close>

definition candidate_of :: "event_store \<Rightarrow> event_row list \<Rightarrow> ident \<Rightarrow> compaction_candidate" where
  "candidate_of st old t =
     (let g = filter (\<lambda>r. er_taskId r = t) old
      in \<lparr> cc_taskId = t, cc_lastOccurredAt = Max (set (map er_occurredAt g)),
           cc_lastEventType = (case rev (task_rows t st) of [] \<Rightarrow> '''' | r # _ \<Rightarrow> er_type r), cc_eventCount = length g \<rparr>)"

definition findCompactionCandidates :: "ms \<Rightarrow> nat \<Rightarrow> event_db \<Rightarrow> compaction_candidate list" where
  "findCompactionCandidates cutoff limit db =
     (let old = filter (\<lambda>r. er_occurredAt r < cutoff \<and> er_taskId r \<noteq> SYSTEM_TASK_ID) (es_rows (ed_store db))
      in take limit (sort_key cc_lastOccurredAt
           (map (candidate_of (ed_store db) old) (sort (remdups (map er_taskId old))))))"

subsection \<open>The retention pass\<close>

definition MS_PER_DAY :: ms where
  "MS_PER_DAY = 24 * 60 * 60 * 1000"

record retention_stats =
  rst_ranAt :: ms
  rst_retentionDays :: int
  rst_cutoff :: ms
  rst_candidates :: nat
  rst_skipped :: nat
  rst_compactedTasks :: nat
  rst_eventsArchived :: nat
  rst_eventsPurged :: nat
  rst_summariesWritten :: nat
  rst_failedTasks :: nat

definition emptyStats :: "ms \<Rightarrow> int \<Rightarrow> ms \<Rightarrow> retention_stats" where
  "emptyStats ranAt retentionDays cutoff = \<lparr> rst_ranAt = ranAt, rst_retentionDays = retentionDays, rst_cutoff = cutoff,
     rst_candidates = 0, rst_skipped = 0, rst_compactedTasks = 0, rst_eventsArchived = 0, rst_eventsPurged = 0,
     rst_summariesWritten = 0, rst_failedTasks = 0 \<rparr>"

record retention =
  rt_retentionDays :: int
  rt_batchTasks :: nat
  rt_enabled :: bool
  rt_stopped :: bool
  rt_running :: bool
  rt_timer :: bool

definition new_retention :: "int option \<Rightarrow> nat option \<Rightarrow> bool option \<Rightarrow> retention" where
  "new_retention retentionDays batchTasks enabled = \<lparr> rt_retentionDays = or_else 30 retentionDays,
     rt_batchTasks = or_else 50 batchTasks, rt_enabled = or_else True enabled, rt_stopped = False,
     rt_running = False, rt_timer = False \<rparr>"

text \<open>
  What a pass meets: the clock, whether the event database opens and answers the scan, the status of a
  task at the check and inside the transaction (the outer \<open>None\<close> is a lookup that throws), and the
  tasks whose writes succeed.
\<close>

record retention_env =
  pe_now :: ms
  pe_scanOk :: bool
  pe_status :: "ident \<Rightarrow> string option option"
  pe_statusInside :: "ident \<Rightarrow> string option option"
  pe_diskOk :: "ident \<Rightarrow> bool"

definition assertStillTerminal :: "retention_env \<Rightarrow> ident \<Rightarrow> bool" where
  "assertStillTerminal env taskId =
     (case pe_statusInside env taskId of None \<Rightarrow> False | Some status \<Rightarrow> isTerminalTaskStatus status)"

fun retention_loop ::
    "retention_env \<Rightarrow> compaction_candidate list \<Rightarrow> retention_stats \<times> event_db \<Rightarrow> retention_stats \<times> event_db" where
  "retention_loop env [] (stats, db) = (stats, db)"
| "retention_loop env (c # cs) (stats, db) =
     (if \<not> hasTerminalLastEvent (cc_lastEventType c)
      then retention_loop env cs (stats\<lparr>rst_skipped := rst_skipped stats + 1\<rparr>, db)
      else case pe_status env (cc_taskId c) of
        None \<Rightarrow> (stats, db)
      | Some status \<Rightarrow>
          if \<not> isTerminalTaskStatus status
          then retention_loop env cs (stats\<lparr>rst_skipped := rst_skipped stats + 1\<rparr>, db)
          else (case compactTask (pe_diskOk env (cc_taskId c)) (assertStillTerminal env (cc_taskId c)) (cc_taskId c)
              (or_else '''' status) (pe_now env) db of
            (db', Inl _) \<Rightarrow> retention_loop env cs (stats\<lparr>rst_failedTasks := rst_failedTasks stats + 1\<rparr>, db')
          | (db', Inr out) \<Rightarrow>
              if \<not> co_compacted out
              then retention_loop env cs (stats\<lparr>rst_skipped := rst_skipped stats + 1\<rparr>, db')
              else retention_loop env cs (stats\<lparr>rst_compactedTasks := rst_compactedTasks stats + 1,
                rst_eventsArchived := rst_eventsArchived stats + co_eventsArchived out,
                rst_eventsPurged := rst_eventsPurged stats + co_eventsPurged out,
                rst_summariesWritten := rst_summariesWritten stats + co_summariesWritten out\<rparr>, db')))"

definition retention_cutoff :: "retention_env \<Rightarrow> retention \<Rightarrow> ms" where
  "retention_cutoff env rt = pe_now env - rt_retentionDays rt * MS_PER_DAY"

definition retention_run :: "retention_env \<Rightarrow> retention \<times> event_db \<Rightarrow> (retention \<times> event_db) \<times> retention_stats" where
  "retention_run env = (\<lambda>(rt, db).
     (let cutoff = retention_cutoff env rt; stats = emptyStats (pe_now env) (rt_retentionDays rt) cutoff in
      if \<not> rt_enabled rt \<or> rt_stopped rt \<or> rt_running rt then ((rt, db), stats)
      else if \<not> pe_scanOk env then ((rt\<lparr>rt_running := False\<rparr>, db), stats)
      else let candidates = findCompactionCandidates cutoff (rt_batchTasks rt) db;
               (stats', db') = retention_loop env candidates (stats\<lparr>rst_candidates := length candidates\<rparr>, db)
           in ((rt\<lparr>rt_running := False\<rparr>, db'), stats')))"

definition retention_start :: "retention_env \<Rightarrow> retention \<times> event_db \<Rightarrow> retention \<times> event_db" where
  "retention_start env = (\<lambda>(rt, db).
     if \<not> rt_enabled rt \<or> rt_timer rt then (rt, db)
     else fst (retention_run env (rt\<lparr>rt_stopped := False, rt_timer := True\<rparr>, db)))"

definition retention_stop :: "retention \<Rightarrow> retention" where
  "retention_stop rt = rt\<lparr>rt_stopped := True, rt_timer := False\<rparr>"

subsection \<open>Archive and log together\<close>

text \<open>What the archive and the log hold of a task, and the invariant of the two tables.\<close>

definition history :: "ident \<Rightarrow> event_db \<Rightarrow> (app_event \<times> nat) list" where
  "history taskId db = listArchivedByTask taskId db @ listByTask taskId (ed_store db)"

definition arch_of :: "ident \<Rightarrow> event_db \<Rightarrow> archived_row list" where
  "arch_of t db = filter (\<lambda>a. ar_taskId a = t) (ed_archive db)"

definition db_inv :: "event_db \<Rightarrow> bool" where
  "db_inv db \<longleftrightarrow> (\<forall>t. sorted_wrt (<) (map ar_taskSeq (arch_of t db) @ map er_taskSeq (rows_of t (ed_store db))))
     \<and> (\<forall>r \<in> set (es_rows (ed_store db)). er_nodeId r \<noteq> Some '''')"

lemma insert_ignore_all:
  "distinct (map ar_key (t @ xs)) \<Longrightarrow> fold insert_ignore xs t = t @ xs"
proof (induction xs arbitrary: t)
  case (Cons x xs)
  then have "insert_ignore x t = t @ [x]" by (auto simp: insert_ignore_def)
  with Cons show ?case by simp
qed simp

lemma archive_of_simps [simp]:
  "ar_taskId (archive_of now r) = er_taskId r" "ar_taskSeq (archive_of now r) = er_taskSeq r"
  "ar_occurredAt (archive_of now r) = er_occurredAt r"
  by (simp_all add: archive_of_def)

lemma archived_roundtrip: "er_nodeId r \<noteq> Some '''' \<Longrightarrow> rowToArchivedEvent (archive_of now r) = rowToStoredEvent r"
  by (cases "er_nodeId r") (auto simp: rowToArchivedEvent_def archive_of_def rowToStoredEvent_def TASK_LEVEL_NODE_ID_def)

lemma insert_ignore_own:
  "ar_taskId ` set xs \<subseteq> {t} \<Longrightarrow> distinct (map ar_taskSeq (filter (\<lambda>a. ar_taskId a = t) ar @ xs))
    \<Longrightarrow> fold insert_ignore xs ar = ar @ xs"
proof (induction xs arbitrary: ar)
  case (Cons x xs)
  then have "insert_ignore x ar = ar @ [x]" by (auto simp: insert_ignore_def ar_key_def)
  moreover have "fold insert_ignore xs (ar @ [x]) = (ar @ [x]) @ xs" using Cons.prems by (intro Cons.IH) auto
  ultimately show ?case by simp
qed simp

lemma archived_all:
  assumes "db_inv db"
  shows "insertArchiveStmt t now (ed_store db) (ed_archive db)
    = ed_archive db @ map (archive_of now) (rows_of t (ed_store db))"
  unfolding insertArchiveStmt_def
proof (rule insert_ignore_own [where t = t])
  have "sorted_wrt (<) (map ar_taskSeq (arch_of t db) @ map er_taskSeq (rows_of t (ed_store db)))"
    using assms by (simp add: db_inv_def)
  then have "distinct (map ar_taskSeq (arch_of t db) @ map er_taskSeq (rows_of t (ed_store db)))"
    by (simp only: strict_sorted_iff)
  then show "distinct (map ar_taskSeq (filter (\<lambda>a. ar_taskId a = t) (ed_archive db) @ map (archive_of now) (rows_of t (ed_store db))))"
    by (simp add: arch_of_def comp_def)
qed (auto simp: rows_of_def)

definition moved :: "ident \<Rightarrow> ms \<Rightarrow> event_db \<Rightarrow> event_db \<Rightarrow> bool" where
  "moved t now db db' \<longleftrightarrow> es_rows (ed_store db') = filter (\<lambda>r. er_taskId r \<noteq> t) (es_rows (ed_store db))
     \<and> es_nextGlobal (ed_store db') = es_nextGlobal (ed_store db)
     \<and> ed_archive db' = ed_archive db @ map (archive_of now) (rows_of t (ed_store db))"

lemma deleted_count: "length xs - length (filter (\<lambda>x. \<not> P x) xs) = length (filter P xs)"
  using sum_length_filter_compl [of P xs] by simp

lemma countArchived_moved: "length (rows_of t st)
    \<le> countArchivedStmt t (ar @ map (archive_of now) (rows_of t st))"
  by (simp add: countArchivedStmt_def filter_map comp_def) (simp add: rows_of_def)

lemma compact_view:
  assumes "db_inv db" and "compactTask diskOk still t status now db = (db', res)"
  shows "db' = db \<and> (\<not> still \<or> rows_of t (ed_store db) = [] \<or> \<not> diskOk)
      \<and> (\<forall>out. res = Inr out \<longrightarrow> \<not> co_compacted out \<and> rows_of t (ed_store db) = [] \<and> still)
    \<or> still \<and> diskOk \<and> moved t now db db' \<and> rows_of t (ed_store db) \<noteq> []
      \<and> (\<exists>out. res = Inr out \<and> co_compacted out \<and> co_eventsArchived out = length (rows_of t (ed_store db))
            \<and> co_eventsPurged out = co_eventsArchived out)"
proof (cases "\<not> still \<or> rows_of t (ed_store db) = [] \<or> \<not> diskOk")
  case True
  then show ?thesis using assms(2) by (auto simp: compactTask_def Let_def split: if_splits)
next
  case False
  have del: "length (es_rows (ed_store db)) - length (filter (\<lambda>r. er_taskId r \<noteq> t) (es_rows (ed_store db)))
      = length (rows_of t (ed_store db))"
    unfolding rows_of_def by (rule deleted_count)
  show ?thesis
    using assms(2) False countArchived_moved [of t "ed_store db" "ed_archive db" now]
    by (auto simp: compactTask_def Let_def moved_def archived_all [OF assms(1)] del)
qed

lemma moved_parts:
  assumes "moved t now db db'"
  shows "rows_of u (ed_store db') = (if u = t then [] else rows_of u (ed_store db))"
    and "arch_of u db' = (if u = t then arch_of t db @ map (archive_of now) (rows_of t (ed_store db)) else arch_of u db)"
  using assms by (auto simp: moved_def rows_of_def arch_of_def filter_map comp_def intro: filter_cong)

lemma moved_inv:
  assumes "db_inv db" and "moved t now db db'"
  shows "db_inv db'"
  using assms(1) moved_parts [OF assms(2)] assms(2)
  by (auto simp: db_inv_def moved_def comp_def)

lemma history_sorted:
  assumes "db_inv db"
  shows "history t db = map rowToArchivedEvent (arch_of t db) @ map rowToStoredEvent (rows_of t (ed_store db))"
proof -
  have "sorted_wrt (<) (map ar_taskSeq (arch_of t db))" "sorted_wrt (<) (map er_taskSeq (rows_of t (ed_store db)))"
    using assms by (simp_all add: db_inv_def sorted_wrt_append)
  then have "sorted (map ar_taskSeq (arch_of t db))" "sorted (map er_taskSeq (rows_of t (ed_store db)))"
    by (simp_all only: strict_sorted_iff)
  then show ?thesis
    by (simp add: history_def listArchivedByTask_def archived_rows_def arch_of_def listByTask_def task_rows_def
        rows_of_def sort_key_id_if_sorted)
qed

lemma moved_history:
  assumes "db_inv db" and "moved t now db db'"
  shows "history u db' = history u db"
proof -
  have "map rowToArchivedEvent (map (archive_of now) (rows_of t (ed_store db))) = map rowToStoredEvent (rows_of t (ed_store db))"
    using assms(1) by (auto simp: db_inv_def rows_of_def archived_roundtrip)
  then show ?thesis
    by (simp add: history_sorted assms moved_inv [OF assms] moved_parts [OF assms(2)])
qed

subsection \<open>What a pass does\<close>

text \<open>The candidates a pass comes to, before a status lookup throws, and those it moves.\<close>

definition reached :: "retention_env \<Rightarrow> compaction_candidate list \<Rightarrow> compaction_candidate list" where
  "reached env cs = takeWhile (\<lambda>c. hasTerminalLastEvent (cc_lastEventType c) \<longrightarrow> pe_status env (cc_taskId c) \<noteq> None) cs"

definition finished :: "retention_env \<Rightarrow> compaction_candidate \<Rightarrow> bool" where
  "finished env c \<longleftrightarrow> hasTerminalLastEvent (cc_lastEventType c)
     \<and> (case pe_status env (cc_taskId c) of None \<Rightarrow> False | Some status \<Rightarrow> isTerminalTaskStatus status)
     \<and> assertStillTerminal env (cc_taskId c) \<and> pe_diskOk env (cc_taskId c)"

definition taken :: "retention_env \<Rightarrow> compaction_candidate list \<Rightarrow> ident set" where
  "taken env cs = cc_taskId ` set (filter (finished env) (reached env cs))"

definition live_count :: "event_db \<Rightarrow> nat" where
  "live_count db = length (es_rows (ed_store db))"

lemma moved_counts:
  assumes "moved t now db db'"
  shows "length (es_rows (ed_store db)) = length (es_rows (ed_store db')) + length (rows_of t (ed_store db))"
    "length (ed_archive db') = length (ed_archive db) + length (rows_of t (ed_store db))"
  using assms sum_length_filter_compl [of "\<lambda>r. er_taskId r = t" "es_rows (ed_store db)"]
  by (simp_all add: moved_def rows_of_def)

lemma taken_Cons:
  "taken env (c # cs) = (if hasTerminalLastEvent (cc_lastEventType c) \<and> pe_status env (cc_taskId c) = None then {}
     else (if finished env c then {cc_taskId c} else {}) \<union> taken env cs)"
  by (auto simp: taken_def reached_def)

text \<open>One candidate: the database and the counters it leaves, and whether the pass goes on.\<close>

lemma loop_step:
  assumes "db_inv db" and "\<not> (hasTerminalLastEvent (cc_lastEventType c) \<and> pe_status env (cc_taskId c) = None)"
  obtains s1 db1 where "retention_loop env (c # cs) (s, db) = retention_loop env cs (s1, db1)"
    and "db1 = db \<and> rst_eventsPurged s1 = rst_eventsPurged s \<and> rst_eventsArchived s1 = rst_eventsArchived s
          \<and> (finished env c \<longrightarrow> rows_of (cc_taskId c) (ed_store db) = [])
        \<or> finished env c \<and> moved (cc_taskId c) (pe_now env) db db1
          \<and> rst_eventsPurged s1 = rst_eventsPurged s + length (rows_of (cc_taskId c) (ed_store db))
          \<and> rst_eventsArchived s1 = rst_eventsArchived s + length (rows_of (cc_taskId c) (ed_store db))"
proof (cases "hasTerminalLastEvent (cc_lastEventType c) \<and> (\<exists>status. pe_status env (cc_taskId c) = Some status \<and> isTerminalTaskStatus status)")
  case False
  then have nf: "\<not> finished env c" by (auto simp: finished_def split: option.splits)
  have e: "retention_loop env (c # cs) (s, db) = retention_loop env cs (s\<lparr>rst_skipped := rst_skipped s + 1\<rparr>, db)"
    using False assms(2) by (auto split: option.split)
  show thesis by (rule that [OF e]) (use nf in auto)
next
  case True
  then obtain status where st: "hasTerminalLastEvent (cc_lastEventType c)" "pe_status env (cc_taskId c) = Some status"
    "isTerminalTaskStatus status" by blast
  obtain db1 res where r: "compactTask (pe_diskOk env (cc_taskId c)) (assertStillTerminal env (cc_taskId c)) (cc_taskId c)
      (or_else '''' status) (pe_now env) db = (db1, res)" by fastforce
  note v = compact_view [OF assms(1) r]
  have fin: "finished env c \<longleftrightarrow> assertStillTerminal env (cc_taskId c) \<and> pe_diskOk env (cc_taskId c)"
    using st by (simp add: finished_def)
  show thesis
  proof (cases res)
    case (Inl e)
    then have e: "retention_loop env (c # cs) (s, db) = retention_loop env cs (s\<lparr>rst_failedTasks := rst_failedTasks s + 1\<rparr>, db1)"
      using st r by simp
    show thesis by (rule that [OF e]) (use v Inl fin in auto)
  next
    case (Inr out)
    show thesis
    proof (cases "co_compacted out")
      case False
      then have e: "retention_loop env (c # cs) (s, db) = retention_loop env cs (s\<lparr>rst_skipped := rst_skipped s + 1\<rparr>, db1)"
        using st r Inr by simp
      show thesis by (rule that [OF e]) (use v Inr False in auto)
    next
      case comp: True
      define s1 where "s1 = s\<lparr>rst_compactedTasks := rst_compactedTasks s + 1,
                rst_eventsArchived := rst_eventsArchived s + co_eventsArchived out,
                rst_eventsPurged := rst_eventsPurged s + co_eventsPurged out,
                rst_summariesWritten := rst_summariesWritten s + co_summariesWritten out\<rparr>"
      have e: "retention_loop env (c # cs) (s, db) = retention_loop env cs (s1, db1)"
        using st r Inr comp by (simp add: s1_def)
      show thesis by (rule that [OF e]) (use v Inr comp fin in \<open>auto simp: s1_def\<close>)
    qed
  qed
qed

lemma loop_view:
  "db_inv db \<Longrightarrow> retention_loop env cs (s, db) = (s', db') \<Longrightarrow>
    db_inv db' \<and> history u db' = history u db
    \<and> rows_of u (ed_store db') = (if u \<in> taken env cs then [] else rows_of u (ed_store db))
    \<and> live_count db + rst_eventsPurged s = live_count db' + rst_eventsPurged s'
    \<and> length (ed_archive db) + rst_eventsArchived s' = length (ed_archive db') + rst_eventsArchived s"
proof (induction cs arbitrary: s db)
  case Nil
  then show ?case by (simp add: taken_def reached_def)
next
  case (Cons c cs)
  show ?case
  proof (cases "hasTerminalLastEvent (cc_lastEventType c) \<and> pe_status env (cc_taskId c) = None")
    case True
    with Cons.prems show ?thesis by (simp add: taken_Cons)
  next
    case False
    obtain s1 db1 where 1: "retention_loop env (c # cs) (s, db) = retention_loop env cs (s1, db1)"
      and 2: "db1 = db \<and> rst_eventsPurged s1 = rst_eventsPurged s \<and> rst_eventsArchived s1 = rst_eventsArchived s
          \<and> (finished env c \<longrightarrow> rows_of (cc_taskId c) (ed_store db) = [])
        \<or> finished env c \<and> moved (cc_taskId c) (pe_now env) db db1
          \<and> rst_eventsPurged s1 = rst_eventsPurged s + length (rows_of (cc_taskId c) (ed_store db))
          \<and> rst_eventsArchived s1 = rst_eventsArchived s + length (rows_of (cc_taskId c) (ed_store db))"
      by (rule loop_step [OF Cons.prems(1) False])
    have run: "retention_loop env cs (s1, db1) = (s', db')" using 1 Cons.prems(2) by simp
    from 2 show ?thesis
    proof (elim disjE conjE)
      assume "db1 = db" and "rst_eventsPurged s1 = rst_eventsPurged s" "rst_eventsArchived s1 = rst_eventsArchived s"
        "finished env c \<longrightarrow> rows_of (cc_taskId c) (ed_store db) = []"
      then show ?thesis using Cons.IH [OF _ run] Cons.prems(1) False by (auto simp: taken_Cons)
    next
      assume m: "finished env c" "moved (cc_taskId c) (pe_now env) db db1"
        and n: "rst_eventsPurged s1 = rst_eventsPurged s + length (rows_of (cc_taskId c) (ed_store db))"
          "rst_eventsArchived s1 = rst_eventsArchived s + length (rows_of (cc_taskId c) (ed_store db))"
      note IH = Cons.IH [OF moved_inv [OF Cons.prems(1) m(2)] run]
      show ?thesis
        using IH moved_history [OF Cons.prems(1) m(2), of u] moved_parts(1) [OF m(2), of u] moved_counts [OF m(2)] m(1) n False
        by (auto simp: taken_Cons live_count_def)
    qed
  qed
qed

lemma run_view:
  assumes "db_inv db" and "retention_run env (rt, db) = ((rt', db'), stats)"
  shows "db_inv db'" and "history u db' = history u db"
    and "rows_of u (ed_store db') = (if rt_enabled rt \<and> \<not> rt_stopped rt \<and> \<not> rt_running rt \<and> pe_scanOk env
      \<and> u \<in> taken env (findCompactionCandidates (retention_cutoff env rt) (rt_batchTasks rt) db)
      then [] else rows_of u (ed_store db))"
    and "live_count db = live_count db' + rst_eventsPurged stats"
    and "length (ed_archive db') = length (ed_archive db) + rst_eventsArchived stats"
proof -
  let ?cs = "findCompactionCandidates (retention_cutoff env rt) (rt_batchTasks rt) db"
  let ?s = "(emptyStats (pe_now env) (rt_retentionDays rt) (retention_cutoff env rt))\<lparr>rst_candidates := length ?cs\<rparr>"
  have z: "rst_eventsPurged (emptyStats a b c) = 0" "rst_eventsArchived (emptyStats a b c) = 0" for a b c
    by (simp_all add: emptyStats_def)
  have "db_inv db' \<and> history u db' = history u db
    \<and> rows_of u (ed_store db') = (if rt_enabled rt \<and> \<not> rt_stopped rt \<and> \<not> rt_running rt \<and> pe_scanOk env \<and> u \<in> taken env ?cs
      then [] else rows_of u (ed_store db))
    \<and> live_count db = live_count db' + rst_eventsPurged stats
    \<and> length (ed_archive db') = length (ed_archive db) + rst_eventsArchived stats"
  proof (cases "rt_enabled rt \<and> \<not> rt_stopped rt \<and> \<not> rt_running rt \<and> pe_scanOk env")
    case False
    then have "db' = db" "rst_eventsPurged stats = 0" "rst_eventsArchived stats = 0"
      using assms(2) z by (auto simp: retention_run_def Let_def split: if_splits)
    with False assms(1) show ?thesis by auto
  next
    case True
    obtain s1 db1 where l: "retention_loop env ?cs (?s, db) = (s1, db1)" by fastforce
    have "db1 = db'" "s1 = stats" using True assms(2) l by (auto simp: retention_run_def Let_def)
    then show ?thesis using loop_view [OF assms(1) l, of u] True by (simp add: z)
  qed
  then show "db_inv db'" and "history u db' = history u db"
    and "rows_of u (ed_store db') = (if rt_enabled rt \<and> \<not> rt_stopped rt \<and> \<not> rt_running rt \<and> pe_scanOk env
      \<and> u \<in> taken env ?cs then [] else rows_of u (ed_store db))"
    and "live_count db = live_count db' + rst_eventsPurged stats"
    and "length (ed_archive db') = length (ed_archive db) + rst_eventsArchived stats" by blast+
qed

lemma listByTask_rows: "rows_of t st = rows_of t st' \<Longrightarrow> listByTask t st = listByTask t st'"
  by (simp add: listByTask_def task_rows_def rows_of_def)

lemma listByTask_none: "rows_of t st = [] \<Longrightarrow> listByTask t st = []"
  by (simp add: listByTask_def task_rows_def rows_of_def)

text \<open>
  C23. A retention pass treats every task by itself and loses nothing. The events of a task that the
  scan returns, that ended in its log and in the task database, before and inside the transaction,
  and whose writes succeed, leave the live log; every other task's log is as it was. What archive
  and log hold together of any task is the same events in the same order, and the counts a pass
  reports are the rows that left the log and came into the archive.
\<close>

theorem retention_per_task:
  assumes "db_inv db" and "retention_run env (rt, db) = ((rt', db'), stats)"
  shows "db_inv db' \<and> (\<forall>u. history u db' = history u db)
    \<and> (\<forall>u. listByTask u (ed_store db') =
        (if rt_enabled rt \<and> \<not> rt_stopped rt \<and> \<not> rt_running rt \<and> pe_scanOk env
            \<and> u \<in> taken env (findCompactionCandidates (retention_cutoff env rt) (rt_batchTasks rt) db)
         then [] else listByTask u (ed_store db)))
    \<and> countLiveEvents db = countLiveEvents db' + rst_eventsPurged stats
    \<and> countArchivedEvents db' = countArchivedEvents db + rst_eventsArchived stats"
proof -
  note v = run_view [OF assms]
  have "listByTask u (ed_store db') =
        (if rt_enabled rt \<and> \<not> rt_stopped rt \<and> \<not> rt_running rt \<and> pe_scanOk env
            \<and> u \<in> taken env (findCompactionCandidates (retention_cutoff env rt) (rt_batchTasks rt) db)
         then [] else listByTask u (ed_store db))" for u
    using v(3) [of u] by (auto intro: listByTask_rows listByTask_none)
  then show ?thesis using v by (simp add: countLiveEvents_def countArchivedEvents_def live_count_def)
qed

subsection \<open>Only finished tasks\<close>

lemma candidate_facts:
  assumes "c \<in> set (findCompactionCandidates cutoff limit db)"
  shows "cc_taskId c \<noteq> SYSTEM_TASK_ID" and "task_rows (cc_taskId c) (ed_store db) \<noteq> []"
    and "cc_lastEventType c = er_type (last (task_rows (cc_taskId c) (ed_store db)))"
    and "\<exists>r \<in> set (task_rows (cc_taskId c) (ed_store db)). er_occurredAt r < cutoff"
proof -
  let ?old = "filter (\<lambda>r. er_occurredAt r < cutoff \<and> er_taskId r \<noteq> SYSTEM_TASK_ID) (es_rows (ed_store db))"
  have "set (take limit (sort_key cc_lastOccurredAt (map (candidate_of (ed_store db) ?old) (sort (remdups (map er_taskId ?old))))))
      \<subseteq> set (sort_key cc_lastOccurredAt (map (candidate_of (ed_store db) ?old) (sort (remdups (map er_taskId ?old)))))"
    by (rule set_take_subset)
  then have "set (findCompactionCandidates cutoff limit db) \<subseteq> candidate_of (ed_store db) ?old ` er_taskId ` set ?old"
    unfolding findCompactionCandidates_def Let_def set_sort set_map set_remdups .
  with assms obtain r where r: "r \<in> set ?old" and t2: "c = candidate_of (ed_store db) ?old (er_taskId r)" by blast
  define t where "t = er_taskId r"
  have r: "r \<in> set (es_rows (ed_store db))" "er_taskId r = t" "er_occurredAt r < cutoff" "t \<noteq> SYSTEM_TASK_ID"
    using r unfolding t_def by simp_all
  have t: "c = candidate_of (ed_store db) ?old t" using t2 unfolding t_def .
  have id: "cc_taskId c = t" by (simp add: t candidate_of_def Let_def)
  have mem: "r \<in> set (task_rows t (ed_store db))" using r by (simp add: task_rows_def)
  then show "\<exists>r \<in> set (task_rows (cc_taskId c) (ed_store db)). er_occurredAt r < cutoff" using r(3) unfolding id by blast
  show ne: "task_rows (cc_taskId c) (ed_store db) \<noteq> []" using mem id by auto
  show "cc_taskId c \<noteq> SYSTEM_TASK_ID" using r id by simp
  show "cc_lastEventType c = er_type (last (task_rows (cc_taskId c) (ed_store db)))"
    using ne id by (cases "task_rows t (ed_store db)" rule: rev_cases) (simp_all add: t candidate_of_def Let_def)
qed

lemma in_taken:
  assumes "u \<in> taken env (findCompactionCandidates cutoff limit db)"
  shows "u \<noteq> SYSTEM_TASK_ID" and "task_rows u (ed_store db) \<noteq> []"
    and "hasTerminalLastEvent (er_type (last (task_rows u (ed_store db))))"
    and "\<exists>r \<in> set (task_rows u (ed_store db)). er_occurredAt r < cutoff"
    and "\<exists>s. pe_status env u = Some s \<and> isTerminalTaskStatus s"
    and "assertStillTerminal env u"
proof -
  from assms obtain c where c: "c \<in> set (findCompactionCandidates cutoff limit db)" "cc_taskId c = u" "finished env c"
    by (auto simp: taken_def reached_def dest: set_takeWhileD)
  note f = candidate_facts [OF c(1)]
  show "u \<noteq> SYSTEM_TASK_ID" "task_rows u (ed_store db) \<noteq> []" "assertStillTerminal env u"
    "hasTerminalLastEvent (er_type (last (task_rows u (ed_store db))))"
    "\<exists>r \<in> set (task_rows u (ed_store db)). er_occurredAt r < cutoff"
    "\<exists>s. pe_status env u = Some s \<and> isTerminalTaskStatus s"
    using f c(2,3) by (auto simp: finished_def split: option.splits)
qed

text \<open>
  Unfinished tasks keep their log. If a pass changes what the live log holds of a task, the last
  of its events is a \<open>TaskCompleted\<close> or \<open>TaskFailed\<close>, one of them is older than the retention
  window, the task database called it finished both at the check and inside the transaction, and it
  is not the pseudo-task of the agent monitor.
\<close>

theorem only_finished_tasks_leave:
  assumes "db_inv db" and "retention_run env (rt, db) = ((rt', db'), stats)"
    and "listByTask u (ed_store db') \<noteq> listByTask u (ed_store db)"
  shows "u \<noteq> SYSTEM_TASK_ID \<and> hasTerminalLastEvent (ae_type (fst (last (listByTask u (ed_store db)))))
    \<and> (\<exists>e \<in> set (listByTask u (ed_store db)). ae_occurredAt (fst e) < retention_cutoff env rt)
    \<and> (\<exists>s. pe_status env u = Some (Some s) \<and> s \<in> set TERMINAL_TASK_STATUSES)
    \<and> (\<exists>s. pe_statusInside env u = Some (Some s) \<and> s \<in> set TERMINAL_TASK_STATUSES)"
proof -
  have "u \<in> taken env (findCompactionCandidates (retention_cutoff env rt) (rt_batchTasks rt) db)"
    using run_view(3) [OF assms(1,2), of u] assms(3) by (auto intro: listByTask_rows split: if_splits)
  note f = in_taken [OF this]
  have m: "ae_type (fst (last (listByTask u (ed_store db)))) = er_type (last (task_rows u (ed_store db)))"
    using f(2) by (simp add: listByTask_def last_map rowToStoredEvent_def)
  have old: "\<exists>e \<in> set (listByTask u (ed_store db)). ae_occurredAt (fst e) < retention_cutoff env rt"
    using f(4) by (auto simp: listByTask_def rowToStoredEvent_def)
  show ?thesis using f(1,3,5,6) m old
    by (auto simp: isTerminalTaskStatus_def assertStillTerminal_def split: option.splits)
qed

subsection \<open>Emitting and archiving\<close>

text \<open>
  The bus and the retention service work on one event database. A pass is given with the service it
  is run on; a restart of the process builds the bus anew from the live log.
\<close>

datatype ret_op = REmit bus_event | RPass retention retention_env | RRestart

fun retention_hist :: "ret_op list \<Rightarrow> event_bus \<times> event_db \<Rightarrow> (event_bus \<times> event_db) \<times> bus_event list" where
  "retention_hist [] (b, db) = ((b, db), [])"
| "retention_hist (REmit e # xs) (b, db) = (case eb_emit True (be_taskId e) e (b\<lparr>eb_store := ed_store db\<rparr>) of
     (b', e') \<Rightarrow> (case retention_hist xs (b', db\<lparr>ed_store := eb_store b'\<rparr>) of (s, es) \<Rightarrow> (s, e' # es)))"
| "retention_hist (RPass rt env # xs) (b, db) = retention_hist xs (b, snd (fst (retention_run env (rt, db))))"
| "retention_hist (RRestart # xs) (b, db) = retention_hist xs (new_bus (ed_store db), db)"

definition empty_db :: event_db where
  "empty_db = \<lparr> ed_store = empty_store, ed_archive = [], ed_summary = [] \<rparr>"

definition numbered :: "event_bus \<Rightarrow> event_db \<Rightarrow> bool" where
  "numbered b db \<longleftrightarrow> (\<forall>t. map ar_taskSeq (arch_of t db) @ map er_taskSeq (rows_of t (ed_store db)) = [0..<next_seq t b])
     \<and> (\<forall>r \<in> set (es_rows (ed_store db)). er_nodeId r \<noteq> Some '''')"

lemma numbered_inv: "numbered b db \<Longrightarrow> db_inv db"
  by (simp add: numbered_def db_inv_def)

lemma history_seqs:
  "db_inv db \<Longrightarrow> map (ae_taskSeq \<circ> fst) (history t db)
    = map Some (map ar_taskSeq (arch_of t db) @ map er_taskSeq (rows_of t (ed_store db)))"
  by (simp add: history_sorted rowToArchivedEvent_def rowToStoredEvent_def comp_def)

lemma run_no_empty_node:
  assumes "db_inv db" and "retention_run env (rt, db) = ((rt', db'), stats)"
  shows "\<forall>r \<in> set (es_rows (ed_store db')). er_nodeId r \<noteq> Some ''''"
  using run_view(1) [OF assms] by (simp add: db_inv_def)

lemma run_numbered:
  assumes "numbered b db" and "retention_run env (rt, db) = ((rt', db'), stats)"
  shows "numbered b db'"
proof -
  note inv = numbered_inv [OF assms(1)]
  note v = run_view [OF inv assms(2)]
  have "map Some (map ar_taskSeq (arch_of t db') @ map er_taskSeq (rows_of t (ed_store db')))
      = map Some (map ar_taskSeq (arch_of t db) @ map er_taskSeq (rows_of t (ed_store db)))" for t
    using history_seqs [OF inv, of t] history_seqs [OF v(1), of t] unfolding v(2) [of t] by (rule trans [OF sym, rotated])
  then have "map ar_taskSeq (arch_of t db') @ map er_taskSeq (rows_of t (ed_store db'))
      = map ar_taskSeq (arch_of t db) @ map er_taskSeq (rows_of t (ed_store db))" for t
    by (rule map_injective) simp
  then have "map ar_taskSeq (arch_of t db') @ map er_taskSeq (rows_of t (ed_store db')) = [0..<next_seq t b]" for t
    using assms(1) unfolding numbered_def by metis
  then show ?thesis using run_no_empty_node [OF inv assms(2)] by (simp add: numbered_def)
qed

lemma log_row_node: "er_nodeId (log_row e g) \<noteq> Some ''''"
  by (auto simp: log_row_def Let_def dagEventToAppEvent_def split: option.splits)

lemma emit_numbered:
  assumes "numbered b db" and "eb_emit True (be_taskId e) e (b\<lparr>eb_store := ed_store db\<rparr>) = (b', e')"
  shows "e' = e\<lparr>be_seq := Some (next_seq (be_taskId e) b)\<rparr>"
    and "next_seq t b' = (if t = be_taskId e then next_seq t b + 1 else next_seq t b)"
    and "numbered b' (db\<lparr>ed_store := eb_store b'\<rparr>)"
    and "map fst (history t (db\<lparr>ed_store := eb_store b'\<rparr>)) = map fst (history t db) @ map dagEventToAppEvent (of_task t [e'])"
proof -
  let ?t = "be_taskId e" and ?k = "next_seq (be_taskId e) b" and ?g = "es_nextGlobal (ed_store db)"
  show e': "e' = e\<lparr>be_seq := Some ?k\<rparr>" using assms(2) by (simp add: eb_emit_def next_seq_def Let_def)
  have "er_taskSeq r \<noteq> ?k" if "r \<in> set (es_rows (ed_store db))" "er_taskId r = ?t" for r
  proof -
    have "er_taskSeq r \<in> set (map ar_taskSeq (arch_of ?t db) @ map er_taskSeq (rows_of ?t (ed_store db)))"
      using that by (auto simp: rows_of_def)
    then have "er_taskSeq r \<in> set [0..<?k]" using assms(1) by (simp only: numbered_def)
    then show ?thesis by simp
  qed
  then have store: "eb_store b' = (ed_store db)\<lparr>es_rows := es_rows (ed_store db) @ [log_row e' ?g], es_nextGlobal := ?g + 1\<rparr>"
    using assms(2) append_log_row [of e' ?k "ed_store db"] e' by (auto simp: eb_emit_def next_seq_def Let_def)
  show seq: "next_seq t b' = (if t = ?t then next_seq t b + 1 else next_seq t b)" for t
    using assms(2) by (auto simp: eb_emit_def next_seq_def Let_def js_map)
  let ?db = "db\<lparr>ed_store := eb_store b'\<rparr>"
  have rows: "rows_of t (ed_store ?db) = rows_of t (ed_store db) @ (if t = ?t then [log_row e' ?g] else [])"
    and arch: "arch_of t ?db = arch_of t db" for t
    using e' by (auto simp: rows_of_def store arch_of_def)
  have rows': "rows_of t (eb_store b') = rows_of t (ed_store db) @ (if t = ?t then [log_row e' ?g] else [])" for t
    using rows [of t] by simp
  show num: "numbered b' ?db"
    unfolding numbered_def
  proof (intro conjI allI)
    fix t
    have "map ar_taskSeq (arch_of t ?db) @ map er_taskSeq (rows_of t (ed_store ?db))
        = (map ar_taskSeq (arch_of t db) @ map er_taskSeq (rows_of t (ed_store db))) @ (if t = ?t then [?k] else [])"
      unfolding arch rows using e' by simp
    also have "\<dots> = [0..<next_seq t b] @ (if t = ?t then [?k] else [])" using assms(1) unfolding numbered_def by metis
    also have "\<dots> = [0..<next_seq t b']" unfolding seq by simp
    finally show "map ar_taskSeq (arch_of t ?db) @ map er_taskSeq (rows_of t (ed_store ?db)) = [0..<next_seq t b']" .
    show "\<forall>r \<in> set (es_rows (ed_store ?db)). er_nodeId r \<noteq> Some ''''"
      using assms(1) log_row_node by (simp add: numbered_def store)
  qed
  show "map fst (history t ?db) = map fst (history t db) @ map dagEventToAppEvent (of_task t [e'])"
    using e' by (auto simp: history_sorted numbered_inv [OF num] numbered_inv [OF assms(1)] rows' arch of_task_def log_row_roundtrip)
qed

lemma hist_view:
  "numbered b db \<Longrightarrow> RRestart \<notin> set xs \<Longrightarrow> retention_hist xs (b, db) = ((b', db'), es) \<Longrightarrow>
    numbered b' db' \<and> map be_seq (of_task t es) = map Some [next_seq t b..<next_seq t b'] \<and> next_seq t b \<le> next_seq t b'
    \<and> map fst (history t db') = map fst (history t db) @ map dagEventToAppEvent (of_task t es)"
proof (induction xs arbitrary: b db es)
  case Nil
  then show ?case by (simp add: of_task_def)
next
  case (Cons x xs)
  show ?case
  proof (cases x)
    case RRestart
    then show ?thesis using Cons.prems(2) by simp
  next
    case (RPass rt env)
    obtain rt' db1 stats where r: "retention_run env (rt, db) = ((rt', db1), stats)"
      by (metis surj_pair)
    have "retention_hist xs (b, db1) = ((b', db'), es)" using Cons.prems(3) RPass r by simp
    moreover have "history t db1 = history t db" by (rule run_view(2) [OF numbered_inv [OF Cons.prems(1)] r])
    ultimately show ?thesis using Cons.IH [OF run_numbered [OF Cons.prems(1) r]] Cons.prems(2) by simp
  next
    case (REmit e)
    obtain b1 e' where 1: "eb_emit True (be_taskId e) e (b\<lparr>eb_store := ed_store db\<rparr>) = (b1, e')" by fastforce
    obtain fs where 2: "retention_hist xs (b1, db\<lparr>ed_store := eb_store b1\<rparr>) = ((b', db'), fs)" "es = e' # fs"
      using Cons.prems(3) REmit 1 by (cases "retention_hist xs (b1, db\<lparr>ed_store := eb_store b1\<rparr>)") auto
    note v = emit_numbered [OF Cons.prems(1) 1]
    note IH = Cons.IH [OF v(3) _ 2(1)]
    have e: "be_taskId e' = be_taskId e" "be_seq e' = Some (next_seq (be_taskId e) b)" using v(1) by simp_all
    show ?thesis
    proof (cases "be_taskId e = t")
      case True
      then have "of_task t es = e' # of_task t fs" "of_task t [e'] = [e']" using 2(2) e by (simp_all add: of_task_def)
      with IH v(2,4) [of t] e True Cons.prems(2) show ?thesis by (simp add: upt_conv_Cons)
    next
      case False
      then have "of_task t es = of_task t fs" "of_task t [e'] = []" using 2(2) e by (simp_all add: of_task_def)
      with IH v(2,4) [of t] False Cons.prems(2) show ?thesis by simp
    qed
  qed
qed

lemma empty_numbered: "numbered (new_bus empty_store) empty_db" "history t empty_db = []" "next_seq t (new_bus empty_store) = 0"
  by (simp_all add: numbered_def empty_db_def empty_store_def arch_of_def rows_of_def history_def listArchivedByTask_def
      archived_rows_def listByTask_def task_rows_def next_seq_def new_bus_def maxTaskSeqPerTask_def)

text \<open>
  C8. Archive and log are the whole history. However events of any tasks and retention passes with
  any settings, answers and failing writes alternate in the life of a process, what the archive
  holds of a task followed by what the log still holds is exactly the events emitted for it, in
  order, numbered 0, 1, 2 and so on.
\<close>

theorem archive_and_log_are_the_history:
  assumes "RRestart \<notin> set xs" and "retention_hist xs (new_bus empty_store, empty_db) = ((b, db), es)"
  shows "map fst (listArchivedByTask t db @ listByTask t (ed_store db)) = map dagEventToAppEvent (of_task t es)
    \<and> map be_seq (of_task t es) = map Some [0..<length (of_task t es)]"
proof -
  note v = hist_view [OF empty_numbered(1) assms, of t]
  have s: "map be_seq (of_task t es) = map Some [0..<next_seq t b]" using v by (simp add: empty_numbered)
  from arg_cong [OF this, of length] have "length (of_task t es) = next_seq t b" by simp
  with v s show ?thesis by (simp add: empty_numbered history_def [symmetric] del: map_append)
qed

subsection \<open>A restart after an archival\<close>

lemma emit_own:
  assumes "map er_taskSeq (rows_of t (ed_store db)) = [0..<next_seq t b]" and "be_taskId e = t"
    and "eb_emit True (be_taskId e) e (b\<lparr>eb_store := ed_store db\<rparr>) = (b', e')"
  shows "map er_taskSeq (rows_of t (eb_store b')) = [0..<next_seq t b']" and "next_seq t b' = next_seq t b + 1"
proof -
  let ?k = "next_seq t b" and ?g = "es_nextGlobal (ed_store db)"
  have e': "e' = e\<lparr>be_seq := Some ?k\<rparr>" using assms(2,3) by (simp add: eb_emit_def next_seq_def Let_def)
  have "er_taskSeq r \<noteq> ?k" if "r \<in> set (es_rows (ed_store db))" "er_taskId r = t" for r
  proof -
    have "er_taskSeq r \<in> set (map er_taskSeq (rows_of t (ed_store db)))" using that by (auto simp: rows_of_def)
    then have "er_taskSeq r \<in> set [0..<?k]" using assms(1) by simp
    then show ?thesis by simp
  qed
  then have "eb_store b' = (ed_store db)\<lparr>es_rows := es_rows (ed_store db) @ [log_row e' ?g], es_nextGlobal := ?g + 1\<rparr>"
    using assms(2,3) append_log_row [of e' ?k "ed_store db"] e' by (auto simp: eb_emit_def next_seq_def Let_def)
  then have rows: "rows_of t (eb_store b') = rows_of t (ed_store db) @ [log_row e' ?g]"
    using e' assms(2) by (simp add: rows_of_def)
  show seq: "next_seq t b' = next_seq t b + 1"
    using assms(2,3) by (auto simp: eb_emit_def next_seq_def Let_def js_map)
  show "map er_taskSeq (rows_of t (eb_store b')) = [0..<next_seq t b']" using assms(1) e' by (simp add: rows seq)
qed

lemma emits_own:
  "map er_taskSeq (rows_of t (ed_store db)) = [0..<next_seq t b] \<Longrightarrow> \<forall>e \<in> set es. be_taskId e = t
    \<Longrightarrow> retention_hist (map REmit es) (b, db) = ((b', db'), es')
    \<Longrightarrow> map er_taskSeq (rows_of t (ed_store db')) = [0..<next_seq t b + length es] \<and> ed_archive db' = ed_archive db"
proof (induction es arbitrary: b db es')
  case (Cons e es)
  obtain b1 e1 where 1: "eb_emit True (be_taskId e) e (b\<lparr>eb_store := ed_store db\<rparr>) = (b1, e1)" by fastforce
  obtain fs where 2: "retention_hist (map REmit es) (b1, db\<lparr>ed_store := eb_store b1\<rparr>) = ((b', db'), fs)"
    using Cons.prems(3) 1 by (cases "retention_hist (map REmit es) (b1, db\<lparr>ed_store := eb_store b1\<rparr>)") auto
  note o = emit_own [OF Cons.prems(1) _ 1]
  show ?case using Cons.IH [OF _ _ 2] o Cons.prems(2) by simp
qed simp

lemma insert_ignore_none:
  "ar_key ` set xs \<subseteq> ar_key ` set t \<Longrightarrow> fold insert_ignore xs t = t"
  by (induction xs) (auto simp: insert_ignore_def)

lemma listByTask_empty: "listByTask t st = [] \<longleftrightarrow> rows_of t st = []"
  by (simp add: listByTask_def task_rows_def rows_of_def flip: length_0_conv)

text \<open>
  C22. What is emitted after an archival and a restart can be lost. The bus numbers a task's events
  from the live log alone, so after the archival of a task and a restart of the process it starts
  again at 0. As long as there are no more of the new events than archived ones, archiving the task
  again ignores each of them, the count of archived rows passes the check, the live rows are purged,
  and the call reports them as archived.
\<close>

theorem restart_after_archival_loses_events:
  assumes "numbered b db" and "listByTask t (ed_store db) = []"
    and "\<forall>e \<in> set es. be_taskId e = t" and "es \<noteq> []" and "length es \<le> length (listArchivedByTask t db)"
    and "retention_hist (RRestart # map REmit es) (b, db) = ((b', db'), es')"
    and "compactTask True True t status now db' = (db'', res)"
  shows "map fst (listByTask t (ed_store db')) \<noteq> [] \<and> listByTask t (ed_store db'') = []
    \<and> listArchivedByTask t db'' = listArchivedByTask t db
    \<and> (\<exists>out. res = Inr out \<and> co_compacted out \<and> co_eventsArchived out = length es \<and> co_eventsPurged out = length es)"
proof -
  have none: "rows_of t (ed_store db) = []" using assms(2) by (simp add: listByTask_empty)
  have arch: "map ar_taskSeq (arch_of t db) = [0..<length (arch_of t db)]"
  proof -
    have "map ar_taskSeq (arch_of t db) = [0..<next_seq t b]" using assms(1) none unfolding numbered_def by (metis append_Nil2 list.simps(8))
    then show ?thesis by (metis diff_zero length_map length_upt)
  qed
  have k: "length es \<le> length (arch_of t db)"
    using assms(5) by (simp add: listArchivedByTask_def archived_rows_def arch_of_def)
  have nb: "next_seq t (new_bus (ed_store db)) = 0" using new_bus_seq [of t "ed_store db" 0] none by simp
  have hist: "retention_hist (map REmit es) (new_bus (ed_store db), db) = ((b', db'), es')" using assms(6) by simp
  have e: "map er_taskSeq (rows_of t (ed_store db')) = [0..<length es]" "ed_archive db' = ed_archive db"
    using emits_own [OF _ assms(3) hist] nb none by simp_all
  have len: "length (rows_of t (ed_store db')) = length es" using arg_cong [OF e(1), of length] by simp
  have live: "rows_of t (ed_store db') \<noteq> []" using len assms(4) by (metis length_0_conv)
  have "insertArchiveStmt t now (ed_store db') (ed_archive db') = ed_archive db"
    unfolding insertArchiveStmt_def e(2)
  proof (rule insert_ignore_none, rule subsetI)
    fix key assume "key \<in> ar_key ` set (map (archive_of now) (rows_of t (ed_store db')))"
    then obtain r where r: "r \<in> set (rows_of t (ed_store db'))" "key = ar_key (archive_of now r)" by auto
    have "er_taskSeq r \<in> set (map er_taskSeq (rows_of t (ed_store db')))" using r(1) by simp
    then have "er_taskSeq r < length es" unfolding e(1) by simp
    then have "er_taskSeq r \<in> set (map ar_taskSeq (arch_of t db))" using k unfolding arch by simp
    then obtain x where "x \<in> set (ed_archive db)" "ar_taskId x = t" "ar_taskSeq x = er_taskSeq r" by (auto simp: arch_of_def)
    moreover have "er_taskId r = t" using r(1) by (simp add: rows_of_def)
    ultimately show "key \<in> ar_key ` set (ed_archive db)" using r(2) by (intro image_eqI [of _ _ x]) (simp_all add: ar_key_def)
  qed
  moreover have "countArchivedStmt t (ed_archive db) = length (arch_of t db)" by (simp add: countArchivedStmt_def arch_of_def)
  moreover have del: "length (es_rows (ed_store db')) - length (filter (\<lambda>r. er_taskId r \<noteq> t) (es_rows (ed_store db')))
      = length es" using len deleted_count [of "es_rows (ed_store db')" "\<lambda>r. er_taskId r = t"] by (simp add: rows_of_def)
  ultimately have c: "ed_archive db'' = ed_archive db \<and> rows_of t (ed_store db'') = []
    \<and> (\<exists>out. res = Inr out \<and> co_compacted out \<and> co_eventsArchived out = length es \<and> co_eventsPurged out = length es)"
    using assms(7) live k len assms(4) by (auto simp: compactTask_def Let_def rows_of_def)
  then show ?thesis using live by (simp add: listByTask_empty listArchivedByTask_def archived_rows_def)
qed

text \<open>A task with one archived event, restarted, one more event, archived again.\<close>

definition lost_before :: event_db where
  "lost_before = \<lparr> ed_store = \<lparr> es_rows = [], es_nextGlobal = 2 \<rparr>,
     ed_archive = [\<lparr> ar_globalSeq = 1, ar_taskSeq = 0, ar_version = 2, ar_type = ''TaskCompleted'', ar_taskId = ''t'',
       ar_nodeId = '''', ar_occurredAt = 5, ar_payload = None, ar_archivedAt = 9 \<rparr>], ed_summary = [] \<rparr>"

definition lost_event :: bus_event where
  "lost_event = \<lparr> be_type = ''task_failed'', be_taskId = ''t'', be_nodeId = None, be_timestamp = 7, be_payload = None, be_seq = None \<rparr>"

definition lost_bus :: event_bus where
  "lost_bus = \<lparr> eb_nextSeqByTask = [(''t'', 1)], eb_store = ed_store lost_before \<rparr>"

lemma lost_numbered: "numbered lost_bus lost_before"
  by (auto simp: numbered_def lost_bus_def lost_before_def arch_of_def rows_of_def next_seq_def)

lemma lost_lists: "listByTask ''t'' (ed_store lost_before) = []" "length (listArchivedByTask ''t'' lost_before) = 1"
  by (simp_all add: lost_before_def listByTask_def task_rows_def listArchivedByTask_def archived_rows_def)

theorem restart_after_archival_loses_events_witness:
  "listByTask ''t'' (ed_store (fst (compactTask True True ''t'' ''failed'' 9
      (snd (fst (retention_hist (RRestart # map REmit [lost_event]) (lost_bus, lost_before))))))) = []
    \<and> listByTask ''t'' (ed_store (snd (fst (retention_hist (RRestart # map REmit [lost_event]) (lost_bus, lost_before))))) \<noteq> []"
proof -
  obtain b' db' es' where 1: "retention_hist (RRestart # map REmit [lost_event]) (lost_bus, lost_before) = ((b', db'), es')"
    by (metis surj_pair)
  obtain db'' res where 2: "compactTask True True ''t'' ''failed'' 9 db' = (db'', res)" by fastforce
  have e: "\<forall>e \<in> set [lost_event]. be_taskId e = ''t''" by (simp add: lost_event_def)
  have "length [lost_event] \<le> length (listArchivedByTask ''t'' lost_before)" by (simp add: lost_lists)
  from restart_after_archival_loses_events [OF lost_numbered lost_lists(1) e _ this 1 2] show ?thesis
    unfolding 1 by (auto simp add: 2)
qed

definition done_db :: event_db where
  "done_db = \<lparr> ed_store = \<lparr> es_rows = [log_row (lost_event\<lparr>be_seq := Some 0\<rparr>) 1], es_nextGlobal = 2 \<rparr>,
     ed_archive = [], ed_summary = [] \<rparr>"

definition done_env :: retention_env where
  "done_env = \<lparr> pe_now = 9 + 31 * MS_PER_DAY, pe_scanOk = True, pe_status = (\<lambda>_. Some (Some ''failed'')),
     pe_statusInside = (\<lambda>_. Some (Some ''failed'')), pe_diskOk = (\<lambda>_. True) \<rparr>"

lemma done_inv: "db_inv done_db"
  by (auto simp: db_inv_def done_db_def arch_of_def rows_of_def log_row_node)

lemma done_taken: "''t'' \<in> taken done_env (findCompactionCandidates (retention_cutoff done_env (new_retention None None None))
    (rt_batchTasks (new_retention None None None)) done_db)"
  by code_simp

theorem retention_per_task_witness:
  "listByTask ''t'' (ed_store (snd (fst (retention_run done_env (new_retention None None None, done_db))))) = []
    \<and> history ''t'' (snd (fst (retention_run done_env (new_retention None None None, done_db)))) = history ''t'' done_db"
proof -
  obtain rt' db' stats where r: "retention_run done_env (new_retention None None None, done_db) = ((rt', db'), stats)"
    by (metis surj_pair)
  have "rt_enabled (new_retention None None None) \<and> \<not> rt_stopped (new_retention None None None)
      \<and> \<not> rt_running (new_retention None None None) \<and> pe_scanOk done_env"
    by (simp add: new_retention_def done_env_def)
  with retention_per_task [OF done_inv r] done_taken show ?thesis by (simp add: r)
qed

theorem only_finished_tasks_leave_witness: "hasTerminalLastEvent (ae_type (fst (last (listByTask ''t'' (ed_store done_db)))))"
proof -
  obtain rt' db' stats where r: "retention_run done_env (new_retention None None None, done_db) = ((rt', db'), stats)"
    by (metis surj_pair)
  have "rt_enabled (new_retention None None None) \<and> \<not> rt_stopped (new_retention None None None)
      \<and> \<not> rt_running (new_retention None None None) \<and> pe_scanOk done_env"
    by (simp add: new_retention_def done_env_def)
  then have "listByTask ''t'' (ed_store db') = []" using run_view(3) [OF done_inv r, of "''t''"] done_taken
    by (simp add: listByTask_empty)
  moreover have "listByTask ''t'' (ed_store done_db) \<noteq> []"
    by (simp add: listByTask_empty done_db_def rows_of_def lost_event_def)
  ultimately show ?thesis using only_finished_tasks_leave [OF done_inv r] by metis
qed

theorem archive_and_log_are_the_history_witness:
  "map fst (listArchivedByTask ''t'' (snd (fst (retention_hist [REmit lost_event, RPass (new_retention None None None) done_env]
        (new_bus empty_store, empty_db))))
      @ listByTask ''t'' (ed_store (snd (fst (retention_hist [REmit lost_event, RPass (new_retention None None None) done_env]
        (new_bus empty_store, empty_db))))))
    = map dagEventToAppEvent (of_task ''t'' (snd (retention_hist [REmit lost_event, RPass (new_retention None None None) done_env]
        (new_bus empty_store, empty_db))))"
proof -
  obtain b db es where r: "retention_hist [REmit lost_event, RPass (new_retention None None None) done_env]
        (new_bus empty_store, empty_db) = ((b, db), es)" by (metis surj_pair)
  have "RRestart \<notin> set [REmit lost_event, RPass (new_retention None None None) done_env]" by simp
  from archive_and_log_are_the_history [OF this r] show ?thesis unfolding r by simp
qed

subsection \<open>The summaries\<close>

definition su_key :: "stored_summary \<Rightarrow> ident \<times> ident" where
  "su_key s = (su_taskId s, su_nodeId s)"

lemma upsert_key: "upsertSummaryStmt s t = (if su_key s \<in> su_key ` set t
    then map (\<lambda>x. if su_key x = su_key s then s else x) t else t @ [s])"
proof -
  have "(su_taskId x = su_taskId s \<and> su_nodeId x = su_nodeId s) \<longleftrightarrow> su_key x = su_key s" for x
    by (simp add: su_key_def)
  moreover have "(\<exists>x \<in> set t. su_key x = su_key s) \<longleftrightarrow> su_key s \<in> su_key ` set t" by (metis imageE imageI)
  ultimately show ?thesis by (simp only: upsertSummaryStmt_def)
qed

lemma overwrite_other: "su_key s \<noteq> k \<Longrightarrow>
    filter (\<lambda>x. su_key x = k) (map (\<lambda>x. if su_key x = su_key s then s else x) t) = filter (\<lambda>x. su_key x = k) t"
  by (induction t) auto

lemma overwrite_keys: "map su_key (map (\<lambda>x. if su_key x = su_key s then s else x) t) = map su_key t"
  by simp

lemma upsert_other: "su_key s \<noteq> k \<Longrightarrow> filter (\<lambda>x. su_key x = k) (upsertSummaryStmt s t) = filter (\<lambda>x. su_key x = k) t"
  by (simp add: upsert_key overwrite_other)

lemma upsert_keys: "distinct (map su_key t) \<Longrightarrow> distinct (map su_key (upsertSummaryStmt s t))"
  unfolding upsert_key by (auto simp only: overwrite_keys split: if_splits) auto

lemma filter_key_single: "distinct (map f xs) \<Longrightarrow> x \<in> set xs \<Longrightarrow> filter (\<lambda>y. f y = f x) xs = [x]"
  by (induction xs) (auto simp: filter_empty_conv image_iff)

lemma upsert_mem: "s \<in> set (upsertSummaryStmt s t)"
  by (auto simp: upsert_key)

lemma upsert_fold:
  assumes "distinct (map su_key t)" and "distinct (map su_key ss)"
  shows "distinct (map su_key (fold upsertSummaryStmt ss t))
    \<and> (\<forall>s \<in> set ss. filter (\<lambda>x. su_key x = su_key s) (fold upsertSummaryStmt ss t) = [s])
    \<and> (\<forall>k. k \<notin> su_key ` set ss \<longrightarrow> filter (\<lambda>x. su_key x = k) (fold upsertSummaryStmt ss t) = filter (\<lambda>x. su_key x = k) t)"
  using assms
proof (induction ss arbitrary: t)
  case (Cons s ss)
  have u: "distinct (map su_key (upsertSummaryStmt s t))" by (rule upsert_keys [OF Cons.prems(1)])
  note IH = Cons.IH [OF u]
  have one: "filter (\<lambda>x. su_key x = su_key s) (upsertSummaryStmt s t) = [s]"
    by (rule filter_key_single [OF u upsert_mem])
  have notin: "su_key s \<notin> su_key ` set ss" using Cons.prems(2) by auto
  have d: "distinct (map su_key ss)" using Cons.prems(2) by simp
  have "filter (\<lambda>x. su_key x = su_key s) (fold upsertSummaryStmt (s # ss) t) = [s]"
    using IH [OF d] notin one by (simp del: split_paired_All)
  moreover have "filter (\<lambda>x. su_key x = k) (fold upsertSummaryStmt (s # ss) t) = filter (\<lambda>x. su_key x = k) t"
    if "k \<notin> su_key ` set (s # ss)" for k
  proof -
    have "k \<notin> su_key ` set ss" "su_key s \<noteq> k" using that by auto
    then show ?thesis using IH [OF d] upsert_other [of s k t] by (simp del: split_paired_All)
  qed
  ultimately show ?case using IH [OF d] by (simp del: split_paired_All)
qed simp

lemma sum_groups:
  "distinct ns \<Longrightarrow> f ` set xs \<subseteq> set ns \<Longrightarrow> (\<Sum>n\<leftarrow>ns. length (filter (\<lambda>x. f x = n) xs)) = length xs"
proof (induction xs)
  case (Cons x xs)
  have "(\<Sum>n\<leftarrow>ns. length (filter (\<lambda>y. f y = n) (x # xs)))
      = (\<Sum>n\<leftarrow>ns. length (filter (\<lambda>y. f y = n) xs)) + (\<Sum>n\<leftarrow>ns. if f x = n then 1 else 0)"
    by (subst sum_list_addf [symmetric]) (rule arg_cong [where f = sum_list], rule map_cong, auto)
  also have "(\<Sum>n\<leftarrow>ns. if f x = n then 1 else 0) = (1::nat)"
    using Cons.prems by (simp add: sum_list_distinct_conv_sum_set sum.delta)
  finally show ?case using Cons by simp
qed simp

lemma node_groups_set: "set (node_groups rows) = set (map er_nodeId rows)"
  by (auto simp: node_groups_def List.map_filter_def image_iff) (metis option.collapse option.sel)+

lemma node_groups_distinct: "distinct (node_groups rows)"
  by (auto simp: node_groups_def distinct_map)

text \<open>
  The summaries count what was archived. When a task is archived, every node of its events, and
  the task level, has exactly one summary row afterwards: the counts per type, the first and the last
  time, and the last number of just the rows moved now. No row of another task or node changes, and
  the event counts of the rows written add up to the number of rows purged.
\<close>

theorem summaries_of_an_archival:
  assumes "db_inv db" and "distinct (map su_key (ed_summary db))"
    and "compactTask diskOk still t status now db = (db', Inr out)" and "co_compacted out"
  shows "distinct (map su_key (ed_summary db'))
    \<and> (\<forall>n \<in> er_nodeId ` set (rows_of t (ed_store db)).
        filter (\<lambda>s. su_key s = (t, or_else '''' n)) (ed_summary db') = [summary_of t status now (rows_of t (ed_store db)) n])
    \<and> (\<forall>k. k \<notin> (\<lambda>n. (t, or_else '''' n)) ` er_nodeId ` set (rows_of t (ed_store db))
        \<longrightarrow> filter (\<lambda>s. su_key s = k) (ed_summary db') = filter (\<lambda>s. su_key s = k) (ed_summary db))
    \<and> (\<Sum>n\<leftarrow>node_groups (rows_of t (ed_store db)). su_eventCount (summary_of t status now (rows_of t (ed_store db)) n))
        = co_eventsPurged out"
proof -
  let ?rows = "rows_of t (ed_store db)"
  let ?sums = "map (summary_of t status now ?rows) (node_groups ?rows)"
  have key: "su_key (summary_of t status now ?rows n) = (t, or_else '''' n)" for n
    by (simp add: su_key_def summary_of_def Let_def TASK_LEVEL_NODE_ID_def)
  have sum: "ed_summary db' = fold upsertSummaryStmt ?sums (ed_summary db)"
    using assms(3,4) by (auto simp: compactTask_def Let_def fold_map comp_def split: if_splits)
  have cnt: "co_eventsPurged out = length ?rows"
    using compact_view [OF assms(1,3)] assms(4) by auto
  have nodes: "Some '''' \<notin> set (node_groups ?rows)"
    using assms(1) by (auto simp: node_groups_set db_inv_def rows_of_def)
  have "distinct (map su_key ?sums)"
    using nodes node_groups_distinct [of ?rows]
    by (auto simp: key distinct_map comp_def inj_on_def or_else_def split: option.splits)
  note f = upsert_fold [OF assms(2) this]
  have img: "su_key ` set ?sums = (\<lambda>n. (t, or_else '''' n)) ` er_nodeId ` set ?rows"
    by (simp add: image_image key node_groups_set)
  have "(\<Sum>n\<leftarrow>node_groups ?rows. su_eventCount (summary_of t status now ?rows n))
      = (\<Sum>n\<leftarrow>node_groups ?rows. length (filter (\<lambda>r. er_nodeId r = n) ?rows))"
    by (simp add: summary_of_def Let_def)
  also have "\<dots> = length ?rows" by (rule sum_groups [OF node_groups_distinct]) (simp add: node_groups_set)
  finally have total: "(\<Sum>n\<leftarrow>node_groups ?rows. su_eventCount (summary_of t status now ?rows n)) = co_eventsPurged out"
    using cnt by simp
  have each: "filter (\<lambda>s. su_key s = (t, or_else '''' n)) (ed_summary db') = [summary_of t status now ?rows n]"
    if "n \<in> er_nodeId ` set ?rows" for n
  proof -
    have "summary_of t status now ?rows n \<in> set ?sums" using that by (auto simp: node_groups_set)
    from bspec [OF conjunct1 [OF conjunct2 [OF f]] this] show ?thesis by (simp only: sum key)
  qed
  show ?thesis using f each total unfolding sum img by blast
qed

theorem summaries_of_an_archival_witness:
  "filter (\<lambda>s. su_key s = (''t'', '''')) (ed_summary (fst (compactTask True True ''t'' ''failed'' 9 done_db)))
    = [summary_of ''t'' ''failed'' 9 (rows_of ''t'' (ed_store done_db)) None]"
proof -
  have m: "None \<in> er_nodeId ` set (rows_of ''t'' (ed_store done_db))"
    by (simp add: done_db_def rows_of_def log_row_def Let_def lost_event_def dagEventToAppEvent_def)
  then have ne: "rows_of ''t'' (ed_store done_db) \<noteq> []" by auto
  obtain db' res where r: "compactTask True True ''t'' ''failed'' 9 done_db = (db', res)" by fastforce
  then obtain out where o: "res = Inr out" "co_compacted out" using compact_view [OF done_inv r] ne by blast
  have d: "distinct (map su_key (ed_summary done_db))" by (simp add: done_db_def)
  from bspec [OF conjunct1 [OF conjunct2 [OF summaries_of_an_archival [OF done_inv d r [unfolded o(1)] o(2)]]] m]
  show ?thesis by (simp add: r)
qed

end
