(* ===== verification/EventColdArchive.thy ===== *)
theory EventColdArchive
  imports EventArchive
begin

text \<open>
  The cold tier of the archive (\<open>backend/src/events/eventColdArchive.ts\<close>): whole UTC days of
  \<open>task_event_archive\<close> move into one file per day, with a checksum beside it. A day is the number
  of days since the epoch, which orders as \<open>YYYY-MM-DD\<close> does for four-digit years. A file is the rows
  whose JSON lines it holds; \<open>sha\<close>, the digest of its bytes, and \<open>collate\<close>, the order of
  \<open>localeCompare\<close> on task ids, are arguments. A file operation that fails, or a crash at it, is a
  \<open>write_fault\<close>: it throws, which rolls the transaction of the day back, but not the files.
\<close>

subsection \<open>Days and files\<close>

type_synonym day = int

definition utcDayOf :: "ms \<Rightarrow> day" where
  "utcDayOf stamp = stamp div MS_PER_DAY"

definition dayBounds :: "day \<Rightarrow> ms \<times> ms" where
  "dayBounds d = (d * MS_PER_DAY, d * MS_PER_DAY + MS_PER_DAY)"

record 'h day_file =
  df_rows :: "archived_row list option"
  df_sum :: "'h option"

type_synonym 'h cold_files = "(day, 'h day_file) jsmap"

datatype cold_error = ChecksumMissing day | ChecksumMismatch day | FileFailed | ReadBackShort nat nat | DeleteFailed

datatype write_fault = AtMkdir | AtTmp | AtSidecar

definition readDayFile :: "(archived_row list \<Rightarrow> 'h) \<Rightarrow> day \<Rightarrow> 'h cold_files \<Rightarrow> cold_error + archived_row list" where
  "readDayFile sha d fs = (case jm_get fs d of None \<Rightarrow> Inr [] | Some f \<Rightarrow>
     (case df_rows f of None \<Rightarrow> Inr [] | Some rows \<Rightarrow>
       (case df_sum f of None \<Rightarrow> Inl (ChecksumMissing d)
        | Some h \<Rightarrow> if h \<noteq> sha rows then Inl (ChecksumMismatch d) else Inr rows)))"

definition writeDayFile ::
    "(archived_row list \<Rightarrow> 'h) \<Rightarrow> write_fault option \<Rightarrow> day \<Rightarrow> archived_row list \<Rightarrow> 'h cold_files
      \<Rightarrow> 'h cold_files \<times> (cold_error + unit)" where
  "writeDayFile sha fault d rows fs =
     (let f = or_else \<lparr> df_rows = None, df_sum = None \<rparr> (jm_get fs d) in
      case fault of
        Some AtMkdir \<Rightarrow> (fs, Inl FileFailed)
      | Some AtTmp \<Rightarrow> (jm_set fs d f, Inl FileFailed)
      | Some AtSidecar \<Rightarrow> (jm_set fs d (f\<lparr>df_rows := Some rows\<rparr>), Inl FileFailed)
      | None \<Rightarrow> (let fs' = jm_set fs d \<lparr> df_rows = Some rows, df_sum = Some (sha rows) \<rparr> in
          case readDayFile sha d fs' of
            Inl e \<Rightarrow> (fs', Inl e)
          | Inr readBack \<Rightarrow> if length readBack \<noteq> length rows
              then (fs', Inl (ReadBackShort (length readBack) (length rows))) else (fs', Inr ())))"

definition mergeRows :: "(ident \<Rightarrow> 'k::linorder) \<Rightarrow> archived_row list \<Rightarrow> archived_row list \<Rightarrow> archived_row list" where
  "mergeRows collate existing incoming =
     sort_key (\<lambda>a. (ar_occurredAt a, collate (ar_taskId a), ar_taskSeq a)) (fold insert_ignore (existing @ incoming) [])"

definition listArchivedDays :: "'h cold_files \<Rightarrow> day list" where
  "listArchivedDays fs = sort (map fst fs)"

subsection \<open>A cycle\<close>

definition in_day :: "day \<Rightarrow> archived_row \<Rightarrow> bool" where
  "in_day d a = (case dayBounds d of (from, to) \<Rightarrow> from \<le> ar_occurredAt a \<and> ar_occurredAt a < to)"

definition archiveDay ::
    "(archived_row list \<Rightarrow> 'h) \<Rightarrow> (ident \<Rightarrow> 'k::linorder) \<Rightarrow> write_fault option \<Rightarrow> bool \<Rightarrow> day
      \<Rightarrow> archived_row list \<times> 'h cold_files \<Rightarrow> (archived_row list \<times> 'h cold_files) \<times> (cold_error + nat)" where
  "archiveDay sha collate fault deleteOk d = (\<lambda>(t, fs).
     (let rows = sort_key (\<lambda>a. (ar_occurredAt a, ar_taskId a, ar_taskSeq a)) (filter (in_day d) t) in
      if rows = [] then ((t, fs), Inr 0)
      else case readDayFile sha d fs of
        Inl e \<Rightarrow> ((t, fs), Inl e)
      | Inr existing \<Rightarrow> (case writeDayFile sha fault d (mergeRows collate existing rows) fs of
            (fs', Inl e) \<Rightarrow> ((t, fs'), Inl e)
          | (fs', Inr _) \<Rightarrow> if \<not> deleteOk then ((t, fs'), Inl DeleteFailed)
              else ((filter (\<lambda>a. \<not> in_day d a) t, fs'), Inr (length rows)))))"

record cold_options =
  cold_hotRetentionDays :: int
  cold_coldRetentionDays :: int

fun purge_loop :: "day \<Rightarrow> day list \<Rightarrow> 'h cold_files \<times> nat \<Rightarrow> 'h cold_files \<times> nat" where
  "purge_loop cutoff [] (fs, purged) = (fs, purged)"
| "purge_loop cutoff (d # ds) (fs, purged) =
     (if cutoff \<le> d then (fs, purged) else purge_loop cutoff ds (jm_del fs d, purged + 1))"

definition cold_cutoff :: "ms \<Rightarrow> cold_options \<Rightarrow> day" where
  "cold_cutoff now opts = utcDayOf (now - cold_coldRetentionDays opts * MS_PER_DAY)"

definition purgeExpired :: "ms \<Rightarrow> cold_options \<Rightarrow> 'h cold_files \<Rightarrow> 'h cold_files \<times> nat" where
  "purgeExpired now opts fs = purge_loop (cold_cutoff now opts) (listArchivedDays fs) (fs, 0)"

definition hot_cutoff :: "ms \<Rightarrow> cold_options \<Rightarrow> day" where
  "hot_cutoff now opts = utcDayOf (now - cold_hotRetentionDays opts * MS_PER_DAY)"

definition cold_candidates :: "day \<Rightarrow> archived_row list \<Rightarrow> day list" where
  "cold_candidates cutoff t = sort (remdups (map (\<lambda>a. utcDayOf (ar_occurredAt a))
     (filter (\<lambda>a. ar_occurredAt a < fst (dayBounds cutoff)) t)))"

text \<open>The loop over the days; the pair counts the days and the rows moved.\<close>

fun cold_loop ::
    "(archived_row list \<Rightarrow> 'h) \<Rightarrow> (ident \<Rightarrow> 'k::linorder) \<Rightarrow> (day \<Rightarrow> write_fault option) \<Rightarrow> (day \<Rightarrow> bool) \<Rightarrow> day list
      \<Rightarrow> archived_row list \<times> 'h cold_files \<Rightarrow> nat \<times> nat
      \<Rightarrow> (archived_row list \<times> 'h cold_files) \<times> (cold_error + nat \<times> nat)" where
  "cold_loop sha collate fault deleteOk [] s n = (s, Inr n)"
| "cold_loop sha collate fault deleteOk (d # ds) s (days, events) =
     (case archiveDay sha collate (fault d) (deleteOk d) d s of
        (s', Inl e) \<Rightarrow> (s', Inl e)
      | (s', Inr m) \<Rightarrow> cold_loop sha collate fault deleteOk ds s'
          (if 0 < m then (days + 1, events + m) else (days, events)))"

record cold_stats =
  cs_daysArchived :: nat
  cs_eventsArchived :: nat
  cs_daysPurged :: nat

definition runCycle ::
    "(archived_row list \<Rightarrow> 'h) \<Rightarrow> (ident \<Rightarrow> 'k::linorder) \<Rightarrow> (day \<Rightarrow> write_fault option) \<Rightarrow> (day \<Rightarrow> bool) \<Rightarrow> ms \<Rightarrow> cold_options
      \<Rightarrow> archived_row list \<times> 'h cold_files \<Rightarrow> (archived_row list \<times> 'h cold_files) \<times> (cold_error + cold_stats)" where
  "runCycle sha collate fault deleteOk now opts s =
     (case cold_loop sha collate fault deleteOk (cold_candidates (hot_cutoff now opts) (fst s)) s (0, 0) of
        (s', Inl e) \<Rightarrow> (s', Inl e)
      | ((t, fs), Inr (days, events)) \<Rightarrow> (case purgeExpired now opts fs of (fs', purged) \<Rightarrow>
          ((t, fs'), Inr \<lparr> cs_daysArchived = days, cs_eventsArchived = events, cs_daysPurged = purged \<rparr>)))"

subsection \<open>Restoring\<close>

fun restore_rows :: "archived_row list \<Rightarrow> archived_row list \<times> nat \<Rightarrow> archived_row list \<times> nat" where
  "restore_rows [] (t, n) = (t, n)"
| "restore_rows (a # xs) (t, n) =
     restore_rows xs (insert_ignore a t, n + (length (insert_ignore a t) - length t))"

fun restore_loop ::
    "(archived_row list \<Rightarrow> 'h) \<Rightarrow> 'h cold_files \<Rightarrow> day list \<Rightarrow> archived_row list \<times> nat \<Rightarrow> cold_error + (archived_row list \<times> nat)" where
  "restore_loop sha fs [] s = Inr s"
| "restore_loop sha fs (d # ds) s = (case readDayFile sha d fs of
     Inl e \<Rightarrow> Inl e | Inr rows \<Rightarrow> restore_loop sha fs ds (restore_rows rows s))"

definition restoreRange ::
    "(archived_row list \<Rightarrow> 'h) \<Rightarrow> day \<Rightarrow> day \<Rightarrow> archived_row list \<times> 'h cold_files
      \<Rightarrow> (archived_row list \<times> 'h cold_files) \<times> (cold_error + nat)" where
  "restoreRange sha fromDay toDay = (\<lambda>(t, fs).
     (case restore_loop sha fs (filter (\<lambda>d. fromDay \<le> d \<and> d \<le> toDay) (listArchivedDays fs)) (t, 0) of
        Inl e \<Rightarrow> ((t, fs), Inl e)
      | Inr (t', n) \<Rightarrow> ((t', fs), Inr n)))"

subsection \<open>What is stored\<close>

definition row_day :: "archived_row \<Rightarrow> day" where
  "row_day a = utcDayOf (ar_occurredAt a)"

definition file_rows :: "'h cold_files \<Rightarrow> day \<Rightarrow> archived_row list" where
  "file_rows fs d = (case jm_get fs d of None \<Rightarrow> [] | Some f \<Rightarrow> or_else [] (df_rows f))"

definition stored :: "archived_row list \<times> 'h cold_files \<Rightarrow> archived_row set" where
  "stored s = set (fst s) \<union> (\<Union>d. set (file_rows (snd s) d))"

text \<open>A key names one row, wherever it is; a file holds rows of its day only.\<close>

definition consistent :: "archived_row list \<times> 'h cold_files \<Rightarrow> bool" where
  "consistent s \<longleftrightarrow> inj_on ar_key (stored s) \<and> (\<forall>d. \<forall>a \<in> set (file_rows (snd s) d). row_day a = d)"

lemma in_day_row: "in_day d a \<longleftrightarrow> row_day a = d"
proof -
  have "in_day d a \<longleftrightarrow> d * MS_PER_DAY \<le> ar_occurredAt a \<and> ar_occurredAt a < (d + 1) * MS_PER_DAY"
    by (simp add: in_day_def dayBounds_def distrib_right)
  also have "\<dots> \<longleftrightarrow> ar_occurredAt a div MS_PER_DAY = d" by (auto simp: MS_PER_DAY_def)
  finally show ?thesis by (simp add: row_day_def utcDayOf_def)
qed

lemma in_day_eq: "in_day d = (\<lambda>a. row_day a = d)"
  by (rule ext) (rule in_day_row)

lemma day_before: "ar_occurredAt a < fst (dayBounds d) \<longleftrightarrow> row_day a < d"
  by (auto simp: dayBounds_def row_day_def utcDayOf_def MS_PER_DAY_def)

lemma candidates_set: "set (cold_candidates cutoff t) = row_day ` {a \<in> set t. row_day a < cutoff}"
  by (auto simp: cold_candidates_def day_before row_day_def)

lemma insert_ignore_set:
  "inj_on ar_key (set t \<union> set xs) \<Longrightarrow> set (fold insert_ignore xs t) = set t \<union> set xs"
proof (induction xs arbitrary: t)
  case (Cons x xs)
  have "set (insert_ignore x t) = insert x (set t)"
    using Cons.prems by (auto simp: insert_ignore_def inj_on_def)
  with Cons show ?case by simp
qed simp

lemma merge_set: "inj_on ar_key (set xs \<union> set ys) \<Longrightarrow> set (mergeRows collate xs ys) = set xs \<union> set ys"
  by (simp add: mergeRows_def insert_ignore_set del: fold_append)

lemma read_rows: "readDayFile sha d fs = Inr rows \<Longrightarrow> file_rows fs d = rows"
  by (auto simp: readDayFile_def file_rows_def split: option.splits if_splits)

lemma write_view:
  assumes "writeDayFile sha fault d rows fs = (fs', res)"
  shows "d' \<noteq> d \<Longrightarrow> jm_get fs' d' = jm_get fs d'"
    and "res = Inr () \<longleftrightarrow> fault = None"
    and "fault = None \<Longrightarrow> jm_get fs' d = Some \<lparr> df_rows = Some rows, df_sum = Some (sha rows) \<rparr>"
    and "file_rows fs' d = file_rows fs d \<or> file_rows fs' d = rows"
  using assms by (auto simp: writeDayFile_def Let_def readDayFile_def file_rows_def js_map split: option.splits write_fault.splits)

lemma stored_files:
  assumes "\<And>d'. d' \<noteq> d \<Longrightarrow> jm_get fs' d' = jm_get fs d'"
  shows "(\<Union>x. set (file_rows fs' x)) \<union> set (file_rows fs d) = (\<Union>x. set (file_rows fs x)) \<union> set (file_rows fs' d)"
proof -
  have "file_rows fs' x = file_rows fs x" if "x \<noteq> d" for x using assms [OF that] by (simp add: file_rows_def)
  then show ?thesis by (auto, metis+)
qed

text \<open>One day: nothing to move, an unreadable file, or a file written.\<close>

lemma archiveDay_parts:
  assumes "archiveDay sha collate fault del d (t, fs) = ((t', fs'), res)"
  obtains (Nothing) "filter (\<lambda>a. row_day a = d) t = []" "t' = t" "fs' = fs" "res = Inr 0"
  | (Unread) e where "t' = t" "fs' = fs" "res = Inl e" "readDayFile sha d fs = Inl e"
  | (Written) R old w where "set R = {a \<in> set t. row_day a = d}" "R \<noteq> []"
      "length R = length t - length (filter (\<lambda>a. row_day a \<noteq> d) t)"
      "readDayFile sha d fs = Inr old" "writeDayFile sha fault d (mergeRows collate old R) fs = (fs', w)"
      "w = Inr () \<and> del \<and> t' = filter (\<lambda>a. row_day a \<noteq> d) t \<and> res = Inr (length R)
        \<or> t' = t \<and> (\<exists>e. res = Inl e) \<and> (w = Inr () \<longrightarrow> \<not> del)"
proof -
  define R where "R = sort_key (\<lambda>a. (ar_occurredAt a, ar_taskId a, ar_taskSeq a)) (filter (in_day d) t)"
  have rows: "set R = {a \<in> set t. row_day a = d}" by (auto simp: R_def in_day_row)
  have len: "length R = length t - length (filter (\<lambda>a. row_day a \<noteq> d) t)"
    using deleted_count [of t "\<lambda>a. row_day a = d"] by (simp add: R_def in_day_eq)
  have run: "((t', fs'), res) = (if R = [] then ((t, fs), Inr 0)
      else case readDayFile sha d fs of
        Inl e \<Rightarrow> ((t, fs), Inl e)
      | Inr existing \<Rightarrow> (case writeDayFile sha fault d (mergeRows collate existing R) fs of
            (fs', Inl e) \<Rightarrow> ((t, fs'), Inl e)
          | (fs', Inr _) \<Rightarrow> if \<not> del then ((t, fs'), Inl DeleteFailed)
              else ((filter (\<lambda>a. row_day a \<noteq> d) t, fs'), Inr (length R))))"
    using assms by (simp only: archiveDay_def Let_def prod.case R_def in_day_row)
  show thesis
  proof (cases "R = []")
    case True
    then have "filter (\<lambda>a. row_day a = d) t = []" using rows by (auto simp: filter_empty_conv)
    then show thesis using run True by (intro Nothing) auto
  next
    case ne: False
    show thesis
    proof (cases "readDayFile sha d fs")
      case (Inl e)
      then show thesis using run ne by (intro Unread [of e]) auto
    next
      case (Inr old)
      obtain fs1 w where w: "writeDayFile sha fault d (mergeRows collate old R) fs = (fs1, w)" by fastforce
      have "fs' = fs1 \<and> (w = Inr () \<and> del \<and> t' = filter (\<lambda>a. row_day a \<noteq> d) t \<and> res = Inr (length R)
          \<or> t' = t \<and> (\<exists>e. res = Inl e) \<and> (w = Inr () \<longrightarrow> \<not> del))"
        using run ne Inr w by (cases w) (simp_all split: if_splits)
      then show thesis using rows ne len Inr w by (intro Written [of R old w]) auto
    qed
  qed
qed

text \<open>The rows stay where they were or move to the file of the day.\<close>

lemma written_stored:
  assumes "consistent (t, fs)" and R: "set R = {a \<in> set t. row_day a = d}"
    and old: "readDayFile sha d fs = Inr old" and w: "writeDayFile sha fault d (mergeRows collate old R) fs = (fs', w)"
  shows "(\<Union>x. set (file_rows fs' x)) \<union> set R = (\<Union>x. set (file_rows fs x)) \<union> set R"
    and "w = Inr () \<Longrightarrow> set R \<subseteq> (\<Union>x. set (file_rows fs' x))"
    and "\<forall>x. \<forall>a \<in> set (file_rows fs' x). row_day a = x"
proof -
  note v = write_view [OF w]
  have o: "file_rows fs d = old" by (rule read_rows [OF old])
  have "set old \<union> set R \<subseteq> stored (t, fs)" using o R by (auto simp: stored_def)
  then have merge: "set (mergeRows collate old R) = set old \<union> set R"
    using assms(1) by (intro merge_set) (auto simp: consistent_def intro: inj_on_subset)
  have fd: "set (file_rows fs' d) = set old \<or> set (file_rows fs' d) = set old \<union> set R"
    using v(4) o merge by metis
  have un: "(\<Union>x. set (file_rows fs' x)) \<union> set old = (\<Union>x. set (file_rows fs x)) \<union> set (file_rows fs' d)"
    using stored_files [of d fs' fs, OF v(1)] o by simp
  have sub: "set old \<subseteq> (\<Union>x. set (file_rows fs x))" "set old \<subseteq> (\<Union>x. set (file_rows fs' x))"
    using o fd by blast+
  show "(\<Union>x. set (file_rows fs' x)) \<union> set R = (\<Union>x. set (file_rows fs x)) \<union> set R"
    using un sub fd by blast
  show "set R \<subseteq> (\<Union>x. set (file_rows fs' x))" if "w = Inr ()"
  proof -
    have "file_rows fs' d = mergeRows collate old R" using v(2,3) that by (simp add: file_rows_def)
    then have "set R \<subseteq> set (file_rows fs' d)" using merge by simp
    then show ?thesis by blast
  qed
  show "\<forall>x. \<forall>a \<in> set (file_rows fs' x). row_day a = x"
  proof (intro allI ballI)
    fix x a assume a: "a \<in> set (file_rows fs' x)"
    show "row_day a = x"
    proof (cases "x = d")
      case True
      then have "a \<in> set (file_rows fs d) \<or> a \<in> set R" using a fd o by auto
      then show ?thesis using assms(1) R True by (auto simp: consistent_def)
    next
      case False
      then have "file_rows fs' x = file_rows fs x" using v(1) by (simp add: file_rows_def)
      then show ?thesis using assms(1) a by (auto simp: consistent_def)
    qed
  qed
qed

lemma archiveDay_view:
  assumes "consistent (t, fs)" and "archiveDay sha collate fault del d (t, fs) = ((t', fs'), res)"
  shows "stored (t', fs') = stored (t, fs)" and "consistent (t', fs')"
    and "d' \<noteq> d \<Longrightarrow> jm_get fs' d' = jm_get fs d'"
    and "res = Inl e \<Longrightarrow> t' = t"
    and "res = Inr m \<Longrightarrow> t' = filter (\<lambda>a. row_day a \<noteq> d) t \<and> m = length t - length t'"
proof -
  have "stored (t', fs') = stored (t, fs) \<and> (\<forall>x. \<forall>a \<in> set (file_rows fs' x). row_day a = x)
    \<and> (d' \<noteq> d \<longrightarrow> jm_get fs' d' = jm_get fs d') \<and> (\<forall>e. res = Inl e \<longrightarrow> t' = t)
    \<and> (\<forall>m. res = Inr m \<longrightarrow> t' = filter (\<lambda>a. row_day a \<noteq> d) t \<and> m = length t - length t')"
    using assms(2)
  proof (cases rule: archiveDay_parts)
    case Nothing
    then have "filter (\<lambda>a. row_day a \<noteq> d) t = t" by (auto simp: filter_empty_conv filter_id_conv)
    then show ?thesis using assms(1) Nothing by (auto simp: consistent_def)
  next
    case (Unread e)
    then show ?thesis using assms(1) by (auto simp: consistent_def)
  next
    case (Written R old w)
    note ws = written_stored [OF assms(1) Written(1,4,5)]
    have "stored (t', fs') = stored (t, fs)"
      using Written(6)
    proof (elim disjE conjE)
      assume wr: "w = Inr ()" "t' = filter (\<lambda>a. row_day a \<noteq> d) t"
      have "set t' \<union> set R = set t" unfolding Written(1) wr(2) by auto
      then show ?thesis using ws(1) ws(2) [OF wr(1)] unfolding stored_def fst_conv snd_conv by blast
    next
      assume "t' = t"
      moreover have "set R \<subseteq> set t" using Written(1) by auto
      ultimately show ?thesis using ws(1) unfolding stored_def fst_conv snd_conv by blast
    qed
    moreover have "res = Inl e \<Longrightarrow> t' = t" "res = Inr m \<Longrightarrow> t' = filter (\<lambda>a. row_day a \<noteq> d) t \<and> m = length t - length t'" for e m
      using Written(3,6) by auto
    ultimately show ?thesis using ws(3) write_view(1) [OF Written(5)] by blast
  qed
  then show "stored (t', fs') = stored (t, fs)" and "consistent (t', fs')" and "d' \<noteq> d \<Longrightarrow> jm_get fs' d' = jm_get fs d'"
    and "res = Inl e \<Longrightarrow> t' = t" and "res = Inr m \<Longrightarrow> t' = filter (\<lambda>a. row_day a \<noteq> d) t \<and> m = length t - length t'"
    using assms(1) by (auto simp: consistent_def)
qed

subsection \<open>A cycle keeps the rows\<close>

text \<open>Every day moved leaves the table as a whole; a failing day, and those after it, stay.\<close>

lemma cold_loop_view:
  "consistent (t, fs) \<Longrightarrow> cold_loop sha collate fault del ds (t, fs) (n, k) = ((t', fs'), res) \<Longrightarrow>
    stored (t', fs') = stored (t, fs) \<and> consistent (t', fs')
    \<and> (\<exists>D. D \<subseteq> set ds \<and> t' = filter (\<lambda>a. row_day a \<notin> D) t
        \<and> (\<forall>n' k'. res = Inr (n', k') \<longrightarrow> D = set ds \<and> k' = k + (length t - length t')))
    \<and> (\<forall>d. d \<notin> set ds \<longrightarrow> jm_get fs' d = jm_get fs d)"
proof (induction ds arbitrary: t fs n k)
  case Nil
  then show ?case by (auto simp: filter_id_conv intro!: exI [of _ "{}"])
next
  case (Cons d ds)
  obtain t1 fs1 r where a: "archiveDay sha collate (fault d) (del d) d (t, fs) = ((t1, fs1), r)"
    by (metis surj_pair)
  note v = archiveDay_view [OF Cons.prems(1) a]
  show ?case
  proof (cases r)
    case (Inl e)
    then have "t' = t1" "fs' = fs1" "res = Inl e" using Cons.prems(2) a by simp_all
    moreover have "t1 = t" by (rule v(4) [OF Inl])
    ultimately show ?thesis using v(1-3)
      by (intro conjI exI [of _ "{}"]) (auto simp: filter_id_conv)
  next
    case (Inr m)
    obtain n1 k1 where nk: "(if 0 < m then (n + 1, k + m) else (n, k)) = (n1, k1)" and k1: "k1 = k + m"
      by (cases "0 < m") auto
    have run: "cold_loop sha collate fault del ds (t1, fs1) (n1, k1) = ((t', fs'), res)"
      using Cons.prems(2) a Inr nk by simp
    from Cons.IH [OF v(2) run] obtain D where D: "D \<subseteq> set ds" "t' = filter (\<lambda>a. row_day a \<notin> D) t1"
      "\<forall>n' k'. res = Inr (n', k') \<longrightarrow> D = set ds \<and> k' = k1 + (length t1 - length t')"
      and s: "stored (t', fs') = stored (t1, fs1)" "consistent (t', fs')" "\<forall>d. d \<notin> set ds \<longrightarrow> jm_get fs' d = jm_get fs1 d"
      by blast
    have t1: "t1 = filter (\<lambda>a. row_day a \<noteq> d) t" "m = length t - length t1" using v(5) [OF Inr] by simp_all
    have "length t1 \<le> length t" unfolding t1(1) by (rule length_filter_le)
    moreover have "length t' \<le> length t1" unfolding D(2) by (rule length_filter_le)
    ultimately have cnt: "k1 + (length t1 - length t') = k + (length t - length t')" using k1 t1(2) by simp
    have t': "t' = filter (\<lambda>a. row_day a \<notin> insert d D) t"
      by (simp add: D(2) t1(1))
    have "\<forall>x. x \<notin> set (d # ds) \<longrightarrow> jm_get fs' x = jm_get fs x" using s(3) v(3) by simp
    moreover have "insert d D \<subseteq> set (d # ds)" using D(1) by auto
    moreover have "\<forall>n' k'. res = Inr (n', k') \<longrightarrow> insert d D = set (d # ds) \<and> k' = k + (length t - length t')"
      using D(3) cnt by simp
    ultimately show ?thesis using s(1,2) v(1) t' by blast
  qed
qed

lemma purge_loop_view:
  "sorted ds \<Longrightarrow> purge_loop cutoff ds (fs, n) = (fs', n') \<Longrightarrow>
    jm_get fs' d = (if d \<in> set ds \<and> d < cutoff then None else jm_get fs d)"
proof (induction ds arbitrary: fs n)
  case (Cons x ds)
  show ?case
  proof (cases "cutoff \<le> x")
    case True
    then have "\<forall>y \<in> set (x # ds). cutoff \<le> y" using Cons.prems(1) by auto
    then show ?thesis using Cons.prems(2) True by auto
  next
    case False
    with Cons.prems have "purge_loop cutoff ds (jm_del fs x, n + 1) = (fs', n')" "sorted ds" by simp_all
    from Cons.IH [OF this(2,1)] False show ?thesis by (auto simp: js_map)
  qed
qed simp

lemma purge_view:
  assumes "purgeExpired now opts fs = (fs', n)"
  shows "jm_get fs' d = (if d < cold_cutoff now opts then None else jm_get fs d)"
proof -
  have "jm_get fs' d = (if d \<in> set (listArchivedDays fs) \<and> d < cold_cutoff now opts then None else jm_get fs d)"
    by (rule purge_loop_view [OF _ assms [unfolded purgeExpired_def]]) (simp add: listArchivedDays_def)
  moreover have "jm_get fs d = None" if "d \<notin> set (listArchivedDays fs)"
    using that by (simp add: listArchivedDays_def map_of_eq_None_iff)
  ultimately show ?thesis by simp
qed

lemma runCycle_parts:
  assumes "runCycle sha collate fault del now opts (t, fs) = ((t', fs'), res)"
  obtains fs1 lres where "cold_loop sha collate fault del (cold_candidates (hot_cutoff now opts) t) (t, fs) (0, 0) = ((t', fs1), lres)"
    and "(\<exists>e. lres = Inl e \<and> res = Inl e \<and> fs' = fs1) \<or> (\<exists>n k p. lres = Inr (n, k) \<and> purgeExpired now opts fs1 = (fs', p)
        \<and> res = Inr \<lparr> cs_daysArchived = n, cs_eventsArchived = k, cs_daysPurged = p \<rparr>)"
proof -
  obtain t1 fs1 lres where l: "cold_loop sha collate fault del (cold_candidates (hot_cutoff now opts) t) (t, fs) (0, 0) = ((t1, fs1), lres)"
    by (metis surj_pair)
  have "t1 = t' \<and> ((\<exists>e. lres = Inl e \<and> res = Inl e \<and> fs' = fs1) \<or> (\<exists>n k p. lres = Inr (n, k) \<and> purgeExpired now opts fs1 = (fs', p)
        \<and> res = Inr \<lparr> cs_daysArchived = n, cs_eventsArchived = k, cs_daysPurged = p \<rparr>))"
    using assms l by (cases lres) (auto simp: runCycle_def split: prod.splits)
  with l show thesis by (intro that [of fs1 lres]) auto
qed

lemma purged_stored:
  assumes "consistent (t, fs)" and "\<And>d. jm_get fs' d = (if d < cutoff then None else jm_get fs d)"
  shows "stored (t, fs') = set t \<union> {a \<in> stored (t, fs). cutoff \<le> row_day a}" and "consistent (t, fs')"
proof -
  have f: "file_rows fs' d = (if d < cutoff then [] else file_rows fs d)" for d
    using assms(2) by (simp add: file_rows_def)
  have day: "row_day a = d" if "a \<in> set (file_rows fs d)" for a d
    using assms(1) that by (auto simp: consistent_def)
  show s: "stored (t, fs') = set t \<union> {a \<in> stored (t, fs). cutoff \<le> row_day a}"
  proof (intro set_eqI iffI)
    fix a assume "a \<in> stored (t, fs')"
    then show "a \<in> set t \<union> {a \<in> stored (t, fs). cutoff \<le> row_day a}"
      using day by (auto simp: stored_def f split: if_splits)
  next
    fix a assume "a \<in> set t \<union> {a \<in> stored (t, fs). cutoff \<le> row_day a}"
    then consider "a \<in> set t" | d where "a \<in> set (file_rows fs d)" "cutoff \<le> row_day a" by (auto simp: stored_def)
    then show "a \<in> stored (t, fs')"
    proof cases
      case (2 d)
      then have "a \<in> set (file_rows fs' d)" using day by (simp add: f)
      then show ?thesis by (auto simp: stored_def)
    qed (simp add: stored_def)
  qed
  have "stored (t, fs') \<subseteq> stored (t, fs)" unfolding s by (auto simp: stored_def)
  then show "consistent (t, fs')" using assms(1) f by (auto simp: consistent_def intro: inj_on_subset)
qed

text \<open>
  C13. The cold tier loses nothing it is to keep. Whatever file operations fail during a cycle, every
  archived row of a day within the cold retention is afterwards still in the table or in the file of
  its day; rows younger than the hot window stay in the table. If a day fails, nothing is deleted
  from the files; otherwise the table holds just the younger rows, the report counts the rows that
  left, and just the files older than the cold retention are gone.
\<close>

theorem cold_cycle_keeps_rows:
  assumes "consistent (t, fs)" and "runCycle sha collate fault del now opts (t, fs) = ((t', fs'), res)"
  shows "consistent (t', fs')
    \<and> {a \<in> stored (t, fs). cold_cutoff now opts \<le> row_day a} \<subseteq> stored (t', fs') \<and> stored (t', fs') \<subseteq> stored (t, fs)
    \<and> filter (\<lambda>a. hot_cutoff now opts \<le> row_day a) t' = filter (\<lambda>a. hot_cutoff now opts \<le> row_day a) t
    \<and> (case res of Inl e \<Rightarrow> stored (t', fs') = stored (t, fs)
       | Inr stats \<Rightarrow> t' = filter (\<lambda>a. hot_cutoff now opts \<le> row_day a) t
           \<and> length t = length t' + cs_eventsArchived stats
           \<and> (\<forall>d. jm_get fs' d \<noteq> None \<longrightarrow> cold_cutoff now opts \<le> d))"
proof -
  let ?hot = "hot_cutoff now opts" and ?cold = "cold_cutoff now opts"
  obtain fs1 lres where l: "cold_loop sha collate fault del (cold_candidates ?hot t) (t, fs) (0, 0) = ((t', fs1), lres)"
    and r: "(\<exists>e. lres = Inl e \<and> res = Inl e \<and> fs' = fs1) \<or> (\<exists>n k p. lres = Inr (n, k) \<and> purgeExpired now opts fs1 = (fs', p)
        \<and> res = Inr \<lparr> cs_daysArchived = n, cs_eventsArchived = k, cs_daysPurged = p \<rparr>)"
    by (rule runCycle_parts [OF assms(2)])
  from cold_loop_view [OF assms(1) l] obtain D where s: "stored (t', fs1) = stored (t, fs)" and c: "consistent (t', fs1)"
    and D: "D \<subseteq> set (cold_candidates ?hot t)" "t' = filter (\<lambda>a. row_day a \<notin> D) t"
      "\<forall>n' k'. lres = Inr (n', k') \<longrightarrow> D = set (cold_candidates ?hot t) \<and> k' = length t - length t'"
    by auto
  have "\<forall>a. ?hot \<le> row_day a \<longrightarrow> row_day a \<notin> D" using D(1) by (auto simp: candidates_set)
  then have hot: "filter (\<lambda>a. ?hot \<le> row_day a) t' = filter (\<lambda>a. ?hot \<le> row_day a) t"
    unfolding D(2) filter_filter by (intro filter_cong) auto
  have sub: "set t' \<subseteq> stored (t, fs)" unfolding D(2) by (auto simp: stored_def)
  from r show ?thesis
  proof (elim disjE exE conjE)
    fix e assume "lres = Inl e" "res = Inl e" "fs' = fs1"
    then show ?thesis using s c hot by auto
  next
    fix n k p
    assume 1: "lres = Inr (n, k)" "purgeExpired now opts fs1 = (fs', p)"
      and 2: "res = Inr \<lparr> cs_daysArchived = n, cs_eventsArchived = k, cs_daysPurged = p \<rparr>"
    note pv = purge_view [OF 1(2)]
    note ps = purged_stored [OF c pv]
    have "D = set (cold_candidates ?hot t)" "k = length t - length t'" using D(3) 1(1) by auto
    moreover have "t' = filter (\<lambda>a. ?hot \<le> row_day a) t"
      unfolding D(2) using \<open>D = _\<close> by (intro filter_cong) (auto simp: candidates_set)
    moreover have "length t' \<le> length t" by (simp add: D(2))
    ultimately show ?thesis using ps s sub hot 2 pv by auto
  qed
qed

subsection \<open>Archiving and restoring\<close>

definition sums_ok :: "(archived_row list \<Rightarrow> 'h) \<Rightarrow> 'h cold_files \<Rightarrow> bool" where
  "sums_ok sha fs \<longleftrightarrow> (\<forall>d f rows. jm_get fs d = Some f \<longrightarrow> df_rows f = Some rows \<longrightarrow> df_sum f = Some (sha rows))"

lemma sums_ok_read: "sums_ok sha fs \<Longrightarrow> readDayFile sha d fs = Inr (file_rows fs d)"
  by (auto simp: sums_ok_def readDayFile_def file_rows_def split: option.split)

lemma archiveDay_sums:
  assumes "sums_ok sha fs" and "archiveDay sha collate fault del d (t, fs) = ((t', fs'), Inr m)"
  shows "sums_ok sha fs'"
  using assms(2)
proof (cases rule: archiveDay_parts)
  case (Written R old w)
  then have "w = Inr ()" by auto
  note v = write_view [OF Written(5)]
  have new: "jm_get fs' d = Some \<lparr> df_rows = Some (mergeRows collate old R), df_sum = Some (sha (mergeRows collate old R)) \<rparr>"
    using v(2,3) \<open>w = Inr ()\<close> by simp
  show ?thesis
    unfolding sums_ok_def
  proof (intro allI impI)
    fix d' f rows assume g: "jm_get fs' d' = Some f" "df_rows f = Some rows"
    show "df_sum f = Some (sha rows)"
    proof (cases "d' = d")
      case True
      then show ?thesis using g new by auto
    next
      case False
      then show ?thesis using g v(1) [OF False] assms(1) by (simp add: sums_ok_def)
    qed
  qed
qed (use assms(1) in auto)

lemma cold_loop_sums:
  "sums_ok sha fs \<Longrightarrow> cold_loop sha collate fault del ds (t, fs) n = ((t', fs'), Inr k) \<Longrightarrow> sums_ok sha fs'"
proof (induction ds arbitrary: t fs n)
  case (Cons d ds)
  obtain t1 fs1 r where a: "archiveDay sha collate (fault d) (del d) d (t, fs) = ((t1, fs1), r)" by (metis surj_pair)
  obtain i j where n: "n = (i, j)" by (cases n)
  from Cons.prems(2) a n obtain m where r: "r = Inr m" by (cases r) auto
  from Cons.prems(2) a n r obtain n1 where "cold_loop sha collate fault del ds (t1, fs1) n1 = ((t', fs'), Inr k)" by auto
  with Cons.IH [OF archiveDay_sums [OF Cons.prems(1) a [unfolded r]]] show ?case .
qed auto

lemma ignore_grows: "length t \<le> length (fold insert_ignore xs t)"
proof (induction xs arbitrary: t)
  case (Cons x xs)
  have "length t \<le> length (insert_ignore x t)" by (simp add: insert_ignore_def)
  also have "\<dots> \<le> length (fold insert_ignore xs (insert_ignore x t))" by (rule Cons.IH)
  finally show ?case by simp
qed simp

lemma restore_rows_fold: "restore_rows xs (t, n) = (fold insert_ignore xs t, n + (length (fold insert_ignore xs t) - length t))"
proof (induction xs arbitrary: t n)
  case (Cons x xs)
  have "length t \<le> length (insert_ignore x t)" by (simp add: insert_ignore_def)
  with Cons.IH [of "insert_ignore x t"] ignore_grows [of "insert_ignore x t" xs] show ?case by simp
qed simp

lemma restore_loop_fold:
  "sums_ok sha fs \<Longrightarrow> restore_loop sha fs ds (t, n)
    = Inr (fold insert_ignore (concat (map (file_rows fs) ds)) t, n + (length (fold insert_ignore (concat (map (file_rows fs) ds)) t) - length t))"
proof (induction ds arbitrary: t n)
  case (Cons d ds)
  from Cons ignore_grows [of t "file_rows fs d"]
    ignore_grows [of "fold insert_ignore (file_rows fs d) t" "concat (map (file_rows fs) ds)"]
  show ?case by (simp add: sums_ok_read restore_rows_fold)
qed simp

lemma insert_ignore_distinct: "distinct (map ar_key t) \<Longrightarrow> distinct (map ar_key (fold insert_ignore xs t))"
  by (induction xs arbitrary: t) (simp_all add: insert_ignore_def)

lemma restore_view:
  assumes "consistent (t, fs)" and "sums_ok sha fs"
  shows "\<exists>t'. restoreRange sha from to (t, fs) = ((t', fs), Inr (length t' - length t))
    \<and> set t' = set t \<union> {a \<in> stored (t, fs). from \<le> row_day a \<and> row_day a \<le> to}
    \<and> (distinct (map ar_key t) \<longrightarrow> distinct (map ar_key t'))"
proof -
  let ?ds = "filter (\<lambda>d. from \<le> d \<and> d \<le> to) (listArchivedDays fs)"
  let ?xs = "concat (map (file_rows fs) ?ds)"
  have "set ?xs \<subseteq> stored (t, fs)" by (auto simp: stored_def)
  then have "inj_on ar_key (set t \<union> set ?xs)"
    using assms(1) by (auto simp: consistent_def stored_def intro: inj_on_subset)
  then have s: "set (fold insert_ignore ?xs t) = set t \<union> set ?xs" by (rule insert_ignore_set)
  have "file_rows fs d = []" if "d \<notin> set (listArchivedDays fs)" for d
    using that by (simp add: listArchivedDays_def file_rows_def map_of_eq_None_iff [symmetric])
  then have in_days: "d \<in> set (listArchivedDays fs)" if "a \<in> set (file_rows fs d)" for a d using that by fastforce
  have "set t \<union> set ?xs = set t \<union> {a \<in> stored (t, fs). from \<le> row_day a \<and> row_day a \<le> to}"
  proof (intro set_eqI iffI)
    fix a assume "a \<in> set t \<union> set ?xs"
    then show "a \<in> set t \<union> {a \<in> stored (t, fs). from \<le> row_day a \<and> row_day a \<le> to}"
      using assms(1) by (auto simp: stored_def consistent_def)
  next
    fix a assume "a \<in> set t \<union> {a \<in> stored (t, fs). from \<le> row_day a \<and> row_day a \<le> to}"
    then consider "a \<in> set t" | d where "a \<in> set (file_rows fs d)" "from \<le> row_day a" "row_day a \<le> to"
      by (auto simp: stored_def)
    then show "a \<in> set t \<union> set ?xs"
    proof cases
      case (2 d)
      then have "row_day a = d" using assms(1) by (auto simp: consistent_def)
      then show ?thesis using 2 in_days by auto
    qed simp
  qed
  then show ?thesis using s insert_ignore_distinct [of t ?xs]
    by (simp add: restoreRange_def restore_loop_fold [OF assms(2)])
qed

text \<open>
  C25. What went to the cold tier can be brought back. After a cycle that succeeded, restoring a range
  of days succeeds and makes the table hold, besides what it held, exactly the rows of those days:
  with the rows younger than the hot window, all rows of the range within the cold retention that it
  had before the cycle. No row comes from elsewhere, and none is there twice.
\<close>

theorem restore_undoes_cycle:
  assumes "consistent (t, fs)" and "sums_ok sha fs" and "distinct (map ar_key t)"
    and "runCycle sha collate fault del now opts (t, fs) = ((t1, fs1), Inr stats)"
    and "restoreRange sha from to (t1, fs1) = ((t2, fs2), res)"
  shows "res = Inr (length t2 - length t1) \<and> fs2 = fs1 \<and> distinct (map ar_key t2)
    \<and> {a \<in> set t. hot_cutoff now opts \<le> row_day a
          \<or> from \<le> row_day a \<and> row_day a \<le> to \<and> cold_cutoff now opts \<le> row_day a} \<subseteq> set t2
    \<and> set t2 \<subseteq> stored (t, fs)"
proof -
  obtain fs' lres where l: "cold_loop sha collate fault del (cold_candidates (hot_cutoff now opts) t) (t, fs) (0, 0) = ((t1, fs'), lres)"
    and r: "\<exists>n k p. lres = Inr (n, k) \<and> purgeExpired now opts fs' = (fs1, p)"
    by (rule runCycle_parts [OF assms(4)]) auto
  from r obtain n k p where lres: "lres = Inr (n, k)" and p: "purgeExpired now opts fs' = (fs1, p)" by auto
  have "sums_ok sha fs'" by (rule cold_loop_sums [OF assms(2) l [unfolded lres]])
  then have sums: "sums_ok sha fs1" using purge_view [OF p] by (auto simp: sums_ok_def)
  note lv = cold_loop_view [OF assms(1) l]
  note ps = purged_stored [OF conjunct1 [OF conjunct2 [OF lv]] purge_view [OF p]]
  from lv obtain D where D: "t1 = filter (\<lambda>a. row_day a \<notin> D) t" "D = set (cold_candidates (hot_cutoff now opts) t)"
    using lres by auto
  have t1: "{a \<in> set t. hot_cutoff now opts \<le> row_day a} \<subseteq> set t1" "set t1 \<subseteq> set t" "distinct (map ar_key t1)"
    using assms(3) by (auto simp: D candidates_set distinct_filter_key)
  from restore_view [OF ps(2) sums, of "from" "to"] assms(5)
  have v: "res = Inr (length t2 - length t1)" "fs2 = fs1" "distinct (map ar_key t1) \<longrightarrow> distinct (map ar_key t2)"
    and t2: "set t2 = set t1 \<union> {a \<in> stored (t1, fs1). from \<le> row_day a \<and> row_day a \<le> to}" by auto
  have st: "stored (t1, fs') = stored (t, fs)" using lv by blast
  have "set t \<subseteq> stored (t, fs)" by (auto simp: stored_def)
  then show ?thesis using v t1 t2 ps(1) st by auto
qed

subsection \<open>A write that breaks off\<close>

text \<open>The data file of a day is there, its checksum is missing or of other bytes.\<close>

definition torn :: "(archived_row list \<Rightarrow> 'h) \<Rightarrow> 'h cold_files \<Rightarrow> day \<Rightarrow> bool" where
  "torn sha fs d \<longleftrightarrow> (\<exists>f rows. jm_get fs d = Some f \<and> df_rows f = Some rows \<and> df_sum f \<noteq> Some (sha rows))"

lemma torn_read: "torn sha fs d \<Longrightarrow> \<exists>e. readDayFile sha d fs = Inl e"
  by (auto simp: torn_def readDayFile_def split: option.split)

lemma restore_bad: "d \<in> set ds \<Longrightarrow> readDayFile sha d fs = Inl e \<Longrightarrow> \<exists>e. restore_loop sha fs ds s = Inl e"
proof (induction ds arbitrary: s)
  case (Cons x ds)
  show ?case
  proof (cases "readDayFile sha x fs")
    case (Inr rows)
    then have "d \<in> set ds" using Cons.prems by auto
    from Cons.IH [OF this Cons.prems(2), of "restore_rows rows s"] Inr show ?thesis by simp
  qed simp
qed simp

lemma torn_day:
  assumes "torn sha fs d" and "\<exists>a \<in> set t. row_day a = d"
    and "archiveDay sha collate fault del d (t, fs) = ((t', fs'), res)"
  shows "t' = t \<and> fs' = fs \<and> (\<exists>e. res = Inl e)"
  using assms(3)
proof (cases rule: archiveDay_parts)
  case Nothing
  then show ?thesis using assms(2) by (auto simp: filter_empty_conv)
next
  case (Written R old w)
  then show ?thesis using torn_read [OF assms(1)] by auto
qed auto

lemma torn_loop:
  "torn sha fs d \<Longrightarrow> \<exists>a \<in> set t. row_day a = d \<Longrightarrow> d \<in> set ds \<Longrightarrow> sorted ds \<Longrightarrow> consistent (t, fs) \<Longrightarrow>
    cold_loop sha collate fault del ds (t, fs) n = ((t', fs'), res) \<Longrightarrow>
    (\<exists>e. res = Inl e) \<and> torn sha fs' d \<and> filter (\<lambda>a. d \<le> row_day a) t' = filter (\<lambda>a. d \<le> row_day a) t"
proof (induction ds arbitrary: t fs n)
  case (Cons x ds)
  obtain t1 fs1 r where a: "archiveDay sha collate (fault x) (del x) x (t, fs) = ((t1, fs1), r)" by (metis surj_pair)
  obtain i j where n: "n = (i, j)" by (cases n)
  note v = archiveDay_view [OF Cons.prems(5) a]
  show ?case
  proof (cases "x = d")
    case True
    from torn_day [OF Cons.prems(1,2) a [unfolded True]] have *: "t1 = t" "fs1 = fs" "\<exists>e. r = Inl e" by auto
    then obtain e where "r = Inl e" by blast
    then have "t' = t" "fs' = fs" "res = Inl e" using Cons.prems(6) a n * by simp_all
    then show ?thesis using Cons.prems(1) by simp
  next
    case False
    then have d: "d \<in> set ds" "x < d" using Cons.prems(3,4) by auto
    have torn1: "torn sha fs1 d" using Cons.prems(1) v(3) [of d] False by (simp add: torn_def)
    show ?thesis
    proof (cases r)
      case (Inl e)
      then have "t' = t1" "fs' = fs1" "res = Inl e" using Cons.prems(6) a n by simp_all
      then show ?thesis using v(4) [OF Inl] torn1 by simp
    next
      case (Inr m)
      obtain n1 where run: "cold_loop sha collate fault del ds (t1, fs1) n1 = ((t', fs'), res)"
        using Cons.prems(6) a n Inr by auto
      have t1: "t1 = filter (\<lambda>a. row_day a \<noteq> x) t" using v(5) [OF Inr] by simp
      have keep: "filter (\<lambda>a. d \<le> row_day a) t1 = filter (\<lambda>a. d \<le> row_day a) t"
        unfolding t1 filter_filter using d(2) by (intro filter_cong) auto
      have "\<exists>a \<in> set t1. row_day a = d" using Cons.prems(2) False by (auto simp: t1)
      from Cons.IH [OF torn1 this d(1) _ v(2) run] Cons.prems(4) keep show ?thesis by simp
    qed
  qed
qed simp

lemma torn_cycle:
  assumes "torn sha fs d" and "\<exists>a \<in> set t. row_day a = d" and "d < hot_cutoff now opts" and "consistent (t, fs)"
    and "runCycle sha collate fault del now opts (t, fs) = ((t', fs'), res)"
  shows "(\<exists>e. res = Inl e) \<and> torn sha fs' d \<and> filter (\<lambda>a. d \<le> row_day a) t' = filter (\<lambda>a. d \<le> row_day a) t
    \<and> consistent (t', fs') \<and> (\<exists>a \<in> set t'. row_day a = d)"
proof -
  obtain fs1 lres where l: "cold_loop sha collate fault del (cold_candidates (hot_cutoff now opts) t) (t, fs) (0, 0) = ((t', fs1), lres)"
    and r: "(\<exists>e. lres = Inl e \<and> res = Inl e \<and> fs' = fs1) \<or> (\<exists>n k p. lres = Inr (n, k))"
    by (rule runCycle_parts [OF assms(5)]) blast
  have "d \<in> set (cold_candidates (hot_cutoff now opts) t)" using assms(2,3) by (auto simp: candidates_set)
  moreover have "sorted (cold_candidates (hot_cutoff now opts) t)" by (simp add: cold_candidates_def)
  ultimately have t: "(\<exists>e. lres = Inl e) \<and> torn sha fs1 d \<and> filter (\<lambda>a. d \<le> row_day a) t' = filter (\<lambda>a. d \<le> row_day a) t"
    using torn_loop [OF assms(1,2) _ _ assms(4) l] by blast
  then have "fs' = fs1" "\<exists>e. res = Inl e" using r by auto
  moreover have "consistent (t', fs1)" using cold_loop_view [OF assms(4) l] by blast
  moreover have "\<exists>a \<in> set t'. row_day a = d"
  proof -
    from assms(2) obtain a where "a \<in> set (filter (\<lambda>a. d \<le> row_day a) t)" "row_day a = d" by auto
    then have "a \<in> set (filter (\<lambda>a. d \<le> row_day a) t')" using t by metis
    then show ?thesis using \<open>row_day a = d\<close> by auto
  qed
  ultimately show ?thesis using t by blast
qed

text \<open>Cycles on later days, with any failures.\<close>

record cold_try =
  ct_now :: ms
  ct_fault :: "day \<Rightarrow> write_fault option"
  ct_del :: "day \<Rightarrow> bool"

definition cold_tries ::
    "(archived_row list \<Rightarrow> 'h) \<Rightarrow> (ident \<Rightarrow> 'k::linorder) \<Rightarrow> cold_options \<Rightarrow> cold_try list
      \<Rightarrow> archived_row list \<times> 'h cold_files \<Rightarrow> archived_row list \<times> 'h cold_files" where
  "cold_tries sha collate opts xs s =
     fold (\<lambda>x s. fst (runCycle sha collate (ct_fault x) (ct_del x) (ct_now x) opts s)) xs s"

lemma torn_tries:
  "torn sha fs d \<Longrightarrow> \<exists>a \<in> set t. row_day a = d \<Longrightarrow> consistent (t, fs) \<Longrightarrow> \<forall>x \<in> set xs. d < hot_cutoff (ct_now x) opts \<Longrightarrow>
    cold_tries sha collate opts xs (t, fs) = (t', fs') \<Longrightarrow>
    torn sha fs' d \<and> filter (\<lambda>a. d \<le> row_day a) t' = filter (\<lambda>a. d \<le> row_day a) t
      \<and> (\<exists>a \<in> set t'. row_day a = d) \<and> consistent (t', fs')"
proof (induction xs arbitrary: t fs)
  case (Cons x xs)
  obtain t1 fs1 r where c: "runCycle sha collate (ct_fault x) (ct_del x) (ct_now x) opts (t, fs) = ((t1, fs1), r)"
    by (metis surj_pair)
  have x: "d < hot_cutoff (ct_now x) opts" "\<forall>x \<in> set xs. d < hot_cutoff (ct_now x) opts" using Cons.prems(4) by simp_all
  note tc = torn_cycle [OF Cons.prems(1,2) x(1) Cons.prems(3) c]
  have "cold_tries sha collate opts xs (t1, fs1) = (t', fs')" using Cons.prems(5) c by (simp add: cold_tries_def)
  with Cons.IH [of fs1 t1] tc x(2) show ?case by metis
qed (simp add: cold_tries_def)

text \<open>
  C24. A write that breaks off blocks the cold tier. If the first archival of a day stops between the
  data file and its checksum, the rows stay in the table; but from then on every cycle of a later
  day ends in an error, whatever else fails or not: no row of that day or of a later day ever leaves
  the table, no file expires, and restoring a range with that day is refused.
\<close>

theorem torn_day_blocks_the_tier:
  assumes "consistent (t, fs)" and "jm_get fs d = None" and "\<exists>a \<in> set t. row_day a = d"
    and "archiveDay sha collate (Some AtSidecar) del d (t, fs) = ((t1, fs1), res)"
    and "\<forall>x \<in> set (xs @ [x]). d < hot_cutoff (ct_now x) opts"
    and "cold_tries sha collate opts xs (t1, fs1) = (t2, fs2)"
    and "runCycle sha collate (ct_fault x) (ct_del x) (ct_now x) opts (t2, fs2) = ((t3, fs3), res')"
    and "from \<le> d" and "d \<le> to"
  shows "(\<exists>e. res = Inl e) \<and> (\<exists>e. res' = Inl e)
    \<and> filter (\<lambda>a. d \<le> row_day a) t3 = filter (\<lambda>a. d \<le> row_day a) t
    \<and> stored (t3, fs3) = stored (t2, fs2)
    \<and> (\<exists>e. restoreRange sha from to (t3, fs3) = ((t3, fs3), Inl e))"
proof -
  have 1: "t1 = t \<and> (\<exists>e. res = Inl e) \<and> torn sha fs1 d"
    using assms(4)
  proof (cases rule: archiveDay_parts)
    case Nothing
    then show ?thesis using assms(3) by (auto simp: filter_empty_conv)
  next
    case (Unread e)
    then show ?thesis using assms(2) by (simp add: readDayFile_def)
  next
    case (Written R old w)
    have w: "w \<noteq> Inr ()" using write_view(2) [OF Written(5)] by simp
    have "jm_get fs1 d = Some \<lparr> df_rows = Some (mergeRows collate old R), df_sum = None \<rparr>"
      using Written(5) assms(2) by (auto simp: writeDayFile_def Let_def js_map)
    then have "torn sha fs1 d" by (simp add: torn_def)
    then show ?thesis using Written(6) w by auto
  qed
  have c1: "consistent (t1, fs1)" by (rule archiveDay_view(2) [OF assms(1,4)])
  have days: "\<forall>x \<in> set xs. d < hot_cutoff (ct_now x) opts" "d < hot_cutoff (ct_now x) opts" using assms(5) by simp_all
  have t1: "torn sha fs1 d" "\<exists>a \<in> set t1. row_day a = d" using 1 assms(3) by auto
  note 2 = torn_tries [OF t1 c1 days(1) assms(6)]
  have t2: "torn sha fs2 d" "\<exists>a \<in> set t2. row_day a = d" "consistent (t2, fs2)" using 2 by auto
  note 3 = torn_cycle [OF t2(1,2) days(2) t2(3) assms(7)]
  obtain fs4 lres where l: "cold_loop sha collate (ct_fault x) (ct_del x) (cold_candidates (hot_cutoff (ct_now x) opts) t2)
      (t2, fs2) (0, 0) = ((t3, fs4), lres)"
    and r: "(\<exists>e. lres = Inl e \<and> res' = Inl e \<and> fs3 = fs4) \<or> (\<exists>s. res' = Inr s)"
    by (rule runCycle_parts [OF assms(7)]) blast
  have "stored (t3, fs3) = stored (t2, fs2)" using cold_loop_view [OF t2(3) l] r 3 by auto
  moreover have "\<exists>e. restoreRange sha from to (t3, fs3) = ((t3, fs3), Inl e)"
  proof -
    obtain e where e: "readDayFile sha d fs3 = Inl e" using torn_read 3 by blast
    have in_fs: "d \<in> set (listArchivedDays fs3)"
      using 3 by (auto simp: torn_def listArchivedDays_def intro: rev_image_eqI dest: map_of_SomeD)
    have "d \<in> set (filter (\<lambda>d. from \<le> d \<and> d \<le> to) (listArchivedDays fs3))" using in_fs assms(8,9) by simp
    from restore_bad [OF this e] obtain e' where
      "restore_loop sha fs3 (filter (\<lambda>d. from \<le> d \<and> d \<le> to) (listArchivedDays fs3)) (t3, 0) = Inl e'" by blast
    then show ?thesis by (auto simp: restoreRange_def)
  qed
  ultimately show ?thesis using 1 2 3 by auto
qed

text \<open>One row of the first day, no file yet; a hot window of 7 and a cold one of 90 days.\<close>

definition cold_row :: archived_row where
  "cold_row = \<lparr> ar_globalSeq = 1, ar_taskSeq = 0, ar_version = 2, ar_type = ''TaskCompleted'', ar_taskId = ''t'',
     ar_nodeId = '''', ar_occurredAt = 5, ar_payload = None, ar_archivedAt = 9 \<rparr>"

definition cold_opts :: cold_options where
  "cold_opts = \<lparr> cold_hotRetentionDays = 7, cold_coldRetentionDays = 90 \<rparr>"

definition cold_now :: ms where
  "cold_now = 20 * MS_PER_DAY"

definition no_files :: "archived_row list cold_files" where
  "no_files = []"

lemma cold_start: "consistent ([cold_row], no_files)" "sums_ok (\<lambda>rows. rows) no_files" "distinct (map ar_key [cold_row])"
  "jm_get no_files 0 = None" "\<exists>a \<in> set [cold_row]. row_day a = 0"
  by (auto simp: consistent_def stored_def file_rows_def no_files_def inj_on_def sums_ok_def cold_row_def row_day_def utcDayOf_def
      MS_PER_DAY_def)

lemma cold_days: "hot_cutoff cold_now cold_opts = 13" "cold_cutoff cold_now cold_opts = -70" "row_day cold_row = 0"
  by (simp_all add: hot_cutoff_def cold_cutoff_def cold_now_def cold_opts_def utcDayOf_def MS_PER_DAY_def row_day_def cold_row_def)

theorem cold_cycle_keeps_rows_witness:
  "cold_row \<in> stored (fst (runCycle (\<lambda>rows. rows) (\<lambda>i. i) (\<lambda>_. Some AtTmp) (\<lambda>_. True) cold_now cold_opts ([cold_row], no_files)))"
proof -
  obtain t' fs' res where r: "runCycle (\<lambda>rows. rows) (\<lambda>i. i) (\<lambda>_. Some AtTmp) (\<lambda>_. True) cold_now cold_opts ([cold_row], no_files)
      = ((t', fs'), res)" by (metis surj_pair)
  have "cold_row \<in> {a \<in> stored ([cold_row], no_files). cold_cutoff cold_now cold_opts \<le> row_day a}"
    by (simp add: stored_def cold_days)
  then show ?thesis using cold_cycle_keeps_rows [OF cold_start(1) r] unfolding r by auto
qed

lemma cold_runs: "\<not> isl (snd (runCycle (\<lambda>rows. rows) (\<lambda>i. i) (\<lambda>_. None) (\<lambda>_. True) cold_now cold_opts ([cold_row], no_files)))"
  by code_simp

theorem restore_undoes_cycle_witness:
  "cold_row \<in> set (fst (fst (restoreRange (\<lambda>rows. rows) 0 0
     (fst (runCycle (\<lambda>rows. rows) (\<lambda>i. i) (\<lambda>_. None) (\<lambda>_. True) cold_now cold_opts ([cold_row], no_files))))))"
proof -
  obtain t1 fs1 stats where r: "runCycle (\<lambda>rows. rows) (\<lambda>i. i) (\<lambda>_. None) (\<lambda>_. True) cold_now cold_opts ([cold_row], no_files)
      = ((t1, fs1), Inr stats)" using cold_runs by (metis surj_pair snd_conv sum.collapse(2))
  obtain t2 fs2 res where b: "restoreRange (\<lambda>rows. rows) 0 0 (t1, fs1) = ((t2, fs2), res)" by (metis surj_pair)
  show ?thesis using restore_undoes_cycle [OF cold_start(1,2,3) r b] unfolding r by (auto simp: b cold_days)
qed

theorem torn_day_blocks_the_tier_witness:
  "\<exists>e. snd (runCycle (\<lambda>rows. rows) (\<lambda>i. i) (\<lambda>_. None) (\<lambda>_. True) cold_now cold_opts
      (fst (archiveDay (\<lambda>rows. rows) (\<lambda>i. i) (Some AtSidecar) True 0 ([cold_row], no_files)))) = Inl e"
proof -
  let ?x = "\<lparr> ct_now = cold_now, ct_fault = (\<lambda>_. None), ct_del = (\<lambda>_. True) \<rparr>"
  obtain t1 fs1 res where a: "archiveDay (\<lambda>rows. rows) (\<lambda>i. i) (Some AtSidecar) True 0 ([cold_row], no_files) = ((t1, fs1), res)"
    by (metis surj_pair)
  obtain t3 fs3 res' where c: "runCycle (\<lambda>rows. rows) (\<lambda>i. i) (ct_fault ?x) (ct_del ?x) (ct_now ?x) cold_opts (t1, fs1) = ((t3, fs3), res')"
    by (metis surj_pair)
  have n: "cold_tries (\<lambda>rows. rows) (\<lambda>i. i) cold_opts [] (t1, fs1) = (t1, fs1)" by (simp add: cold_tries_def)
  have d: "\<forall>x \<in> set ([] @ [?x]). 0 < hot_cutoff (ct_now x) cold_opts" by (simp add: cold_days)
  show ?thesis using torn_day_blocks_the_tier [OF cold_start(1,4,5) a d n c order_refl order_refl] c by (simp add: a)
qed

end
