(* ===== verification/Keyset.thy ===== *)
theory Keyset
  imports Prelude
begin

text \<open>
  Keyset pagination, as the listings of tasks and of event histories use it: a page is the first
  rows, in a total order, behind the key of the cursor; a row more is read to know whether there is
  a next page, whose cursor is the last key of this one. The locale \<open>keyset\<close> asks for the order
  only; it gives what a client sees that follows the cursors while the table changes.
\<close>

definition behind :: "('k \<Rightarrow> 'k \<Rightarrow> bool) \<Rightarrow> ('a \<Rightarrow> 'k) \<Rightarrow> 'k option \<Rightarrow> 'a \<Rightarrow> bool" where
  "behind lt key cursor x = (case cursor of None \<Rightarrow> True | Some k \<Rightarrow> lt k (key x))"

definition keyset_page ::
    "('k \<Rightarrow> 'k \<Rightarrow> bool) \<Rightarrow> ('a \<Rightarrow> 'k) \<Rightarrow> nat \<Rightarrow> 'k option \<Rightarrow> 'a list \<Rightarrow> 'a list \<times> 'k option" where
  "keyset_page lt key limit cursor xs =
     (let rows = take (limit + 1) (filter (behind lt key cursor) xs); page = take limit rows
      in (page, if limit < length rows then Some (key (last page)) else None))"

text \<open>
  A client follows the cursors; the lists are what the table holds, in order, at each request. The
  flag says whether the last page came.
\<close>

fun keyset_walk ::
    "('k \<Rightarrow> 'k \<Rightarrow> bool) \<Rightarrow> ('a \<Rightarrow> 'k) \<Rightarrow> nat \<Rightarrow> 'k option \<Rightarrow> 'a list list \<Rightarrow> 'a list \<times> bool" where
  "keyset_walk lt key limit cursor [] = ([], False)"
| "keyset_walk lt key limit cursor (xs # xss) =
     (case keyset_page lt key limit cursor xs of
        (page, None) \<Rightarrow> (page, True)
      | (page, Some k) \<Rightarrow> (case keyset_walk lt key limit (Some k) xss of (items, done_) \<Rightarrow> (page @ items, done_)))"

locale keyset =
  fixes lt :: "'k \<Rightarrow> 'k \<Rightarrow> bool" and key :: "'a \<Rightarrow> 'k"
  assumes lt_irrefl: "\<not> lt k k" and lt_trans: "lt i j \<Longrightarrow> lt j k \<Longrightarrow> lt i k"
begin

abbreviation ordered :: "'a list \<Rightarrow> bool" where
  "ordered xs \<equiv> sorted_wrt (\<lambda>x y. lt (key x) (key y)) xs"

lemma page_next:
  assumes "0 < limit" and "keyset_page lt key limit cursor xs = (page, Some k)"
  shows "page \<noteq> []" and "k = key (last page)" and "page = take limit (filter (behind lt key cursor) xs)"
    and "limit < length (filter (behind lt key cursor) xs)"
  using assms by (auto simp: keyset_page_def Let_def min_def split: if_splits)

lemma page_last:
  "keyset_page lt key limit cursor xs = (page, None) \<Longrightarrow> page = filter (behind lt key cursor) xs"
  by (auto simp: keyset_page_def Let_def min_def split: if_splits)

lemma page_prefix: "keyset_page lt key limit cursor xs = (page, n) \<Longrightarrow> page = take limit (filter (behind lt key cursor) xs)"
  by (auto simp: keyset_page_def Let_def min_def)

text \<open>Behind the last key of a full page come the rows not on it.\<close>

lemma behind_page:
  assumes "ordered xs" and "0 < limit" and "keyset_page lt key limit cursor xs = (page, Some k)"
  shows "filter (behind lt key (Some k)) xs = drop limit (filter (behind lt key cursor) xs)"
proof -
  let ?ys = "filter (behind lt key cursor) xs"
  note p = page_next [OF assms(2,3)]
  have sorted: "ordered (take limit ?ys @ drop limit ?ys)" using assms(1) by (simp add: sorted_wrt_filter)
  have k: "k = key (last (take limit ?ys))" and ne: "take limit ?ys \<noteq> []" using p by simp_all
  have mem: "last (take limit ?ys) \<in> set ?ys" using ne by (meson in_set_takeD last_in_set)
  have front: "\<not> lt k (key x)" if "x \<in> set (take limit ?ys)" for x
  proof -
    have "x = last (take limit ?ys) \<or> lt (key x) k"
      using that sorted ne unfolding k
      by (cases "take limit ?ys" rule: rev_cases) (auto simp: sorted_wrt_append)
    then show ?thesis using lt_irrefl lt_trans k by blast
  qed
  have rest: "lt k (key x)" if "x \<in> set (drop limit ?ys)" for x
  proof -
    have "last (take limit ?ys) \<in> set (take limit ?ys)" using ne by (rule last_in_set)
    then show ?thesis using that sorted unfolding k sorted_wrt_append by blast
  qed
  have after: "behind lt key cursor x" if "lt k (key x)" for x
    using mem that k lt_trans by (auto simp: behind_def split: option.splits)
  have "filter (behind lt key (Some k)) xs = filter (\<lambda>x. lt k (key x)) ?ys"
    by (auto simp: behind_def [of _ _ "Some k"] dest: after intro!: filter_cong)
  also have "\<dots> = filter (\<lambda>x. lt k (key x)) (take limit ?ys) @ filter (\<lambda>x. lt k (key x)) (drop limit ?ys)"
    by (metis append_take_drop_id filter_append)
  also have "\<dots> = drop limit ?ys"
    using front rest by (simp add: filter_False filter_id_conv)
  finally show ?thesis .
qed

text \<open>Whatever happens to the table, the items come in order and none comes twice.\<close>

lemma walk_ordered:
  "\<forall>xs \<in> set xss. ordered xs \<Longrightarrow> 0 < limit \<Longrightarrow> keyset_walk lt key limit cursor xss = (items, f)
    \<Longrightarrow> ordered items \<and> (\<forall>x \<in> set items. behind lt key cursor x \<and> x \<in> (\<Union>xs \<in> set xss. set xs))"
proof (induction xss arbitrary: cursor items f)
  case (Cons xs xss)
  obtain page n where p: "keyset_page lt key limit cursor xs = (page, n)" by fastforce
  have page: "page = take limit (filter (behind lt key cursor) xs)" by (rule page_prefix [OF p])
  have o: "ordered page" using Cons.prems(1) unfolding page by (simp add: sorted_wrt_take sorted_wrt_filter)
  have b: "\<forall>x \<in> set page. behind lt key cursor x \<and> x \<in> set xs" unfolding page by (auto dest: in_set_takeD)
  show ?case
  proof (cases n)
    case None
    then have "items = page" using Cons.prems(3) p by simp
    with o b show ?thesis by auto
  next
    case (Some k)
    obtain rest g where w: "keyset_walk lt key limit (Some k) xss = (rest, g)" by fastforce
    have items: "items = page @ rest" using Cons.prems(3) p Some w by simp
    have IH: "ordered rest \<and> (\<forall>x \<in> set rest. lt k (key x) \<and> x \<in> (\<Union>xs \<in> set xss. set xs))"
      using Cons.IH [OF _ Cons.prems(2) w] Cons.prems(1) by (simp add: behind_def)
    have k: "k = key (last page)" "page \<noteq> []" using page_next [OF Cons.prems(2) p [unfolded Some]] by simp_all
    have before: "x = last page \<or> lt (key x) k" if "x \<in> set page" for x
      using that o k by (cases page rule: rev_cases) (auto simp: sorted_wrt_append)
    have "behind lt key cursor (last page)" using b k by simp
    then have "behind lt key cursor x" if "x \<in> set rest" for x
      using IH that k lt_trans by (auto simp: behind_def split: option.splits)
    moreover have "lt (key x) (key y)" if "x \<in> set page" "y \<in> set rest" for x y
      using before [OF that(1)] IH that(2) k lt_trans by blast
    ultimately show ?thesis using o IH b by (auto simp: items sorted_wrt_append)
  qed
qed simp

text \<open>A key that is there throughout, whatever else its row holds, is not missed.\<close>

lemma behind_key: "behind lt key cursor x \<longleftrightarrow> behind lt (\<lambda>k. k) cursor (key x)"
  by (simp add: behind_def split: option.split)

lemma walk_complete:
  "\<forall>xs \<in> set xss. ordered xs \<and> k \<in> key ` set xs \<Longrightarrow> 0 < limit \<Longrightarrow> behind lt (\<lambda>k. k) cursor k
    \<Longrightarrow> keyset_walk lt key limit cursor xss = (items, True) \<Longrightarrow> k \<in> key ` set items"
proof (induction xss arbitrary: cursor items)
  case (Cons xs xss)
  obtain page n where p: "keyset_page lt key limit cursor xs = (page, n)" by fastforce
  obtain x where x: "x \<in> set (filter (behind lt key cursor) xs)" "key x = k"
    using Cons.prems(1,3) behind_key by (auto simp: image_iff)
  show ?case
  proof (cases n)
    case None
    then show ?thesis using Cons.prems(4) p page_last [OF p [unfolded None]] x by auto
  next
    case (Some c)
    obtain rest g where w: "keyset_walk lt key limit (Some c) xss = (rest, g)" by fastforce
    have items: "items = page @ rest" "g" using Cons.prems(4) p Some w by simp_all
    show ?thesis
    proof (cases "x \<in> set page")
      case True
      then show ?thesis using x(2) by (auto simp: items)
    next
      case False
      have o: "ordered xs" using Cons.prems(1) by simp
      have "x \<in> set (drop limit (filter (behind lt key cursor) xs))"
        using x False page_prefix [OF p] by (metis Un_iff append_take_drop_id set_append)
      then have "behind lt key (Some c) x"
        using behind_page [OF o Cons.prems(2) p [unfolded Some]] by (metis (no_types, lifting) mem_Collect_eq set_filter)
      then have "behind lt (\<lambda>k. k) (Some c) k" using behind_key x(2) by metis
      then have "k \<in> key ` set rest" using Cons.IH [OF _ Cons.prems(2)] Cons.prems(1) w items(2) by simp
      then show ?thesis by (auto simp: items)
    qed
  qed
qed simp

text \<open>On a table at rest the walk ends and gives the rows behind the cursor.\<close>

lemma walk_fixed:
  "ordered xs \<Longrightarrow> 0 < limit \<Longrightarrow> length (filter (behind lt key cursor) xs) < n
    \<Longrightarrow> keyset_walk lt key limit cursor (replicate n xs) = (filter (behind lt key cursor) xs, True)"
proof (induction n arbitrary: cursor)
  case (Suc n)
  obtain page m where p: "keyset_page lt key limit cursor xs = (page, m)" by fastforce
  show ?case
  proof (cases m)
    case None
    then show ?thesis using p page_last [OF p [unfolded None]] by simp
  next
    case (Some k)
    note pn = page_next [OF Suc.prems(2) p [unfolded Some]]
    note d = behind_page [OF Suc.prems(1,2) p [unfolded Some]]
    have "length (filter (behind lt key (Some k)) xs) < n" using Suc.prems(2,3) pn(4) unfolding d by simp
    from Suc.IH [OF Suc.prems(1,2) this] p Some d pn(3) show ?thesis by simp
  qed
qed simp

end

end
