(* ===== verification/TaskStore.thy ===== *)
theory TaskStore
  imports Keyset DagScheduler EventLog "HOL-Library.List_Lexorder" "HOL-Library.Char_ord"
begin

text \<open>
  The task table: the statements of \<open>backend/src/db/tasks.ts\<close> on tasks, their event history and
  quality scores, the cursors of \<open>db/cursor.ts\<close>, and the functions of
  \<open>backend/src/coordinator/taskStore.ts\<close>, with the registry of abort controllers. The stored DAG is
  the list of its nodes, or \<open>None\<close> for a text that does not parse, where \<open>JSON.parse\<close> throws. A
  cursor is its decoded payload: encoding is base64 of JSON, and anything else is \<open>BadCursor\<close>.
\<close>

subsection \<open>Tasks\<close>

record task_row =
  tk_id :: ident
  tk_prompt :: string
  tk_walletPublicKey :: ident
  tk_status :: task_status
  tk_dag :: "dag_node list option"
  tk_createdAt :: ms
  tk_updatedAt :: ms

record task =
  ta_id :: ident
  ta_prompt :: string
  ta_walletPublicKey :: ident
  ta_status :: task_status
  ta_dag :: "dag_node list"
  ta_createdAt :: ms
  ta_updatedAt :: ms

datatype task_error = TaskNotFound ident | BadJson ident | DuplicateId ident | InvalidHistory string

definition row_task :: "task_row \<Rightarrow> task option" where
  "row_task r = (case tk_dag r of None \<Rightarrow> None | Some dag \<Rightarrow>
     Some \<lparr> ta_id = tk_id r, ta_prompt = tk_prompt r, ta_walletPublicKey = tk_walletPublicKey r, ta_status = tk_status r,
       ta_dag = dag, ta_createdAt = tk_createdAt r, ta_updatedAt = tk_updatedAt r \<rparr>)"

definition task_row_of :: "task \<Rightarrow> task_row" where
  "task_row_of t = \<lparr> tk_id = ta_id t, tk_prompt = ta_prompt t, tk_walletPublicKey = ta_walletPublicKey t,
     tk_status = ta_status t, tk_dag = Some (ta_dag t), tk_createdAt = ta_createdAt t, tk_updatedAt = ta_updatedAt t \<rparr>"

definition insert_task :: "task \<Rightarrow> task_row list \<Rightarrow> task_error + task_row list" where
  "insert_task t rows = (if ta_id t \<in> set (map tk_id rows) then Inl (DuplicateId (ta_id t)) else Inr (rows @ [task_row_of t]))"

definition task_findById :: "ident \<Rightarrow> task_row list \<Rightarrow> task_error + task option" where
  "task_findById i rows = (case row_by tk_id i rows of None \<Rightarrow> Inr None
     | Some r \<Rightarrow> (case row_task r of None \<Rightarrow> Inl (BadJson i) | Some t \<Rightarrow> Inr (Some t)))"

subsection \<open>Filters\<close>

text \<open>SQLite's \<open>LIKE\<close>: the percent sign for any text, the underscore for any character, ASCII letters in either case.\<close>

definition ascii_low :: "char \<Rightarrow> char" where
  "ascii_low c = (let n = of_char c :: nat in if 65 \<le> n \<and> n \<le> 90 then char_of (n + 32) else c)"

fun sql_like :: "string \<Rightarrow> string \<Rightarrow> bool" where
  "sql_like [] s = (s = [])"
| "sql_like (p # ps) [] = (p = CHR ''%'' \<and> sql_like ps [])"
| "sql_like (p # ps) (c # s) =
     (if p = CHR ''%'' then sql_like ps (c # s) \<or> sql_like (p # ps) s
      else (p = CHR ''_'' \<or> ascii_low p = ascii_low c) \<and> sql_like ps s)"

record task_filter =
  tf_status :: "task_status option"
  tf_q :: "string option"
  tf_createdAfter :: "ms option"
  tf_ascending :: bool

definition task_matches :: "ident \<Rightarrow> task_filter \<Rightarrow> task_row \<Rightarrow> bool" where
  "task_matches wallet opts r \<longleftrightarrow> tk_walletPublicKey r = wallet
     \<and> (case tf_status opts of None \<Rightarrow> True | Some s \<Rightarrow> tk_status r = s)
     \<and> (case tf_q opts of None \<Rightarrow> True | Some q \<Rightarrow> q = '''' \<or> sql_like (''%'' @ q @ ''%'') (tk_prompt r))"

definition created_after :: "task_filter \<Rightarrow> task_row \<Rightarrow> bool" where
  "created_after opts r = (case tf_createdAfter opts of None \<Rightarrow> True | Some since \<Rightarrow> since < tk_createdAt r)"

definition list_tasks :: "ident \<Rightarrow> nat \<Rightarrow> nat \<Rightarrow> task_filter \<Rightarrow> task_row list \<Rightarrow> (task list \<times> nat) option" where
  "list_tasks wallet page pageSize opts rows =
     (let found = filter (\<lambda>r. task_matches wallet opts r \<and> created_after opts r) rows;
          sorted = sort_key (\<lambda>r. if tf_ascending opts then tk_createdAt r else - tk_createdAt r) found
      in map_option (\<lambda>ts. (ts, length found))
           (those (map row_task (take pageSize (drop ((page - 1) * pageSize) sorted)))))"

subsection \<open>Cursors\<close>

datatype task_cursor = TaskCursor ms ident | BadCursor

definition decodeCursor :: "task_cursor \<Rightarrow> (ms \<times> ident) option" where
  "decodeCursor c = (case c of TaskCursor created i \<Rightarrow> if i = '''' then None else Some (created, i) | BadCursor \<Rightarrow> None)"

definition encodeCursor :: "ms \<times> ident \<Rightarrow> task_cursor" where
  "encodeCursor p = TaskCursor (fst p) (snd p)"

definition task_key :: "task_row \<Rightarrow> ms \<times> ident" where
  "task_key r = (tk_createdAt r, tk_id r)"

definition key_before :: "bool \<Rightarrow> ms \<times> ident \<Rightarrow> ms \<times> ident \<Rightarrow> bool" where
  "key_before ascending a b = (if ascending
     then fst a < fst b \<or> fst a = fst b \<and> snd a < snd b
     else fst b < fst a \<or> fst b = fst a \<and> snd b < snd a)"

definition order_tasks :: "bool \<Rightarrow> task_row list \<Rightarrow> task_row list" where
  "order_tasks ascending rows = (if ascending then sort_key task_key rows else rev (sort_key task_key rows))"

definition page_limit :: "int option \<Rightarrow> nat" where
  "page_limit limit = nat (min (max (or_else 20 limit) 1) 100)"

definition listCursor ::
    "ident \<Rightarrow> task_filter \<Rightarrow> int option \<Rightarrow> task_cursor option \<Rightarrow> task_row list \<Rightarrow> (task list \<times> task_cursor option) option" where
  "listCursor wallet opts limit cursor rows =
     (let found = order_tasks (tf_ascending opts) (filter (task_matches wallet opts) rows);
          from_key = (case cursor of None \<Rightarrow> None | Some c \<Rightarrow> decodeCursor c)
      in case keyset_page (key_before (tf_ascending opts)) task_key (page_limit limit) from_key found of
           (page, next_key) \<Rightarrow> map_option (\<lambda>ts. (ts, map_option encodeCursor next_key)) (those (map row_task page)))"

subsection \<open>Updates\<close>

definition tk_updateStatus :: "ident \<Rightarrow> task_status \<Rightarrow> ms \<Rightarrow> task_row list \<Rightarrow> task_row list" where
  "tk_updateStatus i status now = map (\<lambda>r. if tk_id r = i then r\<lparr>tk_status := status, tk_updatedAt := now\<rparr> else r)"

definition updateDagJson :: "ident \<Rightarrow> dag_node list option \<Rightarrow> ms \<Rightarrow> task_row list \<Rightarrow> task_row list" where
  "updateDagJson i dag now = map (\<lambda>r. if tk_id r = i then r\<lparr>tk_dag := dag, tk_updatedAt := now\<rparr> else r)"

definition fail_open_node :: "dag_node \<Rightarrow> dag_node" where
  "fail_open_node n = (if dn_status n = NRunning \<or> dn_status n = NPending
     then n\<lparr>dn_status := NFailed, dn_error := Some ''Server shutdown''\<rparr> else n)"

fun fail_each :: "ms \<Rightarrow> task_row list \<Rightarrow> task_row list \<Rightarrow> task_row list" where
  "fail_each now [] rows = rows"
| "fail_each now (x # xs) rows =
     (let dag = (case tk_dag x of None \<Rightarrow> [] | Some ns \<Rightarrow> map fail_open_node ns)
      in fail_each now xs (map (\<lambda>r. if tk_id r = tk_id x
           then r\<lparr>tk_status := TFailed, tk_dag := Some dag, tk_updatedAt := now\<rparr> else r) rows))"

definition failRunningTasks :: "ms \<Rightarrow> task_row list \<Rightarrow> task_row list" where
  "failRunningTasks now rows = fail_each now (filter (\<lambda>r. tk_status r = TRunning) rows) rows"

text \<open>\<open>updateTask\<close> reads, merges the patch into what it returns, and writes status and DAG.\<close>

record task_patch =
  tp_status :: "task_status option"
  tp_dag :: "dag_node list option"
  tp_prompt :: "string option"

definition updateTask :: "ident \<Rightarrow> task_patch \<Rightarrow> ms \<Rightarrow> task_row list \<Rightarrow> task_row list \<times> (task_error + task)" where
  "updateTask i p now rows =
     (case task_findById i rows of
        Inl e \<Rightarrow> (rows, Inl e)
      | Inr None \<Rightarrow> (rows, Inl (TaskNotFound i))
      | Inr (Some t) \<Rightarrow>
          (let t' = t\<lparr>ta_status := or_else (ta_status t) (tp_status p), ta_dag := or_else (ta_dag t) (tp_dag p),
                ta_prompt := or_else (ta_prompt t) (tp_prompt p), ta_updatedAt := now\<rparr>;
               rows1 = (case tp_status p of None \<Rightarrow> rows | Some s \<Rightarrow> tk_updateStatus i s now rows);
               rows2 = (case tp_dag p of None \<Rightarrow> rows1 | Some _ \<Rightarrow> updateDagJson i (Some (ta_dag t')) now rows1)
           in (rows2, Inr t')))"

text \<open>The first node with the id is patched.\<close>

fun patch_node :: "ident \<Rightarrow> (dag_node \<Rightarrow> dag_node) \<Rightarrow> dag_node list \<Rightarrow> dag_node list" where
  "patch_node n f [] = []"
| "patch_node n f (x # xs) = (if dn_id x = n then f x # xs else x # patch_node n f xs)"

definition updateNode ::
    "ident \<Rightarrow> ident \<Rightarrow> (dag_node \<Rightarrow> dag_node) \<Rightarrow> ms \<Rightarrow> task_row list \<Rightarrow> task_error + task_row list" where
  "updateNode i n f now rows =
     (case task_findById i rows of
        Inl e \<Rightarrow> Inl e
      | Inr None \<Rightarrow> Inr rows
      | Inr (Some t) \<Rightarrow> if n \<notin> set (map dn_id (ta_dag t)) then Inr rows
          else Inr (updateDagJson i (Some (patch_node n f (ta_dag t))) now rows))"

subsection \<open>Abort controllers\<close>

text \<open>A controller is the number of its object; the registry and the controllers aborted so far.\<close>

record controllers =
  ct_running :: "(ident, nat) jsmap"
  ct_aborted :: "nat list"

definition registerTaskController :: "ident \<Rightarrow> nat \<Rightarrow> controllers \<Rightarrow> controllers" where
  "registerTaskController i c r = r\<lparr>ct_running := jm_set (ct_running r) i c\<rparr>"

definition unregisterTaskController :: "ident \<Rightarrow> controllers \<Rightarrow> controllers" where
  "unregisterTaskController i r = r\<lparr>ct_running := jm_del (ct_running r) i\<rparr>"

definition abortTask :: "ident \<Rightarrow> controllers \<Rightarrow> controllers \<times> bool" where
  "abortTask i r = (case jm_get (ct_running r) i of None \<Rightarrow> (r, False)
     | Some c \<Rightarrow> (r\<lparr>ct_running := jm_del (ct_running r) i, ct_aborted := ct_aborted r @ [c]\<rparr>, True))"

subsection \<open>The event history\<close>

text \<open>\<open>task_events\<close> of the task database has the shape of the event store's table.\<close>

record task_event =
  te_type :: string
  te_taskId :: ident
  te_nodeId :: "ident option"
  te_payload :: "js_val option"
  te_timestamp :: ms

definition te_next_seq :: "ident \<Rightarrow> event_store \<Rightarrow> nat" where
  "te_next_seq i st = (case map er_taskSeq (rows_of i st) of [] \<Rightarrow> 0 | s # ss \<Rightarrow> Max (set (s # ss)) + 1)"

definition te_insertEvent :: "task_event \<Rightarrow> event_store \<Rightarrow> event_store" where
  "te_insertEvent e st =
     (let row = \<lparr> er_globalSeq = es_nextGlobal st, er_taskSeq = te_next_seq (te_taskId e) st, er_version = 1, er_type = te_type e,
            er_taskId = te_taskId e, er_nodeId = te_nodeId e, er_occurredAt = te_timestamp e, er_payload = te_payload e \<rparr>
      in st\<lparr>es_rows := es_rows st @ [row], es_nextGlobal := es_nextGlobal st + 1\<rparr>)"

definition history_item :: "event_row \<Rightarrow> task_event" where
  "history_item r = \<lparr> te_type = er_type r, te_taskId = er_taskId r, te_nodeId = er_nodeId r, te_payload = er_payload r,
     te_timestamp = er_occurredAt r \<rparr>"

text \<open>The next cursor is \<open>null\<close> on the last page.\<close>

definition getEventHistory ::
    "ident \<Rightarrow> int option \<Rightarrow> int option \<Rightarrow> event_store \<Rightarrow> task_error + (task_event list \<times> nat option)" where
  "getEventHistory i afterId limit st =
     (let afterId = or_else (-1) afterId; limit = or_else 100 limit in
      if 9007199254740991 < \<bar>afterId\<bar> \<or> afterId < -1 then Inl (InvalidHistory ''afterId'')
      else if limit < 1 \<or> 100 < limit then Inl (InvalidHistory ''limit'')
      else let rows = take (nat limit + 1) (filter (\<lambda>r. afterId < int (er_taskSeq r)) (task_rows i st));
               page = take (nat limit) rows
           in Inr (map history_item page, if nat limit < length rows then Some (er_taskSeq (last page)) else None))"

subsection \<open>Quality scores\<close>

record quality_record =
  qr_id :: int
  qr_taskId :: ident
  qr_nodeId :: ident
  qr_agentId :: "ident option"
  qr_agentType :: string
  qr_score :: rat
  qr_completeness :: rat
  qr_relevance :: rat
  qr_format :: rat
  qr_needsReview :: bool
  qr_timestamp :: ms

text \<open>\<open>id INTEGER PRIMARY KEY AUTOINCREMENT\<close>: rows are numbered from 1 in the order of their insertion.\<close>

definition insertQualityScore :: "quality_record \<Rightarrow> quality_record list \<Rightarrow> quality_record list" where
  "insertQualityScore q rows = rows @ [q\<lparr>qr_id := int (length rows) + 1\<rparr>]"

definition quality_limit :: "js_num option \<Rightarrow> nat" where
  "quality_limit limit = (case or_else (Num 500) limit of
     Num x \<Rightarrow> nat (max 1 (min 500 \<lfloor>x\<rfloor>)) | NaN \<Rightarrow> 500 | PosInf \<Rightarrow> 500 | NegInf \<Rightarrow> 1)"

definition listQualityScores :: "ident option \<Rightarrow> js_num option \<Rightarrow> int option \<Rightarrow> quality_record list \<Rightarrow> quality_record list" where
  "listQualityScores agentId limit cursor rows = take (quality_limit limit) (rev (sort_key qr_id
     (filter (\<lambda>q. (case agentId of None \<Rightarrow> True | Some a \<Rightarrow> a = '''' \<or> qr_agentId q = Some a)
        \<and> (case cursor of None \<Rightarrow> True | Some c \<Rightarrow> qr_id q < c)) rows)))"

subsection \<open>Following the cursors\<close>

interpretation asc: keyset "key_before True" task_key
  by unfold_locales (auto simp: key_before_def)

interpretation desc: keyset "key_before False" task_key
  by unfold_locales (auto simp: key_before_def)

interpretation hist: keyset "(<) :: nat \<Rightarrow> nat \<Rightarrow> bool" er_taskSeq
  by unfold_locales auto

text \<open>
  A client of the listing: one table per request. The result is \<open>None\<close> when a row of a page does not
  parse.
\<close>

fun cursor_walk ::
    "ident \<Rightarrow> task_filter \<Rightarrow> int option \<Rightarrow> task_cursor option \<Rightarrow> task_row list list \<Rightarrow> (task list \<times> bool) option" where
  "cursor_walk wallet opts limit cursor [] = Some ([], False)"
| "cursor_walk wallet opts limit cursor (rows # tables) =
     (case listCursor wallet opts limit cursor rows of
        None \<Rightarrow> None
      | Some (ts, None) \<Rightarrow> Some (ts, True)
      | Some (ts, Some c) \<Rightarrow> map_option (\<lambda>(us, f). (ts @ us, f)) (cursor_walk wallet opts limit (Some c) tables))"

definition found_tasks :: "ident \<Rightarrow> task_filter \<Rightarrow> task_row list \<Rightarrow> task_row list" where
  "found_tasks wallet opts rows = order_tasks (tf_ascending opts) (filter (task_matches wallet opts) rows)"

definition table_ok :: "task_row list \<Rightarrow> bool" where
  "table_ok rows \<longleftrightarrow> distinct (map tk_id rows) \<and> (\<forall>r \<in> set rows. tk_dag r \<noteq> None \<and> tk_id r \<noteq> '''')"

definition the_task :: "task_row \<Rightarrow> task" where
  "the_task r = \<lparr> ta_id = tk_id r, ta_prompt = tk_prompt r, ta_walletPublicKey = tk_walletPublicKey r, ta_status = tk_status r,
     ta_dag = or_else [] (tk_dag r), ta_createdAt = tk_createdAt r, ta_updatedAt = tk_updatedAt r \<rparr>"

lemma those_row_task: "\<forall>r \<in> set rs. tk_dag r \<noteq> None \<Longrightarrow> those (map row_task rs) = Some (map the_task rs)"
  by (induction rs) (auto simp: row_task_def the_task_def)

lemma page_limit_pos: "0 < page_limit limit" "page_limit limit \<le> 100"
  by (auto simp: page_limit_def)

lemma order_set [simp]: "set (order_tasks a rows) = set rows"
  by (simp add: order_tasks_def)

lemma order_sorted:
  assumes "distinct (map tk_id rows)"
  shows "sorted_wrt (\<lambda>x y. key_before a (task_key x) (task_key y)) (order_tasks a rows)"
proof -
  let ?s = "sort_key task_key rows"
  have d: "distinct (map tk_id ?s)" using assms by (simp add: distinct_map)
  have "sorted_wrt (\<lambda>x y. key_before True (task_key x) (task_key y)) ?s"
  proof (rule sorted_wrt_iff_nth_less [THEN iffD2], intro allI impI)
    fix i j assume ij: "i < j" "j < length ?s"
    have "task_key (?s ! i) \<le> task_key (?s ! j)"
      using sorted_nth_mono [of "map task_key ?s" i j] ij by simp
    moreover have "tk_id (?s ! i) \<noteq> tk_id (?s ! j)" using d ij by (simp add: distinct_conv_nth)
    ultimately show "key_before True (task_key (?s ! i)) (task_key (?s ! j))"
      by (auto simp: key_before_def task_key_def less_eq_prod_def)
  qed
  then show ?thesis
    by (cases a) (simp_all add: order_tasks_def sorted_wrt_rev key_before_def)
qed

lemma walk_keyset:
  "\<forall>rows \<in> set tables. table_ok rows \<Longrightarrow> \<forall>c. cursor = Some c \<longrightarrow> decodeCursor c \<noteq> None \<Longrightarrow>
    cursor_walk wallet opts limit cursor tables
      = (case keyset_walk (key_before (tf_ascending opts)) task_key (page_limit limit)
            (case cursor of None \<Rightarrow> None | Some c \<Rightarrow> decodeCursor c) (map (found_tasks wallet opts) tables) of
          (rs, f) \<Rightarrow> Some (map the_task rs, f))"
proof (induction tables arbitrary: cursor)
  case (Cons rows tables)
  let ?from = "case cursor of None \<Rightarrow> None | Some c \<Rightarrow> decodeCursor c"
  obtain page n where p: "keyset_page (key_before (tf_ascending opts)) task_key (page_limit limit) ?from (found_tasks wallet opts rows)
      = (page, n)" by fastforce
  have page: "set page \<subseteq> set rows"
    using asc.page_prefix [of "page_limit limit"] p
    by (auto simp: keyset_page_def Let_def found_tasks_def min_def dest!: in_set_takeD)
  then have those: "those (map row_task page) = Some (map the_task page)"
    using Cons.prems(1) by (intro those_row_task) (auto simp: table_ok_def)
  have lc: "listCursor wallet opts limit cursor rows = Some (map the_task page, map_option encodeCursor n)"
    using p those by (simp add: listCursor_def Let_def found_tasks_def [symmetric])
  show ?case
  proof (cases n)
    case None
    with lc p show ?thesis by simp
  next
    case (Some k)
    have k: "page \<noteq> []" "k = task_key (last page)"
      using p Some page_limit_pos(1) [of limit]
      by (auto simp: keyset_page_def Let_def min_def split: if_splits)
    then have "last page \<in> set rows" using page last_in_set by blast
    then have "snd k \<noteq> ''''" using Cons.prems(1) k by (simp add: table_ok_def task_key_def)
    then have dec: "decodeCursor (encodeCursor k) = Some k" by (simp add: decodeCursor_def encodeCursor_def)
    have IH: "cursor_walk wallet opts limit (Some (encodeCursor k)) tables
      = (case keyset_walk (key_before (tf_ascending opts)) task_key (page_limit limit) (Some k) (map (found_tasks wallet opts) tables) of
          (rs, f) \<Rightarrow> Some (map the_task rs, f))"
      using Cons.IH [of "Some (encodeCursor k)"] Cons.prems(1) dec by simp
    show ?thesis using lc p Some IH by (simp split: prod.split)
  qed
qed simp

text \<open>The sort order asked for decides which of the two interpretations applies.\<close>

lemma walk_facts:
  assumes "\<forall>rows \<in> set tables. table_ok rows"
    and "keyset_walk (key_before a) task_key (page_limit limit) None (map (found_tasks wallet (opts\<lparr>tf_ascending := a\<rparr>)) tables) = (rs, f)"
  shows "sorted_wrt (\<lambda>x y. key_before a (task_key x) (task_key y)) rs"
    and "\<forall>x \<in> set rs. \<exists>rows \<in> set tables. x \<in> set (found_tasks wallet (opts\<lparr>tf_ascending := a\<rparr>) rows)"
    and "f \<Longrightarrow> \<forall>rows \<in> set tables. k \<in> task_key ` set (found_tasks wallet (opts\<lparr>tf_ascending := a\<rparr>) rows) \<Longrightarrow> k \<in> task_key ` set rs"
proof -
  let ?t = "map (found_tasks wallet (opts\<lparr>tf_ascending := a\<rparr>)) tables"
  have o: "\<forall>xs \<in> set ?t. sorted_wrt (\<lambda>x y. key_before a (task_key x) (task_key y)) xs"
    using assms(1) by (auto simp: found_tasks_def table_ok_def distinct_map_filter intro!: order_sorted)
  have b: "behind (key_before a) (\<lambda>k. k) None k" for k by (simp add: behind_def)
  have 1: "sorted_wrt (\<lambda>x y. key_before a (task_key x) (task_key y)) rs \<and> (\<forall>x \<in> set rs. \<exists>xs \<in> set ?t. x \<in> set xs)"
    using asc.walk_ordered [of ?t "page_limit limit" None rs f] desc.walk_ordered [of ?t "page_limit limit" None rs f]
      o assms(2) page_limit_pos by (cases a) auto
  then show "sorted_wrt (\<lambda>x y. key_before a (task_key x) (task_key y)) rs"
    "\<forall>x \<in> set rs. \<exists>rows \<in> set tables. x \<in> set (found_tasks wallet (opts\<lparr>tf_ascending := a\<rparr>) rows)" by auto
  show "k \<in> task_key ` set rs" if "f" "\<forall>rows \<in> set tables. k \<in> task_key ` set (found_tasks wallet (opts\<lparr>tf_ascending := a\<rparr>) rows)"
    using asc.walk_complete [of ?t k "page_limit limit" None rs] desc.walk_complete [of ?t k "page_limit limit" None rs]
      o assms(2) page_limit_pos that b by (cases a) auto
qed

lemma walk_None: "\<forall>rows \<in> set tables. table_ok rows \<Longrightarrow> cursor_walk wallet opts limit None tables = Some (ts, f) \<Longrightarrow>
    \<exists>rs. ts = map the_task rs \<and> keyset_walk (key_before (tf_ascending opts)) task_key (page_limit limit) None
      (map (found_tasks wallet (opts\<lparr>tf_ascending := tf_ascending opts\<rparr>)) tables) = (rs, f)"
  using walk_keyset [of tables None wallet opts limit] by (auto split: prod.splits)

text \<open>
  C14. The cursors survive concurrent writes. A client lists the tasks of a wallet page by page while
  tasks are created, change and go in any way between its requests. It gets them strictly in the
  order asked for, so none twice; each was in the table and matched when its page was read; and if
  the last page came, every task that was there and matched at each request is among them.
\<close>

theorem listing_survives_writes:
  assumes "\<forall>rows \<in> set tables. table_ok rows" and "cursor_walk wallet opts limit None tables = Some (ts, f)"
  shows "sorted_wrt (\<lambda>x y. key_before (tf_ascending opts) (ta_createdAt x, ta_id x) (ta_createdAt y, ta_id y)) ts
    \<and> (\<forall>t \<in> set ts. \<exists>rows \<in> set tables. \<exists>r \<in> set rows. task_matches wallet opts r \<and> t = the_task r)
    \<and> (f \<longrightarrow> (\<forall>created i. (\<forall>rows \<in> set tables. \<exists>r \<in> set rows. task_matches wallet opts r \<and> tk_createdAt r = created \<and> tk_id r = i)
        \<longrightarrow> (\<exists>t \<in> set ts. ta_createdAt t = created \<and> ta_id t = i)))"
proof -
  from walk_None [OF assms] obtain rs where ts: "ts = map the_task rs"
    and w: "keyset_walk (key_before (tf_ascending opts)) task_key (page_limit limit) None
      (map (found_tasks wallet (opts\<lparr>tf_ascending := tf_ascending opts\<rparr>)) tables) = (rs, f)" by blast
  note wf = walk_facts [OF assms(1) w]
  have k: "(ta_createdAt (the_task r), ta_id (the_task r)) = task_key r" for r by (simp add: the_task_def task_key_def)
  have "sorted_wrt (\<lambda>x y. key_before (tf_ascending opts) (ta_createdAt x, ta_id x) (ta_createdAt y, ta_id y)) ts"
    using wf(1) by (simp add: ts sorted_wrt_map k)
  moreover have "\<forall>t \<in> set ts. \<exists>rows \<in> set tables. \<exists>r \<in> set rows. task_matches wallet opts r \<and> t = the_task r"
    using wf(2) by (fastforce simp: ts found_tasks_def)
  moreover have "\<exists>t \<in> set ts. ta_createdAt t = created \<and> ta_id t = i"
    if "f" "\<forall>rows \<in> set tables. \<exists>r \<in> set rows. task_matches wallet opts r \<and> tk_createdAt r = created \<and> tk_id r = i" for created i
  proof -
    have "\<forall>rows \<in> set tables. (created, i) \<in> task_key ` set (found_tasks wallet (opts\<lparr>tf_ascending := tf_ascending opts\<rparr>) rows)"
      using that(2) by (auto simp: found_tasks_def task_key_def image_iff)
    then have "(created, i) \<in> task_key ` set rs" using wf(3) that(1) by blast
    then show ?thesis by (auto simp: ts task_key_def the_task_def)
  qed
  ultimately show ?thesis by blast
qed

text \<open>
  The pages put together are the listing. On a table at rest a client that follows the cursors
  comes to the last page, after at most one request more than there are rows, and has then received
  all matching tasks once, in the order asked for; no page has more than a hundred.
\<close>

theorem pages_are_the_listing:
  assumes "table_ok rows"
  shows "cursor_walk wallet opts limit None (replicate (Suc (length rows)) rows)
      = Some (map the_task (found_tasks wallet opts rows), True)
    \<and> (\<exists>ts c. listCursor wallet opts limit None rows = Some (ts, c) \<and> length ts \<le> 100)"
proof -
  let ?n = "Suc (length rows)" and ?l = "page_limit limit" and ?f = "found_tasks wallet opts rows"
  have o: "sorted_wrt (\<lambda>x y. key_before (tf_ascending opts) (task_key x) (task_key y)) ?f"
    using assms by (auto simp: found_tasks_def table_ok_def distinct_map_filter intro!: order_sorted)
  have b: "filter (behind (key_before a) task_key None) xs = xs" for xs :: "task_row list" and a by (simp add: behind_def)
  have len: "length ?f < ?n" by (simp add: found_tasks_def order_tasks_def less_Suc_eq_le)
  have w: "keyset_walk (key_before (tf_ascending opts)) task_key ?l None (replicate ?n ?f) = (?f, True)"
    using asc.walk_fixed [of ?f ?l None ?n] desc.walk_fixed [of ?f ?l None ?n] o page_limit_pos len b
    by (cases "tf_ascending opts") (simp_all del: replicate_Suc)
  have "cursor_walk wallet opts limit None (replicate ?n rows) = Some (map the_task ?f, True)"
    using walk_keyset [of "replicate ?n rows" None wallet opts limit] assms w
    by (simp del: replicate_Suc cursor_walk.simps keyset_walk.simps)
  moreover have "\<exists>ts c. listCursor wallet opts limit None rows = Some (ts, c) \<and> length ts \<le> 100"
  proof -
    obtain page k where p: "keyset_page (key_before (tf_ascending opts)) task_key ?l None ?f = (page, k)" by fastforce
    have page: "page = take ?l ?f" using p by (auto simp: keyset_page_def Let_def min_def b)
    have "\<forall>r \<in> set page. tk_dag r \<noteq> None"
      using assms unfolding page by (auto simp: found_tasks_def table_ok_def dest!: in_set_takeD)
    then have "listCursor wallet opts limit None rows = Some (map the_task page, map_option encodeCursor k)"
      using p by (simp add: listCursor_def Let_def found_tasks_def [symmetric] those_row_task)
    moreover have "length page \<le> 100" using page_limit_pos(2) [of limit] by (simp add: page)
    ultimately show ?thesis by auto
  qed
  ultimately show ?thesis by blast
qed

subsection \<open>The history of a task\<close>

fun history_walk :: "ident \<Rightarrow> int option \<Rightarrow> int option \<Rightarrow> event_store list \<Rightarrow> task_event list \<times> bool" where
  "history_walk i limit afterId [] = ([], False)"
| "history_walk i limit afterId (st # sts) =
     (case getEventHistory i afterId limit st of
        Inl e \<Rightarrow> ([], False)
      | Inr (items, None) \<Rightarrow> (items, True)
      | Inr (items, Some c) \<Rightarrow> (case history_walk i limit (Some (int c)) sts of (rest, f) \<Rightarrow> (items @ rest, f)))"

definition seq_after :: "nat option \<Rightarrow> int" where
  "seq_after cursor = (case cursor of None \<Rightarrow> -1 | Some c \<Rightarrow> int c)"

lemma history_page:
  assumes "1 \<le> l" and "l \<le> 100" and "\<forall>c. cursor = Some c \<longrightarrow> int c \<le> 9007199254740991"
    and "keyset_page (<) er_taskSeq (nat l) cursor (task_rows i st) = (page, k)"
  shows "getEventHistory i (Some (seq_after cursor)) (Some l) st = Inr (map history_item page, k)"
    and "getEventHistory i None (Some l) st = getEventHistory i (Some (-1)) (Some l) st"
proof -
  have b: "behind (<) er_taskSeq cursor = (\<lambda>r. seq_after cursor < int (er_taskSeq r))"
    by (rule ext) (auto simp: behind_def seq_after_def split: option.split)
  have "-1 \<le> seq_after cursor" "seq_after cursor \<le> 9007199254740991"
    using assms(3) by (auto simp: seq_after_def split: option.splits)
  then show "getEventHistory i (Some (seq_after cursor)) (Some l) st = Inr (map history_item page, k)"
    using assms(1,2,4) by (auto simp: getEventHistory_def keyset_page_def Let_def b)
  show "getEventHistory i None (Some l) st = getEventHistory i (Some (-1)) (Some l) st"
    by (simp add: getEventHistory_def)
qed

lemma history_keyset:
  assumes "1 \<le> l" and "l \<le> 100" and "\<forall>r \<in> set (task_rows i st). int (er_taskSeq r) \<le> 9007199254740991"
    and "\<forall>c. cursor = Some c \<longrightarrow> int c \<le> 9007199254740991"
  shows "history_walk i (Some l) (Some (seq_after cursor)) (replicate n st)
    = (case keyset_walk (<) er_taskSeq (nat l) cursor (replicate n (task_rows i st)) of (rs, f) \<Rightarrow> (map history_item rs, f))"
  using assms(4)
proof (induction n arbitrary: cursor)
  case (Suc n)
  obtain page k where p: "keyset_page (<) er_taskSeq (nat l) cursor (task_rows i st) = (page, k)" by fastforce
  note h = history_page(1) [OF assms(1,2) Suc.prems p]
  show ?case
  proof (cases k)
    case None
    with h p show ?thesis by simp
  next
    case (Some c)
    have l: "0 < nat l" using assms(1) by simp
    note pn = hist.page_next [OF l p [unfolded Some]]
    have "last page \<in> set (task_rows i st)" using last_in_set [OF pn(1)] unfolding pn(3) by (auto dest: in_set_takeD)
    then have "int c \<le> 9007199254740991" using assms(3) pn(2) by simp
    then have "history_walk i (Some l) (Some (int c)) (replicate n st)
      = (case keyset_walk (<) er_taskSeq (nat l) (Some c) (replicate n (task_rows i st)) of (rs, f) \<Rightarrow> (map history_item rs, f))"
      using Suc.IH [of "Some c"] by (simp add: seq_after_def)
    with h p Some show ?thesis by (simp split: prod.split)
  qed
qed simp

definition te_inv :: "event_store \<Rightarrow> bool" where
  "te_inv st \<longleftrightarrow> (\<forall>i. map er_taskSeq (rows_of i st) = [0..<length (rows_of i st)])"

lemma te_next: "te_inv st \<Longrightarrow> te_next_seq i st = length (rows_of i st)"
proof -
  assume "te_inv st"
  then have m: "map er_taskSeq (rows_of i st) = [0..<length (rows_of i st)]" by (simp add: te_inv_def)
  show ?thesis
  proof (cases "length (rows_of i st)")
    case (Suc n)
    then have ne: "map er_taskSeq (rows_of i st) \<noteq> []" by auto
    then have "te_next_seq i st = Max (set (map er_taskSeq (rows_of i st))) + 1"
      by (auto simp: te_next_seq_def split: list.split)
    also have "Max (set (map er_taskSeq (rows_of i st))) = n"
      unfolding m Suc by (rule Max_eqI) auto
    finally show ?thesis using Suc by simp
  qed (use m in \<open>simp add: te_next_seq_def\<close>)
qed

lemma te_insert_rows:
  assumes "te_inv st"
  shows "te_inv (te_insertEvent e st)"
    and "map history_item (rows_of i (te_insertEvent e st))
      = map history_item (rows_of i st) @ (if te_taskId e = i then [e] else [])"
  using assms te_next [OF assms, of "te_taskId e"]
  by (auto simp: te_inv_def te_insertEvent_def Let_def rows_of_def history_item_def)

lemma te_inserts:
  "te_inv st \<Longrightarrow> te_inv (fold te_insertEvent es st)
    \<and> map history_item (rows_of i (fold te_insertEvent es st)) = map history_item (rows_of i st) @ filter (\<lambda>e. te_taskId e = i) es"
  by (induction es arbitrary: st) (auto simp: te_insert_rows)

text \<open>
  The history gives back what was recorded. After any events of any tasks were inserted, a client
  that pages through the history of a task, with any page size from 1 to 100, receives exactly its
  events, in the order of their insertion, and is told when the last page came.
\<close>

theorem history_roundtrip:
  assumes "1 \<le> l" and "l \<le> 100" and "int (length es) \<le> 9007199254740991"
  shows "history_walk i (Some l) None (replicate (Suc (length es)) (fold te_insertEvent es empty_store))
    = (filter (\<lambda>e. te_taskId e = i) es, True)"
proof -
  let ?st = "fold te_insertEvent es empty_store"
  have e: "te_inv empty_store" "rows_of i empty_store = []" by (simp_all add: te_inv_def empty_store_def rows_of_def)
  note t = te_inserts [OF e(1), of es i]
  have seqs: "map er_taskSeq (rows_of i ?st) = [0..<length (rows_of i ?st)]" using t by (simp add: te_inv_def)
  have items: "map history_item (rows_of i ?st) = filter (\<lambda>e. te_taskId e = i) es" using t e(2) by simp
  have len: "length (rows_of i ?st) \<le> length es" using arg_cong [OF items, of length] by (simp add: length_filter_le)
  have "sorted (map er_taskSeq (rows_of i ?st))" unfolding seqs by simp
  then have rows: "task_rows i ?st = rows_of i ?st" by (simp add: task_rows_def rows_of_def sort_key_id_if_sorted)
  have o: "sorted_wrt (\<lambda>x y. er_taskSeq x < er_taskSeq y) (rows_of i ?st)"
  proof -
    have "sorted_wrt (<) (map er_taskSeq (rows_of i ?st))" unfolding seqs by simp
    then show ?thesis by (simp only: sorted_wrt_map)
  qed
  have bound: "\<forall>r \<in> set (task_rows i ?st). int (er_taskSeq r) \<le> 9007199254740991"
  proof
    fix r assume "r \<in> set (task_rows i ?st)"
    then have "er_taskSeq r \<in> set (map er_taskSeq (rows_of i ?st))" by (simp add: rows)
    then show "int (er_taskSeq r) \<le> 9007199254740991" using len assms(3) unfolding seqs by simp
  qed
  have b: "filter (behind (<) er_taskSeq None) xs = xs" for xs :: "event_row list" by (simp add: behind_def)
  have w: "keyset_walk (<) er_taskSeq (nat l) None (replicate (Suc (length es)) (task_rows i ?st)) = (task_rows i ?st, True)"
    using hist.walk_fixed [of "task_rows i ?st" "nat l" None "Suc (length es)"] o assms(1) len b
    by (simp add: rows del: replicate_Suc)
  have "history_walk i (Some l) (Some (seq_after None)) (replicate (Suc (length es)) ?st) = (map history_item (task_rows i ?st), True)"
    using history_keyset [OF assms(1,2) bound, of None "Suc (length es)"] w by (simp del: replicate_Suc)
  then show ?thesis
    using history_page(2) [OF assms(1,2), of None i ?st] by (simp add: seq_after_def rows items)
      (simp add: getEventHistory_def)
qed

subsection \<open>Search\<close>

lemma like_percent: "sql_like (CHR ''%'' # p) s \<longleftrightarrow> (\<exists>u v. s = u @ v \<and> sql_like p v)"
proof (induction s)
  case (Cons c s)
  have "sql_like (CHR ''%'' # p) (c # s) \<longleftrightarrow> sql_like p (c # s) \<or> sql_like (CHR ''%'' # p) s" by simp
  also have "\<dots> \<longleftrightarrow> sql_like p (c # s) \<or> (\<exists>u v. s = u @ v \<and> sql_like p v)" by (simp only: Cons.IH)
  also have "\<dots> \<longleftrightarrow> (\<exists>u v. c # s = u @ v \<and> sql_like p v)"
    by (simp add: Cons_eq_append_conv) blast
  finally show ?case .
qed simp

lemma like_literal: "CHR ''%'' \<notin> set q \<Longrightarrow> CHR ''_'' \<notin> set q \<Longrightarrow>
    sql_like (q @ p) s \<longleftrightarrow> (\<exists>u v. s = u @ v \<and> map ascii_low u = map ascii_low q \<and> sql_like p v)"
proof (induction q arbitrary: s)
  case (Cons c q)
  show ?case
  proof (cases s)
    case Nil
    then show ?thesis using Cons.prems by auto
  next
    case (Cons d t)
    have "sql_like ((c # q) @ p) s \<longleftrightarrow> ascii_low c = ascii_low d \<and> sql_like (q @ p) t" using Cons.prems Cons by auto
    also have "\<dots> \<longleftrightarrow> ascii_low c = ascii_low d \<and> (\<exists>u v. t = u @ v \<and> map ascii_low u = map ascii_low q \<and> sql_like p v)"
      using Cons.IH Cons.prems by simp
    also have "\<dots> \<longleftrightarrow> (\<exists>u v. s = u @ v \<and> map ascii_low u = map ascii_low (c # q) \<and> sql_like p v)"
      unfolding Cons by (auto simp: Cons_eq_append_conv map_eq_Cons_conv) (metis append_Cons list.simps(9))
    finally show ?thesis .
  qed
qed simp

text \<open>
  Without the two wildcards in it, a search text finds the prompts that contain it, up to the case of
  ASCII letters; with one it finds others too.
\<close>

theorem search_finds_substrings:
  assumes "CHR ''%'' \<notin> set q" and "CHR ''_'' \<notin> set q" and "tf_status opts = None" and "tf_q opts = Some q"
  shows "task_matches wallet opts r \<longleftrightarrow> tk_walletPublicKey r = wallet
    \<and> (\<exists>u v w. tk_prompt r = u @ v @ w \<and> map ascii_low v = map ascii_low q)"
proof -
  have any: "sql_like ''%'' s" for s by (induction s) auto
  have "sql_like (''%'' @ q @ ''%'') s \<longleftrightarrow> (\<exists>u v w. s = u @ v @ w \<and> map ascii_low v = map ascii_low q)" for s
    by (auto simp: like_percent like_literal [OF assms(1,2)] any)
  then show ?thesis by (auto simp: task_matches_def assms(3,4)) (metis append_Nil)
qed

subsection \<open>Shutdown\<close>

definition failed_row :: "ms \<Rightarrow> task_row \<Rightarrow> task_row" where
  "failed_row now r = r\<lparr>tk_status := TFailed, tk_dag := Some (map fail_open_node (or_else [] (tk_dag r))), tk_updatedAt := now\<rparr>"

lemma fail_each_view:
  "distinct (map tk_id rows) \<Longrightarrow> set xs \<subseteq> set orig \<Longrightarrow> distinct (map tk_id xs) \<Longrightarrow> map tk_id rows = map tk_id orig \<Longrightarrow> distinct (map tk_id orig)
    \<Longrightarrow> \<forall>r \<in> set rows. r \<in> set orig \<or> tk_id r \<notin> tk_id ` set xs
    \<Longrightarrow> fail_each now xs rows = map (\<lambda>r. if tk_id r \<in> tk_id ` set xs then failed_row now r else r) rows"
proof (induction xs arbitrary: rows)
  case (Cons x xs)
  have same: "r = x" if "r \<in> set rows" "tk_id r = tk_id x" for r
    using that Cons.prems(2,5,6) distinct_key_eq [of tk_id orig r x] by auto
  let ?upd = "\<lambda>r. if tk_id r = tk_id x then failed_row now r else r"
  have "fail_each now (x # xs) rows = fail_each now xs (map ?upd rows)"
  proof -
    have "map (\<lambda>r. if tk_id r = tk_id x then r\<lparr>tk_status := TFailed,
        tk_dag := Some (case tk_dag x of None \<Rightarrow> [] | Some ns \<Rightarrow> map fail_open_node ns), tk_updatedAt := now\<rparr> else r) rows
      = map ?upd rows"
    proof (rule map_cong [OF refl])
      fix r assume r: "r \<in> set rows"
      show "(if tk_id r = tk_id x then r\<lparr>tk_status := TFailed,
        tk_dag := Some (case tk_dag x of None \<Rightarrow> [] | Some ns \<Rightarrow> map fail_open_node ns), tk_updatedAt := now\<rparr> else r) = ?upd r"
      proof (cases "tk_id r = tk_id x")
        case True
        then have "r = x" using same r by blast
        then show ?thesis by (cases "tk_dag x") (simp_all add: failed_row_def)
      qed simp
    qed
    then show ?thesis unfolding fail_each.simps Let_def by (rule arg_cong)
  qed
  also have "\<dots> = map (\<lambda>r. if tk_id r \<in> tk_id ` set xs then failed_row now r else r) (map ?upd rows)"
  proof (rule Cons.IH)
    have ids: "map tk_id (map ?upd rows) = map tk_id rows" by (simp add: failed_row_def)
    show "distinct (map tk_id (map ?upd rows))" "map tk_id (map ?upd rows) = map tk_id orig"
      using Cons.prems(1,4) ids by simp_all
    show "set xs \<subseteq> set orig" "distinct (map tk_id xs)" "distinct (map tk_id orig)" using Cons.prems by auto
    show "\<forall>r \<in> set (map ?upd rows). r \<in> set orig \<or> tk_id r \<notin> tk_id ` set xs"
      using Cons.prems(3,6) by (auto simp: failed_row_def)
  qed
  also have "\<dots> = map (\<lambda>r. if tk_id r \<in> tk_id ` set (x # xs) then failed_row now r else r) rows"
    using Cons.prems(3) by (auto simp: failed_row_def)
  finally show ?case .
qed simp

lemma failRunning_rows:
  assumes "distinct (map tk_id rows)"
  shows "failRunningTasks now rows = map (\<lambda>r. if tk_status r = TRunning then failed_row now r else r) rows"
proof -
  let ?xs = "filter (\<lambda>r. tk_status r = TRunning) rows"
  have "failRunningTasks now rows = map (\<lambda>r. if tk_id r \<in> tk_id ` set ?xs then failed_row now r else r) rows"
    unfolding failRunningTasks_def by (rule fail_each_view [of _ _ rows]) (use assms in \<open>auto simp: distinct_map_filter\<close>)
  also have "\<dots> = map (\<lambda>r. if tk_status r = TRunning then failed_row now r else r) rows"
  proof (rule map_cong [OF refl])
    fix r assume r: "r \<in> set rows"
    have "tk_id r \<in> tk_id ` set ?xs \<longleftrightarrow> tk_status r = TRunning"
      using r assms distinct_key_eq [of tk_id rows r] by (auto simp: image_iff)
    then show "(if tk_id r \<in> tk_id ` set ?xs then failed_row now r else r) = (if tk_status r = TRunning then failed_row now r else r)" by simp
  qed
  finally show ?thesis .
qed

text \<open>
  C40. A shutdown leaves tasks that can be restarted. Exactly the running tasks become failed: their
  running and pending nodes fail with the shutdown as the reason, the others keep what they did, and
  no other task is touched. When the job of such a task is run again, every node is pending,
  completed or cancelled: none is left running, for which a run would wait for ever.
\<close>

theorem shutdown_leaves_restartable_tasks:
  assumes "distinct (map tk_id rows)"
  shows "failRunningTasks now rows = map (\<lambda>r. if tk_status r = TRunning
      then r\<lparr>tk_status := TFailed, tk_dag := Some (map fail_open_node (or_else [] (tk_dag r))), tk_updatedAt := now\<rparr> else r) rows
    \<and> (\<forall>r \<in> set (failRunningTasks now rows). tk_status r \<noteq> TRunning)
    \<and> (\<forall>r \<in> set rows. tk_status r = TRunning \<longrightarrow> (\<exists>r' dag. r' \<in> set (failRunningTasks now rows) \<and> tk_id r' = tk_id r
        \<and> tk_dag r' = Some dag \<and> task_job_handler limit (tk_status r') dag = Some (executeDAG limit (reset_failed dag))
        \<and> (\<forall>n \<in> set (reset_failed dag). dn_status n \<in> {NPending, NCompleted, NCancelled})))"
proof -
  have eq: "failRunningTasks now rows = map (\<lambda>r. if tk_status r = TRunning
      then r\<lparr>tk_status := TFailed, tk_dag := Some (map fail_open_node (or_else [] (tk_dag r))), tk_updatedAt := now\<rparr> else r) rows"
    using failRunning_rows [OF assms] by (simp add: failed_row_def)
  have open_: "dn_status m \<in> {NPending, NCompleted, NCancelled}" if "m \<in> set (reset_failed (map fail_open_node ns))" for m ns
    using that by (auto simp: reset_failed_def fail_open_node_def) (metis node_status.exhaust)+
  have "\<exists>r' dag. r' \<in> set (failRunningTasks now rows) \<and> tk_id r' = tk_id r
        \<and> tk_dag r' = Some dag \<and> task_job_handler limit (tk_status r') dag = Some (executeDAG limit (reset_failed dag))
        \<and> (\<forall>n \<in> set (reset_failed dag). dn_status n \<in> {NPending, NCompleted, NCancelled})"
    if "r \<in> set rows" "tk_status r = TRunning" for r
    using that open_ [of _ "or_else [] (tk_dag r)"]
    by (intro exI [of _ "failed_row now r"] exI [of _ "map fail_open_node (or_else [] (tk_dag r))"])
      (auto simp: eq failed_row_def task_job_handler_def intro!: rev_image_eqI [of r])
  moreover have "\<forall>r \<in> set (failRunningTasks now rows). tk_status r \<noteq> TRunning" by (auto simp: eq)
  ultimately show ?thesis using eq by blast
qed

subsection \<open>Updates are read back\<close>

text \<open>
  What \<open>updateTask\<close> returns is what the next read gives, when the patch has a status or a DAG and
  nothing else.
\<close>

theorem updated_task_is_read_back:
  assumes "updateTask i p now rows = (rows', Inr t)" and "tp_prompt p = None" and "tp_status p \<noteq> None \<or> tp_dag p \<noteq> None"
  shows "task_findById i rows' = Inr (Some t)"
proof -
  from assms(1) obtain t0 where f: "task_findById i rows = Inr (Some t0)"
    by (auto simp: updateTask_def split: sum.splits option.splits)
  then obtain r dag where r: "row_by tk_id i rows = Some r" "tk_dag r = Some dag"
    "t0 = \<lparr> ta_id = tk_id r, ta_prompt = tk_prompt r, ta_walletPublicKey = tk_walletPublicKey r, ta_status = tk_status r,
       ta_dag = dag, ta_createdAt = tk_createdAt r, ta_updatedAt = tk_updatedAt r \<rparr>"
    by (auto simp: task_findById_def row_task_def split: option.splits)
  note upd = row_by_update [of tk_id]
  show ?thesis
    using assms f r row_by_Some [OF r(1)]
    by (cases "tp_status p"; cases "tp_dag p")
      (auto simp: updateTask_def Let_def task_findById_def tk_updateStatus_def updateDagJson_def upd row_task_def simp del: map_map)
qed

subsection \<open>Examples\<close>

definition demo_rows :: "task_row list" where
  "demo_rows = map (\<lambda>(i, created). \<lparr> tk_id = i, tk_prompt = ''Find papers'', tk_walletPublicKey = ''w'', tk_status = TRunning,
     tk_dag = Some [], tk_createdAt = created, tk_updatedAt = created \<rparr>) [(''a'', 1), (''b'', 1), (''c'', 2)]"

definition demo_listing :: task_filter where
  "demo_listing = \<lparr> tf_status = None, tf_q = Some ''PAPER'', tf_createdAfter = None, tf_ascending = False \<rparr>"

lemma demo_table: "table_ok demo_rows"
  by (simp add: table_ok_def demo_rows_def)

lemma demo_list: "map tk_id (found_tasks ''w'' demo_listing demo_rows) = [''c'', ''b'', ''a'']"
  by code_simp

theorem pages_are_the_listing_witness:
  "\<exists>ts. cursor_walk ''w'' demo_listing (Some 2) None (replicate 4 demo_rows) = Some (ts, True) \<and> map ta_id ts = [''c'', ''b'', ''a'']"
proof -
  have n: "Suc (length demo_rows) = 4" by (simp add: demo_rows_def)
  have "ta_id (the_task r) = tk_id r" for r by (simp add: the_task_def)
  then show ?thesis using pages_are_the_listing [OF demo_table, of "''w''" demo_listing "Some 2"] demo_list
    unfolding n by auto
qed

theorem listing_survives_writes_witness:
  "\<exists>ts. cursor_walk ''w'' demo_listing (Some 2) None (replicate 4 demo_rows) = Some (ts, True)
    \<and> (\<exists>t \<in> set ts. ta_createdAt t = 1 \<and> ta_id t = ''b'')"
proof -
  have ok: "\<forall>rows \<in> set (replicate 4 demo_rows). table_ok rows" using demo_table by simp
  obtain rs f where w: "keyset_walk (key_before (tf_ascending demo_listing)) task_key (page_limit (Some 2)) None
      (map (found_tasks ''w'' demo_listing) (replicate 4 demo_rows)) = (rs, f)" by fastforce
  have "snd (keyset_walk (key_before (tf_ascending demo_listing)) task_key (page_limit (Some 2)) None
      (map (found_tasks ''w'' demo_listing) (replicate 4 demo_rows)))" by code_simp
  then have f: "f" using w by simp
  have c: "cursor_walk ''w'' demo_listing (Some 2) None (replicate 4 demo_rows) = Some (map the_task rs, True)"
    using walk_keyset [OF ok, of None "''w''" demo_listing "Some 2"] w f by (simp del: cursor_walk.simps)
  have "task_matches ''w'' demo_listing \<lparr> tk_id = ''b'', tk_prompt = ''Find papers'', tk_walletPublicKey = ''w'', tk_status = TRunning,
     tk_dag = Some [], tk_createdAt = 1, tk_updatedAt = 1 \<rparr>" by code_simp
  then have "\<forall>rows \<in> set (replicate 4 demo_rows). \<exists>r \<in> set rows. task_matches ''w'' demo_listing r \<and> tk_createdAt r = 1 \<and> tk_id r = ''b''"
    by (simp add: demo_rows_def)
  then show ?thesis using listing_survives_writes [OF ok c] c by blast
qed

theorem history_roundtrip_witness:
  "history_walk ''t'' (Some 1) None (replicate 3 (fold te_insertEvent
      [\<lparr> te_type = ''a'', te_taskId = ''t'', te_nodeId = None, te_payload = None, te_timestamp = 5 \<rparr>,
       \<lparr> te_type = ''b'', te_taskId = ''u'', te_nodeId = None, te_payload = None, te_timestamp = 6 \<rparr>] empty_store))
    = ([\<lparr> te_type = ''a'', te_taskId = ''t'', te_nodeId = None, te_payload = None, te_timestamp = 5 \<rparr>], True)"
  using history_roundtrip [of 1 "[\<lparr> te_type = ''a'', te_taskId = ''t'', te_nodeId = None, te_payload = None, te_timestamp = 5 \<rparr>,
       \<lparr> te_type = ''b'', te_taskId = ''u'', te_nodeId = None, te_payload = None, te_timestamp = 6 \<rparr>]" "''t''"]
  by (simp del: fold_simps history_walk.simps replicate.simps add: numeral_3_eq_3)

theorem shutdown_leaves_restartable_tasks_witness:
  "list_all (\<lambda>r. tk_status r \<noteq> TRunning) (failRunningTasks 9 demo_rows)"
proof -
  have "distinct (map tk_id demo_rows)" by (simp add: demo_rows_def)
  from shutdown_leaves_restartable_tasks [OF this] show ?thesis unfolding list_all_iff by blast
qed

theorem search_finds_substrings_witness:
  "task_matches ''w'' demo_listing (hd demo_rows)"
proof -
  have "tk_prompt (hd demo_rows) = ''Find '' @ ''paper'' @ ''s''" "map ascii_low ''paper'' = map ascii_low ''PAPER''"
    "tk_walletPublicKey (hd demo_rows) = ''w''" by code_simp+
  moreover have "CHR ''%'' \<notin> set ''PAPER''" "CHR ''_'' \<notin> set ''PAPER''" "tf_status demo_listing = None" "tf_q demo_listing = Some ''PAPER''"
    by (simp_all add: demo_listing_def)
  ultimately show ?thesis using search_finds_substrings [of "''PAPER''" demo_listing "''w''" "hd demo_rows"] by blast
qed

end
