(* ===== verification/CostStore.thy ===== *)
theory CostStore
  imports BudgetLedger WalletQuota "HOL-Library.List_Lexorder" "HOL-Library.Char_ord" "HOL-Library.Product_Lexorder"
begin

text \<open>
  Recorded cost: the tables \<open>task_costs\<close> and \<open>task_token_usage\<close> of \<open>backend/src/db/tasks.ts\<close>, the
  bridge from the ledger (\<open>services/budget/persistence.ts\<close>), the limits (\<open>limits.ts\<close>) and the daily
  budget with its alerts (\<open>alerts.ts\<close>). SQLite's \<open>SUM\<close> on doubles is the argument \<open>usd\<close>, with what is
  used of it as hypotheses; a failing write or read is an argument.
\<close>

subsection \<open>The tables\<close>

record task_cost =
  tc_taskId :: ident
  tc_walletPublicKey :: string
  tc_budgetTokens :: int
  tc_usedTokens :: int
  tc_costUsd :: rat
  tc_currency :: string
  tc_exceeded :: bool
  tc_calls :: nat
  tc_createdAt :: ms
  tc_settledAt :: ms

record node_usage =
  nu_taskId :: ident
  nu_nodeId :: ident
  nu_agentId :: ident
  nu_agentType :: string
  nu_model :: string
  nu_calls :: nat
  nu_promptTokens :: int
  nu_completionTokens :: int
  nu_totalTokens :: int
  nu_costUsd :: rat
  nu_trimmed :: bool
  nu_budgetExhausted :: bool
  nu_updatedAt :: ms

definition upsertTaskCost :: "task_cost \<Rightarrow> task_cost list \<Rightarrow> task_cost list" where
  "upsertTaskCost c rows = (if tc_taskId c \<in> set (map tc_taskId rows)
     then map (\<lambda>r. if tc_taskId r = tc_taskId c then c\<lparr>tc_createdAt := tc_createdAt r\<rparr> else r) rows else rows @ [c])"

definition getTaskCost :: "ident \<Rightarrow> task_cost list \<Rightarrow> task_cost option" where
  "getTaskCost i rows = row_by tc_taskId i rows"

definition nu_key :: "node_usage \<Rightarrow> ident \<times> ident" where
  "nu_key u = (nu_taskId u, nu_nodeId u)"

text \<open>Both statements keep a name that the new record leaves empty, and a flag once set.\<close>

definition fold_usage :: "node_usage \<Rightarrow> node_usage \<Rightarrow> node_usage" where
  "fold_usage new old = new\<lparr>
     nu_agentId := (if nu_agentId new \<noteq> '''' then nu_agentId new else nu_agentId old),
     nu_agentType := (if nu_agentType new \<noteq> '''' then nu_agentType new else nu_agentType old),
     nu_model := (if nu_model new \<noteq> '''' then nu_model new else nu_model old),
     nu_trimmed := (nu_trimmed old \<or> nu_trimmed new), nu_budgetExhausted := (nu_budgetExhausted old \<or> nu_budgetExhausted new)\<rparr>"

definition addNodeUsage :: "node_usage \<Rightarrow> node_usage list \<Rightarrow> node_usage list" where
  "addNodeUsage u rows = (if nu_key u \<in> set (map nu_key rows)
     then map (\<lambda>r. if nu_key r = nu_key u then (fold_usage u r)\<lparr>nu_calls := nu_calls r + nu_calls u,
         nu_promptTokens := nu_promptTokens r + nu_promptTokens u,
         nu_completionTokens := nu_completionTokens r + nu_completionTokens u,
         nu_totalTokens := nu_totalTokens r + nu_totalTokens u, nu_costUsd := fl (nu_costUsd r + nu_costUsd u)\<rparr> else r) rows
     else rows @ [u])"

definition setNodeUsage :: "node_usage \<Rightarrow> node_usage list \<Rightarrow> node_usage list" where
  "setNodeUsage u rows = (if nu_key u \<in> set (map nu_key rows)
     then map (\<lambda>r. if nu_key r = nu_key u then fold_usage u r else r) rows else rows @ [u])"

definition listNodeUsage :: "ident \<Rightarrow> node_usage list \<Rightarrow> node_usage list" where
  "listNodeUsage i rows = sort_key (\<lambda>u. (- nu_costUsd u, nu_nodeId u)) (filter (\<lambda>u. nu_taskId u = i) rows)"

subsection \<open>Totals\<close>

record cost_totals =
  co_tasks :: nat
  co_calls :: nat
  co_promptTokens :: int
  co_completionTokens :: int
  co_totalTokens :: int
  co_costUsd :: rat

definition usage_totals :: "(rat list \<Rightarrow> rat) \<Rightarrow> node_usage list \<Rightarrow> cost_totals" where
  "usage_totals usd us = \<lparr> co_tasks = length (remdups (map nu_taskId us)), co_calls = sum_list (map nu_calls us),
     co_promptTokens = sum_list (map nu_promptTokens us), co_completionTokens = sum_list (map nu_completionTokens us),
     co_totalTokens = sum_list (map nu_totalTokens us), co_costUsd = usd (map nu_costUsd us) \<rparr>"

definition round_totals :: "cost_totals \<Rightarrow> cost_totals" where
  "round_totals t = t\<lparr>co_costUsd := round6 (co_costUsd t)\<rparr>"

definition listAgentCostTotals :: "(rat list \<Rightarrow> rat) \<Rightarrow> nat \<Rightarrow> node_usage list \<Rightarrow> ((ident \<times> string) \<times> cost_totals) list" where
  "listAgentCostTotals usd limit rows =
     (let named = filter (\<lambda>u. nu_agentId u \<noteq> '''') rows;
          agent = (\<lambda>u. (nu_agentId u, nu_agentType u));
          groups = map (\<lambda>a. (a, usage_totals usd (filter (\<lambda>u. agent u = a) named))) (sort (remdups (map agent named)))
      in map (\<lambda>(a, t). (a, round_totals t)) (take limit (sort_key (\<lambda>(a, t). - co_costUsd t) groups)))"

definition usage_day :: "node_usage \<Rightarrow> int" where
  "usage_day u = nu_updatedAt u div 86400000"

record breakdown_filter =
  bf_agentId :: "ident option"
  bf_agentType :: "string option"
  bf_model :: "string option"
  bf_day :: "int option"

definition passes :: "'a option \<Rightarrow> 'a \<Rightarrow> bool" where
  "passes f x = (case f of None \<Rightarrow> True | Some y \<Rightarrow> x = y)"

definition listCostBreakdown ::
    "(rat list \<Rightarrow> rat) \<Rightarrow> breakdown_filter \<Rightarrow> nat \<Rightarrow> node_usage list \<Rightarrow> ((ident \<times> string \<times> string \<times> int) \<times> cost_totals) list" where
  "listCostBreakdown usd f limit rows =
     (let found = filter (\<lambda>u. passes (bf_agentId f) (nu_agentId u) \<and> passes (bf_agentType f) (nu_agentType u)
            \<and> passes (bf_model f) (nu_model u) \<and> passes (bf_day f) (usage_day u)) rows;
          group = (\<lambda>u. (nu_agentId u, nu_agentType u, nu_model u, usage_day u));
          groups = map (\<lambda>g. (g, usage_totals usd (filter (\<lambda>u. group u = g) found))) (sort (remdups (map group found)))
      in map (\<lambda>(g, t). (g, round_totals t)) (take limit
           (sort_key (\<lambda>((_, _, _, d), t). (- d, - co_costUsd t)) groups)))"

text \<open>
  The statement behind \<open>getCostTotals\<close> names columns that its table does not have; SQLite refuses it
  when it is prepared, whatever the rows.
\<close>

definition TASK_COSTS_COLUMNS :: "string list" where
  "TASK_COSTS_COLUMNS = [''taskId'', ''walletPublicKey'', ''budgetTokens'', ''usedTokens'', ''costUsd'', ''currency'',
     ''exceeded'', ''calls'', ''createdAt'', ''settledAt'']"

datatype sql_error = NoSuchColumn string

definition getCostTotals :: "task_cost list \<Rightarrow> sql_error + cost_totals" where
  "getCostTotals rows = Inl (NoSuchColumn (hd (filter (\<lambda>c. c \<notin> set TASK_COSTS_COLUMNS)
     [''calls'', ''promptTokens'', ''completionTokens'', ''totalTokens'', ''costUsd'', ''exceeded''])))"

definition getDailySpendUsd :: "(rat list \<Rightarrow> rat) \<Rightarrow> int \<Rightarrow> node_usage list \<Rightarrow> rat" where
  "getDailySpendUsd usd day rows = round6 (usd (map nu_costUsd (filter (\<lambda>u. usage_day u = day) rows)))"

definition listRecentCosts :: "nat \<Rightarrow> task_cost list \<Rightarrow> task_cost list" where
  "listRecentCosts limit rows = take limit (sort_key (\<lambda>c. - tc_settledAt c) rows)"

subsection \<open>From the ledger to the tables\<close>

record cost_db =
  cd_costs :: "task_cost list"
  cd_usage :: "node_usage list"

definition usage_of_entry :: "ident \<Rightarrow> ms \<Rightarrow> usage_entry \<Rightarrow> node_usage" where
  "usage_of_entry taskId now e = \<lparr> nu_taskId = taskId, nu_nodeId = ue_nodeId e, nu_agentId = ue_agentId e,
     nu_agentType = ue_agentType e, nu_model = ue_model e, nu_calls = ue_calls e, nu_promptTokens = ue_promptTokens e,
     nu_completionTokens = ue_completionTokens e, nu_totalTokens = ue_totalTokens e, nu_costUsd = ue_costUsd e,
     nu_trimmed = ue_trimmed e, nu_budgetExhausted = ue_budgetExhausted e, nu_updatedAt = now \<rparr>"

text \<open>A failing write is logged only.\<close>

definition persistNodeUsage :: "bool \<Rightarrow> ident \<Rightarrow> ms \<Rightarrow> usage_entry \<Rightarrow> cost_db \<Rightarrow> cost_db" where
  "persistNodeUsage ok taskId now e db = (if ok then db\<lparr>cd_usage := setNodeUsage (usage_of_entry taskId now e) (cd_usage db)\<rparr> else db)"

definition toPersistedCost :: "cost_snapshot \<Rightarrow> ms \<Rightarrow> task_cost" where
  "toPersistedCost s settledAt = \<lparr> tc_taskId = cs_taskId s, tc_walletPublicKey = cs_walletPublicKey s,
     tc_budgetTokens = cs_budgetTokens s, tc_usedTokens = cs_usedTokens s, tc_costUsd = cs_costUsd s, tc_currency = ''USD'',
     tc_exceeded = cs_exceeded s, tc_calls = cs_calls s, tc_createdAt = cs_createdAt s, tc_settledAt = settledAt \<rparr>"

text \<open>
  Settling takes the ledger out of the registry, counts the tokens, charges the wallet's quota, and
  writes the task's row and one row per node; if the first write fails the others are skipped.
\<close>

record cost_state =
  cx_ledgers :: ledgers
  cx_tokensSpent :: int
  cx_quota :: quota_state
  cx_db :: cost_db

definition settleTaskCost :: "bool \<Rightarrow> (ident \<Rightarrow> bool) \<Rightarrow> bool \<Rightarrow> ident \<Rightarrow> ms \<Rightarrow> cost_state \<Rightarrow> cost_state \<times> cost_snapshot option" where
  "settleTaskCost taskOk nodeOk quotaOk taskId now s =
     (case takeLedgerSnapshot taskId (cx_ledgers s) of
        (ls, None) \<Rightarrow> (s\<lparr>cx_ledgers := ls\<rparr>, None)
      | (ls, Some snap) \<Rightarrow>
          (s\<lparr>cx_ledgers := ls, cx_tokensSpent := cx_tokensSpent s + max 0 (cs_usedTokens snap),
             cx_quota := (if quotaOk then recordWalletTokenSpend (cs_walletPublicKey snap) (Some (of_int (cs_usedTokens snap))) now (cx_quota s)
               else cx_quota s),
             cx_db := (if taskOk
               then fold (\<lambda>e. persistNodeUsage (nodeOk (ue_nodeId e)) taskId now e) (cs_agents snap)
                 ((cx_db s)\<lparr>cd_costs := upsertTaskCost (toPersistedCost snap now) (cd_costs (cx_db s))\<rparr>)
               else cx_db s)\<rparr>, Some snap))"

fun flush_each :: "(ident \<Rightarrow> bool) \<Rightarrow> cost_snapshot list \<Rightarrow> task_cost list \<times> nat \<Rightarrow> task_cost list \<times> nat" where
  "flush_each ok [] (rows, n) = (rows, n)"
| "flush_each ok (s # ss) (rows, n) = (if ok (cs_taskId s)
     then flush_each ok ss (upsertTaskCost (toPersistedCost s (cs_createdAt s)) rows, n + 1) else flush_each ok ss (rows, n))"

definition flushActiveCosts :: "(ident \<Rightarrow> bool) \<Rightarrow> cost_state \<Rightarrow> cost_state \<times> nat" where
  "flushActiveCosts ok s = (case flush_each ok (activeSnapshots (cx_ledgers s)) (cd_costs (cx_db s), 0) of
     (rows, n) \<Rightarrow> (s\<lparr>cx_db := (cx_db s)\<lparr>cd_costs := rows\<rparr>\<rparr>, n))"

definition budgetLimitsFromEnv :: "(int option \<times> int option \<times> int option) option \<Rightarrow> budget_limits" where
  "budgetLimitsFromEnv config = (case config of
     None \<Rightarrow> \<lparr> bl_maxTokensPerTask = 200000, bl_maxTokensPerCall = 8192, bl_maxPromptTokens = 16000 \<rparr>
   | Some (task, call, prompt) \<Rightarrow> \<lparr> bl_maxTokensPerTask = or_else 200000 task, bl_maxTokensPerCall = or_else 8192 call,
       bl_maxPromptTokens = or_else 16000 prompt \<rparr>)"

subsection \<open>The daily budget\<close>

datatype budget_level = BudgetDisabled | BudgetOk | BudgetWarn | BudgetExceeded

record budget_status =
  bs_day :: int
  bs_enabled :: bool
  bs_budgetUsd :: rat
  bs_spentUsd :: rat
  bs_ratio :: rat
  bs_level :: budget_level
  bs_warnAtUsd :: rat
  bs_hardStopAtUsd :: rat

definition evaluateCostBudget :: "int \<Rightarrow> rat \<Rightarrow> rat \<Rightarrow> budget_status" where
  "evaluateCostBudget day spentUsd budgetUsd =
     (let enabled = 0 < budgetUsd; ratio = (if enabled then fl (spentUsd / budgetUsd) else 0) in
      \<lparr> bs_day = day, bs_enabled = enabled, bs_budgetUsd = budgetUsd, bs_spentUsd = spentUsd, bs_ratio = ratio,
        bs_level = (if \<not> enabled then BudgetDisabled else if 1 \<le> ratio then BudgetExceeded
          else if 3/4 \<le> ratio then BudgetWarn else BudgetOk),
        bs_warnAtUsd = fl (budgetUsd * (3/4)), bs_hardStopAtUsd = fl (budgetUsd * 1) \<rparr>)"

text \<open>The level announced last and its day, and the log lines written.\<close>

record budget_alerts =
  ba_announced :: "(int \<times> budget_level) option"
  ba_log :: "(int \<times> budget_level) list"

definition announce :: "budget_status \<Rightarrow> budget_alerts \<Rightarrow> budget_alerts" where
  "announce s a =
     (if bs_level s \<noteq> BudgetWarn \<and> bs_level s \<noteq> BudgetExceeded then a
      else if (case ba_announced a of None \<Rightarrow> False
          | Some (d, l) \<Rightarrow> d = bs_day s \<and> (l = BudgetExceeded \<or> l = bs_level s)) then a
      else \<lparr> ba_announced = Some (bs_day s, bs_level s), ba_log = ba_log a @ [(bs_day s, bs_level s)] \<rparr>)"

definition resetCostBudgetAlerts :: "budget_alerts \<Rightarrow> budget_alerts" where
  "resetCostBudgetAlerts a = a\<lparr>ba_announced := None\<rparr>"

definition getCostBudgetStatus ::
    "(rat list \<Rightarrow> rat) \<Rightarrow> bool \<Rightarrow> ms \<Rightarrow> rat \<Rightarrow> node_usage list \<Rightarrow> budget_alerts \<Rightarrow> budget_alerts \<times> budget_status option" where
  "getCostBudgetStatus usd dbOk now budgetUsd rows a =
     (let day = now div 86400000 in
      if \<not> 0 < budgetUsd then (a, Some (evaluateCostBudget day 0 0))
      else if \<not> dbOk then (a, None)
      else let s = evaluateCostBudget day (getDailySpendUsd usd day rows) budgetUsd in (announce s a, Some s))"

text \<open>\<open>Some\<close> is the error thrown; a failing database lets the work through.\<close>

definition assertDailyCostBudgetAvailable ::
    "(rat list \<Rightarrow> rat) \<Rightarrow> bool \<Rightarrow> ms \<Rightarrow> rat \<Rightarrow> ident \<Rightarrow> node_usage list \<Rightarrow> budget_alerts \<Rightarrow> budget_alerts \<times> (ident \<times> budget_status) option" where
  "assertDailyCostBudgetAvailable usd dbOk now budgetUsd taskId rows a =
     (case getCostBudgetStatus usd dbOk now budgetUsd rows a of
        (a', None) \<Rightarrow> (a', None)
      | (a', Some s) \<Rightarrow> (a', if bs_level s = BudgetExceeded then Some (taskId, s) else None))"

subsection \<open>Settlement\<close>

lemma set_keys: "map nu_key (map (\<lambda>r. if nu_key r = nu_key u then fold_usage u r else r) rows) = map nu_key rows"
  by (simp add: fold_usage_def nu_key_def)

lemma set_usage_row:
  "row_by nu_key k (setNodeUsage u rows)
    = (if k = nu_key u then Some (case row_by nu_key k rows of None \<Rightarrow> u | Some r \<Rightarrow> fold_usage u r) else row_by nu_key k rows)"
proof (cases "nu_key u \<in> set (map nu_key rows)")
  case True
  have "row_by nu_key k (map (\<lambda>r. if nu_key r = nu_key u then fold_usage u r else r) rows)
      = map_option (\<lambda>r. if nu_key r = nu_key u then fold_usage u r else r) (row_by nu_key k rows)"
    if "k \<noteq> nu_key u \<or> k = nu_key u"
    by (induction rows) (auto simp: row_by_def fold_usage_def nu_key_def)
  then show ?thesis using True row_by_None [of nu_key k rows] row_by_Some [of nu_key k rows]
    by (cases "row_by nu_key k rows") (auto simp: setNodeUsage_def)
next
  case False
  then have "row_by nu_key (nu_key u) rows = None" by (simp add: row_by_None)
  then show ?thesis using False by (auto simp: setNodeUsage_def row_by_append row_by_def [of _ _ "[u]"] split: option.split)
qed

lemma set_usage_twice: "row_by nu_key k (setNodeUsage u (setNodeUsage u rows)) = row_by nu_key k (setNodeUsage u rows)"
  by (auto simp: set_usage_row fold_usage_def split: option.split)

lemma persist_fold_row:
  assumes "distinct (map ue_nodeId es)" and "\<forall>e \<in> set es. ok (ue_nodeId e)"
  shows "(\<forall>e \<in> set es. row_by nu_key (i, ue_nodeId e) (cd_usage (fold (\<lambda>e. persistNodeUsage (ok (ue_nodeId e)) i now e) es db))
        = Some (case row_by nu_key (i, ue_nodeId e) (cd_usage db) of None \<Rightarrow> usage_of_entry i now e
            | Some r \<Rightarrow> fold_usage (usage_of_entry i now e) r))
    \<and> (\<forall>k. k \<notin> (\<lambda>e. (i, ue_nodeId e)) ` set es
        \<longrightarrow> row_by nu_key k (cd_usage (fold (\<lambda>e. persistNodeUsage (ok (ue_nodeId e)) i now e) es db)) = row_by nu_key k (cd_usage db))
    \<and> cd_costs (fold (\<lambda>e. persistNodeUsage (ok (ue_nodeId e)) i now e) es db) = cd_costs db"
  using assms
proof (induction es arbitrary: db)
  case (Cons e es)
  let ?db = "persistNodeUsage (ok (ue_nodeId e)) i now e db"
  have key: "nu_key (usage_of_entry i now e) = (i, ue_nodeId e)" by (simp add: nu_key_def usage_of_entry_def)
  have row: "row_by nu_key k (cd_usage ?db) = (if k = (i, ue_nodeId e) then Some (case row_by nu_key k (cd_usage db) of
      None \<Rightarrow> usage_of_entry i now e | Some r \<Rightarrow> fold_usage (usage_of_entry i now e) r) else row_by nu_key k (cd_usage db))" for k
    using Cons.prems(2) by (simp add: persistNodeUsage_def set_usage_row key)
  have "cd_costs ?db = cd_costs db" by (simp add: persistNodeUsage_def)
  with Cons.IH [of ?db] Cons.prems row show ?case
    by (auto simp: image_iff simp del: split_paired_All)
qed simp

lemma upsert_cost_row: "row_by tc_taskId i (upsertTaskCost c rows)
    = (if i = tc_taskId c then Some (case row_by tc_taskId i rows of None \<Rightarrow> c | Some r \<Rightarrow> c\<lparr>tc_createdAt := tc_createdAt r\<rparr>)
       else row_by tc_taskId i rows)"
proof (cases "tc_taskId c \<in> set (map tc_taskId rows)")
  case True
  have "row_by tc_taskId i (map (\<lambda>r. if tc_taskId r = tc_taskId c then c\<lparr>tc_createdAt := tc_createdAt r\<rparr> else r) rows)
      = map_option (\<lambda>r. if tc_taskId r = tc_taskId c then c\<lparr>tc_createdAt := tc_createdAt r\<rparr> else r) (row_by tc_taskId i rows)"
    by (induction rows) (auto simp: row_by_def)
  then show ?thesis using True row_by_None [of tc_taskId i rows] row_by_Some [of tc_taskId i rows]
    by (cases "row_by tc_taskId i rows") (auto simp: upsertTaskCost_def)
next
  case False
  then have "row_by tc_taskId (tc_taskId c) rows = None" by (simp add: row_by_None)
  then show ?thesis using False
    by (auto simp: upsertTaskCost_def row_by_append row_by_def [of _ _ "[c]"] split: option.split)
qed

text \<open>
  C12. Settlement is authoritative. When a task's ledger is settled and the writes succeed, the table
  holds the ledger's totals for the task and for each of its nodes, whatever earlier writes, of this
  run or of an earlier attempt, left there: only the time of creation, the flags once set and the
  names the ledger has not are kept. The rows of other tasks do not change, and the ledger is gone.
\<close>

theorem settlement_is_authoritative:
  assumes "jm_get (cx_ledgers s) i = Some l" and "ld_taskId l = i"
    and "distinct (map ue_nodeId (agents_usage l))" and "\<forall>e \<in> set (agents_usage l). nodeOk (ue_nodeId e)"
    and "settleTaskCost True nodeOk quotaOk i now s = (s', snap)"
  shows "snap = Some (ld_snapshot l) \<and> jm_get (cx_ledgers s') i = None
    \<and> (\<exists>c. getTaskCost i (cd_costs (cx_db s')) = Some c \<and> tc_usedTokens c = ld_usedTokens l \<and> tc_costUsd c = ld_costUsd l
        \<and> tc_calls c = ld_calls l \<and> tc_settledAt c = now)
    \<and> (\<forall>e \<in> set (agents_usage l). \<exists>u. row_by nu_key (i, ue_nodeId e) (cd_usage (cx_db s')) = Some u
        \<and> nu_totalTokens u = ue_totalTokens e \<and> nu_promptTokens u = ue_promptTokens e
        \<and> nu_completionTokens u = ue_completionTokens e \<and> nu_costUsd u = ue_costUsd e \<and> nu_calls u = ue_calls e \<and> nu_updatedAt u = now
        \<and> (ue_trimmed e \<longrightarrow> nu_trimmed u) \<and> (ue_budgetExhausted e \<longrightarrow> nu_budgetExhausted u))
    \<and> (\<forall>j. j \<noteq> i \<longrightarrow> getTaskCost j (cd_costs (cx_db s')) = getTaskCost j (cd_costs (cx_db s))
        \<and> (\<forall>n. row_by nu_key (j, n) (cd_usage (cx_db s')) = row_by nu_key (j, n) (cd_usage (cx_db s))))"
proof -
  let ?es = "agents_usage l"
  let ?db = "(cx_db s)\<lparr>cd_costs := upsertTaskCost (toPersistedCost (ld_snapshot l) now) (cd_costs (cx_db s))\<rparr>"
  have snap: "cs_agents (ld_snapshot l) = ?es" "cs_taskId (ld_snapshot l) = i" using assms(2) by (simp_all add: ld_snapshot_def)
  have db: "cx_db s' = fold (\<lambda>e. persistNodeUsage (nodeOk (ue_nodeId e)) i now e) ?es ?db"
    and rest: "snap = Some (ld_snapshot l)" "cx_ledgers s' = jm_del (cx_ledgers s) i"
    using assms(1,5) snap by (auto simp: settleTaskCost_def takeLedgerSnapshot_def)
  note pf = persist_fold_row [OF assms(3,4), of i now ?db]
  have usage: "cd_usage ?db = cd_usage (cx_db s)" and costs: "cd_costs (cx_db s') = upsertTaskCost (toPersistedCost (ld_snapshot l) now) (cd_costs (cx_db s))"
    using pf db by simp_all
  have key: "tc_taskId (toPersistedCost (ld_snapshot l) now) = i" using snap by (simp add: toPersistedCost_def)
  have task: "\<exists>c. getTaskCost i (cd_costs (cx_db s')) = Some c \<and> tc_usedTokens c = ld_usedTokens l \<and> tc_costUsd c = ld_costUsd l
        \<and> tc_calls c = ld_calls l \<and> tc_settledAt c = now"
    by (cases "row_by tc_taskId i (cd_costs (cx_db s))")
      (simp_all add: getTaskCost_def costs upsert_cost_row key, simp_all add: toPersistedCost_def ld_snapshot_def)
  have nodes: "\<exists>u. row_by nu_key (i, ue_nodeId e) (cd_usage (cx_db s')) = Some u
        \<and> nu_totalTokens u = ue_totalTokens e \<and> nu_promptTokens u = ue_promptTokens e
        \<and> nu_completionTokens u = ue_completionTokens e \<and> nu_costUsd u = ue_costUsd e \<and> nu_calls u = ue_calls e \<and> nu_updatedAt u = now
        \<and> (ue_trimmed e \<longrightarrow> nu_trimmed u) \<and> (ue_budgetExhausted e \<longrightarrow> nu_budgetExhausted u)" if "e \<in> set ?es" for e
    using bspec [OF conjunct1 [OF pf] that] unfolding db usage
    by (cases "row_by nu_key (i, ue_nodeId e) (cd_usage (cx_db s))") (simp_all add: usage_of_entry_def fold_usage_def)
  have others: "getTaskCost j (cd_costs (cx_db s')) = getTaskCost j (cd_costs (cx_db s))
        \<and> (\<forall>n. row_by nu_key (j, n) (cd_usage (cx_db s')) = row_by nu_key (j, n) (cd_usage (cx_db s)))" if "j \<noteq> i" for j
    using that pf usage by (auto simp: getTaskCost_def costs upsert_cost_row key db)
  show ?thesis using rest task nodes others by (auto simp: js_map)
qed

text \<open>
  Writing a node's running total puts all its cost on the day of the write: what it cost on earlier
  days is taken from them, and the budget of the new day is charged with it.
\<close>

theorem node_cost_moves_to_the_last_day:
  assumes "usage_day u \<noteq> day"
  shows "getDailySpendUsd usd day (setNodeUsage u rows) = getDailySpendUsd usd day (filter (\<lambda>r. nu_key r \<noteq> nu_key u) rows)"
proof -
  have m: "filter (\<lambda>r. usage_day r = day) (map (\<lambda>r. if nu_key r = nu_key u then fold_usage u r else r) rows)
      = filter (\<lambda>r. usage_day r = day) (filter (\<lambda>r. nu_key r \<noteq> nu_key u) rows)"
    using assms by (induction rows) (auto simp: usage_day_def fold_usage_def)
  have "filter (\<lambda>r. usage_day r = day) (setNodeUsage u rows) = filter (\<lambda>r. usage_day r = day) (filter (\<lambda>r. nu_key r \<noteq> nu_key u) rows)"
  proof (cases "nu_key u \<in> set (map nu_key rows)")
    case True
    then show ?thesis unfolding setNodeUsage_def using m by simp
  next
    case False
    then have "filter (\<lambda>r. nu_key r \<noteq> nu_key u) rows = rows" by (auto simp: filter_id_conv) (metis imageI)
    then show ?thesis using assms False by (simp add: setNodeUsage_def)
  qed
  then show ?thesis unfolding getDailySpendUsd_def by simp
qed

subsection \<open>Alerts\<close>

record budget_check =
  bc_dbOk :: bool
  bc_now :: ms
  bc_budgetUsd :: rat
  bc_rows :: "node_usage list"

definition budget_checks :: "(rat list \<Rightarrow> rat) \<Rightarrow> budget_check list \<Rightarrow> budget_alerts \<Rightarrow> budget_alerts" where
  "budget_checks usd cs a =
     fold (\<lambda>c a. fst (getCostBudgetStatus usd (bc_dbOk c) (bc_now c) (bc_budgetUsd c) (bc_rows c) a)) cs a"

definition line_before :: "int \<times> budget_level \<Rightarrow> int \<times> budget_level \<Rightarrow> bool" where
  "line_before x y \<longleftrightarrow> fst x < fst y \<or> fst x = fst y \<and> snd x = BudgetWarn \<and> snd y = BudgetExceeded"

definition alerts_inv :: "int \<Rightarrow> budget_alerts \<Rightarrow> bool" where
  "alerts_inv day a \<longleftrightarrow> sorted_wrt line_before (ba_log a)
     \<and> (case ba_announced a of None \<Rightarrow> ba_log a = []
        | Some (d, l) \<Rightarrow> d \<le> day \<and> ba_log a \<noteq> [] \<and> last (ba_log a) = (d, l) \<and> (l = BudgetWarn \<or> l = BudgetExceeded))"

lemma announce_inv:
  assumes "alerts_inv day a" and "day \<le> bs_day s"
  shows "alerts_inv (bs_day s) (announce s a)"
proof (cases "ba_announced a")
  case None
  then show ?thesis using assms by (auto simp: alerts_inv_def announce_def)
next
  case (Some p)
  obtain d l where p: "p = (d, l)" by (cases p)
  have i: "sorted_wrt line_before (ba_log a)" "d \<le> day" "ba_log a \<noteq> []" "last (ba_log a) = (d, l)"
    "l = BudgetWarn \<or> l = BudgetExceeded" using assms(1) Some p by (auto simp: alerts_inv_def)
  have ends: "x = (d, l) \<or> line_before x (d, l)" if "x \<in> set (ba_log a)" for x
    using that i(1,3,4) by (cases "ba_log a" rule: rev_cases) (auto simp: sorted_wrt_append)
  show ?thesis
  proof (cases "announce s a = a")
    case True
    then show ?thesis using i assms(2) Some p by (simp add: alerts_inv_def)
  next
    case False
    then have lev: "bs_level s = BudgetWarn \<or> bs_level s = BudgetExceeded"
      and new: "\<not> (d = bs_day s \<and> (l = BudgetExceeded \<or> l = bs_level s))"
      and ann: "announce s a = \<lparr> ba_announced = Some (bs_day s, bs_level s), ba_log = ba_log a @ [(bs_day s, bs_level s)] \<rparr>"
      using Some p by (auto simp: announce_def split: if_splits)
    have "line_before (d, l) (bs_day s, bs_level s)"
      using new lev i(2,5) assms(2) by (auto simp: line_before_def)
    then have "line_before x (bs_day s, bs_level s)" if "x \<in> set (ba_log a)" for x
      using ends [OF that] by (auto simp: line_before_def)
    then show ?thesis using i(1) lev by (simp add: alerts_inv_def ann sorted_wrt_append)
  qed
qed

lemma checks_inv:
  "alerts_inv day a \<Longrightarrow> sorted (map bc_now cs) \<Longrightarrow> \<forall>c \<in> set cs. day \<le> bc_now c div 86400000
    \<Longrightarrow> \<exists>day'. alerts_inv day' (budget_checks usd cs a)"
proof (induction cs arbitrary: day a)
  case (Cons c cs)
  let ?d = "bc_now c div 86400000"
  let ?a = "fst (getCostBudgetStatus usd (bc_dbOk c) (bc_now c) (bc_budgetUsd c) (bc_rows c) a)"
  have mono: "alerts_inv ?d a" using Cons.prems(1,3) by (auto simp: alerts_inv_def split: option.splits)
  have "alerts_inv ?d ?a"
  proof -
    have "alerts_inv ?d (announce (evaluateCostBudget ?d spent (bc_budgetUsd c)) a)" for spent
      using announce_inv [OF mono, of "evaluateCostBudget ?d spent (bc_budgetUsd c)"] by (simp add: evaluateCostBudget_def Let_def)
    then show ?thesis using mono by (simp add: getCostBudgetStatus_def Let_def)
  qed
  moreover have "\<forall>x \<in> set cs. ?d \<le> bc_now x div 86400000" using Cons.prems(2) by (auto intro: zdiv_mono1)
  ultimately show ?case using Cons.IH [of ?d ?a] Cons.prems(2) by (simp add: budget_checks_def)
qed (auto simp: budget_checks_def)

text \<open>
  Each threshold is announced once a day. Whatever is spent, however the budget is set and
  whichever reads fail, over any checks in the order of time the log has at most one warning and at
  most one exhaustion for a day, the warning first.
\<close>

theorem thresholds_announced_once:
  assumes "sorted (map bc_now cs)"
  shows "sorted_wrt line_before (ba_log (budget_checks usd cs \<lparr> ba_announced = None, ba_log = [] \<rparr>))"
proof (cases cs)
  case (Cons c cs')
  have "alerts_inv (bc_now c div 86400000) \<lparr> ba_announced = None, ba_log = [] \<rparr>" by (simp add: alerts_inv_def)
  moreover have "\<forall>x \<in> set cs. bc_now c div 86400000 \<le> bc_now x div 86400000"
    using assms by (auto simp: Cons intro: zdiv_mono1)
  ultimately obtain day where "alerts_inv day (budget_checks usd cs \<lparr> ba_announced = None, ba_log = [] \<rparr>)"
    using checks_inv [OF _ assms] by blast
  then show ?thesis by (simp add: alerts_inv_def)
qed (simp add: budget_checks_def)

text \<open>
  C39. The hard stop. Work is refused only with an enabled budget and a database that answers; then
  always when the day's spend has reached the budget, and never when it falls short of it by more
  than the rounding of one division.
\<close>

theorem daily_budget_hard_stop:
  assumes "0 \<le> getDailySpendUsd usd (now div 86400000) rows"
  shows "((\<exists>a' s. assertDailyCostBudgetAvailable usd dbOk now budgetUsd taskId rows a = (a', Some s))
      \<longrightarrow> 0 < budgetUsd \<and> dbOk \<and> budgetUsd \<le> getDailySpendUsd usd (now div 86400000) rows * (1 + 1 / 2 ^ 53))
    \<and> (0 < budgetUsd \<and> dbOk \<and> budgetUsd \<le> getDailySpendUsd usd (now div 86400000) rows
      \<longrightarrow> (\<exists>a' s. assertDailyCostBudgetAvailable usd dbOk now budgetUsd taskId rows a = (a', Some (taskId, s)) \<and> bs_level s = BudgetExceeded))"
proof -
  let ?s = "getDailySpendUsd usd (now div 86400000) rows"
  have lev: "bs_level (evaluateCostBudget d sp b) = BudgetExceeded \<longleftrightarrow> 0 < b \<and> 1 \<le> fl (sp / b)" for d sp b
    by (auto simp: evaluateCostBudget_def Let_def)
  have one: "fl 1 = 1" using js.whole [of 1] by simp
  have low: "1 \<le> fl (?s / budgetUsd) \<Longrightarrow> 0 < budgetUsd \<Longrightarrow> budgetUsd \<le> ?s * (1 + 1 / 2 ^ 53)"
  proof -
    assume f: "1 \<le> fl (?s / budgetUsd)" and b: "0 < budgetUsd"
    have "fl (?s / budgetUsd) \<le> ?s / budgetUsd + ?s / budgetUsd / 2 ^ 53" using js.upper [of "?s / budgetUsd"] assms b by simp
    with f have "1 \<le> ?s / budgetUsd * (1 + 1 / 2 ^ 53)" by (simp add: field_simps)
    then show ?thesis using b by (simp add: field_simps)
  qed
  have high: "budgetUsd \<le> ?s \<Longrightarrow> 0 < budgetUsd \<Longrightarrow> 1 \<le> fl (?s / budgetUsd)"
    using js.mono [of 1 "?s / budgetUsd"] one by (simp add: field_simps)
  show ?thesis
    using low high by (auto simp: assertDailyCostBudgetAvailable_def getCostBudgetStatus_def Let_def lev split: if_splits)
qed

subsection \<open>Examples\<close>

definition demo_usage :: node_usage where
  "demo_usage = \<lparr> nu_taskId = ''t'', nu_nodeId = ''n'', nu_agentId = ''a'', nu_agentType = ''research'', nu_model = ''m'', nu_calls = 1,
     nu_promptTokens = 10, nu_completionTokens = 5, nu_totalTokens = 15, nu_costUsd = 2, nu_trimmed = False,
     nu_budgetExhausted = False, nu_updatedAt = 7 \<rparr>"

definition demo_entry :: usage_entry where
  "demo_entry = \<lparr> ue_nodeId = ''n'', ue_agentId = ''a'', ue_agentType = ''research'', ue_model = ''m'', ue_calls = 1,
     ue_promptTokens = 3, ue_completionTokens = 4, ue_totalTokens = 7, ue_costUsd = 1, ue_trimmed = False, ue_budgetExhausted = False \<rparr>"

definition demo_ledger :: ledger where
  "demo_ledger = (new_ledger ''t'' \<lparr> lo_walletPublicKey = Some ''w'', lo_maxTokensPerTask = None, lo_maxTokensPerCall = None,
     lo_maxPromptTokens = None \<rparr> 5)\<lparr>ld_usedTokens := 7, ld_costUsd := 1, ld_calls := 1, ld_entries := [(''n'', demo_entry)]\<rparr>"

definition demo_state :: cost_state where
  "demo_state = \<lparr> cx_ledgers = [(''t'', demo_ledger)], cx_tokensSpent = 0, cx_quota = \<lparr> qs_events = [], qs_rejections = [] \<rparr>,
     cx_db = \<lparr> cd_costs = [], cd_usage = [demo_usage] \<rparr> \<rparr>"

text \<open>A node that cost 2 dollars in an earlier attempt is on record with the 1 of the attempt settled last.\<close>

theorem settlement_is_authoritative_witness:
  "\<exists>u. row_by nu_key (''t'', ''n'') (cd_usage (cx_db (fst (settleTaskCost True (\<lambda>_. True) False ''t'' 9 demo_state)))) = Some u
    \<and> nu_costUsd u = 1"
proof -
  obtain s' snap where r: "settleTaskCost True (\<lambda>_. True) False ''t'' 9 demo_state = (s', snap)" by fastforce
  have h: "jm_get (cx_ledgers demo_state) ''t'' = Some demo_ledger" "ld_taskId demo_ledger = ''t''"
    "agents_usage demo_ledger = [demo_entry]" "ue_nodeId demo_entry = ''n''" "ue_costUsd demo_entry = 1"
    by (simp_all add: demo_state_def demo_ledger_def new_ledger_def agents_usage_def demo_entry_def)
  have d: "distinct (map ue_nodeId (agents_usage demo_ledger))" "\<forall>e \<in> set (agents_usage demo_ledger). (\<lambda>_. True) (ue_nodeId e)"
    using h by simp_all
  from settlement_is_authoritative [OF h(1,2) d r] h(3-5) show ?thesis unfolding r by auto
qed

theorem thresholds_announced_once_witness:
  "sorted_wrt line_before (ba_log (budget_checks (\<lambda>xs. sum_list xs)
     [\<lparr> bc_dbOk = True, bc_now = 8, bc_budgetUsd = 2, bc_rows = [demo_usage] \<rparr>,
      \<lparr> bc_dbOk = True, bc_now = 9, bc_budgetUsd = 2, bc_rows = [demo_usage] \<rparr>] \<lparr> ba_announced = None, ba_log = [] \<rparr>))"
  by (rule thresholds_announced_once) simp

lemma demo_spend: "getDailySpendUsd sum_list 0 [demo_usage] = 2"
  by (simp add: getDailySpendUsd_def usage_day_def demo_usage_def) code_simp

theorem daily_budget_hard_stop_witness:
  "\<exists>a' s. assertDailyCostBudgetAvailable sum_list True 8 2 ''t'' [demo_usage] \<lparr> ba_announced = None, ba_log = [] \<rparr> = (a', Some (''t'', s))"
proof -
  have "0 \<le> getDailySpendUsd sum_list (8 div 86400000) [demo_usage]" by (simp add: demo_spend)
  from daily_budget_hard_stop [OF this, of True 2 "''t''" "\<lparr> ba_announced = None, ba_log = [] \<rparr>"]
  show ?thesis by (auto simp: demo_spend)
qed

end
