(* ===== verification/JsonText.thy ===== *)
theory JsonText
  imports JsValue Payments
begin

text \<open>
  JSON as text: \<open>JSON.stringify\<close> of objects of texts and integers, and \<open>JSON.parse\<close>. A text is the list
  of its UTF-8 bytes. The parser follows the grammar of JSON; the recursion on nested values is
  bounded by a depth, and a depth greater than the length of the text is never reached
  (\<open>parse_depth\<close>). A number is read as the nearest double; an escaped surrogate, which is half a
  character, is out of the model and not accepted.
\<close>

subsection \<open>Writing\<close>

definition hex_digit :: "nat \<Rightarrow> char" where
  "hex_digit n = (if n < 10 then char_of (48 + n) else char_of (87 + n))"

definition json_escape :: "char \<Rightarrow> string" where
  "json_escape c = (let n = of_char c :: nat in
     if n = 34 \<or> n = 92 then [CHR 0x5C, c]
     else if n = 8 then [CHR 0x5C, CHR ''b'']
     else if n = 9 then [CHR 0x5C, CHR ''t'']
     else if n = 10 then [CHR 0x5C, CHR ''n'']
     else if n = 12 then [CHR 0x5C, CHR ''f'']
     else if n = 13 then [CHR 0x5C, CHR ''r'']
     else if n < 32 then [CHR 0x5C, CHR ''u'', CHR ''0'', CHR ''0'', hex_digit (n div 16), hex_digit (n mod 16)]
     else [c])"

definition json_string :: "string \<Rightarrow> string" where
  "json_string s = [CHR 0x22] @ concat (map json_escape s) @ [CHR 0x22]"

text \<open>The properties of an object are given with their values already written.\<close>

definition json_object :: "(string \<times> string) list \<Rightarrow> string" where
  "json_object fs = ''{'' @ join_text '','' (map (\<lambda>(k, v). json_string k @ '':'' @ v) fs) @ ''}''"

subsection \<open>Reading\<close>

definition json_space :: "char \<Rightarrow> bool" where
  "json_space c = ((of_char c :: nat) \<in> {9, 10, 13, 32})"

abbreviation skip_space :: "string \<Rightarrow> string" where
  "skip_space \<equiv> dropWhile json_space"

definition hex_value :: "char \<Rightarrow> nat option" where
  "hex_value c = (let n = of_char c in if 48 \<le> n \<and> n \<le> 57 then Some (n - 48)
     else if 65 \<le> n \<and> n \<le> 70 then Some (n - 55) else if 97 \<le> n \<and> n \<le> 102 then Some (n - 87) else None)"

definition utf8 :: "nat \<Rightarrow> string option" where
  "utf8 n = (if n < 128 then Some [char_of n]
     else if n < 2048 then Some [char_of (192 + n div 64), char_of (128 + n mod 64)]
     else if 55296 \<le> n \<and> n < 57344 then None
     else Some [char_of (224 + n div 4096), char_of (128 + n div 64 mod 64), char_of (128 + n mod 64)])"

definition unescape :: "char \<Rightarrow> char option" where
  "unescape c = map_of [(CHR 0x22, CHR 0x22), (CHR 0x5C, CHR 0x5C), (CHR ''/'', CHR ''/''), (CHR ''b'', CHR 0x08),
     (CHR ''f'', CHR 0x0C), (CHR ''n'', CHR 0x0A), (CHR ''r'', CHR 0x0D), (CHR ''t'', CHR 0x09)] c"

definition hex4 :: "char \<Rightarrow> char \<Rightarrow> char \<Rightarrow> char \<Rightarrow> string option" where
  "hex4 a b c d = (case (hex_value a, hex_value b, hex_value c, hex_value d) of
     (Some i, Some j, Some k, Some l) \<Rightarrow> utf8 (((i * 16 + j) * 16 + k) * 16 + l) | _ \<Rightarrow> None)"

text \<open>A string from after its opening quote on, and what follows the closing one.\<close>

fun scan_string :: "string \<Rightarrow> (string \<times> string) option" where
  "scan_string [] = None"
| "scan_string (c # s) =
     (if c = CHR 0x22 then Some ('''', s)
      else if (of_char c :: nat) < 32 then None
      else if c = CHR 0x5C then
        (case s of e # r \<Rightarrow>
           if e = CHR ''u'' then
             (case r of h1 # h2 # h3 # h4 # r' \<Rightarrow>
                (case hex4 h1 h2 h3 h4 of Some u \<Rightarrow> map_option (apfst ((@) u)) (scan_string r') | None \<Rightarrow> None)
              | _ \<Rightarrow> None)
           else (case unescape e of Some u \<Rightarrow> map_option (apfst ((#) u)) (scan_string r) | None \<Rightarrow> None)
         | [] \<Rightarrow> None)
      else map_option (apfst ((#) c)) (scan_string s))"

definition scan_digits :: "string \<Rightarrow> string \<times> string" where
  "scan_digits s = (takeWhile is_digit s, dropWhile is_digit s)"

text \<open>The whole part of a number has no leading zero; fraction and exponent are optional.\<close>

definition scan_fraction :: "string \<Rightarrow> (rat \<times> string) option" where
  "scan_fraction s = (case s of c # r \<Rightarrow>
       if c = CHR ''.'' then (let (ds, r') = scan_digits r in
         if ds = '''' then None else Some (of_int (digits_value ds) / 10 ^ length ds, r'))
       else Some (0, s)
     | [] \<Rightarrow> Some (0, s))"

definition scan_exponent :: "string \<Rightarrow> (rat \<times> string) option" where
  "scan_exponent s = (case s of c # r \<Rightarrow>
       if c = CHR ''e'' \<or> c = CHR ''E'' then
         (let (sign, r1) = (case r of x # y \<Rightarrow> if x = CHR ''-'' \<or> x = CHR ''+'' then (x = CHR ''-'', y) else (False, r) | [] \<Rightarrow> (False, r));
              (ds, r2) = scan_digits r1; n = nat (digits_value ds)
          in if ds = '''' then None else Some (if sign then 1 / 10 ^ n else 10 ^ n, r2))
       else Some (1, s)
     | [] \<Rightarrow> Some (1, s))"

definition scan_number :: "string \<Rightarrow> (rat \<times> string) option" where
  "scan_number s =
     (let (neg, s1) = (case s of c # r \<Rightarrow> if c = CHR ''-'' then (True, r) else (False, s) | [] \<Rightarrow> (False, s));
          (ds, s2) = scan_digits s1
      in if ds = '''' \<or> 1 < length ds \<and> hd ds = CHR ''0'' then None
         else (case scan_fraction s2 of None \<Rightarrow> None
           | Some (f, s3) \<Rightarrow> (case scan_exponent s3 of None \<Rightarrow> None
               | Some (e, s4) \<Rightarrow> Some (fl ((if neg then -1 else 1) * (of_int (digits_value ds) + f) * e), s4))))"

definition scan_word :: "string \<Rightarrow> js_val \<Rightarrow> string \<Rightarrow> (js_val \<times> string) option" where
  "scan_word w v s = (if prefix w s then Some (v, drop (length w) s) else None)"

text \<open>
  A value, the elements of an array and the members of an object, each from its first character on.
  Of equal keys the last value counts, in the place of the first.
\<close>

fun parse_value :: "nat \<Rightarrow> string \<Rightarrow> (js_val \<times> string) option"
  and parse_elements :: "nat \<Rightarrow> js_val list \<Rightarrow> string \<Rightarrow> (js_val \<times> string) option"
  and parse_members :: "nat \<Rightarrow> (string, js_val) jsmap \<Rightarrow> string \<Rightarrow> (js_val \<times> string) option" where
  "parse_value 0 s = None"
| "parse_value (Suc n) s = (case skip_space s of
      [] \<Rightarrow> None
    | c # r \<Rightarrow>
        if c = CHR 0x22 then map_option (apfst JStr) (scan_string r)
        else if c = CHR ''{'' then
          (case skip_space r of x # r' \<Rightarrow> if x = CHR ''}'' then Some (JObj [], r') else parse_members n [] r | [] \<Rightarrow> None)
        else if c = CHR ''['' then
          (case skip_space r of x # r' \<Rightarrow> if x = CHR '']'' then Some (JArr [], r') else parse_elements n [] r | [] \<Rightarrow> None)
        else if c = CHR ''t'' then scan_word ''true'' (JBool True) (c # r)
        else if c = CHR ''f'' then scan_word ''false'' (JBool False) (c # r)
        else if c = CHR ''n'' then scan_word ''null'' JNull (c # r)
        else map_option (apfst JNum) (scan_number (c # r)))"
| "parse_elements 0 vs s = None"
| "parse_elements (Suc n) vs s = (case parse_value n s of None \<Rightarrow> None
    | Some (v, r) \<Rightarrow> (case skip_space r of
        x # r' \<Rightarrow> if x = CHR '']'' then Some (JArr (vs @ [v]), r')
                  else if x = CHR '','' then parse_elements n (vs @ [v]) r' else None
      | [] \<Rightarrow> None))"
| "parse_members 0 fs s = None"
| "parse_members (Suc n) fs s = (case skip_space s of
      q # r \<Rightarrow> if q = CHR 0x22 then
        (case scan_string r of None \<Rightarrow> None
         | Some (k, r1) \<Rightarrow> (case skip_space r1 of
             x # r2 \<Rightarrow> if x = CHR '':'' then
               (case parse_value n r2 of None \<Rightarrow> None
                | Some (v, r3) \<Rightarrow> (case skip_space r3 of
                    y # r4 \<Rightarrow> if y = CHR ''}'' then Some (JObj (jm_set fs k v), r4)
                              else if y = CHR '','' then parse_members n (jm_set fs k v) r4 else None
                  | [] \<Rightarrow> None))
               else None
           | [] \<Rightarrow> None))
        else None
    | [] \<Rightarrow> None)"

definition json_parse :: "string \<Rightarrow> js_val option" where
  "json_parse s = (case parse_value (2 * length s + 1) s of
     Some (v, r) \<Rightarrow> if skip_space r = '''' then Some v else None | None \<Rightarrow> None)"

subsection \<open>The bound on the depth is never reached\<close>

lemma skip_space_length: "length (skip_space s) \<le> length s"
  by (rule length_dropWhile_le)

lemma skip_space_Cons: "skip_space s = c # r \<Longrightarrow> length r < length s"
  using skip_space_length [of s] by simp

lemma scan_string_length: "scan_string s = Some (v, r) \<Longrightarrow> length r < length s"
  by (induction s arbitrary: v rule: scan_string.induct)
    (auto split: if_splits list.splits option.splits, fastforce+)

lemma scan_digits_length: "scan_digits s = (ds, r) \<Longrightarrow> length s = length ds + length r"
  unfolding scan_digits_def by (auto simp flip: length_append)

lemma scan_fraction_length: "scan_fraction s = Some (f, r) \<Longrightarrow> length r \<le> length s"
  unfolding scan_fraction_def
  by (auto split: list.splits if_splits prod.splits dest!: scan_digits_length)

lemma scan_exponent_length: "scan_exponent s = Some (f, r) \<Longrightarrow> length r \<le> length s"
  unfolding scan_exponent_def Let_def
  by (auto split: list.splits if_splits prod.splits dest!: scan_digits_length)

lemma scan_number_length:
  assumes "scan_number s = Some (x, r)"
  shows "length r < length s"
proof -
  obtain neg s1 where s1: "(case s of c # r \<Rightarrow> if c = CHR ''-'' then (True, r) else (False, s) | [] \<Rightarrow> (False, s)) = (neg, s1)"
    by fastforce
  obtain ds s2 where s2: "scan_digits s1 = (ds, s2)" by fastforce
  have "length s1 \<le> length s" using s1 by (auto split: list.splits if_splits)
  moreover have "ds \<noteq> []" "length r \<le> length s2"
    using assms unfolding scan_number_def s1
    by (auto simp: s2 split: if_splits option.splits dest!: scan_fraction_length scan_exponent_length)
  ultimately show ?thesis using scan_digits_length [OF s2] by (cases ds) auto
qed

lemma scan_word_length: "scan_word w v s = Some (x, r) \<Longrightarrow> w \<noteq> '''' \<Longrightarrow> length r < length s"
  by (auto simp: scan_word_def prefix_def split: if_splits)

lemmas scan_lengths = scan_string_length scan_number_length scan_word_length skip_space_Cons

lemma parse_shorter:
  "parse_value n s = Some (v, r) \<Longrightarrow> length r < length s"
  "parse_elements n vs s = Some (v, r) \<Longrightarrow> length r < length s"
  "parse_members n fs s = Some (v, r) \<Longrightarrow> length r < length s"
proof (induction n s and n vs s and n fs s arbitrary: v r and v r and v r
    rule: parse_value_parse_elements_parse_members.induct)
  case (2 n s)
  show ?case
  proof (cases "skip_space s")
    case (Cons c r0)
    then have l: "length r0 < length s" by (rule skip_space_Cons)
    show ?thesis using 2 Cons l skip_space_length [of r0]
      by (fastforce split: if_splits list.splits dest: scan_lengths)
  qed (use 2 in \<open>simp del: dropWhile_eq_Nil_conv\<close>)
next
  case (4 n vs s)
  then show ?case by (fastforce split: option.splits list.splits if_splits dest: skip_space_Cons)
next
  case (6 n fs s)
  then show ?case by (fastforce split: option.splits list.splits if_splits dest: scan_lengths)
qed simp_all

lemma parse_depth:
  "2 * length s + 1 \<le> n \<Longrightarrow> n \<le> m \<Longrightarrow> parse_value m s = parse_value n s"
  "2 * length s + 2 \<le> n \<Longrightarrow> n \<le> m \<Longrightarrow> parse_elements m vs s = parse_elements n vs s"
  "2 * length s + 2 \<le> n \<Longrightarrow> n \<le> m \<Longrightarrow> parse_members m fs s = parse_members n fs s"
proof (induction n s and n vs s and n fs s arbitrary: m and m and m
    rule: parse_value_parse_elements_parse_members.induct)
  case (2 n s)
  from 2(4) obtain k where m: "m = Suc k" "n \<le> k" by (cases m) auto
  show ?case
  proof (cases "skip_space s")
    case (Cons c r)
    then have l: "2 * length r + 2 \<le> n" using 2(3) skip_space_Cons [OF Cons] by simp
    have a: "parse_members k [] r = parse_members n [] r" if "c = CHR ''{''" "skip_space r = x # r'" "x \<noteq> CHR ''}''" for x r'
      by (rule 2(1) [OF Cons _ that l m(2)]) (simp add: that(1))
    have b: "parse_elements k [] r = parse_elements n [] r" if "c = CHR ''[''" "skip_space r = x # r'" "x \<noteq> CHR '']''" for x r'
      by (rule 2(2) [OF Cons _ _ that l m(2)]) (simp_all add: that(1))
    show ?thesis
      by (cases "skip_space r") (simp_all add: Cons m(1) a b del: dropWhile_eq_Nil_conv)
  qed (simp add: m del: dropWhile_eq_Nil_conv)
next
  case (4 n vs s)
  from 4(4) obtain k where m: "m = Suc k" "n \<le> k" by (cases m) auto
  have v: "parse_value k s = parse_value n s" by (rule 4(1)) (use 4(3) m in simp_all)
  have r: "parse_elements k vs' r' = parse_elements n vs' r'"
    if "parse_value n s = Some (x, r)" "skip_space r = CHR '','' # r'" "vs' = vs @ [x]" for x r r' vs'
    unfolding that(3)
    by (rule 4(2) [OF that(1) refl that(2)]) (use 4(3) m skip_space_Cons [OF that(2)] parse_shorter(1) [OF that(1)] in simp_all)
  show ?case using r by (auto simp: m(1) v simp del: dropWhile_eq_Nil_conv split: option.splits list.splits)
next
  case (6 n fs s)
  from 6(4) obtain k where m: "m = Suc k" "n \<le> k" by (cases m) auto
  have v: "parse_value k r2 = parse_value n r2"
    if "skip_space s = CHR 0x22 # r" "scan_string r = Some (key, r1)" "skip_space r1 = CHR '':'' # r2" for r key r1 r2
    by (rule 6(1) [OF that(1) refl that(2) refl that(3) refl])
      (use 6(3) m skip_space_Cons [OF that(1)] scan_string_length [OF that(2)] skip_space_Cons [OF that(3)] in simp_all)
  have f: "parse_members k fs' r4 = parse_members n fs' r4"
    if "skip_space s = CHR 0x22 # r" "scan_string r = Some (key, r1)" "skip_space r1 = CHR '':'' # r2"
      "parse_value n r2 = Some (v, r3)" "skip_space r3 = CHR '','' # r4" "fs' = jm_set fs key v" for r key r1 r2 v r3 r4 fs'
    unfolding that(6)
    by (rule 6(2) [OF that(1) refl that(2) refl that(3) refl that(4) refl that(5)])
      (use 6(3) m skip_space_Cons [OF that(1)] scan_string_length [OF that(2)] skip_space_Cons [OF that(3)]
         parse_shorter(1) [OF that(4)] skip_space_Cons [OF that(5)] in simp_all)
  show ?case using v f by (auto simp: m(1) simp del: dropWhile_eq_Nil_conv split: option.splits list.splits)
qed simp_all

text \<open>Any depth from the one \<open>json_parse\<close> starts with on gives its result.\<close>

lemma json_parse_depth:
  "2 * length s + 1 \<le> n \<Longrightarrow> parse_value n s = Some (v, r) \<Longrightarrow> skip_space r = '''' \<Longrightarrow> json_parse s = Some v"
  unfolding json_parse_def by (subst (asm) parse_depth(1) [of s "2 * length s + 1"]) simp_all

subsection \<open>What was written is read back\<close>

lemma char_code: "c = d \<longleftrightarrow> (of_char c :: nat) = of_char d"
  by simp

lemma hex_roundtrip: "k < 16 \<Longrightarrow> hex_value (hex_digit k) = Some k"
  by (auto simp: hex_value_def hex_digit_def)

lemma control_hex:
  assumes "n < 32"
  shows "hex4 CHR ''0'' CHR ''0'' (hex_digit (n div 16)) (hex_digit (n mod 16)) = Some [char_of n]"
proof -
  have "n div 16 < 16" "n mod 16 < 16" using assms by auto
  moreover have "hex_value CHR ''0'' = Some 0" by (simp add: hex_value_def)
  ultimately show ?thesis using assms by (simp add: hex4_def hex_roundtrip utf8_def)
qed

lemma scan_escape: "scan_string (json_escape c @ s) = map_option (apfst ((#) c)) (scan_string s)"
proof -
  define n :: nat where "n = of_char c"
  have c: "c = char_of n" by (simp add: n_def)
  consider "n = 34 \<or> n = 92 \<or> n = 8 \<or> n = 9 \<or> n = 10 \<or> n = 12 \<or> n = 13"
    | "n < 32" "n \<notin> {8, 9, 10, 12, 13}" | "32 \<le> n" "n \<noteq> 34" "n \<noteq> 92"
    by force
  then show ?thesis
  proof cases
    case 1
    then have "c = CHR 0x22 \<or> c = CHR 0x5C \<or> c = CHR 0x08 \<or> c = CHR 0x09 \<or> c = CHR 0x0A \<or> c = CHR 0x0C \<or> c = CHR 0x0D"
      unfolding char_code n_def by simp
    then show ?thesis by (elim disjE) (simp_all add: json_escape_def unescape_def)
  next
    case 2
    then have e: "json_escape c = [CHR 0x5C, CHR ''u'', CHR ''0'', CHR ''0'', hex_digit (n div 16), hex_digit (n mod 16)]"
      unfolding json_escape_def n_def [symmetric] Let_def by simp
    have "(@) [c] = (#) c" by auto
    then show ?thesis unfolding e using control_hex [OF 2(1)] by (simp flip: c)
  next
    case 3
    then have e: "json_escape c = [c]" unfolding json_escape_def n_def [symmetric] Let_def by simp
    have "c \<noteq> CHR 0x22" "c \<noteq> CHR 0x5C" using 3 unfolding char_code n_def by simp_all
    then show ?thesis using 3 by (simp add: e flip: n_def)
  qed
qed

lemma scan_written: "scan_string (concat (map json_escape s) @ CHR 0x22 # r) = Some (s, r)"
  by (induction s) (simp_all add: scan_escape)

text \<open>A text is read as a value if whatever may follow it in an object or at the end is left over.\<close>

definition reads_as :: "string \<Rightarrow> js_val \<Rightarrow> bool" where
  "reads_as w v \<longleftrightarrow> (\<forall>n r. r = '''' \<or> hd r = CHR '','' \<or> hd r = CHR ''}'' \<longrightarrow> parse_value (Suc n) (w @ r) = Some (v, r))"

lemma string_reads: "reads_as (json_string s) (JStr s)"
  unfolding reads_as_def json_string_def by (simp add: scan_written json_space_def)

lemma digits_end:
  assumes "list_all is_digit ds" and "r = '''' \<or> \<not> is_digit (hd r)"
  shows "scan_digits (ds @ r) = (ds, r)"
proof -
  have "takeWhile is_digit r = []" "dropWhile is_digit r = r" using assms(2) by (cases r; simp)+
  then show ?thesis using assms(1)
    by (simp add: scan_digits_def list_all_iff takeWhile_append2 dropWhile_append2)
qed

lemma nat_text_no_zero: "0 < n \<Longrightarrow> hd (nat_text n) \<noteq> CHR ''0''"
proof (induction n rule: nat_text.induct)
  case (1 n)
  show ?case
  proof (cases "n < 10")
    case True
    then show ?thesis unfolding char_code using 1(2) by (subst nat_text.simps) simp
  next
    case False
    then have "hd (nat_text (n div 10)) \<noteq> CHR ''0''" using 1 by simp
    moreover have "nat_text (n div 10) \<noteq> ''''" using nat_text_digits by blast
    ultimately show ?thesis using False by (subst nat_text.simps) simp
  qed
qed

lemma scan_whole:
  assumes "r = '''' \<or> hd r = CHR '','' \<or> hd r = CHR ''}''" and "n \<le> 2 ^ 53"
  shows "scan_number (nat_text n @ r) = Some (of_nat n, r)"
    and "scan_number (CHR ''-'' # nat_text n @ r) = Some (- of_nat n, r)"
proof -
  have d: "nat_text n \<noteq> ''''" "list_all is_digit (nat_text n)" "digits_value (nat_text n) = int n"
    using nat_text_digits by blast+
  have e: "r = '''' \<or> \<not> is_digit (hd r)" using assms(1) by (auto simp: is_digit_def)
  have s: "scan_digits (nat_text n @ r) = (nat_text n, r)" by (rule digits_end [OF d(2) e])
  have f: "scan_fraction r = Some (0, r)" "scan_exponent r = Some (1, r)"
    using assms(1) by (auto simp: scan_fraction_def scan_exponent_def split: list.split)
  have z: "\<not> (1 < length (nat_text n) \<and> hd (nat_text n) = CHR ''0'')"
  proof (cases "n = 0")
    case True
    then show ?thesis by (subst (1) nat_text.simps) simp
  next
    case False
    then show ?thesis using nat_text_no_zero by blast
  qed
  have h: "hd (nat_text n) \<noteq> CHR ''-''" using d(1,2) by (cases "nat_text n") (auto simp: is_digit_def)
  then obtain c t where t: "nat_text n = c # t" "c \<noteq> CHR ''-''" using d(1) by (cases "nat_text n") auto
  have w: "fl (of_nat n) = of_nat n" using js.whole [of "int n"] assms(2) by simp
  show "scan_number (nat_text n @ r) = Some (of_nat n, r)"
    using s z t w d(3) by (simp add: scan_number_def f)
  show "scan_number (CHR ''-'' # nat_text n @ r) = Some (- of_nat n, r)"
    using s z t w d(3) by (simp add: scan_number_def f fl_minus)
qed

lemma int_reads:
  assumes "\<bar>i\<bar> \<le> 2 ^ 53"
  shows "reads_as (int_text i) (JNum (of_int i))"
  unfolding reads_as_def
proof (intro allI impI)
  fix n r
  assume r: "r = '''' \<or> hd r = CHR '','' \<or> hd r = CHR ''}''"
  define m where "m = nat \<bar>i\<bar>"
  have m: "m \<le> 2 ^ 53" using assms by (simp add: m_def nat_le_iff)
  have d: "nat_text m \<noteq> ''''" "list_all is_digit (nat_text m)" using nat_text_digits by blast+
  then obtain c t where t: "nat_text m = c # t" and c: "is_digit c" by (cases "nat_text m") auto
  have k: "\<not> json_space c" "c \<noteq> CHR 0x22" "c \<noteq> CHR ''{''" "c \<noteq> CHR ''[''" "c \<noteq> CHR ''t''" "c \<noteq> CHR ''f''" "c \<noteq> CHR ''n''"
    using c by (auto simp: is_digit_def json_space_def Let_def)
  show "parse_value (Suc n) (int_text i @ r) = Some (JNum (of_int i), r)"
  proof (cases "i < 0")
    case True
    then have "int_text i = CHR ''-'' # nat_text m" "(of_int i :: rat) = - of_nat m"
      by (simp_all add: int_text_def m_def)
    then show ?thesis using scan_whole(2) [OF r m] by (simp add: json_space_def)
  next
    case False
    then have "int_text i = nat_text m" "(of_int i :: rat) = of_nat m" by (simp_all add: int_text_def m_def)
    then show ?thesis using scan_whole(1) [OF r m] k by (simp add: t)
  qed
qed

lemma jm_set_new: "k \<notin> fst ` set m \<Longrightarrow> jm_set m k v = m @ [(k, v)]"
  by (induction m) auto

lemma member_read:
  assumes "reads_as w v" and "y = CHR '','' \<or> y = CHR ''}''"
  shows "parse_members (Suc (Suc m)) ds (json_string k @ '':'' @ w @ y # r)
    = (if y = CHR ''}'' then Some (JObj (jm_set ds k v), r) else parse_members (Suc m) (jm_set ds k v) r)"
proof -
  have w: "parse_value (Suc m) (w @ y # r) = Some (v, y # r)" using assms by (auto simp: reads_as_def)
  have y: "skip_space (y # r) = y # r" using assms(2) by (auto simp: json_space_def)
  have q: "skip_space (CHR 0x22 # x) = CHR 0x22 # x" "skip_space (CHR '':'' # x) = CHR '':'' # x" for x
    by (simp_all add: json_space_def)
  show ?thesis unfolding parse_members.simps json_string_def
    using assms(2) by (auto simp: q y w scan_written simp del: dropWhile.simps parse_value.simps)
qed

lemma members_read:
  assumes "\<forall>(k, w, v) \<in> set fs. reads_as w v" and "fs \<noteq> []" and "length fs < n"
    and "distinct (map fst ds @ map fst fs)"
  shows "parse_members n ds (join_text '','' (map (\<lambda>(k, w, v). json_string k @ '':'' @ w) fs) @ ''}'' @ r)
    = Some (JObj (ds @ map (\<lambda>(k, w, v). (k, v)) fs), r)"
  using assms
proof (induction fs arbitrary: ds n)
  case (Cons f fs)
  obtain k w v where f: "f = (k, w, v)" by (cases f)
  obtain m where n: "n = Suc (Suc m)" "length fs < Suc m" using Cons.prems(3) by (cases n; cases "n - 1") auto
  have w: "reads_as w v" using Cons.prems(1) by (simp add: f)
  have k: "jm_set ds k v = ds @ [(k, v)]" using Cons.prems(4) by (intro jm_set_new) (auto simp: f image_iff)
  show ?case
  proof (cases fs)
    case Nil
    show ?thesis using member_read [OF w, of "CHR ''}''" m ds k r] by (simp add: Nil f n(1) k)
  next
    case (Cons g gs)
    have ih: "parse_members (Suc m) (ds @ [(k, v)]) (join_text '','' (map (\<lambda>(k, w, v). json_string k @ '':'' @ w) fs) @ ''}'' @ r)
      = Some (JObj ((ds @ [(k, v)]) @ map (\<lambda>(k, w, v). (k, v)) fs), r)"
      using Cons.prems n by (intro Cons.IH) (auto simp: f Cons)
    obtain k' w' v' where g: "g = (k', w', v')" by (cases g)
    have j: "join_text '','' (map (\<lambda>(k, w, v). json_string k @ '':'' @ w) (f # fs))
      = json_string k @ '':'' @ w @ CHR '','' # join_text '','' (map (\<lambda>(k, w, v). json_string k @ '':'' @ w) fs)"
      by (simp add: f Cons)
    show ?thesis unfolding j n(1)
      using member_read [OF w, of "CHR '',''" m ds k] ih by (simp add: k f del: parse_members.simps)
  qed
qed simp

text \<open>An object of such values, with distinct keys, is read back as it was.\<close>

lemma json_object_read:
  assumes "\<forall>(k, w, v) \<in> set fs. reads_as w v" and "distinct (map fst fs)"
  shows "json_parse (json_object (map (\<lambda>(k, w, v). (k, w)) fs)) = Some (JObj (map (\<lambda>(k, w, v). (k, v)) fs))"
proof (cases fs)
  case Nil
  show ?thesis by (simp add: Nil json_parse_def json_object_def json_space_def eval_nat_numeral)
next
  case (Cons f gs)
  let ?body = "join_text '','' (map (\<lambda>(k, w, v). json_string k @ '':'' @ w) fs)"
  let ?n = "2 * length (CHR ''{'' # ?body @ ''}'') + length fs + 2"
  have e: "json_object (map (\<lambda>(k, w, v). (k, w)) fs) = CHR ''{'' # ?body @ ''}''"
    by (simp add: json_object_def comp_def case_prod_unfold)
  have m: "parse_members (?n - 1) [] (?body @ ''}'') = Some (JObj (map (\<lambda>(k, w, v). (k, v)) fs), '''')"
    using members_read [OF assms(1), of "?n - 1" "[]" "''''"] assms(2) by (simp add: Cons)
  obtain b where b: "?body @ ''}'' = CHR 0x22 # b" by (cases f; cases gs) (auto simp: Cons json_string_def)
  have "parse_value ?n (CHR ''{'' # ?body @ ''}'') = Some (JObj (map (\<lambda>(k, w, v). (k, v)) fs), '''')"
    using m unfolding b by (simp add: json_space_def)
  then have "json_parse (CHR ''{'' # ?body @ ''}'') = Some (JObj (map (\<lambda>(k, w, v). (k, v)) fs))"
    by (rule json_parse_depth [rotated]) simp_all
  then show ?thesis unfolding e .
qed

end
