(* ===== verification/AuthTokens.thy ===== *)
theory AuthTokens
  imports JsonText
begin

text \<open>
  \<open>services/auth/tokenService.ts\<close>: base64url, the signed access tokens and the settings of the
  service. A text is the list of its bytes; the keyed hash \<open>hmac\<close> (secret, data) is an argument, and
  so are the random parts of a token.
\<close>

subsection \<open>base64url\<close>

text \<open>\<open>Buffer.toString("base64")\<close>: three bytes become four characters, the rest is padded.\<close>

definition sextet_char :: "nat \<Rightarrow> char" where
  "sextet_char i = char_of (if i < 26 then 65 + i else if i < 52 then 71 + i else if i < 62 then i - 4
     else if i = 62 then 43 else 47)"

abbreviation byte :: "char \<Rightarrow> nat" where "byte c \<equiv> of_char c"

fun base64 :: "string \<Rightarrow> string" where
  "base64 [] = []"
| "base64 [a] = [sextet_char (byte a div 4), sextet_char (byte a mod 4 * 16), CHR ''='', CHR ''='']"
| "base64 [a, b] = [sextet_char (byte a div 4), sextet_char (byte a mod 4 * 16 + byte b div 16),
     sextet_char (byte b mod 16 * 4), CHR ''='']"
| "base64 (a # b # c # r) = sextet_char (byte a div 4) # sextet_char (byte a mod 4 * 16 + byte b div 16)
     # sextet_char (byte b mod 16 * 4 + byte c div 64) # sextet_char (byte c mod 64) # base64 r"

definition base64UrlEncode :: "string \<Rightarrow> string" where
  "base64UrlEncode s = map (\<lambda>c. if c = CHR ''+'' then CHR ''-'' else if c = CHR ''/'' then CHR ''_'' else c)
     (filter (\<lambda>c. c \<noteq> CHR ''='') (base64 s))"

text \<open>
  \<open>Buffer.from(s, "base64")\<close> stops at the padding, skips characters outside the alphabet and accepts
  that of base64url as well.
\<close>

definition char_sextet :: "char \<Rightarrow> nat option" where
  "char_sextet c = (let n = byte c in
     if 65 \<le> n \<and> n \<le> 90 then Some (n - 65) else if 97 \<le> n \<and> n \<le> 122 then Some (n - 71)
     else if 48 \<le> n \<and> n \<le> 57 then Some (n + 4) else if n = 43 \<or> n = 45 then Some 62
     else if n = 47 \<or> n = 95 then Some 63 else None)"

fun sextets_bytes :: "nat list \<Rightarrow> string" where
  "sextets_bytes (w # x # y # z # r) = char_of (w * 4 + x div 16) # char_of (x mod 16 * 16 + y div 4)
     # char_of (y mod 4 * 64 + z) # sextets_bytes r"
| "sextets_bytes [w, x, y] = [char_of (w * 4 + x div 16), char_of (x mod 16 * 16 + y div 4)]"
| "sextets_bytes [w, x] = [char_of (w * 4 + x div 16)]"
| "sextets_bytes _ = []"

definition base64_bytes :: "string \<Rightarrow> string" where
  "base64_bytes s = sextets_bytes (List.map_filter char_sextet (takeWhile (\<lambda>c. c \<noteq> CHR ''='') s))"

text \<open>The loop appends padding until the length is a multiple of four, at most three times.\<close>

definition pad_base64 :: "string \<Rightarrow> string" where
  "pad_base64 s = s @ replicate ((4 - length s mod 4) mod 4) CHR ''=''"

definition base64UrlDecode :: "string \<Rightarrow> string" where
  "base64UrlDecode s = base64_bytes (pad_base64
     (map (\<lambda>c. if c = CHR ''-'' then CHR ''+'' else if c = CHR ''_'' then CHR ''/'' else c) s))"

subsection \<open>Access tokens\<close>

record access_payload =
  ap_sub :: string
  ap_sessionId :: string
  ap_familyId :: string
  ap_deviceId :: string
  ap_iat :: int
  ap_exp :: int
  ap_jti :: string

record token_service =
  ts_jwtSecret :: string
  ts_accessTtlSeconds :: int
  ts_refreshTtlSeconds :: int
  ts_sessionMaxTtlSeconds :: int

definition token_header :: string where
  "token_header = json_object [(''alg'', json_string ''HS256''), (''typ'', json_string ''JWT'')]"

definition payload_text :: "access_payload \<Rightarrow> string" where
  "payload_text p = json_object [(''sub'', json_string (ap_sub p)), (''sessionId'', json_string (ap_sessionId p)),
     (''familyId'', json_string (ap_familyId p)), (''deviceId'', json_string (ap_deviceId p)),
     (''iat'', int_text (ap_iat p)), (''exp'', int_text (ap_exp p)), (''jti'', json_string (ap_jti p))]"

definition sign_payload :: "(string \<Rightarrow> string \<Rightarrow> string) \<Rightarrow> token_service \<Rightarrow> access_payload \<Rightarrow> string" where
  "sign_payload hmac s p = (let dataToSign = base64UrlEncode token_header @ ''.'' @ base64UrlEncode (payload_text p)
     in dataToSign @ ''.'' @ base64UrlEncode (hmac (ts_jwtSecret s) dataToSign))"

definition new_payload :: "token_service \<Rightarrow> ms \<Rightarrow> string \<Rightarrow> string \<Rightarrow> string \<Rightarrow> string \<Rightarrow> string \<Rightarrow> access_payload" where
  "new_payload s now jti wallet sessionId familyId deviceId = (let t = now div 1000
     in \<lparr> ap_sub = wallet, ap_sessionId = sessionId, ap_familyId = familyId, ap_deviceId = deviceId,
          ap_iat = t, ap_exp = t + ts_accessTtlSeconds s, ap_jti = jti \<rparr>)"

definition generateAccessToken :: "(string \<Rightarrow> string \<Rightarrow> string) \<Rightarrow> token_service \<Rightarrow> ms \<Rightarrow> string \<Rightarrow> string \<Rightarrow> string
    \<Rightarrow> string \<Rightarrow> string \<Rightarrow> string \<times> int" where
  "generateAccessToken hmac s now jti wallet sessionId familyId deviceId =
     (sign_payload hmac s (new_payload s now jti wallet sessionId familyId deviceId), ts_accessTtlSeconds s)"

fun split_text :: "char \<Rightarrow> string \<Rightarrow> string list" where
  "split_text d [] = [[]]"
| "split_text d (c # s) = (if c = d then [] # split_text d s else (case split_text d s of p # ps \<Rightarrow> (c # p) # ps | [] \<Rightarrow> [[c]]))"

text \<open>
  The payload is cast, not checked. A payload of another shape, which only a holder of the secret can
  sign, is answered with \<open>TokenShape\<close>: what the code does with it then is out of the model.
\<close>

datatype token_error = TokenFormat | TokenSignature | TokenMalformed | TokenExpired | TokenTypeError | TokenShape

definition payload_of :: "js_val \<Rightarrow> access_payload option" where
  "payload_of v = (case v of JObj fs \<Rightarrow>
       (case map (map_of fs) [''sub'', ''sessionId'', ''familyId'', ''deviceId'', ''iat'', ''exp'', ''jti''] of
          [Some (JStr a), Some (JStr b), Some (JStr c), Some (JStr d), Some (JNum i), Some (JNum e), Some (JStr j)] \<Rightarrow>
            (if i \<in> \<int> \<and> e \<in> \<int> then Some \<lparr> ap_sub = a, ap_sessionId = b, ap_familyId = c, ap_deviceId = d,
               ap_iat = \<lfloor>i\<rfloor>, ap_exp = \<lfloor>e\<rfloor>, ap_jti = j \<rparr> else None)
        | _ \<Rightarrow> None)
     | _ \<Rightarrow> None)"

definition verifyAccessToken :: "(string \<Rightarrow> string \<Rightarrow> string) \<Rightarrow> token_service \<Rightarrow> ms \<Rightarrow> string \<Rightarrow> token_error + access_payload" where
  "verifyAccessToken hmac s now token =
     (case split_text CHR ''.'' token of
        [encodedHeader, encodedPayload, encodedSignature] \<Rightarrow>
          (let dataToSign = encodedHeader @ ''.'' @ encodedPayload
           in if encodedSignature \<noteq> base64UrlEncode (hmac (ts_jwtSecret s) dataToSign) then Inl TokenSignature
              else (case json_parse (base64UrlDecode encodedPayload) of
                  None \<Rightarrow> Inl TokenMalformed
                | Some v \<Rightarrow> (case js_field (Some v) ''exp'' of
                      None \<Rightarrow> Inl TokenTypeError
                    | Some (Some (JNum e)) \<Rightarrow>
                        if e \<noteq> 0 \<and> e < of_int (now div 1000) then Inl TokenExpired
                        else (case payload_of v of Some p \<Rightarrow> Inr p | None \<Rightarrow> Inl TokenShape)
                    | Some _ \<Rightarrow> Inl TokenShape)))
      | _ \<Rightarrow> Inl TokenFormat)"

text \<open>A refresh token from its random parts.\<close>

definition generateRefreshToken :: "string \<Rightarrow> string \<Rightarrow> string" where
  "generateRefreshToken uuid hex = ''rt_'' @ uuid @ ''_'' @ hex"

subsection \<open>base64url is reversible\<close>

fun sextets :: "string \<Rightarrow> nat list" where
  "sextets [] = []"
| "sextets [a] = [byte a div 4, byte a mod 4 * 16]"
| "sextets [a, b] = [byte a div 4, byte a mod 4 * 16 + byte b div 16, byte b mod 16 * 4]"
| "sextets (a # b # c # r) = [byte a div 4, byte a mod 4 * 16 + byte b div 16,
     byte b mod 16 * 4 + byte c div 64, byte c mod 64] @ sextets r"

lemma byte_less: "byte c < 256"
  by (metis mod_less_divisor of_char_mod_256 zero_less_numeral)

lemma byte_parts [simp]: "byte c div 4 < 64" "byte c div 16 < 16" "byte c div 64 < 4"
  using byte_less [of c] by (simp_all add: less_mult_imp_div_less)

lemma pack_less: "(x::nat) < m \<Longrightarrow> y < n \<Longrightarrow> x * n + y < m * n"
proof -
  assume "x < m" "y < n"
  then have "x * n + y < x * n + n" "(x + 1) * n \<le> m * n" by (simp, intro mult_right_mono) simp_all
  then show ?thesis by simp
qed

lemma byte_packed [simp]: "byte a mod 4 * 16 < 64" "byte a mod 4 * 16 + byte b div 16 < 64"
    "byte b mod 16 * 4 < 64" "byte b mod 16 * 4 + byte c div 64 < 64"
  using pack_less [of "byte a mod 4" 4 0 16] pack_less [of "byte a mod 4" 4 "byte b div 16" 16]
    pack_less [of "byte b mod 16" 16 0 4] pack_less [of "byte b mod 16" 16 "byte c div 64" 4] by simp_all

lemma sextets_small: "x \<in> set (sextets s) \<Longrightarrow> x < 64"
  by (induction s rule: sextets.induct) auto

lemma char_sextet_inverse: "i < 64 \<Longrightarrow> char_sextet (sextet_char i) = Some i"
  unfolding char_sextet_def sextet_char_def by (auto simp: Let_def)

lemma sextet_char_plain:
  assumes "i < 64"
  shows "sextet_char i \<noteq> CHR ''=''" "sextet_char i \<noteq> CHR ''-''" "sextet_char i \<noteq> CHR ''_''" "sextet_char i \<noteq> CHR ''.''"
  using assms unfolding char_code sextet_char_def by auto

lemma base64_sextets: "filter (\<lambda>c. c \<noteq> CHR ''='') (base64 s) = map sextet_char (sextets s)"
  by (induction s rule: base64.induct) (simp_all add: sextet_char_plain)

lemma unpack: "y < n \<Longrightarrow> (x * n + y) div n = x" "y < n \<Longrightarrow> (x * n + y) mod n = (y::nat)"
  by simp_all

lemma byte_unpacked:
  "byte a div 4 * 4 + (byte a mod 4 * 16 + byte b div 16) div 16 = byte a"
  "byte a div 4 * 4 + byte a mod 4 * 16 div 16 = byte a"
  "(byte a mod 4 * 16 + byte b div 16) mod 16 * 16 + (byte b mod 16 * 4 + byte c div 64) div 4 = byte b"
  "(byte a mod 4 * 16 + byte b div 16) mod 16 * 16 + byte b mod 16 * 4 div 4 = byte b"
  "(byte b mod 16 * 4 + byte c div 64) mod 4 * 64 + byte c mod 64 = byte c"
  unfolding unpack [OF byte_parts(2)] unpack [OF byte_parts(3)] by simp_all

lemma sextets_bytes_inverse: "sextets_bytes (sextets s) = s"
  by (induction s rule: sextets.induct) (simp_all only: sextets.simps sextets_bytes.simps append.simps byte_unpacked char_of_char)

lemma decode_sextets:
  assumes "\<forall>x \<in> set xs. x < 64"
  shows "base64_bytes (map sextet_char xs @ replicate k CHR ''='') = sextets_bytes xs"
proof -
  have t: "takeWhile (\<lambda>c. c \<noteq> CHR ''='') (map sextet_char xs @ replicate k CHR ''='') = map sextet_char xs"
    using assms by (induction xs) (auto simp: sextet_char_plain takeWhile_replicate)
  have "List.map_filter char_sextet (map sextet_char xs) = xs"
    using assms by (induction xs) (simp_all add: List.map_filter_simps char_sextet_inverse)
  then show ?thesis by (simp add: base64_bytes_def t)
qed

text \<open>base64url gives back every text, whatever its bytes and its length.\<close>

theorem base64url_roundtrip: "base64UrlDecode (base64UrlEncode s) = s"
proof -
  let ?u = "\<lambda>c. if c = CHR ''+'' then CHR ''-'' else if c = CHR ''/'' then CHR ''_'' else c"
  let ?d = "\<lambda>c. if c = CHR ''-'' then CHR ''+'' else if c = CHR ''_'' then CHR ''/'' else c"
  have "(?d \<circ> ?u) c = c" if c: "c \<in> set (map sextet_char (sextets s))" for c
  proof -
    obtain x where "x < 64" "c = sextet_char x" using c by (auto dest: sextets_small)
    then show ?thesis using sextet_char_plain [of x] by auto
  qed
  then have "map ?d (map ?u (map sextet_char (sextets s))) = map sextet_char (sextets s)"
    by (subst map_map) (rule map_idI)
  then show ?thesis
    unfolding base64UrlDecode_def base64UrlEncode_def base64_sextets pad_base64_def
    by (simp only:) (simp add: decode_sextets sextets_small sextets_bytes_inverse)
qed

lemma encoded_no_dot: "CHR ''.'' \<notin> set (base64UrlEncode s)"
proof -
  have "(if c = CHR ''+'' then CHR ''-'' else if c = CHR ''/'' then CHR ''_'' else c) \<noteq> CHR ''.''"
    if "c \<in> set (map sextet_char (sextets s))" for c
    using that sextet_char_plain(4) by (auto dest!: sextets_small)
  then show ?thesis unfolding base64UrlEncode_def base64_sextets by force
qed

subsection \<open>Tokens\<close>

lemma split_parts: "d \<notin> set p \<Longrightarrow> split_text d (p @ d # r) = p # split_text d r"
  by (induction p) auto

lemma split_last: "d \<notin> set p \<Longrightarrow> split_text d p = [p]"
  by (induction p) auto

definition payload_ok :: "access_payload \<Rightarrow> bool" where
  "payload_ok p \<longleftrightarrow> \<bar>ap_iat p\<bar> \<le> 2 ^ 53 \<and> \<bar>ap_exp p\<bar> \<le> 2 ^ 53"

lemma payload_read:
  assumes "payload_ok p"
  shows "json_parse (payload_text p) = Some (JObj [(''sub'', JStr (ap_sub p)), (''sessionId'', JStr (ap_sessionId p)),
     (''familyId'', JStr (ap_familyId p)), (''deviceId'', JStr (ap_deviceId p)), (''iat'', JNum (of_int (ap_iat p))),
     (''exp'', JNum (of_int (ap_exp p))), (''jti'', JStr (ap_jti p))])"
  using json_object_read [of "[(''sub'', json_string (ap_sub p), JStr (ap_sub p)),
     (''sessionId'', json_string (ap_sessionId p), JStr (ap_sessionId p)),
     (''familyId'', json_string (ap_familyId p), JStr (ap_familyId p)),
     (''deviceId'', json_string (ap_deviceId p), JStr (ap_deviceId p)),
     (''iat'', int_text (ap_iat p), JNum (of_int (ap_iat p))),
     (''exp'', int_text (ap_exp p), JNum (of_int (ap_exp p))), (''jti'', json_string (ap_jti p), JStr (ap_jti p))]"] assms
  by (simp add: payload_text_def string_reads int_reads payload_ok_def)

text \<open>A token that was signed is accepted with its payload until its expiry, to the second.\<close>

lemma signed_verifies:
  assumes "payload_ok p"
  shows "verifyAccessToken hmac s now (sign_payload hmac s p)
    = (if ap_exp p \<noteq> 0 \<and> ap_exp p < now div 1000 then Inl TokenExpired else Inr p)"
proof -
  let ?h = "base64UrlEncode token_header" and ?b = "base64UrlEncode (payload_text p)"
  have split: "split_text CHR ''.'' (sign_payload hmac s p)
    = [?h, ?b, base64UrlEncode (hmac (ts_jwtSecret s) (?h @ ''.'' @ ?b))]"
    unfolding sign_payload_def Let_def
    by (simp add: split_parts encoded_no_dot split_last)
  have lt: "(of_int (ap_exp p) < (of_int (now div 1000) :: rat)) \<longleftrightarrow> ap_exp p < now div 1000" by (rule of_int_less_iff)
  show ?thesis
    unfolding verifyAccessToken_def split
    using payload_read [OF assms] lt by (simp add: base64url_roundtrip js_field_def payload_of_def)
qed

lemma verified_parts:
  assumes "verifyAccessToken hmac s t token = Inr p"
  obtains h b g where "split_text CHR ''.'' token = [h, b, g]"
proof -
  let ?ps = "split_text CHR ''.'' token"
  have "length ?ps = 3"
  proof (rule ccontr)
    assume l: "length ?ps \<noteq> 3"
    have "verifyAccessToken hmac s t token = Inl TokenFormat"
    proof (cases ?ps)
      case (Cons h r)
      show ?thesis
      proof (cases r)
        case (Cons b r')
        then show ?thesis using l \<open>?ps = h # r\<close>
          by (cases r'; cases "tl r'") (simp_all add: verifyAccessToken_def)
      qed (use Cons in \<open>simp add: verifyAccessToken_def\<close>)
    qed (simp add: verifyAccessToken_def)
    with assms show False by simp
  qed
  then show ?thesis using that by (auto simp: length_Suc_conv numeral_3_eq_3)
qed

text \<open>The contract of the tokens, as the sessions rely on it.\<close>

locale token_scheme =
  fixes issue :: "access_payload \<Rightarrow> string"
    and check :: "ms \<Rightarrow> string \<Rightarrow> token_error + access_payload"
    and fits :: "access_payload \<Rightarrow> bool"
  assumes check_issue: "fits p \<Longrightarrow> check now (issue p)
    = (if ap_exp p \<noteq> 0 \<and> ap_exp p < now div 1000 then Inl TokenExpired else Inr p)"
begin

lemma accepted: "fits p \<Longrightarrow> now div 1000 \<le> ap_exp p \<Longrightarrow> check now (issue p) = Inr p"
  by (simp add: check_issue)

lemma accepted_until: "fits p \<Longrightarrow> check now (issue p) = Inr q \<Longrightarrow> ap_exp p \<noteq> 0 \<Longrightarrow> q = p \<and> now div 1000 \<le> ap_exp p"
  by (auto simp: check_issue split: if_splits)

lemma tokens_differ:
  assumes "fits p" and "fits q" and "issue p = issue q"
  shows "p = q"
proof -
  have "check (ap_exp p * 1000) (issue p) = Inr p" using assms(1) by (rule accepted) simp
  then have "check (ap_exp p * 1000) (issue q) = Inr p" using assms(3) by simp
  then show ?thesis using check_issue [OF assms(2), of "ap_exp p * 1000"] by (simp split: if_splits)
qed

end

interpretation jwt: token_scheme "sign_payload hmac s" "verifyAccessToken hmac s" payload_ok for hmac s
  by unfold_locales (rule signed_verifies)

lemma issued_token:
  assumes "\<bar>now div 1000\<bar> \<le> 2 ^ 52" and "0 < ts_accessTtlSeconds s" and "ts_accessTtlSeconds s \<le> 2 ^ 52"
    and "now div 1000 + ts_accessTtlSeconds s \<noteq> 0"
  shows "verifyAccessToken hmac s t (fst (generateAccessToken hmac s now jti w i f d))
      = (if now div 1000 + ts_accessTtlSeconds s < t div 1000 then Inl TokenExpired
         else Inr (new_payload s now jti w i f d))"
proof -
  have ok: "payload_ok (new_payload s now jti w i f d)"
    using assms by (auto simp: payload_ok_def new_payload_def Let_def)
  have e: "ap_exp (new_payload s now jti w i f d) = now div 1000 + ts_accessTtlSeconds s"
    by (simp add: new_payload_def Let_def)
  show ?thesis using jwt.check_issue [OF ok] assms(4) by (simp add: generateAccessToken_def e)
qed

text \<open>
  C26. Tokens are read back as they were issued. Whatever texts its fields hold and whatever the keyed
  hash is, an access token is accepted with exactly the payload it was made of through the second of
  its expiry and refused as expired afterwards; and a text that is accepted carries the signature
  of its first two parts.
\<close>

theorem access_token_roundtrip:
  assumes "\<bar>now div 1000\<bar> \<le> 2 ^ 52" and "0 < ts_accessTtlSeconds s" and "ts_accessTtlSeconds s \<le> 2 ^ 52"
    and "now div 1000 + ts_accessTtlSeconds s \<noteq> 0"
  shows "verifyAccessToken hmac s t (fst (generateAccessToken hmac s now jti w i f d))
      = (if now div 1000 + ts_accessTtlSeconds s < t div 1000 then Inl TokenExpired
         else Inr (new_payload s now jti w i f d))
    \<and> (\<forall>token p. verifyAccessToken hmac s t token = Inr p \<longrightarrow>
        (\<exists>h b. split_text CHR ''.'' token = [h, b, base64UrlEncode (hmac (ts_jwtSecret s) (h @ ''.'' @ b))]
          \<and> json_parse (base64UrlDecode b) \<noteq> None))"
proof (intro conjI allI impI)
  show "verifyAccessToken hmac s t (fst (generateAccessToken hmac s now jti w i f d))
      = (if now div 1000 + ts_accessTtlSeconds s < t div 1000 then Inl TokenExpired
         else Inr (new_payload s now jti w i f d))"
    by (rule issued_token [OF assms])
next
  fix token p
  assume v: "verifyAccessToken hmac s t token = Inr p"
  then obtain h b g where g: "split_text CHR ''.'' token = [h, b, g]" by (rule verified_parts)
  have "g = base64UrlEncode (hmac (ts_jwtSecret s) (h @ ''.'' @ b))"
    by (rule ccontr) (use v in \<open>simp add: verifyAccessToken_def g Let_def\<close>)
  moreover have "json_parse (base64UrlDecode b) \<noteq> None"
    by (rule notI) (use v in \<open>simp add: verifyAccessToken_def g Let_def split: if_splits\<close>)
  ultimately show "\<exists>h b. split_text CHR ''.'' token = [h, b, base64UrlEncode (hmac (ts_jwtSecret s) (h @ ''.'' @ b))]
      \<and> json_parse (base64UrlDecode b) \<noteq> None"
    using g by blast
qed

theorem access_token_roundtrip_witness:
  "verifyAccessToken (\<lambda>k d. k) \<lparr> ts_jwtSecret = ''key'', ts_accessTtlSeconds = 900, ts_refreshTtlSeconds = 3600, ts_sessionMaxTtlSeconds = 7200 \<rparr>
     900000 (fst (generateAccessToken (\<lambda>k d. k) \<lparr> ts_jwtSecret = ''key'', ts_accessTtlSeconds = 900, ts_refreshTtlSeconds = 3600,
       ts_sessionMaxTtlSeconds = 7200 \<rparr> 0 ''j'' ''G'' ''s'' ''f'' ''d''))
   = Inr \<lparr> ap_sub = ''G'', ap_sessionId = ''s'', ap_familyId = ''f'', ap_deviceId = ''d'', ap_iat = 0, ap_exp = 900, ap_jti = ''j'' \<rparr>"
  using access_token_roundtrip [of 0 "\<lparr> ts_jwtSecret = ''key'', ts_accessTtlSeconds = 900, ts_refreshTtlSeconds = 3600,
       ts_sessionMaxTtlSeconds = 7200 \<rparr>" "\<lambda>k d. k" 900000 "''j''" "''G''" "''s''" "''f''" "''d''"]
  by (simp add: new_payload_def)

end
