(* ===== verification/AuthSessions.thy ===== *)
theory AuthSessions
  imports AuthTokens
begin

text \<open>
  \<open>services/auth/authService.ts\<close> over \<open>db/auth.ts\<close> and \<open>services/auth/revocationRegistry.ts\<close>:
  sessions, refresh tokens that are rotated, the detection of a token used twice, revocation and the
  check of access tokens. The three tables are lists of rows. The registry in memory is an LRU cache
  of a library: what has been set stays until the library drops it, and whether it still holds an
  entry is answered by the argument \<open>held\<close>. Each statement on the database may throw; which one does
  in a call is told by \<open>ae_fails\<close>, and what was written before stays. Identifiers and random tokens
  come with the call.
\<close>

subsection \<open>Tables\<close>

record auth_session =
  as_id :: string
  as_familyId :: string
  as_walletPublicKey :: string
  as_deviceId :: string
  as_deviceName :: "string option"
  as_ipAddress :: string
  as_userAgent :: string
  as_createdAt :: ms
  as_lastActiveAt :: ms
  as_expiresAt :: ms
  as_isRevoked :: bool
  as_revokedAt :: "ms option"
  as_revokedReason :: "string option"

record refresh_token =
  rt_id :: string
  rt_tokenHash :: string
  rt_sessionId :: string
  rt_familyId :: string
  rt_walletPublicKey :: string
  rt_createdAt :: ms
  rt_expiresAt :: ms
  rt_isConsumed :: bool
  rt_consumedAt :: "ms option"
  rt_isRevoked :: bool
  rt_revokedAt :: "ms option"
  rt_replacedByTokenHash :: "string option"

datatype audit_status = AuditSuccess | AuditFailure | AuditAlert

record audit_log =
  al_timestamp :: ms
  al_action :: string
  al_walletPublicKey :: "string option"
  al_familyId :: "string option"
  al_sessionId :: "string option"
  al_deviceId :: "string option"
  al_ipAddress :: "string option"
  al_userAgent :: "string option"
  al_status :: audit_status
  al_reason :: "string option"
  al_metadata :: "js_val option"

text \<open>The audit log is in the order of the generated ids.\<close>

record auth_db =
  ad_sessions :: "auth_session list"
  ad_tokens :: "refresh_token list"
  ad_audit :: "audit_log list"

text \<open>The primary keys and the unique hash are checked by the insert; \<open>None\<close> is the constraint error.\<close>

definition insert_session :: "auth_session \<Rightarrow> auth_db \<Rightarrow> auth_db option" where
  "insert_session s db = (if row_by as_id (as_id s) (ad_sessions db) \<noteq> None then None
     else Some (db\<lparr>ad_sessions := ad_sessions db @ [s]\<rparr>))"

definition findSessionById :: "string \<Rightarrow> auth_db \<Rightarrow> auth_session option" where
  "findSessionById i db = row_by as_id i (ad_sessions db)"

definition updateSessionActivity :: "string \<Rightarrow> ms \<Rightarrow> ms \<Rightarrow> auth_db \<Rightarrow> auth_db" where
  "updateSessionActivity i lastActiveAt expiresAt db = db\<lparr>ad_sessions :=
     fst (sql_update (\<lambda>s. as_id s = i \<and> \<not> as_isRevoked s)
       (\<lambda>s. s\<lparr>as_lastActiveAt := lastActiveAt, as_expiresAt := expiresAt\<rparr>) (ad_sessions db))\<rparr>"

definition revoked_session :: "string \<Rightarrow> ms \<Rightarrow> auth_session \<Rightarrow> auth_session" where
  "revoked_session reason now s = s\<lparr>as_isRevoked := True, as_revokedAt := Some now, as_revokedReason := Some reason\<rparr>"

definition db_revokeSession :: "string \<Rightarrow> string \<Rightarrow> ms \<Rightarrow> auth_db \<Rightarrow> auth_db" where
  "db_revokeSession i reason now db = db\<lparr>ad_sessions :=
     fst (sql_update (\<lambda>s. as_id s = i) (revoked_session reason now) (ad_sessions db))\<rparr>"

definition db_revokeFamily :: "string \<Rightarrow> string \<Rightarrow> ms \<Rightarrow> auth_db \<Rightarrow> auth_db \<times> nat" where
  "db_revokeFamily f reason now db = (let (rows, n) = sql_update (\<lambda>s. as_familyId s = f \<and> \<not> as_isRevoked s)
       (revoked_session reason now) (ad_sessions db) in (db\<lparr>ad_sessions := rows\<rparr>, n))"

definition db_revokeAllUserSessions :: "string \<Rightarrow> string \<Rightarrow> ms \<Rightarrow> auth_db \<Rightarrow> auth_db \<times> nat" where
  "db_revokeAllUserSessions w reason now db = (let (rows, n) = sql_update (\<lambda>s. as_walletPublicKey s = w \<and> \<not> as_isRevoked s)
       (revoked_session reason now) (ad_sessions db) in (db\<lparr>ad_sessions := rows\<rparr>, n))"

definition listActiveSessions :: "string \<Rightarrow> auth_db \<Rightarrow> auth_session list" where
  "listActiveSessions w db = sort_key (\<lambda>s. - as_lastActiveAt s)
     (filter (\<lambda>s. as_walletPublicKey s = w \<and> \<not> as_isRevoked s) (ad_sessions db))"

definition insert_refresh_token :: "refresh_token \<Rightarrow> auth_db \<Rightarrow> auth_db option" where
  "insert_refresh_token t db =
     (if row_by rt_id (rt_id t) (ad_tokens db) \<noteq> None \<or> row_by rt_tokenHash (rt_tokenHash t) (ad_tokens db) \<noteq> None
      then None else Some (db\<lparr>ad_tokens := ad_tokens db @ [t]\<rparr>))"

definition findRefreshTokenByHash :: "string \<Rightarrow> auth_db \<Rightarrow> refresh_token option" where
  "findRefreshTokenByHash h db = row_by rt_tokenHash h (ad_tokens db)"

definition markTokenConsumed :: "string \<Rightarrow> ms \<Rightarrow> string \<Rightarrow> auth_db \<Rightarrow> auth_db" where
  "markTokenConsumed h now replacement db = db\<lparr>ad_tokens := fst (sql_update (\<lambda>t. rt_tokenHash t = h)
     (\<lambda>t. t\<lparr>rt_isConsumed := True, rt_consumedAt := Some now, rt_replacedByTokenHash := Some replacement\<rparr>) (ad_tokens db))\<rparr>"

definition revoke_tokens :: "(refresh_token \<Rightarrow> bool) \<Rightarrow> ms \<Rightarrow> auth_db \<Rightarrow> auth_db" where
  "revoke_tokens p now db = db\<lparr>ad_tokens := fst (sql_update (\<lambda>t. p t \<and> \<not> rt_isRevoked t)
     (\<lambda>t. t\<lparr>rt_isRevoked := True, rt_revokedAt := Some now\<rparr>) (ad_tokens db))\<rparr>"

definition revokeTokensByFamily :: "string \<Rightarrow> ms \<Rightarrow> auth_db \<Rightarrow> auth_db" where
  "revokeTokensByFamily f = revoke_tokens (\<lambda>t. rt_familyId t = f)"

definition revokeTokensBySession :: "string \<Rightarrow> ms \<Rightarrow> auth_db \<Rightarrow> auth_db" where
  "revokeTokensBySession i = revoke_tokens (\<lambda>t. rt_sessionId t = i)"

definition revokeTokensByUser :: "string \<Rightarrow> ms \<Rightarrow> auth_db \<Rightarrow> auth_db" where
  "revokeTokensByUser w = revoke_tokens (\<lambda>t. rt_walletPublicKey t = w)"

definition insertAuditLog :: "audit_log \<Rightarrow> auth_db \<Rightarrow> auth_db" where
  "insertAuditLog l db = db\<lparr>ad_audit := ad_audit db @ [l]\<rparr>"

text \<open>Empty texts and a limit of 0 are falsy: no filter. An offset counts only with a limit.\<close>

definition listAuditLogs :: "string option \<Rightarrow> string option \<Rightarrow> string option \<Rightarrow> nat option \<Rightarrow> nat option \<Rightarrow> auth_db \<Rightarrow> audit_log list" where
  "listAuditLogs wallet family action limit offset db =
     (let wants = (\<lambda>f x. f = None \<or> f = Some '''' \<or> x = f);
          rows = rev (filter (\<lambda>l. wants wallet (al_walletPublicKey l) \<and> wants family (al_familyId l)
            \<and> wants action (Some (al_action l))) (ad_audit db))
      in if or_else 0 limit = 0 then rows else take (or_else 0 limit) (drop (or_else 0 offset) rows))"

subsection \<open>The registry in memory\<close>

datatype registry_part = OfSession | OfFamily | OfWallet

type_synonym registry = "(registry_part \<times> string, ms \<times> string option) jsmap"

definition registry_get :: "(registry_part \<Rightarrow> string \<Rightarrow> bool) \<Rightarrow> registry_part \<Rightarrow> string \<Rightarrow> registry \<Rightarrow> (ms \<times> string option) option" where
  "registry_get held p k reg = (if held p k then jm_get reg (p, k) else None)"

definition registry_has :: "(registry_part \<Rightarrow> string \<Rightarrow> bool) \<Rightarrow> registry_part \<Rightarrow> string \<Rightarrow> registry \<Rightarrow> bool" where
  "registry_has held p k reg = (registry_get held p k reg \<noteq> None)"

definition isWalletRevoked :: "(registry_part \<Rightarrow> string \<Rightarrow> bool) \<Rightarrow> string \<Rightarrow> int option \<Rightarrow> registry \<Rightarrow> bool" where
  "isWalletRevoked held w issuedAt reg = (case registry_get held OfWallet w reg of
       None \<Rightarrow> False
     | Some (revokedAt, _) \<Rightarrow> (case issuedAt of Some iat \<Rightarrow> iat * 1000 \<le> revokedAt | None \<Rightarrow> True))"

subsection \<open>The service\<close>

record auth_state =
  at_db :: auth_db
  at_registry :: registry

datatype auth_stmt = FindToken | FindSession | InsertSession | InsertToken | ConsumeToken | UpdateActivity
  | RevokeSessions | RevokeTokens | InsertAudit nat

record auth_env =
  ae_now :: ms
  ae_held :: "registry_part \<Rightarrow> string \<Rightarrow> bool"
  ae_fails :: "auth_stmt \<Rightarrow> bool"
  ae_sessionId :: string
  ae_familyId :: string
  ae_refreshToken :: string
  ae_tokenId :: string
  ae_jti :: string

text \<open>The library functions and the settings.\<close>

record auth_config =
  ac_sha :: "string \<Rightarrow> string"
  ac_hmac :: "string \<Rightarrow> string \<Rightarrow> string"
  ac_tokens :: token_service

datatype auth_error = AuthenticationError string | DbError

record auth_tokens =
  tr_accessToken :: string
  tr_refreshToken :: string
  tr_expiresIn :: int

type_synonym 'a auth_result = "auth_state \<times> (auth_error + 'a)"

text \<open>One statement, and what follows unless it throws.\<close>

definition auth_sql :: "auth_env \<Rightarrow> auth_stmt \<Rightarrow> (auth_db \<Rightarrow> auth_db option) \<Rightarrow> auth_state
    \<Rightarrow> (auth_state \<Rightarrow> 'a auth_result) \<Rightarrow> 'a auth_result" where
  "auth_sql env w f s k = (if ae_fails env w then (s, Inl DbError)
     else (case f (at_db s) of None \<Rightarrow> (s, Inl DbError) | Some db \<Rightarrow> k (s\<lparr>at_db := db\<rparr>)))"

definition set_registry :: "registry_part \<Rightarrow> string \<Rightarrow> ms \<Rightarrow> string option \<Rightarrow> auth_state \<Rightarrow> auth_state" where
  "set_registry p k now reason s = s\<lparr>at_registry := jm_set (at_registry s) (p, k) (now, reason)\<rparr>"

definition audit_of :: "auth_env \<Rightarrow> string \<Rightarrow> refresh_token option \<Rightarrow> string \<Rightarrow> string \<Rightarrow> audit_status \<Rightarrow> string option
    \<Rightarrow> js_val option \<Rightarrow> audit_log" where
  "audit_of env action t ip ua status reason meta = \<lparr> al_timestamp = ae_now env, al_action = action,
     al_walletPublicKey = map_option rt_walletPublicKey t, al_familyId = map_option rt_familyId t,
     al_sessionId = map_option rt_sessionId t, al_deviceId = None, al_ipAddress = Some ip, al_userAgent = Some ua,
     al_status = status, al_reason = reason, al_metadata = meta \<rparr>"

definition fail_audited :: "auth_env \<Rightarrow> audit_log \<Rightarrow> string \<Rightarrow> auth_state \<Rightarrow> 'a auth_result" where
  "fail_audited env l msg s = auth_sql env (InsertAudit 0) (Some \<circ> insertAuditLog l) s
     (\<lambda>s. (s, Inl (AuthenticationError msg)))"

definition access_token :: "auth_config \<Rightarrow> auth_env \<Rightarrow> auth_session \<Rightarrow> string \<times> int" where
  "access_token c env r = generateAccessToken (ac_hmac c) (ac_tokens c) (ae_now env) (ae_jti env)
     (as_walletPublicKey r) (as_id r) (as_familyId r) (as_deviceId r)"

definition new_session :: "auth_config \<Rightarrow> auth_env \<Rightarrow> string \<Rightarrow> string \<Rightarrow> string option \<Rightarrow> string \<Rightarrow> string \<Rightarrow> auth_session" where
  "new_session c env wallet device name ip ua = \<lparr> as_id = ae_sessionId env, as_familyId = ae_familyId env,
     as_walletPublicKey = wallet, as_deviceId = device, as_deviceName = name, as_ipAddress = ip, as_userAgent = ua,
     as_createdAt = ae_now env, as_lastActiveAt = ae_now env,
     as_expiresAt = ae_now env + ts_refreshTtlSeconds (ac_tokens c) * 1000,
     as_isRevoked = False, as_revokedAt = None, as_revokedReason = None \<rparr>"

definition new_refresh_token :: "auth_config \<Rightarrow> auth_env \<Rightarrow> auth_session \<Rightarrow> ms \<Rightarrow> refresh_token" where
  "new_refresh_token c env r expiresAt = \<lparr> rt_id = ae_tokenId env, rt_tokenHash = ac_sha c (ae_refreshToken env),
     rt_sessionId = as_id r, rt_familyId = as_familyId r, rt_walletPublicKey = as_walletPublicKey r,
     rt_createdAt = ae_now env, rt_expiresAt = expiresAt, rt_isConsumed = False, rt_consumedAt = None,
     rt_isRevoked = False, rt_revokedAt = None, rt_replacedByTokenHash = None \<rparr>"

definition session_audit :: "auth_env \<Rightarrow> string \<Rightarrow> auth_session \<Rightarrow> string \<Rightarrow> string \<Rightarrow> js_val \<Rightarrow> audit_log" where
  "session_audit env action r ip ua meta = \<lparr> al_timestamp = ae_now env, al_action = action,
     al_walletPublicKey = Some (as_walletPublicKey r), al_familyId = Some (as_familyId r), al_sessionId = Some (as_id r),
     al_deviceId = Some (as_deviceId r), al_ipAddress = Some ip, al_userAgent = Some ua, al_status = AuditSuccess,
     al_reason = None, al_metadata = Some meta \<rparr>"

definition createSession :: "auth_config \<Rightarrow> auth_env \<Rightarrow> string \<Rightarrow> string \<Rightarrow> string option \<Rightarrow> string \<Rightarrow> string
    \<Rightarrow> auth_state \<Rightarrow> (auth_tokens \<times> auth_session) auth_result" where
  "createSession c env wallet device name ip ua s =
     (let r = new_session c env wallet device name ip ua
      in auth_sql env InsertSession (insert_session r) s (\<lambda>s.
         auth_sql env InsertToken (insert_refresh_token (new_refresh_token c env r (as_expiresAt r))) s (\<lambda>s.
         let (accessToken, expiresIn) = access_token c env r
         in auth_sql env (InsertAudit 0) (Some \<circ> insertAuditLog (session_audit env ''SESSION_CREATED'' r ip ua
              (JObj (case name of None \<Rightarrow> [] | Some n \<Rightarrow> [(''deviceName'', JStr n)])))) s (\<lambda>s.
            (s, Inr (\<lparr> tr_accessToken = accessToken, tr_refreshToken = ae_refreshToken env, tr_expiresIn = expiresIn \<rparr>, r))))))"

text \<open>A consumed token was presented: the whole family is revoked.\<close>

definition reuse_detected :: "auth_env \<Rightarrow> refresh_token \<Rightarrow> string \<Rightarrow> string \<Rightarrow> auth_state \<Rightarrow> 'a auth_result" where
  "reuse_detected env t ip ua s =
     (let reason = ''Token reuse detected - potential token theft''
      in auth_sql env RevokeSessions (Some \<circ> (fst \<circ> db_revokeFamily (rt_familyId t) reason (ae_now env))) s (\<lambda>s.
         auth_sql env RevokeTokens (Some \<circ> revokeTokensByFamily (rt_familyId t) (ae_now env)) s (\<lambda>s.
         auth_sql env (InsertAudit 0) (Some \<circ> insertAuditLog (audit_of env ''TOKEN_REUSE_DETECTED'' (Some t) ip ua AuditAlert
             (Some ''Attempted reuse of consumed refresh token'')
             (Some (JObj [(''reusedTokenId'', JStr (rt_id t)),
                (''consumedAt'', case rt_consumedAt t of None \<Rightarrow> JNull | Some m \<Rightarrow> JNum (of_int m))]))))
           (set_registry OfFamily (rt_familyId t) (ae_now env) (Some reason) s) (\<lambda>s.
         auth_sql env (InsertAudit 1) (Some \<circ> insertAuditLog (audit_of env ''SESSION_FAMILY_REVOKED'' (Some t) ip ua AuditAlert
             (Some ''Family revoked due to reuse detection'') None)) s (\<lambda>s.
         (s, Inl (AuthenticationError ''Token reuse detected. All sessions in this family have been revoked.'')))))))"

text \<open>The token is consumed and replaced; the new one slides the expiry within the session's lifetime.\<close>

definition max_session_expiry :: "auth_config \<Rightarrow> auth_session \<Rightarrow> ms" where
  "max_session_expiry c r = as_createdAt r + ts_sessionMaxTtlSeconds (ac_tokens c) * 1000"

definition replace_token :: "auth_config \<Rightarrow> auth_env \<Rightarrow> refresh_token \<Rightarrow> auth_session \<Rightarrow> string \<Rightarrow> string
    \<Rightarrow> auth_state \<Rightarrow> auth_tokens auth_result" where
  "replace_token c env t r ip ua s =
     (let newHash = ac_sha c (ae_refreshToken env);
          expiresAt = min (ae_now env + ts_refreshTtlSeconds (ac_tokens c) * 1000) (max_session_expiry c r)
      in auth_sql env ConsumeToken (Some \<circ> markTokenConsumed (rt_tokenHash t) (ae_now env) newHash) s (\<lambda>s.
         auth_sql env InsertToken (insert_refresh_token (new_refresh_token c env r expiresAt)) s (\<lambda>s.
         auth_sql env UpdateActivity (Some \<circ> updateSessionActivity (as_id r) (ae_now env) expiresAt) s (\<lambda>s.
         let (accessToken, expiresIn) = access_token c env r
         in auth_sql env (InsertAudit 0) (Some \<circ> insertAuditLog (session_audit env ''TOKEN_ROTATED'' r ip ua
              (JObj [(''previousTokenId'', JStr (rt_id t)), (''newTokenId'', JStr (ae_tokenId env))]))) s (\<lambda>s.
            (s, Inr \<lparr> tr_accessToken = accessToken, tr_refreshToken = ae_refreshToken env, tr_expiresIn = expiresIn \<rparr>))))))"

definition rotateRefreshToken :: "auth_config \<Rightarrow> auth_env \<Rightarrow> string \<Rightarrow> string \<Rightarrow> string \<Rightarrow> auth_state \<Rightarrow> auth_tokens auth_result" where
  "rotateRefreshToken c env raw ip ua s =
     (if raw = '''' then (s, Inl (AuthenticationError ''Refresh token is required''))
      else auth_sql env FindToken Some s (\<lambda>s. case findRefreshTokenByHash (ac_sha c raw) (at_db s) of
        None \<Rightarrow> fail_audited env (audit_of env ''AUTH_FAILED'' None ip ua AuditFailure (Some ''Unknown refresh token'') None)
          ''Invalid refresh token'' s
      | Some t \<Rightarrow>
          if rt_isConsumed t then reuse_detected env t ip ua s
          else if rt_isRevoked t \<or> registry_has (ae_held env) OfFamily (rt_familyId t) (at_registry s)
            \<or> registry_has (ae_held env) OfSession (rt_sessionId t) (at_registry s)
          then fail_audited env (audit_of env ''AUTH_FAILED'' (Some t) ip ua AuditFailure (Some ''Token or session is revoked'') None)
            ''Session or token has been revoked'' s
          else if rt_expiresAt t < ae_now env
          then fail_audited env (audit_of env ''AUTH_FAILED'' (Some t) ip ua AuditFailure (Some ''Refresh token expired'') None)
            ''Refresh token has expired'' s
          else auth_sql env FindSession Some s (\<lambda>s. case findSessionById (rt_sessionId t) (at_db s) of
              None \<Rightarrow> (s, Inl (AuthenticationError ''Session not found or revoked''))
            | Some r \<Rightarrow>
                if as_isRevoked r then (s, Inl (AuthenticationError ''Session not found or revoked''))
                else if max_session_expiry c r < ae_now env
                then auth_sql env RevokeSessions (Some \<circ> db_revokeSession (as_id r) ''Absolute session lifetime expired'' (ae_now env)) s
                  (\<lambda>s. (set_registry OfSession (as_id r) (ae_now env) (Some ''Absolute session lifetime expired'') s,
                     Inl (AuthenticationError ''Session has exceeded maximum allowed lifetime'')))
                else replace_token c env t r ip ua s)))"

definition token_message :: "token_error \<Rightarrow> string" where
  "token_message e = (case e of TokenFormat \<Rightarrow> ''Invalid token format'' | TokenSignature \<Rightarrow> ''Invalid token signature''
     | TokenMalformed \<Rightarrow> ''Malformed token payload'' | TokenExpired \<Rightarrow> ''Token expired''
     | TokenTypeError \<Rightarrow> ''Cannot read properties of null (reading exp)'' | TokenShape \<Rightarrow> ''Invalid access token'')"

definition auth_verifyAccessToken :: "auth_config \<Rightarrow> auth_env \<Rightarrow> string \<Rightarrow> auth_state \<Rightarrow> access_payload auth_result" where
  "auth_verifyAccessToken c env token s =
     (case verifyAccessToken (ac_hmac c) (ac_tokens c) (ae_now env) token of
        Inl e \<Rightarrow> (s, Inl (AuthenticationError (token_message e)))
      | Inr p \<Rightarrow>
          if registry_has (ae_held env) OfSession (ap_sessionId p) (at_registry s)
          then (s, Inl (AuthenticationError ''Session has been revoked''))
          else if registry_has (ae_held env) OfFamily (ap_familyId p) (at_registry s)
          then (s, Inl (AuthenticationError ''Session family has been revoked''))
          else if isWalletRevoked (ae_held env) (ap_sub p) (Some (ap_iat p)) (at_registry s)
          then (s, Inl (AuthenticationError ''User sessions have been revoked''))
          else auth_sql env FindSession Some s (\<lambda>s. case findSessionById (ap_sessionId p) (at_db s) of
              Some r \<Rightarrow>
                if as_isRevoked r
                then (set_registry OfSession (ap_sessionId p) (ae_now env) None s,
                      Inl (AuthenticationError ''Session is no longer valid or has been revoked''))
                else (s, Inr p)
            | None \<Rightarrow> (set_registry OfSession (ap_sessionId p) (ae_now env) None s,
                  Inl (AuthenticationError ''Session is no longer valid or has been revoked''))))"

definition revocation_audit :: "auth_env \<Rightarrow> string \<Rightarrow> string option \<Rightarrow> string option \<Rightarrow> string option \<Rightarrow> string option
    \<Rightarrow> string option \<Rightarrow> string option \<Rightarrow> string \<Rightarrow> js_val option \<Rightarrow> audit_log" where
  "revocation_audit env action w f i d ip ua reason meta = \<lparr> al_timestamp = ae_now env, al_action = action,
     al_walletPublicKey = w, al_familyId = f, al_sessionId = i, al_deviceId = d, al_ipAddress = ip, al_userAgent = ua,
     al_status = AuditSuccess, al_reason = Some reason, al_metadata = meta \<rparr>"

definition revokeSession :: "auth_env \<Rightarrow> string \<Rightarrow> string \<Rightarrow> string option \<Rightarrow> string option \<Rightarrow> auth_state \<Rightarrow> unit auth_result" where
  "revokeSession env i reason ip ua s =
     auth_sql env FindSession Some s (\<lambda>s. let r = findSessionById i (at_db s) in
     auth_sql env RevokeSessions (Some \<circ> db_revokeSession i reason (ae_now env)) s (\<lambda>s.
     auth_sql env RevokeTokens (Some \<circ> revokeTokensBySession i (ae_now env)) s (\<lambda>s.
     auth_sql env (InsertAudit 0) (Some \<circ> insertAuditLog (revocation_audit env ''SESSION_REVOKED''
         (map_option as_walletPublicKey r) (map_option as_familyId r) (Some i) (map_option as_deviceId r) ip ua reason None))
       (set_registry OfSession i (ae_now env) (Some reason) s) (\<lambda>s. (s, Inr ())))))"

definition sessions_revoked :: "nat \<Rightarrow> js_val option" where
  "sessions_revoked n = Some (JObj [(''sessionsRevoked'', JNum (of_nat n))])"

definition revokeFamily :: "auth_env \<Rightarrow> string \<Rightarrow> string \<Rightarrow> string option \<Rightarrow> string option \<Rightarrow> auth_state \<Rightarrow> nat auth_result" where
  "revokeFamily env f reason ip ua s =
     (let count = snd (db_revokeFamily f reason (ae_now env) (at_db s))
      in auth_sql env RevokeSessions (Some \<circ> (fst \<circ> db_revokeFamily f reason (ae_now env))) s (\<lambda>s.
         auth_sql env RevokeTokens (Some \<circ> revokeTokensByFamily f (ae_now env)) s (\<lambda>s.
         auth_sql env (InsertAudit 0) (Some \<circ> insertAuditLog (revocation_audit env ''SESSION_FAMILY_REVOKED''
             None (Some f) None None ip ua reason (sessions_revoked count)))
           (set_registry OfFamily f (ae_now env) (Some reason) s) (\<lambda>s. (s, Inr count)))))"

definition revokeAllUserSessions :: "auth_env \<Rightarrow> string \<Rightarrow> string \<Rightarrow> string option \<Rightarrow> string option \<Rightarrow> auth_state \<Rightarrow> nat auth_result" where
  "revokeAllUserSessions env w reason ip ua s =
     (let count = snd (db_revokeAllUserSessions w reason (ae_now env) (at_db s))
      in auth_sql env RevokeSessions (Some \<circ> (fst \<circ> db_revokeAllUserSessions w reason (ae_now env))) s (\<lambda>s.
         auth_sql env RevokeTokens (Some \<circ> revokeTokensByUser w (ae_now env)) s (\<lambda>s.
         auth_sql env (InsertAudit 0) (Some \<circ> insertAuditLog (revocation_audit env ''ALL_SESSIONS_REVOKED''
             (Some w) None None None ip ua reason (sessions_revoked count)))
           (set_registry OfWallet w (ae_now env) (Some reason) s) (\<lambda>s. (s, Inr count)))))"

definition listUserSessions :: "string \<Rightarrow> auth_state \<Rightarrow> auth_session list" where
  "listUserSessions w s = listActiveSessions w (at_db s)"

subsection \<open>Histories\<close>

text \<open>A call with its environment, or a restart, which empties the registry in memory.\<close>

datatype auth_op = OpCreate string string "string option" string string | OpRotate string string string
  | OpVerify string | OpRevokeSession string string | OpRevokeFamily string string | OpRevokeAll string string | OpRestart

fun auth_step :: "auth_config \<Rightarrow> auth_op \<times> auth_env \<Rightarrow> auth_state \<Rightarrow> auth_state" where
  "auth_step c (OpCreate w d n ip ua, env) s = fst (createSession c env w d n ip ua s)"
| "auth_step c (OpRotate raw ip ua, env) s = fst (rotateRefreshToken c env raw ip ua s)"
| "auth_step c (OpVerify token, env) s = fst (auth_verifyAccessToken c env token s)"
| "auth_step c (OpRevokeSession i reason, env) s = fst (revokeSession env i reason None None s)"
| "auth_step c (OpRevokeFamily f reason, env) s = fst (revokeFamily env f reason None None s)"
| "auth_step c (OpRevokeAll w reason, env) s = fst (revokeAllUserSessions env w reason None None s)"
| "auth_step c (OpRestart, env) s = s\<lparr>at_registry := []\<rparr>"

definition auth_run :: "auth_config \<Rightarrow> (auth_op \<times> auth_env) list \<Rightarrow> auth_state \<Rightarrow> auth_state" where
  "auth_run c xs s = fold (auth_step c) xs s"

definition empty_auth :: auth_state where
  "empty_auth = \<lparr> at_db = \<lparr> ad_sessions = [], ad_tokens = [], ad_audit = [] \<rparr>, at_registry = [] \<rparr>"

subsection \<open>What statements keep\<close>

definition same_session :: "auth_session \<Rightarrow> auth_session \<Rightarrow> bool" where
  "same_session r r' \<longleftrightarrow> as_id r' = as_id r \<and> as_familyId r' = as_familyId r \<and> as_walletPublicKey r' = as_walletPublicKey r
     \<and> as_createdAt r' = as_createdAt r \<and> (as_isRevoked r \<longrightarrow> as_isRevoked r')"

definition same_token :: "refresh_token \<Rightarrow> refresh_token \<Rightarrow> bool" where
  "same_token t t' \<longleftrightarrow> rt_id t' = rt_id t \<and> rt_tokenHash t' = rt_tokenHash t \<and> rt_sessionId t' = rt_sessionId t
     \<and> rt_familyId t' = rt_familyId t \<and> rt_walletPublicKey t' = rt_walletPublicKey t \<and> rt_expiresAt t' = rt_expiresAt t
     \<and> (rt_isConsumed t \<longrightarrow> rt_isConsumed t') \<and> (rt_isRevoked t \<longrightarrow> rt_isRevoked t')"

text \<open>An update of rows that are there, and any change that leaves the rows recognisable.\<close>

definition touched :: "auth_db \<Rightarrow> auth_db \<Rightarrow> bool" where
  "touched db db' \<longleftrightarrow> (\<exists>f g. ad_sessions db' = map f (ad_sessions db) \<and> ad_tokens db' = map g (ad_tokens db)
     \<and> (\<forall>r. same_session r (f r)) \<and> (\<forall>t. same_token t (g t)))"

definition db_later :: "auth_db \<Rightarrow> auth_db \<Rightarrow> bool" where
  "db_later db db' \<longleftrightarrow>
     (\<forall>i r. findSessionById i db = Some r \<longrightarrow> (\<exists>r'. findSessionById i db' = Some r' \<and> same_session r r'))
   \<and> (\<forall>h t. findRefreshTokenByHash h db = Some t \<longrightarrow> (\<exists>t'. findRefreshTokenByHash h db' = Some t' \<and> same_token t t'))"

lemma same_refl [simp]: "same_session r r" "same_token t t"
  by (simp_all add: same_session_def same_token_def)

lemma same_trans: "same_session a b \<Longrightarrow> same_session b c \<Longrightarrow> same_session a c"
    "same_token t u \<Longrightarrow> same_token u v \<Longrightarrow> same_token t v"
  by (simp_all add: same_session_def same_token_def)

lemma touched_refl [simp]: "touched db db"
  unfolding touched_def by (intro exI [of _ "\<lambda>x. x"]) simp

lemma touched_trans:
  assumes "touched a b" and "touched b d"
  shows "touched a d"
proof -
  obtain f g where 1: "ad_sessions b = map f (ad_sessions a)" "ad_tokens b = map g (ad_tokens a)"
    "\<forall>r. same_session r (f r)" "\<forall>t. same_token t (g t)" using assms(1) by (auto simp: touched_def)
  obtain f' g' where 2: "ad_sessions d = map f' (ad_sessions b)" "ad_tokens d = map g' (ad_tokens b)"
    "\<forall>r. same_session r (f' r)" "\<forall>t. same_token t (g' t)" using assms(2) by (auto simp: touched_def)
  have "\<forall>r. same_session r ((f' \<circ> f) r)" "\<forall>t. same_token t ((g' \<circ> g) t)"
    using 1(3,4) 2(3,4) by (auto intro: same_trans)
  moreover have "ad_sessions d = map (f' \<circ> f) (ad_sessions a)" "ad_tokens d = map (g' \<circ> g) (ad_tokens a)"
    by (simp_all add: 1 2)
  ultimately show ?thesis unfolding touched_def by blast
qed

lemma later_refl [simp]: "db_later db db"
  by (simp add: db_later_def)

lemma later_trans: "db_later a b \<Longrightarrow> db_later b c \<Longrightarrow> db_later a c"
  unfolding db_later_def by (meson same_trans)

lemma row_by_map: "(\<And>x. key (f x) = key x) \<Longrightarrow> row_by key k (map f xs) = map_option f (row_by key k xs)"
  by (induction xs) (auto simp: row_by_def)

lemma touched_later:
  assumes "touched db db'"
  shows "db_later db db'"
proof -
  obtain f g where "ad_sessions db' = map f (ad_sessions db)" "ad_tokens db' = map g (ad_tokens db)"
    and "\<forall>r. same_session r (f r)" "\<forall>t. same_token t (g t)" using assms by (auto simp: touched_def)
  moreover from this have "\<And>r. as_id (f r) = as_id r" "\<And>t. rt_tokenHash (g t) = rt_tokenHash t"
    by (simp_all add: same_session_def same_token_def)
  ultimately show ?thesis
    by (auto simp: db_later_def findSessionById_def findRefreshTokenByHash_def row_by_map)
qed

lemma touched_sessions: "(\<And>r. same_session r (f r)) \<Longrightarrow> touched db (db\<lparr>ad_sessions := map f (ad_sessions db)\<rparr>)"
  unfolding touched_def by (rule exI [of _ f], rule exI [of _ "\<lambda>x. x"]) simp

lemma touched_tokens: "(\<And>t. same_token t (g t)) \<Longrightarrow> touched db (db\<lparr>ad_tokens := map g (ad_tokens db)\<rparr>)"
  unfolding touched_def by (rule exI [of _ "\<lambda>x. x"], rule exI [of _ g]) simp

lemma touched_audit [simp]: "touched db (insertAuditLog l db)"
  unfolding touched_def insertAuditLog_def by (rule exI [of _ "\<lambda>x. x"], rule exI [of _ "\<lambda>x. x"]) simp

lemma touched_statements [simp]:
  "touched db (updateSessionActivity i now e db)" "touched db (db_revokeSession i reason now db)"
  "touched db (fst (db_revokeFamily f reason now db))" "touched db (fst (db_revokeAllUserSessions w reason now db))"
  "touched db (markTokenConsumed h now h' db)" "touched db (revoke_tokens p now db)"
  unfolding updateSessionActivity_def db_revokeSession_def db_revokeFamily_def db_revokeAllUserSessions_def
    markTokenConsumed_def revoke_tokens_def sql_update_def case_prod_conv Let_def fst_conv
  by (rule touched_sessions touched_tokens; simp add: same_session_def same_token_def revoked_session_def)+

lemma touched_revocations [simp]: "touched db (revokeTokensByFamily f now db)"
    "touched db (revokeTokensBySession i now db)" "touched db (revokeTokensByUser w now db)"
  by (simp_all add: revokeTokensByFamily_def revokeTokensBySession_def revokeTokensByUser_def)

lemma auth_insert_later: "insert_session r db = Some db' \<Longrightarrow> db_later db db'"
    "insert_refresh_token t db = Some db' \<Longrightarrow> db_later db db'"
  by (auto simp: insert_session_def insert_refresh_token_def db_later_def findSessionById_def findRefreshTokenByHash_def
      row_by_append split: if_splits)

text \<open>A relation that every statement of a call respects is respected by the call.\<close>

lemma sql_respects:
  assumes "\<And>a b d. R a b \<Longrightarrow> R b d \<Longrightarrow> R a d" and "\<And>a. R a a"
    and "d = at_db s" and "\<And>db. f d = Some db \<Longrightarrow> R d db"
    and "\<And>s'. R (at_db s') (at_db (fst (k s')))"
  shows "R d (at_db (fst (auth_sql env w f s k)))"
proof (cases "ae_fails env w \<or> f (at_db s) = None")
  case True
  then show ?thesis using assms(2,3) by (auto simp: auth_sql_def)
next
  case False
  then obtain db where db: "f d = Some db" using assms(3) by auto
  from assms(1) [OF assms(4) [OF db] assms(5) [of "s\<lparr>at_db := db\<rparr>", simplified]] show ?thesis
    using False db assms(3) by (simp add: auth_sql_def)
qed

lemma touched_sql:
  assumes "d = at_db s" and "\<And>db. touched db (u db)" and "\<And>s'. touched (at_db s') (at_db (fst (k s')))"
  shows "touched d (at_db (fst (auth_sql env w (Some \<circ> u) s k)))"
  by (rule sql_respects [of touched, OF touched_trans touched_refl assms(1) _ assms(3)]) (use assms(2) in auto)

lemma touched_read:
  assumes "d = at_db s" and "\<And>s'. touched (at_db s') (at_db (fst (k s')))"
  shows "touched d (at_db (fst (auth_sql env w Some s k)))"
  by (rule sql_respects [of touched, OF touched_trans touched_refl assms(1) _ assms(2)]) auto

lemma registry_db [simp]: "at_db (set_registry p k now reason s) = at_db s"
  by (simp add: set_registry_def)

lemma fail_audited_touched [simp]: "touched (at_db s) (at_db (fst (fail_audited env l msg s)))"
  unfolding fail_audited_def by (intro touched_sql) simp_all

lemma reuse_touched [simp]: "touched (at_db s) (at_db (fst (reuse_detected env t ip ua s)))"
  unfolding reuse_detected_def Let_def by (intro touched_sql) simp_all

lemma verify_touched [simp]: "touched (at_db s) (at_db (fst (auth_verifyAccessToken c env token s)))"
  unfolding auth_verifyAccessToken_def
  by (auto split: sum.split option.split intro!: touched_read)

lemma revoke_touched [simp]:
  "touched (at_db s) (at_db (fst (revokeSession env i reason ip ua s)))"
  "touched (at_db s) (at_db (fst (revokeFamily env f reason ip ua s)))"
  "touched (at_db s) (at_db (fst (revokeAllUserSessions env w reason ip ua s)))"
  unfolding revokeSession_def revokeFamily_def revokeAllUserSessions_def Let_def
  by (intro touched_sql touched_read; simp)+

subsection \<open>The ends of a call\<close>

lemma update_same [simp]: "s\<lparr>at_db := at_db s\<rparr> = s" for s :: auth_state
  by (cases s) simp

lemma sql_read: "auth_sql env w Some s k = (if ae_fails env w then (s, Inl DbError) else k s)"
  by (simp add: auth_sql_def)

lemma sql_write: "auth_sql env w (Some \<circ> u) s k
  = (if ae_fails env w then (s, Inl DbError) else k (s\<lparr>at_db := u (at_db s)\<rparr>))"
  by (simp add: auth_sql_def)

lemma fail_audited_error [simp]: "\<exists>e. snd (fail_audited env l msg s) = Inl e"
  by (simp add: fail_audited_def sql_write)

lemma reuse_error [simp]: "\<exists>e. snd (reuse_detected env t ip ua s) = Inl e"
  by (simp add: reuse_detected_def sql_write Let_def)

lemma rotate_cases:
  obtains (refused) e where "snd (rotateRefreshToken c env raw ip ua s) = Inl e"
      "touched (at_db s) (at_db (fst (rotateRefreshToken c env raw ip ua s)))"
  | (replaced) t r where "raw \<noteq> ''''" "findRefreshTokenByHash (ac_sha c raw) (at_db s) = Some t"
      "\<not> rt_isConsumed t" "\<not> rt_isRevoked t" "ae_now env \<le> rt_expiresAt t"
      "findSessionById (rt_sessionId t) (at_db s) = Some r" "\<not> as_isRevoked r" "ae_now env \<le> max_session_expiry c r"
      "\<not> registry_has (ae_held env) OfFamily (rt_familyId t) (at_registry s)"
      "\<not> registry_has (ae_held env) OfSession (rt_sessionId t) (at_registry s)"
      "rotateRefreshToken c env raw ip ua s = replace_token c env t r ip ua s"
proof -
  let ?x = "rotateRefreshToken c env raw ip ua s"
  let ?bad = "\<exists>e. snd ?x = Inl e \<and> touched (at_db s) (at_db (fst ?x))"
  show ?thesis
  proof (cases "raw = '''' \<or> ae_fails env FindToken \<or> findRefreshTokenByHash (ac_sha c raw) (at_db s) = None")
    case True
    then have ?bad unfolding rotateRefreshToken_def by (auto simp: sql_read)
    then show ?thesis using refused by blast
  next
    case False
    then obtain t where t: "findRefreshTokenByHash (ac_sha c raw) (at_db s) = Some t" by auto
    show ?thesis
    proof (cases "rt_isConsumed t \<or> rt_isRevoked t \<or> registry_has (ae_held env) OfFamily (rt_familyId t) (at_registry s)
        \<or> registry_has (ae_held env) OfSession (rt_sessionId t) (at_registry s) \<or> rt_expiresAt t < ae_now env
        \<or> ae_fails env FindSession \<or> findSessionById (rt_sessionId t) (at_db s) = None")
      case True
      then have ?bad using False unfolding rotateRefreshToken_def by (auto simp: sql_read t)
      then show ?thesis using refused by blast
    next
      case found: False
      then obtain r where r: "findSessionById (rt_sessionId t) (at_db s) = Some r" by auto
      show ?thesis
      proof (cases "as_isRevoked r \<or> max_session_expiry c r < ae_now env")
        case True
        then have ?bad using False found unfolding rotateRefreshToken_def by (auto simp: sql_read sql_write t r)
        then show ?thesis using refused by blast
      next
        case 3: False
        show ?thesis
          by (rule replaced [of t r]) (use False found 3 in \<open>auto simp: t r rotateRefreshToken_def sql_read\<close>)
      qed
    qed
  qed
qed

lemma replace_cases:
  obtains (failed) "snd (replace_token c env t r ip ua s) = Inl DbError"
      "touched (at_db s) (at_db (fst (replace_token c env t r ip ua s)))"
  | (inserted) db where "insert_refresh_token (new_refresh_token c env r
        (min (ae_now env + ts_refreshTtlSeconds (ac_tokens c) * 1000) (max_session_expiry c r)))
        (markTokenConsumed (rt_tokenHash t) (ae_now env) (ac_sha c (ae_refreshToken env)) (at_db s)) = Some db"
      "touched db (at_db (fst (replace_token c env t r ip ua s)))"
proof -
  let ?m = "markTokenConsumed (rt_tokenHash t) (ae_now env) (ac_sha c (ae_refreshToken env)) (at_db s)"
  let ?n = "new_refresh_token c env r (min (ae_now env + ts_refreshTtlSeconds (ac_tokens c) * 1000) (max_session_expiry c r))"
  show ?thesis
  proof (cases "ae_fails env ConsumeToken \<or> ae_fails env InsertToken \<or> insert_refresh_token ?n ?m = None")
    case True
    then show ?thesis by (intro failed) (auto simp: replace_token_def Let_def sql_write auth_sql_def)
  next
    case False
    then obtain db where db: "insert_refresh_token ?n ?m = Some db" by auto
    have "replace_token c env t r ip ua s = auth_sql env UpdateActivity (Some \<circ> updateSessionActivity (as_id r) (ae_now env)
         (min (ae_now env + ts_refreshTtlSeconds (ac_tokens c) * 1000) (max_session_expiry c r))) (s\<lparr>at_db := db\<rparr>) (\<lambda>s.
         let (accessToken, expiresIn) = access_token c env r
         in auth_sql env (InsertAudit 0) (Some \<circ> insertAuditLog (session_audit env ''TOKEN_ROTATED'' r ip ua
              (JObj [(''previousTokenId'', JStr (rt_id t)), (''newTokenId'', JStr (ae_tokenId env))]))) s (\<lambda>s.
            (s, Inr \<lparr> tr_accessToken = accessToken, tr_refreshToken = ae_refreshToken env, tr_expiresIn = expiresIn \<rparr>)))"
      using False db by (simp add: replace_token_def Let_def sql_write [of env ConsumeToken]) (simp add: auth_sql_def [of env InsertToken])
    moreover have "touched db (at_db (fst \<dots>))"
      unfolding case_prod_unfold Let_def by (intro touched_sql) simp_all
    ultimately show ?thesis using inserted [OF db] by simp
  qed
qed

lemma create_cases:
  obtains (failed) e where "createSession c env w d n ip ua s = (s, Inl e)"
  | (alone) db e where "insert_session (new_session c env w d n ip ua) (at_db s) = Some db"
      "createSession c env w d n ip ua s = (s\<lparr>at_db := db\<rparr>, Inl e)"
  | (inserted) db1 db2 where "insert_session (new_session c env w d n ip ua) (at_db s) = Some db1"
      "insert_refresh_token (new_refresh_token c env (new_session c env w d n ip ua)
         (as_expiresAt (new_session c env w d n ip ua))) db1 = Some db2"
      "touched db2 (at_db (fst (createSession c env w d n ip ua s)))"
      "at_registry (fst (createSession c env w d n ip ua s)) = at_registry s"
proof -
  let ?r = "new_session c env w d n ip ua"
  let ?t = "new_refresh_token c env ?r (as_expiresAt ?r)"
  show ?thesis
  proof (cases "ae_fails env InsertSession \<or> insert_session ?r (at_db s) = None")
    case True
    then show ?thesis by (intro failed) (auto simp: createSession_def auth_sql_def Let_def)
  next
    case False
    then obtain db1 where db1: "insert_session ?r (at_db s) = Some db1" by auto
    show ?thesis
    proof (cases "ae_fails env InsertToken \<or> insert_refresh_token ?t db1 = None")
      case True
      then show ?thesis using False db1 by (intro alone [OF db1]) (auto simp: createSession_def auth_sql_def Let_def)
    next
      case ok: False
      then obtain db2 where db2: "insert_refresh_token ?t db1 = Some db2" by auto
      show ?thesis
        by (rule inserted [OF db1 db2]) (use False ok db1 db2 in \<open>simp_all add: createSession_def auth_sql_def Let_def case_prod_unfold\<close>)
    qed
  qed
qed

lemma consume_later: "db_later db (markTokenConsumed h now h' db)"
  by (simp add: touched_later)

lemma step_later: "db_later (at_db s) (at_db (auth_step c x s))"
proof -
  obtain op env where x: "x = (op, env)" by (cases x)
  show ?thesis unfolding x
  proof (cases op)
    case (OpCreate w d n ip ua)
    show "db_later (at_db s) (at_db (auth_step c (op, env) s))"
      by (rule create_cases [of c env w d n ip ua s])
        (auto simp: OpCreate dest!: auth_insert_later touched_later intro: later_trans later_trans [OF later_trans])
  next
    case (OpRotate raw ip ua)
    show "db_later (at_db s) (at_db (auth_step c (op, env) s))"
    proof (rule rotate_cases [of c env raw ip ua s])
      fix t r
      assume e: "rotateRefreshToken c env raw ip ua s = replace_token c env t r ip ua s"
      show ?thesis
        by (rule replace_cases [of c env t r ip ua s])
          (auto simp: OpRotate e dest!: auth_insert_later touched_later intro: later_trans [OF consume_later later_trans])
    qed (simp add: OpRotate touched_later)
  qed (simp_all add: touched_later)
qed

lemma run_later: "db_later (at_db s) (at_db (auth_run c xs s))"
  unfolding auth_run_def
  by (induction xs arbitrary: s) (auto intro: later_trans step_later)

subsection \<open>One live token per session\<close>

definition live_tokens :: "string \<Rightarrow> auth_db \<Rightarrow> refresh_token list" where
  "live_tokens i db = filter (\<lambda>t. rt_sessionId t = i \<and> \<not> rt_isConsumed t) (ad_tokens db)"

definition auth_ok :: "auth_db \<Rightarrow> bool" where
  "auth_ok db \<longleftrightarrow> distinct (map as_id (ad_sessions db)) \<and> distinct (map rt_tokenHash (ad_tokens db))
     \<and> (\<forall>t \<in> set (ad_tokens db). \<exists>r \<in> set (ad_sessions db). as_id r = rt_sessionId t
          \<and> as_familyId r = rt_familyId t \<and> as_walletPublicKey r = rt_walletPublicKey t)
     \<and> (\<forall>i. length (live_tokens i db) \<le> 1)"

lemma touched_ok:
  assumes "auth_ok db" and "touched db db'"
  shows "auth_ok db'"
proof -
  obtain f g where m: "ad_sessions db' = map f (ad_sessions db)" "ad_tokens db' = map g (ad_tokens db)"
    and f: "\<forall>r. same_session r (f r)" and g: "\<forall>t. same_token t (g t)" using assms(2) by (auto simp: touched_def)
  have k: "map as_id (ad_sessions db') = map as_id (ad_sessions db)" "map rt_tokenHash (ad_tokens db') = map rt_tokenHash (ad_tokens db)"
    using f g by (simp_all add: m same_session_def same_token_def)
  have "length (live_tokens i db') \<le> length (live_tokens i db)" for i
    using g by (auto simp: live_tokens_def m filter_map comp_def same_token_def intro!: filter_length_mono)
  moreover have "\<exists>r \<in> set (ad_sessions db'). as_id r = rt_sessionId t' \<and> as_familyId r = rt_familyId t'
      \<and> as_walletPublicKey r = rt_walletPublicKey t'" if t': "t' \<in> set (ad_tokens db')" for t'
  proof -
    obtain t where t: "t \<in> set (ad_tokens db)" "t' = g t" using t' unfolding m(2) by auto
    then obtain r where "r \<in> set (ad_sessions db)" "as_id r = rt_sessionId t" "as_familyId r = rt_familyId t"
      "as_walletPublicKey r = rt_walletPublicKey t" using assms(1) by (auto simp: auth_ok_def)
    then show ?thesis using f g t by (intro bexI [of _ "f r"]) (auto simp: m same_session_def same_token_def)
  qed
  ultimately show ?thesis using assms(1) unfolding auth_ok_def k by (meson le_trans)
qed

lemma insert_session_ok:
  assumes "auth_ok db" and "insert_session r db = Some db'"
  shows "auth_ok db'" and "live_tokens (as_id r) db' = []" and "r \<in> set (ad_sessions db')"
proof -
  have d: "db' = db\<lparr>ad_sessions := ad_sessions db @ [r]\<rparr>" "row_by as_id (as_id r) (ad_sessions db) = None"
    using assms(2) by (auto simp: insert_session_def split: if_splits)
  then show "auth_ok db'" "r \<in> set (ad_sessions db')"
    using assms(1) by (auto simp: auth_ok_def live_tokens_def row_by_None image_iff)
  have "rt_sessionId t \<noteq> as_id r" if "t \<in> set (ad_tokens db)" for t
    using assms(1) d(2) that unfolding auth_ok_def row_by_None by (metis imageI)
  then show "live_tokens (as_id r) db' = []" by (auto simp: live_tokens_def d(1) filter_empty_conv)
qed

lemma insert_token_ok:
  assumes "auth_ok db" and "insert_refresh_token t db = Some db'" and "live_tokens (rt_sessionId t) db = []"
    and "r \<in> set (ad_sessions db)" and "as_id r = rt_sessionId t" and "as_familyId r = rt_familyId t"
    and "as_walletPublicKey r = rt_walletPublicKey t"
  shows "auth_ok db'"
proof -
  have d: "db' = db\<lparr>ad_tokens := ad_tokens db @ [t]\<rparr>" "row_by rt_tokenHash (rt_tokenHash t) (ad_tokens db) = None"
    using assms(2) by (auto simp: insert_refresh_token_def split: if_splits)
  have "length (live_tokens i db') \<le> 1" for i
    using assms(1,3) by (cases "i = rt_sessionId t") (auto simp: auth_ok_def live_tokens_def d)
  then show ?thesis using assms(1,4-7) d(2) unfolding auth_ok_def d(1)
    by (auto simp: row_by_None image_iff)
qed

text \<open>Consuming the only live token of a session leaves none.\<close>

lemma consumed_none_left:
  assumes "auth_ok db" and "findRefreshTokenByHash h db = Some t" and "\<not> rt_isConsumed t"
  shows "live_tokens (rt_sessionId t) (markTokenConsumed h now h' db) = []"
proof -
  have t: "t \<in> set (ad_tokens db)" "rt_tokenHash t = h"
    using assms(2) by (auto simp: findRefreshTokenByHash_def dest: row_by_Some)
  then have "t \<in> set (live_tokens (rt_sessionId t) db)" using assms(3) by (simp add: live_tokens_def)
  moreover have "length (live_tokens (rt_sessionId t) db) \<le> 1" using assms(1) by (simp add: auth_ok_def)
  ultimately have "live_tokens (rt_sessionId t) db = [t]"
    by (cases "live_tokens (rt_sessionId t) db"; cases "tl (live_tokens (rt_sessionId t) db)") auto
  then have "set (live_tokens (rt_sessionId t) db) = {t}" by simp
  then have only: "u = t" if "u \<in> set (ad_tokens db)" "rt_sessionId u = rt_sessionId t" "\<not> rt_isConsumed u" for u
    using that unfolding live_tokens_def by auto
  show ?thesis
    using only t(2) by (auto simp: live_tokens_def markTokenConsumed_def sql_update_def filter_empty_conv)
qed

lemma auth_step_ok:
  assumes "auth_ok (at_db s)"
  shows "auth_ok (at_db (auth_step c x s))"
proof -
  obtain op env where x: "x = (op, env)" by (cases x)
  show ?thesis unfolding x
  proof (cases op)
    case (OpCreate w d n ip ua)
    let ?r = "new_session c env w d n ip ua"
    show "auth_ok (at_db (auth_step c (op, env) s))"
    proof (rule create_cases [of c env w d n ip ua s])
      fix db1 db2
      assume 1: "insert_session ?r (at_db s) = Some db1"
        and 2: "insert_refresh_token (new_refresh_token c env ?r (as_expiresAt ?r)) db1 = Some db2"
        and 3: "touched db2 (at_db (fst (createSession c env w d n ip ua s)))"
      have "auth_ok db2"
        by (rule insert_token_ok [OF insert_session_ok(1) [OF assms 1] 2 _ insert_session_ok(3) [OF assms 1]])
          (use insert_session_ok(2) [OF assms 1] in \<open>simp_all add: new_refresh_token_def\<close>)
      then show ?thesis using touched_ok [OF _ 3] by (simp add: OpCreate)
    qed (use assms in \<open>auto simp: OpCreate dest: insert_session_ok(1)\<close>)
  next
    case (OpRotate raw ip ua)
    show "auth_ok (at_db (auth_step c (op, env) s))"
    proof (rule rotate_cases [of c env raw ip ua s])
      fix t r
      assume t: "findRefreshTokenByHash (ac_sha c raw) (at_db s) = Some t" "\<not> rt_isConsumed t"
        and r: "findSessionById (rt_sessionId t) (at_db s) = Some r"
        and e: "rotateRefreshToken c env raw ip ua s = replace_token c env t r ip ua s"
      have h: "rt_tokenHash t = ac_sha c raw" "t \<in> set (ad_tokens (at_db s))"
        using t by (auto simp: findRefreshTokenByHash_def dest: row_by_Some)
      have rr: "r \<in> set (ad_sessions (at_db s))" "as_id r = rt_sessionId t"
        using r by (auto simp: findSessionById_def dest: row_by_Some)
      let ?db = "markTokenConsumed (ac_sha c raw) (ae_now env) (ac_sha c (ae_refreshToken env)) (at_db s)"
      have ok: "auth_ok ?db" by (rule touched_ok [OF assms]) simp
      have r': "r \<in> set (ad_sessions ?db)" using rr by (simp add: markTokenConsumed_def)
      show ?thesis
      proof (rule replace_cases [of c env t r ip ua s])
        fix db
        assume i: "insert_refresh_token (new_refresh_token c env r
            (min (ae_now env + ts_refreshTtlSeconds (ac_tokens c) * 1000) (max_session_expiry c r)))
            (markTokenConsumed (rt_tokenHash t) (ae_now env) (ac_sha c (ae_refreshToken env)) (at_db s)) = Some db"
          and p: "touched db (at_db (fst (replace_token c env t r ip ua s)))"
        have "auth_ok db"
          by (rule insert_token_ok [OF ok i [unfolded h(1)] _ r'])
            (use consumed_none_left [OF assms t] rr in \<open>simp_all add: new_refresh_token_def\<close>)
        then show ?thesis using touched_ok [OF _ p] by (simp add: OpRotate e)
      qed (use assms e in \<open>auto simp: OpRotate intro: touched_ok\<close>)
    qed (use assms in \<open>auto simp: OpRotate intro: touched_ok\<close>)
  qed (use assms in \<open>auto intro: touched_ok [OF assms]\<close>)
qed

lemma auth_run_ok: "auth_ok (at_db s) \<Longrightarrow> auth_ok (at_db (auth_run c xs s))"
  unfolding auth_run_def by (induction xs arbitrary: s) (auto intro: auth_step_ok)

text \<open>
  C16. One live token per session. In every history of calls, with any failing statements and any
  lapses of the registry, a session has at most one refresh token that was not consumed, hashes are
  unique, and every token belongs to a session of its family and wallet.
\<close>

theorem one_live_token_per_session:
  "\<exists>db. at_db (auth_run c xs empty_auth) = db \<and> (\<forall>i. length (live_tokens i db) \<le> 1)
    \<and> distinct (map as_id (ad_sessions db)) \<and> distinct (map rt_tokenHash (ad_tokens db))
    \<and> (\<forall>t \<in> set (ad_tokens db). \<exists>r. findSessionById (rt_sessionId t) db = Some r
        \<and> as_familyId r = rt_familyId t \<and> as_walletPublicKey r = rt_walletPublicKey t)"
proof -
  have "auth_ok (at_db empty_auth)" by (simp add: auth_ok_def empty_auth_def live_tokens_def)
  then have ok: "auth_ok (at_db (auth_run c xs empty_auth))" by (rule auth_run_ok)
  then show ?thesis unfolding auth_ok_def findSessionById_def by (metis row_by_mem)
qed

subsection \<open>Revocation\<close>

text \<open>No access token of the session is accepted and no refresh token of it is rotated.\<close>

definition session_refused :: "auth_config \<Rightarrow> string \<Rightarrow> auth_state \<Rightarrow> bool" where
  "session_refused c i s \<longleftrightarrow>
     (\<forall>env token p. verifyAccessToken (ac_hmac c) (ac_tokens c) (ae_now env) token = Inr p \<longrightarrow> ap_sessionId p = i
        \<longrightarrow> (\<exists>e. snd (auth_verifyAccessToken c env token s) = Inl e))
   \<and> (\<forall>env raw ip ua t. findRefreshTokenByHash (ac_sha c raw) (at_db s) = Some t \<longrightarrow> rt_sessionId t = i
        \<longrightarrow> (\<exists>e. snd (rotateRefreshToken c env raw ip ua s) = Inl e))
   \<and> (\<forall>w. i \<notin> as_id ` set (listUserSessions w s))"

lemma revoked_refused:
  assumes "findSessionById i (at_db s) = Some r" and "as_isRevoked r" and "auth_ok (at_db s)"
  shows "session_refused c i s"
  unfolding session_refused_def
proof (intro conjI allI impI)
  fix env :: auth_env and token p
  assume "verifyAccessToken (ac_hmac c) (ac_tokens c) (ae_now env) token = Inr p" "ap_sessionId p = i"
  then show "\<exists>e. snd (auth_verifyAccessToken c env token s) = Inl e"
    using assms(1,2) by (auto simp: auth_verifyAccessToken_def sql_read)
next
  fix env :: auth_env and raw ip ua t
  assume t: "findRefreshTokenByHash (ac_sha c raw) (at_db s) = Some t" "rt_sessionId t = i"
  show "\<exists>e. snd (rotateRefreshToken c env raw ip ua s) = Inl e"
    by (rule rotate_cases [of c env raw ip ua s]) (use t assms(1,2) in auto)
next
  fix w
  show "i \<notin> as_id ` set (listUserSessions w s)"
  proof
    assume "i \<in> as_id ` set (listUserSessions w s)"
    then obtain r' where "r' \<in> set (ad_sessions (at_db s))" "as_id r' = i" "\<not> as_isRevoked r'"
      by (auto simp: listUserSessions_def listActiveSessions_def)
    then show False using assms row_by_mem [of as_id "ad_sessions (at_db s)" r']
      by (auto simp: auth_ok_def findSessionById_def)
  qed
qed

lemma revoked_for_good:
  assumes "findSessionById i (at_db s) = Some r" and "as_isRevoked r" and "auth_ok (at_db s)"
  shows "session_refused c i (auth_run c xs s)"
proof -
  obtain r' where "findSessionById i (at_db (auth_run c xs s)) = Some r'" "same_session r r'"
    using run_later [of s c xs] assms(1) unfolding db_later_def by blast
  then show ?thesis using assms(2) revoked_refused [OF _ _ auth_run_ok [OF assms(3)]] by (auto simp: same_session_def)
qed

definition revokes :: "auth_op \<Rightarrow> auth_session \<Rightarrow> bool" where
  "revokes op r = (case op of OpRevokeSession i _ \<Rightarrow> i = as_id r | OpRevokeFamily f _ \<Rightarrow> f = as_familyId r
     | OpRevokeAll w _ \<Rightarrow> w = as_walletPublicKey r | _ \<Rightarrow> False)"

lemma revoked_row:
  assumes "findSessionById i (at_db s) = Some r" and "revokes op r"
    and "\<not> ae_fails env FindSession" and "\<not> ae_fails env RevokeSessions"
  shows "\<exists>r'. findSessionById i (at_db (auth_step c (op, env) s)) = Some r' \<and> as_isRevoked r'"
proof -
  have i: "as_id r = i" using assms(1) by (auto simp: findSessionById_def dest: row_by_Some)
  have "\<exists>db r'. findSessionById i db = Some r' \<and> as_isRevoked r' \<and> touched db (at_db (auth_step c (op, env) s))"
  proof (cases op)
    case (OpRevokeSession j reason)
    let ?db = "db_revokeSession j reason (ae_now env) (at_db s)"
    have "touched ?db (at_db (auth_step c (op, env) s))"
      unfolding OpRevokeSession auth_step.simps revokeSession_def Let_def sql_read using assms(3,4)
      by (subst sql_write) (auto intro!: touched_sql)
    moreover have "\<exists>r'. findSessionById i ?db = Some r' \<and> as_isRevoked r'"
      using assms(1,2) i by (auto simp: OpRevokeSession revokes_def db_revokeSession_def sql_update_def findSessionById_def row_by_update revoked_session_def)
    ultimately show ?thesis by blast
  next
    case (OpRevokeFamily f reason)
    let ?db = "fst (db_revokeFamily f reason (ae_now env) (at_db s))"
    have "touched ?db (at_db (auth_step c (op, env) s))"
      unfolding OpRevokeFamily auth_step.simps revokeFamily_def Let_def using assms(4)
      by (subst sql_write) (auto intro!: touched_sql)
    moreover have "\<exists>r'. findSessionById i ?db = Some r' \<and> as_isRevoked r'"
      using assms(1,2) by (auto simp: OpRevokeFamily revokes_def db_revokeFamily_def sql_update_def findSessionById_def row_by_update revoked_session_def)
    ultimately show ?thesis by blast
  next
    case (OpRevokeAll w reason)
    let ?db = "fst (db_revokeAllUserSessions w reason (ae_now env) (at_db s))"
    have "touched ?db (at_db (auth_step c (op, env) s))"
      unfolding OpRevokeAll auth_step.simps revokeAllUserSessions_def Let_def using assms(4)
      by (subst sql_write) (auto intro!: touched_sql)
    moreover have "\<exists>r'. findSessionById i ?db = Some r' \<and> as_isRevoked r'"
      using assms(1,2) by (auto simp: OpRevokeAll revokes_def db_revokeAllUserSessions_def sql_update_def findSessionById_def row_by_update revoked_session_def)
    ultimately show ?thesis by blast
  qed (use assms(2) in \<open>simp_all add: revokes_def\<close>)
  then obtain db r' where d: "findSessionById i db = Some r'" "as_isRevoked r'" "db_later db (at_db (auth_step c (op, env) s))"
    using touched_later by blast
  then show ?thesis unfolding db_later_def same_session_def by blast
qed

text \<open>
  C7. Revocation is final. Once the statement on the sessions of a logout, of a revoked family or of a
  logout everywhere has run, whatever fails after it, no access token of the session is accepted, no
  refresh token of it is rotated and no listing shows it: not in any later history, after restarts
  and whatever the registry in memory has forgotten.
\<close>

theorem revocation_is_final:
  assumes "auth_ok (at_db s)" and "findSessionById i (at_db s) = Some r" and "revokes op r"
    and "\<not> ae_fails env FindSession" and "\<not> ae_fails env RevokeSessions"
  shows "session_refused c i (auth_run c xs (auth_step c (op, env) s))"
  using revoked_row [OF assms(2-5)] revoked_for_good auth_step_ok [OF assms(1)] by blast

subsection \<open>Rotation\<close>

lemma replace_success:
  assumes "replace_token c env t r ip ua s = (s', Inr resp)"
  obtains db where "insert_refresh_token (new_refresh_token c env r
        (min (ae_now env + ts_refreshTtlSeconds (ac_tokens c) * 1000) (max_session_expiry c r)))
        (markTokenConsumed (rt_tokenHash t) (ae_now env) (ac_sha c (ae_refreshToken env)) (at_db s)) = Some db"
    "touched db (at_db s')" "ad_tokens (at_db s') = ad_tokens db"
    "resp = \<lparr> tr_accessToken = fst (access_token c env r), tr_refreshToken = ae_refreshToken env,
       tr_expiresIn = snd (access_token c env r) \<rparr>"
proof (rule replace_cases [of c env t r ip ua s])
  fix db
  assume i: "insert_refresh_token (new_refresh_token c env r
        (min (ae_now env + ts_refreshTtlSeconds (ac_tokens c) * 1000) (max_session_expiry c r)))
        (markTokenConsumed (rt_tokenHash t) (ae_now env) (ac_sha c (ae_refreshToken env)) (at_db s)) = Some db"
    and p: "touched db (at_db (fst (replace_token c env t r ip ua s)))"
  have "ad_tokens (at_db s') = ad_tokens db \<and> resp = \<lparr> tr_accessToken = fst (access_token c env r),
      tr_refreshToken = ae_refreshToken env, tr_expiresIn = snd (access_token c env r) \<rparr>"
    using assms i by (auto simp: replace_token_def Let_def auth_sql_def updateSessionActivity_def insertAuditLog_def
        case_prod_unfold split: if_splits option.splits)
  then show thesis using that [OF i] p assms by simp
qed (use assms in simp)

lemma rotated_tokens:
  assumes "rotateRefreshToken c env raw ip ua s = (s', Inr resp)"
  obtains t r where "raw \<noteq> ''''" "findRefreshTokenByHash (ac_sha c raw) (at_db s) = Some t" "\<not> rt_isConsumed t" "\<not> rt_isRevoked t"
    "ae_now env \<le> rt_expiresAt t" "findSessionById (rt_sessionId t) (at_db s) = Some r" "\<not> as_isRevoked r"
    "ae_now env \<le> max_session_expiry c r"
    "\<not> registry_has (ae_held env) OfFamily (rt_familyId t) (at_registry s)"
    "\<not> registry_has (ae_held env) OfSession (rt_sessionId t) (at_registry s)"
    "rt_tokenHash t = ac_sha c raw" "replace_token c env t r ip ua s = (s', Inr resp)"
proof (rule rotate_cases [of c env raw ip ua s])
  fix t r
  assume t: "raw \<noteq> ''''" "findRefreshTokenByHash (ac_sha c raw) (at_db s) = Some t" "\<not> rt_isConsumed t" "\<not> rt_isRevoked t"
    "ae_now env \<le> rt_expiresAt t" "findSessionById (rt_sessionId t) (at_db s) = Some r" "\<not> as_isRevoked r"
    "ae_now env \<le> max_session_expiry c r"
    "\<not> registry_has (ae_held env) OfFamily (rt_familyId t) (at_registry s)"
    "\<not> registry_has (ae_held env) OfSession (rt_sessionId t) (at_registry s)"
    and e: "rotateRefreshToken c env raw ip ua s = replace_token c env t r ip ua s"
  have h: "rt_tokenHash t = ac_sha c raw" using t(2) by (auto simp: findRefreshTokenByHash_def dest: row_by_Some)
  show thesis by (rule that [OF t h]) (use assms e in simp)
qed (use assms in simp)

text \<open>The token presented is consumed from then on.\<close>

lemma rotated_consumed:
  assumes "rotateRefreshToken c env raw ip ua s = (s', Inr resp)" and "findRefreshTokenByHash (ac_sha c raw) (at_db s) = Some t"
  shows "\<exists>t'. findRefreshTokenByHash (ac_sha c raw) (at_db s') = Some t' \<and> same_token t t' \<and> rt_isConsumed t'"
proof -
  obtain t0 r where e: "replace_token c env t0 r ip ua s = (s', Inr resp)" and t0: "rt_tokenHash t0 = ac_sha c raw"
    using assms(1) by (rule rotated_tokens)
  from e obtain db where db: "insert_refresh_token (new_refresh_token c env r
        (min (ae_now env + ts_refreshTtlSeconds (ac_tokens c) * 1000) (max_session_expiry c r)))
        (markTokenConsumed (rt_tokenHash t0) (ae_now env) (ac_sha c (ae_refreshToken env)) (at_db s)) = Some db"
    and p: "touched db (at_db s')"
    by (rule replace_success)
  have h: "rt_tokenHash t = ac_sha c raw" using assms(2) by (auto simp: findRefreshTokenByHash_def dest: row_by_Some)
  let ?db = "markTokenConsumed (ac_sha c raw) (ae_now env) (ac_sha c (ae_refreshToken env)) (at_db s)"
  obtain t1 where t1: "findRefreshTokenByHash (ac_sha c raw) ?db = Some t1" "same_token t t1" "rt_isConsumed t1"
    using assms(2) h by (auto simp: findRefreshTokenByHash_def markTokenConsumed_def sql_update_def row_by_update same_token_def)
  have "db_later ?db (at_db s')" using later_trans [OF auth_insert_later(2) [OF db] touched_later [OF p]] by (simp add: t0)
  then obtain t' where "findRefreshTokenByHash (ac_sha c raw) (at_db s') = Some t'" "same_token t1 t'"
    using t1(1) unfolding db_later_def by blast
  then show ?thesis using t1(2,3) same_trans(2) [of t t1 t'] by (auto simp: same_token_def)
qed

lemma revoked_family:
  assumes "auth_ok (at_db s)" and "r \<in> set (ad_sessions (at_db s))" and "as_isRevoked r"
  shows "session_refused c (as_id r) (auth_run c xs s)"
  using assms by (intro revoked_for_good [of "as_id r" s r]) (auto simp: auth_ok_def findSessionById_def row_by_mem)

lemma consumed_presented:
  assumes "auth_ok (at_db s)" and "raw \<noteq> ''''" and "findRefreshTokenByHash (ac_sha c raw) (at_db s) = Some t" and "rt_isConsumed t"
    and "\<forall>w. \<not> ae_fails env w" and "rotateRefreshToken c env raw ip ua s = (s', res)"
  shows "res = Inl (AuthenticationError ''Token reuse detected. All sessions in this family have been revoked.'')
    \<and> (\<forall>u \<in> set (ad_tokens (at_db s')). rt_familyId u = rt_familyId t \<longrightarrow> rt_isRevoked u)
    \<and> (\<forall>r \<in> set (ad_sessions (at_db s')). as_familyId r = rt_familyId t \<longrightarrow>
        as_isRevoked r \<and> (\<forall>xs. session_refused c (as_id r) (auth_run c xs s')))
    \<and> (\<exists>l1 l2. ad_audit (at_db s') = ad_audit (at_db s) @ [l1, l2]
        \<and> al_status l1 = AuditAlert \<and> al_status l2 = AuditAlert \<and> al_familyId l1 = Some (rt_familyId t))"
proof -
  have e: "rotateRefreshToken c env raw ip ua s = reuse_detected env t ip ua s"
    using assms(2-5) by (simp add: rotateRefreshToken_def sql_read)
  have ok: "auth_ok (at_db s')"
    using auth_step_ok [OF assms(1), of c "(OpRotate raw ip ua, env)"] assms(6) by simp
  note eff = reuse_detected_def Let_def sql_write set_registry_def insertAuditLog_def revokeTokensByFamily_def
    revoke_tokens_def db_revokeFamily_def sql_update_def audit_of_def
  have s': "res = Inl (AuthenticationError ''Token reuse detected. All sessions in this family have been revoked.'')"
    "ad_sessions (at_db s') = map (\<lambda>r. if as_familyId r = rt_familyId t \<and> \<not> as_isRevoked r
       then revoked_session ''Token reuse detected - potential token theft'' (ae_now env) r else r) (ad_sessions (at_db s))"
    "ad_tokens (at_db s') = map (\<lambda>u. if rt_familyId u = rt_familyId t \<and> \<not> rt_isRevoked u
       then u\<lparr>rt_isRevoked := True, rt_revokedAt := Some (ae_now env)\<rparr> else u) (ad_tokens (at_db s))"
    "\<exists>l1 l2. ad_audit (at_db s') = ad_audit (at_db s) @ [l1, l2]
       \<and> al_status l1 = AuditAlert \<and> al_status l2 = AuditAlert \<and> al_familyId l1 = Some (rt_familyId t)"
    using assms(5,6) unfolding e by (auto simp: eff)
  have "\<forall>r \<in> set (ad_sessions (at_db s')). as_familyId r = rt_familyId t \<longrightarrow> as_isRevoked r"
    by (auto simp: s'(2) revoked_session_def)
  moreover have "\<forall>u \<in> set (ad_tokens (at_db s')). rt_familyId u = rt_familyId t \<longrightarrow> rt_isRevoked u" by (auto simp: s'(3))
  ultimately show ?thesis using s'(1,4) revoked_family [OF ok] by blast
qed

text \<open>
  C3. A stolen token costs the thief the session. If a refresh token was rotated and is presented
  again, by whom ever and after whatever history, the answer is the error of a reused token; every
  session and every refresh token of its family is then revoked, two alerts are in the audit log, and
  no session of the family is ever served again.
\<close>

theorem reused_token_ends_the_family:
  assumes "auth_ok (at_db s)" and "rotateRefreshToken c env raw ip ua s = (s1, Inr resp)"
    and "rotateRefreshToken c env' raw ip' ua' (auth_run c xs s1) = (s2, res)" and "\<forall>w. \<not> ae_fails env' w"
  shows "res = Inl (AuthenticationError ''Token reuse detected. All sessions in this family have been revoked.'')
    \<and> (\<exists>t. findRefreshTokenByHash (ac_sha c raw) (at_db s) = Some t
      \<and> (\<forall>u \<in> set (ad_tokens (at_db s2)). rt_familyId u = rt_familyId t \<longrightarrow> rt_isRevoked u)
      \<and> (\<forall>r \<in> set (ad_sessions (at_db s2)). as_familyId r = rt_familyId t \<longrightarrow>
          as_isRevoked r \<and> (\<forall>ys. session_refused c (as_id r) (auth_run c ys s2)))
      \<and> (\<exists>l1 l2. ad_audit (at_db s2) = ad_audit (at_db (auth_run c xs s1)) @ [l1, l2]
          \<and> al_status l1 = AuditAlert \<and> al_status l2 = AuditAlert \<and> al_familyId l1 = Some (rt_familyId t)))"
proof -
  obtain t where t: "raw \<noteq> ''''" "findRefreshTokenByHash (ac_sha c raw) (at_db s) = Some t"
    using assms(2) by (rule rotated_tokens)
  let ?s = "auth_run c xs s1"
  obtain t1 where t1: "findRefreshTokenByHash (ac_sha c raw) (at_db s1) = Some t1" "same_token t t1" "rt_isConsumed t1"
    using rotated_consumed [OF assms(2) t(2)] by blast
  obtain t2 where t2: "findRefreshTokenByHash (ac_sha c raw) (at_db ?s) = Some t2" "same_token t1 t2"
    using run_later [of s1 c xs] t1(1) unfolding db_later_def by blast
  have f: "rt_familyId t2 = rt_familyId t" "rt_isConsumed t2" using t1(2,3) t2(2) by (auto simp: same_token_def)
  have "auth_ok (at_db s1)" using auth_step_ok [OF assms(1), of c "(OpRotate raw ip ua, env)"] assms(2) by simp
  then have ok: "auth_ok (at_db ?s)" by (rule auth_run_ok)
  show ?thesis using consumed_presented [OF ok t(1) t2(1) f(2) assms(4,3)] t(2) unfolding f(1) by blast
qed

text \<open>
  C17. Sliding does not extend a session for ever. A rotation that succeeds happens before its token's
  expiry and within the lifetime of its session; the new token expires within that lifetime, and the
  access token that comes with it is accepted for that session only and no longer than one access
  lifetime after the session's end.
\<close>

theorem session_lifetime_bounded:
  assumes "rotateRefreshToken c env raw ip ua s = (s', Inr resp)"
    and "0 \<le> ae_now env" and "ae_now env div 1000 \<le> 2 ^ 52"
    and "0 < ts_accessTtlSeconds (ac_tokens c)" and "ts_accessTtlSeconds (ac_tokens c) \<le> 2 ^ 52"
  shows "\<exists>t r n. findRefreshTokenByHash (ac_sha c raw) (at_db s) = Some t \<and> findSessionById (rt_sessionId t) (at_db s) = Some r
    \<and> ae_now env \<le> rt_expiresAt t \<and> ae_now env \<le> max_session_expiry c r
    \<and> findRefreshTokenByHash (ac_sha c (tr_refreshToken resp)) (at_db s') = Some n
    \<and> rt_sessionId n = as_id r \<and> rt_expiresAt n \<le> max_session_expiry c r \<and> \<not> rt_isConsumed n \<and> \<not> rt_isRevoked n
    \<and> (\<forall>now p. verifyAccessToken (ac_hmac c) (ac_tokens c) now (tr_accessToken resp) = Inr p \<longrightarrow>
        ap_sessionId p = as_id r \<and> now div 1000 \<le> max_session_expiry c r div 1000 + ts_accessTtlSeconds (ac_tokens c))"
proof -
  obtain t r where t: "findRefreshTokenByHash (ac_sha c raw) (at_db s) = Some t" "ae_now env \<le> rt_expiresAt t"
      "findSessionById (rt_sessionId t) (at_db s) = Some r" "ae_now env \<le> max_session_expiry c r"
    and e: "replace_token c env t r ip ua s = (s', Inr resp)"
    using assms(1) by (rule rotated_tokens)
  obtain db where db: "insert_refresh_token (new_refresh_token c env r
        (min (ae_now env + ts_refreshTtlSeconds (ac_tokens c) * 1000) (max_session_expiry c r)))
        (markTokenConsumed (rt_tokenHash t) (ae_now env) (ac_sha c (ae_refreshToken env)) (at_db s)) = Some db"
      "ad_tokens (at_db s') = ad_tokens db"
    and resp: "resp = \<lparr> tr_accessToken = fst (access_token c env r), tr_refreshToken = ae_refreshToken env,
       tr_expiresIn = snd (access_token c env r) \<rparr>"
    using e by (rule replace_success)
  let ?n = "new_refresh_token c env r (min (ae_now env + ts_refreshTtlSeconds (ac_tokens c) * 1000) (max_session_expiry c r))"
  have n: "findRefreshTokenByHash (ac_sha c (tr_refreshToken resp)) (at_db s') = Some ?n"
    using db by (auto simp: resp findRefreshTokenByHash_def insert_refresh_token_def row_by_append new_refresh_token_def
        row_by_def [of _ _ "[_]"] split: if_splits)
  have v: "verifyAccessToken (ac_hmac c) (ac_tokens c) now (tr_accessToken resp)
      = (if ae_now env div 1000 + ts_accessTtlSeconds (ac_tokens c) < now div 1000 then Inl TokenExpired
         else Inr (new_payload (ac_tokens c) (ae_now env) (ae_jti env) (as_walletPublicKey r) (as_id r) (as_familyId r) (as_deviceId r)))" for now
    unfolding resp auth_tokens.simps access_token_def
    using issued_token [of "ae_now env" "ac_tokens c"] assms(2-5) by simp
  have "ae_now env div 1000 \<le> max_session_expiry c r div 1000" using t(4) by (rule zdiv_mono1) simp
  then have "ap_sessionId p = as_id r \<and> now div 1000 \<le> max_session_expiry c r div 1000 + ts_accessTtlSeconds (ac_tokens c)"
    if "verifyAccessToken (ac_hmac c) (ac_tokens c) now (tr_accessToken resp) = Inr p" for now p
    using that unfolding v by (auto simp: new_payload_def Let_def split: if_splits)
  moreover have "rt_sessionId ?n = as_id r \<and> rt_expiresAt ?n \<le> max_session_expiry c r \<and> \<not> rt_isConsumed ?n \<and> \<not> rt_isRevoked ?n"
    by (simp add: new_refresh_token_def)
  ultimately show ?thesis using t n by blast
qed

text \<open>
  C21. An interrupted rotation locks the client out. The old token is consumed before the new one is
  stored, in two statements. If the second one fails, the client gets an error and no token; when it
  tries again with the only token it has, that counts as theft, and its session is gone for good.
\<close>

theorem interrupted_rotation_locks_out:
  assumes "auth_ok (at_db s)" and "rotateRefreshToken c (env\<lparr>ae_fails := \<lambda>_. False\<rparr>) raw ip ua s = (s0, Inr resp)"
    and "ae_fails env = (\<lambda>w. w = InsertToken)" and "rotateRefreshToken c env raw ip ua s = (s1, res)"
    and "\<forall>w. \<not> ae_fails env' w" and "rotateRefreshToken c env' raw ip ua s1 = (s2, res')"
  shows "res = Inl DbError \<and> map rt_id (ad_tokens (at_db s1)) = map rt_id (ad_tokens (at_db s))
    \<and> res' = Inl (AuthenticationError ''Token reuse detected. All sessions in this family have been revoked.'')
    \<and> (\<exists>t. findRefreshTokenByHash (ac_sha c raw) (at_db s) = Some t
        \<and> (\<forall>r \<in> set (ad_sessions (at_db s2)). as_familyId r = rt_familyId t \<longrightarrow>
            (\<forall>xs. session_refused c (as_id r) (auth_run c xs s2))))"
proof -
  obtain t r where t: "raw \<noteq> ''''" "findRefreshTokenByHash (ac_sha c raw) (at_db s) = Some t" "\<not> rt_isConsumed t" "\<not> rt_isRevoked t"
    "ae_now env \<le> rt_expiresAt t" "findSessionById (rt_sessionId t) (at_db s) = Some r" "\<not> as_isRevoked r"
    "ae_now env \<le> max_session_expiry c r"
    "\<not> registry_has (ae_held env) OfFamily (rt_familyId t) (at_registry s)"
    "\<not> registry_has (ae_held env) OfSession (rt_sessionId t) (at_registry s)" "rt_tokenHash t = ac_sha c raw"
    using assms(2) by (rule rotated_tokens) auto
  have r1: "rotateRefreshToken c env raw ip ua s
      = (s\<lparr>at_db := markTokenConsumed (ac_sha c raw) (ae_now env) (ac_sha c (ae_refreshToken env)) (at_db s)\<rparr>, Inl DbError)"
    using t assms(3) by (simp add: rotateRefreshToken_def sql_read replace_token_def Let_def sql_write) (simp add: auth_sql_def)
  then have s1: "at_db s1 = markTokenConsumed (ac_sha c raw) (ae_now env) (ac_sha c (ae_refreshToken env)) (at_db s)" "res = Inl DbError"
    using assms(4) by auto
  have ids: "map rt_id (ad_tokens (at_db s1)) = map rt_id (ad_tokens (at_db s))"
    by (simp add: s1 markTokenConsumed_def sql_update_def)
  obtain t1 where t1: "findRefreshTokenByHash (ac_sha c raw) (at_db s1) = Some t1" "rt_isConsumed t1" "rt_familyId t1 = rt_familyId t"
    using t(2,11) by (auto simp: s1(1) findRefreshTokenByHash_def markTokenConsumed_def sql_update_def row_by_update)
  have ok: "auth_ok (at_db s1)" unfolding s1(1) by (rule touched_ok [OF assms(1)]) simp
  show ?thesis using consumed_presented [OF ok t(1) t1(1,2) assms(5,6)] s1(2) ids t(2) unfolding t1(3) by blast
qed

subsection \<open>New sessions\<close>

lemma created_session:
  assumes "createSession c env w d n ip ua s = (s', Inr (tok, r))"
  shows "r = new_session c env w d n ip ua" and "tr_accessToken tok = fst (access_token c env r)"
    and "findSessionById (as_id r) (at_db s') = Some r" and "at_registry s' = at_registry s"
proof -
  obtain db1 db2 where i: "insert_session (new_session c env w d n ip ua) (at_db s) = Some db1"
      "insert_refresh_token (new_refresh_token c env (new_session c env w d n ip ua) (as_expiresAt (new_session c env w d n ip ua))) db1 = Some db2"
    and reg: "at_registry s' = at_registry s"
    by (rule create_cases [of c env w d n ip ua s]) (use assms in auto)
  show r: "r = new_session c env w d n ip ua" and "tr_accessToken tok = fst (access_token c env r)"
    using assms i by (auto simp: createSession_def auth_sql_def Let_def case_prod_unfold split: if_splits)
  have "ad_sessions (at_db s') = ad_sessions (at_db s) @ [r]" "row_by as_id (as_id r) (ad_sessions (at_db s)) = None"
    using assms i r by (auto simp: createSession_def auth_sql_def Let_def case_prod_unfold insert_session_def
        insert_refresh_token_def insertAuditLog_def split: if_splits)
  then show "findSessionById (as_id r) (at_db s') = Some r"
    by (simp add: findSessionById_def row_by_append row_by_def [of _ _ "[r]"])
  show "at_registry s' = at_registry s" by (rule reg)
qed

text \<open>
  Who has just logged in is let in, unless the wallet logged out everywhere within the same
  second: a logout everywhere refuses the access tokens issued up to its instant, but issue times are
  whole seconds, so a session created right after it is refused although its row is valid.
\<close>

theorem new_session_is_served:
  assumes "createSession c env w d n ip ua s = (s1, Inr (tok, r))"
    and "0 \<le> ae_now env" and "ae_now env div 1000 \<le> 2 ^ 52"
    and "0 < ts_accessTtlSeconds (ac_tokens c)" and "ts_accessTtlSeconds (ac_tokens c) \<le> 2 ^ 52"
    and "ae_now env' div 1000 \<le> ae_now env div 1000 + ts_accessTtlSeconds (ac_tokens c)" and "\<not> ae_fails env' FindSession"
    and "\<not> registry_has (ae_held env') OfSession (as_id r) (at_registry s)"
    and "\<not> registry_has (ae_held env') OfFamily (as_familyId r) (at_registry s)"
  shows "auth_verifyAccessToken c env' (tr_accessToken tok) s1 =
    (case registry_get (ae_held env') OfWallet w (at_registry s) of
       Some (revokedAt, _) \<Rightarrow> if ae_now env div 1000 \<le> revokedAt div 1000
         then (s1, Inl (AuthenticationError ''User sessions have been revoked''))
         else (s1, Inr (new_payload (ac_tokens c) (ae_now env) (ae_jti env) w (as_id r) (as_familyId r) d))
     | None \<Rightarrow> (s1, Inr (new_payload (ac_tokens c) (ae_now env) (ae_jti env) w (as_id r) (as_familyId r) d)))"
proof -
  note r = created_session [OF assms(1)]
  let ?p = "new_payload (ac_tokens c) (ae_now env) (ae_jti env) w (as_id r) (as_familyId r) d"
  have "as_walletPublicKey r = w" "as_deviceId r = d" "\<not> as_isRevoked r" by (simp_all add: r(1) new_session_def)
  then have v: "verifyAccessToken (ac_hmac c) (ac_tokens c) (ae_now env') (tr_accessToken tok) = Inr ?p"
    unfolding r(2) access_token_def using issued_token [of "ae_now env" "ac_tokens c"] assms(2-6) by simp
  have p: "ap_sub ?p = w" "ap_iat ?p = ae_now env div 1000" "ap_sessionId ?p = as_id r" "ap_familyId ?p = as_familyId r"
    by (simp_all add: new_payload_def Let_def)
  have sec: "k * 1000 \<le> m \<longleftrightarrow> k \<le> m div 1000" for k m :: int by linarith
  show ?thesis
    unfolding auth_verifyAccessToken_def v sum.case p r(4) isWalletRevoked_def
    using assms(7-9) r(3) \<open>\<not> as_isRevoked r\<close> by (simp add: sec sql_read split: option.split)
qed

subsection \<open>Guards of the routes\<close>

text \<open>
  \<open>api/middleware/auth.ts\<close>. A header is its text, absent when \<open>None\<close>. A guard lets the request pass, with the payload it sets, or answers itself.
\<close>

definition loadKeys :: "string option \<Rightarrow> string list option" where
  "loadKeys raw = (let keys = filter (\<lambda>k. k \<noteq> '''') (map js_trim (split_text CHR '','' (or_else '''' raw)))
     in if keys = [] then None else Some keys)"

definition bearer :: "string option \<Rightarrow> string" where
  "bearer header = (let h = or_else '''' header in if prefix ''Bearer '' h then js_trim (drop 7 h) else '''')"

datatype guard_answer = GuardPass "access_payload option" | GuardRefuse nat string

definition authMiddleware :: "auth_config \<Rightarrow> auth_env \<Rightarrow> string option \<Rightarrow> string option \<Rightarrow> auth_state \<Rightarrow> auth_state \<times> guard_answer" where
  "authMiddleware c env apiKeys authorization s =
     (let keys = loadKeys apiKeys; token = bearer authorization
      in if token \<noteq> '''' then
           (case auth_verifyAccessToken c env token s of
              (s, Inr p) \<Rightarrow> (s, GuardPass (Some p))
            | (s, Inl _) \<Rightarrow> (s, if token \<in> set (or_else [] keys) then GuardPass None
                               else GuardRefuse 401 ''Invalid or expired token''))
         else (s, if keys = None then GuardPass None else GuardRefuse 401 ''Missing Authorization header''))"

definition sessionAuthMiddleware :: "auth_config \<Rightarrow> auth_env \<Rightarrow> string option \<Rightarrow> auth_state \<Rightarrow> auth_state \<times> guard_answer" where
  "sessionAuthMiddleware c env authorization s =
     (let token = bearer authorization
      in if token = '''' then (s, GuardRefuse 401 ''Missing Authorization header'')
         else (case auth_verifyAccessToken c env token s of
              (s, Inr p) \<Rightarrow> (s, GuardPass (Some p))
            | (s, Inl _) \<Rightarrow> (s, GuardRefuse 401 ''Invalid or expired token'')))"

definition optionalAuthMiddleware :: "auth_config \<Rightarrow> auth_env \<Rightarrow> string option \<Rightarrow> auth_state \<Rightarrow> auth_state \<times> guard_answer" where
  "optionalAuthMiddleware c env authorization s =
     (let token = bearer authorization
      in if token = '''' then (s, GuardPass None)
         else (case auth_verifyAccessToken c env token s of
              (s, Inr p) \<Rightarrow> (s, GuardPass (Some p))
            | (s, Inl _) \<Rightarrow> (s, GuardPass None)))"

text \<open>The loop gathers the differing bits of all characters.\<close>

definition timingSafeEquals :: "string \<Rightarrow> string \<Rightarrow> bool" where
  "timingSafeEquals a b = (length a = length b
     \<and> fold (\<lambda>i diff. or diff (xor (of_char (a ! i)) (of_char (b ! i)))) [0..<length a] (0 :: nat) = 0)"

definition readPresentedKey :: "string list \<Rightarrow> string option \<Rightarrow> string" where
  "readPresentedKey adminHeader authorization = (case adminHeader of
       h # _ \<Rightarrow> if h \<noteq> '''' then js_trim h else bearer authorization
     | [] \<Rightarrow> bearer authorization)"

definition adminAuthMiddleware :: "string option \<Rightarrow> string list \<Rightarrow> string option \<Rightarrow> guard_answer" where
  "adminAuthMiddleware configured adminHeader authorization =
     (case configured of
        None \<Rightarrow> GuardRefuse 503 ''Admin API not configured''
      | Some expected \<Rightarrow> if expected = '''' then GuardRefuse 503 ''Admin API not configured''
          else (let presented = readPresentedKey adminHeader authorization
            in if presented = '''' \<or> \<not> timingSafeEquals presented expected then GuardRefuse 401 ''Unauthorized''
               else GuardPass None))"

lemma or_nat_zero: "or x y = 0 \<longleftrightarrow> x = 0 \<and> y = (0 :: nat)"
  by (auto simp: bit_eq_iff bit_or_iff)

lemma xor_nat_zero: "xor x y = 0 \<longleftrightarrow> x = (y :: nat)"
  by (auto simp: bit_eq_iff bit_xor_iff)

lemma fold_or_zero: "fold (\<lambda>i diff. or diff (f i)) xs d = (0 :: nat) \<longleftrightarrow> d = 0 \<and> (\<forall>i \<in> set xs. f i = 0)"
  by (induction xs arbitrary: d) (auto simp: or_nat_zero)

text \<open>The comparison that looks at every character is equality.\<close>

lemma timingSafeEquals_eq: "timingSafeEquals a b \<longleftrightarrow> a = b"
  unfolding timingSafeEquals_def fold_or_zero xor_nat_zero list_eq_iff_nth_eq [of a b] by auto

text \<open>
  C27. The guards fail closed. The guard of the session routes lets a request pass exactly with a token
  that is verified now, and hands on its payload; the guard of the admin routes lets one pass exactly
  with the configured key, blanks around it aside, and answers 503 while none is configured. The
  general guard lets requests without a payload pass only with a static key, or when no keys are
  configured and no token is sent.
\<close>

theorem guards_fail_closed:
  "(snd (sessionAuthMiddleware c env h s) = GuardPass u
      \<longleftrightarrow> bearer h \<noteq> '''' \<and> (\<exists>p. snd (auth_verifyAccessToken c env (bearer h) s) = Inr p \<and> u = Some p))
    \<and> (adminAuthMiddleware k x h = GuardPass v
      \<longleftrightarrow> v = None \<and> (\<exists>e. k = Some e \<and> e \<noteq> '''' \<and> readPresentedKey x h = e))
    \<and> ((\<exists>m. adminAuthMiddleware k x h = GuardRefuse 503 m) \<longleftrightarrow> or_else '''' k = '''')
    \<and> (snd (authMiddleware c env a h s) = GuardPass None
      \<longleftrightarrow> (if bearer h = '''' then loadKeys a = None
          else (\<exists>e. snd (auth_verifyAccessToken c env (bearer h) s) = Inl e) \<and> bearer h \<in> set (or_else [] (loadKeys a))))"
proof -
  obtain s' r where r: "auth_verifyAccessToken c env (bearer h) s = (s', r)" by fastforce
  have "snd (sessionAuthMiddleware c env h s) = GuardPass u
      \<longleftrightarrow> bearer h \<noteq> '''' \<and> (\<exists>p. snd (auth_verifyAccessToken c env (bearer h) s) = Inr p \<and> u = Some p)"
    by (cases r) (auto simp: sessionAuthMiddleware_def Let_def r)
  moreover have "adminAuthMiddleware k x h = GuardPass v
      \<longleftrightarrow> v = None \<and> (\<exists>e. k = Some e \<and> e \<noteq> '''' \<and> readPresentedKey x h = e)"
    by (cases k) (auto simp: adminAuthMiddleware_def Let_def timingSafeEquals_eq)
  moreover have "(\<exists>m. adminAuthMiddleware k x h = GuardRefuse 503 m) \<longleftrightarrow> or_else '''' k = ''''"
    by (cases k) (auto simp: adminAuthMiddleware_def Let_def)
  moreover have "snd (authMiddleware c env a h s) = GuardPass None
      \<longleftrightarrow> (if bearer h = '''' then loadKeys a = None
          else (\<exists>e. snd (auth_verifyAccessToken c env (bearer h) s) = Inl e) \<and> bearer h \<in> set (or_else [] (loadKeys a)))"
    by (cases r) (auto simp: authMiddleware_def Let_def r)
  ultimately show ?thesis by blast
qed

subsection \<open>Examples\<close>

definition demo_auth :: auth_config where
  "demo_auth = \<lparr> ac_sha = (\<lambda>x. x), ac_hmac = (\<lambda>k d. k), ac_tokens = \<lparr> ts_jwtSecret = ''key'', ts_accessTtlSeconds = 900,
     ts_refreshTtlSeconds = 3600, ts_sessionMaxTtlSeconds = 7200 \<rparr> \<rparr>"

definition auth_call :: "ms \<Rightarrow> string \<Rightarrow> auth_env" where
  "auth_call now raw = \<lparr> ae_now = now, ae_held = (\<lambda>_ _. True), ae_fails = (\<lambda>_. False), ae_sessionId = ''s'', ae_familyId = ''f'',
     ae_refreshToken = raw, ae_tokenId = raw, ae_jti = ''j'' \<rparr>"

definition demo_login :: auth_state where
  "demo_login = fst (createSession demo_auth (auth_call 0 ''a'') ''G'' ''d'' None ''ip'' ''ua'' empty_auth)"

lemma demo_login_ok: "auth_ok (at_db demo_login)"
proof -
  have "auth_ok (at_db empty_auth)" by (simp add: auth_ok_def empty_auth_def live_tokens_def)
  from auth_step_ok [OF this, of demo_auth "(OpCreate ''G'' ''d'' None ''ip'' ''ua'', auth_call 0 ''a'')"] show ?thesis
    by (simp add: demo_login_def)
qed

lemmas demo_auth_simps = demo_auth_def auth_call_def demo_login_def createSession_def auth_sql_def insert_session_def
  insert_refresh_token_def empty_auth_def new_session_def new_refresh_token_def row_by_def insertAuditLog_def Let_def
  case_prod_unfold findSessionById_def findRefreshTokenByHash_def

lemma demo_session: "\<exists>r. findSessionById ''s'' (at_db demo_login) = Some r \<and> as_id r = ''s'' \<and> as_familyId r = ''f''
    \<and> as_walletPublicKey r = ''G'' \<and> as_createdAt r = 0"
  by (simp add: demo_auth_simps)

lemma demo_rotation:
  "\<exists>s1 resp. rotateRefreshToken demo_auth (auth_call 5 ''b'') ''a'' ''ip'' ''ua'' demo_login = (s1, Inr resp)
    \<and> tr_refreshToken resp = ''b''"
  by (simp add: demo_auth_simps rotateRefreshToken_def registry_has_def registry_get_def max_session_expiry_def
      replace_token_def markTokenConsumed_def sql_update_def updateSessionActivity_def)

theorem revocation_is_final_witness:
  "session_refused demo_auth ''s'' (auth_run demo_auth [(OpRestart, auth_call 10 ''c'')]
     (auth_step demo_auth (OpRevokeFamily ''f'' ''bye'', auth_call 9 ''c'') demo_login))"
proof -
  obtain r where r: "findSessionById ''s'' (at_db demo_login) = Some r" "as_familyId r = ''f''" using demo_session by blast
  show ?thesis
    by (rule revocation_is_final [OF demo_login_ok r(1)]) (simp_all add: revokes_def r(2) auth_call_def)
qed

theorem reused_token_ends_the_family_witness:
  "snd (rotateRefreshToken demo_auth (auth_call 7 ''c'') ''a'' ''ip'' ''ua''
      (fst (rotateRefreshToken demo_auth (auth_call 5 ''b'') ''a'' ''ip'' ''ua'' demo_login)))
    = Inl (AuthenticationError ''Token reuse detected. All sessions in this family have been revoked.'')"
proof -
  obtain s1 resp where r: "rotateRefreshToken demo_auth (auth_call 5 ''b'') ''a'' ''ip'' ''ua'' demo_login = (s1, Inr resp)"
    using demo_rotation by blast
  obtain s2 res where r2: "rotateRefreshToken demo_auth (auth_call 7 ''c'') ''a'' ''ip'' ''ua'' (auth_run demo_auth [] s1) = (s2, res)"
    by fastforce
  have "\<forall>w. \<not> ae_fails (auth_call 7 ''c'') w" by (simp add: auth_call_def)
  from reused_token_ends_the_family [OF demo_login_ok r r2 this] show ?thesis using r r2 by (simp add: auth_run_def)
qed

theorem session_lifetime_bounded_witness:
  "\<exists>n. findRefreshTokenByHash ''b'' (at_db (fst (rotateRefreshToken demo_auth (auth_call 5 ''b'') ''a'' ''ip'' ''ua'' demo_login))) = Some n
    \<and> rt_expiresAt n \<le> 7200000"
proof -
  obtain s1 resp where r: "rotateRefreshToken demo_auth (auth_call 5 ''b'') ''a'' ''ip'' ''ua'' demo_login = (s1, Inr resp)"
    "tr_refreshToken resp = ''b''" using demo_rotation by blast
  have h: "0 \<le> ae_now (auth_call 5 b)" "ae_now (auth_call 5 b) div 1000 \<le> 2 ^ 52"
    "0 < ts_accessTtlSeconds (ac_tokens demo_auth)" "ts_accessTtlSeconds (ac_tokens demo_auth) \<le> 2 ^ 52" for b
    by (simp_all add: auth_call_def demo_auth_def)
  obtain t :: refresh_token and r' n where n: "findSessionById (rt_sessionId t) (at_db demo_login) = Some r'"
    "findRefreshTokenByHash (ac_sha demo_auth (tr_refreshToken resp)) (at_db s1) = Some n" "rt_expiresAt n \<le> max_session_expiry demo_auth r'"
    using session_lifetime_bounded [OF r(1) h] by blast
  have "as_createdAt r' = 0" using n(1) by (auto simp: demo_auth_simps split: if_splits)
  then show ?thesis using n r by (simp add: demo_auth_def max_session_expiry_def)
qed

theorem interrupted_rotation_locks_out_witness:
  "snd (rotateRefreshToken demo_auth (auth_call 7 ''c'') ''a'' ''ip'' ''ua''
      (fst (rotateRefreshToken demo_auth ((auth_call 5 ''b'')\<lparr>ae_fails := \<lambda>w. w = InsertToken\<rparr>) ''a'' ''ip'' ''ua'' demo_login)))
    = Inl (AuthenticationError ''Token reuse detected. All sessions in this family have been revoked.'')"
proof -
  let ?env = "(auth_call 5 ''b'')\<lparr>ae_fails := \<lambda>w. w = InsertToken\<rparr>"
  have e: "?env\<lparr>ae_fails := \<lambda>_. False\<rparr> = auth_call 5 ''b''" by (simp add: auth_call_def)
  obtain s0 resp where r: "rotateRefreshToken demo_auth (?env\<lparr>ae_fails := \<lambda>_. False\<rparr>) ''a'' ''ip'' ''ua'' demo_login = (s0, Inr resp)"
    using demo_rotation unfolding e by blast
  obtain s1 res where r1: "rotateRefreshToken demo_auth ?env ''a'' ''ip'' ''ua'' demo_login = (s1, res)" by fastforce
  obtain s2 res' where r2: "rotateRefreshToken demo_auth (auth_call 7 ''c'') ''a'' ''ip'' ''ua'' s1 = (s2, res')" by fastforce
  have "\<forall>w. \<not> ae_fails (auth_call 7 ''c'') w" "ae_fails ?env = (\<lambda>w. w = InsertToken)" by (simp_all add: auth_call_def)
  from interrupted_rotation_locks_out [OF demo_login_ok r this(2) r1 this(1) r2] show ?thesis using r1 r2 by simp
qed

theorem new_session_is_served_witness:
  "\<exists>s tok r. createSession demo_auth (auth_call 700 ''a'') ''G'' ''d'' None ''ip'' ''ua''
       (fst (revokeAllUserSessions (auth_call 100 ''z'') ''G'' ''bye'' None None empty_auth)) = (s, Inr (tok, r))
    \<and> snd (auth_verifyAccessToken demo_auth (auth_call 900 ''z'') (tr_accessToken tok) s)
       = Inl (AuthenticationError ''User sessions have been revoked'')"
proof -
  let ?s = "fst (revokeAllUserSessions (auth_call 100 ''z'') ''G'' ''bye'' None None empty_auth)"
  have q: "at_registry ?s = [((OfWallet, ''G''), 100, Some ''bye'')]"
    by (simp add: revokeAllUserSessions_def Let_def sql_write auth_call_def set_registry_def empty_auth_def)
  obtain s tok r where c: "createSession demo_auth (auth_call 700 ''a'') ''G'' ''d'' None ''ip'' ''ua'' ?s = (s, Inr (tok, r))"
    by (simp add: demo_auth_simps revokeAllUserSessions_def sql_write set_registry_def db_revokeAllUserSessions_def
        sql_update_def revokeTokensByUser_def revoke_tokens_def)
  have "snd (auth_verifyAccessToken demo_auth (auth_call 900 ''z'') (tr_accessToken tok) s)
      = Inl (AuthenticationError ''User sessions have been revoked'')"
    by (subst new_session_is_served [OF c]; (unfold q registry_has_def registry_get_def)?)
      (simp_all add: auth_call_def demo_auth_def)
  with c show ?thesis by blast
qed


lemma demo_rotated_token:
  "\<exists>t. findRefreshTokenByHash ''b''
     (at_db (fst (rotateRefreshToken demo_auth (auth_call 5 ''b'') ''a'' ''ip'' ''ua'' demo_login))) = Some t"
  by (simp add: demo_auth_simps rotateRefreshToken_def registry_has_def registry_get_def max_session_expiry_def
      replace_token_def markTokenConsumed_def sql_update_def updateSessionActivity_def)

theorem one_live_token_per_session_witness:
  "let db = at_db (auth_run demo_auth [(OpCreate ''G'' ''d'' None ''ip'' ''ua'', auth_call 0 ''a''),
       (OpRotate ''a'' ''ip'' ''ua'', auth_call 5 ''b'')] empty_auth)
   in length (live_tokens ''s'' db) \<le> 1
    \<and> (\<exists>t r. findRefreshTokenByHash ''b'' db = Some t \<and> findSessionById (rt_sessionId t) db = Some r \<and> as_familyId r = rt_familyId t)"
proof -
  let ?xs = "[(OpCreate ''G'' ''d'' None ''ip'' ''ua'', auth_call 0 ''a''), (OpRotate ''a'' ''ip'' ''ua'', auth_call 5 ''b'')]"
  let ?db = "at_db (auth_run demo_auth ?xs empty_auth)"
  have "auth_run demo_auth ?xs empty_auth
      = fst (rotateRefreshToken demo_auth (auth_call 5 ''b'') ''a'' ''ip'' ''ua'' demo_login)"
    by (simp add: auth_run_def demo_login_def)
  then obtain t where t: "findRefreshTokenByHash ''b'' ?db = Some t" using demo_rotated_token by auto
  then have "t \<in> set (ad_tokens ?db)" by (auto simp: findRefreshTokenByHash_def dest: row_by_Some)
  then show ?thesis using one_live_token_per_session [of demo_auth ?xs] t unfolding Let_def by blast
qed

end
