(* ===== verification/WalletNonce.thy ===== *)
theory WalletNonce
  imports Prelude
begin

text \<open>
  \<open>services/auth/walletChallenge.ts\<close>: the nonces of the wallet challenge, issued by the server, single
  use and expiring. The clock and the random nonces are arguments, and so is the verification of a
  signature by the Stellar library.
\<close>

subsection \<open>The store\<close>

definition WALLET_NONCE_TTL_MS :: int where
  "WALLET_NONCE_TTL_MS = 5 * 60 * 1000"

text \<open>Deriving the key throws for a text that is no public key: \<open>None\<close>.\<close>

definition verifyWalletSignature :: "(string \<Rightarrow> (string \<Rightarrow> string \<Rightarrow> bool) option) \<Rightarrow> string \<Rightarrow> string \<Rightarrow> string \<Rightarrow> bool" where
  "verifyWalletSignature keypair wallet challenge signature =
     (case keypair wallet of None \<Rightarrow> False | Some verify \<Rightarrow> verify challenge signature)"

datatype nonce_outcome = NonceValid | NonceReplayed | NonceExpired | NonceUnknown

record nonce_store =
  ns_pending :: "(string, ms) jsmap"
  ns_used :: "(string, ms) jsmap"
  ns_ttlMs :: int

definition new_nonces :: "int \<Rightarrow> nonce_store" where
  "new_nonces ttl = \<lparr> ns_pending = [], ns_used = [], ns_ttlMs = ttl \<rparr>"

definition ns_sweep :: "ms \<Rightarrow> nonce_store \<Rightarrow> nonce_store" where
  "ns_sweep now s = s\<lparr>ns_pending := filter (\<lambda>(_, e). \<not> e \<le> now) (ns_pending s),
     ns_used := filter (\<lambda>(_, e). \<not> e \<le> now) (ns_used s)\<rparr>"

definition ns_issue :: "ms \<Rightarrow> string \<Rightarrow> nonce_store \<Rightarrow> nonce_store" where
  "ns_issue now nonce s = (let s = ns_sweep now s
     in s\<lparr>ns_pending := jm_set (ns_pending s) nonce (now + ns_ttlMs s)\<rparr>)"

definition ns_consume :: "ms \<Rightarrow> string \<Rightarrow> nonce_store \<Rightarrow> nonce_store \<times> nonce_outcome" where
  "ns_consume now nonce s =
     (case jm_get (ns_used s) nonce of
        Some usedExpiry \<Rightarrow> if usedExpiry \<le> now then (s\<lparr>ns_used := jm_del (ns_used s) nonce\<rparr>, NonceExpired)
          else (s, NonceReplayed)
      | None \<Rightarrow> (case jm_get (ns_pending s) nonce of
          None \<Rightarrow> (s, NonceUnknown)
        | Some expiry \<Rightarrow>
            (let s = s\<lparr>ns_pending := jm_del (ns_pending s) nonce\<rparr>
             in if expiry \<le> now then (s, NonceExpired)
                else (s\<lparr>ns_used := jm_set (ns_used s) nonce expiry\<rparr>, NonceValid))))"

definition ns_size :: "nonce_store \<Rightarrow> nat" where
  "ns_size s = length (ns_pending s) + length (ns_used s)"

subsection \<open>Histories\<close>

datatype nonce_call = NIssue ms string | NConsume ms string | NSweep ms

text \<open>The store after a call, and the log of the nonces found valid, the last one first.\<close>

fun nonce_step :: "nonce_call \<Rightarrow> nonce_store \<times> (string \<times> ms) list \<Rightarrow> nonce_store \<times> (string \<times> ms) list" where
  "nonce_step (NIssue now n) (s, l) = (ns_issue now n s, l)"
| "nonce_step (NSweep now) (s, l) = (ns_sweep now s, l)"
| "nonce_step (NConsume now n) (s, l) = (case ns_consume now n s of (s', r) \<Rightarrow> (s', if r = NonceValid then (n, now) # l else l))"

definition nonce_run :: "nonce_call list \<Rightarrow> nonce_store \<Rightarrow> nonce_store \<times> (string \<times> ms) list" where
  "nonce_run xs s = fold nonce_step xs (s, [])"

definition issued :: "nonce_call list \<Rightarrow> (string \<times> ms) list" where
  "issued xs = List.map_filter (\<lambda>x. case x of NIssue now n \<Rightarrow> Some (n, now) | _ \<Rightarrow> None) xs"

text \<open>A pending nonce was issued, and every answer \<open>valid\<close> is charged against an issue of its own.\<close>

lemma jm_get_filter: "jm_wf m \<Longrightarrow>
  jm_get (filter (\<lambda>(k, v). P v) m) k = (case jm_get m k of Some v \<Rightarrow> if P v then Some v else None | None \<Rightarrow> None)"
proof (induction m)
  case (Cons x m)
  obtain j w where x: "x = (j, w)" by (cases x)
  have "jm_get m j = None" using Cons.prems by (simp add: x map_of_eq_None_iff)
  then show ?case using Cons by (auto simp: x split: option.splits)
qed simp

lemma jm_wf_filter: "jm_wf m \<Longrightarrow> jm_wf (filter p m)"
  by (rule distinct_filter_key)

definition charged :: "(string \<times> ms) list \<Rightarrow> (string, ms) jsmap \<Rightarrow> (string \<times> ms) list \<Rightarrow> bool" where
  "charged iss m l \<longleftrightarrow> (\<forall>n. length (filter (\<lambda>v. fst v = n) l) + (if jm_get m n = None then 0 else 1)
     \<le> length (filter (\<lambda>v. fst v = n) iss))"

lemma charged_less:
  assumes "charged iss m l" and "\<And>n e. jm_get m' n = Some e \<Longrightarrow> jm_get m n = Some e"
  shows "charged iss m' l"
  unfolding charged_def
proof
  fix n
  have "(if jm_get m' n = None then 0 else 1) \<le> (if jm_get m n = None then 0 else 1 :: nat)" using assms(2) by auto
  then show "length (filter (\<lambda>v. fst v = n) l) + (if jm_get m' n = None then 0 else 1) \<le> length (filter (\<lambda>v. fst v = n) iss)"
    using assms(1) unfolding charged_def by (meson add_left_mono order_trans)
qed

lemma charged_issue:
  assumes "charged iss m l"
  shows "charged (iss @ [(n, t)]) (jm_set m n e) l"
  unfolding charged_def
proof
  fix k
  show "length (filter (\<lambda>v. fst v = k) l) + (if jm_get (jm_set m n e) k = None then 0 else 1)
      \<le> length (filter (\<lambda>v. fst v = k) (iss @ [(n, t)]))"
    using assms [unfolded charged_def, rule_format, of k] by (simp add: js_map split: if_splits)
qed

lemma charged_valid:
  assumes "charged iss m l" and "jm_get m n = Some e"
  shows "charged iss (jm_del m n) ((n, t) # l)"
  unfolding charged_def
proof
  fix k
  show "length (filter (\<lambda>v. fst v = k) ((n, t) # l)) + (if jm_get (jm_del m n) k = None then 0 else 1)
      \<le> length (filter (\<lambda>v. fst v = k) iss)"
    using assms(1) [unfolded charged_def, rule_format, of k] assms(2) by (cases "k = n") (simp_all add: js_map)
qed

definition from_issue :: "int \<Rightarrow> (string \<times> ms) list \<Rightarrow> (string, ms) jsmap \<Rightarrow> bool" where
  "from_issue ttl iss m \<longleftrightarrow> jm_wf m \<and> (\<forall>n e. jm_get m n = Some e \<longrightarrow> (n, e - ttl) \<in> set iss)"

definition in_time :: "int \<Rightarrow> (string \<times> ms) list \<Rightarrow> (string \<times> ms) list \<Rightarrow> bool" where
  "in_time ttl iss l \<longleftrightarrow> (\<forall>(n, t) \<in> set l. \<exists>t0. (n, t0) \<in> set iss \<and> t < t0 + ttl)"

definition nonce_inv :: "int \<Rightarrow> (string \<times> ms) list \<Rightarrow> nonce_store \<times> (string \<times> ms) list \<Rightarrow> bool" where
  "nonce_inv ttl iss st \<longleftrightarrow> ns_ttlMs (fst st) = ttl \<and> from_issue ttl iss (ns_pending (fst st))
     \<and> in_time ttl iss (snd st) \<and> charged iss (ns_pending (fst st)) (snd st)"

lemma sweep_inv:
  assumes "nonce_inv ttl iss (s, l)"
  shows "nonce_inv ttl iss (ns_sweep now s, l)"
proof -
  have w: "jm_wf (ns_pending s)" using assms by (simp add: nonce_inv_def from_issue_def)
  have f: "jm_get (ns_pending (ns_sweep now s)) n = Some e \<Longrightarrow> jm_get (ns_pending s) n = Some e" for n e
    using jm_get_filter [OF w, of "\<lambda>e. \<not> e \<le> now" n] by (auto simp: ns_sweep_def split: option.splits if_splits)
  have "jm_wf (ns_pending (ns_sweep now s))" "ns_ttlMs (ns_sweep now s) = ns_ttlMs s"
    using w by (simp_all add: ns_sweep_def jm_wf_filter)
  moreover have "charged iss (ns_pending (ns_sweep now s)) l"
    by (rule charged_less [OF _ f]) (use assms in \<open>simp add: nonce_inv_def\<close>)
  ultimately show ?thesis using assms f by (simp add: nonce_inv_def from_issue_def)
qed

lemma consume_cases:
  "(snd (ns_consume now n s) \<noteq> NonceValid
      \<and> (\<forall>k e. jm_get (ns_pending (fst (ns_consume now n s))) k = Some e \<longrightarrow> jm_get (ns_pending s) k = Some e)
      \<and> (jm_wf (ns_pending s) \<longrightarrow> jm_wf (ns_pending (fst (ns_consume now n s)))))
   \<or> (\<exists>e. snd (ns_consume now n s) = NonceValid \<and> jm_get (ns_pending s) n = Some e \<and> now < e
      \<and> ns_pending (fst (ns_consume now n s)) = jm_del (ns_pending s) n)"
  by (cases "jm_get (ns_used s) n"; cases "jm_get (ns_pending s) n")
    (auto simp: ns_consume_def Let_def js_map)

lemma consume_ttl: "ns_ttlMs (fst (ns_consume now n s)) = ns_ttlMs s"
  by (auto simp: ns_consume_def Let_def split: option.split)

lemma issued_single [simp]: "issued [] = []" "issued [NIssue now n] = [(n, now)]" "issued [NConsume now n] = []" "issued [NSweep now] = []"
  by (simp_all add: issued_def List.map_filter_simps)

lemma nonce_step_inv:
  assumes "nonce_inv ttl iss st"
  shows "nonce_inv ttl (iss @ issued [x]) (nonce_step x st)"
proof -
  obtain s l where st: "st = (s, l)" by (cases st)
  show ?thesis
  proof (cases x)
    case (NSweep now)
    then show ?thesis using sweep_inv [OF assms [unfolded st]] by (simp add: st)
  next
    case (NIssue now n)
    have i: "nonce_inv ttl iss (ns_sweep now s, l)" using sweep_inv [OF assms [unfolded st]] .
    then have c: "charged (iss @ [(n, now)]) (jm_set (ns_pending (ns_sweep now s)) n (now + ns_ttlMs (ns_sweep now s))) l"
      by (intro charged_issue) (simp add: nonce_inv_def)
    show ?thesis using i c unfolding nonce_inv_def from_issue_def in_time_def
      by (auto simp: NIssue st ns_issue_def Let_def js_map jm_wf_set)
  next
    case (NConsume now n)
    obtain s' r where c: "ns_consume now n s = (s', r)" by fastforce
    have t: "ns_ttlMs s' = ns_ttlMs s" using consume_ttl [of now n s] c by simp
    from consume_cases [of now n s] show ?thesis
    proof (elim disjE conjE exE)
      assume 1: "snd (ns_consume now n s) \<noteq> NonceValid"
        and 2: "\<forall>k e. jm_get (ns_pending (fst (ns_consume now n s))) k = Some e \<longrightarrow> jm_get (ns_pending s) k = Some e"
        and 3: "jm_wf (ns_pending s) \<longrightarrow> jm_wf (ns_pending (fst (ns_consume now n s)))"
      have r: "nonce_step x (s, l) = (s', l)" using 1 c by (simp add: NConsume st)
      have "charged iss (ns_pending s) l" using assms by (simp add: nonce_inv_def st)
      then have "charged iss (ns_pending s') l" by (rule charged_less) (use 2 c in simp)
      then show ?thesis using assms 2 3 c t unfolding nonce_inv_def st r from_issue_def by (simp add: NConsume)
    next
      fix ex
      assume 1: "snd (ns_consume now n s) = NonceValid" "jm_get (ns_pending s) n = Some ex" "now < ex"
        and 2: "ns_pending (fst (ns_consume now n s)) = jm_del (ns_pending s) n"
      have r: "nonce_step x (s, l) = (s', (n, now) # l)" using 1 c by (simp add: NConsume st)
      have "(n, ex - ttl) \<in> set iss" using assms 1(2) by (simp add: nonce_inv_def from_issue_def st)
      then have v: "\<exists>t0. (n, t0) \<in> set iss \<and> now < t0 + ttl" using 1(3) by (intro exI [of _ "ex - ttl"]) simp
      have "charged iss (ns_pending s') ((n, now) # l)" using charged_valid [OF _ 1(2)] assms 2 c by (simp add: nonce_inv_def st)
      then show ?thesis using assms v 2 c t unfolding nonce_inv_def st r from_issue_def in_time_def
        by (simp add: NConsume js_map jm_wf_del)
    qed
  qed
qed

lemma issued_append: "issued (xs @ ys) = issued xs @ issued ys"
  by (simp add: issued_def List.map_filter_def)

lemma nonce_run_inv: "nonce_inv ttl (issued xs) (nonce_run xs (new_nonces ttl))"
proof (induction xs rule: rev_induct)
  case Nil
  then show ?case by (simp add: nonce_inv_def nonce_run_def new_nonces_def from_issue_def in_time_def charged_def)
next
  case (snoc x xs)
  then show ?case using nonce_step_inv [of ttl "issued xs" "nonce_run xs (new_nonces ttl)" x]
    by (simp add: issued_append nonce_run_def)
qed

text \<open>
  C38. A nonce works once. In any history of a store, whatever the clock does, a nonce is found valid at
  most as often as it was issued, so once as the random nonces differ, and only before its expiry.
\<close>

theorem nonce_valid_once:
  "length (filter (\<lambda>v. fst v = n) (snd (nonce_run xs (new_nonces ttl)))) \<le> length (filter (\<lambda>v. fst v = n) (issued xs))
    \<and> list_all (\<lambda>(n, t). \<exists>t0. NIssue t0 n \<in> set xs \<and> t < t0 + ttl) (snd (nonce_run xs (new_nonces ttl)))"
proof -
  have i: "nonce_inv ttl (issued xs) (nonce_run xs (new_nonces ttl))" by (rule nonce_run_inv)
  have m: "(n, t0) \<in> set (issued xs) \<Longrightarrow> NIssue t0 n \<in> set xs" for n t0
    by (auto simp: issued_def List.map_filter_def split: nonce_call.splits)
  have "length (filter (\<lambda>v. fst v = n) (snd (nonce_run xs (new_nonces ttl)))) \<le> length (filter (\<lambda>v. fst v = n) (issued xs))"
    using i unfolding nonce_inv_def charged_def by (metis add_leD1)
  moreover have "in_time ttl (issued xs) (snd (nonce_run xs (new_nonces ttl)))" using i by (simp add: nonce_inv_def)
  ultimately show ?thesis using m unfolding in_time_def list_all_iff by blast
qed

text \<open>A replay is refused: the first answer is \<open>valid\<close>, the second one is not.\<close>

lemma nonce_replay_refused:
  "snd (ns_consume 10 ''n'' (ns_issue 0 ''n'' (new_nonces 60))) = NonceValid
    \<and> snd (ns_consume 10 ''n'' (fst (ns_consume 9 ''n'' (ns_issue 0 ''n'' (new_nonces 60))))) = NonceReplayed"
  by (simp add: ns_consume_def ns_issue_def ns_sweep_def new_nonces_def Let_def)

end
