(* ===== verification/Spec2Isabelle.thy ===== *)
theory Spec2Isabelle
  imports Prelude JsNumber CircuitBreaker VeniceBreaker BreakerHealth Backoff JobStore JobQueue JobWorker
    TokenEstimate BudgetLedger DagScheduler JsValue AgentDispatch EventLog EventReplay TaskPlan
    TaskStream WalletQuota AgentWatchdog KeyPool Idempotency Payments PaymentDrift Reconciliation
    EventArchive EventColdArchive Keyset TaskStore CostStore JsonText AuthTokens AuthSessions WalletNonce
begin

text \<open>
  Verification of the backend of AI-Net (\<open>src/backend/src\<close>, TypeScript).

  \<^bold>\<open>The program.\<close> A client posts a prompt. The prompt is decomposed into a DAG of nodes, a job for the
  task is put into a durable queue, and a worker claims it and hands it to the coordinator, which
  runs the DAG: it reserves tokens for each node from the task's budget, sends the node to an agent
  over HTTP, retries and falls back to another agent, and publishes what happens on an event bus.
  The bus numbers the events of a task and stores them; clients follow them through a stream hub,
  and read models are folded from the log; a retention pass moves the events of finished tasks into an
  archive, and the archive's old days into files. Payments are locked, released and refunded on the
  chain, and a reconciliation pass repairs what table and chain disagree on. Around this core stand
  the circuit breakers, the key pool of the language-model provider, the quotas of the wallets, the
  idempotency keys of requests, the watchdog that evicts silent agents, and the sessions and tokens of
  the clients.

  \<^bold>\<open>Theories\<close> (paths below \<open>src/backend/src\<close>):

  \<^item> \<open>Prelude\<close>: basic types, JavaScript's \<open>Map\<close> as an association list in insertion order, first best
    elements, counting sums, the locale \<open>guarded_table\<close> of tables whose statements update the rows
    that pass a guard.
  \<^item> \<open>JsNumber\<close>: doubles as rationals with the rounding \<open>fl\<close>, and the locale \<open>rounding\<close> of what the
    clients use of it. \<open>JsValue\<close>: JSON values and the string operations on them.
  \<^item> \<open>CircuitBreaker\<close>, \<open>BreakerHealth\<close>: \<open>services/circuitBreaker.ts\<close>; \<open>VeniceBreaker\<close>:
    \<open>services/venice/circuitBreaker.ts\<close>. A breaker is a record, a method a function on it that also
    returns what it throws or delivers; the reachable states are an inductive predicate.
  \<^item> \<open>Backoff\<close>, \<open>JobStore\<close>, \<open>JobQueue\<close>, \<open>JobWorker\<close>: \<open>queue/backoff.ts\<close>, \<open>jobStore.ts\<close>, \<open>dlq.ts\<close>,
    \<open>index.ts\<close>, \<open>worker.ts\<close>. The SQLite table is the list of its rows in insertion order, a statement
    a function on it; several workers and the store are a cluster, and each callback of a worker
    (poll, heartbeat, end of a handler, stop) is a step, so that histories interleave them freely.
  \<^item> \<open>TokenEstimate\<close>, \<open>BudgetLedger\<close>: \<open>services/budget/tokens.ts\<close>, \<open>ledger.ts\<close>, \<open>pricing.ts\<close>.
  \<^item> \<open>TaskPlan\<close>: \<open>coordinator/index.ts\<close>. \<open>DagScheduler\<close>, \<open>AgentDispatch\<close>: \<open>coordinator/coordinator.ts\<close>
    and \<open>dispatch.ts\<close>. The scheduler's state is a record; what an agent answers is an argument; a
    run is a sequence of dispatches and releases in any order the promises may settle in.
  \<^item> \<open>EventLog\<close>: \<open>coordinator/eventBus.ts\<close> over \<open>events/eventStore.ts\<close>; \<open>EventReplay\<close>:
    \<open>events/replay.ts\<close> and \<open>projection.ts\<close>; \<open>TaskStream\<close>: \<open>api/routes/taskStreamHub.ts\<close>, which reads
    the log through the locale \<open>cursor_log\<close>.
  \<^item> \<open>WalletQuota\<close>: \<open>services/quota/walletQuota.ts\<close> and \<open>dailyQuota.ts\<close>. \<open>AgentWatchdog\<close>:
    \<open>services/agentWatchdog.ts\<close> and the statements of \<open>db/agents.ts\<close> it uses. \<open>KeyPool\<close>:
    \<open>services/venice/keyPool.ts\<close> and \<open>keyHealth.ts\<close>.
  \<^item> \<open>Idempotency\<close>: \<open>services/idempotency.ts\<close> and its middleware, requests as interleaved state
    machines over the table. \<open>Payments\<close>: \<open>payment/payment.ts\<close> and \<open>utils.ts\<close> over \<open>db/index.ts\<close>.
    \<open>PaymentDrift\<close>: \<open>services/reconciliation.drift.ts\<close> and \<open>reconciliation.alerts.ts\<close>;
    \<open>Reconciliation\<close>: \<open>services/reconciliation.ts\<close>, with the locale \<open>pending_store\<close> of the operator's
    queue, interpreted by the store in memory and the one in SQLite.
  \<^item> \<open>EventArchive\<close>: \<open>events/eventArchive.ts\<close> and \<open>services/eventRetention.ts\<close>; \<open>EventColdArchive\<close>:
    \<open>events/eventColdArchive.ts\<close>, days of rows as files with checksums.
  \<^item> \<open>Keyset\<close>: pages by keyset in general, the locale \<open>keyset\<close>. \<open>TaskStore\<close>: \<open>db/tasks.ts\<close>,
    \<open>db/cursor.ts\<close> and \<open>coordinator/taskStore.ts\<close>, which interprets it for both orders of the listing
    and for the event history. \<open>CostStore\<close>: the cost tables of \<open>db/tasks.ts\<close> and
    \<open>services/budget/persistence.ts\<close>, \<open>limits.ts\<close> and \<open>alerts.ts\<close>.
  \<^item> \<open>JsonText\<close>: \<open>JSON.stringify\<close> and \<open>JSON.parse\<close> on texts. \<open>AuthTokens\<close>:
    \<open>services/auth/tokenService.ts\<close>, with the locale \<open>token_scheme\<close> of what a token promises,
    interpreted by its signed tokens. \<open>AuthSessions\<close>: \<open>db/auth.ts\<close>, \<open>services/auth/authService.ts\<close>,
    \<open>revocationRegistry.ts\<close> and \<open>api/middleware/auth.ts\<close>; a history is a list of calls, each with the
    statement that fails in it. \<open>WalletNonce\<close>: \<open>services/auth/walletChallenge.ts\<close>.

  \<^bold>\<open>What is shown.\<close>
  \<^item> Breakers: the state invariant of both, blocking until recovery, the number of probes, and that
    late results do not extend a cooldown.
  \<^item> Jobs: a claim takes the best runnable row; parked jobs stay parked; recovery takes back just the
    lapsed leases; no job runs twice while leases are renewed in time; a job that always throws runs
    exactly its number of attempts and becomes a dead letter, which is replayed once. Two gaps of the
    protocol are shown by runs: the race of \<open>enqueueUnique\<close> and the late settlement.
  \<^item> Budget: reservations and spend never exceed the task's budget, breakdowns add up, and running a
    node settles its own reservation whatever its dispatch does.
  \<^item> Scheduling: every schedule computes the same set of completed nodes, the least one closed under
    the dependencies (a refinement of an inductive specification); runs are safe and settle within
    twice as many steps as there are nodes; the nodes that hang or run after a cancellation.
  \<^item> Events: sequence numbers without gaps over restarts, replay as a refinement of the run, agreement
    of the projections, and delivery exactly once to every client of the stream.
  \<^item> Quotas, watchdog, keys: the bound over every trailing day, a pass as a function of each row,
    evicted agents were silent, the choice of the healthiest key and the ranking of the providers.
  \<^item> Idempotency: a stored response is final, and one handler per key at a time while handlers end
    before their reservations lapse.
  \<^item> Payments: every history keeps the table typed, releases are final, the escrowed amount is the
    recorded one. Reconciliation: detection is a classification of each record, a pass never takes
    back a release, and two passes around an outage of the chain release every escrow.
  \<^item> Retention: passes treat each task by itself, take finished tasks only, and archive and log are
    together the whole history within the life of a process; after a restart events can be lost. The
    cold tier keeps its rows under failing file operations and gives them back, but a torn write
    blocks it.
  \<^item> Task store: listings through cursors survive concurrent writes, the pages are the listing, the
    history gives back what was recorded, a shutdown leaves tasks that can run again. Costs: a
    settlement overwrites what was written before, the daily budget stops work exactly when reached
    and announces each threshold once a day.
  \<^item> Authentication: an issued token is read back as what was signed; in every history a session has
    at most one refresh token that can be used, a revocation stays, a token used twice ends its
    family, no session outlives its absolute lifetime, the guards refuse when a check cannot be made,
    and a nonce is valid once. A rotation interrupted between its statements locks the session out.

  \<^bold>\<open>Numbers, bounds and fuel.\<close> Counters and epoch milliseconds are \<open>int\<close> or \<open>nat\<close>: they stay below
  \<open>2 ^ 53\<close>, where doubles are exact. Rates, prices, scores and delays are rationals rounded by \<open>fl\<close>
  after each operation; overflow to infinity is out of the model, and a value that is not finite is
  \<open>None\<close> where the code tests for it. No definition uses fuel: recursions are structural or
  have a measure, and the drain loop of the stream hub is a partial function, proved to return.

  \<^bold>\<open>Arguments of the model.\<close> The clock, \<open>Math.random\<close>, UUIDs, hashes, the answers of \<open>fetch\<close>, the
  outcomes of job handlers, whether a database write succeeds, and the configuration; the answers of
  the chain and what else calls the payment service during a pass; the answers of status lookups,
  which file operation fails, the checksum of a file and the order of its names; the sum SQLite
  computes over doubles; the hash of a refresh token, the keyed hash of an access token, which
  entries the registry's LRU cache still holds and which statement of a call fails.

  \<^bold>\<open>Not modelled.\<close> HTTP routes, request schemas and OpenAPI documents (declarations and glue over the
  services); signatures of agents (the Stellar library); migrations, connection pools, backups and
  command-line tools (SQL and files); timers and webhooks of the reconciliation; metrics, tracing and
  logs (they decide nothing); the agents' prompts; the quality scorer (regular expressions on free
  text); parsing of pricing overrides. The front end and the contracts in Rust are other programs.
\<close>

end
